(* ===== verification/Prelude.thy ===== *)
theory Prelude
  imports Main "HOL-Library.Char_ord" "HOL-Library.List_Lexorder"
begin

text \<open>
  Shared vocabulary of the development: the outcome of a C++ call, the loops that may throw, the
  algorithms of the C++ standard library the sources use (\<open>std::find_if\<close>, \<open>std::upper_bound\<close>,
  \<open>std::map\<close>), and the generic lemmas about them that the component theories rest on.
\<close>

section \<open>Outcomes\<close>

text \<open>
  A call either returns a value or leaves by an exception.  A failed \<open>assert\<close> ends the program in
  the debug build the tests use; dereferencing a null or dangling pointer is undefined behaviour.
  Both are outcomes of their own, so a theorem that a call returns also says that neither happens.
\<close>

datatype err =
    LogicError string
  | InvalidArgument string
  | AssertFailed
  | UndefinedBehaviour
  | JsonTypeError
  | DateError
  | BadVariantAccess
  | SystemError

type_synonym 'a res = "err + 'a"

definition bindr :: "'a res \<Rightarrow> ('a \<Rightarrow> 'b res) \<Rightarrow> 'b res" where
  "bindr m f = (case m of Inl e \<Rightarrow> Inl e | Inr a \<Rightarrow> f a)"

definition assert_that :: "bool \<Rightarrow> 'a res \<Rightarrow> 'a res" where
  "assert_that c m = (if c then m else Inl AssertFailed)"

definition returns :: "'a res \<Rightarrow> bool" where
  "returns m = (case m of Inl _ \<Rightarrow> False | Inr _ \<Rightarrow> True)"

named_theorems outcome_simps

lemma bindr_Inl [simp]: "bindr (Inl e) f = Inl e"
  by (simp add: bindr_def)

lemma bindr_Inr [simp]: "bindr (Inr a) f = f a"
  by (simp add: bindr_def)

lemma bindr_eq_Inr [simp]: "bindr m f = Inr b \<longleftrightarrow> (\<exists>a. m = Inr a \<and> f a = Inr b)"
  by (cases m) auto

lemma assert_that_True [simp]: "c \<Longrightarrow> assert_that c m = m"
  by (simp add: assert_that_def)

lemma assert_that_eq_Inr [simp]: "assert_that c m = Inr a \<longleftrightarrow> c \<and> m = Inr a"
  by (simp add: assert_that_def)

lemma returns_Inr [simp]: "returns (Inr a)"
  by (simp add: returns_def)

lemma returns_Inl [simp]: "\<not> returns (Inl e)"
  by (simp add: returns_def)

lemma returns_iff: "returns m \<longleftrightarrow> (\<exists>a. m = Inr a)"
  by (cases m) auto

text \<open>A range-based \<open>for\<close> whose body may throw: the first exception leaves the loop.\<close>

fun fold_res :: "('a \<Rightarrow> 's \<Rightarrow> 's res) \<Rightarrow> 'a list \<Rightarrow> 's \<Rightarrow> 's res" where
  "fold_res f [] s = Inr s"
| "fold_res f (x # xs) s = bindr (f x s) (fold_res f xs)"

fun map_res :: "('a \<Rightarrow> 'b res) \<Rightarrow> 'a list \<Rightarrow> 'b list res" where
  "map_res f [] = Inr []"
| "map_res f (x # xs) = bindr (f x) (\<lambda>y. bindr (map_res f xs) (\<lambda>ys. Inr (y # ys)))"

lemma fold_res_append: "fold_res f (xs @ ys) s = bindr (fold_res f xs s) (fold_res f ys)"
  by (induction xs arbitrary: s) (auto simp: bindr_def split: sum.splits)

lemma fold_res_invariant:
  assumes "fold_res f xs s = Inr t" and "P s"
    and "\<And>x u v. x \<in> set xs \<Longrightarrow> P u \<Longrightarrow> f x u = Inr v \<Longrightarrow> P v"
  shows "P t"
  using assms by (induction xs arbitrary: s) auto

lemma map_res_Inr:
  "(\<And>x. x \<in> set xs \<Longrightarrow> f x = Inr (g x)) \<Longrightarrow> map_res f xs = Inr (map g xs)"
  by (induction xs) auto

lemma map_res_map: "map_res f (map g xs) = map_res (f \<circ> g) xs"
  by (induction xs) auto

lemma sorted_wrt_distinct: "sorted_wrt R xs \<Longrightarrow> \<forall>x \<in> set xs. \<not> R x x \<Longrightarrow> distinct xs"
  by (induction xs) auto

lemma sorted_wrt_pair:
  "sorted_wrt R xs \<Longrightarrow> x \<in> set xs \<Longrightarrow> y \<in> set xs \<Longrightarrow> x \<noteq> y \<Longrightarrow> R x y \<or> R y x"
  by (induction xs) auto

section \<open>Searching: \<open>std::find_if\<close>\<close>

text \<open>The position of the first element with the property; \<open>None\<close> stands for \<open>end()\<close>.\<close>

fun find_index :: "('a \<Rightarrow> bool) \<Rightarrow> 'a list \<Rightarrow> nat option" where
  "find_index p [] = None"
| "find_index p (x # xs) = (if p x then Some 0 else map_option Suc (find_index p xs))"

lemma find_index_None: "find_index p xs = None \<longleftrightarrow> (\<forall>x \<in> set xs. \<not> p x)"
  by (induction xs) auto

lemma find_index_SomeD:
  "find_index p xs = Some i \<Longrightarrow> i < length xs \<and> p (xs ! i) \<and> (\<forall>j < i. \<not> p (xs ! j))"
proof (induction xs arbitrary: i)
  case (Cons x xs)
  then show ?case by (force simp: less_Suc_eq_0_disj split: if_splits)
qed simp

lemma find_index_SomeI:
  "i < length xs \<Longrightarrow> p (xs ! i) \<Longrightarrow> (\<And>j. j < i \<Longrightarrow> \<not> p (xs ! j)) \<Longrightarrow> find_index p xs = Some i"
proof (induction xs arbitrary: i)
  case (Cons x xs)
  show ?case
  proof (cases i)
    case (Suc k)
    have "\<not> p x" using Cons.prems(3) [of 0] Suc by simp
    moreover have "find_index p xs = Some k"
    proof (rule Cons.IH)
      show "k < length xs" and "p (xs ! k)" using Cons.prems(1,2) Suc by simp_all
      show "\<not> p (xs ! j)" if "j < k" for j using Cons.prems(3) [of "Suc j"] Suc that by simp
    qed
    ultimately show ?thesis using Suc by simp
  qed (use Cons.prems in simp)
qed simp

lemma find_index_key:
  assumes "distinct (map f xs)" and "i < length xs"
  shows "find_index (\<lambda>x. f x = f (xs ! i)) xs = Some i"
proof (rule find_index_SomeI)
  fix j assume "j < i"
  with assms have "map f xs ! j \<noteq> map f xs ! i"
    by (subst nth_eq_iff_index_eq) auto
  with \<open>j < i\<close> assms(2) show "f (xs ! j) \<noteq> f (xs ! i)" by simp
qed (use assms in simp_all)

lemma find_index_append:
  "find_index p (xs @ ys) = (case find_index p xs of
     Some i \<Rightarrow> Some i | None \<Rightarrow> map_option (\<lambda>i. length xs + i) (find_index p ys))"
proof (induction xs)
  case Nil
  show ?case by (cases "find_index p ys") simp_all
next
  case (Cons x xs)
  then show ?case
    by (cases "find_index p ys") (auto split: option.split )
qed

lemma find_index_map: "find_index p (map f xs) = find_index (\<lambda>x. p (f x)) xs"
  by (induction xs) auto

lemma find_by_index: "List.find p xs = map_option (\<lambda>i. xs ! i) (find_index p xs)"
  by (induction xs) (simp_all add: option.map_comp comp_def)

lemma find_index_upt: "find_index (\<lambda>j. p (xs ! j)) [0..<length xs] = find_index p xs"
  by (subst (2) map_nth [of xs, symmetric]) (simp only: find_index_map)

section \<open>Binary search: \<open>std::upper_bound\<close>\<close>

text \<open>
  The halving search over the positions \<open>first, \<dots>, first + len - 1\<close>: \<open>p x\<close> is the comparison
  \<open>comp(value, x)\<close>.  The result is the position of the first element the comparison holds for,
  \<open>length xs\<close> standing for \<open>end()\<close>, whenever the range is partitioned by the comparison.
\<close>

function upper_bound_loop :: "('a \<Rightarrow> bool) \<Rightarrow> 'a list \<Rightarrow> nat \<Rightarrow> nat \<Rightarrow> nat" where
  "upper_bound_loop p xs first len =
     (if len = 0 then first
      else if p (xs ! (first + len div 2)) then upper_bound_loop p xs first (len div 2)
      else upper_bound_loop p xs (Suc (first + len div 2)) (len - Suc (len div 2)))"
  by pat_completeness auto
termination
  by (relation "measure (\<lambda>(p, xs, first, len). len)") auto

declare upper_bound_loop.simps [simp del]

definition upper_bound :: "('a \<Rightarrow> bool) \<Rightarrow> 'a list \<Rightarrow> nat" where
  "upper_bound p xs = upper_bound_loop p xs 0 (length xs)"

definition partitioned :: "('a \<Rightarrow> bool) \<Rightarrow> 'a list \<Rightarrow> bool" where
  "partitioned p xs \<longleftrightarrow> (\<forall>i j. i \<le> j \<longrightarrow> j < length xs \<longrightarrow> p (xs ! i) \<longrightarrow> p (xs ! j))"

lemma upper_bound_loop_unfold:
  "len = 0 \<Longrightarrow> upper_bound_loop p xs first len = first"
  "len \<noteq> 0 \<Longrightarrow> p (xs ! (first + len div 2)) \<Longrightarrow>
     upper_bound_loop p xs first len = upper_bound_loop p xs first (len div 2)"
  "len \<noteq> 0 \<Longrightarrow> \<not> p (xs ! (first + len div 2)) \<Longrightarrow>
     upper_bound_loop p xs first len =
       upper_bound_loop p xs (Suc (first + len div 2)) (len - Suc (len div 2))"
  by (subst upper_bound_loop.simps, simp)+

lemma upper_bound_loop_correct:
  assumes "partitioned p xs" and "first + len \<le> length xs"
    and "\<forall>i < first. \<not> p (xs ! i)" and "\<forall>i. first + len \<le> i \<longrightarrow> i < length xs \<longrightarrow> p (xs ! i)"
  shows "(\<forall>i < upper_bound_loop p xs first len. \<not> p (xs ! i)) \<and>
         (\<forall>i. upper_bound_loop p xs first len \<le> i \<longrightarrow> i < length xs \<longrightarrow> p (xs ! i)) \<and>
         upper_bound_loop p xs first len \<le> length xs"
  using assms
proof (induction len arbitrary: first rule: less_induct)
  case (less len)
  let ?m = "first + len div 2"
  show ?case
  proof (cases "len = 0")
    case True
    then show ?thesis using less.prems by (simp add: upper_bound_loop_unfold(1))
  next
    case False
    then have m: "?m < length xs" using less.prems(2) by linarith
    show ?thesis
    proof (cases "p (xs ! ?m)")
      case True
      have "\<forall>i. ?m \<le> i \<longrightarrow> i < length xs \<longrightarrow> p (xs ! i)"
        using less.prems(1) True unfolding partitioned_def by blast
      then show ?thesis
        unfolding upper_bound_loop_unfold(2) [of len p xs first, OF False True]
        using False less.prems m by (intro less.IH) simp_all
    next
      case nP: False
      have lo: "\<forall>i < Suc ?m. \<not> p (xs ! i)"
        using less.prems(1) nP m unfolding partitioned_def by (meson less_Suc_eq_le)
      have mid: "Suc ?m + (len - Suc (len div 2)) = first + len" using False by linarith
      show ?thesis
        unfolding upper_bound_loop_unfold(3) [of len p xs first, OF False nP]
        using False less.prems(1,2,4) lo
        by (intro less.IH) (simp_all add: mid [unfolded add_Suc])
    qed
  qed
qed

lemma upper_bound_correct:
  assumes "partitioned p xs"
  shows upper_bound_le: "upper_bound p xs \<le> length xs"
    and upper_bound_before: "\<And>i. i < upper_bound p xs \<Longrightarrow> \<not> p (xs ! i)"
    and upper_bound_after: "\<And>i. upper_bound p xs \<le> i \<Longrightarrow> i < length xs \<Longrightarrow> p (xs ! i)"
  using upper_bound_loop_correct [OF assms, of 0 "length xs"] by (auto simp: upper_bound_def)

section \<open>Ordered maps: \<open>std::map\<close>\<close>

text \<open>
  A \<open>std::map\<close> is the list of its entries in key order, the order in which a range-based \<open>for\<close>
  visits them.  \<open>omap_get d\<close> is what \<open>operator[]\<close> reads: the default \<open>d\<close> for an absent key, which
  the write \<open>omap_put\<close> then adds.
\<close>

type_synonym ('k, 'v) omap = "('k \<times> 'v) list"

definition omap_find :: "('k, 'v) omap \<Rightarrow> 'k \<Rightarrow> 'v option" where
  "omap_find m k = map_of m k"

definition omap_get :: "'v \<Rightarrow> ('k, 'v) omap \<Rightarrow> 'k \<Rightarrow> 'v" where
  "omap_get d m k = (case omap_find m k of None \<Rightarrow> d | Some v \<Rightarrow> v)"

fun omap_put :: "'k::linorder \<Rightarrow> 'v \<Rightarrow> ('k, 'v) omap \<Rightarrow> ('k, 'v) omap" where
  "omap_put k v [] = [(k, v)]"
| "omap_put k v ((j, w) # m) =
     (if k < j then (k, v) # (j, w) # m else if k = j then (k, v) # m
      else (j, w) # omap_put k v m)"

definition omap_erase :: "'k \<Rightarrow> ('k, 'v) omap \<Rightarrow> ('k, 'v) omap" where
  "omap_erase k m = filter (\<lambda>e. fst e \<noteq> k) m"

abbreviation omap_keys :: "('k, 'v) omap \<Rightarrow> 'k list" where
  "omap_keys m \<equiv> map fst m"

definition omap_ok :: "('k::linorder, 'v) omap \<Rightarrow> bool" where
  "omap_ok m \<longleftrightarrow> sorted_wrt (<) (omap_keys m)"

lemma omap_ok_Nil [simp]: "omap_ok []"
  by (simp add: omap_ok_def)

lemma omap_ok_single [simp]: "omap_ok [e]"
  by (simp add: omap_ok_def)

lemma omap_put_keys: "set (omap_keys (omap_put k v m)) = insert k (set (omap_keys m))"
  by (induction k v m rule: omap_put.induct) auto

lemma omap_ok_put [simp]: "omap_ok m \<Longrightarrow> omap_ok (omap_put k v m)"
proof (induction k v m rule: omap_put.induct)
  case (2 k v j w m)
  then show ?case
    using omap_put_keys [of k v m] by (fastforce simp: omap_ok_def)
qed (simp add: omap_ok_def)

lemma omap_find_notin: "k \<notin> set (omap_keys m) \<Longrightarrow> omap_find m k = None"
  by (simp add: omap_find_def map_of_eq_None_iff)

lemma omap_find_put [simp]:
  "omap_ok m \<Longrightarrow> omap_find (omap_put k v m) i = (if i = k then Some v else omap_find m i)"
proof (induction k v m rule: omap_put.induct)
  case (2 k v j w m)
  then show ?case by (auto simp: omap_find_def omap_ok_def)
qed (simp add: omap_find_def)

lemma omap_get_put [simp]:
  "omap_ok m \<Longrightarrow> omap_get d (omap_put k v m) i = (if i = k then v else omap_get d m i)"
  by (simp add: omap_get_def)

lemma omap_find_erase [simp]: "omap_find (omap_erase k m) i = (if i = k then None else omap_find m i)"
  by (induction m) (auto simp: omap_find_def omap_erase_def)

lemma omap_ok_erase [simp]: "omap_ok m \<Longrightarrow> omap_ok (omap_erase k m)"
  unfolding omap_ok_def omap_erase_def
  by (induction m) auto

lemma omap_ok_distinct: "omap_ok m \<Longrightarrow> distinct (omap_keys m)"
  unfolding omap_ok_def by (simp add: strict_sorted_iff)

lemma omap_find_in: "omap_ok m \<Longrightarrow> (k, v) \<in> set m \<longleftrightarrow> omap_find m k = Some v"
  using omap_ok_distinct [of m] by (auto simp: omap_find_def)

lemma omap_find_Nil [simp]: "omap_find [] k = None"
  by (simp add: omap_find_def)

lemma omap_get_Nil [simp]: "omap_get d [] k = d"
  by (simp add: omap_get_def)

lemma omap_put_append_last:
  "sorted_wrt (<) (omap_keys m) \<Longrightarrow> \<forall>j \<in> set (omap_keys m). j < k \<Longrightarrow> omap_put k v m = m @ [(k, v)]"
  by (induction k v m rule: omap_put.induct) auto

section \<open>Numbers as text\<close>

text \<open>\<open>std::to_string\<close>.\<close>

fun digits :: "nat \<Rightarrow> string" where
  "digits n = (if n < 10 then [char_of (48 + n)] else digits (n div 10) @ [char_of (48 + n mod 10)])"

declare digits.simps [simp del]

definition to_string :: "int \<Rightarrow> string" where
  "to_string n = (if n < 0 then ''-'' @ digits (nat (- n)) else digits (nat n))"

end
