(* ===== verification/Gregorian.thy ===== *)
theory Gregorian
  imports Prelude
begin

text \<open>
  The part of Boost.Date_Time the program calls, as a parameter: \<open>boost::gregorian::date\<close> is the
  type \<open>'d\<close> with its comparison operators, \<open>boost::gregorian::date_period\<close> the type \<open>'p\<close>, and a value
  of the record \<open>gregorian\<close> holds the functions.  \<open>gregorian_ok\<close> collects the documented laws of
  these functions on ordinary dates; nothing is assumed about \<open>not_a_date_time\<close> beyond its being
  special.  \<open>day_calendar\<close> is a concrete instance, a day counter, on which the laws hold.
\<close>

section \<open>The interface\<close>

record ('d, 'p) gregorian =
  mk_period :: "'d \<Rightarrow> 'd \<Rightarrow> 'p"
  p_begin :: "'p \<Rightarrow> 'd"
  p_end :: "'p \<Rightarrow> 'd"
  p_is_null :: "'p \<Rightarrow> bool"
  p_intersects :: "'p \<Rightarrow> 'p \<Rightarrow> bool"
  p_contains :: "'p \<Rightarrow> 'd \<Rightarrow> bool"
  p_span :: "'p \<Rightarrow> 'p \<Rightarrow> 'p"
  p_merge :: "'p \<Rightarrow> 'p \<Rightarrow> 'p"
  days_between :: "'d \<Rightarrow> 'd \<Rightarrow> int"
  add_days :: "'d \<Rightarrow> int \<Rightarrow> 'd"
  is_special :: "'d \<Rightarrow> bool"
  not_a_date :: 'd
  neg_infin :: 'd
  pos_infin :: 'd
  to_iso_extended :: "'d \<Rightarrow> string"
  from_string :: "string \<Rightarrow> 'd res"
  to_iso :: "'d \<Rightarrow> string"
  from_undelimited :: "string \<Rightarrow> 'd res"

text \<open>An ordinary period: both ends are ordinary dates and at least one day lies between them.\<close>

definition period_ok :: "('d::linorder, 'p) gregorian \<Rightarrow> 'p \<Rightarrow> bool" where
  "period_ok G p \<longleftrightarrow> \<not> is_special G (p_begin G p) \<and> \<not> is_special G (p_end G p)
     \<and> p_begin G p < p_end G p"

text \<open>A period with ordinary ends, possibly empty.\<close>

definition period_regular :: "('d::linorder, 'p) gregorian \<Rightarrow> 'p \<Rightarrow> bool" where
  "period_regular G p \<longleftrightarrow> \<not> is_special G (p_begin G p) \<and> \<not> is_special G (p_end G p)"

text \<open>
  The documented behaviour: a period is its half-open interval; \<open>is_null\<close> holds when the end is not
  after the begin; two non-empty periods intersect when each begins before the other ends; \<open>span\<close>
  runs from the earlier begin to the later end; the difference of two dates is their distance in
  days; the infinities enclose the ordinary dates; and writing a date and reading it back gives the
  same date.
\<close>

definition period_laws :: "('d::linorder, 'p) gregorian \<Rightarrow> bool" where
  "period_laws G \<longleftrightarrow>
     (\<forall>a b. p_begin G (mk_period G a b) = a) \<and>
     (\<forall>a b. \<not> is_special G a \<longrightarrow> \<not> is_special G b \<longrightarrow> p_end G (mk_period G a b) = b) \<and>
     (\<forall>p. period_regular G p \<longrightarrow> mk_period G (p_begin G p) (p_end G p) = p) \<and>
     (\<forall>p. period_regular G p \<longrightarrow> p_is_null G p = (p_end G p \<le> p_begin G p)) \<and>
     (\<forall>p q. period_ok G p \<longrightarrow> period_ok G q \<longrightarrow>
        p_intersects G p q = (p_begin G p < p_end G q \<and> p_begin G q < p_end G p)) \<and>
     (\<forall>p d. period_ok G p \<longrightarrow> \<not> is_special G d \<longrightarrow>
        p_contains G p d = (p_begin G p \<le> d \<and> d < p_end G p)) \<and>
     (\<forall>p q. period_ok G p \<longrightarrow> period_ok G q \<longrightarrow>
        p_span G p q = mk_period G (min (p_begin G p) (p_begin G q)) (max (p_end G p) (p_end G q)))"

definition days_additive :: "('d::linorder, 'p) gregorian \<Rightarrow> bool" where
  "days_additive G \<longleftrightarrow>
     (\<forall>a b c. \<not> is_special G a \<longrightarrow> \<not> is_special G b \<longrightarrow> \<not> is_special G c \<longrightarrow>
        days_between G a c = days_between G a b + days_between G b c)"

definition day_laws :: "('d::linorder, 'p) gregorian \<Rightarrow> bool" where
  "day_laws G \<longleftrightarrow>
     days_additive G \<and>
     (\<forall>a b. \<not> is_special G a \<longrightarrow> \<not> is_special G b \<longrightarrow> (0 < days_between G a b) = (b < a)) \<and>
     (\<forall>a b. \<not> is_special G a \<longrightarrow> \<not> is_special G b \<longrightarrow> add_days G a (days_between G b a) = b) \<and>
     (\<forall>a b. \<not> is_special G a \<longrightarrow> \<not> is_special G b \<longrightarrow> days_between G a b < 2147483647) \<and>
     (\<forall>a n. \<not> is_special G a \<longrightarrow> \<not> is_special G (add_days G a n) \<longrightarrow>
        days_between G (add_days G a n) a = n) \<and>
     (\<forall>a. \<not> is_special G a \<longrightarrow> neg_infin G < a \<and> a < pos_infin G) \<and>
     is_special G (neg_infin G) \<and> is_special G (pos_infin G) \<and> is_special G (not_a_date G)"

definition text_laws :: "('d::linorder, 'p) gregorian \<Rightarrow> bool" where
  "text_laws G \<longleftrightarrow>
     (\<forall>d. \<not> is_special G d \<longrightarrow> from_string G (to_iso_extended G d) = Inr d) \<and>
     (\<forall>d. \<not> is_special G d \<longrightarrow> from_undelimited G (to_iso G d) = Inr d)"

definition gregorian_ok :: "('d::linorder, 'p) gregorian \<Rightarrow> bool" where
  "gregorian_ok G \<longleftrightarrow> period_laws G \<and> day_laws G \<and> text_laws G"

section \<open>Consequences\<close>

named_theorems gregorian_rules

lemma period_ok_regular: "period_ok G p \<Longrightarrow> period_regular G p"
  by (simp add: period_ok_def period_regular_def)

lemma g_begin [gregorian_rules]: "gregorian_ok G \<Longrightarrow> p_begin G (mk_period G a b) = a"
  by (simp add: gregorian_ok_def period_laws_def)

lemma g_end [gregorian_rules]:
  "gregorian_ok G \<Longrightarrow> \<not> is_special G a \<Longrightarrow> \<not> is_special G b \<Longrightarrow> p_end G (mk_period G a b) = b"
  by (simp add: gregorian_ok_def period_laws_def)

lemma g_eta [gregorian_rules]:
  "gregorian_ok G \<Longrightarrow> period_ok G p \<Longrightarrow> mk_period G (p_begin G p) (p_end G p) = p"
  by (simp add: gregorian_ok_def period_laws_def period_ok_regular)

lemma g_is_null: "gregorian_ok G \<Longrightarrow> period_regular G p \<Longrightarrow> p_is_null G p = (p_end G p \<le> p_begin G p)"
  by (simp add: gregorian_ok_def period_laws_def)

lemma g_not_null [gregorian_rules]: "gregorian_ok G \<Longrightarrow> period_ok G p \<Longrightarrow> \<not> p_is_null G p"
  using g_is_null [OF _ period_ok_regular] by (fastforce simp: period_ok_def)

lemma g_intersects:
  "gregorian_ok G \<Longrightarrow> period_ok G p \<Longrightarrow> period_ok G q \<Longrightarrow>
     p_intersects G p q = (p_begin G p < p_end G q \<and> p_begin G q < p_end G p)"
  by (simp add: gregorian_ok_def period_laws_def)

lemma g_contains:
  "gregorian_ok G \<Longrightarrow> period_ok G p \<Longrightarrow> \<not> is_special G d \<Longrightarrow>
     p_contains G p d = (p_begin G p \<le> d \<and> d < p_end G p)"
  by (simp add: gregorian_ok_def period_laws_def)

lemma g_span:
  "gregorian_ok G \<Longrightarrow> period_ok G p \<Longrightarrow> period_ok G q \<Longrightarrow>
     p_span G p q = mk_period G (min (p_begin G p) (p_begin G q)) (max (p_end G p) (p_end G q))"
  by (simp add: gregorian_ok_def period_laws_def)

lemma period_ok_mk:
  "gregorian_ok G \<Longrightarrow> \<not> is_special G a \<Longrightarrow> \<not> is_special G b \<Longrightarrow> a < b \<Longrightarrow> period_ok G (mk_period G a b)"
  by (simp add: period_ok_def g_begin g_end)

lemma period_ok_not_special:
  "period_ok G p \<Longrightarrow> \<not> is_special G (p_begin G p)" "period_ok G p \<Longrightarrow> \<not> is_special G (p_end G p)"
  "period_ok G p \<Longrightarrow> p_begin G p < p_end G p"
  by (simp_all add: period_ok_def)

text \<open>The span of two contiguous periods is the period from the first begin to the last end.\<close>

lemma g_span_contiguous:
  assumes "gregorian_ok G" "period_ok G p" "period_ok G q" "p_end G p = p_begin G q"
  shows "p_span G p q = mk_period G (p_begin G p) (p_end G q)"
proof -
  have "p_begin G p \<le> p_begin G q" "p_end G p \<le> p_end G q"
    using assms by (auto simp: period_ok_def)
  then show ?thesis using assms by (simp add: g_span min_def max_def)
qed

lemma g_days_additive: "gregorian_ok G \<Longrightarrow> days_additive G"
  by (simp add: gregorian_ok_def day_laws_def)

lemma g_days_add:
  "gregorian_ok G \<Longrightarrow> \<not> is_special G a \<Longrightarrow> \<not> is_special G b \<Longrightarrow> \<not> is_special G c \<Longrightarrow>
     days_between G a c = days_between G a b + days_between G b c"
  using g_days_additive [of G] unfolding days_additive_def by blast

lemma g_days_pos:
  "gregorian_ok G \<Longrightarrow> \<not> is_special G a \<Longrightarrow> \<not> is_special G b \<Longrightarrow> 0 < days_between G a b \<longleftrightarrow> b < a"
  by (simp add: gregorian_ok_def day_laws_def)

lemma g_days_self: "gregorian_ok G \<Longrightarrow> \<not> is_special G a \<Longrightarrow> days_between G a a = 0"
  using g_days_add [of G a a a] by simp

lemma g_days_nonpos:
  "gregorian_ok G \<Longrightarrow> \<not> is_special G a \<Longrightarrow> \<not> is_special G b \<Longrightarrow> days_between G a b \<le> 0 \<longleftrightarrow> a \<le> b"
  using g_days_pos [of G a b] by (simp add: not_less [symmetric])

lemma g_days_bound:
  "gregorian_ok G \<Longrightarrow> \<not> is_special G a \<Longrightarrow> \<not> is_special G b \<Longrightarrow> days_between G a b < 2147483647"
  by (simp add: gregorian_ok_def day_laws_def)

lemma g_add_days_between:
  "gregorian_ok G \<Longrightarrow> \<not> is_special G a \<Longrightarrow> \<not> is_special G b \<Longrightarrow> add_days G a (days_between G b a) = b"
  by (simp add: gregorian_ok_def day_laws_def)

lemma g_days_of_add:
  "gregorian_ok G \<Longrightarrow> \<not> is_special G a \<Longrightarrow> \<not> is_special G (add_days G a n) \<Longrightarrow>
     days_between G (add_days G a n) a = n"
  by (simp add: gregorian_ok_def day_laws_def)

lemma g_infin:
  "gregorian_ok G \<Longrightarrow> \<not> is_special G a \<Longrightarrow> neg_infin G < a"
  "gregorian_ok G \<Longrightarrow> \<not> is_special G a \<Longrightarrow> a < pos_infin G"
  "gregorian_ok G \<Longrightarrow> is_special G (neg_infin G)"
  "gregorian_ok G \<Longrightarrow> is_special G (pos_infin G)"
  "gregorian_ok G \<Longrightarrow> is_special G (not_a_date G)"
  by (simp_all add: gregorian_ok_def day_laws_def)

lemma g_from_string [gregorian_rules]:
  "gregorian_ok G \<Longrightarrow> \<not> is_special G d \<Longrightarrow> from_string G (to_iso_extended G d) = Inr d"
  by (simp add: gregorian_ok_def text_laws_def)

lemma g_from_undelimited [gregorian_rules]:
  "gregorian_ok G \<Longrightarrow> \<not> is_special G d \<Longrightarrow> from_undelimited G (to_iso G d) = Inr d"
  by (simp add: gregorian_ok_def text_laws_def)

section \<open>Days\<close>

text \<open>The days (nights, in hotel terms) a period covers.\<close>

definition period_days :: "('d::linorder, 'p) gregorian \<Rightarrow> 'p \<Rightarrow> 'd set" where
  "period_days G p = {d. \<not> is_special G d \<and> p_begin G p \<le> d \<and> d < p_end G p}"

lemma period_days_nonempty: "period_ok G p \<Longrightarrow> p_begin G p \<in> period_days G p"
  by (simp add: period_days_def period_ok_def)

lemma intersects_iff_common_day:
  assumes "gregorian_ok G" "period_ok G p" "period_ok G q"
  shows "p_intersects G p q \<longleftrightarrow> period_days G p \<inter> period_days G q \<noteq> {}"
proof
  assume "p_intersects G p q"
  then have "p_begin G p < p_end G q" "p_begin G q < p_end G p"
    using assms by (simp_all add: g_intersects)
  then have "max (p_begin G p) (p_begin G q) \<in> period_days G p \<inter> period_days G q"
    using assms by (auto simp: period_days_def period_ok_def max_def)
  then show "period_days G p \<inter> period_days G q \<noteq> {}" by blast
next
  assume "period_days G p \<inter> period_days G q \<noteq> {}"
  then show "p_intersects G p q"
    using assms by (auto simp: g_intersects period_days_def)
qed

section \<open>A concrete calendar\<close>

text \<open>Days counted from an origin; the ordinary dates are \<open>0, \<dots>, 3999999\<close>.\<close>

definition day_calendar :: "(int, int \<times> int) gregorian" where
  "day_calendar =
     \<lparr>mk_period = (\<lambda>a b. (a, b)), p_begin = fst, p_end = snd,
      p_is_null = (\<lambda>(a, b). b \<le> a),
      p_intersects = (\<lambda>(a, b) (c, d). a < d \<and> c < b),
      p_contains = (\<lambda>(a, b) d. a \<le> d \<and> d < b),
      p_span = (\<lambda>(a, b) (c, d). (min a c, max b d)),
      p_merge = (\<lambda>(a, b) (c, d). (min a c, max b d)),
      days_between = (\<lambda>a b. a - b), add_days = (\<lambda>a n. a + n),
      is_special = (\<lambda>d. d < 0 \<or> 4000000 \<le> d),
      not_a_date = 4000001, neg_infin = -1, pos_infin = 4000000,
      to_iso_extended = (\<lambda>d. replicate (nat d) (CHR ''1'')),
      from_string = (\<lambda>s. Inr (int (length s))),
      to_iso = (\<lambda>d. replicate (nat d) (CHR ''1'')),
      from_undelimited = (\<lambda>s. Inr (int (length s)))\<rparr>"

lemma day_calendar_ok [simp]: "gregorian_ok day_calendar"
  by (auto simp: gregorian_ok_def period_laws_def day_laws_def days_additive_def text_laws_def day_calendar_def
      period_ok_def period_regular_def)

lemma day_calendar_simps [simp]:
  "mk_period day_calendar a b = (a, b)" "p_begin day_calendar p = fst p" "p_end day_calendar p = snd p"
  "p_is_null day_calendar p = (snd p \<le> fst p)"
  "p_intersects day_calendar p q = (fst p < snd q \<and> fst q < snd p)"
  "p_contains day_calendar p d = (fst p \<le> d \<and> d < snd p)"
  "p_span day_calendar p q = (min (fst p) (fst q), max (snd p) (snd q))"
  "days_between day_calendar a b = a - b" "add_days day_calendar a n = a + n"
  "is_special day_calendar d = (d < 0 \<or> 4000000 \<le> d)"
  "neg_infin day_calendar = -1" "pos_infin day_calendar = 4000000"
  "not_a_date day_calendar = 4000001"
  by (auto simp: day_calendar_def split: prod.splits)

end
