(* ===== verification/Hotel.thy ===== *)
theory Hotel
  imports Prelude
begin

text \<open>
  The passive data of the booking system: \<open>hotel::PersistentObject\<close>, \<open>hotel::Hotel\<close> with its rooms
  and room categories, and \<open>hotel::Person\<close>.  A room points to a category its hotel owns; since the
  hotel keeps its categories in a vector of \<open>unique_ptr\<close>, such a pointer is modelled as the
  position of the category in that vector, \<open>None\<close> being \<open>nullptr\<close>.
\<close>

section \<open>Data\<close>

record persistent_object =
  obj_id :: int
  obj_revision :: int

definition fresh_object :: persistent_object where
  "fresh_object = \<lparr>obj_id = 0, obj_revision = 0\<rparr>"

definition setId :: "int \<Rightarrow> 'a persistent_object_scheme \<Rightarrow> 'a persistent_object_scheme" where
  "setId i o' = o'\<lparr>obj_id := i\<rparr>"

definition setRevision :: "int \<Rightarrow> 'a persistent_object_scheme \<Rightarrow> 'a persistent_object_scheme" where
  "setRevision r o' = o'\<lparr>obj_revision := r\<rparr>"

record room_category = persistent_object +
  cat_shortCode :: string
  cat_name :: string

record hotel_room = persistent_object +
  room_category :: "nat option"
  room_name :: string

record hotel = persistent_object +
  hotel_name :: string
  hotel_categories :: "room_category list"
  hotel_rooms :: "hotel_room list"

record person = persistent_object +
  person_firstName :: string
  person_lastName :: string

definition mk_room_category :: "string \<Rightarrow> string \<Rightarrow> room_category" where
  "mk_room_category code name = \<lparr>obj_id = 0, obj_revision = 0, cat_shortCode = code, cat_name = name\<rparr>"

definition mk_hotel_room :: "string \<Rightarrow> hotel_room" where
  "mk_hotel_room name = \<lparr>obj_id = 0, obj_revision = 0, room_category = None, room_name = name\<rparr>"

definition mk_hotel :: "string \<Rightarrow> hotel" where
  "mk_hotel name =
     \<lparr>obj_id = 0, obj_revision = 0, hotel_name = name, hotel_categories = [], hotel_rooms = []\<rparr>"

definition mk_person :: "string \<Rightarrow> string \<Rightarrow> person" where
  "mk_person fname lname =
     \<lparr>obj_id = 0, obj_revision = 0, person_firstName = fname, person_lastName = lname\<rparr>"

section \<open>Operations\<close>

definition getCategoryById :: "int \<Rightarrow> hotel \<Rightarrow> nat option" where
  "getCategoryById i h = find_index (\<lambda>c. obj_id c = i) (hotel_categories h)"

definition getCategoryByShortCode :: "string \<Rightarrow> hotel \<Rightarrow> nat option" where
  "getCategoryByShortCode code h = find_index (\<lambda>c. cat_shortCode c = code) (hotel_categories h)"

text \<open>The argument is a \<open>unique_ptr\<close>: \<open>None\<close> is a null one.\<close>

definition addRoomCategory :: "room_category option \<Rightarrow> hotel \<Rightarrow> hotel res" where
  "addRoomCategory category h =
     (case category of
        None \<Rightarrow> Inl (LogicError ''Trying to add a nullptr category to the hotel'')
      | Some c \<Rightarrow>
          (case getCategoryByShortCode (cat_shortCode c) h of
             Some i \<Rightarrow> Inl (LogicError (''Category already registered! Category short code: '' @
                         cat_shortCode c @ '', name: '' @ cat_name (hotel_categories h ! i)))
           | None \<Rightarrow> Inr (h\<lparr>hotel_categories := hotel_categories h @ [c]\<rparr>)))"

definition addRoom :: "hotel_room option \<Rightarrow> string \<Rightarrow> hotel \<Rightarrow> hotel res" where
  "addRoom room categoryShortCode h =
     (case room of
        None \<Rightarrow> Inl (LogicError ''Trying to add a nullptr room to the hotel'')
      | Some r \<Rightarrow>
          (case getCategoryByShortCode categoryShortCode h of
             None \<Rightarrow> Inl (LogicError (''Trying to add a room with unknown category '' @ categoryShortCode))
           | Some i \<Rightarrow> Inr (h\<lparr>hotel_rooms := hotel_rooms h @ [r\<lparr>room_category := Some i\<rparr>]\<rparr>)))"

text \<open>Following the category pointer of a room of \<open>h\<close>.\<close>

definition category_of :: "hotel \<Rightarrow> hotel_room \<Rightarrow> room_category res" where
  "category_of h r =
     (case room_category r of
        None \<Rightarrow> Inl UndefinedBehaviour
      | Some i \<Rightarrow> if i < length (hotel_categories h) then Inr (hotel_categories h ! i)
                  else Inl UndefinedBehaviour)"

text \<open>
  The assignment clones the categories and then adds a clone of every room under the short code of
  its category.  It starts from the present contents of the target, which the code does not clear.
\<close>

definition clone_room :: "hotel \<Rightarrow> hotel_room \<Rightarrow> hotel \<Rightarrow> hotel res" where
  "clone_room that r h = bindr (category_of that r) (\<lambda>c. addRoom (Some r) (cat_shortCode c) h)"

definition assign_hotel :: "hotel \<Rightarrow> hotel \<Rightarrow> hotel res" where
  "assign_hotel this that =
     fold_res (clone_room that) (hotel_rooms that)
       (this\<lparr>obj_id := obj_id that, obj_revision := obj_revision that, hotel_name := hotel_name that,
             hotel_categories := hotel_categories this @ hotel_categories that\<rparr>)"

definition copy_hotel :: "hotel \<Rightarrow> hotel res" where
  "copy_hotel that = assign_hotel (mk_hotel '''') that"

text \<open>The comparisons ignore the ids and the revisions.\<close>

definition category_eq :: "room_category \<Rightarrow> room_category \<Rightarrow> bool" where
  "category_eq a b \<longleftrightarrow> cat_name a = cat_name b \<and> cat_shortCode a = cat_shortCode b"

definition room_eq :: "hotel \<Rightarrow> hotel_room \<Rightarrow> hotel \<Rightarrow> hotel_room \<Rightarrow> bool res" where
  "room_eq h a k b =
     (if room_name a \<noteq> room_name b then Inr False
      else bindr (category_of h a) (\<lambda>c. bindr (category_of k b) (\<lambda>d. Inr (category_eq c d))))"

fun rooms_eq :: "hotel \<Rightarrow> hotel_room list \<Rightarrow> hotel \<Rightarrow> hotel_room list \<Rightarrow> bool res" where
  "rooms_eq h (a # as) k (b # bs) =
     bindr (room_eq h a k b) (\<lambda>same. if same then rooms_eq h as k bs else Inr False)"
| "rooms_eq h _ k _ = Inr True"

definition hotel_eq :: "hotel \<Rightarrow> hotel \<Rightarrow> bool res" where
  "hotel_eq a b =
     (if hotel_name a \<noteq> hotel_name b then Inr False
      else if length (hotel_categories a) \<noteq> length (hotel_categories b)
              \<or> length (hotel_rooms a) \<noteq> length (hotel_rooms b) then Inr False
      else if \<not> list_all2 category_eq (hotel_categories a) (hotel_categories b) then Inr False
      else rooms_eq a (hotel_rooms a) b (hotel_rooms b))"

section \<open>The invariant\<close>

text \<open>No two categories share a short code, and every room points to a category of its hotel.\<close>

definition room_ok :: "hotel \<Rightarrow> hotel_room \<Rightarrow> bool" where
  "room_ok h r \<longleftrightarrow> (case room_category r of None \<Rightarrow> False | Some i \<Rightarrow> i < length (hotel_categories h))"

definition hotel_ok :: "hotel \<Rightarrow> bool" where
  "hotel_ok h \<longleftrightarrow> distinct (map cat_shortCode (hotel_categories h)) \<and> list_all (room_ok h) (hotel_rooms h)"

lemma hotel_ok_mk [simp]: "hotel_ok (mk_hotel n)"
  by (simp add: hotel_ok_def mk_hotel_def)

lemma category_of_ok: "room_ok h r \<Longrightarrow> \<exists>i. room_category r = Some i \<and> i < length (hotel_categories h) \<and>
    category_of h r = Inr (hotel_categories h ! i)"
  by (auto simp: room_ok_def category_of_def split: option.splits)

lemma room_ok_rooms [simp]: "room_ok (h\<lparr>hotel_rooms := rs\<rparr>) = room_ok h"
  by (rule ext) (simp add: room_ok_def split: option.split)

lemma room_ok_mono:
  "room_ok h r \<Longrightarrow> length (hotel_categories h) \<le> length (hotel_categories k) \<Longrightarrow> room_ok k r"
  by (auto simp: room_ok_def split: option.splits)

lemma getCategoryByShortCode_key:
  assumes "distinct (map cat_shortCode (hotel_categories h))" "i < length (hotel_categories h)"
  shows "getCategoryByShortCode (cat_shortCode (hotel_categories h ! i)) h = Some i"
  using find_index_key [OF assms] by (simp add: getCategoryByShortCode_def)

lemma getCategoryByShortCode_None:
  "getCategoryByShortCode code h = None \<longleftrightarrow> code \<notin> cat_shortCode ` set (hotel_categories h)"
  by (auto simp: getCategoryByShortCode_def find_index_None)

lemma addRoomCategory_ok:
  assumes "hotel_ok h" and "addRoomCategory c h = Inr k"
  shows "hotel_ok k"
proof -
  obtain d where d: "getCategoryByShortCode (cat_shortCode d) h = None"
      "k = h\<lparr>hotel_categories := hotel_categories h @ [d]\<rparr>"
    using assms(2) by (auto simp: addRoomCategory_def split: option.splits)
  have "room_ok k r" if "room_ok h r" for r
    using room_ok_mono [OF that, of k] d(2) by simp
  then show ?thesis
    using assms(1) d by (auto simp: hotel_ok_def list_all_iff getCategoryByShortCode_None)
qed

lemma addRoom_ok:
  assumes "hotel_ok h" and "addRoom r code h = Inr k"
  shows "hotel_ok k"
proof -
  obtain s i where s: "getCategoryByShortCode code h = Some i"
      "k = h\<lparr>hotel_rooms := hotel_rooms h @ [s\<lparr>room_category := Some i\<rparr>]\<rparr>"
    using assms(2) by (auto simp: addRoom_def split: option.splits)
  moreover have "i < length (hotel_categories h)"
    using s(1) find_index_SomeD unfolding getCategoryByShortCode_def by blast
  ultimately show ?thesis
    using assms(1) by (simp add: hotel_ok_def) (simp add: room_ok_def)
qed

lemma clone_rooms:
  assumes "distinct (map cat_shortCode (hotel_categories that))"
    and "hotel_categories h = hotel_categories that" and "list_all (room_ok that) rs"
  shows "fold_res (clone_room that) rs h = Inr (h\<lparr>hotel_rooms := hotel_rooms h @ rs\<rparr>)"
  using assms(2,3)
proof (induction rs arbitrary: h)
  case (Cons r rs)
  from Cons.prems obtain i where i: "room_category r = Some i" "i < length (hotel_categories that)"
      "category_of that r = Inr (hotel_categories that ! i)"
    using category_of_ok [of that r] by auto
  have "getCategoryByShortCode (cat_shortCode (hotel_categories that ! i)) h = Some i"
    using getCategoryByShortCode_key [of h i] assms(1) Cons.prems(1) i(2) by simp
  moreover have "r\<lparr>room_category := Some i\<rparr> = r" using i(1) by simp
  ultimately have "clone_room that r h = Inr (h\<lparr>hotel_rooms := hotel_rooms h @ [r]\<rparr>)"
    using i by (simp add: clone_room_def addRoom_def)
  then show ?case using Cons by simp
qed simp

lemma rooms_eq_refl:
  "list_all (room_ok h) rs \<Longrightarrow> hotel_categories k = hotel_categories h \<Longrightarrow> rooms_eq k rs h rs = Inr True"
proof (induction rs)
  case (Cons r rs)
  then obtain i where "category_of h r = Inr (hotel_categories h ! i)"
    using category_of_ok [of h r] by auto
  moreover have "category_of k r = category_of h r"
    using Cons.prems(2) by (cases "room_category r") (simp_all add: category_of_def)
  ultimately show ?case using Cons by (simp add: room_eq_def category_eq_def)
qed simp

section \<open>Construction, copy and assignment\<close>

text \<open>A hotel is built by a sequence of these calls on a constructed one.\<close>

datatype hotel_op = AddCategory "room_category option" | AddRoom "hotel_room option" string

fun hotel_step :: "hotel_op \<Rightarrow> hotel \<Rightarrow> hotel res" where
  "hotel_step (AddCategory c) h = addRoomCategory c h"
| "hotel_step (AddRoom r code) h = addRoom r code h"

lemma hotel_step_ok: "hotel_ok h \<Longrightarrow> hotel_step op h = Inr k \<Longrightarrow> hotel_ok k"
  using addRoomCategory_ok [of h _ k] addRoom_ok [of h _ _ k] by (cases op) auto

text \<open>Cloning rooms into a hotel that knows all their short codes never fails.\<close>

lemma clone_rooms_into:
  assumes "cat_shortCode ` set (hotel_categories that) \<subseteq> cat_shortCode ` set (hotel_categories h)"
    and "list_all (room_ok that) rs"
  shows "\<exists>cs. fold_res (clone_room that) rs h = Inr (h\<lparr>hotel_rooms := hotel_rooms h @ cs\<rparr>)
            \<and> length cs = length rs"
  using assms
proof (induction rs arbitrary: h)
  case (Cons r rs)
  obtain i where i: "i < length (hotel_categories that)"
      "category_of that r = Inr (hotel_categories that ! i)"
    using Cons.prems(2) category_of_ok [of that r] by auto
  have "cat_shortCode (hotel_categories that ! i) \<in> cat_shortCode ` set (hotel_categories h)"
    using Cons.prems(1) i(1) by auto
  then obtain j where j: "getCategoryByShortCode (cat_shortCode (hotel_categories that ! i)) h = Some j"
    by (metis getCategoryByShortCode_None not_Some_eq)
  define k where "k = h\<lparr>hotel_rooms := hotel_rooms h @ [r\<lparr>room_category := Some j\<rparr>]\<rparr>"
  have step: "clone_room that r h = Inr k"
    using i j by (simp add: clone_room_def addRoom_def k_def)
  obtain cs where "fold_res (clone_room that) rs k = Inr (k\<lparr>hotel_rooms := hotel_rooms k @ cs\<rparr>)"
      "length cs = length rs"
    using Cons.IH [of k] Cons.prems by (auto simp: k_def)
  then have "fold_res (clone_room that) (r # rs) h
      = Inr (h\<lparr>hotel_rooms := hotel_rooms h @ r\<lparr>room_category := Some j\<rparr> # cs\<rparr>)
      \<and> length (r\<lparr>room_category := Some j\<rparr> # cs) = length (r # rs)"
    using step by (simp add: k_def)
  then show ?case by blast
qed simp

lemma hotel_eq_refl: "hotel_ok h \<Longrightarrow> hotel_eq h h = Inr True"
  by (simp add: hotel_eq_def hotel_ok_def rooms_eq_refl list_all2_refl category_eq_def)

text \<open>The copy constructor is an exact deep copy.\<close>

lemma copy_hotel_ok:
  assumes "hotel_ok h"
  shows "copy_hotel h = Inr h"
proof -
  define k where "k = (mk_hotel [])\<lparr>obj_id := obj_id h, obj_revision := obj_revision h,
      hotel_name := hotel_name h, hotel_categories := hotel_categories h\<rparr>"
  have "fold_res (clone_room h) (hotel_rooms h) k = Inr (k\<lparr>hotel_rooms := hotel_rooms k @ hotel_rooms h\<rparr>)"
    using assms by (intro clone_rooms) (simp_all add: hotel_ok_def k_def)
  then show ?thesis by (simp add: copy_hotel_def assign_hotel_def mk_hotel_def k_def)
qed

section \<open>Properties\<close>

text \<open>C23 Every hotel built by the constructor followed by any sequence of successful calls of
  \<open>addRoomCategory\<close> and \<open>addRoom\<close> has pairwise distinct short codes, and every room of it points to a
  category the hotel owns.\<close>

theorem hotel_construction_ok:
  assumes "fold_res hotel_step ops (mk_hotel n) = Inr h"
  shows "hotel_ok h"
  using assms hotel_ok_mk hotel_step_ok by (rule fold_res_invariant)

definition demo_hotel :: hotel where
  "demo_hotel = (mk_hotel ''H'')\<lparr>hotel_categories := [mk_room_category ''S'' ''Single''],
       hotel_rooms := [(mk_hotel_room ''101'')\<lparr>room_category := Some 0\<rparr>]\<rparr>"

lemma demo_hotel_ok: "hotel_ok demo_hotel"
  by (simp add: demo_hotel_def hotel_ok_def room_ok_def mk_hotel_def mk_hotel_room_def)

theorem hotel_construction_ok_witness:
  "hotel_ok demo_hotel \<and> hotel_rooms demo_hotel \<noteq> []"
  using hotel_construction_ok [of "[AddCategory (Some (mk_room_category ''S'' ''Single'')),
        AddRoom (Some (mk_hotel_room ''101'')) ''S'']" "''H''" demo_hotel]
  by (simp add: addRoomCategory_def addRoom_def getCategoryByShortCode_def mk_hotel_def
        mk_room_category_def mk_hotel_room_def demo_hotel_def)

text \<open>Assignment does not replace the contents of its target: the source's are appended.\<close>

lemma assign_hotel_appends:
  assumes "hotel_ok that"
  shows "\<exists>k. assign_hotel this that = Inr k \<and> obj_id k = obj_id that
    \<and> hotel_categories k = hotel_categories this @ hotel_categories that
    \<and> length (hotel_rooms k) = length (hotel_rooms this) + length (hotel_rooms that)"
proof -
  define h where "h = this\<lparr>obj_id := obj_id that, obj_revision := obj_revision that,
      hotel_name := hotel_name that, hotel_categories := hotel_categories this @ hotel_categories that\<rparr>"
  obtain cs where cs: "fold_res (clone_room that) (hotel_rooms that) h = Inr (h\<lparr>hotel_rooms := hotel_rooms h @ cs\<rparr>)"
      "length cs = length (hotel_rooms that)"
    using clone_rooms_into [of that h "hotel_rooms that"] assms by (auto simp: hotel_ok_def h_def)
  have "assign_hotel this that = Inr (h\<lparr>hotel_rooms := hotel_rooms h @ cs\<rparr>)"
    using cs(1) by (simp add: assign_hotel_def h_def)
  then show ?thesis using cs(2) by (simp add: h_def)
qed

end
