(* ===== verification/HotelCollection.thy ===== *)
theory HotelCollection
  imports Hotel
begin

text \<open>
  \<open>hotel::HotelCollection\<close>: the list of hotels with the lookups that run over all of them.  A
  pointer to a room is the pair of its hotel's position and its own position in that hotel.
\<close>

section \<open>Model\<close>

record hotel_collection =
  coll_hotels :: "hotel list"

type_synonym room_ptr = "nat \<times> nat"

definition empty_collection :: hotel_collection where
  "empty_collection = \<lparr>coll_hotels = []\<rparr>"

definition addHotel :: "hotel \<Rightarrow> hotel_collection \<Rightarrow> hotel_collection" where
  "addHotel h c = c\<lparr>coll_hotels := coll_hotels c @ [h]\<rparr>"

definition clearHotels :: "hotel_collection \<Rightarrow> hotel_collection" where
  "clearHotels c = c\<lparr>coll_hotels := []\<rparr>"

text \<open>The copying assignment; \<open>same\<close> tells whether the two operands are the same object.\<close>

definition assign_collection ::
    "bool \<Rightarrow> hotel_collection \<Rightarrow> hotel_collection \<Rightarrow> hotel_collection res" where
  "assign_collection same this that =
     assert_that (\<not> same)
       (fold_res (\<lambda>h c. bindr (copy_hotel h) (\<lambda>k. Inr (c\<lparr>coll_hotels := coll_hotels c @ [k]\<rparr>)))
          (coll_hotels that) (this\<lparr>coll_hotels := []\<rparr>))"

definition copy_collection :: "hotel_collection \<Rightarrow> hotel_collection res" where
  "copy_collection that = assign_collection False empty_collection that"

definition allRoomIDs :: "hotel_collection \<Rightarrow> int list" where
  "allRoomIDs c = concat (map (\<lambda>h. map obj_id (hotel_rooms h)) (coll_hotels c))"

definition allCategoryIDs :: "hotel_collection \<Rightarrow> int list" where
  "allCategoryIDs c = concat (map (\<lambda>h. map obj_id (hotel_categories h)) (coll_hotels c))"

fun find_room_from :: "nat \<Rightarrow> int \<Rightarrow> hotel list \<Rightarrow> room_ptr option" where
  "find_room_from k i [] = None"
| "find_room_from k i (h # hs) =
     (case find_index (\<lambda>r. obj_id r = i) (hotel_rooms h) of
        Some j \<Rightarrow> Some (k, j)
      | None \<Rightarrow> find_room_from (Suc k) i hs)"

definition findRoomById :: "int \<Rightarrow> hotel_collection \<Rightarrow> room_ptr option" where
  "findRoomById i c = find_room_from 0 i (coll_hotels c)"

definition rooms_of :: "nat \<Rightarrow> hotel \<Rightarrow> (room_ptr \<times> hotel_room) list" where
  "rooms_of k h = map (\<lambda>j. ((k, j), hotel_rooms h ! j)) [0..<length (hotel_rooms h)]"

fun entries_from :: "nat \<Rightarrow> hotel list \<Rightarrow> (hotel \<times> room_ptr \<times> hotel_room) list" where
  "entries_from k [] = []"
| "entries_from k (h # hs) = map (Pair h) (rooms_of k h) @ entries_from (Suc k) hs"

definition room_entries :: "hotel_collection \<Rightarrow> (hotel \<times> room_ptr \<times> hotel_room) list" where
  "room_entries c = entries_from 0 (coll_hotels c)"

definition allRooms :: "hotel_collection \<Rightarrow> room_ptr list" where
  "allRooms c = map (\<lambda>(h, p, r). p) (room_entries c)"

definition allRoomsByCategory :: "int \<Rightarrow> hotel_collection \<Rightarrow> room_ptr list res" where
  "allRoomsByCategory categoryId c =
     fold_res (\<lambda>(h, p, r) rooms. bindr (category_of h r)
         (\<lambda>cat. Inr (if obj_id cat = categoryId then rooms @ [p] else rooms)))
       (room_entries c) []"

definition collection_ok :: "hotel_collection \<Rightarrow> bool" where
  "collection_ok c \<longleftrightarrow> list_all hotel_ok (coll_hotels c)"

section \<open>Lemmas\<close>

lemma copy_hotels_loop:
  "list_all hotel_ok hs \<Longrightarrow>
   fold_res (\<lambda>h c. bindr (copy_hotel h) (\<lambda>k. Inr (c\<lparr>coll_hotels := coll_hotels c @ [k]\<rparr>))) hs c
     = Inr (c\<lparr>coll_hotels := coll_hotels c @ hs\<rparr>)"
  by (induction hs arbitrary: c) (simp_all add: copy_hotel_ok)

lemma find_room_from_None:
  "find_room_from k i hs = None \<longleftrightarrow> i \<notin> set (concat (map (\<lambda>h. map obj_id (hotel_rooms h)) hs))"
  by (induction k i hs rule: find_room_from.induct) (auto simp: find_index_None split: option.splits dest: find_index_SomeD)

lemma find_in_hotel:
  "List.find (\<lambda>(h, p, r). obj_id r = i) (map (Pair h) (rooms_of k h))
     = map_option (\<lambda>j. (h, (k, j), hotel_rooms h ! j)) (find_index (\<lambda>r. obj_id r = i) (hotel_rooms h))"
proof -
  have "find_index (\<lambda>(h, p, r). obj_id r = i) (map (Pair h) (rooms_of k h))
      = find_index (\<lambda>r. obj_id r = i) (hotel_rooms h)"
    using find_index_upt [of "\<lambda>r. obj_id r = i" "hotel_rooms h"]
    by (simp add: rooms_of_def find_index_map comp_def)
  then show ?thesis
    by (cases "find_index (\<lambda>r. obj_id r = i) (hotel_rooms h)")
       (auto simp: find_by_index rooms_of_def dest!: find_index_SomeD)
qed

lemma find_append: "List.find p (xs @ ys) = (case List.find p xs of None \<Rightarrow> List.find p ys | Some x \<Rightarrow> Some x)"
  by (induction xs) auto

lemma find_room_from_find:
  "find_room_from k i hs
     = map_option (\<lambda>(h, p, r). p) (List.find (\<lambda>(h, p, r). obj_id r = i) (entries_from k hs))"
  by (induction k i hs rule: find_room_from.induct)
     (simp_all add: find_append find_in_hotel split: option.split)

lemma rooms_by_category_loop:
  assumes "\<forall>(h, p, r) \<in> set es. room_ok h r"
  shows "fold_res (\<lambda>(h, p, r) rooms. bindr (category_of h r)
         (\<lambda>cat. Inr (if obj_id cat = i then rooms @ [p] else rooms))) es ps
     = Inr (ps @ map (\<lambda>(h, p, r). p)
         (filter (\<lambda>(h, p, r). obj_id (hotel_categories h ! the (room_category r)) = i) es))"
  using assms
proof (induction es arbitrary: ps)
  case (Cons e es)
  obtain h p r where e: "e = (h, p, r)" by (cases e)
  with Cons.prems obtain n where "room_category r = Some n"
      "category_of h r = Inr (hotel_categories h ! n)"
    using category_of_ok [of h r] by auto
  then show ?case using Cons e by simp
qed simp

lemma entries_from_ok:
  "list_all hotel_ok hs \<Longrightarrow> \<forall>(h, p, r) \<in> set (entries_from k hs). room_ok h r"
  by (induction k hs rule: entries_from.induct) (auto simp: rooms_of_def hotel_ok_def list_all_iff)

lemma room_entries_ok:
  "collection_ok c \<Longrightarrow> \<forall>(h, p, r) \<in> set (room_entries c). room_ok h r"
  unfolding room_entries_def collection_ok_def by (rule entries_from_ok)

section \<open>Properties\<close>

text \<open>\<open>findRoomById\<close> returns null exactly when no room has the id; otherwise it returns the first
  room with the id, in the order of the hotels and of their rooms.\<close>

lemma findRoomById_correct:
  "findRoomById i c
     = map_option (\<lambda>(h, p, r). p) (List.find (\<lambda>(h, p, r). obj_id r = i) (room_entries c))
   \<and> (findRoomById i c = None \<longleftrightarrow> i \<notin> set (allRoomIDs c))"
  unfolding findRoomById_def allRoomIDs_def room_entries_def
  using find_room_from_find find_room_from_None by blast

lemma copy_collection_exact:
  assumes "collection_ok c"
  shows "copy_collection c = Inr c"
  using assms copy_hotels_loop [of "coll_hotels c" "\<lparr>coll_hotels = []\<rparr>"]
  by (simp add: copy_collection_def assign_collection_def empty_collection_def collection_ok_def)

text \<open>On a collection of well-formed hotels, \<open>allRoomsByCategory\<close> follows no null pointer and returns
  the rooms whose category has the id, in the order of \<open>allRooms\<close>.\<close>

lemma allRoomsByCategory_correct:
  assumes "collection_ok c"
  shows "allRoomsByCategory i c = Inr (map (\<lambda>(h, p, r). p)
           (filter (\<lambda>(h, p, r). obj_id (hotel_categories h ! the (room_category r)) = i) (room_entries c)))"
  using rooms_by_category_loop [OF room_entries_ok [OF assms], of i "[]"]
  by (simp add: allRoomsByCategory_def)

end
