(* ===== verification/Reservation.thy ===== *)
theory Reservation
  imports Hotel Gregorian
begin

text \<open>
  \<open>hotel::Reservation\<close> and \<open>hotel::ReservationAtom\<close>: a reservation is a sequence of atoms, each of
  which occupies one room over a date period; a guest who changes rooms has several atoms.  The
  periods are those of the calendar parameter \<open>G\<close>.
\<close>

section \<open>Data\<close>

datatype reservation_status =
  Unknown | Temporary | New | Confirmed | CheckedIn | CheckedOut | Archived

record 'p reservation_atom = persistent_object +
  atom_room :: int
  atom_range :: 'p

record 'p reservation = persistent_object +
  res_status :: reservation_status
  res_description :: string
  res_owner :: "int option"
  res_adults :: int
  res_children :: int
  res_atoms :: "'p reservation_atom list"

definition mk_atom :: "int \<Rightarrow> 'p \<Rightarrow> 'p reservation_atom" where
  "mk_atom room period = \<lparr>obj_id = 0, obj_revision = 0, atom_room = room, atom_range = period\<rparr>"

definition mk_reservation :: "string \<Rightarrow> 'p reservation" where
  "mk_reservation descr =
     \<lparr>obj_id = 0, obj_revision = 0, res_status = Unknown, res_description = descr, res_owner = None,
      res_adults = 0, res_children = 0, res_atoms = []\<rparr>"

definition mk_reservation_atom :: "string \<Rightarrow> int \<Rightarrow> 'p \<Rightarrow> 'p reservation" where
  "mk_reservation_atom descr room period = (mk_reservation descr)\<lparr>res_atoms := [mk_atom room period]\<rparr>"

section \<open>Accessors\<close>

definition atomAtIndex :: "int \<Rightarrow> 'p reservation \<Rightarrow> 'p reservation_atom option" where
  "atomAtIndex i r =
     (if 0 \<le> i \<and> i < int (length (res_atoms r)) then Some (res_atoms r ! nat i) else None)"

definition firstAtom :: "'p reservation \<Rightarrow> 'p reservation_atom option" where
  "firstAtom r = (if res_atoms r = [] then None else Some (res_atoms r ! 0))"

definition lastAtom :: "'p reservation \<Rightarrow> 'p reservation_atom option" where
  "lastAtom r = (if res_atoms r = [] then None else Some (res_atoms r ! (length (res_atoms r) - 1)))"

definition isValid :: "('d::linorder, 'p) gregorian \<Rightarrow> 'p reservation \<Rightarrow> bool" where
  "isValid G r =
     (if res_atoms r = [] then False
      else if p_is_null G (atom_range (res_atoms r ! 0)) then False
      else list_all (\<lambda>i. \<not> p_is_null G (atom_range (res_atoms r ! i))
              \<and> p_end G (atom_range (res_atoms r ! (i - 1))) = p_begin G (atom_range (res_atoms r ! i)))
            [1..<length (res_atoms r)])"

definition dateRange :: "('d::linorder, 'p) gregorian \<Rightarrow> 'p reservation \<Rightarrow> 'p" where
  "dateRange G r =
     (if \<not> isValid G r then mk_period G (not_a_date G) (not_a_date G)
      else mk_period G (p_begin G (atom_range (hd (res_atoms r)))) (p_end G (atom_range (last (res_atoms r)))))"

definition reservation_length :: "('d::linorder, 'p) gregorian \<Rightarrow> 'p reservation \<Rightarrow> int" where
  "reservation_length G r =
     (case (firstAtom r, lastAtom r) of
        (Some a, Some b) \<Rightarrow> days_between G (p_end G (atom_range b)) (p_begin G (atom_range a))
      | _ \<Rightarrow> 0)"

definition atom_intersectsWith ::
    "('d::linorder, 'p) gregorian \<Rightarrow> 'p reservation_atom \<Rightarrow> 'p reservation_atom \<Rightarrow> bool" where
  "atom_intersectsWith G a b \<longleftrightarrow> atom_room a = atom_room b \<and> p_intersects G (atom_range a) (atom_range b)"

definition intersectsWith ::
    "('d::linorder, 'p) gregorian \<Rightarrow> 'p reservation \<Rightarrow> 'p reservation \<Rightarrow> bool" where
  "intersectsWith G r s =
     list_ex (\<lambda>a. list_ex (atom_intersectsWith G a) (res_atoms s)) (res_atoms r)"

text \<open>The comparisons ignore ids and revisions.\<close>

definition atom_eq :: "'p reservation_atom \<Rightarrow> 'p reservation_atom \<Rightarrow> bool" where
  "atom_eq a b \<longleftrightarrow> atom_room a = atom_room b \<and> atom_range a = atom_range b"

definition reservation_eq :: "'p reservation \<Rightarrow> 'p reservation \<Rightarrow> bool" where
  "reservation_eq a b \<longleftrightarrow> res_status a = res_status b \<and> res_description a = res_description b
     \<and> res_owner a = res_owner b \<and> res_adults a = res_adults b \<and> res_children a = res_children b
     \<and> list_all2 atom_eq (res_atoms a) (res_atoms b)"

section \<open>Operations\<close>

definition addAtom ::
    "('d::linorder, 'p) gregorian \<Rightarrow> int \<Rightarrow> 'p \<Rightarrow> 'p reservation \<Rightarrow> 'p reservation res" where
  "addAtom G room period r =
     (if p_is_null G period then Inl (LogicError ''Cannot add atom because its date range is invalid'')
      else if (case lastAtom r of None \<Rightarrow> True | Some a \<Rightarrow> p_end G (atom_range a) = p_begin G period)
      then Inr (r\<lparr>res_atoms := res_atoms r @ [mk_atom room period]\<rparr>)
      else Inl (LogicError ''Cannot add atom because the date range is not contiguous to the previous atom''))"

definition addAtomCopy ::
    "('d::linorder, 'p) gregorian \<Rightarrow> 'p reservation_atom \<Rightarrow> 'p reservation \<Rightarrow> 'p reservation res" where
  "addAtomCopy G a r = addAtom G (atom_room a) (atom_range a) r"

definition addContinuation ::
    "('d::linorder, 'p) gregorian \<Rightarrow> int \<Rightarrow> 'd \<Rightarrow> 'p reservation \<Rightarrow> 'p reservation res" where
  "addContinuation G room date r =
     (case lastAtom r of
        None \<Rightarrow> Inl (LogicError ''Cannot add continuation, because reservation has no atom yet'')
      | Some a \<Rightarrow>
          if date \<le> p_end G (atom_range a)
          then Inl (LogicError (''Cannot create reservation continuation... '' @
                      ''The given date preceeds the end date of the last atom''))
          else Inr (r\<lparr>res_atoms := res_atoms r @
                      [mk_atom room (mk_period G (p_end G (atom_range a)) date)]\<rparr>))"

text \<open>
  The loop of \<open>joinAdjacentAtoms\<close> with its index: after a join the element at \<open>i\<close> is erased and the
  decrement and increment of the index cancel, so the same position is looked at again.
\<close>

definition join_at :: "('d::linorder, 'p) gregorian \<Rightarrow> nat \<Rightarrow> 'p reservation_atom list \<Rightarrow> 'p reservation_atom list" where
  "join_at G i xs =
     (let joined = (xs ! (i - 1))\<lparr>atom_range := p_span G (atom_range (xs ! (i - 1))) (atom_range (xs ! i))\<rparr>;
          ys = xs[i - 1 := joined]
      in take i ys @ drop (Suc i) ys)"

function join_loop :: "('d::linorder, 'p) gregorian \<Rightarrow> nat \<Rightarrow> 'p reservation_atom list \<Rightarrow> 'p reservation_atom list" where
  "join_loop G i xs =
     (if i < length xs then
        if atom_room (xs ! (i - 1)) = atom_room (xs ! i) then join_loop G i (join_at G i xs)
        else join_loop G (Suc i) xs
      else xs)"
  by pat_completeness auto
termination
  by (relation "measure (\<lambda>(G, i, xs). length xs - i)") (auto simp: join_at_def)

declare join_loop.simps [simp del]

definition joinAdjacentAtoms :: "('d::linorder, 'p) gregorian \<Rightarrow> 'p reservation \<Rightarrow> 'p reservation" where
  "joinAdjacentAtoms G r =
     (if length (res_atoms r) < 2 then r else r\<lparr>res_atoms := join_loop G 1 (res_atoms r)\<rparr>)"

definition removeLastAtom :: "'p reservation \<Rightarrow> 'p reservation" where
  "removeLastAtom r = (if res_atoms r = [] then r else r\<lparr>res_atoms := butlast (res_atoms r)\<rparr>)"

definition removeAllAtoms :: "'p reservation \<Rightarrow> 'p reservation" where
  "removeAllAtoms r = r\<lparr>res_atoms := []\<rparr>"

text \<open>The calls by which clients change a reservation.\<close>

datatype ('d, 'p) reservation_call =
    SetStatus reservation_status
  | SetDescription string
  | SetNumberOfAdults int
  | SetNumberOfChildren int
  | SetReservationOwnerPerson "int option"
  | AddAtom int 'p
  | AddContinuation int 'd
  | JoinAdjacentAtoms
  | RemoveLastAtom
  | RemoveAllAtoms

fun reservation_step ::
    "('d::linorder, 'p) gregorian \<Rightarrow> ('d, 'p) reservation_call \<Rightarrow> 'p reservation \<Rightarrow> 'p reservation res" where
  "reservation_step G (SetStatus s) r = Inr (r\<lparr>res_status := s\<rparr>)"
| "reservation_step G (SetDescription t) r = Inr (r\<lparr>res_description := t\<rparr>)"
| "reservation_step G (SetNumberOfAdults n) r = Inr (r\<lparr>res_adults := n\<rparr>)"
| "reservation_step G (SetNumberOfChildren n) r = Inr (r\<lparr>res_children := n\<rparr>)"
| "reservation_step G (SetReservationOwnerPerson p) r = Inr (r\<lparr>res_owner := p\<rparr>)"
| "reservation_step G (AddAtom room period) r = addAtom G room period r"
| "reservation_step G (AddContinuation room d) r = addContinuation G room d r"
| "reservation_step G JoinAdjacentAtoms r = Inr (joinAdjacentAtoms G r)"
| "reservation_step G RemoveLastAtom r = Inr (removeLastAtom r)"
| "reservation_step G RemoveAllAtoms r = Inr (removeAllAtoms r)"

section \<open>Contiguous atoms\<close>

text \<open>The structural description of a valid stay: ordinary, non-empty, contiguous periods.\<close>

fun chain :: "('d::linorder, 'p) gregorian \<Rightarrow> 'p reservation_atom list \<Rightarrow> bool" where
  "chain G [] = True"
| "chain G [a] = period_ok G (atom_range a)"
| "chain G (a # b # xs) =
     (period_ok G (atom_range a) \<and> p_end G (atom_range a) = p_begin G (atom_range b) \<and> chain G (b # xs))"

definition atoms_regular :: "('d::linorder, 'p) gregorian \<Rightarrow> 'p reservation \<Rightarrow> bool" where
  "atoms_regular G r = list_all (\<lambda>a. period_regular G (atom_range a)) (res_atoms r)"

definition reservation_ok :: "('d::linorder, 'p) gregorian \<Rightarrow> 'p reservation \<Rightarrow> bool" where
  "reservation_ok G r \<longleftrightarrow> res_atoms r \<noteq> [] \<and> chain G (res_atoms r)"

lemma chain_period_ok: "chain G xs \<Longrightarrow> a \<in> set xs \<Longrightarrow> period_ok G (atom_range a)"
  by (induction G xs rule: chain.induct) auto

lemma chain_Cons: "chain G (a # xs) \<Longrightarrow> chain G xs"
  by (cases xs) auto

lemma chain_iff_nth:
  "chain G xs \<longleftrightarrow> (\<forall>i < length xs. period_ok G (atom_range (xs ! i))) \<and>
     (\<forall>i < length xs. 0 < i \<longrightarrow> p_end G (atom_range (xs ! (i - 1))) = p_begin G (atom_range (xs ! i)))"
proof (induction G xs rule: chain.induct)
  case (3 G a b xs)
  then show ?case by (simp add: All_less_Suc2) blast
qed auto

lemma chain_append:
  "chain G (xs @ ys) \<longleftrightarrow> chain G xs \<and> chain G ys
     \<and> (xs \<noteq> [] \<longrightarrow> ys \<noteq> [] \<longrightarrow> p_end G (atom_range (last xs)) = p_begin G (atom_range (hd ys)))"
proof (induction G xs rule: chain.induct)
  case (2 G a)
  show ?case by (cases ys) auto
qed auto

lemma chain_append_one:
  "chain G (xs @ [a]) \<longleftrightarrow> chain G xs \<and> period_ok G (atom_range a)
     \<and> (xs \<noteq> [] \<longrightarrow> p_end G (atom_range (last xs)) = p_begin G (atom_range a))"
  by (induction G xs rule: chain.induct) auto

lemma chain_butlast: "chain G xs \<Longrightarrow> chain G (butlast xs)"
  by (cases xs rule: rev_cases) (auto simp: chain_append_one)

lemma period_ok_iff:
  "gregorian_ok G \<Longrightarrow> period_regular G p \<Longrightarrow> period_ok G p \<longleftrightarrow> \<not> p_is_null G p"
  by (auto simp: g_is_null period_ok_def period_regular_def)

lemma all_from_one:
  assumes "0 < (n::nat)"
  shows "P 0 \<and> (\<forall>i \<in> {1..<n}. P i \<and> Q i) \<longleftrightarrow> (\<forall>i < n. P i) \<and> (\<forall>i < n. 0 < i \<longrightarrow> Q i)"
proof (intro iffI conjI allI impI ballI)
  fix i assume *: "P 0 \<and> (\<forall>i \<in> {1..<n}. P i \<and> Q i)" and "i < n"
  then show "P i" by (cases i) auto
qed (use assms in auto)

lemma isValid_iff:
  assumes "gregorian_ok G" and "atoms_regular G r"
  shows "isValid G r \<longleftrightarrow> reservation_ok G r"
proof (cases "res_atoms r = []")
  case False
  have ok: "period_ok G (atom_range (res_atoms r ! i)) \<longleftrightarrow> \<not> p_is_null G (atom_range (res_atoms r ! i))"
    if "i < length (res_atoms r)" for i
    using assms that by (intro period_ok_iff) (auto simp: atoms_regular_def list_all_length)
  have "isValid G r \<longleftrightarrow> (\<forall>i < length (res_atoms r). \<not> p_is_null G (atom_range (res_atoms r ! i)))
      \<and> (\<forall>i < length (res_atoms r). 0 < i \<longrightarrow>
           p_end G (atom_range (res_atoms r ! (i - 1))) = p_begin G (atom_range (res_atoms r ! i)))"
    using False by (subst all_from_one [symmetric]) (auto simp: isValid_def list_all_iff)
  then show ?thesis using False ok by (simp add: reservation_ok_def chain_iff_nth)
qed (simp add: isValid_def reservation_ok_def)

lemma reservation_ok_regular: "reservation_ok G r \<Longrightarrow> atoms_regular G r"
  using chain_period_ok period_ok_regular
  by (fastforce simp: reservation_ok_def atoms_regular_def list_all_iff)

lemma reservation_ok_isValid [simp]: "gregorian_ok G \<Longrightarrow> reservation_ok G r \<Longrightarrow> isValid G r"
  using isValid_iff reservation_ok_regular by blast

lemma chain_first_last:
  "chain G xs \<Longrightarrow> xs \<noteq> [] \<Longrightarrow> a \<in> set xs \<Longrightarrow>
     p_begin G (atom_range (hd xs)) \<le> p_begin G (atom_range a)
     \<and> p_end G (atom_range a) \<le> p_end G (atom_range (last xs))"
proof (induction G xs arbitrary: a rule: chain.induct)
  case (3 G b c xs)
  have c: "p_begin G (atom_range c) \<le> p_begin G (atom_range x) \<and>
       p_end G (atom_range x) \<le> p_end G (atom_range (last (c # xs)))" if "x \<in> set (c # xs)" for x
    using "3.IH" [of x] "3.prems" that by simp
  have bc: "p_begin G (atom_range b) < p_end G (atom_range b)" "p_end G (atom_range b) = p_begin G (atom_range c)"
      "p_begin G (atom_range c) < p_end G (atom_range c)"
    using "3.prems" chain_period_ok [of G "c # xs" c] by (auto simp: period_ok_def)
  show ?case
  proof (cases "a = b")
    case True
    then show ?thesis using bc c [of c] by auto
  next
    case False
    then show ?thesis using bc c [of a] "3.prems" by auto
  qed
qed auto

lemma dateRange_ok:
  assumes "gregorian_ok G" and "reservation_ok G r"
  shows "dateRange G r = mk_period G (p_begin G (atom_range (hd (res_atoms r)))) (p_end G (atom_range (last (res_atoms r))))"
    and "period_ok G (dateRange G r)"
    and "p_begin G (dateRange G r) = p_begin G (atom_range (hd (res_atoms r)))"
    and "p_end G (dateRange G r) = p_end G (atom_range (last (res_atoms r)))"
proof -
  have ne: "res_atoms r \<noteq> []" and ch: "chain G (res_atoms r)"
    using assms(2) by (auto simp: reservation_ok_def)
  let ?f = "atom_range (hd (res_atoms r))" and ?l = "atom_range (last (res_atoms r))"
  have ok: "period_ok G ?f" "period_ok G ?l"
    using chain_period_ok [OF ch] ne by auto
  have "p_begin G ?f \<le> p_begin G ?l" using chain_first_last [OF ch ne, of "last (res_atoms r)"] ne by simp
  then have lt: "p_begin G ?f < p_end G ?l" using ok by (auto simp: period_ok_def)
  show eq: "dateRange G r = mk_period G (p_begin G ?f) (p_end G ?l)"
    using assms by (simp add: dateRange_def)
  show "period_ok G (dateRange G r)" "p_begin G (dateRange G r) = p_begin G ?f"
      "p_end G (dateRange G r) = p_end G ?l"
    using assms(1) ok lt unfolding eq by (simp_all add: period_ok_not_special period_ok_mk g_begin g_end)
qed

section \<open>Days of a stay\<close>

text \<open>The room nights a list of atoms occupies.\<close>

definition atoms_nights :: "('d::linorder, 'p) gregorian \<Rightarrow> 'p reservation_atom list \<Rightarrow> (int \<times> 'd) set" where
  "atoms_nights G xs = {(room, d). \<exists>a \<in> set xs. atom_room a = room \<and> d \<in> period_days G (atom_range a)}"

abbreviation nights :: "('d::linorder, 'p) gregorian \<Rightarrow> 'p reservation \<Rightarrow> (int \<times> 'd) set" where
  "nights G r \<equiv> atoms_nights G (res_atoms r)"

lemma atoms_nights_simps [simp]:
  "atoms_nights G [] = {}"
  "atoms_nights G (a # xs) = {atom_room a} \<times> period_days G (atom_range a) \<union> atoms_nights G xs"
  "atoms_nights G (xs @ ys) = atoms_nights G xs \<union> atoms_nights G ys"
  by (auto simp: atoms_nights_def)

lemma atoms_nights_iff:
  "(room, d) \<in> atoms_nights G xs \<longleftrightarrow> (\<exists>a \<in> set xs. atom_room a = room \<and> d \<in> period_days G (atom_range a))"
  by (simp add: atoms_nights_def)

lemma chain_unique_atom:
  assumes "chain G xs" and "xs \<noteq> []"
    and "\<not> is_special G d" and "p_begin G (atom_range (hd xs)) \<le> d" and "d < p_end G (atom_range (last xs))"
  shows "\<exists>!i. i < length xs \<and> d \<in> period_days G (atom_range (xs ! i))"
  using assms
proof (induction G xs rule: chain.induct)
  case (2 G a)
  then show ?case by (auto simp: period_days_def)
next
  case (3 G a b xs)
  note later = chain_first_last [of G "b # xs", OF chain_Cons [OF "3.prems"(1)]]
  have ab: "p_end G (atom_range a) = p_begin G (atom_range b)" using "3.prems"(1) by simp
  show ?case
  proof (cases "d < p_end G (atom_range a)")
    case True
    have "d \<notin> period_days G (atom_range ((b # xs) ! i))" if "i < length (b # xs)" for i
      using later [of "(b # xs) ! i"] nth_mem [OF that] True ab by (auto simp: period_days_def)
    then have "i = 0" if "i < length (a # b # xs)" "d \<in> period_days G (atom_range ((a # b # xs) ! i))" for i
      using that by (cases i) auto
    moreover have "d \<in> period_days G (atom_range a)" using "3.prems" True by (simp add: period_days_def)
    ultimately show ?thesis by (intro ex1I [of _ 0]) auto
  next
    case False
    then have na: "d \<notin> period_days G (atom_range a)" by (simp add: period_days_def)
    have "\<exists>!i. i < length (b # xs) \<and> d \<in> period_days G (atom_range ((b # xs) ! i))"
      using "3.IH" "3.prems" False ab by simp
    then obtain i where i: "i < length (b # xs)" "d \<in> period_days G (atom_range ((b # xs) ! i))"
        and u: "\<And>j. j < length (b # xs) \<Longrightarrow> d \<in> period_days G (atom_range ((b # xs) ! j)) \<Longrightarrow> j = i"
      by blast
    show ?thesis
    proof (intro ex1I [of _ "Suc i"])
      show "j = Suc i" if "j < length (a # b # xs) \<and> d \<in> period_days G (atom_range ((a # b # xs) ! j))" for j
        using that na u by (cases j) auto
    qed (use i in simp)
  qed
qed simp

definition atom_days :: "('d::linorder, 'p) gregorian \<Rightarrow> 'p reservation_atom \<Rightarrow> int" where
  "atom_days G a = days_between G (p_end G (atom_range a)) (p_begin G (atom_range a))"

lemma chain_length:
  assumes "gregorian_ok G"
  shows "chain G xs \<Longrightarrow> xs \<noteq> [] \<Longrightarrow>
    days_between G (p_end G (atom_range (last xs))) (p_begin G (atom_range (hd xs))) = sum_list (map (atom_days G) xs)"
  using assms
proof (induction G xs rule: chain.induct)
  case (3 G a b xs)
  have ok: "period_ok G (atom_range a)" "period_ok G (atom_range (last (b # xs)))"
    using "3.prems" chain_period_ok [of G "b # xs" "last (b # xs)"] last_in_set [of "b # xs"]
    by (simp_all del: last.simps set_simps)
  have "days_between G (p_end G (atom_range (last (b # xs)))) (p_begin G (atom_range a))
      = days_between G (p_end G (atom_range (last (b # xs)))) (p_end G (atom_range a))
        + days_between G (p_end G (atom_range a)) (p_begin G (atom_range a))"
    by (rule g_days_add [OF "3.prems"(3) period_ok_not_special(2) [OF ok(2)] period_ok_not_special(2) [OF ok(1)]
          period_ok_not_special(1) [OF ok(1)]])
  then show ?case using 3 by (simp add: atom_days_def)
qed (auto simp: atom_days_def)

section \<open>Joining adjacent atoms\<close>

text \<open>The reference: merge from the left, structurally.\<close>

fun merge_atoms :: "('d::linorder, 'p) gregorian \<Rightarrow> 'p reservation_atom list \<Rightarrow> 'p reservation_atom list" where
  "merge_atoms G (a # b # xs) =
     (if atom_room a = atom_room b
      then merge_atoms G (a\<lparr>atom_range := p_span G (atom_range a) (atom_range b)\<rparr> # xs)
      else a # merge_atoms G (b # xs))"
| "merge_atoms G xs = xs"

lemma join_loop_unfold:
  "\<not> i < length xs \<Longrightarrow> join_loop G i xs = xs"
  "i < length xs \<Longrightarrow> atom_room (xs ! (i - 1)) = atom_room (xs ! i) \<Longrightarrow>
     join_loop G i xs = join_loop G i (join_at G i xs)"
  "i < length xs \<Longrightarrow> atom_room (xs ! (i - 1)) \<noteq> atom_room (xs ! i) \<Longrightarrow>
     join_loop G i xs = join_loop G (Suc i) xs"
  by (subst join_loop.simps, simp)+

lemma join_at_middle:
  "join_at G (Suc (length ys)) (ys @ a # b # xs)
     = ys @ a\<lparr>atom_range := p_span G (atom_range a) (atom_range b)\<rparr> # xs"
  by (simp add: join_at_def nth_append list_update_append)

lemma join_loop_merge: "join_loop G (Suc (length ys)) (ys @ a # xs) = ys @ merge_atoms G (a # xs)"
proof (induction xs arbitrary: ys a)
  case Nil
  show ?case by (simp add: join_loop_unfold(1))
next
  case (Cons b xs)
  show ?case
  proof (cases "atom_room a = atom_room b")
    case True
    then show ?thesis
      using Cons.IH [of ys "a\<lparr>atom_range := p_span G (atom_range a) (atom_range b)\<rparr>"]
      by (subst join_loop_unfold(2)) (simp_all add: join_at_middle nth_append)
  next
    case False
    then show ?thesis
      using Cons.IH [of "ys @ [a]" b]
      by (subst join_loop_unfold(3)) (simp_all add: nth_append)
  qed
qed

lemma joinAdjacentAtoms_merge: "joinAdjacentAtoms G r = r\<lparr>res_atoms := merge_atoms G (res_atoms r)\<rparr>"
proof (cases "length (res_atoms r) < 2")
  case True
  then have "merge_atoms G (res_atoms r) = res_atoms r"
    by (cases "(G, res_atoms r)" rule: merge_atoms.cases) auto
  then show ?thesis using True by (simp add: joinAdjacentAtoms_def)
next
  case False
  then obtain a xs where "res_atoms r = a # xs" by (cases "res_atoms r") auto
  then show ?thesis using join_loop_merge [of G "[]" a xs] False by (simp add: joinAdjacentAtoms_def)
qed

lemma merge_atoms_head:
  assumes "gregorian_ok G" and "chain G (a # b # xs)"
  shows "chain G (a\<lparr>atom_range := p_span G (atom_range a) (atom_range b)\<rparr> # xs)"
    and "p_begin G (p_span G (atom_range a) (atom_range b)) = p_begin G (atom_range a)"
    and "p_end G (p_span G (atom_range a) (atom_range b)) = p_end G (atom_range b)"
    and "period_days G (p_span G (atom_range a) (atom_range b))
           = period_days G (atom_range a) \<union> period_days G (atom_range b)"
proof -
  have ok: "period_ok G (atom_range a)" "period_ok G (atom_range b)"
      "p_end G (atom_range a) = p_begin G (atom_range b)"
    using assms(2) chain_period_ok [of G "b # xs" b] by auto
  then have lt: "p_begin G (atom_range a) < p_end G (atom_range b)" by (auto simp: period_ok_def)
  have span: "p_span G (atom_range a) (atom_range b) = mk_period G (p_begin G (atom_range a)) (p_end G (atom_range b))"
    using assms(1) ok by (simp add: g_span_contiguous)
  show b: "p_begin G (p_span G (atom_range a) (atom_range b)) = p_begin G (atom_range a)"
    and e: "p_end G (p_span G (atom_range a) (atom_range b)) = p_end G (atom_range b)"
    using assms(1) ok unfolding span by (simp_all add: g_begin g_end period_ok_not_special)
  have "period_ok G (p_span G (atom_range a) (atom_range b))"
    using assms(1) ok lt unfolding span by (simp add: period_ok_mk period_ok_not_special)
  then show "chain G (a\<lparr>atom_range := p_span G (atom_range a) (atom_range b)\<rparr> # xs)"
    using assms(2) e by (cases xs) auto
  show "period_days G (p_span G (atom_range a) (atom_range b))
      = period_days G (atom_range a) \<union> period_days G (atom_range b)"
    using ok b e by (auto simp: period_days_def period_ok_def)
qed

lemma merge_atoms_correct:
  assumes "gregorian_ok G"
  shows "chain G xs \<Longrightarrow>
    chain G (merge_atoms G xs) \<and> atoms_nights G (merge_atoms G xs) = atoms_nights G xs
    \<and> (xs \<noteq> [] \<longrightarrow> merge_atoms G xs \<noteq> []
        \<and> p_begin G (atom_range (hd (merge_atoms G xs))) = p_begin G (atom_range (hd xs))
        \<and> p_end G (atom_range (last (merge_atoms G xs))) = p_end G (atom_range (last xs)))"
  using assms
proof (induction G xs rule: merge_atoms.induct)
  case (1 G a b xs)
  note h = merge_atoms_head [OF "1.prems"(2,1)]
  show ?case
  proof (cases "atom_room a = atom_room b")
    case True
    then show ?thesis using "1.IH"(1) h "1.prems" by auto
  next
    case False
    have IH: "chain G (merge_atoms G (b # xs))" "atoms_nights G (merge_atoms G (b # xs)) = atoms_nights G (b # xs)"
        "merge_atoms G (b # xs) \<noteq> []"
        "p_begin G (atom_range (hd (merge_atoms G (b # xs)))) = p_begin G (atom_range b)"
        "p_end G (atom_range (last (merge_atoms G (b # xs)))) = p_end G (atom_range (last (b # xs)))"
      using "1.IH"(2) [OF False] "1.prems" by auto
    then obtain c ys where m: "merge_atoms G (b # xs) = c # ys" by (cases "merge_atoms G (b # xs)") auto
    show ?thesis using IH False "1.prems"(1) by (auto simp: m)
  qed
qed auto

lemma merge_atoms_hd_room: "xs \<noteq> [] \<Longrightarrow> merge_atoms G xs \<noteq> [] \<and> atom_room (hd (merge_atoms G xs)) = atom_room (hd xs)"
  by (induction G xs rule: merge_atoms.induct) auto

lemma merge_atoms_distinct: "distinct_adj (map atom_room (merge_atoms G xs))"
proof (induction G xs rule: merge_atoms.induct)
  case (1 G a b xs)
  then show ?case
    using merge_atoms_hd_room [of "b # xs" G] by (auto simp: distinct_adj_Cons hd_map)
qed auto

section \<open>Every call keeps the stay contiguous\<close>

definition call_regular :: "('d::linorder, 'p) gregorian \<Rightarrow> ('d, 'p) reservation_call \<Rightarrow> bool" where
  "call_regular G c = (case c of AddAtom room p \<Rightarrow> period_regular G p
     | AddContinuation room d \<Rightarrow> \<not> is_special G d | _ \<Rightarrow> True)"

lemma lastAtom_eq: "lastAtom r = (if res_atoms r = [] then None else Some (last (res_atoms r)))"
  by (simp add: lastAtom_def last_conv_nth)

lemma firstAtom_eq: "firstAtom r = (if res_atoms r = [] then None else Some (hd (res_atoms r)))"
  by (simp add: firstAtom_def hd_conv_nth)

lemma addAtom_chain:
  assumes "gregorian_ok G" and "chain G (res_atoms r)" and "period_regular G p"
  shows "addAtom G room p r =
     (if \<not> period_ok G p then Inl (LogicError ''Cannot add atom because its date range is invalid'')
      else if chain G (res_atoms r @ [mk_atom room p]) then Inr (r\<lparr>res_atoms := res_atoms r @ [mk_atom room p]\<rparr>)
      else Inl (LogicError ''Cannot add atom because the date range is not contiguous to the previous atom''))"
  using assms by (auto simp: addAtom_def lastAtom_eq period_ok_iff chain_append_one mk_atom_def)

lemma addContinuation_chain:
  assumes "gregorian_ok G" and "reservation_ok G r" and "\<not> is_special G d"
    and "p_end G (atom_range (last (res_atoms r))) < d"
  shows "\<exists>s. addContinuation G room d r = Inr s \<and> reservation_ok G s
     \<and> p_begin G (dateRange G s) = p_begin G (dateRange G r) \<and> p_end G (dateRange G s) = d"
proof -
  let ?p = "mk_period G (p_end G (atom_range (last (res_atoms r)))) d"
  let ?s = "r\<lparr>res_atoms := res_atoms r @ [mk_atom room ?p]\<rparr>"
  have r: "res_atoms r \<noteq> []" "chain G (res_atoms r)" "period_ok G (atom_range (last (res_atoms r)))"
    using assms(2) chain_period_ok [of G "res_atoms r" "last (res_atoms r)"]
    by (auto simp: reservation_ok_def)
  have p: "period_ok G ?p" "p_begin G ?p = p_end G (atom_range (last (res_atoms r)))" "p_end G ?p = d"
    using assms r by (simp_all add: period_ok_mk g_begin g_end period_ok_not_special)
  have s: "reservation_ok G ?s" using r p by (simp add: reservation_ok_def chain_append_one mk_atom_def)
  then show ?thesis
    using assms r p dateRange_ok [OF assms(1) s] dateRange_ok [OF assms(1,2)]
    by (simp add: addContinuation_def lastAtom_eq mk_atom_def)
qed

lemma reservation_step_chain:
  assumes "gregorian_ok G" and "chain G (res_atoms r)" and "call_regular G c"
    and "reservation_step G c r = Inr s"
  shows "chain G (res_atoms s)"
proof (cases c)
  case (AddAtom room p)
  then show ?thesis
    using assms addAtom_chain [of G r p room] by (auto simp: call_regular_def split: if_splits)
next
  case (AddContinuation room d)
  then have ne: "res_atoms r \<noteq> []" and lt: "p_end G (atom_range (last (res_atoms r))) < d"
    using assms(4) by (auto simp: addContinuation_def lastAtom_eq split: if_splits)
  then show ?thesis
    using addContinuation_chain [of G r d room] assms AddContinuation
    by (auto simp: reservation_ok_def call_regular_def)
next
  case JoinAdjacentAtoms
  then show ?thesis
    using assms merge_atoms_correct [of G "res_atoms r"] by (auto simp: joinAdjacentAtoms_merge)
next
  case RemoveLastAtom
  then show ?thesis using assms chain_butlast by (auto simp: removeLastAtom_def split: if_splits)
qed (use assms in \<open>auto simp: removeAllAtoms_def\<close>)

lemma join_ok:
  assumes "gregorian_ok G" and "reservation_ok G r"
  shows "reservation_ok G (joinAdjacentAtoms G r)"
    and "dateRange G (joinAdjacentAtoms G r) = dateRange G r"
    and "nights G (joinAdjacentAtoms G r) = nights G r"
    and "reservation_length G (joinAdjacentAtoms G r) = reservation_length G r"
proof -
  have r: "res_atoms r \<noteq> []" "chain G (res_atoms r)" using assms(2) by (auto simp: reservation_ok_def)
  note m = merge_atoms_correct [OF assms(1) r(2)]
  show ok: "reservation_ok G (joinAdjacentAtoms G r)"
    using m r by (simp add: joinAdjacentAtoms_merge reservation_ok_def)
  show "dateRange G (joinAdjacentAtoms G r) = dateRange G r"
    using m r dateRange_ok(1) [OF assms(1) ok] dateRange_ok(1) [OF assms] by (simp add: joinAdjacentAtoms_merge)
  show "nights G (joinAdjacentAtoms G r) = nights G r"
    using m r by (simp add: joinAdjacentAtoms_merge)
  show "reservation_length G (joinAdjacentAtoms G r) = reservation_length G r"
    using m r by (simp add: joinAdjacentAtoms_merge reservation_length_def lastAtom_eq firstAtom_eq)
qed

section \<open>A concrete stay\<close>

definition demo_stay :: "(int \<times> int) reservation" where
  "demo_stay = (mk_reservation ''Smith'')\<lparr>res_atoms := [mk_atom 1 (10, 12), mk_atom 1 (12, 13), mk_atom 2 (13, 15)]\<rparr>"

lemma demo_stay_ok: "reservation_ok day_calendar demo_stay"
  by (simp add: demo_stay_def reservation_ok_def mk_atom_def period_ok_def)

lemma intersectsWith_chain:
  assumes "gregorian_ok G" and "chain G (res_atoms r)" and "chain G (res_atoms s)"
  shows "intersectsWith G r s \<longleftrightarrow> nights G r \<inter> nights G s \<noteq> {}"
proof -
  have iff: "atom_intersectsWith G a b \<longleftrightarrow> atom_room a = atom_room b
        \<and> (\<exists>d. d \<in> period_days G (atom_range a) \<and> d \<in> period_days G (atom_range b))"
    if "a \<in> set (res_atoms r)" "b \<in> set (res_atoms s)" for a b
    using intersects_iff_common_day [OF assms(1), of "atom_range a" "atom_range b"] that assms(2,3)
      chain_period_ok [of G "res_atoms r" a] chain_period_ok [of G "res_atoms s" b]
    by (auto simp: atom_intersectsWith_def)
  have "intersectsWith G r s
      \<longleftrightarrow> (\<exists>a \<in> set (res_atoms r). \<exists>b \<in> set (res_atoms s). atom_intersectsWith G a b)"
    by (simp add: intersectsWith_def list_ex_iff)
  also have "\<dots> \<longleftrightarrow> (\<exists>a \<in> set (res_atoms r). \<exists>b \<in> set (res_atoms s). atom_room a = atom_room b
        \<and> (\<exists>d. d \<in> period_days G (atom_range a) \<and> d \<in> period_days G (atom_range b)))"
    by (intro bex_cong refl) (rule iff)
  also have "\<dots> \<longleftrightarrow> (\<exists>room d. (room, d) \<in> nights G r \<and> (room, d) \<in> nights G s)"
    unfolding atoms_nights_iff by (intro iffI) (elim bexE conjE exE, metis)+
  finally show ?thesis by auto
qed

section \<open>Properties\<close>

text \<open>C18 A reservation that starts from the constructor without atoms, or from the one with an atom of a non-empty period of
  ordinary dates, and goes through any sequence of successful calls of its setters and of the operations on its atoms, has
  no atom at all or is valid: non-empty contiguous periods, and \<open>isValid\<close> returns true.  The date arguments of the calls are ordinary
  dates, and the atoms are not changed through the reference that the accessor \<open>atoms\<close> gives.  The constructor with an atom
  does not check its period: with an empty one the reservation is not valid (\<open>empty_period_accepted\<close>).\<close>

theorem reservation_calls_valid:
  assumes "gregorian_ok G" and "r0 = mk_reservation t \<or> (\<exists>room p. period_ok G p \<and> r0 = mk_reservation_atom t room p)"
    and "\<forall>c \<in> set calls. call_regular G c" and "fold_res (reservation_step G) calls r0 = Inr r"
  shows "res_atoms r = [] \<or> (reservation_ok G r \<and> isValid G r)"
proof -
  have "chain G (res_atoms r)"
    using assms(4)
  proof (rule fold_res_invariant)
    show "chain G (res_atoms v)" if "c \<in> set calls" "chain G (res_atoms u)" "reservation_step G c u = Inr v" for c u v
      using reservation_step_chain assms(1,3) that by blast
    show "chain G (res_atoms r0)" using assms(2) by (auto simp: mk_reservation_def mk_reservation_atom_def mk_atom_def)
  qed
  then show ?thesis using assms(1) by (auto simp: reservation_ok_def)
qed

theorem reservation_calls_valid_witness:
  "isValid day_calendar ((mk_reservation ''t'')\<lparr>res_atoms := [mk_atom 1 (3, 5), mk_atom 2 (5, 9)]\<rparr>)"
  using reservation_calls_valid [of day_calendar "mk_reservation_atom ''t'' 1 (3, 5)" "''t''" "[AddContinuation 2 9]"
      "(mk_reservation ''t'')\<lparr>res_atoms := [mk_atom 1 (3, 5), mk_atom 2 (5, 9)]\<rparr>"]
  by (simp add: call_regular_def addContinuation_def lastAtom_def period_ok_def exI [of _ 1]
      mk_reservation_def mk_reservation_atom_def mk_atom_def)

lemma empty_period_accepted:
  "gregorian_ok G \<Longrightarrow> period_regular G p \<Longrightarrow> \<not> period_ok G p \<Longrightarrow> \<not> isValid G (mk_reservation_atom t room p)"
  by (simp add: isValid_def mk_reservation_atom_def mk_reservation_def mk_atom_def period_ok_iff)

text \<open>C19 Joining the atoms of a valid reservation keeps it valid, with the same date range, the same
  length and the same occupied room nights, and leaves no two neighbouring atoms on the same room.\<close>

theorem joinAdjacentAtoms_correct:
  assumes "gregorian_ok G" and "reservation_ok G r"
  shows "reservation_ok G (joinAdjacentAtoms G r) \<and> dateRange G (joinAdjacentAtoms G r) = dateRange G r
    \<and> reservation_length G (joinAdjacentAtoms G r) = reservation_length G r
    \<and> nights G (joinAdjacentAtoms G r) = nights G r
    \<and> distinct_adj (map atom_room (res_atoms (joinAdjacentAtoms G r)))"
  using join_ok [OF assms] merge_atoms_distinct [of G "res_atoms r"] by (simp add: joinAdjacentAtoms_merge)

theorem joinAdjacentAtoms_correct_witness:
  "nights day_calendar (joinAdjacentAtoms day_calendar demo_stay) = nights day_calendar demo_stay"
  using joinAdjacentAtoms_correct [of day_calendar demo_stay] demo_stay_ok by simp

text \<open>In a valid reservation every night of the date range is spent in exactly one atom, and the
  length is the sum of the nights of the atoms and is positive.\<close>

lemma valid_reservation_nights:
  assumes "gregorian_ok G" and "reservation_ok G r"
  shows "(\<forall>d \<in> period_days G (dateRange G r).
            \<exists>!i. i < length (res_atoms r) \<and> d \<in> period_days G (atom_range (res_atoms r ! i)))
    \<and> reservation_length G r = sum_list (map (atom_days G) (res_atoms r)) \<and> 0 < reservation_length G r"
proof -
  have r: "res_atoms r \<noteq> []" "chain G (res_atoms r)" using assms(2) by (auto simp: reservation_ok_def)
  note d = dateRange_ok [OF assms]
  have "\<exists>!i. i < length (res_atoms r) \<and> e \<in> period_days G (atom_range (res_atoms r ! i))"
    if "e \<in> period_days G (dateRange G r)" for e
    using that by (intro chain_unique_atom r) (simp_all add: period_days_def d(3,4))
  moreover have len: "reservation_length G r
      = days_between G (p_end G (atom_range (last (res_atoms r)))) (p_begin G (atom_range (hd (res_atoms r))))"
    using r by (simp add: reservation_length_def lastAtom_eq firstAtom_eq)
  moreover have "0 < reservation_length G r"
    using d(2) assms(1) by (simp add: len g_days_pos period_ok_def d(3,4))
  ultimately show ?thesis using chain_length [OF assms(1) r(2,1)] by simp
qed

text \<open>Two valid reservations intersect exactly when there is a room night that both occupy.\<close>

lemma intersectsWith_iff_common_night:
  assumes "gregorian_ok G" and "reservation_ok G r" and "reservation_ok G s"
  shows "intersectsWith G r s \<longleftrightarrow> nights G r \<inter> nights G s \<noteq> {}"
  using intersectsWith_chain [OF assms(1), of r s] assms(2,3) by (simp add: reservation_ok_def)

lemma intersectsWith_iff_common_night_witness:
  "intersectsWith day_calendar demo_stay demo_stay"
proof -
  have "(1, 10) \<in> nights day_calendar demo_stay"
    by (simp add: demo_stay_def atoms_nights_def mk_atom_def period_days_def)
  then show ?thesis
    using intersectsWith_iff_common_night [of day_calendar demo_stay demo_stay] demo_stay_ok by auto
qed

text \<open>Continuing a valid stay to a later ordinary date returns a valid stay that begins as before and ends at that
  date.\<close>

lemma addContinuation_extends:
  assumes "gregorian_ok G" and "reservation_ok G r" and "\<not> is_special G d"
    and "p_end G (dateRange G r) < d"
  shows "\<exists>s. addContinuation G room d r = Inr s \<and> reservation_ok G s
     \<and> p_begin G (dateRange G s) = p_begin G (dateRange G r) \<and> p_end G (dateRange G s) = d"
  using addContinuation_chain [OF assms(1,2,3)] assms(4) dateRange_ok(4) [OF assms(1,2)] by simp

end
