(* ===== verification/Planning.thy ===== *)
theory Planning
  imports Reservation
begin

text \<open>
  \<open>hotel::PlanningBoard\<close>.  The board owns its reservations through \<open>unique_ptr\<close>s and keeps, for
  every room, a vector of pointers to the atoms on that room, sorted by their begin.  Sharing matters
  here, so reservations carry their address and a pointer to an atom is the address of its
  reservation with the position of the atom in it.  Following a pointer whose reservation is no
  longer alive is undefined behaviour.
\<close>

section \<open>State\<close>

type_synonym addr = nat
type_synonym atom_ptr = "addr \<times> nat"
type_synonym 'p objects = "(addr \<times> 'p reservation) list"

record 'p planning_board =
  pb_reservations :: "'p objects"
  pb_rooms :: "(int, atom_ptr list) omap"

definition empty_board :: "'p planning_board" where
  "empty_board = \<lparr>pb_reservations = [], pb_rooms = []\<rparr>"

definition lookup_atom :: "'p objects \<Rightarrow> atom_ptr \<Rightarrow> 'p reservation_atom option" where
  "lookup_atom H q = (case map_of H (fst q) of None \<Rightarrow> None
     | Some r \<Rightarrow> if snd q < length (res_atoms r) then Some (res_atoms r ! snd q) else None)"

definition deref :: "'p objects \<Rightarrow> atom_ptr \<Rightarrow> 'p reservation_atom res" where
  "deref H q = (case lookup_atom H q of None \<Rightarrow> Inl UndefinedBehaviour | Some a \<Rightarrow> Inr a)"

definition atom_ptrs :: "addr \<times> 'p reservation \<Rightarrow> atom_ptr list" where
  "atom_ptrs e = map (Pair (fst e)) [0..<length (res_atoms (snd e))]"

section \<open>Operations\<close>

text \<open>\<open>std::none_of\<close> and \<open>std::all_of\<close> over a predicate that follows pointers.\<close>

fun none_of_res :: "('a \<Rightarrow> bool res) \<Rightarrow> 'a list \<Rightarrow> bool res" where
  "none_of_res f [] = Inr True"
| "none_of_res f (x # xs) = bindr (f x) (\<lambda>b. if b then Inr False else none_of_res f xs)"

fun all_of_res :: "('a \<Rightarrow> bool res) \<Rightarrow> 'a list \<Rightarrow> bool res" where
  "all_of_res f [] = Inr True"
| "all_of_res f (x # xs) = bindr (f x) (\<lambda>b. if b then all_of_res f xs else Inr False)"

definition isFree :: "('d::linorder, 'p) gregorian \<Rightarrow> 'p planning_board \<Rightarrow> int \<Rightarrow> 'p \<Rightarrow> bool res" where
  "isFree G b roomId period =
     (case omap_find (pb_rooms b) roomId of
        None \<Rightarrow> Inr True
      | Some ptrs \<Rightarrow>
          none_of_res (\<lambda>q. bindr (deref (pb_reservations b) q)
             (\<lambda>a. Inr (p_intersects G (atom_range a) period))) ptrs)"

definition canAddReservation ::
    "('d::linorder, 'p) gregorian \<Rightarrow> 'p planning_board \<Rightarrow> 'p reservation \<Rightarrow> bool res" where
  "canAddReservation G b r =
     (if \<not> isValid G r then Inr False
      else all_of_res (\<lambda>a. isFree G b (atom_room a) (atom_range a)) (res_atoms r))"

text \<open>
  \<open>insertAtom\<close> appends the pointer and sorts the vector by the begin of the atoms.  \<open>std::sort\<close>
  leaves the order of atoms with the same begin open; on the boards that occur no two atoms of a room
  have the same begin, so the choice of a stable sort here is no restriction.  \<open>H\<close> holds the objects
  alive at the call, the reservation being added among them.
\<close>

definition insertAtom ::
    "('d::linorder, 'p) gregorian \<Rightarrow> 'p objects \<Rightarrow> atom_ptr \<Rightarrow> (int, atom_ptr list) omap \<Rightarrow> (int, atom_ptr list) omap res"
  where
  "insertAtom G H q rooms =
     bindr (deref H q) (\<lambda>a.
       let ptrs = omap_get [] rooms (atom_room a) @ [q]
       in bindr (map_res (deref H) ptrs) (\<lambda>atoms.
            Inr (omap_put (atom_room a)
                  (map fst (sort_key (\<lambda>e. p_begin G (atom_range (snd e))) (zip ptrs atoms))) rooms)))"

text \<open>The argument is a \<open>unique_ptr\<close>: null, or the address of the object with the object.\<close>

definition addReservation ::
    "('d::linorder, 'p) gregorian \<Rightarrow> (addr \<times> 'p reservation) option \<Rightarrow> 'p planning_board \<Rightarrow> 'p planning_board res"
  where
  "addReservation G reservation b =
     (case reservation of
        None \<Rightarrow> Inl (InvalidArgument ''cannot add nullptr reservation to planning board'')
      | Some e \<Rightarrow>
          bindr (canAddReservation G b (snd e)) (\<lambda>ok.
            if \<not> ok then Inl (LogicError (''cannot add reservation '' @ res_description (snd e)))
            else bindr (fold_res (insertAtom G (e # pb_reservations b)) (atom_ptrs e) (pb_rooms b))
                   (\<lambda>rooms. Inr \<lparr>pb_reservations = pb_reservations b @ [e], pb_rooms = rooms\<rparr>)))"

text \<open>Dropping the pointers to the atoms of an object; \<open>operator[]\<close> adds a missing room.\<close>

definition erase_atom :: "atom_ptr \<times> 'p reservation_atom \<Rightarrow> (int, atom_ptr list) omap \<Rightarrow> (int, atom_ptr list) omap" where
  "erase_atom qa rooms =
     omap_put (atom_room (snd qa)) (remove1 (fst qa) (omap_get [] rooms (atom_room (snd qa)))) rooms"

definition erase_atoms :: "addr \<times> 'p reservation \<Rightarrow> (int, atom_ptr list) omap \<Rightarrow> (int, atom_ptr list) omap" where
  "erase_atoms e rooms = fold erase_atom (zip (atom_ptrs e) (res_atoms (snd e))) rooms"

definition removeReservationPtr ::
    "(addr \<times> 'p reservation) option \<Rightarrow> 'p planning_board \<Rightarrow> 'p planning_board res" where
  "removeReservationPtr reservation b =
     (case reservation of
        None \<Rightarrow> Inl (InvalidArgument ''cannot remove nullptr reservation from planning board'')
      | Some e \<Rightarrow>
          Inr \<lparr>pb_reservations = (case find_index (\<lambda>x. fst x = fst e) (pb_reservations b) of
                   None \<Rightarrow> pb_reservations b
                 | Some i \<Rightarrow> take i (pb_reservations b) @ drop (Suc i) (pb_reservations b)),
               pb_rooms = erase_atoms e (pb_rooms b)\<rparr>)"

definition removeReservationId :: "int \<Rightarrow> 'p planning_board \<Rightarrow> 'p planning_board" where
  "removeReservationId reservationId b =
     (case find_index (\<lambda>x. obj_id (snd x) = reservationId) (pb_reservations b) of
        None \<Rightarrow> b
      | Some i \<Rightarrow>
          \<lparr>pb_reservations = take i (pb_reservations b) @ drop (Suc i) (pb_reservations b),
           pb_rooms = erase_atoms (pb_reservations b ! i) (pb_rooms b)\<rparr>)"

definition clear_board :: "'p planning_board \<Rightarrow> 'p planning_board" where
  "clear_board b = \<lparr>pb_reservations = [], pb_rooms = []\<rparr>"

definition reservations :: "'p planning_board \<Rightarrow> addr list" where
  "reservations b = map fst (pb_reservations b)"

definition getReservationsInPeriod ::
    "('d::linorder, 'p) gregorian \<Rightarrow> 'p \<Rightarrow> 'p planning_board \<Rightarrow> addr list" where
  "getReservationsInPeriod G period b =
     map fst (filter (\<lambda>e. p_intersects G (dateRange G (snd e)) period) (pb_reservations b))"

definition getReservationById :: "int \<Rightarrow> 'p planning_board \<Rightarrow> addr option" where
  "getReservationById i b =
     map_option (\<lambda>k. fst (pb_reservations b ! k)) (find_index (\<lambda>x. obj_id (snd x) = i) (pb_reservations b))"

definition int_max :: int where
  "int_max = 2147483647"

text \<open>The pointers of the room are followed by the comparisons of \<open>std::upper_bound\<close>.\<close>

definition getAvailableDaysFrom ::
    "('d::linorder, 'p) gregorian \<Rightarrow> 'p planning_board \<Rightarrow> int \<Rightarrow> 'd \<Rightarrow> int res" where
  "getAvailableDaysFrom G b roomId date =
     (case omap_find (pb_rooms b) roomId of
        None \<Rightarrow> Inr int_max
      | Some ptrs \<Rightarrow>
          bindr (map_res (deref (pb_reservations b)) ptrs) (\<lambda>atoms.
            let i = upper_bound (\<lambda>a. date < p_end G (atom_range a)) atoms
            in if i = length atoms then Inr int_max
               else Inr (max 0 (days_between G (p_begin G (atom_range (atoms ! i))) date))))"

text \<open>\<open>today\<close> is the value of \<open>day_clock::local_day()\<close>.\<close>

definition extent_row ::
    "('d::linorder, 'p) gregorian \<Rightarrow> 'p objects \<Rightarrow> int \<times> atom_ptr list \<Rightarrow> 'd \<times> 'd \<Rightarrow> ('d \<times> 'd) res" where
  "extent_row G H row ft =
     (if snd row = [] then Inr ft
      else bindr (deref H (hd (snd row))) (\<lambda>front.
           bindr (deref H (last (snd row))) (\<lambda>back.
             Inr (min (fst ft) (p_begin G (atom_range front)), max (snd ft) (p_end G (atom_range back))))))"

definition getPlanningExtent :: "('d::linorder, 'p) gregorian \<Rightarrow> 'd \<Rightarrow> 'p planning_board \<Rightarrow> 'p res" where
  "getPlanningExtent G today b =
     (if pb_reservations b = [] then Inr (mk_period G today today)
      else bindr (fold_res (extent_row G (pb_reservations b)) (pb_rooms b) (pos_infin G, neg_infin G)) (\<lambda>ft.
             assert_that (\<not> is_special G (fst ft) \<and> \<not> is_special G (snd ft) \<and> fst ft < snd ft)
               (Inr (mk_period G (fst ft) (snd ft)))))"

text \<open>An address no live reservation of the board has, for the objects \<open>make_unique\<close> allocates.\<close>

definition new_addr :: "'p planning_board \<Rightarrow> addr" where
  "new_addr b = Suc (fold max (map fst (pb_reservations b)) 0)"

definition assign_board ::
    "('d::linorder, 'p) gregorian \<Rightarrow> bool \<Rightarrow> 'p planning_board \<Rightarrow> 'p planning_board \<Rightarrow> 'p planning_board res" where
  "assign_board G same this that =
     assert_that (\<not> same)
       (fold_res (\<lambda>e b. addReservation G (Some (new_addr b, snd e)) b) (pb_reservations that) (clear_board this))"

text \<open>The moving assignment returns the target and what is left of the source.\<close>

definition move_board ::
    "bool \<Rightarrow> 'p planning_board \<Rightarrow> 'p planning_board \<Rightarrow> ('p planning_board \<times> 'p planning_board) res" where
  "move_board same this that =
     assert_that (\<not> same)
       (Inr ((clear_board this)\<lparr>pb_rooms := pb_rooms that, pb_reservations := pb_reservations that\<rparr>,
             clear_board that))"

section \<open>Invariant\<close>

text \<open>
  \<open>rooms_ok G H S rooms\<close>: the vectors hold exactly the pointers of \<open>S\<close>, each under its atom's room,
  all alive in \<open>H\<close>, and in every room each atom ends before the next one begins.
\<close>

definition before :: "('d::linorder, 'p) gregorian \<Rightarrow> 'p objects \<Rightarrow> atom_ptr \<Rightarrow> atom_ptr \<Rightarrow> bool" where
  "before G H q s \<longleftrightarrow>
     p_end G (atom_range (the (lookup_atom H q))) \<le> p_begin G (atom_range (the (lookup_atom H s)))"

definition live_ptr :: "('d::linorder, 'p) gregorian \<Rightarrow> 'p objects \<Rightarrow> atom_ptr \<Rightarrow> bool" where
  "live_ptr G H q \<longleftrightarrow> lookup_atom H q \<noteq> None \<and> period_ok G (atom_range (the (lookup_atom H q)))"

definition rooms_ok ::
    "('d::linorder, 'p) gregorian \<Rightarrow> 'p objects \<Rightarrow> atom_ptr set \<Rightarrow> (int, atom_ptr list) omap \<Rightarrow> bool" where
  "rooms_ok G H S rooms \<longleftrightarrow> omap_ok rooms \<and> (\<forall>q \<in> S. live_ptr G H q)
     \<and> (\<forall>room. set (omap_get [] rooms room) = {q \<in> S. atom_room (the (lookup_atom H q)) = room})
     \<and> (\<forall>room. sorted_wrt (before G H) (omap_get [] rooms room))"

definition board_ok :: "('d::linorder, 'p) gregorian \<Rightarrow> 'p planning_board \<Rightarrow> bool" where
  "board_ok G b \<longleftrightarrow> distinct (map fst (pb_reservations b))
     \<and> (\<forall>r \<in> set (map snd (pb_reservations b)). reservation_ok G r)
     \<and> rooms_ok G (pb_reservations b) (dom (lookup_atom (pb_reservations b))) (pb_rooms b)"

text \<open>The calendar a board stands for: its occupied room nights.\<close>

definition board_nights :: "('d::linorder, 'p) gregorian \<Rightarrow> 'p planning_board \<Rightarrow> (int \<times> 'd) set" where
  "board_nights G b = (\<Union>e \<in> set (pb_reservations b). nights G (snd e))"

lemma board_ok_empty [simp]: "board_ok G empty_board"
  by (simp add: board_ok_def empty_board_def rooms_ok_def dom_def lookup_atom_def)

lemma clear_board_empty: "clear_board b = empty_board"
  by (simp add: clear_board_def empty_board_def)

section \<open>Pointers\<close>

lemma deref_live: "live_ptr G H q \<Longrightarrow> deref H q = Inr (the (lookup_atom H q))"
  by (auto simp: live_ptr_def deref_def)

lemma map_deref_live:
  "\<forall>q \<in> set ptrs. live_ptr G H q \<Longrightarrow> map_res (deref H) ptrs = Inr (map (\<lambda>q. the (lookup_atom H q)) ptrs)"
  by (rule map_res_Inr) (use deref_live in blast)

lemma none_of_res_live:
  "\<forall>x \<in> set xs. f x = Inr (g x) \<Longrightarrow> none_of_res f xs = Inr (\<forall>x \<in> set xs. \<not> g x)"
  by (induction xs) auto

lemma all_of_res_live:
  "\<forall>x \<in> set xs. f x = Inr (g x) \<Longrightarrow> all_of_res f xs = Inr (\<forall>x \<in> set xs. g x)"
  by (induction xs) auto

lemma rooms_ok_live: "rooms_ok G H S rooms \<Longrightarrow> q \<in> set (omap_get [] rooms room) \<Longrightarrow>
    q \<in> S \<and> live_ptr G H q \<and> atom_room (the (lookup_atom H q)) = room"
  by (auto simp: rooms_ok_def)

lemma rooms_ok_distinct:
  assumes "rooms_ok G H S rooms"
  shows "distinct (omap_get [] rooms room)"
proof -
  have "sorted_wrt (before G H) (omap_get [] rooms room)" using assms by (simp add: rooms_ok_def)
  moreover have "\<not> before G H q q" if "q \<in> set (omap_get [] rooms room)" for q
    using rooms_ok_live [OF assms that] by (auto simp: before_def live_ptr_def period_ok_def)
  ultimately show ?thesis by (intro sorted_wrt_distinct) auto
qed

lemma rooms_ok_cong:
  assumes "rooms_ok G H S rooms" and "\<forall>q \<in> S. lookup_atom K q = lookup_atom H q"
  shows "rooms_ok G K S rooms"
proof -
  have "sorted_wrt (before G K) (omap_get [] rooms room)" for room
  proof (rule sorted_wrt_mono_rel)
    show "sorted_wrt (before G H) (omap_get [] rooms room)" using assms(1) by (simp add: rooms_ok_def)
    show "before G K x y" if "x \<in> set (omap_get [] rooms room)" "y \<in> set (omap_get [] rooms room)" "before G H x y" for x y
      using that rooms_ok_live [OF assms(1)] assms(2) by (auto simp: before_def)
  qed
  then show ?thesis using assms by (auto simp: rooms_ok_def live_ptr_def)
qed

lemma lookup_addr: "lookup_atom H q = Some a \<Longrightarrow> fst q \<in> fst ` set H"
  by (auto simp: lookup_atom_def split: option.splits) (metis map_of_eq_None_iff option.distinct(1))

lemma lookup_other: "fst q \<noteq> fst e \<Longrightarrow> lookup_atom (e # H) q = lookup_atom H q"
  by (cases e) (auto simp: lookup_atom_def)

lemma lookup_new: "lookup_atom (e # H) (fst e, i)
    = (if i < length (res_atoms (snd e)) then Some (res_atoms (snd e) ! i) else None)"
  by (cases e) (auto simp: lookup_atom_def)

section \<open>Inserting atoms\<close>

lemma sort_zip:
  "map fst (sort_key (\<lambda>e. k (snd e)) (zip xs (map f xs))) = sort_key (\<lambda>x. k (f x)) xs"
proof -
  have "zip xs (map f xs) = map (\<lambda>x. (x, f x)) xs" by (simp add: zip_map2 zip_same_conv_map)
  moreover have "sort_key (\<lambda>e. k (snd e)) (map (\<lambda>x. (x, f x)) xs) = map (\<lambda>x. (x, f x)) (sort_key (\<lambda>x. k (f x)) xs)"
  proof -
    have ins: "insort_key (\<lambda>e. k (snd e)) (y, f y) (map (\<lambda>x. (x, f x)) ys)
        = map (\<lambda>x. (x, f x)) (insort_key (\<lambda>x. k (f x)) y ys)" for y ys
      by (induction ys) auto
    show ?thesis by (induction xs) (simp_all add: ins sort_key_def)
  qed
  ultimately show ?thesis by (simp add: comp_def)
qed

text \<open>Sorting pairwise disjoint atoms by their begin puts each before the next.\<close>

lemma sorted_before:
  assumes "\<forall>q \<in> set ptrs. live_ptr G H q" and "distinct ptrs"
    and "\<And>q s. q \<in> set ptrs \<Longrightarrow> s \<in> set ptrs \<Longrightarrow> q \<noteq> s \<Longrightarrow> before G H q s \<or> before G H s q"
  shows "sorted_wrt (before G H) (sort_key (\<lambda>q. p_begin G (atom_range (the (lookup_atom H q)))) ptrs)"
proof -
  let ?k = "\<lambda>q. p_begin G (atom_range (the (lookup_atom H q)))"
  let ?ys = "sort_key ?k ptrs"
  have "before G H (?ys ! i) (?ys ! j)" if "i < j" "j < length ?ys" for i j
  proof -
    have mem: "?ys ! i \<in> set ptrs" "?ys ! j \<in> set ptrs"
      using that nth_mem [of i ?ys] nth_mem [of j ?ys] by simp_all
    have "?ys ! i \<noteq> ?ys ! j" using that assms(2) nth_eq_iff_index_eq [of ?ys i j] by simp
    moreover have "?k (?ys ! i) \<le> ?k (?ys ! j)"
      using sorted_nth_mono [of "map ?k ?ys" i j] that sorted_sort_key [of ?k ptrs] by simp
    moreover have "\<not> before G H (?ys ! j) (?ys ! i)" if "?k (?ys ! i) \<le> ?k (?ys ! j)"
      using that assms(1) mem(2) by (auto simp: before_def live_ptr_def period_ok_def)
    ultimately show ?thesis using assms(3) mem by blast
  qed
  then show ?thesis by (simp add: sorted_wrt_iff_nth_less)
qed

lemma insertAtom_ok:
  assumes "rooms_ok G H S rooms" and "q \<notin> S" and "live_ptr G H q"
    and "\<And>s. s \<in> S \<Longrightarrow> atom_room (the (lookup_atom H s)) = atom_room (the (lookup_atom H q)) \<Longrightarrow>
           before G H s q \<or> before G H q s"
  shows "\<exists>rooms'. insertAtom G H q rooms = Inr rooms' \<and> rooms_ok G H (insert q S) rooms'"
proof -
  let ?r = "atom_room (the (lookup_atom H q))" and ?k = "\<lambda>q. p_begin G (atom_range (the (lookup_atom H q)))"
  let ?old = "omap_get [] rooms ?r"
  let ?new = "sort_key ?k (?old @ [q])"
  have set_old: "set ?old = {s \<in> S. atom_room (the (lookup_atom H s)) = ?r}"
    and sorted_old: "sorted_wrt (before G H) ?old"
    and ok: "omap_ok rooms" and live: "\<forall>s \<in> S. live_ptr G H s"
    using assms(1) by (simp_all add: rooms_ok_def)
  have live': "\<forall>s \<in> set (?old @ [q]). live_ptr G H s" using live set_old assms(3) by auto
  have "insertAtom G H q rooms = Inr (omap_put ?r ?new rooms)"
    by (simp only: insertAtom_def deref_live [OF assms(3)] map_deref_live [OF live'] bindr_Inr Let_def
        sort_zip [of "\<lambda>a. p_begin G (atom_range a)" _ "\<lambda>q. the (lookup_atom H q)"])
  moreover have "sorted_wrt (before G H) ?new"
  proof (rule sorted_before [OF live'])
    show "distinct (?old @ [q])" using rooms_ok_distinct [OF assms(1)] set_old assms(2) by auto
    show "before G H s t \<or> before G H t s"
      if "s \<in> set (?old @ [q])" "t \<in> set (?old @ [q])" "s \<noteq> t" for s t
      using that assms(4) [of s] assms(4) [of t] sorted_wrt_pair [OF sorted_old, of s t] set_old by auto
  qed
  then have "rooms_ok G H (insert q S) (omap_put ?r ?new rooms)"
    using assms(1,3) ok set_old by (auto simp: rooms_ok_def)
  ultimately show ?thesis by blast
qed

lemma insertAtoms_ok:
  assumes "rooms_ok G H S rooms" and "distinct qs" and "set qs \<inter> S = {}"
    and "\<forall>q \<in> set qs. live_ptr G H q"
    and "\<And>s q. s \<in> S \<union> set qs \<Longrightarrow> q \<in> set qs \<Longrightarrow> s \<noteq> q \<Longrightarrow>
           atom_room (the (lookup_atom H s)) = atom_room (the (lookup_atom H q)) \<Longrightarrow>
           before G H s q \<or> before G H q s"
  shows "\<exists>rooms'. fold_res (insertAtom G H) qs rooms = Inr rooms' \<and> rooms_ok G H (S \<union> set qs) rooms'"
  using assms
proof (induction qs arbitrary: S rooms)
  case (Cons q qs)
  have "\<exists>rooms'. insertAtom G H q rooms = Inr rooms' \<and> rooms_ok G H (insert q S) rooms'"
  proof (rule insertAtom_ok [OF Cons.prems(1)])
    show "q \<notin> S" "live_ptr G H q" using Cons.prems(3,4) by auto
    show "before G H s q \<or> before G H q s"
      if "s \<in> S" "atom_room (the (lookup_atom H s)) = atom_room (the (lookup_atom H q))" for s
      using Cons.prems(5) [of s q] Cons.prems(3) that by auto
  qed
  then obtain rooms1 where 1: "insertAtom G H q rooms = Inr rooms1" "rooms_ok G H (insert q S) rooms1"
    by blast
  have "\<exists>rooms'. fold_res (insertAtom G H) qs rooms1 = Inr rooms' \<and> rooms_ok G H (insert q S \<union> set qs) rooms'"
    using Cons.prems(2,3,4) Cons.prems(5) by (intro Cons.IH [OF 1(2)]) auto
  then show ?case using 1(1) by simp
qed simp

section \<open>Room nights of a board\<close>

lemma lookup_atom_map_of:
  "lookup_atom H q = Some a \<longleftrightarrow>
     (\<exists>r. map_of H (fst q) = Some r \<and> snd q < length (res_atoms r) \<and> a = res_atoms r ! snd q)"
  by (auto simp: lookup_atom_def split: option.splits if_splits)

lemma board_nights_iff:
  assumes "distinct (map fst (pb_reservations b))"
  shows "(room, d) \<in> board_nights G b \<longleftrightarrow> (\<exists>q a. lookup_atom (pb_reservations b) q = Some a
           \<and> atom_room a = room \<and> d \<in> period_days G (atom_range a))"
proof
  assume "(room, d) \<in> board_nights G b"
  then obtain e a where a: "e \<in> set (pb_reservations b)" "a \<in> set (res_atoms (snd e))"
      "atom_room a = room" "d \<in> period_days G (atom_range a)"
    unfolding board_nights_def atoms_nights_def by blast
  then obtain i where e: "e \<in> set (pb_reservations b)" "i < length (res_atoms (snd e))"
      "atom_room (res_atoms (snd e) ! i) = room" "d \<in> period_days G (atom_range (res_atoms (snd e) ! i))"
    by (metis in_set_conv_nth)
  have "map_of (pb_reservations b) (fst e) = Some (snd e)"
    using e(1) assms by (simp add: map_of_eq_Some_iff)
  then have "lookup_atom (pb_reservations b) (fst e, i) = Some (res_atoms (snd e) ! i)"
    using e(2) by (simp add: lookup_atom_map_of)
  then show "\<exists>q a. lookup_atom (pb_reservations b) q = Some a \<and> atom_room a = room
      \<and> d \<in> period_days G (atom_range a)" using e by blast
next
  assume "\<exists>q a. lookup_atom (pb_reservations b) q = Some a \<and> atom_room a = room
      \<and> d \<in> period_days G (atom_range a)"
  then obtain q r where "map_of (pb_reservations b) (fst q) = Some r" "snd q < length (res_atoms r)"
      "atom_room (res_atoms r ! snd q) = room" "d \<in> period_days G (atom_range (res_atoms r ! snd q))"
    by (auto simp: lookup_atom_map_of)
  then show "(room, d) \<in> board_nights G b"
    by (force simp: board_nights_def atoms_nights_def dest!: map_of_SomeD)
qed

text \<open>What a well-formed board holds for a room.\<close>

lemma board_room_ptrs:
  assumes "board_ok G b"
  shows "set (omap_get [] (pb_rooms b) room)
    = {q. \<exists>a. lookup_atom (pb_reservations b) q = Some a \<and> atom_room a = room}"
  using assms by (force simp: board_ok_def rooms_ok_def)

lemma board_room_live:
  "board_ok G b \<Longrightarrow> q \<in> set (omap_get [] (pb_rooms b) room) \<Longrightarrow> live_ptr G (pb_reservations b) q"
  using rooms_ok_live by (fastforce simp: board_ok_def)

lemma board_room_nights:
  assumes "board_ok G b"
  shows "(room, d) \<in> board_nights G b \<longleftrightarrow>
    (\<exists>q \<in> set (omap_get [] (pb_rooms b) room).
       d \<in> period_days G (atom_range (the (lookup_atom (pb_reservations b) q))))"
proof -
  have "distinct (map fst (pb_reservations b))" using assms by (simp add: board_ok_def)
  then show ?thesis
    unfolding board_nights_iff [OF \<open>distinct _\<close>] board_room_ptrs [OF assms] mem_Collect_eq bex_simps
    by (metis (mono_tags, lifting) mem_Collect_eq option.sel)
qed

lemma isFree_get:
  "isFree G b room p = none_of_res (\<lambda>q. bindr (deref (pb_reservations b) q)
     (\<lambda>a. Inr (p_intersects G (atom_range a) p))) (omap_get [] (pb_rooms b) room)"
  by (simp add: isFree_def omap_get_def split: option.split)

lemma isFree_ok:
  assumes "gregorian_ok G" and "board_ok G b" and "period_ok G p"
  shows "isFree G b room p = Inr (board_nights G b \<inter> {room} \<times> period_days G p = {})"
proof -
  let ?at = "\<lambda>q. the (lookup_atom (pb_reservations b) q)"
  have "isFree G b room p = Inr (\<forall>q \<in> set (omap_get [] (pb_rooms b) room). \<not> p_intersects G (atom_range (?at q)) p)"
    unfolding isFree_get
    by (intro none_of_res_live ballI) (simp add: deref_live [OF board_room_live [OF assms(2)]])
  moreover have "p_intersects G (atom_range (?at q)) p \<longleftrightarrow>
      period_days G (atom_range (?at q)) \<inter> period_days G p \<noteq> {}"
    if "q \<in> set (omap_get [] (pb_rooms b) room)" for q
    using that assms board_room_live [OF assms(2) that]
    by (intro intersects_iff_common_day) (auto simp: live_ptr_def)
  ultimately show ?thesis using board_room_nights [OF assms(2)] by (simp, blast)
qed

lemma canAddReservation_ok:
  assumes "gregorian_ok G" and "board_ok G b" and "atoms_regular G r"
  shows "canAddReservation G b r = Inr (reservation_ok G r \<and> board_nights G b \<inter> nights G r = {})"
proof (cases "reservation_ok G r")
  case True
  then have p: "period_ok G (atom_range a)" if "a \<in> set (res_atoms r)" for a
    using that chain_period_ok by (auto simp: reservation_ok_def)
  have "all_of_res (\<lambda>a. isFree G b (atom_room a) (atom_range a)) (res_atoms r)
      = Inr (\<forall>a \<in> set (res_atoms r). board_nights G b \<inter> {atom_room a} \<times> period_days G (atom_range a) = {})"
    using isFree_ok [OF assms(1,2)] p by (intro all_of_res_live) simp
  moreover have "(\<forall>a \<in> set (res_atoms r). board_nights G b \<inter> {atom_room a} \<times> period_days G (atom_range a) = {})
      \<longleftrightarrow> board_nights G b \<inter> nights G r = {}"
    by (auto simp: atoms_nights_def)
  ultimately show ?thesis using True assms(1) by (simp add: canAddReservation_def)
next
  case False
  then show ?thesis using assms by (simp add: canAddReservation_def isValid_iff)
qed

section \<open>Adding a reservation\<close>

lemma chain_sorted: "chain G xs \<Longrightarrow> sorted_wrt (\<lambda>a b. p_end G (atom_range a) \<le> p_begin G (atom_range b)) xs"
proof (induction G xs rule: chain.induct)
  case (3 G a b xs)
  have "p_end G (atom_range a) \<le> p_begin G (atom_range c)" if "c \<in> set (b # xs)" for c
    using chain_first_last [of G "b # xs" c] "3.prems" that by simp
  then show ?case using 3 by simp
qed auto

lemma disjoint_periods:
  "gregorian_ok G \<Longrightarrow> period_ok G p \<Longrightarrow> period_ok G q \<Longrightarrow> period_days G p \<inter> period_days G q = {} \<Longrightarrow>
     p_end G p \<le> p_begin G q \<or> p_end G q \<le> p_begin G p"
  using intersects_iff_common_day [of G p q] g_intersects [of G p q] by fastforce

lemma set_atom_ptrs: "set (atom_ptrs e) = {q. fst q = fst e \<and> snd q < length (res_atoms (snd e))}"
  by (auto simp: atom_ptrs_def)

lemma dom_lookup_Cons:
  "fst e \<notin> fst ` set H \<Longrightarrow> dom (lookup_atom (e # H)) = dom (lookup_atom H) \<union> set (atom_ptrs e)"
  by (cases e) (auto simp: lookup_atom_map_of set_atom_ptrs map_of_eq_None_iff dom_def dest: map_of_SomeD
      split: if_splits intro: rev_image_eqI)

lemma lookup_append_new:
  "fst e \<notin> fst ` set H \<Longrightarrow> lookup_atom (H @ [e]) = lookup_atom (e # H)"
proof
  fix q :: atom_ptr assume "fst e \<notin> fst ` set H"
  then have "map_of H (fst e) = None" by (simp add: map_of_eq_None_iff)
  then have "map_of (H @ [e]) (fst q) = map_of (e # H) (fst q)"
    by (cases e; cases "fst q = fst e") (auto simp: map_add_def split: option.split)
  then show "lookup_atom (H @ [e]) q = lookup_atom (e # H) q" by (simp add: lookup_atom_def)
qed

lemma addReservation_ok:
  assumes G: "gregorian_ok G" and b: "board_ok G b" and e: "fst e \<notin> fst ` set (pb_reservations b)"
    and r: "reservation_ok G (snd e)" and free: "board_nights G b \<inter> nights G (snd e) = {}"
  shows "\<exists>b'. addReservation G (Some e) b = Inr b' \<and> board_ok G b'
     \<and> pb_reservations b' = pb_reservations b @ [e]"
proof -
  let ?R = "pb_reservations b" and ?H = "e # pb_reservations b"
  let ?at = "\<lambda>q. the (lookup_atom ?H q)"
  have dist: "distinct (map fst ?R)" and rooms: "rooms_ok G ?R (dom (lookup_atom ?R)) (pb_rooms b)"
    using b by (simp_all add: board_ok_def)
  have old: "lookup_atom ?H q = lookup_atom ?R q" if "q \<in> dom (lookup_atom ?R)" for q
    using that e lookup_addr [of ?R q] by (intro lookup_other) auto
  have new: "lookup_atom ?H q = Some (res_atoms (snd e) ! snd q)" if "q \<in> set (atom_ptrs e)" for q
  proof -
    have "q = (fst e, snd q)" "snd q < length (res_atoms (snd e))"
      using that by (simp_all add: set_atom_ptrs prod_eq_iff)
    then show ?thesis using lookup_new [of e ?R "snd q"] by simp
  qed
  have ch: "chain G (res_atoms (snd e))" using r by (simp add: reservation_ok_def)
  have atom_in: "?at q \<in> set (res_atoms (snd e))" if "q \<in> set (atom_ptrs e)" for q
    using that new [OF that] by (simp add: set_atom_ptrs)
  have live: "live_ptr G ?H q" if "q \<in> set (atom_ptrs e)" for q
    using new [OF that] atom_in [OF that] chain_period_ok [OF ch] by (simp add: live_ptr_def)
  have disj: "before G ?H s q \<or> before G ?H q s"
    if "s \<in> dom (lookup_atom ?R) \<union> set (atom_ptrs e)" "q \<in> set (atom_ptrs e)" "s \<noteq> q"
      "atom_room (?at s) = atom_room (?at q)" for s q
  proof (cases "s \<in> set (atom_ptrs e)")
    case True
    then have "snd s \<noteq> snd q" "snd s < length (res_atoms (snd e))" "snd q < length (res_atoms (snd e))"
      using that(2,3) by (auto simp: set_atom_ptrs prod_eq_iff)
    then show ?thesis
      using sorted_wrt_nth_less [OF chain_sorted [OF ch], of "snd s" "snd q"]
        sorted_wrt_nth_less [OF chain_sorted [OF ch], of "snd q" "snd s"]
      by (simp add: before_def new [OF True] new [OF that(2)]) linarith
  next
    case False
    then have s: "s \<in> dom (lookup_atom ?R)" using that(1) by blast
    have sl: "live_ptr G ?R s" using rooms s by (simp add: rooms_ok_def)
    have "{atom_room (?at s)} \<times> period_days G (atom_range (?at s)) \<subseteq> board_nights G b"
      using s old [OF s] board_nights_iff [OF dist, of "atom_room (?at s)" _ G] by fastforce
    moreover have "{atom_room (?at q)} \<times> period_days G (atom_range (?at q)) \<subseteq> nights G (snd e)"
      using atom_in [OF that(2)] by (auto simp: atoms_nights_def)
    ultimately have "period_days G (atom_range (?at s)) \<inter> period_days G (atom_range (?at q)) = {}"
      using free that(4) by fastforce
    then show ?thesis
      using disjoint_periods [OF G] sl live [OF that(2)] old [OF s] by (simp add: before_def live_ptr_def)
  qed
  obtain rooms' where fold: "fold_res (insertAtom G ?H) (atom_ptrs e) (pb_rooms b) = Inr rooms'"
      "rooms_ok G ?H (dom (lookup_atom ?R) \<union> set (atom_ptrs e)) rooms'"
  proof -
    have "rooms_ok G ?H (dom (lookup_atom ?R)) (pb_rooms b)" using rooms_ok_cong [OF rooms] old by simp
    moreover have "distinct (atom_ptrs e)" by (simp add: atom_ptrs_def distinct_map inj_on_def)
    moreover have "set (atom_ptrs e) \<inter> dom (lookup_atom ?R) = {}"
      using e lookup_addr [of ?R] by (fastforce simp: set_atom_ptrs)
    ultimately show ?thesis
      using insertAtoms_ok [of G ?H "dom (lookup_atom ?R)" "pb_rooms b" "atom_ptrs e"] live disj that by blast
  qed
  have "canAddReservation G b (snd e) = Inr True"
    using canAddReservation_ok [OF G b reservation_ok_regular [OF r]] r free by simp
  then have add: "addReservation G (Some e) b = Inr \<lparr>pb_reservations = ?R @ [e], pb_rooms = rooms'\<rparr>"
    using fold(1) by (simp add: addReservation_def)
  have "rooms_ok G (?R @ [e]) (dom (lookup_atom (?R @ [e]))) rooms'"
    using rooms_ok_cong [OF fold(2), of "?R @ [e]"] by (simp add: lookup_append_new [OF e] dom_lookup_Cons [OF e])
  then have "board_ok G \<lparr>pb_reservations = ?R @ [e], pb_rooms = rooms'\<rparr>"
    using b e r by (auto simp: board_ok_def)
  then show ?thesis using add by simp
qed

section \<open>Removing a reservation\<close>

lemma erase_atom_ok:
  assumes "rooms_ok G H S rooms" and "q \<in> S \<Longrightarrow> lookup_atom H q = Some a"
  shows "rooms_ok G H (S - {q}) (erase_atom (q, a) rooms)"
proof -
  have ok: "omap_ok rooms" using assms(1) by (simp add: rooms_ok_def)
  have get: "omap_get [] (erase_atom (q, a) rooms) room
      = (if room = atom_room a then remove1 q (omap_get [] rooms room) else omap_get [] rooms room)" for room
    using ok by (simp add: erase_atom_def)
  have "set (omap_get [] (erase_atom (q, a) rooms) room)
      = {s \<in> S - {q}. atom_room (the (lookup_atom H s)) = room}" for room
    using assms rooms_ok_distinct [OF assms(1), of room] by (auto simp: get rooms_ok_def)
  moreover have "sorted_wrt (before G H) (omap_get [] (erase_atom (q, a) rooms) room)" for room
    using assms(1) rooms_ok_distinct [OF assms(1), of "atom_room a"]
    by (simp add: get rooms_ok_def distinct_remove1_removeAll removeAll_filter_not_eq sorted_wrt_filter)
  ultimately show ?thesis using assms(1) ok by (simp add: rooms_ok_def erase_atom_def)
qed

lemma fold_erase_ok:
  assumes "rooms_ok G H S rooms" and "\<forall>(q, a) \<in> set qas. q \<in> S \<longrightarrow> lookup_atom H q = Some a"
  shows "rooms_ok G H (S - fst ` set qas) (fold erase_atom qas rooms)"
  using assms
proof (induction qas arbitrary: S rooms)
  case (Cons qa qas)
  obtain q a where qa: "qa = (q, a)" by (cases qa)
  have "rooms_ok G H (S - {q}) (erase_atom qa rooms)"
    using Cons.prems qa erase_atom_ok [of G H S rooms q a] by auto
  then have "rooms_ok G H (S - {q} - fst ` set qas) (fold erase_atom qas (erase_atom qa rooms))"
    using Cons.prems(2) by (intro Cons.IH) (auto split: prod.splits)
  moreover have "S - fst ` set (qa # qas) = S - {q} - fst ` set qas" by (auto simp: qa)
  ultimately show ?case by simp
qed simp

lemma erase_atoms_ok:
  assumes "rooms_ok G H S rooms" and "map_of H (fst e) = Some (snd e) \<or> fst e \<notin> fst ` S"
  shows "rooms_ok G H (S - set (atom_ptrs e)) (erase_atoms e rooms)"
proof -
  have len: "length (atom_ptrs e) = length (res_atoms (snd e))" by (simp add: atom_ptrs_def)
  have "lookup_atom H q = Some a"
    if qa: "(q, a) \<in> set (zip (atom_ptrs e) (res_atoms (snd e)))" and qS: "q \<in> S" for q a
  proof -
    obtain i where i: "i < length (res_atoms (snd e))" "atom_ptrs e ! i = q" "res_atoms (snd e) ! i = a"
      using qa len unfolding in_set_zip by auto
    then have q: "q = (fst e, i)" by (auto simp: atom_ptrs_def)
    then have "map_of H (fst e) = Some (snd e)" using assms(2) qS by force
    then show ?thesis using i q by (simp add: lookup_atom_map_of)
  qed
  then have "rooms_ok G H (S - fst ` set (zip (atom_ptrs e) (res_atoms (snd e)))) (erase_atoms e rooms)"
    unfolding erase_atoms_def by (intro fold_erase_ok assms(1)) blast
  moreover have "fst ` set (zip (atom_ptrs e) (res_atoms (snd e))) = set (atom_ptrs e)"
    by (metis len list.set_map map_fst_zip)
  ultimately show ?thesis by simp
qed

lemma map_of_removed:
  "distinct (map fst R) \<Longrightarrow> i < length R \<Longrightarrow>
     map_of (take i R @ drop (Suc i) R) = (map_of R)(fst (R ! i) := None)"
proof (induction R arbitrary: i)
  case (Cons e R)
  show ?case
  proof (cases i)
    case 0
    have "map_of R (fst e) = None" using Cons.prems(1) by (simp add: map_of_eq_None_iff)
    then show ?thesis by (cases e) (simp add: 0 fun_eq_iff)
  next
    case (Suc k)
    have "fst e \<noteq> fst (R ! k)" using Cons.prems Suc by auto
    moreover have "map_of (take k R @ drop (Suc k) R) = (map_of R)(fst (R ! k) := None)"
      by (rule Cons.IH) (use Cons.prems Suc in simp_all)
    ultimately show ?thesis using Suc by (cases e) (auto simp: fun_eq_iff simp del: map_of_append)
  qed
qed simp

lemma remove_at_ok:
  assumes b: "board_ok G b" and i: "i < length (pb_reservations b)"
  defines "b' \<equiv> \<lparr>pb_reservations = take i (pb_reservations b) @ drop (Suc i) (pb_reservations b),
            pb_rooms = erase_atoms (pb_reservations b ! i) (pb_rooms b)\<rparr>"
  shows "board_ok G b'"
proof -
  let ?R = "pb_reservations b" and ?e = "pb_reservations b ! i"
  let ?R' = "take i ?R @ drop (Suc i) ?R"
  have dist: "distinct (map fst ?R)" and rooms: "rooms_ok G ?R (dom (lookup_atom ?R)) (pb_rooms b)"
    using b by (simp_all add: board_ok_def)
  have R: "?R = take i ?R @ ?e # drop (Suc i) ?R" using i by (rule id_take_nth_drop)
  have e: "map_of ?R (fst ?e) = Some (snd ?e)" using dist i by (simp add: map_of_eq_Some_iff)
  have lookup: "lookup_atom ?R' q = (if fst q = fst ?e then None else lookup_atom ?R q)" for q
    by (simp add: lookup_atom_def map_of_removed [OF dist i] del: map_of_append)
  have "rooms_ok G ?R (dom (lookup_atom ?R) - set (atom_ptrs ?e)) (erase_atoms ?e (pb_rooms b))"
    using rooms e by (intro erase_atoms_ok) auto
  moreover have S: "dom (lookup_atom ?R) - set (atom_ptrs ?e) = dom (lookup_atom ?R')"
    using e by (auto simp: lookup lookup_atom_map_of set_atom_ptrs dom_def split: if_splits)
  ultimately have "rooms_ok G ?R' (dom (lookup_atom ?R')) (erase_atoms ?e (pb_rooms b))"
    using rooms_ok_cong [of G ?R "dom (lookup_atom ?R')" _ ?R'] by (auto simp: lookup dom_def split: if_splits)
  moreover have "distinct (map fst ?R')"
    using dist by (subst (asm) R) simp
  moreover have "set ?R' \<subseteq> set ?R" by (auto dest: in_set_takeD in_set_dropD)
  ultimately show ?thesis using b by (auto simp: board_ok_def b'_def)
qed

lemma board_ok_reservation: "board_ok G b \<Longrightarrow> e \<in> set (pb_reservations b) \<Longrightarrow> reservation_ok G (snd e)"
  by (auto simp: board_ok_def)

lemma remove_id_ok: "board_ok G b \<Longrightarrow> board_ok G (removeReservationId i b)"
  unfolding removeReservationId_def
  by (simp split: option.split) (auto intro: remove_at_ok dest: find_index_SomeD)

lemma find_addr:
  assumes "distinct (map fst R)" and "e \<in> set R"
  shows "\<exists>i. find_index (\<lambda>x. fst x = fst e) R = Some i \<and> i < length R \<and> R ! i = e"
proof -
  obtain i where "i < length R" "R ! i = e" using assms(2) by (auto simp: in_set_conv_nth)
  then show ?thesis using find_index_key [OF assms(1), of i] by auto
qed

lemma remove_ptr_ok:
  assumes "board_ok G b" and "fst e \<in> fst ` set (pb_reservations b) \<Longrightarrow> e \<in> set (pb_reservations b)"
  shows "\<exists>b'. removeReservationPtr (Some e) b = Inr b' \<and> board_ok G b'"
proof (cases "fst e \<in> fst ` set (pb_reservations b)")
  case True
  then obtain i where "find_index (\<lambda>x. fst x = fst e) (pb_reservations b) = Some i" "i < length (pb_reservations b)"
      "pb_reservations b ! i = e"
    using find_addr [of "pb_reservations b" e] assms by (auto simp: board_ok_def)
  then show ?thesis using remove_at_ok [OF assms(1), of i] by (simp add: removeReservationPtr_def)
next
  case False
  then have "find_index (\<lambda>x. fst x = fst e) (pb_reservations b) = None"
    unfolding find_index_None by (metis imageI)
  moreover have "rooms_ok G (pb_reservations b) (dom (lookup_atom (pb_reservations b))) (erase_atoms e (pb_rooms b))"
  proof -
    have "set (atom_ptrs e) \<inter> dom (lookup_atom (pb_reservations b)) = {}"
      using False lookup_addr [of "pb_reservations b"] by (fastforce simp: set_atom_ptrs)
    then have "dom (lookup_atom (pb_reservations b)) - set (atom_ptrs e) = dom (lookup_atom (pb_reservations b))"
      by blast
    then show ?thesis
      using erase_atoms_ok [of G "pb_reservations b" "dom (lookup_atom (pb_reservations b))" "pb_rooms b" e]
        assms(1) False lookup_addr [of "pb_reservations b"] by (fastforce simp: board_ok_def)
  qed
  ultimately show ?thesis using assms(1) by (auto simp: removeReservationPtr_def board_ok_def)
qed

section \<open>No double booking\<close>

lemma before_disjoint:
  "before G H q s \<Longrightarrow> period_days G (atom_range (the (lookup_atom H q)))
     \<inter> period_days G (atom_range (the (lookup_atom H s))) = {}"
  by (auto simp: before_def period_days_def)

lemma board_nights_disjoint:
  assumes "board_ok G b" and "i < length (pb_reservations b)" and "j < length (pb_reservations b)" and "i \<noteq> j"
  shows "nights G (snd (pb_reservations b ! i)) \<inter> nights G (snd (pb_reservations b ! j)) = {}"
proof -
  let ?R = "pb_reservations b"
  have dist: "distinct (map fst ?R)" and rooms: "rooms_ok G ?R (dom (lookup_atom ?R)) (pb_rooms b)"
    using assms(1) by (simp_all add: board_ok_def)
  have addr: "fst (?R ! i) \<noteq> fst (?R ! j)" using dist assms(2-4) by (metis length_map nth_eq_iff_index_eq nth_map)
  have lookup: "lookup_atom ?R (fst (?R ! k), n) = Some (res_atoms (snd (?R ! k)) ! n)"
    if "k < length ?R" "n < length (res_atoms (snd (?R ! k)))" for k n
  proof -
    have "map_of ?R (fst (?R ! k)) = Some (snd (?R ! k))" using dist that by (simp add: map_of_eq_Some_iff)
    then show ?thesis using that by (simp add: lookup_atom_map_of)
  qed
  have False if ri: "(room, d) \<in> nights G (snd (?R ! i))" and rj: "(room, d) \<in> nights G (snd (?R ! j))" for room d
  proof -
    obtain n m where n: "n < length (res_atoms (snd (?R ! i)))" "atom_room (res_atoms (snd (?R ! i)) ! n) = room"
        "d \<in> period_days G (atom_range (res_atoms (snd (?R ! i)) ! n))"
      and m: "m < length (res_atoms (snd (?R ! j)))" "atom_room (res_atoms (snd (?R ! j)) ! m) = room"
        "d \<in> period_days G (atom_range (res_atoms (snd (?R ! j)) ! m))"
      using ri rj unfolding atoms_nights_iff by (metis in_set_conv_nth)
    let ?q = "(fst (?R ! i), n)" and ?s = "(fst (?R ! j), m)"
    have "?q \<in> set (omap_get [] (pb_rooms b) room)" "?s \<in> set (omap_get [] (pb_rooms b) room)"
      using lookup n m assms(2,3) by (auto simp: board_room_ptrs [OF assms(1)])
    then have "before G ?R ?q ?s \<or> before G ?R ?s ?q"
      using rooms addr by (intro sorted_wrt_pair [of _ "omap_get [] (pb_rooms b) room"]) (auto simp: rooms_ok_def)
    then show False
      using before_disjoint [of G ?R ?q ?s] before_disjoint [of G ?R ?s ?q]
        lookup [OF assms(2) n(1)] lookup [OF assms(3) m(1)] n(3) m(3) by auto
  qed
  then show ?thesis by auto
qed

text \<open>
  The boards a client can reach: it constructs one and calls its operations, each time giving it
  ownership of an object that lives at an address of its own and whose periods have ordinary ends.
\<close>

inductive board_reachable :: "('d::linorder, 'p) gregorian \<Rightarrow> 'p planning_board \<Rightarrow> bool" for G where
  construct: "board_reachable G empty_board"
| add: "board_reachable G b \<Longrightarrow> fst e \<notin> fst ` set (pb_reservations b) \<Longrightarrow> atoms_regular G (snd e) \<Longrightarrow>
    addReservation G (Some e) b = Inr b' \<Longrightarrow> board_reachable G b'"
| remove_ptr: "board_reachable G b \<Longrightarrow>
    (fst e \<in> fst ` set (pb_reservations b) \<Longrightarrow> e \<in> set (pb_reservations b)) \<Longrightarrow>
    removeReservationPtr (Some e) b = Inr b' \<Longrightarrow> board_reachable G b'"
| remove_id: "board_reachable G b \<Longrightarrow> board_reachable G (removeReservationId i b)"
| clear: "board_reachable G b \<Longrightarrow> board_reachable G (clear_board b)"

lemma addReservation_outcome_lemma:
  assumes "gregorian_ok G" and "board_ok G b" and "fst e \<notin> fst ` set (pb_reservations b)"
    and "atoms_regular G (snd e)"
  shows "if reservation_ok G (snd e) \<and> board_nights G b \<inter> nights G (snd e) = {}
    then \<exists>b'. addReservation G (Some e) b = Inr b' \<and> board_ok G b' \<and> pb_reservations b' = pb_reservations b @ [e]
    else addReservation G (Some e) b = Inl (LogicError (''cannot add reservation '' @ res_description (snd e)))"
  using addReservation_ok [OF assms(1,2,3)] canAddReservation_ok [OF assms(1,2,4)]
  by (auto simp: addReservation_def)

lemma board_reachable_ok: "board_reachable G b \<Longrightarrow> gregorian_ok G \<Longrightarrow> board_ok G b"
proof (induction rule: board_reachable.induct)
  case (add b e b')
  then show ?case
    using addReservation_outcome_lemma [of G b e] by (auto split: if_splits)
next
  case (remove_ptr b e b')
  then show ?case using remove_ptr_ok [of G b e] by auto
qed (auto simp: remove_id_ok clear_board_empty)

section \<open>Available days and extent\<close>

lemma board_room_sorted: "board_ok G b \<Longrightarrow> sorted_wrt (before G (pb_reservations b)) (omap_get [] (pb_rooms b) room)"
  by (simp add: board_ok_def rooms_ok_def)

lemma room_atoms_partitioned:
  assumes "board_ok G b"
  shows "partitioned (\<lambda>a. date < p_end G (atom_range a))
    (map (\<lambda>q. the (lookup_atom (pb_reservations b) q)) (omap_get [] (pb_rooms b) room))"
  unfolding partitioned_def
proof (intro allI impI)
  let ?ptrs = "omap_get [] (pb_rooms b) room" and ?at = "\<lambda>q. the (lookup_atom (pb_reservations b) q)"
  fix i j assume ij: "i \<le> j" "j < length (map ?at ?ptrs)" "date < p_end G (atom_range (map ?at ?ptrs ! i))"
  show "date < p_end G (atom_range (map ?at ?ptrs ! j))"
  proof (cases "i = j")
    case False
    then have "before G (pb_reservations b) (?ptrs ! i) (?ptrs ! j)"
      using ij sorted_wrt_nth_less [OF board_room_sorted [OF assms, of room], of i j] by simp
    moreover have "period_ok G (atom_range (?at (?ptrs ! j)))"
      using board_room_live [OF assms, of "?ptrs ! j" room] ij by (simp add: live_ptr_def)
    ultimately show ?thesis using ij by (auto simp: before_def period_ok_def)
  qed (use ij in simp)
qed

lemma getAvailableDaysFrom_get:
  "getAvailableDaysFrom G b room date =
     bindr (map_res (deref (pb_reservations b)) (omap_get [] (pb_rooms b) room)) (\<lambda>atoms.
       let i = upper_bound (\<lambda>a. date < p_end G (atom_range a)) atoms
       in if i = length atoms then Inr int_max
          else Inr (max 0 (days_between G (p_begin G (atom_range (atoms ! i))) date)))"
  by (simp add: getAvailableDaysFrom_def omap_get_def upper_bound_def upper_bound_loop_unfold(1) split: option.split)

lemma getAvailableDaysFrom_ok:
  assumes G: "gregorian_ok G" and b: "board_ok G b" and d: "\<not> is_special G date"
  shows "\<exists>n. getAvailableDaysFrom G b room date = Inr n \<and> 0 \<le> n
    \<and> (\<forall>e. \<not> is_special G e \<longrightarrow> date \<le> e \<longrightarrow> days_between G e date < n \<longrightarrow> (room, e) \<notin> board_nights G b)
    \<and> (n = int_max \<or> (room, add_days G date n) \<in> board_nights G b)"
proof -
  let ?ptrs = "omap_get [] (pb_rooms b) room" and ?at = "\<lambda>q. the (lookup_atom (pb_reservations b) q)"
  let ?atoms = "map ?at ?ptrs"
  let ?i = "upper_bound (\<lambda>a. date < p_end G (atom_range a)) ?atoms"
  note ub = upper_bound_correct [OF room_atoms_partitioned [OF b, of date room]]
  have ok: "period_ok G (atom_range a)" if "a \<in> set ?atoms" for a
    using that board_room_live [OF b] by (auto simp: live_ptr_def)
  have nights: "(room, e) \<in> board_nights G b \<longleftrightarrow> (\<exists>a \<in> set ?atoms. e \<in> period_days G (atom_range a))" for e
    using board_room_nights [OF b] by simp
  have early: "e < date" if "k < ?i" "e \<in> period_days G (atom_range (?atoms ! k))" for k e
    using that ub(2) [of k] by (auto simp: period_days_def)
  have get: "getAvailableDaysFrom G b room date
      = (if ?i = length ?atoms then Inr int_max
         else Inr (max 0 (days_between G (p_begin G (atom_range (?atoms ! ?i))) date)))"
    unfolding getAvailableDaysFrom_get
    by (subst map_deref_live) (use board_room_live [OF b] in \<open>auto simp: Let_def\<close>)
  show ?thesis
  proof (cases "?i = length ?atoms")
    case True
    have "(room, e) \<notin> board_nights G b" if "date \<le> e" for e
      using that early True nights [of e] by (force simp: in_set_conv_nth)
    then show ?thesis using get True by (auto simp: int_max_def)
  next
    case False
    then have i: "?i < length ?atoms" using ub(1) by simp
    let ?a = "?atoms ! ?i"
    let ?n = "days_between G (p_begin G (atom_range ?a)) date"
    have a: "period_ok G (atom_range ?a)" "date < p_end G (atom_range ?a)"
      using ok nth_mem [OF i] ub(3) [of ?i] i by auto
    have na: "\<not> is_special G (p_begin G (atom_range ?a))" using a(1) by (simp add: period_ok_def)
    have late: "p_begin G (atom_range ?a) \<le> e"
      if "k < length ?atoms" "?i \<le> k" "e \<in> period_days G (atom_range (?atoms ! k))" for k e
    proof (cases "k = ?i")
      case False
      then have "before G (pb_reservations b) (?ptrs ! ?i) (?ptrs ! k)"
        using that sorted_wrt_nth_less [OF board_room_sorted [OF b, of room], of ?i k] by simp
      then show ?thesis using that a(1) i by (auto simp: before_def period_days_def period_ok_def)
    qed (use that in \<open>simp add: period_days_def\<close>)
    have free: "(room, e) \<notin> board_nights G b"
      if "\<not> is_special G e" "date \<le> e" "days_between G e date < max 0 ?n" for e
    proof
      assume "(room, e) \<in> board_nights G b"
      then obtain k where k: "k < length ?atoms" "e \<in> period_days G (atom_range (?atoms ! k))"
        unfolding nights by (metis in_set_conv_nth)
      have "?i \<le> k" using early [of k e] k that(2) by force
      then have "p_begin G (atom_range ?a) \<le> e" using late k by blast
      then have "days_between G (p_begin G (atom_range ?a)) e \<le> 0" using g_days_nonpos [OF G na that(1)] by simp
      moreover have "?n = days_between G (p_begin G (atom_range ?a)) e + days_between G e date"
        by (rule g_days_add [OF G na that(1) d])
      moreover have "0 \<le> days_between G e date"
        using g_days_nonpos [OF G d that(1)] that(2) g_days_add [OF G d that(1) d] g_days_self [OF G d] by simp
      ultimately show False using that(3) by simp
    qed
    have "(room, add_days G date (max 0 ?n)) \<in> board_nights G b"
    proof (cases "date < p_begin G (atom_range ?a)")
      case True
      then have "0 < ?n" using g_days_pos [OF G na d] by simp
      then have "add_days G date (max 0 ?n) = p_begin G (atom_range ?a)"
        using g_add_days_between [OF G d na] by simp
      then show ?thesis using nth_mem [OF i] period_days_nonempty [OF a(1)] nights by metis
    next
      case False
      then have "?n \<le> 0" using g_days_nonpos [OF G na d] by (meson not_less)
      then have "max 0 ?n = 0" by (rule max_absorb1)
      then have "add_days G date (max 0 ?n) = date"
        using g_add_days_between [OF G d d] g_days_self [OF G d] by simp
      moreover have "date \<in> period_days G (atom_range ?a)" using False a(2) d by (simp add: period_days_def)
      ultimately show ?thesis using nth_mem [OF i] nights by metis
    qed
    then show ?thesis using get False free by auto
  qed
qed

text \<open>Every row of a well-formed board runs from its first begin to its last end.\<close>

lemma row_extent:
  assumes "board_ok G b" and "q \<in> set (omap_get [] (pb_rooms b) room)"
  defines "ptrs \<equiv> omap_get [] (pb_rooms b) room" and "at \<equiv> (\<lambda>q. the (lookup_atom (pb_reservations b) q))"
  shows "p_begin G (atom_range (at (hd ptrs))) \<le> p_begin G (atom_range (at q))
       \<and> p_end G (atom_range (at q)) \<le> p_end G (atom_range (at (last ptrs)))"
proof -
  have sorted: "sorted_wrt (before G (pb_reservations b)) ptrs"
    using board_room_sorted [OF assms(1)] by (simp add: ptrs_def)
  have ok: "period_ok G (atom_range (at s))" if "s \<in> set ptrs" for s
    using board_room_live [OF assms(1), of s room] that by (simp add: ptrs_def at_def live_ptr_def)
  have q: "q \<in> set ptrs" using assms(2) by (simp add: ptrs_def)
  obtain k where k: "k < length ptrs" "q = ptrs ! k" using q by (metis in_set_conv_nth)
  have ne: "ptrs \<noteq> []" using k by auto
  have "p_begin G (atom_range (at (ptrs ! 0))) \<le> p_begin G (atom_range (at q))"
  proof (cases "k = 0")
    case False
    then have "before G (pb_reservations b) (ptrs ! 0) q"
      using sorted_wrt_nth_less [OF sorted, of 0 k] k by simp
    then show ?thesis using ok [OF nth_mem, of 0] ne by (auto simp: before_def period_ok_def at_def)
  qed (use k in simp)
  moreover have "p_end G (atom_range (at q)) \<le> p_end G (atom_range (at (ptrs ! (length ptrs - 1))))"
  proof (cases "k = length ptrs - 1")
    case False
    then have "before G (pb_reservations b) q (ptrs ! (length ptrs - 1))"
      using sorted_wrt_nth_less [OF sorted, of k "length ptrs - 1"] k by simp
    then show ?thesis using ok [OF nth_mem, of "length ptrs - 1"] ne by (auto simp: before_def period_ok_def at_def)
  qed (use k in simp)
  ultimately show ?thesis using ne by (simp add: hd_conv_nth last_conv_nth)
qed

text \<open>The loop over the rooms folds the bounds of the rows into minimum and maximum.\<close>

definition row_bounds :: "('d::linorder, 'p) gregorian \<Rightarrow> 'p objects \<Rightarrow> int \<times> atom_ptr list \<Rightarrow> 'd \<times> 'd" where
  "row_bounds G H row = (p_begin G (atom_range (the (lookup_atom H (hd (snd row))))),
     p_end G (atom_range (the (lookup_atom H (last (snd row))))))"

lemma extent_loop:
  assumes "\<forall>row \<in> set rows. \<forall>q \<in> set (snd row). live_ptr G H q"
  shows "\<exists>f t. fold_res (extent_row G H) rows (from0, to0) = Inr (f, t)
    \<and> f \<in> insert from0 (fst ` row_bounds G H ` {row \<in> set rows. snd row \<noteq> []})
    \<and> t \<in> insert to0 (snd ` row_bounds G H ` {row \<in> set rows. snd row \<noteq> []})
    \<and> f \<le> from0 \<and> to0 \<le> t
    \<and> (\<forall>row \<in> set rows. snd row \<noteq> [] \<longrightarrow> f \<le> fst (row_bounds G H row) \<and> snd (row_bounds G H row) \<le> t)"
  using assms
proof (induction rows arbitrary: from0 to0)
  case (Cons row rows)
  show ?case
  proof (cases "snd row = []")
    case True
    have "{r \<in> set (row # rows). snd r \<noteq> []} = {r \<in> set rows. snd r \<noteq> []}" using True by auto
    then show ?thesis using Cons.IH [of from0 to0] Cons.prems True by (simp add: extent_row_def)
  next
    case False
    let ?lo = "fst (row_bounds G H row)" and ?hi = "snd (row_bounds G H row)"
    have step: "extent_row G H row (from0, to0) = Inr (min from0 ?lo, max to0 ?hi)"
    proof -
      have "live_ptr G H (hd (snd row))" "live_ptr G H (last (snd row))" using Cons.prems False by simp_all
      then show ?thesis using False
        by (simp only: extent_row_def row_bounds_def deref_live bindr_Inr if_False fst_conv snd_conv)
    qed
    obtain f t where ft: "fold_res (extent_row G H) rows (min from0 ?lo, max to0 ?hi) = Inr (f, t)"
        "f \<in> insert (min from0 ?lo) (fst ` row_bounds G H ` {row \<in> set rows. snd row \<noteq> []})"
        "t \<in> insert (max to0 ?hi) (snd ` row_bounds G H ` {row \<in> set rows. snd row \<noteq> []})"
        "f \<le> min from0 ?lo" "max to0 ?hi \<le> t"
        "\<forall>row \<in> set rows. snd row \<noteq> [] \<longrightarrow> f \<le> fst (row_bounds G H row) \<and> snd (row_bounds G H row) \<le> t"
      using Cons.IH [of "min from0 ?lo" "max to0 ?hi"] Cons.prems by auto
    have rows: "{r \<in> set (row # rows). snd r \<noteq> []} = insert row {r \<in> set rows. snd r \<noteq> []}" using False by auto
    have "f \<in> insert from0 (fst ` row_bounds G H ` {r \<in> set (row # rows). snd r \<noteq> []})"
      unfolding rows using ft(2) by (auto simp: min_def split: if_splits)
    moreover have "t \<in> insert to0 (snd ` row_bounds G H ` {r \<in> set (row # rows). snd r \<noteq> []})"
      unfolding rows using ft(3) by (auto simp: max_def split: if_splits)
    ultimately show ?thesis using ft step by auto
  qed
qed simp

lemma board_entry: "board_ok G b \<Longrightarrow> row \<in> set (pb_rooms b) \<Longrightarrow> snd row = omap_get [] (pb_rooms b) (fst row)"
  using omap_find_in [of "pb_rooms b" "fst row" "snd row"]
  by (simp add: board_ok_def rooms_ok_def omap_get_def)

lemma omap_get_entry: "omap_get [] m k \<noteq> [] \<Longrightarrow> (k, omap_get [] m k) \<in> set m"
  by (auto simp: omap_get_def omap_find_def split: option.splits dest: map_of_SomeD)

text \<open>On a non-empty board the assertion holds and the period is the smallest that contains every atom.\<close>

lemma getPlanningExtent_ok:
  assumes G: "gregorian_ok G" and b: "board_ok G b" and ne: "pb_reservations b \<noteq> []"
  shows "\<exists>f t. getPlanningExtent G today b = Inr (mk_period G f t) \<and> period_ok G (mk_period G f t)
    \<and> (\<forall>e \<in> set (pb_reservations b). \<forall>a \<in> set (res_atoms (snd e)).
         f \<le> p_begin G (atom_range a) \<and> p_end G (atom_range a) \<le> t)
    \<and> (\<exists>e \<in> set (pb_reservations b). \<exists>a \<in> set (res_atoms (snd e)). p_begin G (atom_range a) = f)
    \<and> (\<exists>e \<in> set (pb_reservations b). \<exists>a \<in> set (res_atoms (snd e)). p_end G (atom_range a) = t)"
proof -
  let ?R = "pb_reservations b" and ?rows = "{row \<in> set (pb_rooms b). snd row \<noteq> []}"
  let ?get = "\<lambda>room. omap_get [] (pb_rooms b) room" and ?at = "\<lambda>q. the (lookup_atom (pb_reservations b) q)"
  have dist: "distinct (map fst ?R)" using b by (simp add: board_ok_def)
  have live: "\<forall>row \<in> set (pb_rooms b). \<forall>q \<in> set (snd row). live_ptr G ?R q"
    using board_entry [OF b] board_room_live [OF b] by metis
  obtain f t where ft: "fold_res (extent_row G ?R) (pb_rooms b) (pos_infin G, neg_infin G) = Inr (f, t)"
      "f \<in> insert (pos_infin G) (fst ` row_bounds G ?R ` ?rows)"
      "t \<in> insert (neg_infin G) (snd ` row_bounds G ?R ` ?rows)"
      "\<forall>row \<in> set (pb_rooms b). snd row \<noteq> [] \<longrightarrow> f \<le> fst (row_bounds G ?R row) \<and> snd (row_bounds G ?R row) \<le> t"
    using extent_loop [OF live, of "pos_infin G" "neg_infin G"] by blast
  have in_row: "\<exists>q. lookup_atom ?R q = Some a \<and> q \<in> set (?get (atom_room a))"
    if e: "e \<in> set ?R" and a: "a \<in> set (res_atoms (snd e))" for e a
  proof -
    obtain n where n: "n < length (res_atoms (snd e))" "a = res_atoms (snd e) ! n" using a by (metis in_set_conv_nth)
    have "map_of ?R (fst e) = Some (snd e)" using e dist by (simp add: map_of_eq_Some_iff)
    then have "lookup_atom ?R (fst e, n) = Some a" using n by (simp add: lookup_atom_map_of)
    then show ?thesis by (auto simp: board_room_ptrs [OF b])
  qed
  have atom_of: "\<exists>e \<in> set ?R. ?at q \<in> set (res_atoms (snd e))" if qr: "q \<in> set (?get room)" for q room
  proof -
    obtain a r where a: "lookup_atom ?R q = Some a" "map_of ?R (fst q) = Some r" "a \<in> set (res_atoms r)"
      using qr by (auto simp: board_room_ptrs [OF b] lookup_atom_map_of)
    then have "(fst q, r) \<in> set ?R" by (simp add: map_of_SomeD)
    then show ?thesis using a by force
  qed
  have bound: "f \<le> p_begin G (atom_range a) \<and> p_end G (atom_range a) \<le> t"
    if e: "e \<in> set ?R" and a: "a \<in> set (res_atoms (snd e))" for e a
  proof -
    obtain q where q: "lookup_atom ?R q = Some a" "q \<in> set (?get (atom_room a))" using in_row [OF e a] by blast
    then have "(atom_room a, ?get (atom_room a)) \<in> set (pb_rooms b)" by (intro omap_get_entry) auto
    then have "f \<le> p_begin G (atom_range (?at (hd (?get (atom_room a)))))"
        "p_end G (atom_range (?at (last (?get (atom_room a))))) \<le> t"
      using ft(4) q(2) by (force simp: row_bounds_def)+
    then show ?thesis using row_extent [OF b q(2)] q(1) by auto
  qed
  have e0: "hd ?R \<in> set ?R" using ne by simp
  let ?e0 = "hd ?R"
  let ?a0 = "hd (res_atoms (snd ?e0))"
  have a0: "?a0 \<in> set (res_atoms (snd ?e0))"
    using board_ok_reservation [OF b e0] by (simp add: reservation_ok_def)
  have ok0: "period_ok G (atom_range ?a0)"
    using chain_period_ok [OF _ a0, of G] board_ok_reservation [OF b e0] by (simp add: reservation_ok_def)
  have "f \<noteq> pos_infin G" "t \<noteq> neg_infin G"
    using bound [OF e0 a0] g_infin [OF G] period_ok_not_special [OF ok0] leD by metis+
  then obtain r1 r2 where r: "r1 \<in> ?rows" "f = fst (row_bounds G ?R r1)" "r2 \<in> ?rows" "t = snd (row_bounds G ?R r2)"
    using ft(2,3) by blast
  let ?q1 = "hd (snd r1)" and ?q2 = "last (snd r2)"
  have q: "?q1 \<in> set (?get (fst r1))" "?q2 \<in> set (?get (fst r2))"
    using r(1,3) board_entry [OF b, of r1] board_entry [OF b, of r2] by (metis (lifting) hd_in_set last_in_set mem_Collect_eq)+
  have ft_at: "f = p_begin G (atom_range (?at ?q1))" "t = p_end G (atom_range (?at ?q2))"
    using r by (simp_all add: row_bounds_def)
  have reg: "\<not> is_special G f" "\<not> is_special G t"
    using board_room_live [OF b q(1)] board_room_live [OF b q(2)] unfolding ft_at
    by (simp_all add: live_ptr_def period_ok_def)
  have lt: "f < t" using bound [OF e0 a0] period_ok_not_special(3) [OF ok0] by (meson le_less_trans less_le_trans)
  have "getPlanningExtent G today b = Inr (mk_period G f t)"
    using ne ft(1) reg lt by (simp add: getPlanningExtent_def)
  moreover have "period_ok G (mk_period G f t)" by (rule period_ok_mk [OF G reg lt])
  moreover have "\<exists>e \<in> set ?R. \<exists>a \<in> set (res_atoms (snd e)). p_begin G (atom_range a) = f"
    using atom_of [OF q(1)] ft_at(1) by blast
  moreover have "\<exists>e \<in> set ?R. \<exists>a \<in> set (res_atoms (snd e)). p_end G (atom_range a) = t"
    using atom_of [OF q(2)] ft_at(2) by blast
  ultimately show ?thesis using bound by blast
qed

section \<open>Copying a board\<close>

lemma new_addr_fresh: "new_addr b \<notin> fst ` set (pb_reservations b)"
proof -
  have "new_addr b = Suc (Max (set (0 # map fst (pb_reservations b))))"
    by (simp only: new_addr_def Max.set_eq_fold)
  moreover have "x \<le> Max (set (0 # map fst (pb_reservations b)))" if "x \<in> fst ` set (pb_reservations b)" for x
    using that by (intro Max_ge) auto
  ultimately show ?thesis by fastforce
qed

lemma copy_loop:
  assumes G: "gregorian_ok G" and "board_ok G b"
    and "\<forall>e \<in> set es. reservation_ok G (snd e) \<and> board_nights G b \<inter> nights G (snd e) = {}"
    and "\<And>i j. i < j \<Longrightarrow> j < length es \<Longrightarrow> nights G (snd (es ! i)) \<inter> nights G (snd (es ! j)) = {}"
  shows "\<exists>b'. fold_res (\<lambda>e b. addReservation G (Some (new_addr b, snd e)) b) es b = Inr b' \<and> board_ok G b'
    \<and> map snd (pb_reservations b') = map snd (pb_reservations b) @ map snd es"
  using assms(2-)
proof (induction es arbitrary: b)
  case (Cons e es)
  obtain b1 where b1: "addReservation G (Some (new_addr b, snd e)) b = Inr b1" "board_ok G b1"
      "pb_reservations b1 = pb_reservations b @ [(new_addr b, snd e)]"
    using addReservation_ok [OF G Cons.prems(1), of "(new_addr b, snd e)"] new_addr_fresh Cons.prems(2) by auto
  have "nights G (snd e) \<inter> nights G (snd x) = {}" if "x \<in> set es" for x
    using that Cons.prems(3) [of 0] by (fastforce simp: in_set_conv_nth)
  then have "\<forall>x \<in> set es. reservation_ok G (snd x) \<and> board_nights G b1 \<inter> nights G (snd x) = {}"
  proof -
    have "board_nights G b1 = board_nights G b \<union> nights G (snd e)"
      by (simp add: board_nights_def b1(3) Un_commute)
    then show ?thesis using Cons.prems(2) \<open>\<And>x. x \<in> set es \<Longrightarrow> _\<close> by (simp add: Int_Un_distrib2)
  qed
  moreover have "nights G (snd (es ! i)) \<inter> nights G (snd (es ! j)) = {}" if "i < j" "j < length es" for i j
    using Cons.prems(3) [of "Suc i" "Suc j"] that by simp
  ultimately show ?case using Cons.IH [OF b1(2)] b1 by auto
qed simp

lemma assign_board_ok:
  assumes "gregorian_ok G" and "board_ok G that"
  shows "\<exists>b. assign_board G False this that = Inr b \<and> board_ok G b
    \<and> map snd (pb_reservations b) = map snd (pb_reservations that)"
proof -
  have "\<exists>b'. fold_res (\<lambda>e b. addReservation G (Some (new_addr b, snd e)) b) (pb_reservations that) empty_board = Inr b'
      \<and> board_ok G b' \<and> map snd (pb_reservations b') = map snd (pb_reservations empty_board) @ map snd (pb_reservations that)"
  proof (rule copy_loop [OF assms(1) board_ok_empty])
    show "\<forall>e \<in> set (pb_reservations that). reservation_ok G (snd e) \<and> board_nights G empty_board \<inter> nights G (snd e) = {}"
      using assms(2) by (auto simp: board_ok_reservation board_nights_def empty_board_def)
    show "nights G (snd (pb_reservations that ! i)) \<inter> nights G (snd (pb_reservations that ! j)) = {}"
      if "i < j" "j < length (pb_reservations that)" for i j
      using board_nights_disjoint [OF assms(2), of i j] that by simp
  qed
  then show ?thesis by (simp add: assign_board_def clear_board_empty) (simp add: empty_board_def)
qed

lemma remove_nights:
  assumes b: "board_ok G b" and i: "i < length (pb_reservations b)"
  shows "(\<Union>e \<in> set (take i (pb_reservations b) @ drop (Suc i) (pb_reservations b)). nights G (snd e))
       = board_nights G b - nights G (snd (pb_reservations b ! i))"
proof -
  let ?R = "pb_reservations b"
  have "nights G (snd e) \<inter> nights G (snd (?R ! i)) = {}" if e: "e \<in> set (take i ?R @ drop (Suc i) ?R)" for e
  proof -
    obtain k where "k < length ?R" "k \<noteq> i" "e = ?R ! k"
    proof (cases "e \<in> set (take i ?R)")
      case True
      then obtain k where "k < i" "e = take i ?R ! k" using i by (auto simp: in_set_conv_nth)
      then show ?thesis using i that [of k] by simp
    next
      case False
      then have "e \<in> set (drop (Suc i) ?R)" using e by simp
      then obtain k where "k < length ?R - Suc i" "e = drop (Suc i) ?R ! k" by (auto simp: in_set_conv_nth)
      then show ?thesis using that [of "Suc i + k"] by simp
    qed
    then show ?thesis using board_nights_disjoint [OF b _ i] by auto
  qed
  moreover have "board_nights G b
      = nights G (snd (?R ! i)) \<union> (\<Union>e \<in> set (take i ?R @ drop (Suc i) ?R). nights G (snd e))"
    unfolding board_nights_def by (subst id_take_nth_drop [OF i]) auto
  ultimately show ?thesis by auto
qed

section \<open>A concrete board\<close>

definition demo_board :: "(int \<times> int) planning_board" where
  "demo_board = \<lparr>pb_reservations = [(9, demo_stay)], pb_rooms = [(1, [(9, 0), (9, 1)]), (2, [(9, 2)])]\<rparr>"

lemma demo_board_add: "addReservation day_calendar (Some (9, demo_stay)) empty_board = Inr demo_board"
proof -
  have valid: "canAddReservation day_calendar empty_board demo_stay = Inr True"
    using canAddReservation_ok [of day_calendar empty_board demo_stay] demo_stay_ok
    by (simp add: reservation_ok_regular) (simp add: board_nights_def empty_board_def)
  have atoms: "atom_ptrs (9, demo_stay) = [(9, 0), (9, 1), (9, 2)]"
    by (simp add: atom_ptrs_def demo_stay_def upt_rec)
  show ?thesis
    by (simp add: addReservation_def valid atoms)
       (simp add: insertAtom_def deref_def lookup_atom_def demo_stay_def mk_atom_def empty_board_def demo_board_def
          omap_get_def omap_find_def Let_def)
qed

lemma demo_board_reachable: "board_reachable day_calendar demo_board"
  by (rule board_reachable.add [OF board_reachable.construct _ _ demo_board_add])
     (simp_all add: empty_board_def reservation_ok_regular demo_stay_ok)

lemma demo_board_ok: "board_ok day_calendar demo_board"
  using board_reachable_ok [OF demo_board_reachable] by simp

section \<open>Properties\<close>

text \<open>C1 No double booking: on every board a client can reach by constructing one and adding, removing and
  clearing, each room night is occupied by at most one reservation, every reservation is valid and the
  board's index of atoms per room is consistent with its reservations.\<close>

theorem reachable_board_no_double_booking:
  assumes "board_reachable G b" and "gregorian_ok G"
  shows "board_ok G b \<and> (\<forall>i < length (pb_reservations b). \<forall>j < length (pb_reservations b). i \<noteq> j \<longrightarrow>
      nights G (snd (pb_reservations b ! i)) \<inter> nights G (snd (pb_reservations b ! j)) = {})"
  using board_reachable_ok [OF assms] board_nights_disjoint by blast

theorem reachable_board_no_double_booking_witness: "board_ok day_calendar demo_board"
  using reachable_board_no_double_booking [OF demo_board_reachable] by simp

text \<open>C15 Adding a reservation with ordinary dates to a well-formed board succeeds exactly when the reservation
  is valid and none of its nights is taken; the new calendar is then the union of the old one and the
  reservation's nights and the board stays well formed.  Otherwise \<open>std::logic_error\<close> is thrown, as the code does and the tests of
  \<open>test_hotel_planning.cpp\<close> expect; the comment in \<open>planning.h\<close> speaks of a null pointer instead, which is never returned.\<close>

theorem addReservation_outcome:
  assumes "gregorian_ok G" and "board_ok G b" and "fst e \<notin> fst ` set (pb_reservations b)"
    and "atoms_regular G (snd e)"
  shows "if reservation_ok G (snd e) \<and> board_nights G b \<inter> nights G (snd e) = {}
    then \<exists>b'. addReservation G (Some e) b = Inr b' \<and> board_ok G b'
           \<and> pb_reservations b' = pb_reservations b @ [e]
           \<and> board_nights G b' = board_nights G b \<union> nights G (snd e)
    else addReservation G (Some e) b = Inl (LogicError (''cannot add reservation '' @ res_description (snd e)))"
proof -
  have "board_nights G b' = board_nights G b \<union> nights G (snd e)" if "pb_reservations b' = pb_reservations b @ [e]" for b'
    by (simp add: board_nights_def that Un_commute)
  then show ?thesis using addReservation_outcome_lemma [OF assms] by (auto split: if_splits)
qed

theorem addReservation_outcome_witness:
  "addReservation day_calendar (Some (7, mk_reservation ''x'')) demo_board = Inl (LogicError ''cannot add reservation x'')"
  using addReservation_outcome [of day_calendar demo_board "(7, mk_reservation ''x'')"] demo_board_ok
  by (simp add: demo_board_def atoms_regular_def mk_reservation_def reservation_ok_def)

text \<open>C17 Removing by id frees exactly the nights of the first reservation with the id, keeps the board well
  formed and does the same as removing that reservation by its pointer; without such a reservation the board
  is unchanged.\<close>

theorem removeReservation_correct:
  assumes "board_ok G b"
  shows "board_ok G (removeReservationId i b) \<and>
    (case find_index (\<lambda>x. obj_id (snd x) = i) (pb_reservations b) of
       None \<Rightarrow> removeReservationId i b = b
     | Some k \<Rightarrow> board_nights G (removeReservationId i b) = board_nights G b - nights G (snd (pb_reservations b ! k))
         \<and> removeReservationPtr (Some (pb_reservations b ! k)) b = Inr (removeReservationId i b))"
proof (cases "find_index (\<lambda>x. obj_id (snd x) = i) (pb_reservations b)")
  case None
  then show ?thesis using assms by (simp add: removeReservationId_def)
next
  case (Some k)
  then have k: "k < length (pb_reservations b)" using find_index_SomeD by blast
  have "find_index (\<lambda>x. fst x = fst (pb_reservations b ! k)) (pb_reservations b) = Some k"
    using assms k by (intro find_index_key) (simp_all add: board_ok_def)
  then show ?thesis
    using remove_id_ok [OF assms, of i] remove_nights [OF assms k] Some
    by (simp add: removeReservationId_def removeReservationPtr_def) (simp add: board_nights_def)
qed

theorem removeReservation_correct_witness: "board_ok day_calendar (removeReservationId 0 demo_board)"
  using removeReservation_correct [OF demo_board_ok, of 0] by simp

text \<open>C16 \<open>getAvailableDaysFrom\<close>, a binary search over the room's atoms, returns a number of days such that
  the room is free on every one of them, and either the room is never taken again, when it is the largest
  \<open>int\<close>, or it is taken on the day right after them.\<close>

theorem getAvailableDaysFrom_correct:
  assumes "gregorian_ok G" and "board_ok G b" and "\<not> is_special G date"
  shows "\<exists>n. getAvailableDaysFrom G b room date = Inr n \<and> 0 \<le> n
    \<and> (\<forall>e. \<not> is_special G e \<longrightarrow> date \<le> e \<longrightarrow> days_between G e date < n \<longrightarrow> (room, e) \<notin> board_nights G b)
    \<and> (n = int_max \<or> (room, add_days G date n) \<in> board_nights G b)"
  using assms by (rule getAvailableDaysFrom_ok)

theorem getAvailableDaysFrom_correct_witness:
  "\<exists>n. getAvailableDaysFrom day_calendar demo_board 1 4 = Inr n \<and> 0 \<le> n"
  using getAvailableDaysFrom_correct [of day_calendar demo_board 4 1] demo_board_ok by auto

end
