(* ===== verification/Json.thy ===== *)
theory Json
  imports Prelude
begin

text \<open>
  JSON values with the access operations of the bundled JSON library the serializers use.  An object
  is a \<open>std::map\<close> from keys to values.  Numbers are integers; the program writes no others.
\<close>

datatype json =
    JNull
  | JBool bool
  | JInt int
  | JString string
  | JArray "json list"
  | JObject "(string, json) omap"

text \<open>Reading through a constant reference: a missing key fails the library's assertion.\<close>

definition json_at :: "json \<Rightarrow> string \<Rightarrow> json res" where
  "json_at j k =
     (case j of
        JObject m \<Rightarrow> (case omap_find m k of None \<Rightarrow> Inl AssertFailed | Some v \<Rightarrow> Inr v)
      | _ \<Rightarrow> Inl JsonTypeError)"

text \<open>\<open>obj[k] = v\<close> turns a null value into an object; the program uses it on null values and objects.\<close>

definition json_set :: "string \<Rightarrow> json \<Rightarrow> json \<Rightarrow> json" where
  "json_set k v j =
     (case j of JNull \<Rightarrow> JObject [(k, v)] | JObject m \<Rightarrow> JObject (omap_put k v m) | _ \<Rightarrow> j)"

text \<open>Conversion to \<open>int\<close> is a \<open>static_cast\<close> from the stored 64-bit number: it wraps at 32 bits.\<close>

definition to_int32 :: "int \<Rightarrow> int" where
  "to_int32 i = (i + 2147483648) mod 4294967296 - 2147483648"

definition int32 :: "int \<Rightarrow> bool" where
  "int32 i \<longleftrightarrow> -2147483648 \<le> i \<and> i < 2147483648"

definition json_int :: "json \<Rightarrow> int res" where
  "json_int j = (case j of JInt i \<Rightarrow> Inr (to_int32 i) | JBool b \<Rightarrow> Inr (if b then 1 else 0)
     | _ \<Rightarrow> Inl JsonTypeError)"

definition json_string :: "json \<Rightarrow> string res" where
  "json_string j = (case j of JString s \<Rightarrow> Inr s | _ \<Rightarrow> Inl JsonTypeError)"

text \<open>What a range-based \<open>for\<close> visits.\<close>

definition json_elems :: "json \<Rightarrow> json list" where
  "json_elems j = (case j of JNull \<Rightarrow> [] | JArray xs \<Rightarrow> xs | JObject m \<Rightarrow> map snd m | _ \<Rightarrow> [j])"

text \<open>Reading a member and converting it.\<close>

definition int_at :: "json \<Rightarrow> string \<Rightarrow> int res" where
  "int_at j k = bindr (json_at j k) json_int"

definition string_at :: "json \<Rightarrow> string \<Rightarrow> string res" where
  "string_at j k = bindr (json_at j k) json_string"

text \<open>An object built from the given members.\<close>

definition json_object :: "(string \<times> json) list \<Rightarrow> json" where
  "json_object kvs = fold (\<lambda>(k, v). json_set k v) kvs (JObject [])"

named_theorems json_simps

definition is_object :: "json \<Rightarrow> bool" where
  "is_object j = (case j of JObject m \<Rightarrow> omap_ok m | _ \<Rightarrow> False)"

lemma to_int32_id [simp]: "int32 i \<Longrightarrow> to_int32 i = i"
  by (simp add: to_int32_def int32_def)

lemma int32_to_int32: "int32 (to_int32 i)"
proof -
  have "0 \<le> (i + 2147483648) mod 4294967296" "(i + 2147483648) mod 4294967296 < 4294967296"
    by simp_all
  then show ?thesis unfolding int32_def to_int32_def by linarith
qed

lemma is_object_set [simp]: "is_object j \<or> j = JNull \<Longrightarrow> is_object (json_set k v j)"
  by (cases j) (auto simp: is_object_def json_set_def)

lemma is_object_empty [simp]: "is_object (JObject [])"
  by (simp add: is_object_def)

lemma json_at_set [simp]:
  "is_object j \<Longrightarrow> json_at (json_set k v j) i = (if i = k then Inr v else json_at j i)"
  by (cases j) (auto simp: is_object_def json_set_def json_at_def)

lemma json_at_set_null [simp]: "json_at (json_set k v JNull) k = Inr v"
  by (simp add: json_set_def json_at_def omap_find_def)

lemma json_int_JInt [simp]: "json_int (JInt i) = Inr (to_int32 i)"
  by (simp add: json_int_def)

lemma json_string_JString [simp]: "json_string (JString s) = Inr s"
  by (simp add: json_string_def)

lemma json_elems_JArray [simp]: "json_elems (JArray xs) = xs"
  by (simp add: json_elems_def)

lemmas json_access = int_at_def string_at_def

end
