(* ===== verification/Operations.thy ===== *)
theory Operations
  imports Reservation
begin

text \<open>
  \<open>persistence::op\<close>: the operations a client sends to a backend, and the items a data stream carries.
  The \<open>unique_ptr\<close>s inside an operation are modelled by the objects they own.
\<close>

datatype 'p streamable =
    HotelItem hotel
  | ReservationItem "'p reservation"
  | PersonItem person

datatype streamable_type = HotelType | ReservationType | PersonType

definition getStreamableType :: "'p streamable \<Rightarrow> streamable_type" where
  "getStreamableType item =
     (case item of HotelItem _ \<Rightarrow> HotelType | ReservationItem _ \<Rightarrow> ReservationType | PersonItem _ \<Rightarrow> PersonType)"

datatype 'p operation =
    EraseAllData
  | StoreNew "'p streamable"
  | Update "'p streamable"
  | Delete streamable_type int

text \<open>The lists of items a stream hands to its observers.\<close>

datatype 'p streamable_items =
    HotelItems "hotel list"
  | ReservationItems "'p reservation list"

end
