(* ===== verification/JsonSerializer.thy ===== *)
theory JsonSerializer
  imports Json Operations
begin

text \<open>
  \<open>persistence::json\<close>: hotels, reservations and operations written as JSON values and read back.  A
  room is written with the short code of its category; reading a hotel adds its categories first and
  then its rooms under those codes.
\<close>

section \<open>Persistent objects\<close>

definition serialize_object :: "'a persistent_object_scheme \<Rightarrow> json" where
  "serialize_object item = json_set ''rev'' (JInt (obj_revision item)) (json_set ''id'' (JInt (obj_id item)) JNull)"

definition deserialize_object ::
    "json \<Rightarrow> 'a persistent_object_scheme \<Rightarrow> 'a persistent_object_scheme res" where
  "deserialize_object j item =
     bindr (int_at j ''id'') (\<lambda>i. bindr (int_at j ''rev'') (\<lambda>r. Inr (setRevision r (setId i item))))"

section \<open>Hotels\<close>

definition serialize_category :: "room_category \<Rightarrow> json" where
  "serialize_category item =
     json_set ''name'' (JString (cat_name item))
       (json_set ''short_code'' (JString (cat_shortCode item)) (serialize_object item))"

definition deserialize_category :: "json \<Rightarrow> room_category res" where
  "deserialize_category j =
     bindr (string_at j ''short_code'') (\<lambda>code. bindr (string_at j ''name'') (\<lambda>name.
       deserialize_object j (mk_room_category code name)))"

text \<open>Writing a room follows its category pointer into the hotel \<open>h\<close> that owns it.\<close>

definition serialize_room :: "hotel \<Rightarrow> hotel_room \<Rightarrow> json res" where
  "serialize_room h item =
     bindr (category_of h item) (\<lambda>c.
       Inr (json_set ''name'' (JString (room_name item))
             (json_set ''category_id'' (JString (cat_shortCode c)) (serialize_object item))))"

definition deserialize_room :: "json \<Rightarrow> hotel_room res" where
  "deserialize_room j = bindr (string_at j ''name'') (\<lambda>name. deserialize_object j (mk_hotel_room name))"

definition serialize_hotel :: "hotel \<Rightarrow> json res" where
  "serialize_hotel item =
     bindr (map_res (serialize_room item) (hotel_rooms item)) (\<lambda>rooms.
       Inr (json_set ''rooms'' (JArray rooms)
             (json_set ''categories'' (JArray (map serialize_category (hotel_categories item)))
               (json_set ''name'' (JString (hotel_name item)) (serialize_object item)))))"

definition read_category :: "json \<Rightarrow> hotel \<Rightarrow> hotel res" where
  "read_category j h = bindr (deserialize_category j) (\<lambda>c. addRoomCategory (Some c) h)"

definition read_room :: "json \<Rightarrow> hotel \<Rightarrow> hotel res" where
  "read_room j h =
     bindr (deserialize_room j) (\<lambda>r. bindr (string_at j ''category_id'') (\<lambda>code. addRoom (Some r) code h))"

definition deserialize_hotel :: "json \<Rightarrow> hotel res" where
  "deserialize_hotel j =
     bindr (string_at j ''name'') (\<lambda>name.
     bindr (deserialize_object j (mk_hotel name)) (\<lambda>h.
     bindr (json_at j ''categories'') (\<lambda>categories.
     bindr (fold_res read_category (json_elems categories) h) (\<lambda>h.
     bindr (json_at j ''rooms'') (\<lambda>rooms.
     fold_res read_room (json_elems rooms) h)))))"

section \<open>Reservations\<close>

definition serialize_status :: "reservation_status \<Rightarrow> json" where
  "serialize_status item = JString
     (case item of Unknown \<Rightarrow> ''unknown'' | Temporary \<Rightarrow> ''temporary'' | New \<Rightarrow> ''new''
      | Confirmed \<Rightarrow> ''confirmed'' | CheckedIn \<Rightarrow> ''checked_in'' | CheckedOut \<Rightarrow> ''checked_out''
      | Archived \<Rightarrow> ''archived'')"

definition deserialize_status :: "json \<Rightarrow> reservation_status res" where
  "deserialize_status j =
     bindr (json_string j) (\<lambda>str.
       if str = ''unknown'' then Inr Unknown
       else if str = ''temporary'' then Inr Temporary
       else if str = ''new'' then Inr New
       else if str = ''confirmed'' then Inr Confirmed
       else if str = ''checked_in'' then Inr CheckedIn
       else if str = ''checked_out'' then Inr CheckedOut
       else if str = ''archived'' then Inr Archived
       else Inl AssertFailed)"

definition serialize_atom :: "('d::linorder, 'p) gregorian \<Rightarrow> 'p reservation_atom \<Rightarrow> json" where
  "serialize_atom G item =
     json_set ''to'' (JString (to_iso_extended G (p_end G (atom_range item))))
       (json_set ''from'' (JString (to_iso_extended G (p_begin G (atom_range item))))
         (json_set ''room_id'' (JInt (atom_room item)) (serialize_object item)))"

definition deserialize_atom :: "('d::linorder, 'p) gregorian \<Rightarrow> json \<Rightarrow> 'p reservation_atom res" where
  "deserialize_atom G j =
     bindr (string_at j ''from'') (\<lambda>f. bindr (from_string G f) (\<lambda>fromDate.
     bindr (string_at j ''to'') (\<lambda>t. bindr (from_string G t) (\<lambda>toDate.
     bindr (int_at j ''room_id'') (\<lambda>room.
     deserialize_object j (mk_atom room (mk_period G fromDate toDate)))))))"

definition serialize_reservation :: "('d::linorder, 'p) gregorian \<Rightarrow> 'p reservation \<Rightarrow> json" where
  "serialize_reservation G item =
     json_set ''atoms'' (JArray (map (serialize_atom G) (res_atoms item)))
       (json_set ''children'' (JInt (res_children item))
         (json_set ''adults'' (JInt (res_adults item))
           (json_set ''status'' (serialize_status (res_status item))
             (json_set ''description'' (JString (res_description item)) (serialize_object item)))))"

definition read_atom :: "('d::linorder, 'p) gregorian \<Rightarrow> json \<Rightarrow> 'p reservation \<Rightarrow> 'p reservation res" where
  "read_atom G j r = bindr (deserialize_atom G j) (\<lambda>a. addAtomCopy G a r)"

definition deserialize_reservation :: "('d::linorder, 'p) gregorian \<Rightarrow> json \<Rightarrow> 'p reservation res" where
  "deserialize_reservation G j =
     bindr (string_at j ''description'') (\<lambda>description.
     bindr (deserialize_object j (mk_reservation description)) (\<lambda>r.
     bindr (json_at j ''status'') (\<lambda>st. bindr (deserialize_status st) (\<lambda>status.
     bindr (int_at j ''adults'') (\<lambda>adults.
     bindr (int_at j ''children'') (\<lambda>children.
     bindr (json_at j ''atoms'') (\<lambda>atoms.
     bindr (fold_res (read_atom G) (json_elems atoms)
              (r\<lparr>res_status := status, res_adults := adults, res_children := children\<rparr>)) (\<lambda>r.
     deserialize_object j r))))))))"

section \<open>Operations\<close>

definition serialize_type :: "streamable_type \<Rightarrow> json" where
  "serialize_type t = JString
     (case t of HotelType \<Rightarrow> ''hotel'' | ReservationType \<Rightarrow> ''reservation'' | PersonType \<Rightarrow> ''person'')"

definition deserialize_type :: "json \<Rightarrow> streamable_type res" where
  "deserialize_type j =
     bindr (json_string j) (\<lambda>t.
       if t = ''hotel'' then Inr HotelType
       else if t = ''reservation'' then Inr ReservationType
       else if t = ''person'' then Inr PersonType
       else Inl (LogicError ''Invalid streamable type''))"

text \<open>Writing a person is a stub that loses the person.\<close>

definition serialize_person :: "person \<Rightarrow> json" where
  "serialize_person item = JObject [(''Person'', JString ''Person'')]"

definition serialize_item :: "('d::linorder, 'p) gregorian \<Rightarrow> 'p streamable \<Rightarrow> json res" where
  "serialize_item G item =
     (case item of HotelItem h \<Rightarrow> serialize_hotel h
      | ReservationItem r \<Rightarrow> Inr (serialize_reservation G r)
      | PersonItem p \<Rightarrow> Inr (serialize_person p))"

definition serialize_item_op :: "('d::linorder, 'p) gregorian \<Rightarrow> string \<Rightarrow> 'p streamable \<Rightarrow> json res" where
  "serialize_item_op G name item =
     bindr (serialize_item G item) (\<lambda>obj.
       Inr (json_set ''o'' obj (json_set ''t'' (serialize_type (getStreamableType item))
             (json_set ''op'' (JString name) JNull))))"

definition serialize_operation :: "('d::linorder, 'p) gregorian \<Rightarrow> 'p operation \<Rightarrow> json res" where
  "serialize_operation G operation =
     (case operation of
        EraseAllData \<Rightarrow> Inr (json_set ''op'' (JString ''erase_all_data'') JNull)
      | StoreNew item \<Rightarrow> serialize_item_op G ''store'' item
      | Update item \<Rightarrow> serialize_item_op G ''update'' item
      | Delete t i \<Rightarrow> Inr (json_set ''o'' (JInt i) (json_set ''t'' (serialize_type t)
             (json_set ''op'' (JString ''delete'') JNull))))"

definition deserialize_item :: "('d::linorder, 'p) gregorian \<Rightarrow> json \<Rightarrow> 'p streamable res" where
  "deserialize_item G j =
     bindr (json_at j ''t'') (\<lambda>tj. bindr (deserialize_type tj) (\<lambda>t.
       case t of
         HotelType \<Rightarrow> bindr (json_at j ''o'') (\<lambda>obj. bindr (deserialize_hotel obj) (\<lambda>h. Inr (HotelItem h)))
       | ReservationType \<Rightarrow>
           bindr (json_at j ''o'') (\<lambda>obj. bindr (deserialize_reservation G obj) (\<lambda>r. Inr (ReservationItem r)))
       | PersonType \<Rightarrow> Inl AssertFailed))"

text \<open>An unknown operation fails the assertion at the end of the chain.\<close>

definition deserialize_operation :: "('d::linorder, 'p) gregorian \<Rightarrow> json \<Rightarrow> 'p operation res" where
  "deserialize_operation G j =
     bindr (string_at j ''op'') (\<lambda>operation.
       if operation = ''erase_all_data'' then Inr EraseAllData
       else if operation = ''store'' then bindr (deserialize_item G j) (\<lambda>item. Inr (StoreNew item))
       else if operation = ''update'' then bindr (deserialize_item G j) (\<lambda>item. Inr (Update item))
       else if operation = ''delete'' then
         bindr (json_at j ''t'') (\<lambda>tj. bindr (deserialize_type tj) (\<lambda>t.
         bindr (int_at j ''o'') (\<lambda>i. Inr (Delete t i))))
       else Inl AssertFailed)"

section \<open>Reading back what was written\<close>

definition object_ints :: "'a persistent_object_scheme \<Rightarrow> bool" where
  "object_ints o' \<longleftrightarrow> int32 (obj_id o') \<and> int32 (obj_revision o')"

definition hotel_ints :: "hotel \<Rightarrow> bool" where
  "hotel_ints h \<longleftrightarrow> object_ints h \<and> list_all object_ints (hotel_categories h) \<and> list_all object_ints (hotel_rooms h)"

definition reservation_ints :: "'p reservation \<Rightarrow> bool" where
  "reservation_ints r \<longleftrightarrow> object_ints r \<and> int32 (res_adults r) \<and> int32 (res_children r)
     \<and> list_all (\<lambda>a. object_ints a \<and> int32 (atom_room a)) (res_atoms r)"

lemma is_object_serialize_object [simp]: "is_object (serialize_object item)"
  by (simp add: serialize_object_def)

lemma json_at_serialize_object [simp]:
  "json_at (serialize_object item) ''id'' = Inr (JInt (obj_id item))"
  "json_at (serialize_object item) ''rev'' = Inr (JInt (obj_revision item))"
  by (simp_all add: serialize_object_def)

lemma deserialize_object_of:
  assumes "json_at j ''id'' = Inr (JInt (obj_id item))" and "json_at j ''rev'' = Inr (JInt (obj_revision item))"
    and "object_ints item"
  shows "deserialize_object j x = Inr (setRevision (obj_revision item) (setId (obj_id item) x))"
  using assms by (simp add: deserialize_object_def int_at_def object_ints_def)

lemma category_roundtrip:
  "object_ints c \<Longrightarrow> deserialize_category (serialize_category c) = Inr c"
  by (simp add: deserialize_category_def string_at_def serialize_category_def deserialize_object_of [of _ c]
      setRevision_def setId_def mk_room_category_def)

lemma status_roundtrip: "deserialize_status (serialize_status s) = Inr s"
  by (cases s) (simp_all add: deserialize_status_def serialize_status_def)

lemma type_roundtrip: "deserialize_type (serialize_type t) = Inr t"
  by (cases t) (simp_all add: deserialize_type_def serialize_type_def)

lemma atom_roundtrip:
  assumes "gregorian_ok G" and "period_ok G (atom_range a)" and "object_ints a" and "int32 (atom_room a)"
  shows "deserialize_atom G (serialize_atom G a) = Inr a"
  using assms
  by (simp add: deserialize_atom_def string_at_def int_at_def serialize_atom_def deserialize_object_of [of _ a]
      setRevision_def setId_def mk_atom_def g_from_string period_ok_not_special g_eta)

text \<open>Hotels: the rooms are written in full when every category pointer is valid.\<close>

definition room_json :: "hotel \<Rightarrow> hotel_room \<Rightarrow> json" where
  "room_json h r = json_set ''name'' (JString (room_name r))
     (json_set ''category_id'' (JString (cat_shortCode (hotel_categories h ! the (room_category r)))) (serialize_object r))"

lemma serialize_rooms:
  "list_all (room_ok h) rs \<Longrightarrow> map_res (serialize_room h) rs = Inr (map (room_json h) rs)"
proof (rule map_res_Inr)
  fix r assume "list_all (room_ok h) rs" and "r \<in> set rs"
  then have "room_ok h r" by (simp add: list_all_iff)
  then show "serialize_room h r = Inr (room_json h r)"
    using category_of_ok [of h r] by (auto simp: serialize_room_def room_json_def)
qed

lemma read_categories:
  "distinct (map cat_shortCode (hotel_categories h @ cs)) \<Longrightarrow> list_all object_ints cs \<Longrightarrow>
     fold_res read_category (map serialize_category cs) h = Inr (h\<lparr>hotel_categories := hotel_categories h @ cs\<rparr>)"
proof (induction cs arbitrary: h)
  case (Cons c cs)
  have "getCategoryByShortCode (cat_shortCode c) h = None"
    using Cons.prems(1) by (auto simp: getCategoryByShortCode_None)
  then have "read_category (serialize_category c) h = Inr (h\<lparr>hotel_categories := hotel_categories h @ [c]\<rparr>)"
    using Cons.prems(2) by (simp add: read_category_def category_roundtrip addRoomCategory_def)
  then show ?case using Cons.IH [of "h\<lparr>hotel_categories := hotel_categories h @ [c]\<rparr>"] Cons.prems by simp
qed simp

lemma read_room_json:
  assumes "distinct (map cat_shortCode (hotel_categories h))" and "room_ok h r" and "object_ints r"
    and "hotel_categories k = hotel_categories h"
  shows "read_room (room_json h r) k = Inr (k\<lparr>hotel_rooms := hotel_rooms k @ [r]\<rparr>)"
proof -
  obtain i where i: "room_category r = Some i" "i < length (hotel_categories h)"
    using category_of_ok [OF assms(2)] by blast
  have "getCategoryByShortCode (cat_shortCode (hotel_categories h ! i)) k = Some i"
    using getCategoryByShortCode_key [of k i] assms(1,4) i(2) by simp
  moreover have "deserialize_room (room_json h r) = Inr (r\<lparr>room_category := None\<rparr>)"
    using assms(3) by (simp add: deserialize_room_def room_json_def string_at_def deserialize_object_of [of _ r]
        setRevision_def setId_def mk_hotel_room_def)
  moreover have "r\<lparr>room_category := Some i\<rparr> = r" using i(1) by simp
  ultimately show ?thesis
    using i by (simp add: read_room_def string_at_def addRoom_def) (simp add: room_json_def)
qed

lemma read_rooms:
  assumes "distinct (map cat_shortCode (hotel_categories h))"
  shows "list_all (room_ok h) rs \<Longrightarrow> list_all object_ints rs \<Longrightarrow> hotel_categories k = hotel_categories h \<Longrightarrow>
    fold_res read_room (map (room_json h) rs) k = Inr (k\<lparr>hotel_rooms := hotel_rooms k @ rs\<rparr>)"
  by (induction rs arbitrary: k) (simp_all add: read_room_json [OF assms])

lemma hotel_roundtrip:
  assumes "hotel_ok h" and "hotel_ints h"
  shows "\<exists>j. serialize_hotel h = Inr j \<and> is_object j \<and> deserialize_hotel j = Inr h"
proof -
  have ok: "distinct (map cat_shortCode (hotel_categories h))" "list_all (room_ok h) (hotel_rooms h)"
    using assms(1) by (simp_all add: hotel_ok_def)
  have ints: "object_ints h" "list_all object_ints (hotel_categories h)" "list_all object_ints (hotel_rooms h)"
    using assms(2) by (simp_all add: hotel_ints_def)
  let ?j = "json_set ''rooms'' (JArray (map (room_json h) (hotel_rooms h)))
             (json_set ''categories'' (JArray (map serialize_category (hotel_categories h)))
               (json_set ''name'' (JString (hotel_name h)) (serialize_object h)))"
  let ?k = "(mk_hotel (hotel_name h))\<lparr>obj_id := obj_id h, obj_revision := obj_revision h\<rparr>"
  have start: "deserialize_object ?j (mk_hotel (hotel_name h)) = Inr ?k"
    using ints(1) by (simp add: deserialize_object_of [of _ h] setRevision_def setId_def)
  have cats: "fold_res read_category (map serialize_category (hotel_categories h)) ?k
      = Inr (?k\<lparr>hotel_categories := hotel_categories h\<rparr>)"
    using read_categories [of ?k "hotel_categories h"] ok(1) ints(2) by (simp add: mk_hotel_def)
  have rooms: "fold_res read_room (map (room_json h) (hotel_rooms h)) (?k\<lparr>hotel_categories := hotel_categories h\<rparr>)
      = Inr (?k\<lparr>hotel_categories := hotel_categories h, hotel_rooms := hotel_rooms h\<rparr>)"
    using read_rooms [OF ok(1,2) ints(3), of "?k\<lparr>hotel_categories := hotel_categories h\<rparr>"]
    by (simp add: mk_hotel_def)
  have "serialize_hotel h = Inr ?j" using serialize_rooms [OF ok(2)] by (simp add: serialize_hotel_def)
  moreover have "deserialize_hotel ?j = Inr h"
    by (simp add: deserialize_hotel_def string_at_def start cats rooms) (simp add: mk_hotel_def)
  ultimately show ?thesis by simp
qed

text \<open>Reservations: the owner is not written, and adding the atoms gives them fresh identities.\<close>

definition wire_atom :: "'p reservation_atom \<Rightarrow> 'p reservation_atom" where
  "wire_atom a = mk_atom (atom_room a) (atom_range a)"

definition wire_reservation :: "'p reservation \<Rightarrow> 'p reservation" where
  "wire_reservation r = r\<lparr>res_owner := None, res_atoms := map wire_atom (res_atoms r)\<rparr>"

lemma wire_atom_simps [simp]: "atom_room (wire_atom a) = atom_room a" "atom_range (wire_atom a) = atom_range a"
  by (simp_all add: wire_atom_def mk_atom_def)

lemma read_atoms:
  assumes G: "gregorian_ok G"
  shows "list_all (\<lambda>a. object_ints a \<and> int32 (atom_room a)) as \<Longrightarrow> chain G (res_atoms r @ as) \<Longrightarrow>
    fold_res (read_atom G) (map (serialize_atom G) as) r = Inr (r\<lparr>res_atoms := res_atoms r @ map wire_atom as\<rparr>)"
proof (induction as arbitrary: r rule: list.induct)
  case (Cons a as)
  have a: "period_ok G (atom_range a)" using Cons.prems(2) by (intro chain_period_ok [of G _ a]) auto
  have "res_atoms r = [] \<or> p_end G (atom_range (last (res_atoms r))) = p_begin G (atom_range a)"
    using Cons.prems(2) by (auto simp: chain_append)
  then have "read_atom G (serialize_atom G a) r = Inr (r\<lparr>res_atoms := res_atoms r @ [wire_atom a]\<rparr>)"
    using atom_roundtrip [OF G a] Cons.prems(1) a g_not_null [OF G a]
    by (auto simp: read_atom_def addAtomCopy_def addAtom_def lastAtom_eq wire_atom_def)
  moreover have "chain G (res_atoms (r\<lparr>res_atoms := res_atoms r @ [wire_atom a]\<rparr>) @ as)"
    using Cons.prems(2) by (cases as) (auto simp: chain_append)
  ultimately show ?case
    using Cons.IH [of "r\<lparr>res_atoms := res_atoms r @ [wire_atom a]\<rparr>"] Cons.prems(1) by simp
qed simp

lemma is_object_reservation [simp]: "is_object (serialize_reservation G r)"
  by (simp add: serialize_reservation_def)

lemma reservation_roundtrip:
  fixes G :: "('d::linorder, 'p) gregorian" and r :: "'p reservation"
  assumes G: "gregorian_ok G" and "chain G (res_atoms r)" and "reservation_ints r"
  shows "deserialize_reservation G (serialize_reservation G r) = Inr (wire_reservation r)"
proof -
  have ints: "object_ints r" "int32 (res_adults r)" "int32 (res_children r)"
      "list_all (\<lambda>a. object_ints a \<and> int32 (atom_room a)) (res_atoms r)"
    using assms(3) by (simp_all add: reservation_ints_def)
  let ?k = "(mk_reservation (res_description r) :: 'p reservation)\<lparr>obj_id := obj_id r, obj_revision := obj_revision r\<rparr>"
  have obj: "deserialize_object (serialize_reservation G r) x
      = Inr (x\<lparr>obj_id := obj_id r, obj_revision := obj_revision r\<rparr>)" for x :: "'p reservation"
    using deserialize_object_of [of "serialize_reservation G r" r x] ints(1)
    by (simp add: serialize_reservation_def setRevision_def setId_def)
  have atoms: "fold_res (read_atom G) (map (serialize_atom G) (res_atoms r))
      (?k\<lparr>res_status := res_status r, res_adults := res_adults r, res_children := res_children r\<rparr>)
      = Inr (?k\<lparr>res_status := res_status r, res_adults := res_adults r, res_children := res_children r,
              res_atoms := map wire_atom (res_atoms r)\<rparr>)"
    using read_atoms [OF G ints(4), of "?k\<lparr>res_status := res_status r, res_adults := res_adults r, res_children := res_children r\<rparr>"]
      assms(2) by (simp add: mk_reservation_def)
  have at: "json_at (serialize_reservation G r) ''description'' = Inr (JString (res_description r))"
      "json_at (serialize_reservation G r) ''status'' = Inr (serialize_status (res_status r))"
      "json_at (serialize_reservation G r) ''adults'' = Inr (JInt (res_adults r))"
      "json_at (serialize_reservation G r) ''children'' = Inr (JInt (res_children r))"
      "json_at (serialize_reservation G r) ''atoms'' = Inr (JArray (map (serialize_atom G) (res_atoms r)))"
    by (simp_all add: serialize_reservation_def)
  show ?thesis
    by (simp only: deserialize_reservation_def string_at_def int_at_def at status_roundtrip bindr_Inr
          json_string_JString json_int_JInt to_int32_id ints json_elems_JArray atoms obj)
       (simp add: mk_reservation_def wire_reservation_def)
qed

section \<open>Operations survive the trip\<close>

text \<open>The operations that can be written and read: hotels well formed, reservations contiguous, no persons.\<close>

definition item_ok :: "('d::linorder, 'p) gregorian \<Rightarrow> 'p streamable \<Rightarrow> bool" where
  "item_ok G item = (case item of HotelItem h \<Rightarrow> hotel_ok h \<and> hotel_ints h
     | ReservationItem r \<Rightarrow> chain G (res_atoms r) \<and> reservation_ints r | PersonItem _ \<Rightarrow> False)"

definition operation_ok :: "('d::linorder, 'p) gregorian \<Rightarrow> 'p operation \<Rightarrow> bool" where
  "operation_ok G operation = (case operation of EraseAllData \<Rightarrow> True | StoreNew i \<Rightarrow> item_ok G i
     | Update i \<Rightarrow> item_ok G i | Delete t i \<Rightarrow> int32 i)"

definition wire_item :: "'p streamable \<Rightarrow> 'p streamable" where
  "wire_item item = (case item of ReservationItem r \<Rightarrow> ReservationItem (wire_reservation r) | _ \<Rightarrow> item)"

definition wire_operation :: "'p operation \<Rightarrow> 'p operation" where
  "wire_operation operation = (case operation of StoreNew i \<Rightarrow> StoreNew (wire_item i)
     | Update i \<Rightarrow> Update (wire_item i) | _ \<Rightarrow> operation)"

lemma item_op_roundtrip:
  assumes "gregorian_ok G" and "item_ok G item"
  shows "\<exists>j. serialize_item_op G name item = Inr j \<and> json_at j ''op'' = Inr (JString name)
    \<and> deserialize_item G j = Inr (wire_item item)"
proof (cases item)
  case (HotelItem h)
  then obtain j where "serialize_hotel h = Inr j" "deserialize_hotel j = Inr h"
    using assms(2) hotel_roundtrip [of h] by (auto simp: item_ok_def)
  then show ?thesis
    using HotelItem type_roundtrip [of HotelType]
    by (simp add: serialize_item_op_def serialize_item_def deserialize_item_def getStreamableType_def wire_item_def)
next
  case (ReservationItem r)
  then have "deserialize_reservation G (serialize_reservation G r) = Inr (wire_reservation r)"
    using assms reservation_roundtrip by (auto simp: item_ok_def)
  then show ?thesis
    using ReservationItem type_roundtrip [of ReservationType]
    by (simp add: serialize_item_op_def serialize_item_def deserialize_item_def getStreamableType_def wire_item_def)
next
  case (PersonItem p)
  then show ?thesis using assms(2) by (simp add: item_ok_def)
qed

lemma operation_roundtrip:
  assumes "gregorian_ok G" and "operation_ok G operation"
  shows "\<exists>j. serialize_operation G operation = Inr j \<and> deserialize_operation G j = Inr (wire_operation operation)"
proof (cases operation)
  case (StoreNew item)
  then have "item_ok G item" using assms(2) by (simp add: operation_ok_def)
  then obtain j where j: "serialize_item_op G ''store'' item = Inr j" "json_at j ''op'' = Inr (JString ''store'')"
      "deserialize_item G j = Inr (wire_item item)"
    using item_op_roundtrip [OF assms(1)] by blast
  have "serialize_operation G operation = Inr j" using j(1) StoreNew by (simp add: serialize_operation_def)
  moreover have "deserialize_operation G j = Inr (StoreNew (wire_item item))"
    by (simp add: deserialize_operation_def string_at_def j)
  ultimately show ?thesis using StoreNew by (simp add: wire_operation_def)
next
  case (Update item)
  then have "item_ok G item" using assms(2) by (simp add: operation_ok_def)
  then obtain j where j: "serialize_item_op G ''update'' item = Inr j" "json_at j ''op'' = Inr (JString ''update'')"
      "deserialize_item G j = Inr (wire_item item)"
    using item_op_roundtrip [OF assms(1)] by blast
  have "serialize_operation G operation = Inr j" using j(1) Update by (simp add: serialize_operation_def)
  moreover have "deserialize_operation G j = Inr (Update (wire_item item))"
    by (simp add: deserialize_operation_def string_at_def j)
  ultimately show ?thesis using Update by (simp add: wire_operation_def)
next
  case (Delete t i)
  then show ?thesis
    using assms(2) type_roundtrip [of t]
    by (simp add: operation_ok_def serialize_operation_def deserialize_operation_def string_at_def int_at_def
        wire_operation_def)
qed (simp add: serialize_operation_def deserialize_operation_def string_at_def wire_operation_def)

section \<open>Properties\<close>

text \<open>C30 Writing a well-formed hotel as JSON never follows a null pointer, and reading the result gives back
  exactly the same hotel, ids, revisions and category pointers included.\<close>

theorem hotel_json_roundtrip:
  assumes "hotel_ok h" and "hotel_ints h"
  shows "bindr (serialize_hotel h) deserialize_hotel = Inr h"
  using hotel_roundtrip [OF assms] by auto

theorem hotel_json_roundtrip_witness: "bindr (serialize_hotel demo_hotel) deserialize_hotel = Inr demo_hotel"
  by (rule hotel_json_roundtrip [OF demo_hotel_ok])
     (simp add: demo_hotel_def hotel_ints_def object_ints_def int32_def mk_hotel_def mk_room_category_def mk_hotel_room_def)

text \<open>C29 A reservation with contiguous atoms written as JSON reads back equal except for what the format drops:
  the owner and the ids and revisions of the atoms.  In particular it compares equal to the original whenever
  the original has no owner.\<close>

theorem reservation_json_roundtrip:
  assumes "gregorian_ok G" and "chain G (res_atoms r)" and "reservation_ints r"
  shows "deserialize_reservation G (serialize_reservation G r) = Inr (wire_reservation r)
    \<and> (reservation_eq (wire_reservation r) r \<longleftrightarrow> res_owner r = None)"
proof -
  have "list_all2 atom_eq (map wire_atom xs) xs" for xs :: "'b reservation_atom list"
    by (induction xs) (simp_all add: atom_eq_def)
  then show ?thesis
    using reservation_roundtrip [OF assms] by (auto simp: reservation_eq_def wire_reservation_def)
qed

theorem reservation_json_roundtrip_witness:
  "deserialize_reservation day_calendar (serialize_reservation day_calendar demo_stay) = Inr (wire_reservation demo_stay)"
  using reservation_json_roundtrip [of day_calendar demo_stay]
  by (simp add: demo_stay_def mk_atom_def mk_reservation_def period_ok_def reservation_ints_def object_ints_def int32_def)

text \<open>C31 Every operation without a person, with a well-formed hotel or a contiguous reservation, survives the
  trip to the server: the operation read is the operation written, up to what the reservation format drops.\<close>

theorem operation_json_roundtrip:
  assumes "gregorian_ok G" and "operation_ok G operation"
  shows "bindr (serialize_operation G operation) (deserialize_operation G) = Inr (wire_operation operation)"
  using operation_roundtrip [OF assms] by auto

theorem operation_json_roundtrip_witness:
  "bindr (serialize_operation day_calendar (Delete ReservationType 5)) (deserialize_operation day_calendar)
     = Inr (Delete ReservationType 5)"
  using operation_json_roundtrip [of day_calendar "Delete ReservationType 5"]
  by (simp add: operation_ok_def int32_def wire_operation_def)

end
