(* ===== verification/NetSerializer.thy ===== *)
theory NetSerializer
  imports JsonSerializer
begin

text \<open>
  \<open>persistence::net::JsonSerializer\<close>: the messages a server sends about a stream or about finished
  tasks, and how the client reads them.
\<close>

section \<open>Data\<close>

text \<open>\<open>TaskResultStatus\<close> is cast from an \<open>int\<close>, so it may hold other values than its enumerators.\<close>

datatype task_status = Successful | Error | OtherStatus int

definition status_int :: "task_status \<Rightarrow> int" where
  "status_int s = (case s of Successful \<Rightarrow> 0 | Error \<Rightarrow> 1 | OtherStatus i \<Rightarrow> i)"

definition int_status :: "int \<Rightarrow> task_status" where
  "int_status i = (if i = 0 then Successful else if i = 1 then Error else OtherStatus i)"

record task_result =
  task_status :: task_status
  task_data :: json

section \<open>Writing\<close>

definition serializeListType :: "'p streamable_items \<Rightarrow> string" where
  "serializeListType items = (case items of HotelItems _ \<Rightarrow> ''hotel'' | ReservationItems _ \<Rightarrow> ''reservation'')"

definition serialize_items :: "('d::linorder, 'p) gregorian \<Rightarrow> 'p streamable_items \<Rightarrow> json res" where
  "serialize_items G items =
     (case items of
        HotelItems hs \<Rightarrow> bindr (map_res serialize_hotel hs) (\<lambda>xs. Inr (JArray xs))
      | ReservationItems rs \<Rightarrow> Inr (JArray (map (serialize_reservation G) rs)))"

definition serializeStreamAddMessage ::
    "('d::linorder, 'p) gregorian \<Rightarrow> int \<Rightarrow> 'p streamable_items \<Rightarrow> json res" where
  "serializeStreamAddMessage G streamId items =
     bindr (serialize_items G items) (\<lambda>xs.
       Inr (json_set ''items'' xs (json_object [(''op'', JString ''stream_add''),
              (''type'', JString (serializeListType items)), (''id'', JInt streamId)])))"

definition serializeStreamUpdateMessage ::
    "('d::linorder, 'p) gregorian \<Rightarrow> int \<Rightarrow> 'p streamable_items \<Rightarrow> json res" where
  "serializeStreamUpdateMessage G streamId items =
     bindr (serialize_items G items) (\<lambda>xs.
       Inr (json_set ''items'' xs (json_object [(''op'', JString ''stream_update''),
              (''type'', JString (serializeListType items)), (''id'', JInt streamId)])))"

definition serializeStreamRemoveMessage :: "int \<Rightarrow> int list \<Rightarrow> json" where
  "serializeStreamRemoveMessage streamId ids =
     json_object [(''op'', JString ''stream_remove''), (''id'', JInt streamId), (''items'', JArray (map JInt ids))]"

definition serializeStreamClearMessage :: "int \<Rightarrow> json" where
  "serializeStreamClearMessage streamId = json_object [(''op'', JString ''stream_clear''), (''id'', JInt streamId)]"

definition serializeStreamInitializeMessage :: "int \<Rightarrow> json" where
  "serializeStreamInitializeMessage streamId =
     json_object [(''op'', JString ''stream_initialize''), (''id'', JInt streamId)]"

definition serialize_result :: "task_result \<Rightarrow> json" where
  "serialize_result item =
     json_object [(''status'', JInt (status_int (task_status item))), (''data'', task_data item)]"

definition serializeTaskResultsMessage :: "int \<Rightarrow> task_result list \<Rightarrow> json" where
  "serializeTaskResultsMessage taskId items =
     json_set ''results'' (JArray (map serialize_result items))
       (json_set ''id'' (JInt taskId) (json_set ''op'' (JString ''task_results'') (JObject [])))"

section \<open>Reading\<close>

definition deserializeStreamableItems ::
    "('d::linorder, 'p) gregorian \<Rightarrow> string \<Rightarrow> json \<Rightarrow> 'p streamable_items res" where
  "deserializeStreamableItems G type array =
     (if type = ''hotel'' then
        bindr (map_res deserialize_hotel (json_elems array)) (\<lambda>hs. Inr (HotelItems hs))
      else if type = ''reservation'' then
        bindr (map_res (deserialize_reservation G) (json_elems array)) (\<lambda>rs. Inr (ReservationItems rs))
      else Inl AssertFailed)"

definition read_items_message ::
    "('d::linorder, 'p) gregorian \<Rightarrow> string \<Rightarrow> json \<Rightarrow> (int \<times> 'p streamable_items) res" where
  "read_items_message G name j =
     bindr (json_at j ''op'') (\<lambda>operation. assert_that (operation = JString name)
       (bindr (int_at j ''id'') (\<lambda>i.
        bindr (string_at j ''type'') (\<lambda>type.
        bindr (json_at j ''items'') (\<lambda>array.
        bindr (deserializeStreamableItems G type array) (\<lambda>items. Inr (i, items)))))))"

definition deserializeStreamAddMessage ::
    "('d::linorder, 'p) gregorian \<Rightarrow> json \<Rightarrow> (int \<times> 'p streamable_items) res" where
  "deserializeStreamAddMessage G j = read_items_message G ''stream_add'' j"

definition deserializeStreamUpdateMessage ::
    "('d::linorder, 'p) gregorian \<Rightarrow> json \<Rightarrow> (int \<times> 'p streamable_items) res" where
  "deserializeStreamUpdateMessage G j = read_items_message G ''stream_update'' j"

definition deserialize_result :: "json \<Rightarrow> task_result res" where
  "deserialize_result j =
     bindr (int_at j ''status'') (\<lambda>st. bindr (json_at j ''data'') (\<lambda>d.
       Inr \<lparr>task_status = int_status st, task_data = d\<rparr>))"

definition deserializeTaskResultsMessage :: "json \<Rightarrow> (int \<times> task_result list) res" where
  "deserializeTaskResultsMessage j =
     bindr (int_at j ''id'') (\<lambda>i. bindr (json_at j ''results'') (\<lambda>rs.
     bindr (map_res deserialize_result (json_elems rs)) (\<lambda>results. Inr (i, results))))"

text \<open>\<open>std::vector<int> ids = json\<close>.\<close>

definition json_int_list :: "json \<Rightarrow> int list res" where
  "json_int_list j = (case j of JArray xs \<Rightarrow> map_res json_int xs | _ \<Rightarrow> Inl JsonTypeError)"

section \<open>Round trips\<close>

definition items_ok :: "('d::linorder, 'p) gregorian \<Rightarrow> 'p streamable_items \<Rightarrow> bool" where
  "items_ok G items = (case items of
       HotelItems hs \<Rightarrow> list_all (\<lambda>h. hotel_ok h \<and> hotel_ints h) hs
     | ReservationItems rs \<Rightarrow> list_all (\<lambda>r. chain G (res_atoms r) \<and> reservation_ints r) rs)"

definition wire_items :: "'p streamable_items \<Rightarrow> 'p streamable_items" where
  "wire_items items = (case items of HotelItems hs \<Rightarrow> HotelItems hs
     | ReservationItems rs \<Rightarrow> ReservationItems (map wire_reservation rs))"

definition result_ok :: "task_result \<Rightarrow> bool" where
  "result_ok r \<longleftrightarrow> int32 (status_int (task_status r)) \<and> (\<forall>i. task_status r = OtherStatus i \<longrightarrow> i \<notin> {0, 1})"

lemma hotels_roundtrip:
  "list_all (\<lambda>h. hotel_ok h \<and> hotel_ints h) hs \<Longrightarrow>
     \<exists>js. map_res serialize_hotel hs = Inr js \<and> map_res deserialize_hotel js = Inr hs"
proof (induction hs)
  case (Cons h hs)
  obtain j where "serialize_hotel h = Inr j" "deserialize_hotel j = Inr h"
    using Cons.prems hotel_roundtrip [of h] by auto
  moreover obtain js where "map_res serialize_hotel hs = Inr js" "map_res deserialize_hotel js = Inr hs"
    using Cons by auto
  ultimately show ?case by simp
qed simp

lemma items_roundtrip:
  assumes "gregorian_ok G" and "items_ok G items"
  shows "\<exists>xs. serialize_items G items = Inr xs
    \<and> deserializeStreamableItems G (serializeListType items) xs = Inr (wire_items items)"
proof (cases items)
  case (HotelItems hs)
  then obtain js where "map_res serialize_hotel hs = Inr js" "map_res deserialize_hotel js = Inr hs"
    using assms(2) hotels_roundtrip [of hs] by (auto simp: items_ok_def)
  then show ?thesis using HotelItems
    by (simp add: serialize_items_def deserializeStreamableItems_def serializeListType_def wire_items_def)
next
  case (ReservationItems rs)
  then have "map_res (deserialize_reservation G) (map (serialize_reservation G) rs) = Inr (map wire_reservation rs)"
    using assms by (subst map_res_map, intro map_res_Inr)
      (auto simp: items_ok_def list_all_iff reservation_roundtrip)
  then show ?thesis using ReservationItems
    by (simp add: serialize_items_def deserializeStreamableItems_def serializeListType_def wire_items_def)
qed

lemma json_object_simps [simp]:
  "json_object [] = JObject []"
  "json_object (kvs @ [kv]) = json_set (fst kv) (snd kv) (json_object kvs)"
  by (simp_all add: json_object_def split: prod.split)

lemma json_object_2: "json_object [a, b] = json_set (fst b) (snd b) (json_set (fst a) (snd a) (JObject []))"
  using json_object_simps(2) [of "[a]" b] json_object_simps(2) [of "[]" a] by simp

lemma json_object_3:
  "json_object [a, b, c] = json_set (fst c) (snd c) (json_set (fst b) (snd b) (json_set (fst a) (snd a) (JObject [])))"
  using json_object_simps(2) [of "[a, b]" c] json_object_2 by simp

lemma items_message_roundtrip:
  assumes "gregorian_ok G" and "items_ok G items" and "int32 i"
  shows "\<exists>j. bindr (serialize_items G items) (\<lambda>xs. Inr (json_set ''items'' xs (json_object [(''op'', JString name),
              (''type'', JString (serializeListType items)), (''id'', JInt i)]))) = Inr j
    \<and> string_at j ''op'' = Inr name \<and> read_items_message G name j = Inr (i, wire_items items)"
proof -
  obtain xs where "serialize_items G items = Inr xs"
      "deserializeStreamableItems G (serializeListType items) xs = Inr (wire_items items)"
    using items_roundtrip [OF assms(1,2)] by blast
  then show ?thesis
    using assms(3) by (simp add: json_object_3 read_items_message_def string_at_def int_at_def)
qed

lemma status_int_roundtrip: "result_ok r \<Longrightarrow> int_status (status_int (task_status r)) = task_status r"
  by (cases "task_status r") (auto simp: result_ok_def status_int_def int_status_def)

lemma result_roundtrip: "result_ok r \<Longrightarrow> deserialize_result (serialize_result r) = Inr r"
  using status_int_roundtrip [of r]
  by (simp add: deserialize_result_def serialize_result_def int_at_def json_object_2 result_ok_def)

lemma results_message_roundtrip:
  assumes "int32 i" and "list_all result_ok rs"
  shows "deserializeTaskResultsMessage (serializeTaskResultsMessage i rs) = Inr (i, rs)"
proof -
  have "map_res deserialize_result (map serialize_result rs) = Inr (map (\<lambda>r. r) rs)"
    using assms(2) by (subst map_res_map, intro map_res_Inr) (simp add: list_all_iff result_roundtrip)
  then show ?thesis
    using assms(1) by (simp add: deserializeTaskResultsMessage_def serializeTaskResultsMessage_def int_at_def)
qed

lemma int_list_roundtrip: "list_all int32 ids \<Longrightarrow> json_int_list (JArray (map JInt ids)) = Inr ids"
  by (simp add: json_int_list_def map_res_map comp_def) (induction ids; simp)

end
