(* ===== verification/DataStreams.thy ===== *)
theory DataStreams
  imports Operations Json
begin

text \<open>
  \<open>persistence::DataStream\<close>, its observers and the handle that owns a stream.  Streams and observers
  are shared objects: a stream refers to its observer by address, the observers' states are a store.
  An observer is given by the record of its callbacks, so the stream code is stated once for every
  observer class; \<open>VectorDataStreamObserver\<close> is the one of the persistence library.
\<close>

section \<open>Streams\<close>

datatype stream_type = NullStream | HotelStream | ReservationStream

datatype 'p change =
    ItemsAdded "'p streamable_items"
  | ItemsUpdated "'p streamable_items"
  | ItemsRemoved "int list"
  | Initialized
  | Cleared

record data_stream =
  ds_id :: int
  ds_type :: stream_type
  ds_endpoint :: string
  ds_options :: json
  ds_initialized :: bool
  ds_observer :: "nat option"

definition mk_data_stream :: "stream_type \<Rightarrow> string \<Rightarrow> json \<Rightarrow> data_stream" where
  "mk_data_stream t endpoint options =
     \<lparr>ds_id = 0, ds_type = t, ds_endpoint = endpoint, ds_options = options, ds_initialized = False,
      ds_observer = None\<rparr>"

definition connect_stream :: "int \<Rightarrow> nat \<Rightarrow> data_stream \<Rightarrow> data_stream res" where
  "connect_stream i obs ds =
     assert_that (ds_id ds = 0) (assert_that (ds_observer ds = None)
       (Inr (ds\<lparr>ds_id := i, ds_observer := Some obs\<rparr>)))"

definition stream_isValid :: "data_stream \<Rightarrow> bool" where
  "stream_isValid ds = (ds_observer ds \<noteq> None)"

definition disconnect :: "data_stream \<Rightarrow> data_stream" where
  "disconnect ds = ds\<lparr>ds_observer := None\<rparr>"

section \<open>Observers\<close>

record ('p, 'o) observer_ops =
  on_add :: "'p streamable_items \<Rightarrow> 'o \<Rightarrow> 'o res"
  on_update :: "'p streamable_items \<Rightarrow> 'o \<Rightarrow> 'o res"
  on_remove :: "int list \<Rightarrow> 'o \<Rightarrow> 'o res"
  on_clear :: "'o \<Rightarrow> 'o res"
  on_initialized :: "'o \<Rightarrow> 'o res"

definition notify :: "('p, 'o) observer_ops \<Rightarrow> 'p change \<Rightarrow> 'o \<Rightarrow> 'o res" where
  "notify ops c obs =
     (case c of
        ItemsAdded items \<Rightarrow> on_add ops items obs
      | ItemsUpdated items \<Rightarrow> on_update ops items obs
      | ItemsRemoved ids \<Rightarrow> on_remove ops ids obs
      | Initialized \<Rightarrow> on_initialized ops obs
      | Cleared \<Rightarrow> on_clear ops obs)"

definition apply_change ::
    "('p, 'o) observer_ops \<Rightarrow> 'p change \<Rightarrow> data_stream \<times> (nat \<Rightarrow> 'o) \<Rightarrow> (data_stream \<times> (nat \<Rightarrow> 'o)) res" where
  "apply_change ops c sw =
     (case ds_observer (fst sw) of
        None \<Rightarrow> Inr sw
      | Some a \<Rightarrow>
          bindr (notify ops c (snd sw a)) (\<lambda>obs.
            Inr (if c = Initialized then (fst sw)\<lparr>ds_initialized := True\<rparr> else fst sw, (snd sw)(a := obs))))"

text \<open>
  \<open>VectorDataStreamObserver<T>\<close>: \<open>get\<close> is \<open>std::get\<close> on the variant of items, \<open>assign\<close> the assignment
  operator of \<open>T\<close>.
\<close>

definition vector_add :: "('p streamable_items \<Rightarrow> 'a list res) \<Rightarrow> 'p streamable_items \<Rightarrow> 'a list \<Rightarrow> 'a list res" where
  "vector_add get items xs = bindr (get items) (\<lambda>ys. Inr (xs @ ys))"

definition vector_update_one ::
    "('a \<Rightarrow> 'a \<Rightarrow> 'a res) \<Rightarrow> ('a \<Rightarrow> int) \<Rightarrow> 'a \<Rightarrow> 'a list \<Rightarrow> 'a list res" where
  "vector_update_one assign key y xs =
     (case find_index (\<lambda>x. key x = key y) xs of
        None \<Rightarrow> Inr xs
      | Some i \<Rightarrow> bindr (assign (xs ! i) y) (\<lambda>z. Inr (xs[i := z])))"

definition vector_update ::
    "('p streamable_items \<Rightarrow> 'a list res) \<Rightarrow> ('a \<Rightarrow> 'a \<Rightarrow> 'a res) \<Rightarrow> ('a \<Rightarrow> int) \<Rightarrow> 'p streamable_items \<Rightarrow> 'a list \<Rightarrow> 'a list res"
  where
  "vector_update get assign key items xs = bindr (get items) (\<lambda>ys. fold_res (vector_update_one assign key) ys xs)"

definition vector_remove :: "('a \<Rightarrow> int) \<Rightarrow> int list \<Rightarrow> 'a list \<Rightarrow> 'a list res" where
  "vector_remove key ids xs = Inr (filter (\<lambda>x. key x \<notin> set ids) xs)"

definition vector_ops ::
    "('p streamable_items \<Rightarrow> 'a list res) \<Rightarrow> ('a \<Rightarrow> 'a \<Rightarrow> 'a res) \<Rightarrow> ('a \<Rightarrow> int) \<Rightarrow> ('p, 'a list) observer_ops" where
  "vector_ops get assign key =
     \<lparr>on_add = vector_add get, on_update = vector_update get assign key, on_remove = vector_remove key,
      on_clear = (\<lambda>xs. Inr []), on_initialized = (\<lambda>xs. Inr xs)\<rparr>"

definition get_hotels :: "'p streamable_items \<Rightarrow> hotel list res" where
  "get_hotels items = (case items of HotelItems hs \<Rightarrow> Inr hs | _ \<Rightarrow> Inl BadVariantAccess)"

definition get_reservations :: "'p streamable_items \<Rightarrow> 'p reservation list res" where
  "get_reservations items = (case items of ReservationItems rs \<Rightarrow> Inr rs | _ \<Rightarrow> Inl BadVariantAccess)"

definition hotel_vector_ops :: "('p, hotel list) observer_ops" where
  "hotel_vector_ops = vector_ops get_hotels assign_hotel obj_id"

definition reservation_vector_ops :: "('p, 'p reservation list) observer_ops" where
  "reservation_vector_ops = vector_ops get_reservations (\<lambda>x y. Inr y) obj_id"

section \<open>Handles\<close>

text \<open>
  A handle owns the connection: resetting it disconnects its stream and tells the backend, whose
  \<open>removeStream\<close> acts on the backend's state \<open>'b\<close>.  Streams live in a store.
\<close>

record stream_handle =
  handle_backend :: "nat option"
  handle_stream :: "nat option"

definition empty_handle :: stream_handle where
  "empty_handle = \<lparr>handle_backend = None, handle_stream = None\<rparr>"

definition reset_handle ::
    "(data_stream \<Rightarrow> 'b \<Rightarrow> 'b) \<Rightarrow> stream_handle \<Rightarrow> (nat \<Rightarrow> data_stream) \<times> 'b \<Rightarrow> stream_handle \<times> (nat \<Rightarrow> data_stream) \<times> 'b" where
  "reset_handle removeStream h w =
     (empty_handle,
      case handle_stream h of
        None \<Rightarrow> w
      | Some a \<Rightarrow> let ds = disconnect (fst w a) in ((fst w)(a := ds), removeStream ds (snd w)))"

text \<open>Moving: the source keeps neither its backend nor, after the \<open>shared_ptr\<close> is moved, its stream.\<close>

definition move_handle ::
    "(data_stream \<Rightarrow> 'b \<Rightarrow> 'b) \<Rightarrow> stream_handle \<Rightarrow> stream_handle \<Rightarrow> (nat \<Rightarrow> data_stream) \<times> 'b
       \<Rightarrow> stream_handle \<times> stream_handle \<times> (nat \<Rightarrow> data_stream) \<times> 'b" where
  "move_handle removeStream this that w = (that, empty_handle, snd (reset_handle removeStream this w))"

section \<open>The contract of a mirror\<close>

text \<open>
  What an observer of reservations is for: its items, as a map from ids, follow the changes.  Items
  already present win over added ones with the same id; updates touch only present ids.
\<close>

definition update_one :: "'p reservation \<Rightarrow> (int \<rightharpoonup> 'p reservation) \<Rightarrow> (int \<rightharpoonup> 'p reservation)" where
  "update_one r m = (if obj_id r \<in> dom m then m(obj_id r \<mapsto> r) else m)"

definition items_map :: "'p reservation list \<Rightarrow> (int \<rightharpoonup> 'p reservation)" where
  "items_map rs = map_of (map (\<lambda>r. (obj_id r, r)) rs)"

definition mirror_step :: "'p change \<Rightarrow> (int \<rightharpoonup> 'p reservation) \<Rightarrow> (int \<rightharpoonup> 'p reservation)" where
  "mirror_step c m =
     (case c of
        ItemsAdded (ReservationItems rs) \<Rightarrow> items_map rs ++ m
      | ItemsUpdated (ReservationItems rs) \<Rightarrow> fold update_one rs m
      | ItemsRemoved ids \<Rightarrow> m |` (- set ids)
      | Cleared \<Rightarrow> Map.empty
      | _ \<Rightarrow> m)"

definition reservation_change :: "'p change \<Rightarrow> bool" where
  "reservation_change c = (case c of ItemsAdded (HotelItems _) \<Rightarrow> False | ItemsUpdated (HotelItems _) \<Rightarrow> False | _ \<Rightarrow> True)"

locale reservation_mirror =
  fixes ops :: "('p, 'o) observer_ops" and view :: "'o \<Rightarrow> (int \<rightharpoonup> 'p reservation)"
  assumes add_law: "\<exists>obs'. on_add ops (ReservationItems rs) obs = Inr obs' \<and> view obs' = items_map rs ++ view obs"
    and update_law: "\<exists>obs'. on_update ops (ReservationItems rs) obs = Inr obs' \<and> view obs' = fold update_one rs (view obs)"
    and remove_law: "\<exists>obs'. on_remove ops ids obs = Inr obs' \<and> view obs' = view obs |` (- set ids)"
    and clear_law: "\<exists>obs'. on_clear ops obs = Inr obs' \<and> view obs' = Map.empty"
    and initialized_law: "\<exists>obs'. on_initialized ops obs = Inr obs' \<and> view obs' = view obs"
begin

lemma notify_step: "reservation_change c \<Longrightarrow> \<exists>obs'. notify ops c obs = Inr obs' \<and> view obs' = mirror_step c (view obs)"
  using add_law update_law remove_law clear_law initialized_law
  by (cases c) (auto simp: notify_def mirror_step_def reservation_change_def split: streamable_items.splits)

lemma notify_all:
  "list_all reservation_change cs \<Longrightarrow>
     \<exists>obs'. fold_res (notify ops) cs obs = Inr obs' \<and> view obs' = fold mirror_step cs (view obs)"
proof (induction cs arbitrary: obs)
  case (Cons c cs)
  obtain obs1 where "notify ops c obs = Inr obs1" "view obs1 = mirror_step c (view obs)"
    using notify_step Cons.prems by auto
  then show ?case using Cons.IH [of obs1] Cons.prems by auto
qed simp

text \<open>A connected stream passes every change on to its observer and keeps its identity.\<close>

lemma stream_step:
  assumes "ds_observer ds = Some a" and "reservation_change c"
  shows "\<exists>ds' os'. apply_change ops c (ds, os) = Inr (ds', os') \<and> ds_observer ds' = Some a \<and> ds_id ds' = ds_id ds
     \<and> view (os' a) = mirror_step c (view (os a)) \<and> (\<forall>b. b \<noteq> a \<longrightarrow> os' b = os b)
     \<and> ds_initialized ds' = (ds_initialized ds \<or> c = Initialized)"
proof -
  obtain obs' where "notify ops c (os a) = Inr obs'" "view obs' = mirror_step c (view (os a))"
    using notify_step [OF assms(2)] by blast
  then show ?thesis using assms(1) by (auto simp: apply_change_def)
qed

lemma stream_follows:
  "list_all reservation_change cs \<Longrightarrow> ds_observer ds = Some a \<Longrightarrow>
     \<exists>ds' os'. fold_res (apply_change ops) cs (ds, os) = Inr (ds', os')
       \<and> view (os' a) = fold mirror_step cs (view (os a)) \<and> (\<forall>b. b \<noteq> a \<longrightarrow> os' b = os b)
       \<and> ds_initialized ds' = (ds_initialized ds \<or> Initialized \<in> set cs)"
proof (induction cs arbitrary: ds os)
  case (Cons c cs)
  obtain ds1 os1 where s: "apply_change ops c (ds, os) = Inr (ds1, os1)" "ds_observer ds1 = Some a"
      "view (os1 a) = mirror_step c (view (os a))" "\<forall>b. b \<noteq> a \<longrightarrow> os1 b = os b"
      "ds_initialized ds1 = (ds_initialized ds \<or> c = Initialized)"
    using stream_step [OF Cons.prems(2), of c os] Cons.prems(1) by auto
  obtain ds2 os2 where t: "fold_res (apply_change ops) cs (ds1, os1) = Inr (ds2, os2)"
      "view (os2 a) = fold mirror_step cs (view (os1 a))" "\<forall>b. b \<noteq> a \<longrightarrow> os2 b = os1 b"
      "ds_initialized ds2 = (ds_initialized ds1 \<or> Initialized \<in> set cs)"
    using Cons.IH [OF _ s(2), of os1] Cons.prems(1) by auto
  have "fold_res (apply_change ops) (c # cs) (ds, os) = Inr (ds2, os2)" using s(1) t(1) by simp
  then show ?case using s t by auto
qed simp

end

lemma items_map_append: "items_map (xs @ ys) = items_map ys ++ items_map xs"
  by (simp add: items_map_def)

lemma items_map_filter: "items_map (filter (\<lambda>x. obj_id x \<notin> S) xs) = items_map xs |` (- S)"
proof (induction xs)
  case (Cons x xs)
  then show ?case by (auto simp: items_map_def fun_eq_iff restrict_map_def)
qed (simp add: items_map_def)

lemma items_map_update:
  "find_index (\<lambda>x. obj_id x = obj_id r) xs = Some i \<Longrightarrow> items_map (xs[i := r]) = (items_map xs)(obj_id r \<mapsto> r)"
proof (induction xs arbitrary: i)
  case (Cons x xs)
  then show ?case by (auto simp: items_map_def fun_eq_iff split: if_splits)
qed simp

lemma items_map_dom: "obj_id r \<in> dom (items_map xs) \<longleftrightarrow> find_index (\<lambda>x. obj_id x = obj_id r) xs \<noteq> None"
  by (induction xs) (auto simp: items_map_def)

lemma vector_update_one_map:
  "\<exists>ys. vector_update_one (\<lambda>x y. Inr y) obj_id r xs = Inr ys \<and> items_map ys = update_one r (items_map xs)"
  by (cases "find_index (\<lambda>x. obj_id x = obj_id r) xs")
     (auto simp: vector_update_one_def update_one_def items_map_dom items_map_update)

lemma vector_update_map:
  "\<exists>ys. fold_res (vector_update_one (\<lambda>x y. Inr y) obj_id) rs xs = Inr ys \<and> items_map ys = fold update_one rs (items_map xs)"
proof (induction rs arbitrary: xs)
  case (Cons r rs)
  obtain ys where "vector_update_one (\<lambda>x y. Inr y) obj_id r xs = Inr ys" "items_map ys = update_one r (items_map xs)"
    using vector_update_one_map by blast
  then show ?case using Cons.IH [of ys] by auto
qed simp

interpretation reservation_vector: reservation_mirror reservation_vector_ops items_map
  by unfold_locales
     (simp_all add: reservation_vector_ops_def vector_ops_def vector_add_def vector_update_def vector_remove_def
        get_reservations_def items_map_append items_map_filter vector_update_map, simp add: items_map_def)

section \<open>Properties\<close>

text \<open>C33 Updating a hotel through the vector of hotels does not replace it: the assignment it uses appends, so
  after the update the hotel in the vector has the old categories followed by the new ones, and the rooms of
  both.\<close>

theorem hotel_update_appends:
  assumes "hotel_ok g" and "obj_id h = obj_id g"
  shows "\<exists>k. on_update hotel_vector_ops (HotelItems [g]) [h] = Inr [k]
    \<and> hotel_categories k = hotel_categories h @ hotel_categories g
    \<and> length (hotel_rooms k) = length (hotel_rooms h) + length (hotel_rooms g)"
  using assign_hotel_appends [OF assms(1), of h] assms(2)
  by (auto simp: hotel_vector_ops_def vector_ops_def vector_update_def get_hotels_def vector_update_one_def)

theorem hotel_update_appends_witness:
  "\<exists>k. on_update hotel_vector_ops (HotelItems [demo_hotel]) [demo_hotel] = Inr [k] \<and> length (hotel_categories k) = 2"
  using hotel_update_appends [OF demo_hotel_ok, of demo_hotel] by (auto simp: demo_hotel_def mk_hotel_def)

end
