(* ===== verification/ChangeQueue.thy ===== *)
theory ChangeQueue
  imports DataStreams
begin

text \<open>
  \<open>persistence::ChangeQueue\<close>: backends push stream changes from their thread, the owner of the
  observers applies them from its own.  Each access to the pending list happens under the mutex, so the
  operations are atomic steps on the state; \<open>cq_signals\<close> counts the emissions of the signal that tells
  the owner about new changes.
\<close>

section \<open>Model\<close>

type_synonym 'p differential = "int \<times> 'p change"

record 'p change_queue =
  cq_streams :: "nat list"
  cq_pending :: "'p differential list"
  cq_signals :: nat

definition empty_queue :: "'p change_queue" where
  "empty_queue = \<lparr>cq_streams = [], cq_pending = [], cq_signals = 0\<rparr>"

definition addStream :: "nat \<Rightarrow> 'p change_queue \<Rightarrow> 'p change_queue" where
  "addStream s q = q\<lparr>cq_streams := cq_streams q @ [s]\<rparr>"

definition hasUninitializedStreams :: "(nat \<Rightarrow> data_stream) \<Rightarrow> 'p change_queue \<Rightarrow> bool" where
  "hasUninitializedStreams H q = list_ex (\<lambda>s. \<not> ds_initialized (H s)) (cq_streams q)"

definition addChanges :: "'p differential list \<Rightarrow> 'p change_queue \<Rightarrow> 'p change_queue" where
  "addChanges l q =
     (if l \<noteq> [] then q\<lparr>cq_pending := cq_pending q @ l, cq_signals := Suc (cq_signals q)\<rparr> else q)"

definition addStreamChange :: "int \<Rightarrow> 'p change \<Rightarrow> 'p change_queue \<Rightarrow> 'p change_queue" where
  "addStreamChange streamId c q =
     q\<lparr>cq_pending := cq_pending q @ [(streamId, c)], cq_signals := Suc (cq_signals q)\<rparr>"

text \<open>
  Applying one change: the first stream with the id, if there is one.  \<open>H\<close> is the store of streams,
  \<open>os\<close> that of observers.
\<close>

definition dispatch ::
    "('p, 'o) observer_ops \<Rightarrow> nat list \<Rightarrow> 'p differential \<Rightarrow> (nat \<Rightarrow> data_stream) \<times> (nat \<Rightarrow> 'o)
       \<Rightarrow> ((nat \<Rightarrow> data_stream) \<times> (nat \<Rightarrow> 'o)) res" where
  "dispatch ops streams d w =
     (case find_index (\<lambda>s. ds_id (fst w s) = fst d) streams of
        None \<Rightarrow> Inr w
      | Some k \<Rightarrow>
          bindr (apply_change ops (snd d) (fst w (streams ! k), snd w)) (\<lambda>(ds, os).
            Inr ((fst w)(streams ! k := ds), os)))"

text \<open>First the streams without an observer are dropped, then the pending changes are taken and applied.\<close>

definition applyStreamChanges ::
    "('p, 'o) observer_ops \<Rightarrow> 'p change_queue \<times> (nat \<Rightarrow> data_stream) \<times> (nat \<Rightarrow> 'o)
       \<Rightarrow> ('p change_queue \<times> (nat \<Rightarrow> data_stream) \<times> (nat \<Rightarrow> 'o)) res" where
  "applyStreamChanges ops w =
     (let q = fst w;
          live = filter (\<lambda>s. stream_isValid (fst (snd w) s)) (cq_streams q)
      in bindr (fold_res (dispatch ops live) (cq_pending q) (snd w)) (\<lambda>w'.
           Inr (q\<lparr>cq_streams := live, cq_pending := []\<rparr>, w')))"

section \<open>Dispatch\<close>

definition changes_for :: "int \<Rightarrow> 'p differential list \<Rightarrow> 'p change list" where
  "changes_for i ds = map snd (filter (\<lambda>d. fst d = i) ds)"

text \<open>The streams of a queue: distinct ids, each with an observer of its own.\<close>

definition streams_ok :: "(nat \<Rightarrow> data_stream) \<Rightarrow> nat list \<Rightarrow> bool" where
  "streams_ok H ss \<longleftrightarrow> distinct ss \<and> distinct (map (\<lambda>s. ds_id (H s)) ss) \<and> distinct (map (\<lambda>s. ds_observer (H s)) ss)
     \<and> (\<forall>s \<in> set ss. ds_observer (H s) \<noteq> None)"

lemma streams_ok_cong:
  "streams_ok H ss \<Longrightarrow> (\<And>s. s \<in> set ss \<Longrightarrow> ds_id (K s) = ds_id (H s) \<and> ds_observer (K s) = ds_observer (H s)) \<Longrightarrow> streams_ok K ss"
  by (simp add: streams_ok_def cong: map_cong)

lemma notify_observer_id: "apply_change ops c (ds, os) = Inr (ds', os') \<Longrightarrow> ds_id ds' = ds_id ds \<and> ds_observer ds' = ds_observer ds"
  by (auto simp: apply_change_def split: option.splits if_splits)

lemma dispatch_hit:
  assumes "streams_ok H ss" and "s \<in> set ss" and "ds_observer (H s) = Some a"
    and "notify ops c (os a) = Inr x"
  shows "\<exists>H'. dispatch ops ss (ds_id (H s), c) (H, os) = Inr (H', os(a := x))
     \<and> (\<forall>t. ds_id (H' t) = ds_id (H t) \<and> ds_observer (H' t) = ds_observer (H t))"
proof -
  obtain k where k: "k < length ss" "s = ss ! k" using assms(2) by (metis in_set_conv_nth)
  have "find_index (\<lambda>t. ds_id (H t) = ds_id (H s)) ss = Some k"
    using find_index_key [of "\<lambda>t. ds_id (H t)" ss k] assms(1) k by (simp add: streams_ok_def)
  moreover have "apply_change ops c (H s, os)
      = Inr (if c = Initialized then (H s)\<lparr>ds_initialized := True\<rparr> else H s, os(a := x))"
    using assms(3,4) by (simp add: apply_change_def)
  ultimately show ?thesis using k by (auto simp: dispatch_def)
qed

lemma dispatch_miss:
  "i \<notin> (\<lambda>s. ds_id (H s)) ` set ss \<Longrightarrow> dispatch ops ss (i, c) (H, os) = Inr (H, os)"
proof -
  assume "i \<notin> (\<lambda>s. ds_id (H s)) ` set ss"
  then have "find_index (\<lambda>s. ds_id (H s) = i) ss = None" by (auto simp: find_index_None)
  then show ?thesis by (simp add: dispatch_def)
qed

text \<open>Every stream's observer sees its own changes, in the order in which they were queued.\<close>

lemma dispatch_all:
  assumes total: "\<And>c obs. notify ops c obs = Inr (f c obs)"
  shows "streams_ok H ss \<Longrightarrow>
    \<exists>H' os'. fold_res (dispatch ops ss) ds (H, os) = Inr (H', os')
      \<and> (\<forall>t. ds_id (H' t) = ds_id (H t) \<and> ds_observer (H' t) = ds_observer (H t))
      \<and> (\<forall>s \<in> set ss. \<forall>a. ds_observer (H s) = Some a \<longrightarrow> os' a = fold f (changes_for (ds_id (H s)) ds) (os a))
      \<and> (\<forall>a. Some a \<notin> (\<lambda>s. ds_observer (H s)) ` set ss \<longrightarrow> os' a = os a)"
proof (induction ds arbitrary: H os)
  case (Cons d ds)
  obtain i c where d: "d = (i, c)" by (cases d)
  show ?case
  proof (cases "i \<in> (\<lambda>s. ds_id (H s)) ` set ss")
    case True
    then obtain s where s: "s \<in> set ss" "i = ds_id (H s)" by auto
    obtain a where a: "ds_observer (H s) = Some a" using s(1) Cons.prems by (auto simp: streams_ok_def)
    obtain H1 where H1: "dispatch ops ss d (H, os) = Inr (H1, os(a := f c (os a)))"
        "\<forall>t. ds_id (H1 t) = ds_id (H t) \<and> ds_observer (H1 t) = ds_observer (H t)"
      using dispatch_hit [OF Cons.prems s(1) a total, of c os] d s(2) by auto
    have "streams_ok H1 ss" using streams_ok_cong [OF Cons.prems] H1(2) by blast
    then obtain H' os' where ih: "fold_res (dispatch ops ss) ds (H1, os(a := f c (os a))) = Inr (H', os')"
        "\<forall>t. ds_id (H' t) = ds_id (H1 t) \<and> ds_observer (H' t) = ds_observer (H1 t)"
        "\<forall>s \<in> set ss. \<forall>b. ds_observer (H1 s) = Some b \<longrightarrow> os' b = fold f (changes_for (ds_id (H1 s)) ds) ((os(a := f c (os a))) b)"
        "\<forall>b. Some b \<notin> (\<lambda>s. ds_observer (H1 s)) ` set ss \<longrightarrow> os' b = (os(a := f c (os a))) b"
      using Cons.IH by blast
    have "os' b = fold f (changes_for (ds_id (H t)) (d # ds)) (os b)"
      if t: "t \<in> set ss" "ds_observer (H t) = Some b" for t b
    proof (cases "t = s")
      case True
      then show ?thesis using ih(3) H1(2) t a s d by (auto simp: changes_for_def)
    next
      case False
      have "ds_id (H t) \<noteq> i" "b \<noteq> a"
        using Cons.prems False t s a unfolding streams_ok_def distinct_map inj_on_def by metis+
      then show ?thesis using ih(3) H1(2) t d by (auto simp: changes_for_def)
    qed
    moreover have "os' b = os b" if "Some b \<notin> (\<lambda>s. ds_observer (H s)) ` set ss" for b
      using ih(4) H1(2) that s(1) a by (auto simp: image_iff)
    moreover have "\<forall>t. ds_id (H' t) = ds_id (H t) \<and> ds_observer (H' t) = ds_observer (H t)"
      using ih(2) H1(2) by simp
    ultimately show ?thesis using H1(1) ih(1) by (intro exI [of _ H'] exI [of _ os']) simp
  next
    case False
    have "dispatch ops ss d (H, os) = Inr (H, os)" using dispatch_miss [OF False] d by simp
    moreover have "changes_for (ds_id (H s)) (d # ds) = changes_for (ds_id (H s)) ds" if "s \<in> set ss" for s
      using False that d by (auto simp: changes_for_def)
    ultimately show ?thesis using Cons.IH [OF Cons.prems, of os] by simp
  qed
qed (simp add: changes_for_def)

section \<open>Properties\<close>

text \<open>Applying the queue delivers to the observer of every stream that still has one exactly the pending
  changes with that stream's id, in the order they were queued, and nothing else: changes for unknown or
  disconnected streams are dropped, other observers are untouched, disconnected streams leave the queue and no
  change stays pending.\<close>

lemma applyStreamChanges_delivers:
  assumes "\<And>c obs. notify ops c obs = Inr (f c obs)"
    and "streams_ok H (filter (\<lambda>s. stream_isValid (H s)) (cq_streams q))"
  shows "\<exists>q' H' os'. applyStreamChanges ops (q, H, os) = Inr (q', H', os')
    \<and> cq_pending q' = [] \<and> cq_streams q' = filter (\<lambda>s. stream_isValid (H s)) (cq_streams q)
    \<and> (\<forall>s \<in> set (cq_streams q'). \<forall>a. ds_observer (H s) = Some a \<longrightarrow>
         os' a = fold f (changes_for (ds_id (H s)) (cq_pending q)) (os a))
    \<and> (\<forall>a. Some a \<notin> (\<lambda>s. ds_observer (H s)) ` set (cq_streams q') \<longrightarrow> os' a = os a)"
  using dispatch_all [OF assms(1,2), of "cq_pending q" os]
  by (auto simp: applyStreamChanges_def Let_def)

definition log_ops :: "('p, 'p change list) observer_ops" where
  "log_ops = \<lparr>on_add = (\<lambda>i l. Inr (l @ [ItemsAdded i])), on_update = (\<lambda>i l. Inr (l @ [ItemsUpdated i])),
     on_remove = (\<lambda>i l. Inr (l @ [ItemsRemoved i])), on_clear = (\<lambda>l. Inr (l @ [Cleared])),
     on_initialized = (\<lambda>l. Inr (l @ [Initialized]))\<rparr>"

lemma log_ops_total: "notify log_ops c l = Inr (l @ [c])"
  by (cases c) (simp_all add: notify_def log_ops_def)

end
