(* ===== verification/Framing.thy ===== *)
theory Framing
  imports Prelude "HOL-Library.Word"
begin

unbundle bit_operations_syntax

text \<open>
  The envelope both ends of the network protocol use: four bytes with the length of the message, least
  significant first, then the message.  Reading goes through two asynchronous reads in turn, of the
  header and of the body; each completes once that many bytes have arrived.
\<close>

section \<open>Envelope\<close>

type_synonym byte = "8 word"
type_synonym size_t = "64 word"

definition header :: "size_t \<Rightarrow> byte list" where
  "header sz = [ucast (drop_bit 0 sz AND 0xff), ucast (drop_bit 8 sz AND 0xff),
     ucast (drop_bit 16 sz AND 0xff), ucast (drop_bit 24 sz AND 0xff)]"

definition frame :: "byte list \<Rightarrow> byte list" where
  "frame message = header (word_of_nat (length message)) @ message"

definition header_size :: "byte list \<Rightarrow> size_t" where
  "header_size bs = push_bit 0 (ucast (bs ! 0)) OR push_bit 8 (ucast (bs ! 1))
     OR push_bit 16 (ucast (bs ! 2)) OR push_bit 24 (ucast (bs ! 3))"

section \<open>Reading\<close>

datatype reader = WaitHeader | WaitBody nat

text \<open>One completion: what is read next, the message delivered, the bytes left in the socket.\<close>

definition read_step :: "reader \<Rightarrow> byte list \<Rightarrow> (reader \<times> byte list option \<times> byte list) option" where
  "read_step r bs =
     (case r of
        WaitHeader \<Rightarrow>
          if length bs < 4 then None else Some (WaitBody (unat (header_size (take 4 bs))), None, drop 4 bs)
      | WaitBody n \<Rightarrow> if length bs < n then None else Some (WaitHeader, Some (take n bs), drop n bs))"

function read_all :: "reader \<Rightarrow> byte list \<Rightarrow> byte list list \<times> reader \<times> byte list" where
  "read_all r bs =
     (case read_step r bs of
        None \<Rightarrow> ([], r, bs)
      | Some (r', m, rest) \<Rightarrow>
          (let (ms, s) = read_all r' rest in (case m of None \<Rightarrow> ms | Some x \<Rightarrow> x # ms, s)))"
  by pat_completeness auto
termination
proof (relation "measure (\<lambda>(r, bs). 2 * length bs + (case r of WaitHeader \<Rightarrow> 0 | WaitBody _ \<Rightarrow> 1))")
  show "((r', rest), (r, bs)) \<in> measure (\<lambda>(r, bs). 2 * length bs + (case r of WaitHeader \<Rightarrow> 0 | WaitBody _ \<Rightarrow> 1))"
    if "read_step r bs = Some x" "(r', y) = x" "(m, rest) = y" for r bs x r' y m rest
    using that by (auto simp: read_step_def split: reader.splits if_splits)
qed simp

declare read_all.simps [simp del]

text \<open>Bytes arrive in chunks; what cannot be consumed yet stays in the socket.\<close>

fun receive :: "reader \<times> byte list \<Rightarrow> byte list list \<Rightarrow> byte list list \<times> reader \<times> byte list" where
  "receive (r, left) [] = ([], r, left)"
| "receive (r, left) (c # cs) =
     (let (ms, s) = read_all r (left @ c); (ms', s') = receive s cs in (ms @ ms', s'))"

section \<open>Correctness\<close>

lemma header_length [simp]: "length (header s) = 4"
  by (simp add: header_def)

lemma byte_bit:
  fixes x :: size_t
  shows "bit (push_bit k (ucast (ucast (drop_bit k x AND 255) :: byte)) :: size_t) n
     \<longleftrightarrow> n < 64 \<and> k \<le> n \<and> n < k + 8 \<and> bit x n"
proof -
  have "drop_bit k x AND 255 = take_bit 8 (drop_bit k x)"
    by (simp add: take_bit_eq_mask mask_eq_exp_minus_1)
  then show ?thesis by (auto simp: bit_simps)
qed

lemma header_roundtrip: "header_size (header s) = take_bit 32 s"
proof (rule bit_word_eqI)
  fix n assume n: "n < LENGTH(64)"
  have "header_size (header s) = push_bit 0 (ucast (ucast (drop_bit 0 s AND 255) :: byte))
      OR push_bit 8 (ucast (ucast (drop_bit 8 s AND 255) :: byte))
      OR push_bit 16 (ucast (ucast (drop_bit 16 s AND 255) :: byte))
      OR push_bit 24 (ucast (ucast (drop_bit 24 s AND 255) :: byte))"
    unfolding header_size_def header_def by (simp only: nth_Cons_0 nth_Cons_numeral diff_numeral_simps
        nth_Cons_Suc One_nat_def numeral_2_eq_2 numeral_3_eq_3)
  then show "bit (header_size (header s)) n \<longleftrightarrow> bit (take_bit 32 s) n"
    using n by (simp only: bit_or_iff byte_bit bit_take_bit_iff) auto
qed

text \<open>The messages that fit: their length does not overflow the header.\<close>

definition fits :: "byte list \<Rightarrow> bool" where
  "fits m \<longleftrightarrow> length m < 2 ^ 32"

lemma unat_header: "fits m \<Longrightarrow> unat (header_size (header (word_of_nat (length m)))) = length m"
proof -
  assume m: "fits m"
  have "unat (header_size (header (word_of_nat (length m)))) = take_bit 32 (unat (word_of_nat (length m) :: size_t))"
    by (simp only: header_roundtrip unsigned_take_bit_eq)
  then show ?thesis using m by (simp add: fits_def take_bit_eq_mod unat_of_nat)
qed

lemma read_step_header:
  "fits m \<Longrightarrow> read_step WaitHeader (frame m @ rest) = Some (WaitBody (length m), None, m @ rest)"
  using unat_header [of m] by (simp add: read_step_def frame_def)

lemma read_step_body: "read_step (WaitBody (length m)) (m @ rest) = Some (WaitHeader, Some m, rest)"
  by (simp add: read_step_def)

lemma read_all_None: "read_step r bs = None \<Longrightarrow> read_all r bs = ([], r, bs)"
  by (subst read_all.simps) simp

lemma read_all_Some:
  "read_step r bs = Some (r', m, rest) \<Longrightarrow>
     read_all r bs = ((case m of None \<Rightarrow> fst (read_all r' rest) | Some x \<Rightarrow> x # fst (read_all r' rest)), snd (read_all r' rest))"
  by (subst read_all.simps) (auto simp: case_prod_beta split: option.split)

lemma read_all_frame:
  "fits m \<Longrightarrow> read_all WaitHeader (frame m @ rest)
     = (m # fst (read_all WaitHeader rest), snd (read_all WaitHeader rest))"
  by (simp add: read_all_Some [OF read_step_header] read_all_Some [OF read_step_body])

lemma read_all_frames:
  "list_all fits ms \<Longrightarrow> read_all WaitHeader (concat (map frame ms) @ rest)
     = (ms @ fst (read_all WaitHeader rest), snd (read_all WaitHeader rest))"
  by (induction ms) (simp_all add: read_all_frame)

lemma read_all_empty: "read_all WaitHeader [] = ([], WaitHeader, [])"
  by (rule read_all_None) (simp add: read_step_def)

text \<open>Reading a prefix first and the rest later delivers the same messages.\<close>

lemma read_step_append: "read_step r bs = Some (r', m, rest) \<Longrightarrow> read_step r (bs @ more) = Some (r', m, rest @ more)"
  by (auto simp: read_step_def split: reader.splits if_splits)

lemma read_all_append:
  "read_all r (bs @ more) =
     (let (ms, r', left) = read_all r bs; (ms', s) = read_all r' (left @ more) in (ms @ ms', s))"
proof (induction r bs rule: read_all.induct)
  case (1 r bs)
  show ?case
  proof (cases "read_step r bs")
    case None
    then show ?thesis by (simp add: read_all_None case_prod_beta)
  next
    case (Some x)
    obtain r' m rest where x: "x = (r', m, rest)" by (cases x)
    show ?thesis
      using "1.IH" [OF Some, of r' "(m, rest)" m rest] Some x
      by (simp add: read_all_Some [OF read_step_append [of r bs r' m rest]] read_all_Some [of r bs r' m rest]
          case_prod_beta Let_def split: option.split)
  qed
qed

lemma receive_Nil [simp]: "receive s [] = ([], s)"
  by (cases s) simp

lemma receive_concat: "receive (r, left) (c # cs) = read_all r (left @ c @ concat cs)"
proof (induction cs arbitrary: r left c)
  case (Cons d cs)
  obtain ms r' left' where a: "read_all r (left @ c) = (ms, r', left')" by (metis prod_cases3)
  have "receive (r, left) (c # d # cs) = (ms @ fst (read_all r' (left' @ d @ concat cs)), snd (read_all r' (left' @ d @ concat cs)))"
    using Cons.IH [of r' left' d] by (simp only: receive.simps(2) [of r left c] a) (simp add: case_prod_beta)
  then show ?case using a read_all_append [of r "left @ c" "d @ concat cs"] by (simp add: case_prod_beta)
qed (simp add: case_prod_beta)

lemma receive_frames:
  assumes "list_all fits ms" and "concat chunks = concat (map frame ms)"
  shows "receive (WaitHeader, []) chunks = (ms, WaitHeader, [])"
proof (cases chunks)
  case Nil
  then have "concat (map frame ms) = []" using assms(2) by simp
  then have "ms = []" by (cases ms) (simp_all add: frame_def header_def)
  then show ?thesis using Nil by simp
next
  case (Cons c cs)
  then show ?thesis
    using assms read_all_frames [OF assms(1), of "[]"] read_all_empty by (simp only: receive_concat) simp
qed

section \<open>The sending side\<close>

text \<open>
  What the senders on both ends promise: submitting a message appends its encoding to the queue and
  starts a write only when nothing was queued; the completion of a write removes its message and starts
  the next one.  \<open>active\<close> says that the connection is up, \<open>writing\<close> is the buffer handed to the
  socket, \<open>wire\<close> the bytes of completed writes.
\<close>

locale message_sender =
  fixes encode :: "'m \<Rightarrow> byte list" and sendable :: "'m \<Rightarrow> bool"
    and submit :: "'m \<Rightarrow> 's \<Rightarrow> 's res" and completed :: "'s \<Rightarrow> 's res"
    and queued :: "'s \<Rightarrow> byte list list" and writing :: "'s \<Rightarrow> byte list option"
    and wire :: "'s \<Rightarrow> byte list" and active :: "'s \<Rightarrow> bool"
  assumes submit_law: "active s \<Longrightarrow> sendable m \<Longrightarrow> \<exists>s'. submit m s = Inr s' \<and> active s'
        \<and> queued s' = queued s @ [encode m] \<and> wire s' = wire s
        \<and> writing s' = (if queued s = [] then Some (frame (encode m)) else writing s)"
    and completed_law: "active s \<Longrightarrow> queued s = q # qs \<Longrightarrow> writing s = Some buf \<Longrightarrow>
        \<exists>s'. completed s = Inr s' \<and> active s' \<and> queued s' = qs \<and> wire s' = wire s @ buf
        \<and> writing s' = (case qs of [] \<Rightarrow> None | r # _ \<Rightarrow> Some (frame r))"
begin

text \<open>\<open>None\<close> is the completion of the running write; nothing completes while none is running.\<close>

definition event :: "'m option \<Rightarrow> 's \<Rightarrow> 's res" where
  "event e s = (case e of Some m \<Rightarrow> submit m s | None \<Rightarrow> if writing s = None then Inr s else completed s)"

definition sender_ok :: "byte list list \<Rightarrow> 's \<Rightarrow> bool" where
  "sender_ok sent s \<longleftrightarrow> active s
     \<and> writing s = (case queued s of [] \<Rightarrow> None | q # _ \<Rightarrow> Some (frame q))
     \<and> (\<exists>gone. sent = gone @ queued s \<and> wire s = concat (map frame gone))"

definition sent_by :: "'m option list \<Rightarrow> byte list list" where
  "sent_by es = map encode [m. Some m \<leftarrow> es]"

lemma event_ok:
  assumes "sender_ok sent s" and "\<forall>m. e = Some m \<longrightarrow> sendable m"
  shows "\<exists>s'. event e s = Inr s' \<and> sender_ok (sent @ sent_by [e]) s'"
proof (cases e)
  case (Some m)
  then obtain s' where "submit m s = Inr s'" "active s'" "queued s' = queued s @ [encode m]" "wire s' = wire s"
      "writing s' = (if queued s = [] then Some (frame (encode m)) else writing s)"
    using submit_law [of s m] assms by (auto simp: sender_ok_def)
  then show ?thesis using assms(1) Some
    by (auto simp: sender_ok_def event_def sent_by_def split: list.splits)
next
  case None
  show ?thesis
  proof (cases "queued s")
    case Nil
    then show ?thesis using assms(1) None by (simp add: sender_ok_def event_def sent_by_def)
  next
    case (Cons q qs)
    obtain gone where gone: "sent = gone @ queued s" "wire s = concat (map frame gone)"
      using assms(1) by (auto simp: sender_ok_def)
    have "active s" "writing s = Some (frame q)" using assms(1) Cons by (simp_all add: sender_ok_def)
    then obtain s' where s': "completed s = Inr s'" "active s'" "queued s' = qs" "wire s' = wire s @ frame q"
        "writing s' = (case qs of [] \<Rightarrow> None | r # _ \<Rightarrow> Some (frame r))"
      using completed_law [OF _ Cons] by blast
    have "sent = (gone @ [q]) @ queued s'" "wire s' = concat (map frame (gone @ [q]))"
      using gone s' Cons by simp_all
    then have "sender_ok sent s'" unfolding sender_ok_def using s' by blast
    then show ?thesis using None \<open>writing s = _\<close> s'(1) by (simp add: event_def sent_by_def)
  qed
qed

lemma events_ok:
  assumes "sender_ok sent s" and "\<forall>m. Some m \<in> set es \<longrightarrow> sendable m"
  shows "\<exists>s'. fold_res event es s = Inr s' \<and> sender_ok (sent @ sent_by es) s'"
  using assms
proof (induction es arbitrary: sent s)
  case Nil
  then show ?case by (simp add: sent_by_def)
next
  case (Cons e es)
  obtain s1 where s1: "event e s = Inr s1" "sender_ok (sent @ sent_by [e]) s1"
    using event_ok [OF Cons.prems(1), of e] Cons.prems(2) by auto
  then obtain s2 where "fold_res event es s1 = Inr s2" "sender_ok ((sent @ sent_by [e]) @ sent_by es) s2"
    using Cons.IH [OF s1(2)] Cons.prems(2) by auto
  moreover have "(sent @ sent_by [e]) @ sent_by es = sent @ sent_by (e # es)"
    by (cases e) (simp_all add: sent_by_def)
  ultimately show ?case using s1(1) by simp
qed

text \<open>The peer reads, in order, the messages whose writes completed, and never anything else.\<close>

lemma peer_reads:
  assumes "sender_ok [] s" and "\<forall>m. Some m \<in> set es \<longrightarrow> sendable m \<and> fits (encode m)"
  shows "\<exists>s' delivered. fold_res event es s = Inr s'
    \<and> read_all WaitHeader (wire s') = (delivered, WaitHeader, []) \<and> sent_by es = delivered @ queued s'"
proof -
  obtain s' where s': "fold_res event es s = Inr s'" "sender_ok (sent_by es) s'"
    using events_ok [OF assms(1), of es] assms(2) by auto
  then obtain gone where gone: "sent_by es = gone @ queued s'" "wire s' = concat (map frame gone)"
    by (auto simp: sender_ok_def)
  have "list_all fits (sent_by es)" using assms(2) by (auto simp: sent_by_def list_all_iff split: option.splits)
  then have "list_all fits gone" using gone(1) by simp
  then show ?thesis using s' gone read_all_frames [of gone "[]"] read_all_empty by auto
qed

end

section \<open>Properties\<close>

text \<open>C28 However the bytes of a sequence of enveloped messages are cut into chunks on the way, the reader
  delivers exactly these messages, in order, and ends waiting for the next header with nothing left over,
  provided each message is shorter than four gigabytes.\<close>

theorem frames_survive_chunking:
  assumes "list_all fits ms" and "concat chunks = concat (map frame ms)"
  shows "receive (WaitHeader, []) chunks = (ms, WaitHeader, [])"
  using assms by (rule receive_frames)

theorem frames_survive_chunking_witness:
  "receive (WaitHeader, []) [[1], [0, 0, 0, 65, 2, 0], [0, 0, 66, 67]] = ([[65], [66, 67]], WaitHeader, [])"
  by (rule frames_survive_chunking) (simp_all add: fits_def frame_def header_def)

end
