(* ===== verification/NetClient.thy ===== *)
theory NetClient
  imports Framing NetSerializer ChangeQueue "HOL-Library.Countable"
begin

text \<open>
  \<open>persistence::net::NetClientBackend\<close>: the backend that forwards operations and streams to a server.
  The handlers run one after the other on the thread of the IO service; each is a function of the
  backend's state.  The textual form of JSON is the parameter \<open>T\<close>.
\<close>

section \<open>Text of JSON values\<close>

record json_text =
  dump :: "json \<Rightarrow> byte list"
  parse :: "byte list \<Rightarrow> json res"

text \<open>The documented contract of the library: parsing a dumped value gives the value.\<close>

definition text_ok :: "json_text \<Rightarrow> bool" where
  "text_ok T \<longleftrightarrow> (\<forall>j. parse T (dump T j) = Inr j)"

text \<open>
  A concrete text format, on which the contract holds: the given value has a one-byte text, every other
  value the text its number in an enumeration of all values gives.
\<close>

instance json :: countable
  by countable_datatype

definition short_text :: "json \<Rightarrow> json_text" where
  "short_text j0 =
     \<lparr>dump = (\<lambda>j. if j = j0 then [1] else 0 # replicate (to_nat j) 1),
      parse = (\<lambda>bs. if bs = [1] then Inr j0 else Inr (from_nat (length bs - 1)))\<rparr>"

lemma short_text_ok: "text_ok (short_text j0)"
  by (simp add: text_ok_def short_text_def)

section \<open>State\<close>

datatype connection = NotConnected | Connecting | Connected

text \<open>A promise is a token; \<open>nc_resolved\<close> records the values promises have been resolved with.\<close>

record 'p net_client =
  nc_status :: connection
  nc_nextOperationId :: int
  nc_nextStreamId :: int
  nc_tasks :: "(int, nat) omap"
  nc_resolved :: "(nat \<times> task_result list) list"
  nc_changes :: "'p change_queue"
  nc_messages :: "byte list list"
  nc_writing :: "byte list option"
  nc_wire :: "byte list"

text \<open>The constructor starts connecting.\<close>

definition mk_net_client :: "'p net_client" where
  "mk_net_client =
     \<lparr>nc_status = Connecting, nc_nextOperationId = 1, nc_nextStreamId = 1, nc_tasks = [], nc_resolved = [],
      nc_changes = empty_queue, nc_messages = [], nc_writing = None, nc_wire = []\<rparr>"

section \<open>Sending\<close>

definition doSumitMessages :: "'p net_client \<Rightarrow> 'p net_client res" where
  "doSumitMessages c =
     (case nc_messages c of
        [] \<Rightarrow> Inl AssertFailed
      | m # _ \<Rightarrow> Inr (c\<lparr>nc_writing := Some (frame m)\<rparr>))"

definition client_submit :: "byte list \<Rightarrow> 'p net_client \<Rightarrow> 'p net_client res" where
  "client_submit message c =
     (let submitInProgress = nc_messages c \<noteq> [];
          c' = c\<lparr>nc_messages := nc_messages c @ [message]\<rparr>
      in if \<not> submitInProgress \<and> nc_status c = Connected then doSumitMessages c' else Inr c')"

text \<open>The handler of a finished write: the buffer is on the wire; without an error the message leaves the queue.\<close>

definition client_written :: "'p net_client \<Rightarrow> 'p net_client res" where
  "client_written c =
     (let c' = c\<lparr>nc_wire := nc_wire c @ (case nc_writing c of None \<Rightarrow> [] | Some b \<Rightarrow> b), nc_writing := None,
                 nc_messages := tl (nc_messages c)\<rparr>
      in if nc_messages c' \<noteq> [] then doSumitMessages c' else Inr c')"

definition client_write_failed :: "'p net_client \<Rightarrow> 'p net_client" where
  "client_write_failed c = c\<lparr>nc_writing := None\<rparr>"

definition socketConnected :: "bool \<Rightarrow> 'p net_client \<Rightarrow> 'p net_client res" where
  "socketConnected failed c =
     (if \<not> failed then
        let c' = c\<lparr>nc_status := Connected\<rparr>
        in if nc_messages c' \<noteq> [] then doSumitMessages c' else Inr c'
      else Inr (c\<lparr>nc_status := NotConnected\<rparr>))"

section \<open>Operations and streams\<close>

text \<open>\<open>promise\<close> is the token of the new promise.\<close>

definition client_queueOperations ::
    "('d::linorder, 'p) gregorian \<Rightarrow> json_text \<Rightarrow> 'p operation list \<Rightarrow> nat \<Rightarrow> 'p net_client \<Rightarrow> 'p net_client res" where
  "client_queueOperations G T operations promise c =
     (let i = nc_nextOperationId c + 1;
          c' = c\<lparr>nc_nextOperationId := i,
                 nc_tasks := (if omap_find (nc_tasks c) i = None then omap_put i promise (nc_tasks c) else nc_tasks c)\<rparr>
      in bindr (map_res (serialize_operation G) operations) (\<lambda>xs.
           client_submit (dump T (json_set ''operations'' (JArray xs)
             (json_set ''id'' (JInt i) (json_set ''op'' (JString ''schedule_operations'') JNull)))) c'))"

definition stream_type_int :: "stream_type \<Rightarrow> int" where
  "stream_type_int t = (case t of NullStream \<Rightarrow> 0 | HotelStream \<Rightarrow> 1 | ReservationStream \<Rightarrow> 2)"

text \<open>\<open>s\<close> is the address of the new stream, \<open>obs\<close> the observer to connect.\<close>

definition client_createStream ::
    "json_text \<Rightarrow> nat \<Rightarrow> nat \<Rightarrow> stream_type \<Rightarrow> string \<Rightarrow> json \<Rightarrow> (nat \<Rightarrow> data_stream) \<times> 'p net_client
       \<Rightarrow> (stream_handle \<times> (nat \<Rightarrow> data_stream) \<times> 'p net_client) res" where
  "client_createStream T s obs t service options w =
     (let c = snd w; i = nc_nextStreamId c in
      bindr (connect_stream i obs (mk_data_stream t service options)) (\<lambda>ds.
      bindr (client_submit (dump T (json_set ''options'' options (json_set ''service'' (JString service)
               (json_set ''type'' (JInt (stream_type_int t)) (json_set ''id'' (JInt i)
                 (json_set ''op'' (JString ''create_stream'') JNull))))))
              (c\<lparr>nc_changes := addStream s (nc_changes c)\<rparr>)) (\<lambda>c'.
        Inr (\<lparr>handle_backend = Some 0, handle_stream = Some s\<rparr>, (fst w)(s := ds),
             c'\<lparr>nc_nextStreamId := i + 1\<rparr>))))"

definition client_removeStream :: "json_text \<Rightarrow> data_stream \<Rightarrow> 'p net_client \<Rightarrow> 'p net_client res" where
  "client_removeStream T ds c =
     client_submit (dump T (json_set ''id'' (JInt (ds_id ds)) (json_set ''op'' (JString ''remove_stream'') JNull))) c"

section \<open>Receiving\<close>

definition client_streamChange :: "int \<Rightarrow> 'p change \<Rightarrow> 'p net_client \<Rightarrow> 'p net_client" where
  "client_streamChange i ch c = c\<lparr>nc_changes := addStreamChange i ch (nc_changes c)\<rparr>"

definition client_processMessage ::
    "('d::linorder, 'p) gregorian \<Rightarrow> json \<Rightarrow> 'p net_client \<Rightarrow> 'p net_client res" where
  "client_processMessage G obj c =
     bindr (string_at obj ''op'') (\<lambda>operation.
       if operation = ''stream_initialize'' then
         bindr (int_at obj ''id'') (\<lambda>i. Inr (client_streamChange i Initialized c))
       else if operation = ''stream_add'' then
         bindr (deserializeStreamAddMessage G obj) (\<lambda>(i, items). Inr (client_streamChange i (ItemsAdded items) c))
       else if operation = ''stream_update'' then
         bindr (deserializeStreamUpdateMessage G obj) (\<lambda>(i, items). Inr (client_streamChange i (ItemsUpdated items) c))
       else if operation = ''stream_remove'' then
         bindr (int_at obj ''id'') (\<lambda>i. bindr (json_at obj ''items'') (\<lambda>xs. bindr (json_int_list xs) (\<lambda>ids.
           Inr (client_streamChange i (ItemsRemoved ids) c))))
       else if operation = ''task_results'' then
         bindr (deserializeTaskResultsMessage obj) (\<lambda>(i, results).
           case omap_find (nc_tasks c) i of
             None \<Rightarrow> Inr c
           | Some promise \<Rightarrow>
               Inr (c\<lparr>nc_resolved := nc_resolved c @ [(promise, results)], nc_tasks := omap_erase i (nc_tasks c)\<rparr>))
       else Inr c)"

text \<open>The handler of a finished body read.\<close>

definition client_bodyRead ::
    "('d::linorder, 'p) gregorian \<Rightarrow> json_text \<Rightarrow> byte list \<Rightarrow> 'p net_client \<Rightarrow> 'p net_client res" where
  "client_bodyRead G T msg c = bindr (parse T msg) (\<lambda>obj. client_processMessage G obj c)"

section \<open>Lemmas\<close>

definition client_active :: "'p net_client \<Rightarrow> bool" where
  "client_active c \<longleftrightarrow> nc_status c = Connected"

interpretation client_sender: message_sender "\<lambda>m. m" "\<lambda>_. True" client_submit client_written nc_messages nc_writing nc_wire client_active
  by unfold_locales
     (auto simp: client_submit_def client_written_def client_active_def doSumitMessages_def Let_def split: list.splits)

text \<open>What is submitted before the connection is up waits in the queue.\<close>

lemma submit_waiting:
  "nc_status c \<noteq> Connected \<Longrightarrow> fold_res client_submit ms c = Inr (c\<lparr>nc_messages := nc_messages c @ ms\<rparr>)"
  by (induction ms arbitrary: c) (simp_all add: client_submit_def)

lemma connected_ok:
  assumes "nc_writing c = None" and "nc_wire c = []"
  shows "\<exists>c'. socketConnected False c = Inr c' \<and> client_sender.sender_ok (nc_messages c) c'"
  using assms
  by (auto simp: socketConnected_def client_sender.sender_ok_def client_active_def doSumitMessages_def Let_def
      split: list.splits)

text \<open>The messages about streams reach the queue of changes.\<close>

definition wire_change :: "'p change \<Rightarrow> 'p change" where
  "wire_change c = (case c of ItemsAdded i \<Rightarrow> ItemsAdded (wire_items i) | ItemsUpdated i \<Rightarrow> ItemsUpdated (wire_items i)
     | _ \<Rightarrow> c)"

definition change_ok :: "('d::linorder, 'p) gregorian \<Rightarrow> 'p change \<Rightarrow> bool" where
  "change_ok G c = (case c of ItemsAdded i \<Rightarrow> items_ok G i | ItemsUpdated i \<Rightarrow> items_ok G i
     | ItemsRemoved ids \<Rightarrow> list_all int32 ids | _ \<Rightarrow> True)"

text \<open>The message a session sends for a change, by the callback that receives it.\<close>

definition change_message :: "('d::linorder, 'p) gregorian \<Rightarrow> int \<Rightarrow> 'p change \<Rightarrow> json res" where
  "change_message G i c =
     (case c of
        ItemsAdded items \<Rightarrow> serializeStreamAddMessage G i items
      | ItemsUpdated items \<Rightarrow> serializeStreamUpdateMessage G i items
      | ItemsRemoved ids \<Rightarrow> Inr (serializeStreamRemoveMessage i ids)
      | Cleared \<Rightarrow> Inr (serializeStreamClearMessage i)
      | Initialized \<Rightarrow> Inr (serializeStreamInitializeMessage i))"

lemma change_message_processed:
  assumes "gregorian_ok G" and "change_ok G c" and "int32 i"
  shows "\<exists>j. change_message G i c = Inr j
    \<and> client_processMessage G j nc = Inr (if c = Cleared then nc else client_streamChange i (wire_change c) nc)"
proof (cases c)
  case (ItemsAdded items)
  then obtain j where "serializeStreamAddMessage G i items = Inr j" "string_at j ''op'' = Inr ''stream_add''"
      "read_items_message G ''stream_add'' j = Inr (i, wire_items items)"
    using items_message_roundtrip [OF assms(1) _ assms(3), of items "''stream_add''"] assms(2)
    by (auto simp: change_ok_def serializeStreamAddMessage_def)
  then show ?thesis using ItemsAdded
    by (simp add: change_message_def client_processMessage_def deserializeStreamAddMessage_def wire_change_def)
next
  case (ItemsUpdated items)
  then obtain j where "serializeStreamUpdateMessage G i items = Inr j" "string_at j ''op'' = Inr ''stream_update''"
      "read_items_message G ''stream_update'' j = Inr (i, wire_items items)"
    using items_message_roundtrip [OF assms(1) _ assms(3), of items "''stream_update''"] assms(2)
    by (auto simp: change_ok_def serializeStreamUpdateMessage_def)
  then show ?thesis using ItemsUpdated
    by (simp add: change_message_def client_processMessage_def deserializeStreamUpdateMessage_def wire_change_def)
next
  case (ItemsRemoved ids)
  then show ?thesis
    using assms int_list_roundtrip [of ids]
    by (simp add: change_message_def client_processMessage_def serializeStreamRemoveMessage_def json_object_3
        string_at_def int_at_def wire_change_def change_ok_def)
next
  case Initialized
  then show ?thesis
    using assms by (simp add: change_message_def client_processMessage_def serializeStreamInitializeMessage_def
        json_object_2 string_at_def int_at_def wire_change_def)
next
  case Cleared
  then show ?thesis
    using assms by (simp add: change_message_def client_processMessage_def serializeStreamClearMessage_def
        json_object_2 string_at_def)
qed

lemma task_results_processed:
  assumes "int32 i" and "list_all result_ok rs"
  shows "client_processMessage G (serializeTaskResultsMessage i rs) nc
    = Inr (case omap_find (nc_tasks nc) i of None \<Rightarrow> nc
        | Some p \<Rightarrow> nc\<lparr>nc_resolved := nc_resolved nc @ [(p, rs)], nc_tasks := omap_erase i (nc_tasks nc)\<rparr>)"
proof -
  have "string_at (serializeTaskResultsMessage i rs) ''op'' = Inr ''task_results''"
    by (simp add: string_at_def serializeTaskResultsMessage_def)
  then show ?thesis
    using results_message_roundtrip [OF assms] by (simp add: client_processMessage_def split: option.split)
qed

section \<open>The messages written, and the results read\<close>

text \<open>Messages submitted before and after the connection is established are read by the server in the order
  of submission: at every moment the bytes written decode to a prefix of the submitted messages, the rest still
  being queued, nothing is lost, repeated or reordered.\<close>

lemma client_messages_in_order:
  fixes c0 :: "'p net_client"
  assumes "fold_res client_submit early mk_net_client = Inr c0" and "socketConnected False c0 = Inr c1"
    and "list_all fits early" and "\<forall>m. Some m \<in> set es \<longrightarrow> fits m"
  shows "\<exists>c delivered. fold_res client_sender.event es c1 = Inr c
    \<and> read_all WaitHeader (nc_wire c) = (delivered, WaitHeader, [])
    \<and> early @ [m. Some m \<leftarrow> es] = delivered @ nc_messages c"
proof -
  have c0: "c0 = mk_net_client\<lparr>nc_messages := early\<rparr>"
    using assms(1) submit_waiting [of "mk_net_client :: 'p net_client" early] by (simp add: mk_net_client_def)
  have ok: "client_sender.sender_ok early c1"
    using connected_ok [of c0] assms(2) c0 by (simp add: mk_net_client_def)
  obtain c where c: "fold_res client_sender.event es c1 = Inr c"
      "client_sender.sender_ok (early @ client_sender.sent_by es) c"
    using client_sender.events_ok [OF ok, of es] by blast
  then obtain gone where gone: "early @ [m. Some m \<leftarrow> es] = gone @ nc_messages c" "nc_wire c = concat (map frame gone)"
    by (auto simp: client_sender.sender_ok_def client_sender.sent_by_def)
  have "list_all fits (early @ [m. Some m \<leftarrow> es])"
    using assms(3,4) by (auto simp: list_all_iff split: option.splits)
  then have "list_all fits gone" using gone(1) by simp
  then show ?thesis using c(1) gone read_all_frames [of gone "[]"] read_all_empty by auto
qed

lemma client_messages_in_order_witness:
  "\<exists>c0 c1 c delivered. fold_res client_submit [[1], [2, 3]] (mk_net_client :: (int \<times> int) net_client) = Inr c0
     \<and> socketConnected False c0 = Inr c1 \<and> fold_res client_sender.event [None, Some [4]] c1 = Inr c
     \<and> [[1], [2, 3], [4]] = delivered @ nc_messages c"
proof -
  define c0 :: "(int \<times> int) net_client" where "c0 = mk_net_client\<lparr>nc_messages := [[1], [2, 3]]\<rparr>"
  define c1 where "c1 = c0\<lparr>nc_status := Connected, nc_writing := Some (frame [1])\<rparr>"
  have 0: "fold_res client_submit [[1], [2, 3]] mk_net_client = Inr c0"
    by (simp add: client_submit_def mk_net_client_def c0_def)
  have 1: "socketConnected False c0 = Inr c1"
    by (simp add: socketConnected_def doSumitMessages_def c1_def c0_def)
  show ?thesis
    using client_messages_in_order [OF 0 1, of "[None, Some [4]]"] 0 1 by (auto simp: fits_def)
qed

text \<open>Results for a running task resolve exactly its promise, once: the promise gets the results sent, the
  task is forgotten, so the same message again changes nothing, and results for other tasks leave it alone.\<close>

lemma task_resolved_once:
  assumes "int32 i" and "list_all result_ok rs" and "omap_find (nc_tasks nc) i = Some p"
  shows "\<exists>nc'. client_processMessage G (serializeTaskResultsMessage i rs) nc = Inr nc'
    \<and> nc_resolved nc' = nc_resolved nc @ [(p, rs)]
    \<and> (\<forall>k. omap_find (nc_tasks nc') k = (if k = i then None else omap_find (nc_tasks nc) k))
    \<and> client_processMessage G (serializeTaskResultsMessage i rs) nc' = Inr nc'"
  using task_results_processed [OF assms(1,2), of G] assms(3) by simp

lemma task_resolved_once_witness:
  "\<exists>nc'. client_processMessage day_calendar (serializeTaskResultsMessage 2 [\<lparr>task_status = Successful, task_data = JNull\<rparr>])
       (mk_net_client\<lparr>nc_tasks := [(2, 5)]\<rparr>) = Inr nc'
     \<and> nc_resolved nc' = [(5, [\<lparr>task_status = Successful, task_data = JNull\<rparr>])]"
  using task_resolved_once [of 2 "[\<lparr>task_status = Successful, task_data = JNull\<rparr>]"
      "mk_net_client\<lparr>nc_tasks := [(2, 5)]\<rparr>" 5 day_calendar]
  by (auto simp: int32_def result_ok_def status_int_def omap_find_def mk_net_client_def)

end
