(* ===== verification/NetSession.thy ===== *)
theory NetSession
  imports NetClient
begin

text \<open>
  \<open>server::NetClientSession\<close>: the server's side of a connection.  It runs the client's commands on the
  real backend, whose operations are the record \<open>B\<close> over its state \<open>'b\<close>, and its stream observers
  turn every change into a message.
\<close>

section \<open>State\<close>

record ('p, 'b) backend_ops =
  b_createStream :: "int \<Rightarrow> int \<Rightarrow> string \<Rightarrow> json \<Rightarrow> 'b \<Rightarrow> nat \<times> 'b"
  b_removeStream :: "nat \<Rightarrow> 'b \<Rightarrow> 'b"
  b_queueOperations :: "'p operation list \<Rightarrow> 'b \<Rightarrow> nat \<times> 'b"

text \<open>
  An open stream is the backend's token for it with the client's id; a running operation is the token of
  its future, the id member of the command and whether the future of its continuation is ready.
\<close>

record net_session =
  ns_streams :: "(nat \<times> int) list"
  ns_running :: "(nat \<times> json \<times> bool) list"
  ns_outgoing :: "byte list list"
  ns_writing :: "byte list option"
  ns_wire :: "byte list"

definition mk_net_session :: net_session where
  "mk_net_session = \<lparr>ns_streams = [], ns_running = [], ns_outgoing = [], ns_writing = None, ns_wire = []\<rparr>"

section \<open>Sending\<close>

text \<open>Before writing, the front message is parsed again for the log, which reads its \<open>op\<close> member.\<close>

definition session_doSend :: "json_text \<Rightarrow> net_session \<Rightarrow> net_session res" where
  "session_doSend T s =
     (case ns_outgoing s of
        [] \<Rightarrow> Inl UndefinedBehaviour
      | m # _ \<Rightarrow>
          bindr (parse T m) (\<lambda>j.
            case j of
              JObject _ \<Rightarrow> Inr (s\<lparr>ns_writing := Some (frame m)\<rparr>)
            | JNull \<Rightarrow> Inr (s\<lparr>ns_writing := Some (frame m)\<rparr>)
            | _ \<Rightarrow> Inl JsonTypeError))"

definition session_sendMessage :: "json_text \<Rightarrow> json \<Rightarrow> net_session \<Rightarrow> net_session res" where
  "session_sendMessage T j s =
     (let sendInProgress = ns_outgoing s \<noteq> [];
          s' = s\<lparr>ns_outgoing := ns_outgoing s @ [dump T j]\<rparr>
      in if \<not> sendInProgress then session_doSend T s' else Inr s')"

definition session_written :: "json_text \<Rightarrow> net_session \<Rightarrow> net_session res" where
  "session_written T s =
     (let s' = s\<lparr>ns_wire := ns_wire s @ (case ns_writing s of None \<Rightarrow> [] | Some b \<Rightarrow> b), ns_writing := None,
                 ns_outgoing := tl (ns_outgoing s)\<rparr>
      in if ns_outgoing s' \<noteq> [] then session_doSend T s' else Inr s')"

section \<open>The observer of a stream\<close>

text \<open>\<open>SessionStreamObserver\<close>, as the callbacks on the session that owns it.\<close>

definition session_observer :: "('d::linorder, 'p) gregorian \<Rightarrow> json_text \<Rightarrow> int \<Rightarrow> ('p, net_session) observer_ops" where
  "session_observer G T i =
     \<lparr>on_add = (\<lambda>items s. bindr (serializeStreamAddMessage G i items) (\<lambda>j. session_sendMessage T j s)),
      on_update = (\<lambda>items s. bindr (serializeStreamUpdateMessage G i items) (\<lambda>j. session_sendMessage T j s)),
      on_remove = (\<lambda>ids s. session_sendMessage T (serializeStreamRemoveMessage i ids) s),
      on_clear = (\<lambda>s. session_sendMessage T (serializeStreamClearMessage i) s),
      on_initialized = (\<lambda>s. session_sendMessage T (serializeStreamInitializeMessage i) s)\<rparr>"

section \<open>Commands\<close>

definition runCreateStream ::
    "('p, 'b) backend_ops \<Rightarrow> json \<Rightarrow> net_session \<times> 'b \<Rightarrow> (net_session \<times> 'b) res" where
  "runCreateStream B obj w =
     bindr (int_at obj ''id'') (\<lambda>clientId.
     bindr (int_at obj ''type'') (\<lambda>type.
     bindr (string_at obj ''service'') (\<lambda>service.
     bindr (json_at obj ''options'') (\<lambda>options.
       let (h, b) = b_createStream B clientId type service options (snd w)
       in Inr ((fst w)\<lparr>ns_streams := ns_streams (fst w) @ [(h, clientId)]\<rparr>, b)))))"

definition runRemoveStream ::
    "('p, 'b) backend_ops \<Rightarrow> json \<Rightarrow> net_session \<times> 'b \<Rightarrow> (net_session \<times> 'b) res" where
  "runRemoveStream B obj w =
     bindr (int_at obj ''id'') (\<lambda>clientId.
       case find_index (\<lambda>st. snd st = clientId) (ns_streams (fst w)) of
         None \<Rightarrow> Inr w
       | Some k \<Rightarrow>
           Inr ((fst w)\<lparr>ns_streams := take k (ns_streams (fst w)) @ drop (Suc k) (ns_streams (fst w))\<rparr>,
                b_removeStream B (fst (ns_streams (fst w) ! k)) (snd w)))"

definition runScheduleOperations ::
    "('d::linorder, 'p) gregorian \<Rightarrow> ('p, 'b) backend_ops \<Rightarrow> json \<Rightarrow> net_session \<times> 'b \<Rightarrow> (net_session \<times> 'b) res" where
  "runScheduleOperations G B obj w =
     bindr (json_at obj ''operations'') (\<lambda>xs.
     bindr (map_res (deserialize_operation G) (json_elems xs)) (\<lambda>operations.
     bindr (json_at obj ''id'') (\<lambda>i.
       let (f, b) = b_queueOperations B operations (snd w)
       in Inr ((fst w)\<lparr>ns_running := [r \<leftarrow> ns_running (fst w) @ [(f, i, False)]. \<not> snd (snd r)]\<rparr>, b))))"

definition runCommand ::
    "('d::linorder, 'p) gregorian \<Rightarrow> ('p, 'b) backend_ops \<Rightarrow> json \<Rightarrow> net_session \<times> 'b \<Rightarrow> (net_session \<times> 'b) res" where
  "runCommand G B obj w =
     bindr (string_at obj ''op'') (\<lambda>operation.
       if operation = ''create_stream'' then runCreateStream B obj w
       else if operation = ''remove_stream'' then runRemoveStream B obj w
       else if operation = ''schedule_operations'' then runScheduleOperations G B obj w
       else Inr w)"

definition session_bodyRead ::
    "('d::linorder, 'p) gregorian \<Rightarrow> json_text \<Rightarrow> ('p, 'b) backend_ops \<Rightarrow> byte list \<Rightarrow> net_session \<times> 'b
       \<Rightarrow> (net_session \<times> 'b) res" where
  "session_bodyRead G T B msg w = bindr (parse T msg) (\<lambda>obj. runCommand G B obj w)"

text \<open>The continuation of the future of a command, run by the session's IO service: the results go back under
  the command's id, and the operation is dropped when the next one is scheduled.\<close>

definition session_results :: "json_text \<Rightarrow> nat \<Rightarrow> task_result list \<Rightarrow> net_session \<Rightarrow> net_session res" where
  "session_results T f results s =
     (case find_index (\<lambda>r. fst r = f \<and> \<not> snd (snd r)) (ns_running s) of
        None \<Rightarrow> Inr s
      | Some k \<Rightarrow>
          bindr (json_int (fst (snd (ns_running s ! k)))) (\<lambda>i.
            session_sendMessage T (serializeTaskResultsMessage i results)
              (s\<lparr>ns_running := (ns_running s)[k := (f, fst (snd (ns_running s ! k)), True)]\<rparr>)))"

section \<open>Lemmas\<close>

definition is_message :: "json \<Rightarrow> bool" where
  "is_message j = (case j of JObject _ \<Rightarrow> True | _ \<Rightarrow> False)"

definition session_active :: "json_text \<Rightarrow> net_session \<Rightarrow> bool" where
  "session_active T s \<longleftrightarrow> text_ok T \<and> (\<forall>m \<in> set (ns_outgoing s). \<exists>j. m = dump T j \<and> is_message j)"

lemma doSend_ok:
  "session_active T s \<Longrightarrow> ns_outgoing s = m # ms \<Longrightarrow> session_doSend T s = Inr (s\<lparr>ns_writing := Some (frame m)\<rparr>)"
  by (auto simp: session_doSend_def session_active_def text_ok_def is_message_def split: json.splits)

lemma sendMessage_ok:
  assumes "session_active T s" and "is_message j"
  shows "session_sendMessage T j s = Inr (s\<lparr>ns_outgoing := ns_outgoing s @ [dump T j],
     ns_writing := (if ns_outgoing s = [] then Some (frame (dump T j)) else ns_writing s)\<rparr>)"
proof -
  have act: "session_active T (s\<lparr>ns_outgoing := ns_outgoing s @ [dump T j]\<rparr>)"
    using assms by (auto simp: session_active_def)
  show ?thesis
  proof (cases "ns_outgoing s")
    case Nil
    then show ?thesis using doSend_ok [OF act, of "dump T j" "[]"] by (simp add: session_sendMessage_def)
  qed (simp add: session_sendMessage_def)
qed

lemma session_submit_law:
  "session_active T s \<Longrightarrow> is_message m \<Longrightarrow> \<exists>s'. session_sendMessage T m s = Inr s' \<and> session_active T s'
     \<and> ns_outgoing s' = ns_outgoing s @ [dump T m] \<and> ns_wire s' = ns_wire s
     \<and> ns_writing s' = (if ns_outgoing s = [] then Some (frame (dump T m)) else ns_writing s)"
  by (simp add: sendMessage_ok) (auto simp: session_active_def)

lemma session_completed_law:
  assumes "session_active T s" and "ns_outgoing s = q # qs" and "ns_writing s = Some buf"
  shows "\<exists>s'. session_written T s = Inr s' \<and> session_active T s' \<and> ns_outgoing s' = qs \<and> ns_wire s' = ns_wire s @ buf
     \<and> ns_writing s' = (case qs of [] \<Rightarrow> None | r # _ \<Rightarrow> Some (frame r))"
proof -
  let ?s = "s\<lparr>ns_wire := ns_wire s @ buf, ns_writing := None, ns_outgoing := qs\<rparr>"
  have act: "session_active T ?s" using assms(1,2) by (simp add: session_active_def)
  have eq: "session_written T s = (if qs \<noteq> [] then session_doSend T ?s else Inr ?s)"
    using assms(2,3) by (simp add: session_written_def Let_def)
  show ?thesis
  proof (cases qs)
    case Nil
    then show ?thesis using act eq by simp
  next
    case (Cons r rs)
    then have "session_written T s = Inr (?s\<lparr>ns_writing := Some (frame r)\<rparr>)"
      using eq doSend_ok [OF act, of r rs] by simp
    moreover have "session_active T (?s\<lparr>ns_writing := Some (frame r)\<rparr>)" using act by (simp add: session_active_def)
    ultimately show ?thesis using Cons by simp
  qed
qed

interpretation session_sender: message_sender "dump T" is_message "session_sendMessage T" "session_written T"
    ns_outgoing ns_writing ns_wire "session_active T" for T
  using session_submit_law session_completed_law by unfold_locales

lemma session_notify:
  "notify (session_observer G T i) c s = bindr (change_message G i c) (\<lambda>j. session_sendMessage T j s)"
  by (cases c) (simp_all add: notify_def session_observer_def change_message_def)

lemma json_set_message [simp]: "is_message j \<or> j = JNull \<Longrightarrow> is_message (json_set k v j)"
  by (auto simp: is_message_def json_set_def split: json.splits)

lemma is_message_empty [simp]: "is_message (JObject m)"
  by (simp add: is_message_def)

lemma change_message_is_message: "change_message G i c = Inr j \<Longrightarrow> is_message j"
  by (cases c) (auto simp: change_message_def serializeStreamAddMessage_def serializeStreamUpdateMessage_def
      serializeStreamRemoveMessage_def serializeStreamClearMessage_def serializeStreamInitializeMessage_def
      json_object_2 json_object_3)

text \<open>What happens to a session with one stream: a change arrives, or a write finishes.\<close>

definition session_event ::
    "('d::linorder, 'p) gregorian \<Rightarrow> json_text \<Rightarrow> int \<Rightarrow> 'p change option \<Rightarrow> net_session \<Rightarrow> net_session res" where
  "session_event G T i e s =
     (case e of
        Some c \<Rightarrow> notify (session_observer G T i) c s
      | None \<Rightarrow> if ns_writing s = None then Inr s else session_written T s)"

lemma session_events:
  assumes "\<forall>c. Some c \<in> set es \<longrightarrow> change_message G i c = Inr (msg c)"
  shows "fold_res (session_event G T i) es s = fold_res (session_sender.event T) (map (map_option msg) es) s"
  using assms
proof (induction es arbitrary: s)
  case (Cons e es)
  have "session_event G T i e s = session_sender.event T (map_option msg e) s"
    using Cons.prems
    by (cases e) (simp_all add: session_event_def session_sender.event_def session_notify)
  moreover have "fold_res (session_event G T i) es = fold_res (session_sender.event T) (map (map_option msg) es)"
    by (rule ext) (use Cons in simp)
  ultimately show ?case by simp
qed simp

text \<open>The client reading the messages of changes queues these changes, all but the clearing ones.\<close>

definition queued_changes :: "int \<Rightarrow> 'p change list \<Rightarrow> 'p differential list" where
  "queued_changes i cs = [(i, wire_change c). c \<leftarrow> cs, c \<noteq> Cleared]"

lemma client_reads_changes:
  assumes "gregorian_ok G" and "text_ok T" and "int32 i"
  shows "\<forall>c \<in> set cs. change_ok G c \<and> change_message G i c = Inr (msg c) \<Longrightarrow>
    \<exists>nc'. fold_res (client_bodyRead G T) (map (\<lambda>c. dump T (msg c)) cs) nc = Inr nc'
      \<and> cq_pending (nc_changes nc') = cq_pending (nc_changes nc) @ queued_changes i cs"
proof (induction cs arbitrary: nc)
  case (Cons c cs)
  have c: "change_ok G c" "change_message G i c = Inr (msg c)" using Cons.prems by auto
  let ?nc = "if c = Cleared then nc else client_streamChange i (wire_change c) nc"
  have "client_bodyRead G T (dump T (msg c)) nc = Inr ?nc"
    using change_message_processed [OF assms(1) c(1) assms(3), of nc] c(2) assms(2)
    by (auto simp: client_bodyRead_def text_ok_def)
  moreover obtain nc' where "fold_res (client_bodyRead G T) (map (\<lambda>c. dump T (msg c)) cs) ?nc = Inr nc'"
      "cq_pending (nc_changes nc') = cq_pending (nc_changes ?nc) @ queued_changes i cs"
    using Cons.IH [of ?nc] Cons.prems by auto
  ultimately show ?case
    by (auto simp: queued_changes_def client_streamChange_def addStreamChange_def)
qed (simp add: queued_changes_def)

section \<open>Properties\<close>

text \<open>End to end, from the server's observer to the client's queue of changes: for every sequence of changes
  and finished writes on a fresh session and however the bytes written are cut up on the way, no handler fails
  and the client queues, under its own stream id and in order, the changes whose messages were written, up to
  what the format drops.  The clearing of a stream is the exception: the client ignores its message.\<close>

lemma changes_reach_client:
  assumes "gregorian_ok G" and "text_ok T" and "int32 i"
    and "\<forall>c. Some c \<in> set es \<longrightarrow> change_ok G c \<and> (\<forall>j. change_message G i c = Inr j \<longrightarrow> fits (dump T j))"
    and "fold_res (session_event G T i) es mk_net_session = Inr s"
    and "concat chunks = ns_wire s"
  shows "\<exists>n msgs nc'. receive (WaitHeader, []) chunks = (msgs, WaitHeader, [])
    \<and> fold_res (client_bodyRead G T) msgs nc = Inr nc'
    \<and> n + length (ns_outgoing s) = length [c. Some c \<leftarrow> es]
    \<and> cq_pending (nc_changes nc') = cq_pending (nc_changes nc) @ queued_changes i (take n [c. Some c \<leftarrow> es])"
proof -
  let ?cs = "[c. Some c \<leftarrow> es]"
  define msg where "msg c = (case change_message G i c of Inr j \<Rightarrow> j | Inl _ \<Rightarrow> JNull)" for c
  have in_cs: "c \<in> set ?cs \<longleftrightarrow> Some c \<in> set es" for c by (auto split: option.splits)
  have msg: "change_message G i c = Inr (msg c)" if sc: "Some c \<in> set es" for c
  proof -
    obtain j where "change_message G i c = Inr j"
      using change_message_processed [OF assms(1) _ assms(3), of c] assms(4) sc by blast
    then show ?thesis by (simp add: msg_def)
  qed
  have run: "fold_res (session_sender.event T) (map (map_option msg) es) mk_net_session = Inr s"
    using session_events [of es G i msg T] msg assms(5) by simp
  have ok: "session_sender.sender_ok T [] mk_net_session"
    using assms(2) by (simp add: session_sender.sender_ok_def session_active_def mk_net_session_def)
  have "\<forall>m. Some m \<in> set (map (map_option msg) es) \<longrightarrow> is_message m"
  proof (intro allI impI)
    fix m assume "Some m \<in> set (map (map_option msg) es)"
    then obtain c where "Some c \<in> set es" "m = msg c" by (auto simp: map_option_case split: option.splits)
    then show "is_message m" using change_message_is_message [OF msg [of c]] by simp
  qed
  then have sent: "session_sender.sender_ok T (session_sender.sent_by T (map (map_option msg) es)) s"
    using session_sender.events_ok [OF ok] run by fastforce
  have sent_by: "session_sender.sent_by T (map (map_option msg) es) = map (\<lambda>c. dump T (msg c)) ?cs"
    by (induction es) (auto simp: session_sender.sent_by_def split: option.splits)
  obtain gone where gone: "map (\<lambda>c. dump T (msg c)) ?cs = gone @ ns_outgoing s" "ns_wire s = concat (map frame gone)"
    using sent unfolding session_sender.sender_ok_def sent_by by auto
  define n where "n = length gone"
  have len: "n + length (ns_outgoing s) = length ?cs" using arg_cong [OF gone(1), of length] by (simp add: n_def)
  have gone_eq: "gone = map (\<lambda>c. dump T (msg c)) (take n ?cs)"
    using arg_cong [OF gone(1), of "take n"] by (simp add: n_def take_map)
  have "fits (dump T (msg c))" if "c \<in> set ?cs" for c
    using that assms(4) msg in_cs by blast
  then have "list_all fits gone"
    unfolding gone_eq by (auto simp: list_all_iff dest: in_set_takeD)
  then have "receive (WaitHeader, []) chunks = (gone, WaitHeader, [])"
    using gone(2) assms(6) by (intro receive_frames) simp_all
  moreover have "\<forall>c \<in> set (take n ?cs). change_ok G c \<and> change_message G i c = Inr (msg c)"
    using assms(4) msg in_cs by (meson in_set_takeD)
  ultimately show ?thesis
    using client_reads_changes [OF assms(1-3), of "take n ?cs" msg nc] len gone_eq by blast
qed

end
