(* ===== verification/CancelToken.thy ===== *)
theory CancelToken
  imports Prelude "HOL-Library.Multiset"
begin

text \<open>
  \<open>fas::detail::CancellationTokenState\<close>: the flag shared by the source and the tokens of a computation,
  with the callbacks to spawn when it is cancelled.  A callback is its executor with the token of its
  function, and spawning it hands both to the executor; the mutex makes the section it guards one step.
\<close>

section \<open>State and operations\<close>

type_synonym callback = "nat \<times> nat"

record token_state =
  ts_canceled :: bool
  ts_callbacks :: "callback list"

definition new_token :: token_state where
  "new_token = \<lparr>ts_canceled = False, ts_callbacks = []\<rparr>"

text \<open>\<open>cancel\<close> first exchanges the flag, and only the caller that turned it on goes on to take the lock.\<close>

definition cancel_exchange :: "token_state \<Rightarrow> bool \<times> token_state" where
  "cancel_exchange t = (\<not> ts_canceled t, t\<lparr>ts_canceled := True\<rparr>)"

definition cancel_flush :: "token_state \<Rightarrow> callback list \<times> token_state" where
  "cancel_flush t = (ts_callbacks t, t\<lparr>ts_callbacks := []\<rparr>)"

text \<open>The whole of \<open>cancel\<close>, and \<open>subscribe\<close>; both give the callbacks they spawn.\<close>

definition cancel :: "token_state \<Rightarrow> callback list \<times> token_state" where
  "cancel t = (let (turned, t') = cancel_exchange t in if turned then cancel_flush t' else ([], t'))"

definition subscribe :: "callback \<Rightarrow> token_state \<Rightarrow> callback list \<times> token_state" where
  "subscribe cb t =
     (if ts_canceled t then ([cb], t) else ([], t\<lparr>ts_callbacks := ts_callbacks t @ [cb]\<rparr>))"

section \<open>Interleavings\<close>

text \<open>
  The steps of any number of threads: a subscription, the exchange of a cancellation, and the locked section
  of a cancellation whose exchange turned the flag on.  The state also counts those still to take the lock
  and collects what was spawned.
\<close>

datatype token_event = Subscribe callback | CancelStart | CancelLocked

record token_run =
  tr_state :: token_state
  tr_flushing :: nat
  tr_spawned :: "callback list"

definition new_run :: token_run where
  "new_run = \<lparr>tr_state = new_token, tr_flushing = 0, tr_spawned = []\<rparr>"

definition token_step :: "token_event \<Rightarrow> token_run \<Rightarrow> token_run" where
  "token_step e r =
     (case e of
        Subscribe cb \<Rightarrow>
          (let (sp, t) = subscribe cb (tr_state r)
           in r\<lparr>tr_state := t, tr_spawned := tr_spawned r @ sp\<rparr>)
      | CancelStart \<Rightarrow>
          (let (turned, t) = cancel_exchange (tr_state r)
           in r\<lparr>tr_state := t, tr_flushing := tr_flushing r + (if turned then 1 else 0)\<rparr>)
      | CancelLocked \<Rightarrow>
          (if tr_flushing r = 0 then r
           else let (sp, t) = cancel_flush (tr_state r)
                in r\<lparr>tr_state := t, tr_flushing := tr_flushing r - 1, tr_spawned := tr_spawned r @ sp\<rparr>))"

definition subscribed :: "token_event list \<Rightarrow> callback list" where
  "subscribed es = concat (map (\<lambda>e. case e of Subscribe cb \<Rightarrow> [cb] | _ \<Rightarrow> []) es)"

definition token_inv :: "callback list \<Rightarrow> token_run \<Rightarrow> bool" where
  "token_inv cbs r \<longleftrightarrow>
     mset (tr_spawned r) + mset (ts_callbacks (tr_state r)) = mset cbs
     \<and> (ts_canceled (tr_state r) \<and> tr_flushing r = 0 \<longrightarrow> ts_callbacks (tr_state r) = [])
     \<and> (\<not> ts_canceled (tr_state r) \<longrightarrow> tr_flushing r = 0 \<and> tr_spawned r = [])"

lemma token_step_inv: "token_inv cbs r \<Longrightarrow> token_inv (cbs @ subscribed [e]) (token_step e r)"
  by (cases e) (auto simp: token_inv_def token_step_def subscribed_def subscribe_def cancel_exchange_def cancel_flush_def
      Let_def ac_simps)

lemma token_run_inv: "token_inv cbs r \<Longrightarrow> token_inv (cbs @ subscribed es) (fold token_step es r)"
proof (induction es arbitrary: cbs r)
  case Nil
  then show ?case by (simp add: subscribed_def)
next
  case (Cons e es)
  show ?case using Cons.IH [OF token_step_inv [OF Cons.prems, of e]] by (simp add: subscribed_def)
qed

lemma cancel_is_both_steps:
  "tr_flushing r = 0 \<Longrightarrow> fold token_step [CancelStart, CancelLocked] r
     = (let (sp, t) = cancel (tr_state r) in r\<lparr>tr_state := t, tr_spawned := tr_spawned r @ sp\<rparr>)"
  by (auto simp: token_step_def cancel_def cancel_exchange_def cancel_flush_def Let_def)

lemma step_keeps_canceled: "ts_canceled (tr_state r) \<Longrightarrow> ts_canceled (tr_state (token_step e r))"
  by (cases e) (auto simp: token_step_def subscribe_def cancel_exchange_def cancel_flush_def Let_def)

lemma run_canceled:
  "ts_canceled (tr_state (fold token_step es r)) \<longleftrightarrow> ts_canceled (tr_state r) \<or> CancelStart \<in> set es"
proof (induction es arbitrary: r)
  case (Cons e es)
  have "ts_canceled (tr_state (token_step e r)) \<longleftrightarrow> ts_canceled (tr_state r) \<or> e = CancelStart"
    by (cases e) (auto simp: token_step_def subscribe_def cancel_exchange_def cancel_flush_def Let_def)
  then show ?case using Cons.IH [of "token_step e r"] by auto
qed simp

section \<open>Properties\<close>

text \<open>C39 However subscriptions and cancellations interleave, each callback is spawned at most once and is otherwise
  still waiting; none is spawned before a cancellation starts, and once a cancellation has started and none is
  still to take the lock, exactly the subscribed callbacks have been spawned.\<close>

theorem callbacks_spawned_once:
  "let r = fold token_step es new_run in
     mset (tr_spawned r) + mset (ts_callbacks (tr_state r)) = mset (subscribed es)
     \<and> (if CancelStart \<in> set es
        then (if tr_flushing r = 0 then mset (tr_spawned r) = mset (subscribed es) else True)
        else tr_spawned r = [])"
proof -
  have "token_inv [] new_run" by (simp add: token_inv_def new_run_def new_token_def)
  from token_run_inv [OF this, of es] run_canceled [of es new_run]
  show ?thesis by (auto simp: token_inv_def Let_def new_run_def new_token_def)
qed

end
