(* ===== verification/Executors.thy ===== *)
theory Executors
  imports Prelude
begin

text \<open>
  The executors of \<open>src/fas\<close>.  A job changes a state of its own and may spawn further jobs on the executor
  that runs it; \<open>exec\<close> is that effect, a parameter.
\<close>

section \<open>QueueExecutor\<close>

text \<open>
  The state is the deque of jobs.  \<open>run\<close> takes jobs from the front until the queue is empty, which may never
  happen when jobs keep spawning jobs: not returning is \<open>None\<close>.
\<close>

definition spawn :: "'j \<Rightarrow> 'j list \<Rightarrow> 'j list" where
  "spawn job jobs = jobs @ [job]"

definition jobCount :: "'j list \<Rightarrow> nat" where
  "jobCount jobs = length jobs"

definition spawn_all :: "'j list \<Rightarrow> 'j list \<Rightarrow> 'j list" where
  "spawn_all new jobs = fold spawn new jobs"

partial_function (option) queue_run :: "('j \<Rightarrow> 's \<Rightarrow> 'j list \<times> 's) \<Rightarrow> 'j list \<Rightarrow> 's \<Rightarrow> 's option" where
  "queue_run exec jobs s =
     (case jobs of
        [] \<Rightarrow> Some s
      | job # rest \<Rightarrow> (let (new, s') = exec job s in queue_run exec (spawn_all new rest) s'))"

partial_function (option) runWrongOrder :: "('j \<Rightarrow> 's \<Rightarrow> 'j list \<times> 's) \<Rightarrow> 'j list \<Rightarrow> 's \<Rightarrow> 's option" where
  "runWrongOrder exec jobs s =
     (if jobs = [] then Some s
      else (let (new, s') = exec (last jobs) s in runWrongOrder exec (spawn_all new (butlast jobs)) s'))"

section \<open>ThreadedExecutor\<close>

text \<open>
  The job queue is shared by the callers of \<open>spawn\<close> and the executor's thread; each locked section is one step.
  The thread takes a job only while the quit flag is off, and leaves its loop when it sees the flag.  The
  \<open>te_done\<close> component collects the jobs it ran.
\<close>

record 'j threaded =
  te_jobs :: "'j list"
  te_running :: bool
  te_quit :: bool
  te_done :: "'j list"

definition new_threaded :: "'j threaded" where
  "new_threaded = \<lparr>te_jobs = [], te_running = False, te_quit = False, te_done = []\<rparr>"

definition threaded_spawn :: "'j \<Rightarrow> 'j threaded \<Rightarrow> 'j threaded" where
  "threaded_spawn job t = t\<lparr>te_jobs := te_jobs t @ [job]\<rparr>"

definition threaded_start :: "'j threaded \<Rightarrow> 'j threaded res" where
  "threaded_start t = assert_that (\<not> te_running t) (Inr (t\<lparr>te_quit := False, te_running := True\<rparr>))"

text \<open>One pass of the loop of \<open>threadMain\<close>; \<open>None\<close> while it waits.\<close>

definition threadMain :: "'j threaded \<Rightarrow> 'j threaded option" where
  "threadMain t =
     (if \<not> te_running t then None
      else if te_quit t then Some (t\<lparr>te_running := False\<rparr>)
      else case te_jobs t of
             [] \<Rightarrow> None
           | job # rest \<Rightarrow> Some (t\<lparr>te_jobs := rest, te_done := te_done t @ [job]\<rparr>))"

text \<open>\<open>stop\<close> sets the flag; its join is over when the thread has left its loop.\<close>

definition threaded_stop :: "'j threaded \<Rightarrow> 'j threaded res" where
  "threaded_stop t = assert_that (te_running t) (Inr (t\<lparr>te_quit := True\<rparr>))"

datatype 'j threaded_event = TSpawn 'j | TStep | TStop

definition threaded_step :: "'j threaded_event \<Rightarrow> 'j threaded \<Rightarrow> 'j threaded" where
  "threaded_step e t =
     (case e of
        TSpawn job \<Rightarrow> threaded_spawn job t
      | TStep \<Rightarrow> (case threadMain t of None \<Rightarrow> t | Some t' \<Rightarrow> t')
      | TStop \<Rightarrow> (case threaded_stop t of Inl _ \<Rightarrow> t | Inr t' \<Rightarrow> t'))"

definition spawned_jobs :: "'j threaded_event list \<Rightarrow> 'j list" where
  "spawned_jobs es = concat (map (\<lambda>e. case e of TSpawn job \<Rightarrow> [job] | _ \<Rightarrow> []) es)"

section \<open>Lemmas\<close>

lemma spawn_all_append: "spawn_all new jobs = jobs @ new"
  unfolding spawn_all_def by (induction new arbitrary: jobs) (auto simp: spawn_def)

text \<open>Jobs that spawn nothing: the queue runs them in the order they were spawned, or in the reverse order.\<close>

lemma queue_run_fifo:
  assumes "\<And>job s. fst (exec job s) = []"
  shows "queue_run exec jobs s = Some (fold (\<lambda>job s. snd (exec job s)) jobs s)"
proof (induction jobs arbitrary: s)
  case (Cons job jobs)
  show ?case
    using assms [of job s] Cons.IH
    by (subst queue_run.simps) (simp add: Let_def split_beta spawn_all_append)
qed (subst queue_run.simps, simp)

lemma runWrongOrder_lifo:
  assumes "\<And>job s. fst (exec job s) = []"
  shows "runWrongOrder exec jobs s = Some (foldr (\<lambda>job s. snd (exec job s)) jobs s)"
proof (induction jobs arbitrary: s rule: rev_induct)
  case (snoc job jobs)
  show ?case
    using assms [of job s] snoc.IH
    by (subst runWrongOrder.simps) (simp add: Let_def split_beta spawn_all_append)
qed (subst runWrongOrder.simps, simp)

lemma threaded_run_jobs:
  "te_done (fold threaded_step es t) @ te_jobs (fold threaded_step es t) = te_done t @ te_jobs t @ spawned_jobs es"
proof (induction es arbitrary: t)
  case (Cons e es)
  have "te_done (threaded_step e t) @ te_jobs (threaded_step e t) = te_done t @ te_jobs t @ spawned_jobs [e]"
    by (cases e) (auto simp: threaded_step_def threaded_spawn_def threadMain_def threaded_stop_def assert_that_def
        spawned_jobs_def split: list.splits)
  then show ?case using Cons.IH [of "threaded_step e t"] by (simp add: spawned_jobs_def)
qed (simp add: spawned_jobs_def)

lemma threaded_quit_keeps:
  "te_quit t \<Longrightarrow> te_quit (fold threaded_step es t) \<and> te_done (fold threaded_step es t) = te_done t"
proof (induction es arbitrary: t)
  case (Cons e es)
  have "te_quit (threaded_step e t) \<and> te_done (threaded_step e t) = te_done t"
    using Cons.prems
    by (cases e) (auto simp: threaded_step_def threaded_spawn_def threadMain_def threaded_stop_def assert_that_def
        split: list.splits)
  then show ?case using Cons.IH [of "threaded_step e t"] by simp
qed simp

lemma threaded_running_keeps:
  "te_running t \<Longrightarrow> \<not> te_quit t \<Longrightarrow> TStop \<notin> set es \<Longrightarrow>
     te_running (fold threaded_step es t) \<and> \<not> te_quit (fold threaded_step es t)"
proof (induction es arbitrary: t)
  case (Cons e es)
  have "te_running (threaded_step e t) \<and> \<not> te_quit (threaded_step e t)"
    using Cons.prems
    by (cases e) (auto simp: threaded_step_def threaded_spawn_def threadMain_def split: list.splits)
  then show ?case using Cons.IH [of "threaded_step e t"] Cons.prems by simp
qed simp

section \<open>Properties\<close>

text \<open>C40 The threaded executor runs the jobs it is given in the order they were spawned, each once: at any moment
  those run followed by those waiting are the spawned ones.  After \<open>stop\<close> it runs no further job, whatever the
  thread and the callers of \<open>spawn\<close> do, and the next pass of the thread ends its loop.\<close>

theorem threaded_executor_in_order:
  assumes "threaded_start new_threaded = Inr t0" and "TStop \<notin> set es"
  shows "let t = fold threaded_step es t0; t' = fold threaded_step es' (threaded_step TStop t) in
     te_done t @ te_jobs t = spawned_jobs es
     \<and> te_done t' = te_done t \<and> te_done t' @ te_jobs t' = spawned_jobs (es @ es')
     \<and> threadMain (threaded_step TStop t) = Some ((threaded_step TStop t)\<lparr>te_running := False\<rparr>)"
proof -
  define t where "t = fold threaded_step es t0"
  have t0: "te_done t0 = []" "te_jobs t0 = []" "te_running t0" "\<not> te_quit t0"
    using assms(1) by (auto simp: threaded_start_def new_threaded_def)
  have run: "te_running t" "\<not> te_quit t"
    using threaded_running_keeps [OF t0(3,4) assms(2)] by (simp_all add: t_def)
  have jobs: "te_done t @ te_jobs t = spawned_jobs es"
    using threaded_run_jobs [of es t0] t0 by (simp add: t_def)
  have stop: "threaded_step TStop t = t\<lparr>te_quit := True\<rparr>"
    using run by (simp add: threaded_step_def threaded_stop_def)
  show ?thesis
    using jobs run threaded_quit_keeps [of "t\<lparr>te_quit := True\<rparr>" es'] threaded_run_jobs [of es' "t\<lparr>te_quit := True\<rparr>"]
    by (simp add: t_def [symmetric] stop Let_def threadMain_def spawned_jobs_def flip: append_assoc)
qed

theorem threaded_executor_in_order_witness:
  "\<exists>t0 :: nat threaded. threaded_start new_threaded = Inr t0
     \<and> te_done (fold threaded_step [TSpawn 1, TSpawn 2, TStep, TStop, TStep, TSpawn 3] t0) = [1]"
proof -
  obtain t0 :: "nat threaded" where t0: "threaded_start new_threaded = Inr t0"
    by (simp add: threaded_start_def new_threaded_def)
  have "te_done (fold threaded_step [TSpawn 1, TSpawn 2, TStep] t0) = [1]"
    using t0 by (auto simp: threaded_start_def new_threaded_def threaded_step_def threaded_spawn_def threadMain_def)
  then show ?thesis
    using threaded_executor_in_order [OF t0, of "[TSpawn 1, TSpawn 2, TStep]" "[TStep, TSpawn 3]"] t0 by (simp add: Let_def)
qed

end
