(* ===== verification/Futures.thy ===== *)
theory Futures
  imports CancelToken
begin

text \<open>
  \<open>fas::Future\<close> and \<open>fas::Promise\<close> (\<open>src/fas/future.h\<close>).  Shared states and cancellation states live in a store,
  addressed by their position; values of all types are one type \<open>'v\<close>, and a continuation function is a
  function on it.  A value that was moved out of a state is a constructor of its own, so that a second
  extraction shows.
\<close>

section \<open>Shared states\<close>

datatype 'v fvalue = Empty | Canceled | Holds 'v | MovedFrom

text \<open>\<open>FutureContinuationThen\<close>: the executor, the function, the state it completes and its token.\<close>

record 'v continuation =
  c_executor :: nat
  c_fn :: "'v \<Rightarrow> 'v"
  c_next :: nat
  c_token :: nat

record 'v future_state =
  fs_value :: "'v fvalue"
  fs_cont :: "'v continuation option"

definition new_state :: "'v future_state" where
  "new_state = \<lparr>fs_value = Empty, fs_cont = None\<rparr>"

text \<open>A job on an executor: the body of a continuation with its moved-in value, or a callback of a token.\<close>

datatype 'v job = RunThen "'v \<Rightarrow> 'v" 'v nat nat | RunCallback nat

text \<open>
  What is left to do of a run of \<open>executeFuture\<close>: \<open>next()\<close> on a state that was just made ready, or the loop with
  its continuation and completed state.
\<close>

datatype 'v thread = NextOf nat | Exec "'v continuation" nat

record future_handle =
  fh_state :: "nat option"
  fh_source :: "nat option"

record 'v world =
  w_states :: "'v future_state list"
  w_tokens :: "token_state list"
  w_jobs :: "(nat \<times> 'v job) list"

definition readyImpl :: "'v future_state \<Rightarrow> bool" where
  "readyImpl s = (case fs_value s of Empty \<Rightarrow> False | _ \<Rightarrow> True)"

definition hasValue :: "'v future_state \<Rightarrow> bool" where
  "hasValue s = (case fs_value s of Holds _ \<Rightarrow> True | MovedFrom \<Rightarrow> True | _ \<Rightarrow> False)"

text \<open>The operations of a state given by its address; following a dangling address is undefined.\<close>

definition state_at :: "nat \<Rightarrow> 'v world \<Rightarrow> 'v future_state res" where
  "state_at a w = (if a < length (w_states w) then Inr (w_states w ! a) else Inl UndefinedBehaviour)"

definition put_state :: "nat \<Rightarrow> 'v future_state \<Rightarrow> 'v world \<Rightarrow> 'v world" where
  "put_state a s w = w\<lparr>w_states := (w_states w)[a := s]\<rparr>"

definition set_result :: "nat \<Rightarrow> 'v fvalue \<Rightarrow> 'v world \<Rightarrow> 'v world res" where
  "set_result a v w =
     bindr (state_at a w) (\<lambda>s. assert_that (\<not> readyImpl s) (Inr (put_state a (s\<lparr>fs_value := v\<rparr>) w)))"

definition setValue :: "nat \<Rightarrow> 'v \<Rightarrow> 'v world \<Rightarrow> 'v world res" where
  "setValue a v w = set_result a (Holds v) w"

definition setCanceled :: "nat \<Rightarrow> 'v world \<Rightarrow> 'v world res" where
  "setCanceled a w = set_result a Canceled w"

definition next_cont :: "nat \<Rightarrow> 'v world \<Rightarrow> ('v continuation option \<times> 'v world) res" where
  "next_cont a w =
     bindr (state_at a w) (\<lambda>s. assert_that (readyImpl s) (Inr (fs_cont s, put_state a (s\<lparr>fs_cont := None\<rparr>) w)))"

definition chain_cont :: "nat \<Rightarrow> 'v continuation \<Rightarrow> 'v world \<Rightarrow> ('v continuation option \<times> 'v world) res" where
  "chain_cont a c w =
     bindr (state_at a w) (\<lambda>s.
       assert_that (fs_cont s = None)
         (if readyImpl s then Inr (Some c, w) else Inr (None, put_state a (s\<lparr>fs_cont := Some c\<rparr>) w)))"

definition extractValue :: "nat \<Rightarrow> 'v world \<Rightarrow> ('v \<times> 'v world) res" where
  "extractValue a w =
     bindr (state_at a w) (\<lambda>s.
       case fs_value s of
         Holds v \<Rightarrow> Inr (v, put_state a (s\<lparr>fs_value := MovedFrom\<rparr>) w)
       | MovedFrom \<Rightarrow> Inl UndefinedBehaviour
       | _ \<Rightarrow> Inl BadVariantAccess)"

definition isCanceled :: "nat \<Rightarrow> 'v world \<Rightarrow> bool" where
  "isCanceled t w = ts_canceled (w_tokens w ! t)"

section \<open>Continuations\<close>

text \<open>
  \<open>continueWith\<close> skips to the next continuation when the computation is cancelled, and otherwise hands the
  function with the value to the executor.  What is left to do is the \<open>next()\<close> of the state it completed.
\<close>

definition continueWith :: "'v continuation \<Rightarrow> nat \<Rightarrow> 'v world \<Rightarrow> ('v thread option \<times> 'v world) res" where
  "continueWith c a w =
     (if isCanceled (c_token c) w
      then bindr (setCanceled (c_next c) w) (\<lambda>w'. Inr (Some (NextOf (c_next c)), w'))
      else bindr (extractValue a w) (\<lambda>(v, w').
        Inr (None, w'\<lparr>w_jobs := w_jobs w' @ [(c_executor c, RunThen (c_fn c) v (c_next c) (c_token c))]\<rparr>)))"

definition thread_step :: "'v thread \<Rightarrow> 'v world \<Rightarrow> ('v thread option \<times> 'v world) res" where
  "thread_step t w =
     (case t of
        NextOf a \<Rightarrow> bindr (next_cont a w) (\<lambda>(c, w'). Inr (map_option (\<lambda>c. Exec c a) c, w'))
      | Exec c a \<Rightarrow> continueWith c a w)"

text \<open>
  The loop of \<open>executeFuture\<close>, run without interruption.  It ends because every turn that goes on makes an
  empty state ready.
\<close>

definition empties :: "'v world \<Rightarrow> nat" where
  "empties w = length [s \<leftarrow> w_states w. \<not> readyImpl s]"

definition thread_measure :: "'v thread option \<times> 'v world \<Rightarrow> nat" where
  "thread_measure = (\<lambda>(t, w). case t of None \<Rightarrow> 0 | Some (NextOf _) \<Rightarrow> 2 * empties w + 2 | Some (Exec _ _) \<Rightarrow> 2 * empties w + 1)"

lemma empties_update:
  assumes "a < length xs"
  shows "length [s \<leftarrow> xs[a := s']. \<not> readyImpl s] + (if readyImpl (xs ! a) then 0 else 1)
    = length [s \<leftarrow> xs. \<not> readyImpl s] + (if readyImpl s' then 0 else 1)"
proof -
  have "xs = take a xs @ xs ! a # drop (Suc a) xs" using assms by (rule id_take_nth_drop)
  then have "length [s \<leftarrow> xs. \<not> readyImpl s]
      = length [s \<leftarrow> take a xs. \<not> readyImpl s] + length [s \<leftarrow> xs ! a # drop (Suc a) xs. \<not> readyImpl s]"
    by (metis filter_append length_append)
  then show ?thesis using assms by (simp add: upd_conv_take_nth_drop)
qed

lemma empties_put:
  "a < length (w_states w) \<Longrightarrow>
     empties (put_state a s' w) + (if readyImpl (w_states w ! a) then 0 else 1) = empties w + (if readyImpl s' then 0 else 1)"
  using empties_update [of a "w_states w" s'] by (simp add: empties_def put_state_def)

lemma thread_step_decreases:
  "thread_step t w = Inr (t', w') \<Longrightarrow> thread_measure (t', w') < thread_measure (Some t, w)"
proof (cases t)
  case (NextOf a)
  assume step: "thread_step t w = Inr (t', w')"
  then have a: "a < length (w_states w)" and r: "readyImpl (w_states w ! a)"
    and t': "t' = map_option (\<lambda>c. Exec c a) (fs_cont (w_states w ! a))"
    and w': "w' = put_state a ((w_states w ! a)\<lparr>fs_cont := None\<rparr>) w"
    using NextOf by (auto simp: thread_step_def next_cont_def state_at_def split: if_splits)
  have "empties w' = empties w" using empties_put [OF a, of "(w_states w ! a)\<lparr>fs_cont := None\<rparr>"] r w' by (simp add: readyImpl_def)
  then show ?thesis using NextOf t' by (cases "fs_cont (w_states w ! a)") (simp_all add: thread_measure_def)
next
  case (Exec c a)
  assume step: "thread_step t w = Inr (t', w')"
  show ?thesis
  proof (cases "isCanceled (c_token c) w")
    case True
    then have n: "c_next c < length (w_states w)" "\<not> readyImpl (w_states w ! c_next c)" "t' = Some (NextOf (c_next c))"
      "w' = put_state (c_next c) ((w_states w ! c_next c)\<lparr>fs_value := Canceled\<rparr>) w"
      using step Exec
      by (auto simp: thread_step_def continueWith_def setCanceled_def set_result_def state_at_def split: if_splits)
    have "empties w' + 1 = empties w"
      using empties_put [OF n(1), of "(w_states w ! c_next c)\<lparr>fs_value := Canceled\<rparr>"] n by (simp add: readyImpl_def)
    then show ?thesis using Exec n(3) by (simp add: thread_measure_def)
  next
    case False
    then have "t' = None"
      using step Exec by (auto simp: thread_step_def continueWith_def split: if_splits)
    then show ?thesis using Exec by (simp add: thread_measure_def)
  qed
qed

function executeFuture :: "'v thread option \<Rightarrow> 'v world \<Rightarrow> 'v world res" where
  "executeFuture None w = Inr w"
| "executeFuture (Some t) w =
     (case thread_step t w of Inl e \<Rightarrow> Inl e | Inr (t', w') \<Rightarrow> executeFuture t' w')"
  by pat_completeness auto

termination
  by (relation "measure thread_measure") (auto dest: thread_step_decreases)

section \<open>Futures and promises\<close>

definition makePromise :: "'v world \<Rightarrow> (future_handle \<times> nat) \<times> 'v world" where
  "makePromise w =
     (let a = length (w_states w); t = length (w_tokens w)
      in ((\<lparr>fh_state = Some a, fh_source = Some t\<rparr>, a),
          w\<lparr>w_states := w_states w @ [new_state], w_tokens := w_tokens w @ [new_token]\<rparr>))"

definition future_isReady :: "future_handle \<Rightarrow> 'v world \<Rightarrow> bool res" where
  "future_isReady h w =
     (case fh_state h of None \<Rightarrow> Inr False | Some a \<Rightarrow> bindr (state_at a w) (\<lambda>s. Inr (readyImpl s)))"

text \<open>The source moves from the old future to the new one, whose state the continuation will complete.\<close>

definition future_then ::
    "future_handle \<Rightarrow> nat \<Rightarrow> ('v \<Rightarrow> 'v) \<Rightarrow> 'v world \<Rightarrow> (future_handle \<times> 'v thread option \<times> 'v world) res" where
  "future_then h executor fn w =
     (case (fh_state h, fh_source h) of
        (None, _) \<Rightarrow> Inl AssertFailed
      | (Some _, None) \<Rightarrow> Inl UndefinedBehaviour
      | (Some a, Some t) \<Rightarrow>
          (let n = length (w_states w); w' = w\<lparr>w_states := w_states w @ [new_state]\<rparr> in
           bindr (chain_cont a \<lparr>c_executor = executor, c_fn = fn, c_next = n, c_token = t\<rparr> w') (\<lambda>(c, w'').
             Inr (\<lparr>fh_state = Some n, fh_source = Some t\<rparr>, map_option (\<lambda>c. Exec c a) c, w''))))"

text \<open>Destroying or resetting a future cancels its source, which spawns the callbacks of the token.\<close>

definition source_cancel :: "nat \<Rightarrow> 'v world \<Rightarrow> 'v world" where
  "source_cancel t w =
     (let (cbs, ts) = cancel (w_tokens w ! t)
      in w\<lparr>w_tokens := (w_tokens w)[t := ts], w_jobs := w_jobs w @ map (\<lambda>(ex, f). (ex, RunCallback f)) cbs\<rparr>)"

definition future_reset :: "future_handle \<Rightarrow> 'v world \<Rightarrow> future_handle \<times> 'v world" where
  "future_reset h w =
     (\<lparr>fh_state = None, fh_source = None\<rparr>, case fh_source h of None \<Rightarrow> w | Some t \<Rightarrow> source_cancel t w)"

definition token_subscribe :: "nat \<Rightarrow> callback \<Rightarrow> 'v world \<Rightarrow> 'v world" where
  "token_subscribe t cb w =
     (let (cbs, ts) = subscribe cb (w_tokens w ! t)
      in w\<lparr>w_tokens := (w_tokens w)[t := ts], w_jobs := w_jobs w @ map (\<lambda>(ex, f). (ex, RunCallback f)) cbs\<rparr>)"

text \<open>\<open>get\<close> waits while the state is not ready, which is \<open>None\<close>.\<close>

definition future_get :: "future_handle \<Rightarrow> 'v world \<Rightarrow> ('v \<times> 'v world) option res" where
  "future_get h w =
     (case fh_state h of
        None \<Rightarrow> Inl AssertFailed
      | Some a \<Rightarrow> bindr (state_at a w) (\<lambda>s.
          if \<not> readyImpl s then Inr None
          else assert_that (hasValue s) (bindr (extractValue a w) (\<lambda>r. Inr (Some r)))))"

definition promise_resolve :: "nat \<Rightarrow> 'v \<Rightarrow> 'v world \<Rightarrow> ('v thread option \<times> 'v world) res" where
  "promise_resolve a v w = bindr (setValue a v w) (\<lambda>w'. Inr (Some (NextOf a), w'))"

text \<open>The job that \<open>continueWith\<close> spawned, up to its run of \<open>executeFuture\<close>.\<close>

definition run_job :: "'v job \<Rightarrow> 'v world \<Rightarrow> ('v thread option \<times> 'v world) res" where
  "run_job j w =
     (case j of
        RunThen fn v n t \<Rightarrow>
          bindr (if \<not> isCanceled t w then setValue n (fn v) w else setCanceled n w) (\<lambda>w'. Inr (Some (NextOf n), w'))
      | RunCallback _ \<Rightarrow> Inr (None, w))"

section \<open>Programs\<close>

text \<open>
  A program that uses futures: the handles and promises it holds, and the runs of \<open>executeFuture\<close> still going on
  in its threads.  Any thread may take its next step at any moment and executors may run any of their jobs, so
  the list of events is an arbitrary interleaving.  A promise is given up when it is resolved and a handle when
  it is chained on or destroyed.  \<open>p_origin\<close> and \<open>p_resolved\<close> are the program's text so far: for each state the
  token of its computation and the state and function it was chained with, and the values promises were given.
\<close>

type_synonym 'v origin = "nat \<times> (nat \<times> ('v \<Rightarrow> 'v)) option"

record 'v future_program =
  p_world :: "'v world"
  p_futures :: "future_handle list"
  p_promises :: "nat list"
  p_threads :: "'v thread list"
  p_origin :: "'v origin list"
  p_resolved :: "(nat \<times> 'v) list"

definition empty_program :: "'v future_program" where
  "empty_program =
     \<lparr>p_world = \<lparr>w_states = [], w_tokens = [], w_jobs = []\<rparr>, p_futures = [], p_promises = [], p_threads = [],
      p_origin = [], p_resolved = []\<rparr>"

datatype 'v future_event =
    MakePromise
  | ThenOn nat nat "'v \<Rightarrow> 'v"
  | Resolve nat 'v
  | ResetFuture nat
  | SubscribeToken nat callback
  | ThreadStep nat
  | RunJob nat

definition remove_at :: "nat \<Rightarrow> 'a list \<Rightarrow> 'a list" where
  "remove_at k xs = take k xs @ drop (Suc k) xs"

definition thread_list :: "'v thread option \<Rightarrow> 'v thread list" where
  "thread_list t = (case t of None \<Rightarrow> [] | Some t \<Rightarrow> [t])"

definition program_step :: "'v future_event \<Rightarrow> 'v future_program \<Rightarrow> 'v future_program res" where
  "program_step e p =
     (case e of
        MakePromise \<Rightarrow>
          (let ((h, q), w) = makePromise (p_world p)
           in Inr (p\<lparr>p_world := w, p_futures := p_futures p @ [h], p_promises := p_promises p @ [q],
                     p_origin := p_origin p @ [(length (w_tokens (p_world p)), None)]\<rparr>))
      | ThenOn k executor fn \<Rightarrow>
          (if k < length (p_futures p)
           then let h = p_futures p ! k in
             bindr (future_then h executor fn (p_world p)) (\<lambda>(h', t, w).
               Inr (p\<lparr>p_world := w, p_futures := remove_at k (p_futures p) @ [h'], p_threads := p_threads p @ thread_list t,
                      p_origin := p_origin p @ [(the (fh_source h), Some (the (fh_state h), fn))]\<rparr>))
           else Inr p)
      | Resolve k v \<Rightarrow>
          (if k < length (p_promises p)
           then bindr (promise_resolve (p_promises p ! k) v (p_world p)) (\<lambda>(t, w).
             Inr (p\<lparr>p_world := w, p_promises := remove_at k (p_promises p), p_threads := p_threads p @ thread_list t,
                    p_resolved := p_resolved p @ [(p_promises p ! k, v)]\<rparr>))
           else Inr p)
      | ResetFuture k \<Rightarrow>
          (if k < length (p_futures p)
           then Inr (p\<lparr>p_world := snd (future_reset (p_futures p ! k) (p_world p)),
                       p_futures := remove_at k (p_futures p)\<rparr>)
           else Inr p)
      | SubscribeToken t cb \<Rightarrow>
          (if t < length (w_tokens (p_world p)) then Inr (p\<lparr>p_world := token_subscribe t cb (p_world p)\<rparr>) else Inr p)
      | ThreadStep k \<Rightarrow>
          (if k < length (p_threads p)
           then bindr (thread_step (p_threads p ! k) (p_world p)) (\<lambda>(t, w).
             Inr (p\<lparr>p_world := w, p_threads := remove_at k (p_threads p) @ thread_list t\<rparr>))
           else Inr p)
      | RunJob k \<Rightarrow>
          (if k < length (w_jobs (p_world p))
           then bindr (run_job (snd (w_jobs (p_world p) ! k))
                        ((p_world p)\<lparr>w_jobs := remove_at k (w_jobs (p_world p))\<rparr>)) (\<lambda>(t, w).
             Inr (p\<lparr>p_world := w, p_threads := p_threads p @ thread_list t\<rparr>))
           else Inr p))"

text \<open>The value a state is to hold: that of its promise, passed through the functions chained on the way.\<close>

function expected :: "'v origin list \<Rightarrow> (nat \<times> 'v) list \<Rightarrow> nat \<Rightarrow> 'v option" where
  "expected os rs a =
     (case snd (os ! a) of
        None \<Rightarrow> map_of rs a
      | Some (b, f) \<Rightarrow> (if b < a then map_option f (expected os rs b) else None))"
  by pat_completeness auto

termination
  by (relation "measure (\<lambda>(_, _, a). a)") auto

declare expected.simps [simp del]

definition quiescent :: "'v future_program \<Rightarrow> bool" where
  "quiescent p \<longleftrightarrow> p_promises p = [] \<and> p_threads p = [] \<and> w_jobs (p_world p) = []"

section \<open>The invariant\<close>

lemma expected_append_origin: "a < length os \<Longrightarrow> expected (os @ xs) rs a = expected os rs a"
  by (induction a rule: less_induct) (subst (1 2) expected.simps, auto simp: nth_append split: option.splits)

lemma expected_append_resolved: "expected os rs a = Some v \<Longrightarrow> expected os (rs @ xs) a = Some v"
proof (induction a arbitrary: v rule: less_induct)
  case (less a)
  show ?case
    using less.prems less.IH
    by (subst expected.simps, subst (asm) expected.simps) (auto split: option.splits if_splits)
qed

lemma sum_remove_at:
  fixes f :: "'a \<Rightarrow> nat"
  assumes "k < length xs"
  shows "sum_list (map f (remove_at k xs)) + f (xs ! k) = sum_list (map f xs)"
  using arg_cong [OF id_take_nth_drop [OF assms], of "\<lambda>ys. sum_list (map f ys)"] by (simp add: remove_at_def)

lemma sum_list_put:
  fixes f :: "'a \<Rightarrow> nat"
  assumes "k < length xs"
  shows "sum_list (map f (xs[k := x])) + f (xs ! k) = sum_list (map f xs) + f x"
  using arg_cong [OF id_take_nth_drop [OF assms], of "\<lambda>ys. sum_list (map f ys)"] assms
  by (simp add: upd_conv_take_nth_drop)

lemma set_remove_at: "set (remove_at k xs) \<subseteq> set xs"
  by (auto simp: remove_at_def dest: in_set_takeD in_set_dropD)

lemma in_remove_at: "x \<in> set xs \<Longrightarrow> x \<noteq> xs ! k \<Longrightarrow> x \<in> set (remove_at k xs)"
proof (cases "k < length xs")
  case True
  assume "x \<in> set xs" "x \<noteq> xs ! k"
  then have "x \<in> set (take k xs @ xs ! k # drop (Suc k) xs)" using id_take_nth_drop [OF True] by simp
  then show ?thesis using \<open>x \<noteq> xs ! k\<close> by (simp add: remove_at_def)
qed (simp add: remove_at_def)

text \<open>
  Each empty state has exactly one writer: a promise, a continuation still to run, or a job.  Each state has at
  most one reader (a handle, a continuation stored in it or running on it), or its value has been moved out.
\<close>

definition thread_target :: "nat \<Rightarrow> 'v thread \<Rightarrow> nat" where
  "thread_target a t = (case t of NextOf _ \<Rightarrow> 0 | Exec c _ \<Rightarrow> of_bool (c_next c = a))"

definition job_target :: "nat \<Rightarrow> nat \<times> 'v job \<Rightarrow> nat" where
  "job_target a j = (case snd j of RunThen _ _ n _ \<Rightarrow> of_bool (n = a) | RunCallback _ \<Rightarrow> 0)"

definition state_target :: "nat \<Rightarrow> 'v future_state \<Rightarrow> nat" where
  "state_target a s = (case fs_cont s of None \<Rightarrow> 0 | Some c \<Rightarrow> of_bool (c_next c = a))"

definition promise_target :: "nat \<Rightarrow> nat \<Rightarrow> nat" where
  "promise_target a q = of_bool (q = a)"

definition writers :: "'v future_program \<Rightarrow> nat \<Rightarrow> nat" where
  "writers p a =
     sum_list (map (promise_target a) (p_promises p)) + sum_list (map (thread_target a) (p_threads p))
     + sum_list (map (job_target a) (w_jobs (p_world p))) + sum_list (map (state_target a) (w_states (p_world p)))"

definition handle_reads :: "nat \<Rightarrow> future_handle \<Rightarrow> nat" where
  "handle_reads a h = of_bool (fh_state h = Some a)"

definition thread_reads :: "nat \<Rightarrow> 'v thread \<Rightarrow> nat" where
  "thread_reads a t = (case t of NextOf _ \<Rightarrow> 0 | Exec _ b \<Rightarrow> of_bool (b = a))"

definition state_reads :: "'v future_state \<Rightarrow> nat" where
  "state_reads s = of_bool (fs_cont s \<noteq> None) + (case fs_value s of MovedFrom \<Rightarrow> 1 | _ \<Rightarrow> 0)"

definition readers :: "'v future_program \<Rightarrow> nat \<Rightarrow> nat" where
  "readers p a =
     sum_list (map (handle_reads a) (p_futures p)) + sum_list (map (thread_reads a) (p_threads p))
     + (if a < length (w_states (p_world p)) then state_reads (w_states (p_world p) ! a) else 0)"

definition cont_ok :: "'v origin list \<Rightarrow> nat \<Rightarrow> 'v continuation \<Rightarrow> bool" where
  "cont_ok os a c \<longleftrightarrow> a < c_next c \<and> c_next c < length os \<and> c_token c = fst (os ! a)
     \<and> os ! c_next c = (fst (os ! a), Some (a, c_fn c))"

definition state_ok :: "'v future_program \<Rightarrow> nat \<Rightarrow> bool" where
  "state_ok p a \<longleftrightarrow>
     (let s = w_states (p_world p) ! a; t = fst (p_origin p ! a) in
      t < length (w_tokens (p_world p))
      \<and> (\<forall>c. fs_cont s = Some c \<longrightarrow> cont_ok (p_origin p) a c \<and> (readyImpl s \<longrightarrow> NextOf a \<in> set (p_threads p)))
      \<and> (fs_value s = Canceled \<longrightarrow> isCanceled t (p_world p))
      \<and> (\<forall>v. fs_value s = Holds v \<longrightarrow> expected (p_origin p) (p_resolved p) a = Some v))"

definition thread_ok :: "'v future_program \<Rightarrow> 'v thread \<Rightarrow> bool" where
  "thread_ok p t =
     (case t of
        NextOf a \<Rightarrow> a < length (w_states (p_world p)) \<and> readyImpl (w_states (p_world p) ! a)
      | Exec c a \<Rightarrow> cont_ok (p_origin p) a c \<and> readyImpl (w_states (p_world p) ! a))"

definition job_ok :: "'v future_program \<Rightarrow> nat \<times> 'v job \<Rightarrow> bool" where
  "job_ok p j =
     (case snd j of
        RunThen f v n t \<Rightarrow> n < length (p_origin p) \<and> t = fst (p_origin p ! n)
          \<and> expected (p_origin p) (p_resolved p) n = Some (f v)
      | RunCallback _ \<Rightarrow> True)"

definition handle_ok :: "'v future_program \<Rightarrow> future_handle \<Rightarrow> bool" where
  "handle_ok p h = (case fh_state h of None \<Rightarrow> False
     | Some a \<Rightarrow> a < length (p_origin p) \<and> fh_source h = Some (fst (p_origin p ! a)))"

definition promise_ok :: "'v future_program \<Rightarrow> nat \<Rightarrow> bool" where
  "promise_ok p q \<longleftrightarrow> q < length (p_origin p) \<and> snd (p_origin p ! q) = None \<and> q \<notin> fst ` set (p_resolved p)"

definition program_ok :: "'v future_program \<Rightarrow> bool" where
  "program_ok p \<longleftrightarrow>
     (\<forall>a. writers p a = of_bool (a < length (w_states (p_world p)) \<and> \<not> readyImpl (w_states (p_world p) ! a)))
     \<and> (\<forall>a. readers p a \<le> 1)
     \<and> length (p_origin p) = length (w_states (p_world p))
     \<and> (\<forall>a < length (w_states (p_world p)). state_ok p a)
     \<and> (\<forall>t \<in> set (p_threads p). thread_ok p t)
     \<and> (\<forall>j \<in> set (w_jobs (p_world p)). job_ok p j)
     \<and> (\<forall>h \<in> set (p_futures p). handle_ok p h)
     \<and> (\<forall>q \<in> set (p_promises p). promise_ok p q)
     \<and> (\<forall>(q, v) \<in> set (p_resolved p). q < length (w_states (p_world p)) \<and> readyImpl (w_states (p_world p) ! q))"

lemma member_le_sum:
  fixes f :: "'a \<Rightarrow> nat"
  shows "x \<in> set xs \<Longrightarrow> f x \<le> sum_list (map f xs)"
  by (simp add: member_le_sum_list)

lemma empty_program_ok: "program_ok empty_program"
  by (simp add: program_ok_def empty_program_def writers_def readers_def)

lemma state_of_writer:
  assumes "program_ok p" and "0 < writers p a"
  shows "a < length (w_states (p_world p))" and "\<not> readyImpl (w_states (p_world p) ! a)"
  using assms unfolding program_ok_def by (auto simp: of_bool_def split: if_splits)

lemmas program_simps = program_step_def Let_def thread_list_def put_state_def state_at_def

definition grows :: "'v future_program \<Rightarrow> 'v future_program \<Rightarrow> bool" where
  "grows p p' \<longleftrightarrow>
     (\<exists>xs. p_origin p' = p_origin p @ xs) \<and> (\<exists>ys. p_resolved p' = p_resolved p @ ys)
     \<and> length (w_tokens (p_world p)) \<le> length (w_tokens (p_world p'))
     \<and> (\<forall>t < length (w_tokens (p_world p)). isCanceled t (p_world p) \<longrightarrow> isCanceled t (p_world p'))
     \<and> length (w_states (p_world p)) \<le> length (w_states (p_world p'))
     \<and> (\<forall>a < length (w_states (p_world p)). readyImpl (w_states (p_world p) ! a) \<longrightarrow> readyImpl (w_states (p_world p') ! a))"

lemma cont_ok_append: "a < length os \<Longrightarrow> cont_ok os a c \<Longrightarrow> cont_ok (os @ xs) a c"
  by (auto simp: cont_ok_def nth_append)

lemma grows_expected:
  "grows p p' \<Longrightarrow> a < length (p_origin p) \<Longrightarrow> expected (p_origin p) (p_resolved p) a = Some v
     \<Longrightarrow> expected (p_origin p') (p_resolved p') a = Some v"
  by (auto simp: grows_def expected_append_origin intro: expected_append_resolved)

lemma grows_thread:
  "grows p p' \<Longrightarrow> length (p_origin p) = length (w_states (p_world p)) \<Longrightarrow> thread_ok p t \<Longrightarrow> thread_ok p' t"
  by (cases t) (auto simp: grows_def thread_ok_def cont_ok_def nth_append)

lemma grows_job: "grows p p' \<Longrightarrow> job_ok p j \<Longrightarrow> job_ok p' j"
  using grows_expected [of p p'] by (auto simp: grows_def job_ok_def nth_append split: job.splits)

lemma grows_handle: "grows p p' \<Longrightarrow> handle_ok p h \<Longrightarrow> handle_ok p' h"
  by (auto simp: grows_def handle_ok_def nth_append split: option.splits)

lemma grows_state:
  assumes "grows p p'" and "length (p_origin p) = length (w_states (p_world p))" and "a < length (w_states (p_world p))"
    and "state_ok p a" and "w_states (p_world p') ! a = w_states (p_world p) ! a"
    and "NextOf a \<in> set (p_threads p) \<Longrightarrow> fs_cont (w_states (p_world p) ! a) \<noteq> None \<Longrightarrow> NextOf a \<in> set (p_threads p')"
  shows "state_ok p' a"
proof -
  have "fst (p_origin p' ! a) = fst (p_origin p ! a)" using assms(1-3) by (auto simp: grows_def nth_append)
  moreover have "cont_ok (p_origin p) a c \<Longrightarrow> cont_ok (p_origin p') a c" for c
    using assms(1-3) cont_ok_append [of a "p_origin p" c] by (auto simp: grows_def)
  ultimately show ?thesis
    using assms grows_expected [OF assms(1), of a] unfolding state_ok_def Let_def by (auto simp: grows_def)
qed

text \<open>How each event shows the invariant: what it leaves alone stays well formed.\<close>

lemma program_ok_grows:
  assumes "program_ok p" and "grows p p'"
    and "length (p_origin p') = length (w_states (p_world p'))"
    and "\<And>a. writers p' a = of_bool (a < length (w_states (p_world p')) \<and> \<not> readyImpl (w_states (p_world p') ! a))"
    and "\<And>a. readers p' a \<le> 1"
    and "\<And>a. a < length (w_states (p_world p')) \<Longrightarrow> state_ok p' a \<or>
      (a < length (w_states (p_world p)) \<and> w_states (p_world p') ! a = w_states (p_world p) ! a
       \<and> (NextOf a \<in> set (p_threads p) \<and> fs_cont (w_states (p_world p) ! a) \<noteq> None \<longrightarrow> NextOf a \<in> set (p_threads p')))"
    and "\<And>t. t \<in> set (p_threads p') \<Longrightarrow> t \<in> set (p_threads p) \<or> thread_ok p' t"
    and "\<And>j. j \<in> set (w_jobs (p_world p')) \<Longrightarrow> j \<in> set (w_jobs (p_world p)) \<or> job_ok p' j"
    and "\<And>h. h \<in> set (p_futures p') \<Longrightarrow> h \<in> set (p_futures p) \<or> handle_ok p' h"
    and "\<And>q. q \<in> set (p_promises p') \<Longrightarrow> promise_ok p' q"
    and "\<And>q v. (q, v) \<in> set (p_resolved p') \<Longrightarrow> (q, v) \<in> set (p_resolved p)
      \<or> q < length (w_states (p_world p')) \<and> readyImpl (w_states (p_world p') ! q)"
  shows "program_ok p'"
proof -
  note ok = assms(1) [unfolded program_ok_def]
  have len: "length (p_origin p) = length (w_states (p_world p))" using ok by blast
  have st: "state_ok p' a" if "a < length (w_states (p_world p'))" for a
    using assms(6) [OF that] grows_state [OF assms(2) len, of a] ok by blast
  have th: "thread_ok p' t" if "t \<in> set (p_threads p')" for t
    using assms(7) [OF that] grows_thread [OF assms(2) len, of t] ok by blast
  have jb: "job_ok p' j" if "j \<in> set (w_jobs (p_world p'))" for j
    using assms(8) [OF that] grows_job [OF assms(2), of j] ok by blast
  have hd: "handle_ok p' h" if "h \<in> set (p_futures p')" for h
    using assms(9) [OF that] grows_handle [OF assms(2), of h] ok by blast
  have rs: "q < length (w_states (p_world p')) \<and> readyImpl (w_states (p_world p') ! q)" if "(q, v) \<in> set (p_resolved p')" for q v
    using assms(11) [OF that] ok assms(2) unfolding grows_def by fastforce
  show ?thesis
    unfolding program_ok_def using assms(3,4,5,10) st th jb hd rs by blast
qed

lemma unread_new:
  assumes "program_ok p" and "a \<ge> length (w_states (p_world p))"
  shows "sum_list (map (handle_reads a) (p_futures p)) = 0" and "sum_list (map (thread_reads a) (p_threads p)) = 0"
    and "writers p a = 0"
proof -
  note ok = assms(1) [unfolded program_ok_def]
  have "handle_reads a h = 0" if "h \<in> set (p_futures p)" for h
  proof -
    have "handle_ok p h" using ok that by blast
    then show ?thesis using ok assms(2) by (auto simp: handle_ok_def handle_reads_def split: option.splits)
  qed
  then show "sum_list (map (handle_reads a) (p_futures p)) = 0" by simp
  have "thread_reads a t = 0" if "t \<in> set (p_threads p)" for t
  proof -
    have "thread_ok p t" using ok that by blast
    then show ?thesis using ok assms(2) by (auto simp: thread_ok_def cont_ok_def thread_reads_def split: thread.splits)
  qed
  then show "sum_list (map (thread_reads a) (p_threads p)) = 0" by simp
  show "writers p a = 0" using ok assms(2) by simp
qed

lemma writers_eq: "program_ok p \<Longrightarrow>
    writers p a = of_bool (a < length (w_states (p_world p)) \<and> \<not> readyImpl (w_states (p_world p) ! a))"
  by (simp add: program_ok_def)

lemma readers_le: "program_ok p \<Longrightarrow> readers p a \<le> 1"
  by (simp add: program_ok_def)

lemma origin_length: "program_ok p \<Longrightarrow> length (p_origin p) = length (w_states (p_world p))"
  by (simp add: program_ok_def)

lemma promise_ok_of: "program_ok p \<Longrightarrow> q \<in> set (p_promises p) \<Longrightarrow> promise_ok p q"
  by (simp add: program_ok_def)

lemma make_ok:
  assumes "program_ok p"
  shows "\<exists>p'. program_step MakePromise p = Inr p' \<and> program_ok p'"
proof -
  let ?n = "length (w_states (p_world p))"
  define p' where "p' = p\<lparr>p_world := (p_world p)\<lparr>w_states := w_states (p_world p) @ [new_state], w_tokens := w_tokens (p_world p) @ [new_token]\<rparr>,
     p_futures := p_futures p @ [\<lparr>fh_state = Some ?n, fh_source = Some (length (w_tokens (p_world p)))\<rparr>],
     p_promises := p_promises p @ [?n], p_origin := p_origin p @ [(length (w_tokens (p_world p)), None)]\<rparr>"
  have step: "program_step MakePromise p = Inr p'" by (simp add: p'_def program_simps makePromise_def)
  have len: "length (p_origin p) = ?n" using assms by (rule origin_length)
  have gr: "grows p p'" by (auto simp: grows_def p'_def isCanceled_def nth_append)
  have "program_ok p'"
  proof (rule program_ok_grows [OF assms gr])
    show "length (p_origin p') = length (w_states (p_world p'))" using len by (simp add: p'_def)
  next
    fix a
    have "writers p' a = writers p a + of_bool (a = ?n)"
      by (simp add: writers_def p'_def promise_target_def state_target_def new_state_def)
    then show "writers p' a = of_bool (a < length (w_states (p_world p')) \<and> \<not> readyImpl (w_states (p_world p') ! a))"
      using writers_eq [OF assms, of a] by (simp add: p'_def nth_append new_state_def readyImpl_def less_Suc_eq)
    show "readers p' a \<le> 1"
      using readers_le [OF assms, of a] unread_new [OF assms, of a]
      by (auto simp: readers_def p'_def handle_reads_def state_reads_def new_state_def nth_append less_Suc_eq)
  next
    fix a assume "a < length (w_states (p_world p'))"
    then consider "a < ?n" | "a = ?n" by (auto simp: p'_def less_Suc_eq)
    then show "state_ok p' a \<or> (a < ?n \<and> w_states (p_world p') ! a = w_states (p_world p) ! a
       \<and> (NextOf a \<in> set (p_threads p) \<and> fs_cont (w_states (p_world p) ! a) \<noteq> None \<longrightarrow> NextOf a \<in> set (p_threads p')))"
      using len by cases (auto simp: p'_def state_ok_def new_state_def nth_append)
  next
    fix q assume "q \<in> set (p_promises p')"
    moreover have "q \<in> set (p_promises p) \<Longrightarrow> promise_ok p q" using assms by (simp add: program_ok_def)
    moreover have "?n \<notin> fst ` set (p_resolved p)" using assms by (auto simp: program_ok_def)
    ultimately show "promise_ok p' q" using len by (auto simp: p'_def promise_ok_def nth_append)
  qed (use len in \<open>auto simp: p'_def handle_ok_def nth_append\<close>)
  then show ?thesis using step by blast
qed

lemma handle_taken:
  assumes "program_ok p" and "k < length (p_futures p)" and "fh_state (p_futures p ! k) = Some a"
  shows "fs_cont (w_states (p_world p) ! a) = None" and "fs_value (w_states (p_world p) ! a) \<noteq> MovedFrom"
    and "a < length (w_states (p_world p))" and "fh_source (p_futures p ! k) = Some (fst (p_origin p ! a))"
    and "sum_list (map (handle_reads b) (remove_at k (p_futures p))) + of_bool (b = a) = sum_list (map (handle_reads b) (p_futures p))"
proof -
  have "handle_ok p (p_futures p ! k)" using assms(1,2) by (simp add: program_ok_def)
  then show a: "a < length (w_states (p_world p))" and "fh_source (p_futures p ! k) = Some (fst (p_origin p ! a))"
    using assms(3) origin_length [OF assms(1)] by (simp_all add: handle_ok_def)
  have "1 \<le> sum_list (map (handle_reads a) (p_futures p))"
    using member_le_sum [of "p_futures p ! k" "p_futures p" "handle_reads a"] assms by (simp add: handle_reads_def)
  then have "state_reads (w_states (p_world p) ! a) = 0"
    using readers_le [OF assms(1), of a] a by (simp add: readers_def)
  then show "fs_cont (w_states (p_world p) ! a) = None" "fs_value (w_states (p_world p) ! a) \<noteq> MovedFrom"
    by (auto simp: state_reads_def)
  show "sum_list (map (handle_reads b) (remove_at k (p_futures p))) + of_bool (b = a) = sum_list (map (handle_reads b) (p_futures p))"
    using sum_remove_at [OF assms(2), of "handle_reads b"] assms(3)
    by (cases "a = b") (simp_all add: handle_reads_def)
qed

lemma then_ok:
  assumes "program_ok p"
  shows "\<exists>p'. program_step (ThenOn k ex fn) p = Inr p' \<and> program_ok p'"
proof (cases "k < length (p_futures p)")
  case False
  then show ?thesis using assms by (simp add: program_step_def)
next
  case True
  let ?n = "length (w_states (p_world p))"
  have "handle_ok p (p_futures p ! k)" using assms True by (simp add: program_ok_def)
  then obtain a where a: "fh_state (p_futures p ! k) = Some a" by (auto simp: handle_ok_def split: option.splits)
  note tk = handle_taken [OF assms True a]
  define t where "t = fst (p_origin p ! a)"
  define c where "c = \<lparr>c_executor = ex, c_fn = fn, c_next = ?n, c_token = t\<rparr>"
  define s where "s = w_states (p_world p) ! a"
  define r where "r = readyImpl s"
  define p' where "p' = p\<lparr>p_world := (p_world p)\<lparr>w_states := (w_states (p_world p))[a := if r then s else s\<lparr>fs_cont := Some c\<rparr>] @ [new_state]\<rparr>,
     p_futures := remove_at k (p_futures p) @ [\<lparr>fh_state = Some ?n, fh_source = Some t\<rparr>],
     p_threads := p_threads p @ (if r then [Exec c a] else []), p_origin := p_origin p @ [(t, Some (a, fn))]\<rparr>"
  have len: "length (p_origin p) = ?n" using assms by (rule origin_length)
  have step: "program_step (ThenOn k ex fn) p = Inr p'"
    using True a tk(1,3,4)
    by (auto simp: program_simps future_then_def chain_cont_def p'_def c_def t_def s_def r_def nth_append list_update_append)
  have nth: "w_states (p_world p') ! b = (if b = a \<and> \<not> r then s\<lparr>fs_cont := Some c\<rparr> else if b = ?n then new_state else w_states (p_world p) ! b)"
    if "b \<le> ?n" for b
    using tk(3) that by (auto simp: p'_def nth_append s_def)
  have readys: "readyImpl (w_states (p_world p') ! b) = readyImpl (w_states (p_world p) ! b)" if "b < ?n" for b
    using nth [of b] that by (auto simp: s_def readyImpl_def)
  have lenp: "length (w_states (p_world p')) = Suc ?n" by (simp add: p'_def)
  have st: "sum_list (map (state_target b) (w_states (p_world p'))) = sum_list (map (state_target b) (w_states (p_world p))) + of_bool (b = ?n \<and> \<not> r)" for b
    using sum_list_put [OF tk(3), of "state_target b" "if r then s else s\<lparr>fs_cont := Some c\<rparr>"] tk(1)
    by (auto simp: p'_def s_def state_target_def new_state_def c_def)
  have gr: "grows p p'" using readys by (auto simp: grows_def p'_def isCanceled_def)
  have ca: "cont_ok (p_origin p') a c" using tk(3) len by (simp add: cont_ok_def p'_def c_def t_def nth_append)
  have "program_ok p'"
  proof (rule program_ok_grows [OF assms gr])
    show "length (p_origin p') = length (w_states (p_world p'))" using len by (simp add: p'_def)
  next
    fix b
    have "writers p' b = writers p b + of_bool (b = ?n)"
      using st [of b] by (auto simp: writers_def p'_def thread_target_def c_def)
    moreover have "\<not> readyImpl (w_states (p_world p') ! ?n)" using nth [of ?n] tk(3) by (auto simp: new_state_def readyImpl_def)
    ultimately show "writers p' b = of_bool (b < length (w_states (p_world p')) \<and> \<not> readyImpl (w_states (p_world p') ! b))"
      using writers_eq [OF assms, of b] readys [of b] unfolding lenp by (cases "b = ?n"; cases "b < ?n") simp_all
    show "readers p' b \<le> 1"
    proof -
      have h: "sum_list (map (handle_reads b) (p_futures p')) + of_bool (b = a) = sum_list (map (handle_reads b) (p_futures p)) + of_bool (b = ?n)"
        using tk(5) [of b] by (auto simp: p'_def handle_reads_def)
      have e: "sum_list (map (thread_reads b) (p_threads p')) = sum_list (map (thread_reads b) (p_threads p)) + of_bool (b = a \<and> r)"
        by (auto simp: p'_def thread_reads_def)
      have s0: "state_reads (w_states (p_world p) ! a) = 0" using tk(1,2) by (auto simp: state_reads_def split: fvalue.splits)
      have "state_reads (s\<lparr>fs_cont := Some c\<rparr>) = 1" using tk(2) by (auto simp: state_reads_def s_def split: fvalue.splits)
      then have sr: "(if b < length (w_states (p_world p')) then state_reads (w_states (p_world p') ! b) else 0)
          = (if b < ?n then state_reads (w_states (p_world p) ! b) else 0) + of_bool (b = a \<and> \<not> r)"
        using nth [of b] s0 tk(3) unfolding lenp
        by (cases "b = ?n"; cases "b = a"; cases r) (simp_all add: new_state_def state_reads_def less_Suc_eq)
      have "of_bool (b = a) = of_bool (b = a \<and> r) + (of_bool (b = a \<and> \<not> r) :: nat)" by simp
      then have "readers p' b = readers p b + of_bool (b = ?n)"
        using h e sr unfolding readers_def by linarith
      moreover have "readers p ?n = 0" using unread_new [OF assms, of ?n] by (simp add: readers_def)
      ultimately show ?thesis using readers_le [OF assms, of b] by (cases "b = ?n") simp_all
    qed
  next
    fix b assume b: "b < length (w_states (p_world p'))"
    show "state_ok p' b \<or> (b < ?n \<and> w_states (p_world p') ! b = w_states (p_world p) ! b
       \<and> (NextOf b \<in> set (p_threads p) \<and> fs_cont (w_states (p_world p) ! b) \<noteq> None \<longrightarrow> NextOf b \<in> set (p_threads p')))"
    proof (cases "b = ?n \<or> b = a \<and> \<not> r")
      case True
      have tok: "t < length (w_tokens (p_world p))" using assms tk(3) by (simp add: program_ok_def state_ok_def Let_def t_def)
      have "state_ok p' b"
      proof (cases "b = ?n")
        case True
        then show ?thesis using nth [of ?n] tk(3) tok len by (auto simp: state_ok_def p'_def new_state_def nth_append)
      next
        case False
        then show ?thesis
          using True nth [of a] tk(3) tok len ca assms
          by (auto simp: state_ok_def p'_def nth_append r_def s_def readyImpl_def t_def split: fvalue.splits)
      qed
      then show ?thesis by simp
    next
      case False
      then show ?thesis using nth [of b] b unfolding lenp by (auto simp: less_Suc_eq p'_def)
    qed
  next
    fix u assume "u \<in> set (p_threads p')"
    then show "u \<in> set (p_threads p) \<or> thread_ok p' u"
      using ca readys [of a] tk(3) by (auto simp: p'_def thread_ok_def r_def s_def split: if_splits)
  next
    fix q assume "q \<in> set (p_promises p')"
    then have "promise_ok p q" using assms by (simp add: program_ok_def p'_def)
    then show "promise_ok p' q" by (auto simp: promise_ok_def p'_def nth_append)
  next
    fix h assume "h \<in> set (p_futures p')"
    then show "h \<in> set (p_futures p) \<or> handle_ok p' h"
      using set_remove_at [of k "p_futures p"] len by (auto simp: p'_def handle_ok_def nth_append)
  qed (simp_all add: p'_def)
  then show ?thesis using step by blast
qed

text \<open>Completing a state, by whichever writer: its writer is gone and \<open>next()\<close> is still to be called.\<close>

lemma complete_ok:
  assumes "program_ok p" and n: "n < length (w_states (p_world p))"
    and st: "w_states (p_world p') = (w_states (p_world p))[n := (w_states (p_world p) ! n)\<lparr>fs_value := v\<rparr>]"
    and tok: "w_tokens (p_world p') = w_tokens (p_world p)"
    and org: "p_origin p' = p_origin p" and fut: "p_futures p' = p_futures p"
    and res: "p_resolved p' = p_resolved p @ ys" "\<And>q x. (q, x) \<in> set ys \<Longrightarrow> q = n"
    and wr: "\<And>b. writers p' b + of_bool (b = n) = writers p b"
    and thr: "p_threads p' = ts @ [NextOf n]" "set ts \<subseteq> set (p_threads p)"
      "\<And>a. NextOf a \<in> set (p_threads p) \<Longrightarrow> NextOf a \<in> set ts"
      "\<And>b. sum_list (map (thread_reads b) ts) \<le> sum_list (map (thread_reads b) (p_threads p))"
    and jobs: "set (w_jobs (p_world p')) \<subseteq> set (w_jobs (p_world p))"
    and prom: "\<And>q. q \<in> set (p_promises p') \<Longrightarrow> promise_ok p' q"
    and v: "v = Canceled \<and> isCanceled (fst (p_origin p ! n)) (p_world p)
      \<or> (\<exists>x. v = Holds x \<and> expected (p_origin p') (p_resolved p') n = Some x)"
  shows "program_ok p'"
proof -
  have len: "length (p_origin p) = length (w_states (p_world p))" using assms(1) by (rule origin_length)
  have emp: "\<not> readyImpl (w_states (p_world p) ! n)" using wr [of n] writers_eq [OF assms(1), of n] by (auto split: if_splits)
  have nth: "w_states (p_world p') ! b = (if b = n then (w_states (p_world p) ! n)\<lparr>fs_value := v\<rparr> else w_states (p_world p) ! b)" for b
    using n st by simp
  have rn: "readyImpl (w_states (p_world p') ! n)" using v by (auto simp: nth readyImpl_def)
  have gr: "grows p p'"
    using st tok org res(1) rn n by (auto simp: grows_def isCanceled_def nth_list_update)
  show ?thesis
  proof (rule program_ok_grows [OF assms(1) gr])
    show "length (p_origin p') = length (w_states (p_world p'))" using len org st by simp
  next
    fix b
    show "writers p' b = of_bool (b < length (w_states (p_world p')) \<and> \<not> readyImpl (w_states (p_world p') ! b))"
      using wr [of b] writers_eq [OF assms(1), of b] rn nth [of b] st emp n by (cases "b = n") auto
    have "sum_list (map (thread_reads b) (p_threads p')) \<le> sum_list (map (thread_reads b) (p_threads p))"
      using thr(1) thr(4) [of b] by (simp add: thread_reads_def)
    moreover have "state_reads (w_states (p_world p') ! b) \<le> state_reads (w_states (p_world p) ! b)"
      using v by (auto simp: nth state_reads_def)
    ultimately have "readers p' b \<le> readers p b"
      using st unfolding readers_def fut by (auto intro: add_mono)
    then show "readers p' b \<le> 1" using readers_le [OF assms(1), of b] by simp
  next
    fix b assume b: "b < length (w_states (p_world p'))"
    show "state_ok p' b \<or> (b < length (w_states (p_world p)) \<and> w_states (p_world p') ! b = w_states (p_world p) ! b
       \<and> (NextOf b \<in> set (p_threads p) \<and> fs_cont (w_states (p_world p) ! b) \<noteq> None \<longrightarrow> NextOf b \<in> set (p_threads p')))"
    proof (cases "b = n")
      case True
      have old: "state_ok p n" using assms(1) n by (simp add: program_ok_def)
      have "state_ok p' n"
        using old v thr(1) by (auto simp: state_ok_def Let_def nth org tok isCanceled_def)
      then show ?thesis using True by simp
    next
      case False
      then show ?thesis using b st nth [of b] thr(1,3) by auto
    qed
  next
    fix u assume "u \<in> set (p_threads p')"
    then show "u \<in> set (p_threads p) \<or> thread_ok p' u" using thr(1,2) rn n st by (auto simp: thread_ok_def)
  next
    fix q x assume "(q, x) \<in> set (p_resolved p')"
    then show "(q, x) \<in> set (p_resolved p) \<or> q < length (w_states (p_world p')) \<and> readyImpl (w_states (p_world p') ! q)"
      using res rn n st by auto
  qed (use jobs fut prom in auto)
qed

lemma resolve_ok:
  assumes "program_ok p"
  shows "\<exists>p'. program_step (Resolve k v) p = Inr p' \<and> program_ok p'"
proof (cases "k < length (p_promises p)")
  case False
  then show ?thesis using assms by (simp add: program_step_def)
next
  case True
  define q where "q = p_promises p ! k"
  have qin: "q \<in> set (p_promises p)" using True by (simp add: q_def)
  then have qok: "promise_ok p q" using assms by (simp add: program_ok_def)
  have pt: "sum_list (map (promise_target b) (remove_at k (p_promises p))) + of_bool (b = q) = sum_list (map (promise_target b) (p_promises p))" for b
    using sum_remove_at [OF True, of "promise_target b"] by (cases "b = q") (auto simp: promise_target_def q_def)
  have "0 < sum_list (map (promise_target q) (p_promises p))" using pt [of q] by simp
  then have w: "0 < writers p q" by (simp add: writers_def)
  note n = state_of_writer [OF assms w]
  define s where "s = w_states (p_world p) ! q"
  define p' where "p' = p\<lparr>p_world := (p_world p)\<lparr>w_states := (w_states (p_world p))[q := s\<lparr>fs_value := Holds v\<rparr>]\<rparr>,
     p_promises := remove_at k (p_promises p), p_threads := p_threads p @ [NextOf q], p_resolved := p_resolved p @ [(q, v)]\<rparr>"
  have step: "program_step (Resolve k v) p = Inr p'"
    using True n by (simp add: program_simps promise_resolve_def setValue_def set_result_def p'_def q_def s_def)
  have wr: "writers p' b + of_bool (b = q) = writers p b" for b
    using pt [of b] sum_list_put [OF n(1), of "state_target b" "s\<lparr>fs_value := Holds v\<rparr>"]
    by (simp add: writers_def p'_def thread_target_def state_target_def s_def)
  have "writers p q = 1" using writers_eq [OF assms, of q] w by (simp add: of_bool_def split: if_splits)
  have "sum_list (map (promise_target q) (remove_at k (p_promises p))) = 0"
  proof -
    have "sum_list (map (promise_target q) (remove_at k (p_promises p))) + 1 = sum_list (map (promise_target q) (p_promises p))"
      using pt [of q] by simp
    then show ?thesis using \<open>writers p q = 1\<close> unfolding writers_def by linarith
  qed
  then have notin: "q \<notin> set (remove_at k (p_promises p))" by (auto simp: promise_target_def)
  have pr: "promise_ok p' x" if "x \<in> set (p_promises p')" for x
  proof -
    have "x \<in> set (p_promises p)" "x \<noteq> q" using that notin set_remove_at [of k "p_promises p"] by (auto simp: p'_def)
    moreover from this have "promise_ok p x" using assms by (simp add: program_ok_def)
    ultimately show ?thesis by (simp add: promise_ok_def p'_def)
  qed
  have "map_of (p_resolved p) q = None" using qok by (simp add: promise_ok_def map_of_eq_None_iff)
  then have ex: "expected (p_origin p') (p_resolved p') q = Some v"
    using qok by (subst expected.simps) (simp add: promise_ok_def p'_def map_add_def)
  have "program_ok p'"
    by (rule complete_ok [OF assms n(1), where v = "Holds v" and ts = "p_threads p" and ys = "[(q, v)]"])
       (use wr pr ex in \<open>simp_all add: p'_def s_def\<close>)
  then show ?thesis using step by blast
qed

lemma job_ok_step:
  assumes "program_ok p"
  shows "\<exists>p'. program_step (RunJob k) p = Inr p' \<and> program_ok p'"
proof (cases "k < length (w_jobs (p_world p))")
  case False
  then show ?thesis using assms by (simp add: program_step_def)
next
  case True
  define j where "j = w_jobs (p_world p) ! k"
  have jin: "j \<in> set (w_jobs (p_world p))" using True by (simp add: j_def)
  then have jok: "job_ok p j" using assms by (simp add: program_ok_def)
  have jt: "sum_list (map (job_target b) (remove_at k (w_jobs (p_world p)))) + job_target b j = sum_list (map (job_target b) (w_jobs (p_world p)))" for b
    using sum_remove_at [OF True, of "job_target b"] by (simp add: j_def)
  show ?thesis
  proof (cases "snd j")
    case (RunCallback f)
    define p' where "p' = p\<lparr>p_world := (p_world p)\<lparr>w_jobs := remove_at k (w_jobs (p_world p))\<rparr>\<rparr>"
    have step: "program_step (RunJob k) p = Inr p'"
      using True RunCallback by (simp add: program_simps run_job_def p'_def j_def)
    have gr: "grows p p'" by (simp add: grows_def p'_def isCanceled_def)
    have wr: "writers p' b = writers p b" for b
      using jt [of b] RunCallback by (simp add: writers_def p'_def job_target_def)
    have "program_ok p'"
    proof (rule program_ok_grows [OF assms gr])
      fix b
      show "writers p' b = of_bool (b < length (w_states (p_world p')) \<and> \<not> readyImpl (w_states (p_world p') ! b))"
        using wr [of b] writers_eq [OF assms, of b] by (simp add: p'_def)
      have "readers p' b = readers p b" by (simp add: readers_def p'_def)
      then show "readers p' b \<le> 1" using readers_le [OF assms, of b] by simp
    next
      fix q assume "q \<in> set (p_promises p')"
      then show "promise_ok p' q" using promise_ok_of [OF assms, of q] by (simp add: p'_def promise_ok_def)
    qed (use set_remove_at [of k "w_jobs (p_world p)"] origin_length [OF assms] in \<open>auto simp: p'_def\<close>)
    then show ?thesis using step by blast
  next
    case (RunThen fn x n t)
    have "job_target n j = 1" using RunThen by (simp add: job_target_def)
    then have "0 < sum_list (map (job_target n) (w_jobs (p_world p)))" using jt [of n] by simp
    then have w: "0 < writers p n" by (simp add: writers_def)
    note n = state_of_writer [OF assms w]
    define v where "v = (if isCanceled t (p_world p) then Canceled else Holds (fn x))"
    define s where "s = w_states (p_world p) ! n"
    define p' where "p' = p\<lparr>p_world := (p_world p)\<lparr>w_states := (w_states (p_world p))[n := s\<lparr>fs_value := v\<rparr>],
        w_jobs := remove_at k (w_jobs (p_world p))\<rparr>, p_threads := p_threads p @ [NextOf n]\<rparr>"
    have step: "program_step (RunJob k) p = Inr p'"
      using True RunThen n
      by (simp add: program_simps run_job_def setValue_def setCanceled_def set_result_def p'_def j_def s_def v_def isCanceled_def)
    have wr: "writers p' b + of_bool (b = n) = writers p b" for b
      using jt [of b] RunThen sum_list_put [OF n(1), of "state_target b" "s\<lparr>fs_value := v\<rparr>"]
      by (simp add: writers_def p'_def thread_target_def state_target_def s_def job_target_def eq_commute [of b n])
    have pr: "promise_ok p' q" if "q \<in> set (p_promises p')" for q
      using that promise_ok_of [OF assms, of q] by (simp add: p'_def promise_ok_def)
    have v: "v = Canceled \<and> isCanceled (fst (p_origin p ! n)) (p_world p)
        \<or> (\<exists>x. v = Holds x \<and> expected (p_origin p') (p_resolved p') n = Some x)"
      using jok RunThen by (auto simp: job_ok_def v_def p'_def)
    have "program_ok p'"
      by (rule complete_ok [OF assms n(1), where v = v and ts = "p_threads p" and ys = "[]"])
         (use wr pr v set_remove_at [of k "w_jobs (p_world p)"] in \<open>simp_all add: p'_def s_def\<close>)
    then show ?thesis using step by blast
  qed
qed

lemma thread_ok_of: "program_ok p \<Longrightarrow> k < length (p_threads p) \<Longrightarrow> thread_ok p (p_threads p ! k)"
  by (simp add: program_ok_def)

lemma thread_taken:
  assumes "k < length (p_threads p)"
  shows "sum_list (map (thread_target b) (remove_at k (p_threads p))) + thread_target b (p_threads p ! k) = sum_list (map (thread_target b) (p_threads p))"
    and "sum_list (map (thread_reads b) (remove_at k (p_threads p))) + thread_reads b (p_threads p ! k) = sum_list (map (thread_reads b) (p_threads p))"
  using sum_remove_at [OF assms] by metis+

lemma thread_next_ok:
  assumes "program_ok p" and k: "k < length (p_threads p)" and t: "p_threads p ! k = NextOf a"
  shows "\<exists>p'. program_step (ThreadStep k) p = Inr p' \<and> program_ok p'"
proof -
  have "thread_ok p (NextOf a)" using thread_ok_of [OF assms(1) k] t by simp
  then have a: "a < length (w_states (p_world p))" "readyImpl (w_states (p_world p) ! a)" by (simp_all add: thread_ok_def)
  define s where "s = w_states (p_world p) ! a"
  define new where "new = (case fs_cont s of None \<Rightarrow> [] | Some c \<Rightarrow> [Exec c a])"
  define p' where "p' = p\<lparr>p_world := (p_world p)\<lparr>w_states := (w_states (p_world p))[a := s\<lparr>fs_cont := None\<rparr>]\<rparr>,
     p_threads := remove_at k (p_threads p) @ new\<rparr>"
  have step: "program_step (ThreadStep k) p = Inr p'"
    using k t a by (auto simp: program_simps thread_step_def next_cont_def p'_def new_def s_def split: option.splits)
  have nth: "w_states (p_world p') ! b = (if b = a then s\<lparr>fs_cont := None\<rparr> else w_states (p_world p) ! b)" for b
    using a by (simp add: p'_def)
  have rd: "readyImpl (w_states (p_world p') ! b) = readyImpl (w_states (p_world p) ! b)" for b
    by (simp add: nth s_def readyImpl_def)
  have gr: "grows p p'" using rd by (simp add: grows_def isCanceled_def) (simp add: p'_def)
  have cont: "cont_ok (p_origin p) a c" if "fs_cont s = Some c" for c
    using that assms(1) a by (auto simp: program_ok_def state_ok_def Let_def s_def)
  have "program_ok p'"
  proof (rule program_ok_grows [OF assms(1) gr])
    show "length (p_origin p') = length (w_states (p_world p'))" using origin_length [OF assms(1)] by (simp add: p'_def)
  next
    fix b
    have "sum_list (map (state_target b) (w_states (p_world p'))) + sum_list (map (thread_target b) new)
        = sum_list (map (state_target b) (w_states (p_world p)))"
      using sum_list_put [OF a(1), of "state_target b" "s\<lparr>fs_cont := None\<rparr>"]
      by (auto simp: p'_def new_def state_target_def thread_target_def s_def split: option.splits)
    then have "writers p' b = writers p b"
      using thread_taken(1) [OF k, of b] t by (simp add: writers_def p'_def thread_target_def)
    then show "writers p' b = of_bool (b < length (w_states (p_world p')) \<and> \<not> readyImpl (w_states (p_world p') ! b))"
      using writers_eq [OF assms(1), of b] rd by (simp add: p'_def)
    have "state_reads (s\<lparr>fs_cont := None\<rparr>) + sum_list (map (thread_reads a) new) = state_reads s"
      by (auto simp: new_def state_reads_def thread_reads_def split: option.splits)
    moreover have "b \<noteq> a \<Longrightarrow> sum_list (map (thread_reads b) new) = 0" by (auto simp: new_def thread_reads_def split: option.splits)
    ultimately have "(if b < length (w_states (p_world p')) then state_reads (w_states (p_world p') ! b) else 0) + sum_list (map (thread_reads b) new)
        = (if b < length (w_states (p_world p)) then state_reads (w_states (p_world p) ! b) else 0)"
      using a unfolding nth by (cases "b = a") (auto simp: p'_def s_def)
    moreover have "sum_list (map (thread_reads b) (p_threads p')) = sum_list (map (thread_reads b) (p_threads p)) + sum_list (map (thread_reads b) new)"
      using thread_taken(2) [OF k, of b] t by (simp add: p'_def thread_reads_def)
    ultimately have "readers p' b = readers p b" unfolding readers_def by (simp add: p'_def)
    then show "readers p' b \<le> 1" using readers_le [OF assms(1), of b] by simp
  next
    fix b assume b: "b < length (w_states (p_world p'))"
    show "state_ok p' b \<or> (b < length (w_states (p_world p)) \<and> w_states (p_world p') ! b = w_states (p_world p) ! b
       \<and> (NextOf b \<in> set (p_threads p) \<and> fs_cont (w_states (p_world p) ! b) \<noteq> None \<longrightarrow> NextOf b \<in> set (p_threads p')))"
    proof (cases "b = a")
      case True
      have "state_ok p a" using assms(1) a by (simp add: program_ok_def)
      then have "state_ok p' a" unfolding state_ok_def Let_def nth by (simp add: s_def p'_def isCanceled_def)
      then show ?thesis using True by simp
    next
      case False
      then have "NextOf b \<in> set (p_threads p) \<Longrightarrow> NextOf b \<in> set (remove_at k (p_threads p))"
        by (rule_tac in_remove_at) (auto simp: t)
      then show ?thesis using False b nth [of b] by (auto simp: p'_def)
    qed
  next
    fix u assume "u \<in> set (p_threads p')"
    then show "u \<in> set (p_threads p) \<or> thread_ok p' u"
      using set_remove_at [of k "p_threads p"] cont rd [of a] a by (auto simp: p'_def new_def thread_ok_def split: option.splits)
  next
    fix q assume "q \<in> set (p_promises p')"
    then show "promise_ok p' q" using promise_ok_of [OF assms(1), of q] by (simp add: p'_def promise_ok_def)
  qed (simp_all add: p'_def)
  then show ?thesis using step by blast
qed

lemma thread_exec_facts:
  assumes "program_ok p" and k: "k < length (p_threads p)" and t: "p_threads p ! k = Exec c a"
  shows "cont_ok (p_origin p) a c" and "readyImpl (w_states (p_world p) ! a)" and "a < length (w_states (p_world p))"
    and "0 < writers p (c_next c)"
    and "fs_value (w_states (p_world p) ! a) \<noteq> MovedFrom" and "fs_cont (w_states (p_world p) ! a) = None"
proof -
  have "thread_ok p (Exec c a)" using thread_ok_of [OF assms(1) k] t by simp
  then show c: "cont_ok (p_origin p) a c" and "readyImpl (w_states (p_world p) ! a)" by (simp_all add: thread_ok_def)
  show a: "a < length (w_states (p_world p))" using c origin_length [OF assms(1)] by (simp add: cont_ok_def)
  have "0 < sum_list (map (thread_target (c_next c)) (p_threads p))"
    using thread_taken(1) [OF k, of "c_next c"] t by (simp add: thread_target_def)
  then show "0 < writers p (c_next c)" by (simp add: writers_def)
  have "1 \<le> sum_list (map (thread_reads a) (p_threads p))"
    using thread_taken(2) [OF k, of a] t by (simp add: thread_reads_def)
  then have "state_reads (w_states (p_world p) ! a) = 0" using readers_le [OF assms(1), of a] a by (simp add: readers_def)
  then show "fs_value (w_states (p_world p) ! a) \<noteq> MovedFrom" "fs_cont (w_states (p_world p) ! a) = None"
    by (auto simp: state_reads_def)
qed

lemma thread_canceled_ok:
  assumes "program_ok p" and k: "k < length (p_threads p)" and t: "p_threads p ! k = Exec c a"
    and canc: "isCanceled (c_token c) (p_world p)"
  shows "\<exists>p'. program_step (ThreadStep k) p = Inr p' \<and> program_ok p'"
proof -
  note facts = thread_exec_facts [OF assms(1-3)]
  note n = state_of_writer [OF assms(1) facts(4)]
  define s where "s = w_states (p_world p) ! c_next c"
  define p' where "p' = p\<lparr>p_world := (p_world p)\<lparr>w_states := (w_states (p_world p))[c_next c := s\<lparr>fs_value := Canceled\<rparr>]\<rparr>,
     p_threads := remove_at k (p_threads p) @ [NextOf (c_next c)]\<rparr>"
  have step: "program_step (ThreadStep k) p = Inr p'"
    using k t n canc by (simp add: program_simps thread_step_def continueWith_def setCanceled_def set_result_def p'_def s_def)
  have wr: "writers p' b + of_bool (b = c_next c) = writers p b" for b
    using thread_taken(1) [OF k, of b] t sum_list_put [OF n(1), of "state_target b" "s\<lparr>fs_value := Canceled\<rparr>"]
    by (simp add: writers_def p'_def thread_target_def state_target_def s_def eq_commute [of b "c_next c"])
  have pr: "promise_ok p' q" if "q \<in> set (p_promises p')" for q
    using that promise_ok_of [OF assms(1), of q] by (simp add: p'_def promise_ok_def)
  have v: "Canceled = Canceled \<and> isCanceled (fst (p_origin p ! c_next c)) (p_world p)
      \<or> (\<exists>x. Canceled = Holds x \<and> expected (p_origin p') (p_resolved p') (c_next c) = Some x)"
    using canc facts(1) by (simp add: cont_ok_def)
  have keep: "NextOf b \<in> set (p_threads p) \<Longrightarrow> NextOf b \<in> set (remove_at k (p_threads p))" for b
    by (rule in_remove_at) (auto simp: t)
  have le: "sum_list (map (thread_reads b) (remove_at k (p_threads p))) \<le> sum_list (map (thread_reads b) (p_threads p))" for b
    using thread_taken(2) [OF k, of b] by linarith
  have "program_ok p'"
    by (rule complete_ok [OF assms(1) n(1), where v = Canceled and ts = "remove_at k (p_threads p)" and ys = "[]"])
       (use wr pr v keep le set_remove_at [of k "p_threads p"] in \<open>simp_all add: p'_def s_def\<close>)
  then show ?thesis using step by blast
qed

lemma thread_value_ok:
  assumes "program_ok p" and k: "k < length (p_threads p)" and t: "p_threads p ! k = Exec c a"
    and canc: "\<not> isCanceled (c_token c) (p_world p)"
  shows "\<exists>p'. program_step (ThreadStep k) p = Inr p' \<and> program_ok p'"
proof -
  note facts = thread_exec_facts [OF assms(1-3)]
  note n = state_of_writer [OF assms(1) facts(4)]
  have sok: "state_ok p a" using assms(1) facts(3) by (simp add: program_ok_def)
  have tok: "c_token c = fst (p_origin p ! a)" using facts(1) by (simp add: cont_ok_def)
  obtain v where v: "fs_value (w_states (p_world p) ! a) = Holds v"
    using facts(2,5) sok canc tok by (cases "fs_value (w_states (p_world p) ! a)") (auto simp: readyImpl_def state_ok_def Let_def)
  have ev: "expected (p_origin p) (p_resolved p) a = Some v" using sok v by (simp add: state_ok_def Let_def)
  define s where "s = w_states (p_world p) ! a"
  define j where "j = (c_executor c, RunThen (c_fn c) v (c_next c) (c_token c))"
  define p' where "p' = p\<lparr>p_world := (p_world p)\<lparr>w_states := (w_states (p_world p))[a := s\<lparr>fs_value := MovedFrom\<rparr>],
     w_jobs := w_jobs (p_world p) @ [j]\<rparr>, p_threads := remove_at k (p_threads p)\<rparr>"
  have step: "program_step (ThreadStep k) p = Inr p'"
    using k t canc v facts(3)
    by (simp add: program_simps thread_step_def continueWith_def extractValue_def p'_def s_def j_def)
  have nth: "w_states (p_world p') ! b = (if b = a then s\<lparr>fs_value := MovedFrom\<rparr> else w_states (p_world p) ! b)" for b
    using facts(3) by (simp add: p'_def)
  have rd: "readyImpl (w_states (p_world p') ! b) = readyImpl (w_states (p_world p) ! b)" for b
    using facts(2) by (simp add: nth readyImpl_def)
  have gr: "grows p p'" using rd by (simp add: grows_def isCanceled_def) (simp add: p'_def)
  have lens: "length (w_states (p_world p')) = length (w_states (p_world p))" by (simp add: p'_def)
  have "program_ok p'"
  proof (rule program_ok_grows [OF assms(1) gr])
    show "length (p_origin p') = length (w_states (p_world p'))" using origin_length [OF assms(1)] by (simp add: p'_def)
  next
    fix b
    have "writers p' b = writers p b"
      using thread_taken(1) [OF k, of b] t sum_list_put [OF facts(3), of "state_target b" "s\<lparr>fs_value := MovedFrom\<rparr>"]
      by (simp add: writers_def p'_def thread_target_def state_target_def s_def job_target_def j_def)
    then show "writers p' b = of_bool (b < length (w_states (p_world p')) \<and> \<not> readyImpl (w_states (p_world p') ! b))"
      using writers_eq [OF assms(1), of b] rd by (simp add: lens)
    have "(if b < length (w_states (p_world p')) then state_reads (w_states (p_world p') ! b) else 0)
        = (if b < length (w_states (p_world p)) then state_reads (w_states (p_world p) ! b) else 0) + of_bool (a = b)"
      unfolding lens nth using facts(3,5,6) v by (auto simp: s_def state_reads_def)
    moreover have "sum_list (map (thread_reads b) (p_threads p')) + of_bool (a = b) = sum_list (map (thread_reads b) (p_threads p))"
      using thread_taken(2) [OF k, of b] t by (simp add: p'_def thread_reads_def)
    moreover have fut: "p_futures p' = p_futures p" by (simp add: p'_def)
    ultimately have "readers p' b = readers p b" unfolding readers_def fut by linarith
    then show "readers p' b \<le> 1" using readers_le [OF assms(1), of b] by simp
  next
    fix b assume b: "b < length (w_states (p_world p'))"
    show "state_ok p' b \<or> (b < length (w_states (p_world p)) \<and> w_states (p_world p') ! b = w_states (p_world p) ! b
       \<and> (NextOf b \<in> set (p_threads p) \<and> fs_cont (w_states (p_world p) ! b) \<noteq> None \<longrightarrow> NextOf b \<in> set (p_threads p')))"
    proof (cases "b = a")
      case True
      have "state_ok p' a" using sok facts(6) unfolding state_ok_def Let_def nth by (simp add: s_def p'_def)
      then show ?thesis using True by simp
    next
      case False
      have "NextOf b \<in> set (p_threads p) \<Longrightarrow> NextOf b \<in> set (remove_at k (p_threads p))"
        by (rule in_remove_at) (auto simp: t)
      then show ?thesis using False b nth [of b] by (auto simp: p'_def)
    qed
  next
    fix u assume "u \<in> set (p_threads p')"
    then show "u \<in> set (p_threads p) \<or> thread_ok p' u" using set_remove_at [of k "p_threads p"] by (auto simp: p'_def)
  next
    fix i assume i: "i \<in> set (w_jobs (p_world p'))"
    have "job_ok p' j"
      using facts(1) ev unfolding job_ok_def
      by (subst expected.simps) (simp add: p'_def j_def cont_ok_def)
    then show "i \<in> set (w_jobs (p_world p)) \<or> job_ok p' i" using i by (auto simp: p'_def)
  next
    fix q assume "q \<in> set (p_promises p')"
    then show "promise_ok p' q" using promise_ok_of [OF assms(1), of q] by (simp add: p'_def promise_ok_def)
  qed (simp_all add: p'_def)
  then show ?thesis using step by blast
qed

text \<open>Changes of a token that keep a cancellation and spawn callbacks, and handles given up.\<close>

lemma token_change_ok:
  assumes "program_ok p" and js: "js = map (\<lambda>(ex, f). (ex, RunCallback f)) cbs"
    and "ts_canceled (w_tokens (p_world p) ! t) \<Longrightarrow> ts_canceled ts"
    and hs: "set hs \<subseteq> set (p_futures p)" "\<And>b. sum_list (map (handle_reads b) hs) \<le> sum_list (map (handle_reads b) (p_futures p))"
  shows "program_ok (p\<lparr>p_world := (p_world p)\<lparr>w_tokens := (w_tokens (p_world p))[t := ts], w_jobs := w_jobs (p_world p) @ js\<rparr>,
    p_futures := hs\<rparr>)" (is "program_ok ?p")
proof -
  have "isCanceled u (p_world p) \<Longrightarrow> isCanceled u (p_world ?p)" for u
    using assms(3) by (cases "t < length (w_tokens (p_world p))") (auto simp: isCanceled_def nth_list_update list_update_beyond not_less)
  then have gr: "grows p ?p" by (simp add: grows_def)
  have "sum_list (map (job_target b) js) = 0" for b using js by (auto simp: job_target_def)
  then have wr: "writers ?p b = writers p b" for b by (simp add: writers_def)
  show ?thesis
  proof (rule program_ok_grows [OF assms(1) gr])
    fix b
    show "writers ?p b = of_bool (b < length (w_states (p_world ?p)) \<and> \<not> readyImpl (w_states (p_world ?p) ! b))"
      using writers_eq [OF assms(1), of b] unfolding wr by simp
    have "readers ?p b \<le> readers p b" using hs(2) [of b] by (simp add: readers_def)
    then show "readers ?p b \<le> 1" using readers_le [OF assms(1), of b] by simp
  next
    fix q assume "q \<in> set (p_promises ?p)"
    then show "promise_ok ?p q" using promise_ok_of [OF assms(1), of q] by (simp add: promise_ok_def)
  next
    fix j assume "j \<in> set (w_jobs (p_world ?p))"
    then show "j \<in> set (w_jobs (p_world p)) \<or> job_ok ?p j" using js by (auto simp: job_ok_def)
  qed (use origin_length [OF assms(1)] hs(1) in auto)
qed

lemma cancel_facts: "ts_canceled (snd (cancel t))" "fst (cancel t) = (if ts_canceled t then [] else ts_callbacks t)"
  by (auto simp: cancel_def cancel_exchange_def cancel_flush_def)

lemma subscribe_facts: "ts_canceled (snd (subscribe cb t)) = ts_canceled t"
  by (auto simp: subscribe_def)

lemma program_step_ok:
  assumes "program_ok p"
  shows "\<exists>p'. program_step e p = Inr p' \<and> program_ok p'"
proof (cases e)
  case (ThreadStep k)
  show ?thesis
  proof (cases "k < length (p_threads p)")
    case True
    show ?thesis
      using thread_next_ok [OF assms True] thread_canceled_ok [OF assms True] thread_value_ok [OF assms True] ThreadStep
      by (cases "p_threads p ! k") blast+
  qed (use ThreadStep assms in \<open>simp add: program_step_def\<close>)
next
  case (ResetFuture k)
  show ?thesis
  proof (cases "k < length (p_futures p)")
    case True
    have "handle_ok p (p_futures p ! k)" using assms True by (simp add: program_ok_def)
    then obtain t where t: "fh_source (p_futures p ! k) = Some t" by (auto simp: handle_ok_def split: option.splits)
    have le: "sum_list (map (handle_reads b) (remove_at k (p_futures p))) \<le> sum_list (map (handle_reads b) (p_futures p))" for b
      using sum_remove_at [OF True, of "handle_reads b"] by linarith
    show ?thesis
      using token_change_ok [OF assms refl, of t "snd (cancel (w_tokens (p_world p) ! t))" "remove_at k (p_futures p)"
            "fst (cancel (w_tokens (p_world p) ! t))"] le set_remove_at [of k "p_futures p"]
        cancel_facts(1) True t ResetFuture
      by (simp add: program_step_def future_reset_def source_cancel_def split_beta)
  qed (use ResetFuture assms in \<open>simp add: program_step_def\<close>)
next
  case (SubscribeToken t cb)
  show ?thesis
    using token_change_ok [OF assms refl, of t "snd (subscribe cb (w_tokens (p_world p) ! t))" "p_futures p"
        "fst (subscribe cb (w_tokens (p_world p) ! t))"] subscribe_facts assms SubscribeToken
    by (simp add: program_step_def token_subscribe_def split_beta)
qed (use make_ok [OF assms] then_ok [OF assms] resolve_ok [OF assms] job_ok_step [OF assms] in simp_all)

lemma program_run_ok: "program_ok p \<Longrightarrow> \<exists>p'. fold_res program_step es p = Inr p' \<and> program_ok p'"
proof (induction es arbitrary: p)
  case (Cons e es)
  obtain q where "program_step e p = Inr q" "program_ok q" using program_step_ok [OF Cons.prems] by blast
  then show ?case using Cons.IH [of q] by simp
qed simp

lemma quiescent_ready:
  assumes "program_ok p" and "quiescent p"
  shows "a < length (w_states (p_world p)) \<Longrightarrow> readyImpl (w_states (p_world p) ! a)"
proof (induction a rule: less_induct)
  case (less a)
  show ?case
  proof (rule ccontr)
    assume "\<not> readyImpl (w_states (p_world p) ! a)"
    then have "sum_list (map (state_target a) (w_states (p_world p))) = 1"
      using writers_eq [OF assms(1), of a] less.prems assms(2) by (simp add: writers_def quiescent_def)
    then have "\<exists>s \<in> set (w_states (p_world p)). state_target a s \<noteq> 0"
      by (metis (no_types, lifting) sum_list_0 map_cong map_replicate_const zero_neq_one sum_list_eq_0_iff imageE list.set_map)
    then obtain b where b: "b < length (w_states (p_world p))" "state_target a (w_states (p_world p) ! b) \<noteq> 0"
      by (metis in_set_conv_nth)
    then obtain c where c: "fs_cont (w_states (p_world p) ! b) = Some c" "c_next c = a"
      by (auto simp: state_target_def split: option.splits if_splits)
    have ok: "state_ok p b" using assms(1) b(1) by (simp add: program_ok_def)
    then have "b < a" "readyImpl (w_states (p_world p) ! b) \<Longrightarrow> NextOf b \<in> set (p_threads p)"
      using c by (auto simp: state_ok_def Let_def cont_ok_def)
    then show False using less.IH [of b] b(1) assms(2) by (simp add: quiescent_def)
  qed
qed

text \<open>A handle is the only owner of its computation's source, so the computation of a live handle is not cancelled.\<close>

definition handles_live :: "'v future_program \<Rightarrow> bool" where
  "handles_live p \<longleftrightarrow> distinct (map fh_source (p_futures p))
     \<and> (\<forall>h \<in> set (p_futures p). \<exists>t. fh_source h = Some t \<and> t < length (w_tokens (p_world p)) \<and> \<not> isCanceled t (p_world p))"

lemma map_remove_at: "map f (remove_at k xs) = remove_at k (map f xs)"
  by (simp add: remove_at_def take_map drop_map)

lemma distinct_remove_at: "distinct xs \<Longrightarrow> distinct (remove_at k xs) \<and> (k < length xs \<longrightarrow> xs ! k \<notin> set (remove_at k xs))"
proof (cases "k < length xs")
  case True
  assume "distinct xs"
  then have "distinct (take k xs @ xs ! k # drop (Suc k) xs)" using id_take_nth_drop [OF True] by simp
  then show ?thesis by (simp add: remove_at_def)
qed (simp add: remove_at_def)

lemma tokens_kept:
  shows "set_result a v w = Inr w' \<Longrightarrow> w_tokens w' = w_tokens w"
    and "chain_cont a c w = Inr (c', w') \<Longrightarrow> w_tokens w' = w_tokens w"
    and "thread_step t w = Inr (t', w') \<Longrightarrow> w_tokens w' = w_tokens w"
    and "run_job j w = Inr (t', w') \<Longrightarrow> w_tokens w' = w_tokens w"
proof -
  show set_r: "set_result a v w = Inr w' \<Longrightarrow> w_tokens w' = w_tokens w" for a v and w w' :: "'a world"
    by (auto simp: set_result_def put_state_def)
  show "chain_cont a c w = Inr (c', w') \<Longrightarrow> w_tokens w' = w_tokens w"
    by (auto simp: chain_cont_def put_state_def split: if_splits)
  have ext: "w_tokens w' = w_tokens w" if x: "extractValue a w = Inr (v, w')" for a v and w w' :: "'a world"
  proof -
    obtain s where "state_at a w = Inr s" using x by (auto simp: extractValue_def)
    then show ?thesis using x by (cases "fs_value s") (auto simp: extractValue_def put_state_def)
  qed
  show "thread_step t w = Inr (t', w') \<Longrightarrow> w_tokens w' = w_tokens w"
    using set_r ext
    by (fastforce simp: thread_step_def next_cont_def continueWith_def put_state_def setCanceled_def
        split: thread.splits if_splits)
  show "run_job j w = Inr (t', w') \<Longrightarrow> w_tokens w' = w_tokens w"
    using set_r by (auto simp: run_job_def setValue_def setCanceled_def split: job.splits if_splits)
qed

lemma handles_live_same:
  "handles_live p \<Longrightarrow> p_futures p' = p_futures p \<Longrightarrow> w_tokens (p_world p') = w_tokens (p_world p) \<Longrightarrow> handles_live p'"
  by (simp add: handles_live_def isCanceled_def)

lemma handles_live_step:
  assumes "handles_live p" and "program_step e p = Inr p'"
  shows "handles_live p'"
proof (cases e)
  case MakePromise
  have "Some (length (w_tokens (p_world p))) \<notin> fh_source ` set (p_futures p)"
    using assms(1) by (fastforce simp: handles_live_def)
  moreover have "p_futures p' = p_futures p @ [\<lparr>fh_state = Some (length (w_states (p_world p))), fh_source = Some (length (w_tokens (p_world p)))\<rparr>]"
    "w_tokens (p_world p') = w_tokens (p_world p) @ [new_token]"
    using assms(2) MakePromise by (auto simp: program_step_def makePromise_def Let_def)
  ultimately show ?thesis
    using assms(1) unfolding handles_live_def isCanceled_def by (fastforce simp: nth_append new_token_def less_Suc_eq)
next
  case (ThenOn k ex fn)
  show ?thesis
  proof (cases "k < length (p_futures p)")
    case True
    obtain h' u w where th: "future_then (p_futures p ! k) ex fn (p_world p) = Inr (h', u, w)"
      and p': "p_futures p' = remove_at k (p_futures p) @ [h']" "p_world p' = w"
      using assms(2) ThenOn True by (auto simp: program_step_def Let_def)
    have src: "fh_source h' = fh_source (p_futures p ! k)" "w_tokens w = w_tokens (p_world p)"
      using th tokens_kept(2) by (fastforce simp: future_then_def Let_def split: option.splits)+
    have d: "distinct (map fh_source (p_futures p))" using assms(1) by (simp add: handles_live_def)
    have "fh_source h' \<notin> set (map fh_source (remove_at k (p_futures p)))"
      using distinct_remove_at [OF d, of k] True src(1) by (simp add: map_remove_at)
    moreover have "p_futures p ! k \<in> set (p_futures p)" using True by simp
    ultimately show ?thesis
      using assms(1) p' src distinct_remove_at [OF d, of k] set_remove_at [of k "p_futures p"]
      unfolding handles_live_def isCanceled_def by (auto simp: map_remove_at)
  qed (use assms ThenOn in \<open>simp add: program_step_def\<close>)
next
  case (ResetFuture k)
  show ?thesis
  proof (cases "k < length (p_futures p)")
    case True
    have d: "distinct (map fh_source (p_futures p))" using assms(1) by (simp add: handles_live_def)
    obtain t where t: "fh_source (p_futures p ! k) = Some t" using assms(1) True by (fastforce simp: handles_live_def)
    have nt: "Some t \<notin> set (map fh_source (remove_at k (p_futures p)))"
      using distinct_remove_at [OF d, of k] True t by (simp add: map_remove_at)
    have p': "p_futures p' = remove_at k (p_futures p)"
      "w_tokens (p_world p') = (w_tokens (p_world p))[t := snd (cancel (w_tokens (p_world p) ! t))]"
      using assms(2) ResetFuture True t by (auto simp: program_step_def future_reset_def source_cancel_def split_beta)
    have "\<exists>u. fh_source h = Some u \<and> u < length (w_tokens (p_world p')) \<and> \<not> isCanceled u (p_world p')"
      if h: "h \<in> set (remove_at k (p_futures p))" for h
    proof -
      have "h \<in> set (p_futures p)" using h set_remove_at [of k "p_futures p"] by blast
      then obtain u where u: "fh_source h = Some u" "u < length (w_tokens (p_world p))" "\<not> isCanceled u (p_world p)"
        using assms(1) by (auto simp: handles_live_def)
      have "t \<noteq> u" using nt h u(1) by (auto simp: image_iff)
      then show ?thesis using u p'(2) by (simp add: isCanceled_def)
    qed
    then show ?thesis
      using distinct_remove_at [OF d, of k] unfolding handles_live_def p'(1) by (simp add: map_remove_at)
  qed (use assms ResetFuture in \<open>simp add: program_step_def\<close>)
next
  case (SubscribeToken t cb)
  then show ?thesis
    using assms subscribe_facts [of cb "w_tokens (p_world p) ! t"]
    by (fastforce simp: program_step_def token_subscribe_def split_beta handles_live_def isCanceled_def nth_list_update split: if_splits)
next
  case (Resolve k v)
  then have "p_futures p' = p_futures p \<and> w_tokens (p_world p') = w_tokens (p_world p)"
    using assms(2) tokens_kept(1) by (auto simp: program_step_def promise_resolve_def setValue_def split: if_splits)
  then show ?thesis using handles_live_same [OF assms(1)] by blast
next
  case (ThreadStep k)
  then have "p_futures p' = p_futures p \<and> w_tokens (p_world p') = w_tokens (p_world p)"
    using assms(2) tokens_kept(3) by (auto simp: program_step_def split: if_splits)
  then show ?thesis using handles_live_same [OF assms(1)] by blast
next
  case (RunJob k)
  then have "p_futures p' = p_futures p \<and> w_tokens (p_world p') = w_tokens (p_world p)"
    using assms(2) by (auto simp: program_step_def split: if_splits dest!: tokens_kept(4))
  then show ?thesis using handles_live_same [OF assms(1)] by blast
qed

lemma empty_program_live: "handles_live empty_program"
  by (simp add: handles_live_def empty_program_def)

lemma handles_live_run: "handles_live p \<Longrightarrow> fold_res program_step es p = Inr p' \<Longrightarrow> handles_live p'"
proof (induction es arbitrary: p)
  case (Cons e es)
  then show ?case using handles_live_step by (auto simp: bindr_eq_Inr)
qed simp

lemma live_get:
  assumes "program_ok p" and "handles_live p" and "h \<in> set (p_futures p)"
  shows "case future_get h (p_world p) of
       Inl _ \<Rightarrow> False
     | Inr None \<Rightarrow> \<not> quiescent p
     | Inr (Some (v, _)) \<Rightarrow> expected (p_origin p) (p_resolved p) (the (fh_state h)) = Some v"
proof -
  obtain k where k: "k < length (p_futures p)" "h = p_futures p ! k" using assms(3) by (metis in_set_conv_nth)
  have "handle_ok p h" using assms(1,3) by (simp add: program_ok_def)
  then obtain a where a: "fh_state h = Some a" by (auto simp: handle_ok_def split: option.splits)
  note tk = handle_taken [OF assms(1) k(1), folded k(2), OF a]
  have ok: "state_ok p a" using assms(1) tk(3) by (simp add: program_ok_def)
  have live: "\<not> isCanceled (fst (p_origin p ! a)) (p_world p)"
    using assms(2,3) tk(4) by (fastforce simp: handles_live_def)
  show ?thesis
    using ok live tk(2,3) a quiescent_ready [OF assms(1), of a]
    by (cases "fs_value (w_states (p_world p) ! a)")
       (auto simp: future_get_def state_at_def readyImpl_def hasValue_def extractValue_def state_ok_def Let_def)
qed

text \<open>\<open>executeFuture\<close> without interruption is a sequence of steps of its thread.\<close>

lemma executeFuture_returns:
  "program_ok p \<Longrightarrow> k < length (p_threads p) \<Longrightarrow> \<exists>w. executeFuture (Some (p_threads p ! k)) (p_world p) = Inr w"
proof (induction "thread_measure (Some (p_threads p ! k), p_world p)" arbitrary: p k rule: less_induct)
  case less
  obtain p' where p': "program_step (ThreadStep k) p = Inr p'" "program_ok p'"
    using program_step_ok [OF less.prems(1)] by blast
  obtain t w where step: "thread_step (p_threads p ! k) (p_world p) = Inr (t, w)"
    and q: "p_world p' = w" "p_threads p' = remove_at k (p_threads p) @ thread_list t"
    using p'(1) less.prems(2) by (auto simp: program_step_def)
  show ?case
  proof (cases t)
    case None
    then show ?thesis using step by simp
  next
    case (Some u)
    let ?k = "length (remove_at k (p_threads p))"
    have u: "p_threads p' ! ?k = u" "?k < length (p_threads p')" using q(2) Some by (simp_all add: thread_list_def)
    have "thread_measure (Some (p_threads p' ! ?k), p_world p') < thread_measure (Some (p_threads p ! k), p_world p)"
      using thread_step_decreases [OF step] Some u(1) q(1) by simp
    then show ?thesis using less.hyps [OF _ p'(2) u(2)] step Some u(1) q(1) by simp
  qed
qed

section \<open>Properties\<close>

text \<open>C34 However a program makes promises, chains, resolves and drops futures, and however its threads and executors
  interleave, no assertion fails, no value is extracted twice and no dangling state is followed.  A state is
  cancelled only when its computation is, the value it holds is that of its promise passed through the chained
  functions, and when every promise is resolved and all threads and jobs are done, no state is left empty.\<close>

theorem futures_never_fail:
  "\<exists>p. fold_res program_step es empty_program = Inr p
     \<and> list_all (\<lambda>a. case fs_value (w_states (p_world p) ! a) of
           Empty \<Rightarrow> \<not> quiescent p
         | Canceled \<Rightarrow> isCanceled (fst (p_origin p ! a)) (p_world p)
         | Holds v \<Rightarrow> expected (p_origin p) (p_resolved p) a = Some v
         | MovedFrom \<Rightarrow> True) [0..<length (w_states (p_world p))]"
proof -
  obtain p where p: "fold_res program_step es empty_program = Inr p" "program_ok p"
    using program_run_ok [OF empty_program_ok, of es] by blast
  have "case fs_value (w_states (p_world p) ! a) of
           Empty \<Rightarrow> \<not> quiescent p
         | Canceled \<Rightarrow> isCanceled (fst (p_origin p ! a)) (p_world p)
         | Holds v \<Rightarrow> expected (p_origin p) (p_resolved p) a = Some v
         | MovedFrom \<Rightarrow> True" if "a < length (w_states (p_world p))" for a
    using p(2) that quiescent_ready [OF p(2) _ that]
    by (auto simp: program_ok_def state_ok_def Let_def readyImpl_def split: fvalue.splits)
  then show ?thesis using p(1) by (auto simp: list_all_iff)
qed

text \<open>C35 A future that is still held delivers: whatever the interleaving was, \<open>get\<close> on it never fails; it waits only
  while a promise is unresolved or work is pending, and then returns the value of the promise at the start of its
  chain passed through the chained functions in order.\<close>

theorem held_future_delivers:
  assumes "fold_res program_step es empty_program = Inr p" and "k < length (p_futures p)"
  shows "case future_get (p_futures p ! k) (p_world p) of
       Inl _ \<Rightarrow> False
     | Inr None \<Rightarrow> \<not> quiescent p
     | Inr (Some (v, _)) \<Rightarrow> expected (p_origin p) (p_resolved p) (the (fh_state (p_futures p ! k))) = Some v"
proof -
  have "program_ok p" using program_run_ok [OF empty_program_ok, of es] assms(1) by simp
  then show ?thesis
    using live_get [OF _ handles_live_run [OF empty_program_live assms(1)]] assms(2) by simp
qed

text \<open>C38 The loop of \<open>executeFuture\<close> ends: in every program state that can be reached, running a pending continuation
  to its end without interruption returns, since every turn that goes on cancels a state that was empty.\<close>

theorem executeFuture_terminates:
  assumes "fold_res program_step es empty_program = Inr p" and "k < length (p_threads p)"
  shows "\<exists>w. executeFuture (Some (p_threads p ! k)) (p_world p) = Inr w"
proof -
  have "program_ok p" using program_run_ok [OF empty_program_ok, of es] assms(1) by simp
  then show ?thesis by (rule executeFuture_returns) (rule assms(2))
qed

definition canceled_events :: "nat future_event list" where
  "canceled_events = [MakePromise, ThenOn 0 1 Suc, ThenOn 0 1 Suc, ResetFuture 0, Resolve 0 5]"

theorem executeFuture_terminates_witness:
  "\<exists>p w. fold_res program_step canceled_events empty_program = Inr p
     \<and> p_threads p = [NextOf 0] \<and> executeFuture (Some (NextOf 0)) (p_world p) = Inr w"
proof -
  obtain p where run: "fold_res program_step canceled_events empty_program = Inr p" and p: "p_threads p = [NextOf 0]"
    by (simp add: canceled_events_def program_simps empty_program_def makePromise_def new_state_def new_token_def
        future_then_def chain_cont_def readyImpl_def promise_resolve_def setValue_def set_result_def
        future_reset_def source_cancel_def cancel_def cancel_exchange_def cancel_flush_def remove_at_def)
  then show ?thesis using executeFuture_terminates [OF run, of 0] by auto
qed

definition sample_events :: "nat future_event list" where
  "sample_events =
     [MakePromise, ThenOn 0 1 Suc, Resolve 0 5, ThreadStep 0, ThenOn 0 2 (\<lambda>x. 2 * x), ThreadStep 0, RunJob 0,
      ThreadStep 0, ThreadStep 0, RunJob 0, ThreadStep 0]"

theorem held_future_delivers_witness:
  "\<exists>p v w. fold_res program_step sample_events empty_program = Inr p \<and> future_get (p_futures p ! 0) (p_world p) = Inr (Some (v, w)) \<and> v = 12"
proof -
  obtain p where run: "fold_res program_step sample_events empty_program = Inr p"
    and p: "p_futures p = [\<lparr>fh_state = Some 2, fh_source = Some 0\<rparr>]" "quiescent p"
      "p_origin p = [(0, None), (0, Some (0, Suc)), (0, Some (1, \<lambda>x. 2 * x))]" "p_resolved p = [(0, 5)]"
    by (simp add: sample_events_def program_simps empty_program_def makePromise_def new_state_def new_token_def
        future_then_def chain_cont_def readyImpl_def promise_resolve_def setValue_def set_result_def thread_step_def next_cont_def
        continueWith_def isCanceled_def extractValue_def run_job_def remove_at_def quiescent_def)
  have "expected (p_origin p) (p_resolved p) 2 = Some 12"
    unfolding p by (subst expected.simps, subst expected.simps, subst expected.simps) simp
  then show ?thesis using held_future_delivers [OF run, of 0] run p by (auto split: sum.splits option.splits)
qed

end
