(* ===== verification/SqliteStatement.thy ===== *)
theory SqliteStatement
  imports Json Gregorian
begin

text \<open>
  \<open>persistence::sqlite::SqliteStatement\<close>, a prepared statement of the SQLite library.  The library is the
  parameter \<open>S\<close> over its database \<open>'db\<close>; \<open>sql_ok\<close> states what its documentation says of the statements the
  program prepares, as an effect on tables.
\<close>

section \<open>The library\<close>

datatype sql_value = SNull | SInt int | SText string

type_synonym sql_row = "sql_value list"

datatype step_code = SqliteOk | SqliteRow | SqliteDone | SqliteError

text \<open>The statement texts of \<open>sqlitestorage.cpp\<close>, by the keys they are registered under.\<close>

datatype sql =
    HotelInsert | HotelUpdate | HotelAll | HotelById
  | CategoryInsert | CategoriesByHotelId | RoomInsert | RoomsByHotelId
  | ReservationAndAtomsAll | ReservationAndAtomsById
  | ReservationInsert | ReservationUpdate | ReservationDeleteAtoms | ReservationDelete | AtomInsert
  | DropTable string | CreateTable string

text \<open>
  \<open>sq_run\<close> binds the values and steps to the end: the rows delivered, the last result code and the database
  after it.  \<open>sq_cast_int\<close> and \<open>sq_cast_text\<close> are the conversions of column values of the other type.
\<close>

record 'db sqlite =
  sq_open :: "string \<Rightarrow> 'db option"
  sq_prepare :: "sql \<Rightarrow> 'db \<Rightarrow> bool"
  sq_run :: "sql \<Rightarrow> sql_value list \<Rightarrow> 'db \<Rightarrow> sql_row list \<times> step_code \<times> 'db"
  sq_changes :: "'db \<Rightarrow> int"
  sq_last_insert_rowid :: "'db \<Rightarrow> int"
  sq_begin :: "'db \<Rightarrow> 'db"
  sq_commit :: "'db \<Rightarrow> 'db"
  sq_rollback :: "'db \<Rightarrow> 'db"
  sq_cast_int :: "string \<Rightarrow> int"
  sq_cast_text :: "int \<Rightarrow> string"

section \<open>Statements\<close>

text \<open>
  \<open>st_compiled\<close> is whether the statement pointer is set; \<open>st_rows\<close> are the rows still to be delivered, the
  first being the current one, and \<open>st_end\<close> the result code after them.
\<close>

record sql_statement =
  st_sql :: sql
  st_compiled :: bool
  st_lastResult :: step_code
  st_rows :: "sql_row list"
  st_end :: step_code

definition mk_statement :: "'db sqlite \<Rightarrow> sql \<Rightarrow> 'db \<Rightarrow> sql_statement" where
  "mk_statement S q db =
     \<lparr>st_sql = q, st_compiled = sq_prepare S q db, st_lastResult = SqliteOk, st_rows = [], st_end = SqliteDone\<rparr>"

text \<open>Resetting a statement that has run to its end succeeds.\<close>

definition prepareForQuery :: "sql_statement \<Rightarrow> bool \<times> sql_statement" where
  "prepareForQuery st =
     (if \<not> st_compiled st then (False, st)
      else let st' = (if st_lastResult st = SqliteDone then st\<lparr>st_lastResult := SqliteOk\<rparr> else st)
           in (st_lastResult st' = SqliteOk, st'))"

definition statement_execute ::
    "'db sqlite \<Rightarrow> sql_value list \<Rightarrow> sql_statement \<Rightarrow> 'db \<Rightarrow> bool \<times> sql_statement \<times> 'db" where
  "statement_execute S args st db =
     (let (ready, st') = prepareForQuery st
      in if \<not> ready then (False, st', db)
         else let (rows, code, db') = sq_run S (st_sql st') args db
              in (True, st'\<lparr>st_rows := rows, st_end := code, st_lastResult := (if rows = [] then code else SqliteRow)\<rparr>, db'))"

definition hasResultRow :: "sql_statement \<Rightarrow> bool" where
  "hasResultRow st \<longleftrightarrow> st_lastResult st = SqliteRow"

definition readRow :: "sql_statement \<Rightarrow> sql_row \<times> sql_statement" where
  "readRow st =
     (case st_rows st of
        [] \<Rightarrow> ([], st)
      | r # rs \<Rightarrow> (r, st\<lparr>st_rows := rs, st_lastResult := (if rs = [] then st_end st else SqliteRow)\<rparr>))"

text \<open>The rows that the loop \<open>while (hasResultRow()) readRow(...)\<close> reads, with the statement after it.\<close>

function read_rows :: "sql_statement \<Rightarrow> sql_row list \<times> sql_statement" where
  "read_rows st =
     (if hasResultRow st \<and> st_rows st \<noteq> []
      then let (r, st') = readRow st; (rs, st'') = read_rows st' in (r # rs, st'')
      else ([], st))"
  by pat_completeness auto

termination
  by (relation "measure (\<lambda>st. length (st_rows st))") (auto simp: readRow_def split: list.splits)

declare read_rows.simps [simp del]

text \<open>Columns: a string cell that is null leaves the empty string the variable starts with.\<close>

definition column :: "sql_row \<Rightarrow> nat \<Rightarrow> sql_value" where
  "column r i = (if i < length r then r ! i else SNull)"

definition readInt :: "'db sqlite \<Rightarrow> sql_value \<Rightarrow> int" where
  "readInt S v = to_int32 (case v of SNull \<Rightarrow> 0 | SInt i \<Rightarrow> i | SText t \<Rightarrow> sq_cast_int S t)"

definition readString :: "'db sqlite \<Rightarrow> sql_value \<Rightarrow> string" where
  "readString S v =
     takeWhile (\<lambda>c. c \<noteq> CHR 0x00) (case v of SNull \<Rightarrow> [] | SInt i \<Rightarrow> sq_cast_text S i | SText t \<Rightarrow> t)"

definition readDate :: "'db sqlite \<Rightarrow> ('d::linorder, 'p) gregorian \<Rightarrow> sql_value \<Rightarrow> 'd res" where
  "readDate S G v = from_undelimited G (readString S v)"

definition bindDate :: "('d::linorder, 'p) gregorian \<Rightarrow> 'd \<Rightarrow> sql_value" where
  "bindDate G d = SText (to_iso G d)"

section \<open>Tables\<close>

text \<open>
  The documented effect of the statements: tables by name, each row starting with its \<open>AUTOINCREMENT\<close> id, the
  largest id each table ever had, and the rows of the open transaction's start.
\<close>

record tables =
  tb_rows :: "string \<Rightarrow> sql_row list option"
  tb_seq :: "string \<Rightarrow> int"
  tb_changes :: int
  tb_rowid :: int
  tb_saved :: "((string \<Rightarrow> sql_row list option) \<times> (string \<Rightarrow> int)) option"

definition table_names :: "string list" where
  "table_names = [''h_hotel'', ''h_room_category'', ''h_room'', ''h_reservation'', ''h_reservation_atom'']"

definition has_tables :: "tables \<Rightarrow> bool" where
  "has_tables t \<longleftrightarrow> list_all (\<lambda>n. tb_rows t n \<noteq> None) table_names"

definition no_tables :: tables where
  "no_tables = \<lparr>tb_rows = (\<lambda>_. None), tb_seq = (\<lambda>_. 0), tb_changes = 0, tb_rowid = 0, tb_saved = None\<rparr>"

definition insert_row :: "string \<Rightarrow> sql_value list \<Rightarrow> tables \<Rightarrow> (sql_row list \<times> tables) option" where
  "insert_row n vs t =
     (case tb_rows t n of
        None \<Rightarrow> None
      | Some rows \<Rightarrow>
          let i = tb_seq t n + 1
          in Some ([], t\<lparr>tb_rows := (tb_rows t)(n := Some (rows @ [SInt i # vs])), tb_seq := (tb_seq t)(n := i),
                         tb_changes := 1, tb_rowid := i\<rparr>))"

definition change_rows ::
    "string \<Rightarrow> (sql_row \<Rightarrow> bool) \<Rightarrow> (sql_row \<Rightarrow> sql_row option) \<Rightarrow> tables \<Rightarrow> (sql_row list \<times> tables) option" where
  "change_rows n P f t =
     (case tb_rows t n of
        None \<Rightarrow> None
      | Some rows \<Rightarrow>
          Some ([], t\<lparr>tb_rows := (tb_rows t)(n := Some (concat (map (\<lambda>r. if P r then (case f r of None \<Rightarrow> [] | Some r' \<Rightarrow> [r']) else [r]) rows))),
                      tb_changes := int (length (filter P rows))\<rparr>))"

definition next_revision :: "sql_value \<Rightarrow> sql_value" where
  "next_revision v = (case v of SInt i \<Rightarrow> SInt (i + 1) | _ \<Rightarrow> v)"

text \<open>The rows of \<open>h_reservation\<close> and \<open>h_reservation_atom\<close> that match, as the ordering and the selected columns.\<close>

definition join_rows :: "sql_row list \<Rightarrow> sql_row list \<Rightarrow> (sql_row \<times> sql_row) list" where
  "join_rows rs as = [(r, a). r \<leftarrow> rs, a \<leftarrow> as, column a 1 = column r 0]"

definition join_key :: "sql_row \<times> sql_row \<Rightarrow> int \<times> string" where
  "join_key = (\<lambda>(r, a). (case column r 0 of SInt i \<Rightarrow> i | _ \<Rightarrow> 0, case column a 3 of SText s \<Rightarrow> s | _ \<Rightarrow> []))"

text \<open>\<open>ORDER BY r.id, a.date_from\<close>, when the keys are distinct; the order of equal keys is not documented.\<close>

definition key_less :: "int \<times> string \<Rightarrow> int \<times> string \<Rightarrow> bool" where
  "key_less x y \<longleftrightarrow> fst x < fst y \<or> fst x = fst y \<and> snd x < snd y"

fun insert_joined :: "sql_row \<times> sql_row \<Rightarrow> (sql_row \<times> sql_row) list \<Rightarrow> (sql_row \<times> sql_row) list" where
  "insert_joined x [] = [x]"
| "insert_joined x (y # ys) = (if key_less (join_key y) (join_key x) then y # insert_joined x ys else x # y # ys)"

definition order_joined :: "(sql_row \<times> sql_row) list \<Rightarrow> (sql_row \<times> sql_row) list" where
  "order_joined js = foldr insert_joined js []"

text \<open>The declared types of the bound columns; binding values of other types is left open.\<close>

datatype sql_type = TInt | TText

definition value_type :: "sql_value \<Rightarrow> sql_type option" where
  "value_type v = (case v of SNull \<Rightarrow> None | SInt _ \<Rightarrow> Some TInt | SText _ \<Rightarrow> Some TText)"

definition bound_types :: "sql \<Rightarrow> sql_type list" where
  "bound_types q =
     (case q of
        HotelInsert \<Rightarrow> [TText]
      | HotelUpdate \<Rightarrow> [TText, TInt, TInt]
      | CategoryInsert \<Rightarrow> [TInt, TText, TText]
      | RoomInsert \<Rightarrow> [TInt, TInt, TText]
      | ReservationInsert \<Rightarrow> [TText, TText, TInt, TInt]
      | ReservationUpdate \<Rightarrow> [TText, TText, TInt, TInt, TInt, TInt]
      | ReservationDeleteAtoms \<Rightarrow> [TInt]
      | ReservationDelete \<Rightarrow> [TInt, TInt]
      | AtomInsert \<Rightarrow> [TInt, TInt, TText, TText]
      | ReservationAndAtomsById \<Rightarrow> [TInt]
      | _ \<Rightarrow> [])"

definition select_joined :: "(sql_row \<Rightarrow> bool) \<Rightarrow> (sql_row \<Rightarrow> sql_row) \<Rightarrow> tables \<Rightarrow> (sql_row list \<times> tables) option" where
  "select_joined P cols t =
     (case (tb_rows t ''h_reservation'', tb_rows t ''h_reservation_atom'') of
        (Some rs, Some as) \<Rightarrow>
          (let js = join_rows (filter P rs) as in
           if distinct (map join_key js)
           then Some (map (\<lambda>(r, a). cols r @ [column a 0, column a 2, column a 3, column a 4]) (order_joined js), t)
           else None)
      | _ \<Rightarrow> None)"

definition sql_effect :: "sql \<Rightarrow> sql_value list \<Rightarrow> tables \<Rightarrow> (sql_row list \<times> tables) option" where
  "sql_effect q args t =
     (if map value_type args \<noteq> map Some (bound_types q) then None
      else case q of
        HotelInsert \<Rightarrow> insert_row ''h_hotel'' (SInt 1 # args) t
      | HotelUpdate \<Rightarrow>
          change_rows ''h_hotel'' (\<lambda>r. column r 0 = args ! 1 \<and> column r 1 = args ! 2)
            (\<lambda>r. Some (r[1 := next_revision (column r 1), 2 := args ! 0])) t
      | CategoryInsert \<Rightarrow> insert_row ''h_room_category'' args t
      | RoomInsert \<Rightarrow> insert_row ''h_room'' args t
      | ReservationInsert \<Rightarrow> insert_row ''h_reservation'' (SInt 1 # args) t
      | ReservationUpdate \<Rightarrow>
          change_rows ''h_reservation'' (\<lambda>r. column r 0 = args ! 4 \<and> column r 1 = args ! 5)
            (\<lambda>r. Some (r[1 := next_revision (column r 1), 2 := args ! 0, 3 := args ! 1, 4 := args ! 2, 5 := args ! 3])) t
      | ReservationDeleteAtoms \<Rightarrow> change_rows ''h_reservation_atom'' (\<lambda>a. column a 1 = args ! 0) (\<lambda>_. None) t
      | ReservationDelete \<Rightarrow> change_rows ''h_reservation_atom'' (\<lambda>a. column a 1 = args ! 0) (\<lambda>_. None) t
      | AtomInsert \<Rightarrow> insert_row ''h_reservation_atom'' args t
      | ReservationAndAtomsAll \<Rightarrow> select_joined (\<lambda>_. True) (\<lambda>r. r) t
      | ReservationAndAtomsById \<Rightarrow> select_joined (\<lambda>r. column r 0 = args ! 0) tl t
      | DropTable n \<Rightarrow> Some ([], t\<lparr>tb_rows := (tb_rows t)(n := None), tb_seq := (tb_seq t)(n := 0)\<rparr>)
      | CreateTable n \<Rightarrow> Some ([], if tb_rows t n = None then t\<lparr>tb_rows := (tb_rows t)(n := Some [])\<rparr> else t)
      | _ \<Rightarrow> None)"

text \<open>
  \<open>sqlite3_prepare_v2\<close> is documented to compile only the first statement of a text: of the two in the text of
  \<open>reservation.delete\<close> the second never runs, and binding its parameter fails without effect.
\<close>

definition sql_ok :: "'db sqlite \<Rightarrow> ('db \<Rightarrow> tables) \<Rightarrow> bool" where
  "sql_ok S T \<longleftrightarrow>
     (\<forall>q args db rows t. sql_effect q args (T db) = Some (rows, t) \<longrightarrow>
        (\<exists>db'. sq_run S q args db = (rows, SqliteDone, db') \<and> T db' = t))
     \<and> (\<forall>q db. has_tables (T db) \<longrightarrow> sq_prepare S q db)
     \<and> (\<forall>n db. sq_prepare S (DropTable n) db \<and> sq_prepare S (CreateTable n) db)
     \<and> (\<forall>db. sq_changes S db = tb_changes (T db)) \<and> (\<forall>db. sq_last_insert_rowid S db = tb_rowid (T db))
     \<and> (\<forall>db. T (sq_begin S db) = (T db)\<lparr>tb_saved := Some (tb_rows (T db), tb_seq (T db))\<rparr>)
     \<and> (\<forall>db. T (sq_commit S db) = (T db)\<lparr>tb_saved := None\<rparr>)
     \<and> (\<forall>db rows sq. tb_saved (T db) = Some (rows, sq) \<longrightarrow>
          T (sq_rollback S db) = (T db)\<lparr>tb_rows := rows, tb_seq := sq, tb_saved := None\<rparr>)"

text \<open>The tables themselves as a database: on them the documented behaviour holds.\<close>

definition table_db :: "tables sqlite" where
  "table_db =
     \<lparr>sq_open = (\<lambda>_. Some no_tables), sq_prepare = (\<lambda>_ _. True),
      sq_run = (\<lambda>q args t. case sql_effect q args t of None \<Rightarrow> ([], SqliteError, t) | Some (rows, t') \<Rightarrow> (rows, SqliteDone, t')),
      sq_changes = tb_changes, sq_last_insert_rowid = tb_rowid,
      sq_begin = (\<lambda>t. t\<lparr>tb_saved := Some (tb_rows t, tb_seq t)\<rparr>), sq_commit = (\<lambda>t. t\<lparr>tb_saved := None\<rparr>),
      sq_rollback = (\<lambda>t. case tb_saved t of None \<Rightarrow> t | Some (rows, sq) \<Rightarrow> t\<lparr>tb_rows := rows, tb_seq := sq, tb_saved := None\<rparr>),
      sq_cast_int = (\<lambda>_. 0), sq_cast_text = (\<lambda>_. [])\<rparr>"

lemma table_db_ok: "sql_ok table_db (\<lambda>t. t)"
  by (auto simp: sql_ok_def table_db_def)

section \<open>Lemmas\<close>

definition statement_ready :: "sql \<Rightarrow> sql_statement \<Rightarrow> bool" where
  "statement_ready q st \<longleftrightarrow> st_sql st = q \<and> st_compiled st \<and> st_lastResult st \<in> {SqliteOk, SqliteDone}"

lemma read_rows_all:
  "(rows \<noteq> [] \<longrightarrow> st_lastResult st = SqliteRow) \<Longrightarrow> (rows = [] \<longrightarrow> st_lastResult st = st_end st) \<Longrightarrow> st_end st = SqliteDone \<Longrightarrow>
    st_rows st = rows \<Longrightarrow> read_rows st = (rows, st\<lparr>st_rows := [], st_lastResult := SqliteDone\<rparr>)"
proof (induction rows arbitrary: st)
  case Nil
  then show ?case by (subst read_rows.simps) (simp add: hasResultRow_def)
next
  case (Cons r rows)
  let ?st = "st\<lparr>st_rows := rows, st_lastResult := (if rows = [] then st_end st else SqliteRow)\<rparr>"
  have "read_rows ?st = (rows, ?st\<lparr>st_rows := [], st_lastResult := SqliteDone\<rparr>)"
    using Cons.prems by (intro Cons.IH) auto
  then show ?case using Cons.prems by (subst read_rows.simps) (auto simp: hasResultRow_def readRow_def)
qed

lemma readInt_SInt: "int32 i \<Longrightarrow> readInt S (SInt i) = i"
  by (simp add: readInt_def)

lemma readString_SText: "CHR 0x00 \<notin> set s \<Longrightarrow> readString S (SText s) = s"
  by (simp add: readString_def takeWhile_eq_all_conv) blast

end
