(* ===== verification/SqliteStorage.thy ===== *)
theory SqliteStorage
  imports SqliteStatement Hotel Reservation
begin

text \<open>
  \<open>persistence::sqlite::SqliteStorage\<close>: the hotels and reservations in a SQLite database.  \<open>S\<close> is the SQLite
  library and \<open>G\<close> the dates of Boost.
\<close>

section \<open>State\<close>

text \<open>The database handle, null when opening failed, and the prepared statements by key.\<close>

record 'db storage =
  so_db :: "'db option"
  so_statements :: "sql \<Rightarrow> sql_statement option"

definition query_keys :: "sql list" where
  "query_keys =
     [HotelInsert, HotelUpdate, HotelAll, HotelById, CategoryInsert, CategoriesByHotelId, RoomInsert, RoomsByHotelId,
      ReservationAndAtomsAll, ReservationAndAtomsById, ReservationInsert, ReservationUpdate, ReservationDeleteAtoms,
      ReservationDelete, AtomInsert]"

text \<open>A statement of its own, run once.\<close>

definition executeSQL :: "'db sqlite \<Rightarrow> sql \<Rightarrow> 'db \<Rightarrow> 'db" where
  "executeSQL S q db = snd (snd (statement_execute S [] (mk_statement S q db) db))"

definition createSchema :: "'db sqlite \<Rightarrow> 'db \<Rightarrow> 'db" where
  "createSchema S db = fold (\<lambda>n. executeSQL S (CreateTable n)) table_names db"

definition prepareQueries :: "'db sqlite \<Rightarrow> 'db \<Rightarrow> (sql \<Rightarrow> sql_statement option) \<Rightarrow> sql \<Rightarrow> sql_statement option" where
  "prepareQueries S db sts =
     (\<lambda>q. case sts q of Some st \<Rightarrow> Some st | None \<Rightarrow> if q \<in> set query_keys then Some (mk_statement S q db) else None)"

definition mk_storage :: "'db sqlite \<Rightarrow> string \<Rightarrow> 'db storage" where
  "mk_storage S file =
     (case sq_open S file of
        None \<Rightarrow> \<lparr>so_db = None, so_statements = (\<lambda>_. None)\<rparr>
      | Some db \<Rightarrow> let db' = createSchema S db in \<lparr>so_db = Some db', so_statements = prepareQueries S db' (\<lambda>_. None)\<rparr>)"

definition deleteAll :: "'db sqlite \<Rightarrow> 'db storage \<Rightarrow> 'db storage" where
  "deleteAll S so =
     (case so_db so of
        None \<Rightarrow> so
      | Some db \<Rightarrow>
          let db' = createSchema S (fold (\<lambda>n. executeSQL S (DropTable n)) (rev table_names) db)
          in \<lparr>so_db = Some db', so_statements = prepareQueries S db' (\<lambda>_. None)\<rparr>)"

section \<open>Queries\<close>

text \<open>\<open>query(key).execute(args)\<close>; the callers ignore its result.  A missing key is dereferenced all the same.\<close>

definition query_execute :: "'db sqlite \<Rightarrow> sql \<Rightarrow> sql_value list \<Rightarrow> 'db storage \<Rightarrow> 'db storage res" where
  "query_execute S q args so =
     (case (so_statements so q, so_db so) of
        (Some st, Some db) \<Rightarrow>
          (let (_, st', db') = statement_execute S args st db
           in Inr \<lparr>so_db = Some db', so_statements = (so_statements so)(q := Some st')\<rparr>)
      | _ \<Rightarrow> Inl UndefinedBehaviour)"

text \<open>Executing and reading every row; executing and reading at most one.\<close>

definition query_rows :: "'db sqlite \<Rightarrow> sql \<Rightarrow> sql_value list \<Rightarrow> 'db storage \<Rightarrow> (sql_row list \<times> 'db storage) res" where
  "query_rows S q args so =
     bindr (query_execute S q args so) (\<lambda>so'.
       case so_statements so' q of
         None \<Rightarrow> Inl UndefinedBehaviour
       | Some st \<Rightarrow> (let (rows, st') = read_rows st in Inr (rows, so'\<lparr>so_statements := (so_statements so')(q := Some st')\<rparr>)))"

definition query_row :: "'db sqlite \<Rightarrow> sql \<Rightarrow> sql_value list \<Rightarrow> 'db storage \<Rightarrow> (sql_row option \<times> 'db storage) res" where
  "query_row S q args so =
     bindr (query_execute S q args so) (\<lambda>so'.
       case so_statements so' q of
         None \<Rightarrow> Inl UndefinedBehaviour
       | Some st \<Rightarrow>
           (if hasResultRow st
            then let (r, st') = readRow st in Inr (Some r, so'\<lparr>so_statements := (so_statements so')(q := Some st')\<rparr>)
            else Inr (None, so')))"

definition lastInsertId :: "'db sqlite \<Rightarrow> 'db storage \<Rightarrow> int" where
  "lastInsertId S so = (case so_db so of None \<Rightarrow> 0 | Some db \<Rightarrow> to_int32 (sq_last_insert_rowid S db))"

definition updatedRows :: "'db sqlite \<Rightarrow> 'db storage \<Rightarrow> int" where
  "updatedRows S so = (case so_db so of None \<Rightarrow> 0 | Some db \<Rightarrow> sq_changes S db)"

definition on_db :: "('db \<Rightarrow> 'db) \<Rightarrow> 'db storage \<Rightarrow> 'db storage" where
  "on_db f so = so\<lparr>so_db := map_option f (so_db so)\<rparr>"

definition beginTransaction :: "'db sqlite \<Rightarrow> 'db storage \<Rightarrow> 'db storage" where
  "beginTransaction S so = on_db (sq_begin S) so"

definition commitTransaction :: "'db sqlite \<Rightarrow> 'db storage \<Rightarrow> 'db storage" where
  "commitTransaction S so = on_db (sq_commit S) so"

definition rollbackTransaction :: "'db sqlite \<Rightarrow> 'db storage \<Rightarrow> 'db storage" where
  "rollbackTransaction S so = on_db (sq_rollback S) so"

section \<open>Hotels\<close>

definition hotel_of_row :: "'db sqlite \<Rightarrow> sql_row \<Rightarrow> hotel" where
  "hotel_of_row S r =
     (mk_hotel (readString S (column r 2)))\<lparr>obj_id := readInt S (column r 0), obj_revision := readInt S (column r 1)\<rparr>"

definition add_category_row :: "'db sqlite \<Rightarrow> sql_row \<Rightarrow> hotel \<Rightarrow> hotel res" where
  "add_category_row S r h =
     addRoomCategory (Some ((mk_room_category (readString S (column r 1)) (readString S (column r 2)))\<lparr>obj_id := readInt S (column r 0)\<rparr>)) h"

text \<open>A room whose category is not found is left out.\<close>

definition add_room_row :: "'db sqlite \<Rightarrow> sql_row \<Rightarrow> hotel \<Rightarrow> hotel res" where
  "add_room_row S r h =
     (case getCategoryById (readInt S (column r 1)) h of
        None \<Rightarrow> Inr h
      | Some k \<Rightarrow>
          addRoom (Some ((mk_hotel_room (readString S (column r 2)))\<lparr>obj_id := readInt S (column r 0)\<rparr>))
            (cat_shortCode (hotel_categories h ! k)) h)"

definition load_hotel_parts :: "'db sqlite \<Rightarrow> hotel \<Rightarrow> 'db storage \<Rightarrow> (hotel \<times> 'db storage) res" where
  "load_hotel_parts S h so =
     bindr (query_rows S CategoriesByHotelId [SInt (obj_id h)] so) (\<lambda>(cs, so).
     bindr (fold_res (add_category_row S) cs h) (\<lambda>h.
     bindr (query_rows S RoomsByHotelId [SInt (obj_id h)] so) (\<lambda>(rs, so).
     bindr (fold_res (add_room_row S) rs h) (\<lambda>h. Inr (h, so)))))"

fun load_parts :: "'db sqlite \<Rightarrow> hotel list \<Rightarrow> 'db storage \<Rightarrow> (hotel list \<times> 'db storage) res" where
  "load_parts S [] so = Inr ([], so)"
| "load_parts S (h # hs) so =
     bindr (load_hotel_parts S h so) (\<lambda>(h', so). bindr (load_parts S hs so) (\<lambda>(hs', so). Inr (h' # hs', so)))"

definition loadAllHotels :: "'db sqlite \<Rightarrow> 'db storage \<Rightarrow> (hotel list \<times> 'db storage) res" where
  "loadAllHotels S so =
     bindr (query_rows S HotelAll [] so) (\<lambda>(rows, so). load_parts S (map (hotel_of_row S) rows) so)"

definition loadHotelById :: "'db sqlite \<Rightarrow> int \<Rightarrow> 'db storage \<Rightarrow> (hotel option \<times> 'db storage) res" where
  "loadHotelById S i so =
     bindr (query_row S HotelById [SInt i] so) (\<lambda>(row, so).
       case row of
         None \<Rightarrow> Inr (None, so)
       | Some r \<Rightarrow> bindr (load_hotel_parts S (hotel_of_row S r) so) (\<lambda>(h, so). Inr (Some h, so)))"

fun store_categories :: "'db sqlite \<Rightarrow> int \<Rightarrow> room_category list \<Rightarrow> 'db storage \<Rightarrow> (room_category list \<times> 'db storage) res" where
  "store_categories S i [] so = Inr ([], so)"
| "store_categories S i (c # cs) so =
     bindr (query_execute S CategoryInsert [SInt i, SText (cat_shortCode c), SText (cat_name c)] so) (\<lambda>so.
     bindr (store_categories S i cs so) (\<lambda>(cs', so'). Inr (setId (lastInsertId S so) c # cs', so')))"

fun store_rooms :: "'db sqlite \<Rightarrow> hotel \<Rightarrow> hotel_room list \<Rightarrow> 'db storage \<Rightarrow> (hotel_room list \<times> 'db storage) res" where
  "store_rooms S h [] so = Inr ([], so)"
| "store_rooms S h (r # rs) so =
     bindr (category_of h r) (\<lambda>c.
     bindr (query_execute S RoomInsert [SInt (obj_id h), SInt (obj_id c), SText (room_name r)] so) (\<lambda>so.
     bindr (store_rooms S h rs so) (\<lambda>(rs', so'). Inr (setId (lastInsertId S so) r # rs', so'))))"

definition storeNewHotel :: "'db sqlite \<Rightarrow> hotel \<Rightarrow> 'db storage \<Rightarrow> (hotel \<times> 'db storage) res" where
  "storeNewHotel S h so =
     bindr (query_execute S HotelInsert [SText (hotel_name h)] so) (\<lambda>so.
     let h1 = setRevision 1 (setId (lastInsertId S so) h) in
     bindr (store_categories S (obj_id h1) (hotel_categories h1) so) (\<lambda>(cs, so).
     let h2 = h1\<lparr>hotel_categories := cs\<rparr> in
     bindr (store_rooms S h2 (hotel_rooms h2) so) (\<lambda>(rs, so). Inr (h2\<lparr>hotel_rooms := rs\<rparr>, so))))"

definition update_hotel :: "'db sqlite \<Rightarrow> hotel \<Rightarrow> 'db storage \<Rightarrow> (bool \<times> hotel \<times> 'db storage) res" where
  "update_hotel S h so =
     bindr (query_execute S HotelUpdate [SText (hotel_name h), SInt (obj_id h), SInt (obj_revision h)] so) (\<lambda>so.
       if updatedRows S so = 1 then Inr (True, setRevision (obj_revision h + 1) h, so) else Inr (False, h, so))"

section \<open>Reservations\<close>

text \<open>The status texts of the database; the temporary status is left out.\<close>

definition serializeReservationStatus :: "reservation_status \<Rightarrow> string res" where
  "serializeReservationStatus s =
     (case s of
        Unknown \<Rightarrow> Inr ''unknown''
      | New \<Rightarrow> Inr ''new''
      | Confirmed \<Rightarrow> Inr ''confirmed''
      | CheckedIn \<Rightarrow> Inr ''checked-in''
      | CheckedOut \<Rightarrow> Inr ''checked-out''
      | Archived \<Rightarrow> Inr ''archived''
      | _ \<Rightarrow> Inl AssertFailed)"

definition parseReservationStatus :: "string \<Rightarrow> reservation_status res" where
  "parseReservationStatus t =
     (if t = ''unknown'' then Inr Unknown
      else if t = ''new'' then Inr New
      else if t = ''confirmed'' then Inr Confirmed
      else if t = ''checked-in'' then Inr CheckedIn
      else if t = ''checked-out'' then Inr CheckedOut
      else if t = ''archived'' then Inr Archived
      else Inl AssertFailed)"

text \<open>A row of the join; \<open>k\<close> is the column of the description, the others follow it.\<close>

definition first_row ::
    "'db sqlite \<Rightarrow> ('d::linorder, 'p) gregorian \<Rightarrow> int \<Rightarrow> nat \<Rightarrow> sql_row \<Rightarrow> 'p reservation res" where
  "first_row S G i k r =
     bindr (readDate S G (column r (k + 6))) (\<lambda>dateFrom.
     bindr (readDate S G (column r (k + 7))) (\<lambda>dateTo.
     bindr (parseReservationStatus (readString S (column r (k + 1)))) (\<lambda>status.
       Inr ((mk_reservation_atom (readString S (column r k)) (readInt S (column r (k + 5))) (mk_period G dateFrom dateTo))
              \<lparr>obj_id := i, obj_revision := readInt S (column r (k - 1)), res_status := status,
               res_adults := readInt S (column r (k + 2)), res_children := readInt S (column r (k + 3))\<rparr>))))"

definition next_row ::
    "'db sqlite \<Rightarrow> ('d::linorder, 'p) gregorian \<Rightarrow> nat \<Rightarrow> sql_row \<Rightarrow> 'p reservation \<Rightarrow> 'p reservation res" where
  "next_row S G k r res =
     bindr (readDate S G (column r (k + 6))) (\<lambda>_.
     bindr (readDate S G (column r (k + 7))) (\<lambda>dateTo.
       addContinuation G (readInt S (column r (k + 5))) dateTo res))"

definition set_last_atom_id :: "int \<Rightarrow> 'p reservation \<Rightarrow> 'p reservation res" where
  "set_last_atom_id i res =
     (if res_atoms res = [] then Inl UndefinedBehaviour
      else Inr (res\<lparr>res_atoms := butlast (res_atoms res) @ [setId i (last (res_atoms res))]\<rparr>))"

definition all_row ::
    "'db sqlite \<Rightarrow> ('d::linorder, 'p) gregorian \<Rightarrow> sql_row \<Rightarrow> 'p reservation list \<times> 'p reservation option
       \<Rightarrow> ('p reservation list \<times> 'p reservation option) res" where
  "all_row S G r st =
     (let reservationId = readInt S (column r 0); done = fst st in
      bindr (case snd st of
               Some cur \<Rightarrow>
                 (if obj_id cur \<noteq> reservationId then bindr (first_row S G reservationId 2 r) (\<lambda>c. Inr (done @ [cur], c))
                  else bindr (next_row S G 2 r cur) (\<lambda>c. Inr (done, c)))
             | None \<Rightarrow> bindr (first_row S G reservationId 2 r) (\<lambda>c. Inr (done, c))) (\<lambda>(done', c).
      bindr (set_last_atom_id (readInt S (column r 6)) c) (\<lambda>c'. Inr (done', Some c'))))"

definition loadAllReservations ::
    "'db sqlite \<Rightarrow> ('d::linorder, 'p) gregorian \<Rightarrow> 'db storage \<Rightarrow> ('p reservation list \<times> 'db storage) res" where
  "loadAllReservations S G so =
     bindr (query_rows S ReservationAndAtomsAll [] so) (\<lambda>(rows, so).
     bindr (fold_res (all_row S G) rows ([], None)) (\<lambda>(result, current).
       Inr (case current of None \<Rightarrow> result | Some c \<Rightarrow> result @ [c], so)))"

definition id_row ::
    "'db sqlite \<Rightarrow> ('d::linorder, 'p) gregorian \<Rightarrow> int \<Rightarrow> sql_row \<Rightarrow> 'p reservation option \<Rightarrow> 'p reservation option res" where
  "id_row S G i r result =
     bindr (case result of None \<Rightarrow> first_row S G i 1 r | Some res \<Rightarrow> next_row S G 1 r res) (\<lambda>c.
     bindr (set_last_atom_id (readInt S (column r 5)) c) (\<lambda>c'. Inr (Some c')))"

definition loadReservationById ::
    "'db sqlite \<Rightarrow> ('d::linorder, 'p) gregorian \<Rightarrow> int \<Rightarrow> 'db storage \<Rightarrow> ('p reservation option \<times> 'db storage) res" where
  "loadReservationById S G i so =
     bindr (query_rows S ReservationAndAtomsById [SInt i] so) (\<lambda>(rows, so).
     bindr (fold_res (id_row S G i) rows None) (\<lambda>result. Inr (result, so)))"

fun store_atoms ::
    "'db sqlite \<Rightarrow> ('d::linorder, 'p) gregorian \<Rightarrow> int \<Rightarrow> 'p reservation_atom list \<Rightarrow> 'db storage
       \<Rightarrow> ('p reservation_atom list \<times> 'db storage) res" where
  "store_atoms S G i [] so = Inr ([], so)"
| "store_atoms S G i (a # as) so =
     bindr (query_execute S AtomInsert [SInt i, SInt (atom_room a), bindDate G (p_begin G (atom_range a)),
              bindDate G (p_end G (atom_range a))] so) (\<lambda>so.
     bindr (store_atoms S G i as so) (\<lambda>(as', so'). Inr (setId (lastInsertId S so) a # as', so')))"

definition storeNewReservationAndAtoms ::
    "'db sqlite \<Rightarrow> ('d::linorder, 'p) gregorian \<Rightarrow> 'p reservation \<Rightarrow> 'db storage \<Rightarrow> ('p reservation \<times> 'db storage) res" where
  "storeNewReservationAndAtoms S G r so =
     bindr (serializeReservationStatus (res_status r)) (\<lambda>status.
     bindr (query_execute S ReservationInsert [SText (res_description r), SText status, SInt (res_adults r),
              SInt (res_children r)] so) (\<lambda>so.
     let r1 = setRevision 1 (setId (lastInsertId S so) r) in
     bindr (store_atoms S G (obj_id r1) (res_atoms r1) so) (\<lambda>(as, so). Inr (r1\<lparr>res_atoms := as\<rparr>, so))))"

definition update_reservation ::
    "'db sqlite \<Rightarrow> ('d::linorder, 'p) gregorian \<Rightarrow> 'p reservation \<Rightarrow> 'db storage \<Rightarrow> (bool \<times> 'p reservation \<times> 'db storage) res" where
  "update_reservation S G r so =
     bindr (serializeReservationStatus (res_status r)) (\<lambda>status.
     bindr (query_execute S ReservationUpdate [SText (res_description r), SText status, SInt (res_adults r),
              SInt (res_children r), SInt (obj_id r), SInt (obj_revision r)] so) (\<lambda>so.
       if updatedRows S so \<noteq> 1 then Inr (False, r, so)
       else bindr (query_execute S ReservationDeleteAtoms [SInt (obj_id r)] so) (\<lambda>so.
            bindr (store_atoms S G (obj_id r) (res_atoms r) so) (\<lambda>(as, so).
              Inr (True, setRevision (obj_revision r + 1) (r\<lparr>res_atoms := as\<rparr>), so)))))"

definition deleteReservationById :: "'db sqlite \<Rightarrow> int \<Rightarrow> 'db storage \<Rightarrow> 'db storage res" where
  "deleteReservationById S i so = query_execute S ReservationDelete [SInt i, SInt i] so"

end
