(* ===== verification/SqliteBackend.thy ===== *)
theory SqliteBackend
  imports SqliteStorage ChangeQueue NetSerializer
begin

text \<open>
  \<open>persistence::sqlite::SqliteBackend\<close>: the worker that executes operations in transactions and tells the
  streams what changed, and \<open>detail::DataStreamManager\<close>, which knows the streams.  Data streams are shared
  objects, so they are addresses into a store of them.
\<close>

section \<open>Stream handlers\<close>

datatype handler = DefaultHandler | SingleIdHandler

text \<open>The table of handlers by type and endpoint.\<close>

definition findHandler :: "data_stream \<Rightarrow> handler option" where
  "findHandler ds =
     (case ds_type ds of
        NullStream \<Rightarrow> (if ds_endpoint ds = [] then Some DefaultHandler else None)
      | HotelStream \<Rightarrow>
          (if ds_endpoint ds = [] then Some DefaultHandler
           else if ds_endpoint ds = ''hotel.by_id'' then Some SingleIdHandler else None)
      | ReservationStream \<Rightarrow>
          (if ds_endpoint ds = [] then Some DefaultHandler
           else if ds_endpoint ds = ''reservation.by_id'' then Some SingleIdHandler else None))"

definition filter_items :: "int \<Rightarrow> 'p streamable_items \<Rightarrow> 'p streamable_items" where
  "filter_items i items =
     (case items of
        HotelItems hs \<Rightarrow> HotelItems [h \<leftarrow> hs. obj_id h = i]
      | ReservationItems rs \<Rightarrow> ReservationItems [r \<leftarrow> rs. obj_id r = i])"

definition items_empty :: "'p streamable_items \<Rightarrow> bool" where
  "items_empty items = (case items of HotelItems hs \<Rightarrow> hs = [] | ReservationItems rs \<Rightarrow> rs = [])"

text \<open>Each callback gives the changes it appends for the stream.\<close>

definition default_initialize ::
    "'db sqlite \<Rightarrow> ('d::linorder, 'p) gregorian \<Rightarrow> data_stream \<Rightarrow> 'db storage \<Rightarrow> ('p differential list \<times> 'db storage) res" where
  "default_initialize S G ds so =
     (case ds_type ds of
        NullStream \<Rightarrow> Inr ([], so)
      | HotelStream \<Rightarrow>
          bindr (loadAllHotels S so) (\<lambda>(hs, so). Inr ([(ds_id ds, ItemsAdded (HotelItems hs))], so))
      | ReservationStream \<Rightarrow>
          bindr (loadAllReservations S G so) (\<lambda>(rs, so). Inr ([(ds_id ds, ItemsAdded (ReservationItems rs))], so)))"

definition single_id_initialize ::
    "'db sqlite \<Rightarrow> ('d::linorder, 'p) gregorian \<Rightarrow> data_stream \<Rightarrow> 'db storage \<Rightarrow> ('p differential list \<times> 'db storage) res" where
  "single_id_initialize S G ds so =
     (case ds_type ds of
        NullStream \<Rightarrow> Inr ([], so)
      | HotelStream \<Rightarrow>
          bindr (int_at (ds_options ds) ''id'') (\<lambda>i.
          bindr (loadHotelById S i so) (\<lambda>(h, so).
            Inr (case h of None \<Rightarrow> [] | Some h \<Rightarrow> [(ds_id ds, ItemsAdded (HotelItems [h]))], so)))
      | ReservationStream \<Rightarrow>
          bindr (int_at (ds_options ds) ''id'') (\<lambda>i.
          bindr (loadReservationById S G i so) (\<lambda>(r, so).
            Inr (case r of None \<Rightarrow> [] | Some r \<Rightarrow> [(ds_id ds, ItemsAdded (ReservationItems [r]))], so))))"

definition handler_initialize ::
    "'db sqlite \<Rightarrow> ('d::linorder, 'p) gregorian \<Rightarrow> handler \<Rightarrow> data_stream \<Rightarrow> 'db storage
       \<Rightarrow> ('p differential list \<times> 'db storage) res" where
  "handler_initialize S G hl = (case hl of DefaultHandler \<Rightarrow> default_initialize S G | SingleIdHandler \<Rightarrow> single_id_initialize S G)"

definition handler_addItems :: "handler \<Rightarrow> data_stream \<Rightarrow> 'p streamable_items \<Rightarrow> 'p differential list res" where
  "handler_addItems hl ds items =
     (case hl of
        DefaultHandler \<Rightarrow> Inr [(ds_id ds, ItemsAdded items)]
      | SingleIdHandler \<Rightarrow>
          bindr (int_at (ds_options ds) ''id'') (\<lambda>i.
            let filtered = filter_items i items
            in Inr (if items_empty filtered then [] else [(ds_id ds, ItemsAdded filtered)])))"

definition handler_updateItems :: "handler \<Rightarrow> data_stream \<Rightarrow> 'p streamable_items \<Rightarrow> 'p differential list res" where
  "handler_updateItems hl ds items =
     (case hl of
        DefaultHandler \<Rightarrow> Inr [(ds_id ds, ItemsUpdated items)]
      | SingleIdHandler \<Rightarrow>
          bindr (int_at (ds_options ds) ''id'') (\<lambda>i.
            let filtered = filter_items i items
            in Inr (if items_empty filtered then [] else [(ds_id ds, ItemsUpdated filtered)])))"

definition handler_removeItems :: "handler \<Rightarrow> data_stream \<Rightarrow> int list \<Rightarrow> 'p differential list res" where
  "handler_removeItems hl ds ids =
     (case hl of
        DefaultHandler \<Rightarrow> Inr [(ds_id ds, ItemsRemoved ids)]
      | SingleIdHandler \<Rightarrow>
          bindr (int_at (ds_options ds) ''id'') (\<lambda>i.
            Inr (if i \<in> set ids then [(ds_id ds, ItemsRemoved [i])] else [])))"

definition handler_clear :: "handler \<Rightarrow> data_stream \<Rightarrow> 'p differential list res" where
  "handler_clear hl ds = Inr [(ds_id ds, Cleared)]"

section \<open>The stream manager\<close>

record stream_manager =
  sm_uninitialized :: "nat list"
  sm_active :: "nat list"

definition addNewStream :: "nat \<Rightarrow> stream_manager \<Rightarrow> stream_manager" where
  "addNewStream s m = m\<lparr>sm_uninitialized := sm_uninitialized m @ [s]\<rparr>"

definition manager_removeStream :: "nat \<Rightarrow> stream_manager \<Rightarrow> stream_manager" where
  "manager_removeStream s m =
     m\<lparr>sm_uninitialized := [t \<leftarrow> sm_uninitialized m. t \<noteq> s], sm_active := [t \<leftarrow> sm_active m. t \<noteq> s]\<rparr>"

definition initialize_stream ::
    "'db sqlite \<Rightarrow> ('d::linorder, 'p) gregorian \<Rightarrow> data_stream \<Rightarrow> 'p change_queue \<times> 'db storage
       \<Rightarrow> ('p change_queue \<times> 'db storage) res" where
  "initialize_stream S G ds w =
     bindr (case findHandler ds of
              None \<Rightarrow> Inr ([], snd w)
            | Some hl \<Rightarrow> handler_initialize S G hl ds (snd w)) (\<lambda>(changes, so).
       Inr (fold (\<lambda>(i, c) q. addStreamChange i c q) (changes @ [(ds_id ds, Initialized)]) (fst w), so))"

definition manager_initialize ::
    "'db sqlite \<Rightarrow> ('d::linorder, 'p) gregorian \<Rightarrow> (nat \<Rightarrow> data_stream) \<Rightarrow> stream_manager
       \<Rightarrow> 'p change_queue \<times> 'db storage \<Rightarrow> (stream_manager \<times> 'p change_queue \<times> 'db storage) res" where
  "manager_initialize S G store m w =
     (let new = sm_uninitialized m; m' = \<lparr>sm_uninitialized = [], sm_active = sm_active m @ new\<rparr> in
      bindr (fold_res (\<lambda>s. initialize_stream S G (store s)) new w) (\<lambda>w'. Inr (m', w')))"

text \<open>Every active stream must have a handler, of whatever type the stream is.\<close>

definition foreachStream ::
    "(nat \<Rightarrow> data_stream) \<Rightarrow> stream_type \<Rightarrow> (handler \<Rightarrow> data_stream \<Rightarrow> 'p differential list res) \<Rightarrow> stream_manager
       \<Rightarrow> 'p differential list \<Rightarrow> 'p differential list res" where
  "foreachStream store type f m changes =
     fold_res (\<lambda>s changes.
         case findHandler (store s) of
           None \<Rightarrow> Inl AssertFailed
         | Some hl \<Rightarrow>
             if ds_type (store s) = type then bindr (f hl (store s)) (\<lambda>new. Inr (changes @ new)) else Inr changes)
       (sm_active m) changes"

definition manager_addItems ::
    "(nat \<Rightarrow> data_stream) \<Rightarrow> stream_type \<Rightarrow> 'p streamable_items \<Rightarrow> stream_manager \<Rightarrow> 'p differential list \<Rightarrow> 'p differential list res" where
  "manager_addItems store type items m changes = foreachStream store type (\<lambda>hl ds. handler_addItems hl ds items) m changes"

definition manager_updateItems ::
    "(nat \<Rightarrow> data_stream) \<Rightarrow> stream_type \<Rightarrow> 'p streamable_items \<Rightarrow> stream_manager \<Rightarrow> 'p differential list \<Rightarrow> 'p differential list res" where
  "manager_updateItems store type items m changes = foreachStream store type (\<lambda>hl ds. handler_updateItems hl ds items) m changes"

definition manager_removeItems ::
    "(nat \<Rightarrow> data_stream) \<Rightarrow> stream_type \<Rightarrow> int list \<Rightarrow> stream_manager \<Rightarrow> 'p differential list \<Rightarrow> 'p differential list res" where
  "manager_removeItems store type ids m changes = foreachStream store type (\<lambda>hl ds. handler_removeItems hl ds ids) m changes"

definition manager_clear ::
    "(nat \<Rightarrow> data_stream) \<Rightarrow> stream_type \<Rightarrow> stream_manager \<Rightarrow> 'p differential list \<Rightarrow> 'p differential list res" where
  "manager_clear store type m changes = foreachStream store type handler_clear m changes"

section \<open>Operations\<close>

definition successful :: "json \<Rightarrow> task_result" where
  "successful data = \<lparr>task_status = Successful, task_data = data\<rparr>"

definition failed :: "string \<Rightarrow> task_result" where
  "failed message = \<lparr>task_status = Error, task_data = json_object [(''message'', JString message)]\<rparr>"

type_synonym ('p, 'db) execution = "(task_result \<times> 'p differential list \<times> 'db storage) res"

definition executeEraseAllData ::
    "'db sqlite \<Rightarrow> (nat \<Rightarrow> data_stream) \<Rightarrow> stream_manager \<Rightarrow> 'p differential list \<times> 'db storage \<Rightarrow> ('p, 'db) execution" where
  "executeEraseAllData S store m w =
     (let so = deleteAll S (snd w) in
      bindr (manager_clear store ReservationStream m (fst w)) (\<lambda>changes.
      bindr (manager_clear store HotelStream m changes) (\<lambda>changes.
        Inr (successful JNull, changes, so))))"

text \<open>The item handed to the streams is a copy, made by the copy constructor.\<close>

definition executeStoreNew ::
    "'db sqlite \<Rightarrow> ('d::linorder, 'p) gregorian \<Rightarrow> (nat \<Rightarrow> data_stream) \<Rightarrow> stream_manager \<Rightarrow> 'p streamable
       \<Rightarrow> 'p differential list \<times> 'db storage \<Rightarrow> ('p, 'db) execution" where
  "executeStoreNew S G store m item w =
     (case item of
        HotelItem h \<Rightarrow>
          bindr (storeNewHotel S h (snd w)) (\<lambda>(h, so).
          bindr (copy_hotel h) (\<lambda>c.
          bindr (manager_addItems store HotelStream (HotelItems [c]) m (fst w)) (\<lambda>changes.
            Inr (successful (json_object [(''id'', JInt (obj_id h))]), changes, so))))
      | ReservationItem r \<Rightarrow>
          bindr (storeNewReservationAndAtoms S G r (snd w)) (\<lambda>(r, so).
          bindr (manager_addItems store ReservationStream (ReservationItems [r]) m (fst w)) (\<lambda>changes.
            Inr (successful (json_object [(''id'', JInt (obj_id r))]), changes, so)))
      | PersonItem _ \<Rightarrow> Inr (failed ''Not implemented yet!'', w))"

definition executeUpdate ::
    "'db sqlite \<Rightarrow> ('d::linorder, 'p) gregorian \<Rightarrow> (nat \<Rightarrow> data_stream) \<Rightarrow> stream_manager \<Rightarrow> 'p streamable
       \<Rightarrow> 'p differential list \<times> 'db storage \<Rightarrow> ('p, 'db) execution" where
  "executeUpdate S G store m item w =
     (case item of
        HotelItem h \<Rightarrow>
          (if obj_id h = 0 then Inr (failed ''Cannot update hotel without id'', w)
           else bindr (update_hotel S h (snd w)) (\<lambda>(updated, h, so).
             if \<not> updated then Inr (failed ''Could not update item (internal db error)'', fst w, so)
             else bindr (copy_hotel h) (\<lambda>c.
               bindr (manager_updateItems store HotelStream (HotelItems [c]) m (fst w)) (\<lambda>changes.
               Inr (successful JNull, changes, so)))))
      | ReservationItem r \<Rightarrow>
          (if obj_id r = 0 then Inr (failed ''Cannot update hotel without id'', w)
           else bindr (update_reservation S G r (snd w)) (\<lambda>(updated, r, so).
             if \<not> updated then Inr (failed ''Could not update item (internal db error)'', fst w, so)
             else bindr (manager_updateItems store ReservationStream (ReservationItems [r]) m (fst w)) (\<lambda>changes.
               Inr (successful JNull, changes, so))))
      | PersonItem p \<Rightarrow>
          (if obj_id p = 0 then Inr (failed ''Cannot update hotel without id'', w)
           else Inr (failed ''Could not update item (internal db error)'', w)))"

definition executeDelete ::
    "'db sqlite \<Rightarrow> (nat \<Rightarrow> data_stream) \<Rightarrow> stream_manager \<Rightarrow> streamable_type \<Rightarrow> int
       \<Rightarrow> 'p differential list \<times> 'db storage \<Rightarrow> ('p, 'db) execution" where
  "executeDelete S store m type i w =
     (case type of
        ReservationType \<Rightarrow>
          bindr (deleteReservationById S i (snd w)) (\<lambda>so.
          bindr (manager_removeItems store ReservationStream [i] m (fst w)) (\<lambda>changes.
            Inr (successful (json_object [(''id'', JInt i)]), changes, so)))
      | _ \<Rightarrow> Inl AssertFailed)"

definition executeOperation ::
    "'db sqlite \<Rightarrow> ('d::linorder, 'p) gregorian \<Rightarrow> (nat \<Rightarrow> data_stream) \<Rightarrow> stream_manager \<Rightarrow> 'p operation
       \<Rightarrow> 'p differential list \<times> 'db storage \<Rightarrow> ('p, 'db) execution" where
  "executeOperation S G store m op w =
     (case op of
        EraseAllData \<Rightarrow> executeEraseAllData S store m w
      | StoreNew item \<Rightarrow> executeStoreNew S G store m item w
      | Update item \<Rightarrow> executeUpdate S G store m item w
      | Delete type i \<Rightarrow> executeDelete S store m type i w)"

section \<open>The worker\<close>

text \<open>
  \<open>sb_tasks\<close> are the operations the worker took and has not finished, each with the token of its promise;
  \<open>sb_resolved\<close> collects what the promises were resolved with.
\<close>

record ('p, 'db) backend =
  sb_storage :: "'db storage"
  sb_changeQueue :: "'p change_queue"
  sb_nextStreamId :: int
  sb_quit :: bool
  sb_operations :: "('p operation list \<times> nat) list"
  sb_tasks :: "('p operation list \<times> nat) list"
  sb_streams :: stream_manager
  sb_resolved :: "(nat \<times> task_result list) list"

definition mk_backend :: "'db sqlite \<Rightarrow> string \<Rightarrow> ('p, 'db) backend" where
  "mk_backend S path =
     \<lparr>sb_storage = mk_storage S path, sb_changeQueue = empty_queue, sb_nextStreamId = 1, sb_quit = False,
      sb_operations = [], sb_tasks = [], sb_streams = \<lparr>sm_uninitialized = [], sm_active = []\<rparr>, sb_resolved = []\<rparr>"

definition backend_queueOperations :: "'p operation list \<Rightarrow> nat \<Rightarrow> ('p, 'db) backend \<Rightarrow> ('p, 'db) backend" where
  "backend_queueOperations operations promise b = b\<lparr>sb_operations := sb_operations b @ [(operations, promise)]\<rparr>"

text \<open>\<open>s\<close> is the address of the new stream and \<open>obs\<close> the observer to connect.\<close>

definition backend_createStream ::
    "nat \<Rightarrow> nat \<Rightarrow> stream_type \<Rightarrow> string \<Rightarrow> json \<Rightarrow> (nat \<Rightarrow> data_stream) \<times> ('p, 'db) backend
       \<Rightarrow> (stream_handle \<times> (nat \<Rightarrow> data_stream) \<times> ('p, 'db) backend) res" where
  "backend_createStream s obs type service options w =
     (let b = snd w in
      bindr (connect_stream (sb_nextStreamId b) obs (mk_data_stream type service options)) (\<lambda>ds.
        Inr (\<lparr>handle_backend = Some 0, handle_stream = Some s\<rparr>, (fst w)(s := ds),
             b\<lparr>sb_nextStreamId := sb_nextStreamId b + 1, sb_changeQueue := addStream s (sb_changeQueue b),
               sb_streams := addNewStream s (sb_streams b)\<rparr>)))"

definition backend_removeStream :: "nat \<Rightarrow> ('p, 'db) backend \<Rightarrow> ('p, 'db) backend" where
  "backend_removeStream s b = b\<lparr>sb_streams := manager_removeStream s (sb_streams b)\<rparr>"

definition backend_stop :: "('p, 'db) backend \<Rightarrow> ('p, 'db) backend" where
  "backend_stop b = b\<lparr>sb_quit := True\<rparr>"

text \<open>The operations of a task, up to the first that fails: the results and whether to roll back.\<close>

fun run_operations ::
    "'db sqlite \<Rightarrow> ('d::linorder, 'p) gregorian \<Rightarrow> (nat \<Rightarrow> data_stream) \<Rightarrow> stream_manager \<Rightarrow> 'p operation list
       \<Rightarrow> 'p differential list \<times> 'db storage
       \<Rightarrow> (bool \<times> task_result list \<times> 'p differential list \<times> 'db storage) res" where
  "run_operations S G store m [] w = Inr (False, [], w)"
| "run_operations S G store m (op # ops) w =
     bindr (executeOperation S G store m op w) (\<lambda>(r, w').
       if task_status r = Error then Inr (True, [r], w')
       else bindr (run_operations S G store m ops w') (\<lambda>(rollback, rs, w''). Inr (rollback, r # rs, w'')))"

text \<open>One round of \<open>threadMain\<close> in three steps, since the callers run in between: taking the queue, the new
  streams, and one task after the other.\<close>

definition worker_take :: "('p, 'db) backend \<Rightarrow> ('p, 'db) backend" where
  "worker_take b = (if sb_quit b then b else b\<lparr>sb_tasks := sb_operations b, sb_operations := []\<rparr>)"

definition worker_initialize ::
    "'db sqlite \<Rightarrow> ('d::linorder, 'p) gregorian \<Rightarrow> (nat \<Rightarrow> data_stream) \<Rightarrow> ('p, 'db) backend \<Rightarrow> ('p, 'db) backend res" where
  "worker_initialize S G store b =
     bindr (manager_initialize S G store (sb_streams b) (sb_changeQueue b, sb_storage b)) (\<lambda>(m, q, so).
       Inr (b\<lparr>sb_streams := m, sb_changeQueue := q, sb_storage := so\<rparr>))"

definition worker_task ::
    "'db sqlite \<Rightarrow> ('d::linorder, 'p) gregorian \<Rightarrow> (nat \<Rightarrow> data_stream) \<Rightarrow> ('p, 'db) backend \<Rightarrow> ('p, 'db) backend res" where
  "worker_task S G store b =
     (case sb_tasks b of
        [] \<Rightarrow> Inr b
      | (operations, promise) # tasks \<Rightarrow>
          bindr (run_operations S G store (sb_streams b) operations ([], beginTransaction S (sb_storage b)))
            (\<lambda>(rollback, results, changes, so).
              Inr (b\<lparr>sb_tasks := tasks,
                     sb_storage := (if rollback then rollbackTransaction S so else commitTransaction S so),
                     sb_changeQueue := (if rollback then sb_changeQueue b else addChanges changes (sb_changeQueue b)),
                     sb_resolved := sb_resolved b @ [(promise, results)]\<rparr>)))"

end
