(* ===== verification/StorageSpec.thy ===== *)
theory StorageSpec
  imports SqliteStorage
begin

text \<open>
  What \<open>SqliteStorage\<close> promises: the database is a list of reservations in the order of their ids, and each
  operation is the obvious one on that list.  A reservation without atoms stands for a row that no query
  delivers, which is what deleting leaves behind.
\<close>

section \<open>Executing statements\<close>

definition storage_at :: "'db sqlite \<Rightarrow> ('db \<Rightarrow> tables) \<Rightarrow> 'db storage \<Rightarrow> tables \<Rightarrow> bool" where
  "storage_at S T so t \<longleftrightarrow>
     (\<exists>db. so_db so = Some db \<and> T db = t)
     \<and> (\<forall>q \<in> set query_keys. \<exists>st. so_statements so q = Some st \<and> statement_ready q st)"

lemma run_effect:
  "sql_ok S T \<Longrightarrow> sql_effect q args (T db) = Some (rows, t) \<Longrightarrow> \<exists>db'. sq_run S q args db = (rows, SqliteDone, db') \<and> T db' = t"
  by (simp add: sql_ok_def)

lemma prepare_ready:
  "statement_ready q st \<Longrightarrow> \<exists>st'. prepareForQuery st = (True, st') \<and> st_sql st' = q \<and> st_compiled st'"
  by (auto simp: statement_ready_def prepareForQuery_def Let_def)

lemma query_rows_effect:
  assumes "sql_ok S T" and "storage_at S T so t" and "q \<in> set query_keys" and "sql_effect q args t = Some (rows, t')"
  shows "\<exists>so'. query_rows S q args so = Inr (rows, so') \<and> storage_at S T so' t'"
proof -
  obtain db st where db: "so_db so = Some db" "T db = t" and st: "so_statements so q = Some st" "statement_ready q st"
    using assms(2,3) by (auto simp: storage_at_def)
  obtain st1 where st1: "prepareForQuery st = (True, st1)" "st_sql st1 = q" "st_compiled st1" using prepare_ready [OF st(2)] by blast
  obtain db' where db': "sq_run S q args db = (rows, SqliteDone, db')" "T db' = t'"
    using run_effect [OF assms(1), of q args db rows t'] assms(4) db(2) by blast
  define st2 where "st2 = st1\<lparr>st_rows := rows, st_end := SqliteDone, st_lastResult := (if rows = [] then SqliteDone else SqliteRow)\<rparr>"
  have ex: "query_execute S q args so = Inr \<lparr>so_db = Some db', so_statements = (so_statements so)(q := Some st2)\<rparr>"
    using db st(1) st1 db' by (simp add: query_execute_def statement_execute_def Let_def st2_def)
  have rd: "read_rows st2 = (rows, st2\<lparr>st_rows := [], st_lastResult := SqliteDone\<rparr>)"
    by (rule read_rows_all) (simp_all add: st2_def)
  show ?thesis
    using assms(2) ex rd db' st1 by (auto simp: query_rows_def storage_at_def statement_ready_def st2_def)
qed

lemma query_execute_effect:
  assumes "sql_ok S T" and "storage_at S T so t" and "q \<in> set query_keys" and "sql_effect q args t = Some ([], t')"
  shows "\<exists>so'. query_execute S q args so = Inr so' \<and> storage_at S T so' t'"
proof -
  obtain db st where db: "so_db so = Some db" "T db = t" and st: "so_statements so q = Some st" "statement_ready q st"
    using assms(2,3) by (auto simp: storage_at_def)
  obtain st1 where st1: "prepareForQuery st = (True, st1)" "st_sql st1 = q" "st_compiled st1" using prepare_ready [OF st(2)] by blast
  obtain db' where db': "sq_run S q args db = ([], SqliteDone, db')" "T db' = t'"
    using run_effect [OF assms(1), of q args db "[]" t'] assms(4) db(2) by blast
  then show ?thesis
    using assms(2) db st(1) st1
    by (auto simp: query_execute_def statement_execute_def Let_def storage_at_def statement_ready_def)
qed

lemma storage_counters:
  assumes "sql_ok S T" and "storage_at S T so t"
  shows "lastInsertId S so = to_int32 (tb_rowid t)" and "updatedRows S so = tb_changes t"
  using assms by (auto simp: storage_at_def lastInsertId_def updatedRows_def sql_ok_def)

lemma executeSQL_effect:
  assumes "sql_ok S T" and "q = DropTable n \<or> q = CreateTable n"
  shows "\<exists>rows. sql_effect q [] (T db) = Some (rows, T (executeSQL S q db))"
proof -
  obtain t where t: "sql_effect q [] (T db) = Some ([], t)" using assms(2) by (auto simp: sql_effect_def bound_types_def)
  obtain db' where "sq_run S q [] db = ([], SqliteDone, db')" "T db' = t" using run_effect [OF assms(1) t] by blast
  moreover have "sq_prepare S q db" using assms by (auto simp: sql_ok_def)
  ultimately show ?thesis
    using t by (simp add: executeSQL_def statement_execute_def prepareForQuery_def mk_statement_def)
qed

section \<open>The schema\<close>

definition created :: "tables \<Rightarrow> string list \<Rightarrow> tables" where
  "created t ns = t\<lparr>tb_rows := (\<lambda>n. if n \<in> set ns \<and> tb_rows t n = None then Some [] else tb_rows t n)\<rparr>"

definition dropped :: "tables \<Rightarrow> string list \<Rightarrow> tables" where
  "dropped t ns = t\<lparr>tb_rows := (\<lambda>n. if n \<in> set ns then None else tb_rows t n), tb_seq := (\<lambda>n. if n \<in> set ns then 0 else tb_seq t n)\<rparr>"

lemma create_effect: "sql_effect (CreateTable n) [] t = Some ([], created t [n])"
  by (cases t) (auto simp: sql_effect_def bound_types_def created_def fun_eq_iff)

lemma drop_effect: "sql_effect (DropTable n) [] t = Some ([], dropped t [n])"
  by (cases t) (auto simp: sql_effect_def bound_types_def dropped_def fun_eq_iff)

lemma executeSQL_create: "sql_ok S T \<Longrightarrow> T (executeSQL S (CreateTable n) db) = created (T db) [n]"
  using executeSQL_effect [of S T "CreateTable n" n db] by (simp add: create_effect)

lemma executeSQL_drop: "sql_ok S T \<Longrightarrow> T (executeSQL S (DropTable n) db) = dropped (T db) [n]"
  using executeSQL_effect [of S T "DropTable n" n db] by (simp add: drop_effect)

lemma fold_create: "sql_ok S T \<Longrightarrow> T (fold (\<lambda>n. executeSQL S (CreateTable n)) ns db) = created (T db) ns"
  by (induction ns arbitrary: db) (auto simp: executeSQL_create created_def fun_eq_iff intro!: tables.equality)

lemma fold_drop: "sql_ok S T \<Longrightarrow> T (fold (\<lambda>n. executeSQL S (DropTable n)) ns db) = dropped (T db) ns"
  by (induction ns arbitrary: db) (auto simp: executeSQL_drop dropped_def fun_eq_iff intro!: tables.equality)

lemma created_has_tables: "has_tables (created t table_names)"
  by (auto simp: has_tables_def created_def list_all_iff)

lemma prepared_storage:
  assumes "sql_ok S T" and "has_tables (T db)"
  shows "storage_at S T \<lparr>so_db = Some db, so_statements = prepareQueries S db (\<lambda>_. None)\<rparr> (T db)"
  using assms by (auto simp: storage_at_def prepareQueries_def mk_statement_def statement_ready_def sql_ok_def)

lemma mk_storage_at:
  assumes "sql_ok S T" and "sq_open S file = Some db"
  shows "storage_at S T (mk_storage S file) (created (T db) table_names)"
  using prepared_storage [OF assms(1), of "createSchema S db"] assms(2) created_has_tables [of "T db"]
  by (simp add: mk_storage_def Let_def createSchema_def fold_create [OF assms(1)])

lemma deleteAll_at:
  assumes "sql_ok S T" and "storage_at S T so t"
  shows "storage_at S T (deleteAll S so) (created (dropped t (rev table_names)) table_names)"
proof -
  obtain db where db: "so_db so = Some db" "T db = t" using assms(2) by (auto simp: storage_at_def)
  let ?db = "createSchema S (fold (\<lambda>n. executeSQL S (DropTable n)) (rev table_names) db)"
  have "T ?db = created (dropped t (rev table_names)) table_names"
    by (simp add: createSchema_def fold_create [OF assms(1)] fold_drop [OF assms(1)] db(2))
  then show ?thesis
    using prepared_storage [OF assms(1), of ?db] created_has_tables [of "dropped t (rev table_names)"] db(1)
    by (simp add: deleteAll_def Let_def)
qed

section \<open>Reservations as rows\<close>

text \<open>Dates as texts: ordinary dates are ordered like their texts, which have no zero character.\<close>

definition iso_ok :: "('d::linorder, 'p) gregorian \<Rightarrow> bool" where
  "iso_ok G \<longleftrightarrow>
     (\<forall>d e. \<not> is_special G d \<longrightarrow> \<not> is_special G e \<longrightarrow> d < e \<longrightarrow> to_iso G d < to_iso G e)
     \<and> (\<forall>d. CHR 0x00 \<notin> set (to_iso G d))"

definition status_text :: "reservation_status \<Rightarrow> string" where
  "status_text s = (case serializeReservationStatus s of Inr t \<Rightarrow> t | Inl _ \<Rightarrow> [])"

definition res_row :: "'p reservation \<Rightarrow> sql_row" where
  "res_row x =
     [SInt (obj_id x), SInt (obj_revision x), SText (res_description x), SText (status_text (res_status x)),
      SInt (res_adults x), SInt (res_children x)]"

definition atom_row :: "('d::linorder, 'p) gregorian \<Rightarrow> int \<Rightarrow> 'p reservation_atom \<Rightarrow> sql_row" where
  "atom_row G i a =
     [SInt (obj_id a), SInt i, SInt (atom_room a), bindDate G (p_begin G (atom_range a)), bindDate G (p_end G (atom_range a))]"

definition entry_rows :: "('d::linorder, 'p) gregorian \<Rightarrow> int \<Rightarrow> 'p reservation list \<Rightarrow> sql_row list" where
  "entry_rows G i xs = concat (map (\<lambda>x. if obj_id x = i then map (atom_row G i) (res_atoms x) else []) xs)"

text \<open>What a reservation must satisfy to be stored, and what the database keeps of it.\<close>

definition storable :: "('d::linorder, 'p) gregorian \<Rightarrow> 'p reservation \<Rightarrow> bool" where
  "storable G r \<longleftrightarrow> chain G (res_atoms r) \<and> res_status r \<noteq> Temporary \<and> int32 (res_adults r) \<and> int32 (res_children r)
     \<and> CHR 0x00 \<notin> set (res_description r) \<and> list_all (\<lambda>a. int32 (atom_room a)) (res_atoms r)"

definition stored_atom :: "'p reservation_atom \<Rightarrow> 'p reservation_atom" where
  "stored_atom a = a\<lparr>obj_revision := 0\<rparr>"

definition stored :: "'p reservation \<Rightarrow> 'p reservation" where
  "stored r = r\<lparr>res_owner := None, res_atoms := map stored_atom (res_atoms r)\<rparr>"

definition entry_ok :: "('d::linorder, 'p) gregorian \<Rightarrow> 'p reservation \<Rightarrow> bool" where
  "entry_ok G x \<longleftrightarrow> storable G x \<and> stored x = x \<and> int32 (obj_id x) \<and> int32 (obj_revision x)
     \<and> list_all (\<lambda>a. int32 (obj_id a)) (res_atoms x)"

definition tables_hold :: "('d::linorder, 'p) gregorian \<Rightarrow> tables \<Rightarrow> 'p reservation list \<Rightarrow> bool" where
  "tables_hold G t xs \<longleftrightarrow>
     tb_rows t ''h_reservation'' = Some (map res_row xs)
     \<and> (\<exists>as. tb_rows t ''h_reservation_atom'' = Some as \<and> (\<forall>i. [a \<leftarrow> as. column a 1 = SInt i] = entry_rows G i xs))
     \<and> sorted_wrt (<) (map obj_id xs)
     \<and> list_all (\<lambda>x. entry_ok G x \<and> obj_id x \<le> tb_seq t ''h_reservation'') xs"

lemma stored_simps [simp]:
  "obj_id (stored r) = obj_id r" "obj_revision (stored r) = obj_revision r" "res_status (stored r) = res_status r"
  "res_description (stored r) = res_description r" "res_adults (stored r) = res_adults r"
  "res_children (stored r) = res_children r" "res_atoms (stored r) = map stored_atom (res_atoms r)"
  "atom_room (stored_atom a) = atom_room a" "atom_range (stored_atom a) = atom_range a" "obj_id (stored_atom a) = obj_id a"
  "stored_atom (stored_atom a) = stored_atom a" "stored (stored r) = stored r"
  by (simp_all add: stored_def stored_atom_def)

lemma stored_fixed: "stored x = x \<longleftrightarrow> res_owner x = None \<and> map stored_atom (res_atoms x) = res_atoms x"
proof
  assume "stored x = x"
  then show "res_owner x = None \<and> map stored_atom (res_atoms x) = res_atoms x"
    by (metis reservation.select_convs(3,6) reservation.surjective reservation.update_convs(3,6) stored_def)
qed (simp add: stored_def)

lemma chain_map: "(\<And>a. atom_range (f a) = atom_range a) \<Longrightarrow> chain G (map f xs) = chain G xs"
  by (induction G xs rule: chain.induct) auto

lemma res_row_stored: "res_row (stored r) = res_row r"
  by (simp add: res_row_def)

lemma atom_row_stored: "atom_row G i (stored_atom a) = atom_row G i a"
  by (simp add: atom_row_def)

lemma storable_stored: "storable G (stored r) = storable G r"
  by (simp add: storable_def chain_map list_all_iff)

fun number_atoms :: "int \<Rightarrow> 'p reservation_atom list \<Rightarrow> 'p reservation_atom list" where
  "number_atoms s [] = []"
| "number_atoms s (a # as) = setId (s + 1) a # number_atoms (s + 1) as"

lemma number_atoms_keeps:
  "chain G (number_atoms s as) = chain G as" "list_all (\<lambda>a. int32 (atom_room a)) (number_atoms s as) = list_all (\<lambda>a. int32 (atom_room a)) as"
  "length (number_atoms s as) = length as"
proof -
  show "chain G (number_atoms s as) = chain G as"
  proof (induction G as arbitrary: s rule: chain.induct)
    case (3 G a b xs)
    then show ?case using "3.IH" [of "s + 1"] by (simp add: setId_def)
  qed (simp_all add: setId_def)
qed (induction as arbitrary: s; simp add: setId_def)+

lemma number_atoms_ids:
  "0 \<le> s \<Longrightarrow> s + int (length as) < 2147483648 \<Longrightarrow> list_all (\<lambda>a. int32 (obj_id a)) (number_atoms s as)"
  by (induction as arbitrary: s) (auto simp: setId_def int32_def)

text \<open>The tables after rows were added to or changed in one of them.\<close>

definition put_rows :: "string \<Rightarrow> sql_row list \<Rightarrow> int \<Rightarrow> tables \<Rightarrow> tables \<Rightarrow> bool" where
  "put_rows n rows s t t' \<longleftrightarrow>
     tb_rows t' = (tb_rows t)(n := Some rows) \<and> tb_seq t' = (tb_seq t)(n := s) \<and> tb_saved t' = tb_saved t"

lemma insert_effect:
  assumes "sql_ok S T" and "storage_at S T so t" and "q \<in> set query_keys"
    and "sql_effect q args t = insert_row n vs t" and "tb_rows t n = Some rows"
    and "0 \<le> tb_seq t n" and "tb_seq t n + 1 < 2147483648"
  shows "\<exists>so' t'. query_execute S q args so = Inr so' \<and> storage_at S T so' t' \<and> lastInsertId S so' = tb_seq t n + 1
    \<and> put_rows n (rows @ [SInt (tb_seq t n + 1) # vs]) (tb_seq t n + 1) t t'"
proof -
  define t' where "t' = t\<lparr>tb_rows := (tb_rows t)(n := Some (rows @ [SInt (tb_seq t n + 1) # vs])),
      tb_seq := (tb_seq t)(n := tb_seq t n + 1), tb_changes := 1, tb_rowid := tb_seq t n + 1\<rparr>"
  have "sql_effect q args t = Some ([], t')" using assms(4,5) by (simp add: insert_row_def Let_def t'_def)
  then obtain so' where so': "query_execute S q args so = Inr so'" "storage_at S T so' t'"
    using query_execute_effect [OF assms(1-3)] by blast
  moreover have "lastInsertId S so' = tb_seq t n + 1"
    using storage_counters(1) [OF assms(1) so'(2)] assms(6,7) by (simp add: t'_def int32_def)
  moreover have "put_rows n (rows @ [SInt (tb_seq t n + 1) # vs]) (tb_seq t n + 1) t t'" by (simp add: put_rows_def t'_def)
  ultimately show ?thesis by blast
qed

lemma store_atoms_effect:
  assumes "sql_ok S T"
  shows "storage_at S T so t \<Longrightarrow> tb_rows t ''h_reservation_atom'' = Some rows \<Longrightarrow> 0 \<le> tb_seq t ''h_reservation_atom''
    \<Longrightarrow> tb_seq t ''h_reservation_atom'' + int (length as) < 2147483648
    \<Longrightarrow> \<exists>so' t'. store_atoms S G i as so = Inr (number_atoms (tb_seq t ''h_reservation_atom'') as, so') \<and> storage_at S T so' t'
      \<and> put_rows ''h_reservation_atom'' (rows @ map (atom_row G i) (number_atoms (tb_seq t ''h_reservation_atom'') as))
          (tb_seq t ''h_reservation_atom'' + int (length as)) t t'"
proof (induction as arbitrary: so t rows)
  case Nil
  have "put_rows ''h_reservation_atom'' rows (tb_seq t ''h_reservation_atom'') t t" using Nil by (auto simp: put_rows_def)
  then show ?case using Nil(1) by (auto simp del: fun_upd_apply)
next
  case (Cons a as)
  let ?n = "''h_reservation_atom''" and ?args = "[SInt i, SInt (atom_room a), bindDate G (p_begin G (atom_range a)), bindDate G (p_end G (atom_range a))]"
  have "sql_effect AtomInsert ?args t = insert_row ?n ?args t"
    by (simp add: sql_effect_def bound_types_def value_type_def bindDate_def)
  then obtain so1 t1 where so1: "query_execute S AtomInsert ?args so = Inr so1" "storage_at S T so1 t1"
      "lastInsertId S so1 = tb_seq t ?n + 1" "put_rows ?n (rows @ [SInt (tb_seq t ?n + 1) # ?args]) (tb_seq t ?n + 1) t t1"
    using insert_effect [OF assms Cons.prems(1), of AtomInsert ?args ?n ?args rows] Cons.prems by (auto simp: query_keys_def)
  have t1: "tb_seq t1 ?n = tb_seq t ?n + 1" "tb_rows t1 ?n = Some (rows @ [SInt (tb_seq t ?n + 1) # ?args])"
    using so1(4) by (simp_all add: put_rows_def)
  obtain so2 t2 where so2: "store_atoms S G i as so1 = Inr (number_atoms (tb_seq t ?n + 1) as, so2)" "storage_at S T so2 t2"
      "put_rows ?n ((rows @ [SInt (tb_seq t ?n + 1) # ?args]) @ map (atom_row G i) (number_atoms (tb_seq t ?n + 1) as))
         (tb_seq t ?n + 1 + int (length as)) t1 t2"
    using Cons.IH [OF so1(2) t1(2)] t1 Cons.prems by auto
  have "put_rows ?n (rows @ map (atom_row G i) (number_atoms (tb_seq t ?n) (a # as))) (tb_seq t ?n + int (length (a # as))) t t2"
    using so1(4) so2(3) by (simp add: put_rows_def atom_row_def setId_def ac_simps)
  then show ?case using so1 so2 by auto
qed

section \<open>Storing, updating and deleting\<close>

lemma entry_rows_append: "entry_rows G i (xs @ ys) = entry_rows G i xs @ entry_rows G i ys"
  by (simp add: entry_rows_def)

lemma entry_rows_none: "i \<notin> obj_id ` set xs \<Longrightarrow> entry_rows G i xs = []"
  by (induction xs) (auto simp: entry_rows_def)

lemma filter_atom_rows:
  "[a \<leftarrow> map (atom_row G i) as. column a 1 = SInt j] = (if i = j then map (atom_row G i) as else [])"
  by (induction as) (auto simp: atom_row_def column_def)

lemma entry_ok_new:
  assumes "storable G r" and "int32 i" and "int32 v" and "0 \<le> s" and "s + int (length (res_atoms r)) < 2147483648"
  shows "entry_ok G (stored (r\<lparr>obj_id := i, obj_revision := v, res_atoms := number_atoms s (res_atoms r)\<rparr>))"
proof -
  have "list_all (\<lambda>a. int32 (obj_id a)) (number_atoms s (res_atoms r))" using number_atoms_ids [OF assms(4,5)] .
  moreover have "storable G (r\<lparr>obj_id := i, obj_revision := v, res_atoms := number_atoms s (res_atoms r)\<rparr>)"
    using assms(1) by (simp add: storable_def number_atoms_keeps)
  ultimately show ?thesis using assms(2,3) by (simp add: entry_ok_def storable_stored list_all_iff)
qed

lemma store_reservation_effect:
  assumes S: "sql_ok S T" and at: "storage_at S T so t" and hold: "tables_hold G t xs" and r: "storable G r"
    and i: "0 \<le> tb_seq t ''h_reservation''" "tb_seq t ''h_reservation'' + 1 < 2147483648"
    and s: "0 \<le> tb_seq t ''h_reservation_atom''" "tb_seq t ''h_reservation_atom'' + int (length (res_atoms r)) < 2147483648"
  defines "r' \<equiv> r\<lparr>obj_id := tb_seq t ''h_reservation'' + 1, obj_revision := 1,
      res_atoms := number_atoms (tb_seq t ''h_reservation_atom'') (res_atoms r)\<rparr>"
  shows "\<exists>so' t'. storeNewReservationAndAtoms S G r so = Inr (r', so') \<and> storage_at S T so' t' \<and> tables_hold G t' (xs @ [stored r'])
    \<and> tb_seq t' ''h_reservation'' = tb_seq t ''h_reservation'' + 1
    \<and> tb_seq t' ''h_reservation_atom'' = tb_seq t ''h_reservation_atom'' + int (length (res_atoms r)) \<and> tb_saved t' = tb_saved t"
proof -
  let ?n = "''h_reservation''" and ?m = "''h_reservation_atom''"
  let ?args = "[SText (res_description r), SText (status_text (res_status r)), SInt (res_adults r), SInt (res_children r)]"
  obtain A where A: "tb_rows t ?m = Some A" "\<And>i. [a \<leftarrow> A. column a 1 = SInt i] = entry_rows G i xs" and R: "tb_rows t ?n = Some (map res_row xs)"
    using hold by (auto simp: tables_hold_def)
  have st: "serializeReservationStatus (res_status r) = Inr (status_text (res_status r))"
    using r by (cases "res_status r") (simp_all add: storable_def status_text_def serializeReservationStatus_def)
  have "sql_effect ReservationInsert ?args t = insert_row ?n (SInt 1 # ?args) t"
    by (simp add: sql_effect_def bound_types_def value_type_def)
  then obtain so1 t1 where so1: "query_execute S ReservationInsert ?args so = Inr so1" "storage_at S T so1 t1"
      "lastInsertId S so1 = tb_seq t ?n + 1" "put_rows ?n (map res_row xs @ [SInt (tb_seq t ?n + 1) # SInt 1 # ?args]) (tb_seq t ?n + 1) t t1"
    using insert_effect [OF S at, of ReservationInsert ?args ?n "SInt 1 # ?args" "map res_row xs"] R i by (auto simp: query_keys_def)
  have t1: "tb_seq t1 ?m = tb_seq t ?m" "tb_rows t1 ?m = Some A" using so1(4) A(1) by (simp_all add: put_rows_def)
  obtain so2 t2 where so2: "store_atoms S G (tb_seq t ?n + 1) (res_atoms r) so1 = Inr (number_atoms (tb_seq t ?m) (res_atoms r), so2)"
      "storage_at S T so2 t2"
      "put_rows ?m (A @ map (atom_row G (tb_seq t ?n + 1)) (number_atoms (tb_seq t ?m) (res_atoms r))) (tb_seq t ?m + int (length (res_atoms r))) t1 t2"
    using store_atoms_effect [OF S so1(2) t1(2), of "res_atoms r" G "tb_seq t ?n + 1"] t1(1) s by auto
  have run: "storeNewReservationAndAtoms S G r so = Inr (r', so2)"
    using st so1 so2(1) by (simp add: storeNewReservationAndAtoms_def Let_def setId_def setRevision_def r'_def)
  have ids: "\<forall>x \<in> set xs. obj_id x \<le> tb_seq t ?n" using hold by (auto simp: tables_hold_def list_all_iff)
  have new: "entry_rows G (tb_seq t ?n + 1) xs = []" using ids by (intro entry_rows_none) force
  have rows: "tb_rows t2 ?n = Some (map res_row (xs @ [stored r']))"
    "tb_rows t2 ?m = Some (A @ map (atom_row G (tb_seq t ?n + 1)) (number_atoms (tb_seq t ?m) (res_atoms r)))"
    using so1(4) so2(3) by (simp_all add: put_rows_def res_row_stored) (simp add: res_row_def r'_def)
  have seqs: "tb_seq t2 ?n = tb_seq t ?n + 1" "tb_seq t2 ?m = tb_seq t ?m + int (length (res_atoms r))" "tb_saved t2 = tb_saved t"
    using so1(4) so2(3) by (simp_all add: put_rows_def)
  have atoms: "[a \<leftarrow> A @ map (atom_row G (tb_seq t ?n + 1)) (number_atoms (tb_seq t ?m) (res_atoms r)). column a 1 = SInt j]
      = entry_rows G j (xs @ [stored r'])" for j
  proof -
    have "entry_rows G j [stored r'] = (if tb_seq t ?n + 1 = j
        then map (atom_row G (tb_seq t ?n + 1)) (number_atoms (tb_seq t ?m) (res_atoms r)) else [])"
      by (simp add: entry_rows_def r'_def atom_row_stored comp_def)
    then show ?thesis using A(2) [of j] by (simp only: filter_append filter_atom_rows entry_rows_append)
  qed
  have ok: "entry_ok G (stored r')"
    unfolding r'_def using r i s by (intro entry_ok_new) (auto simp: int32_def)
  have "tables_hold G t2 (xs @ [stored r'])"
    unfolding tables_hold_def
  proof (intro conjI)
    show "tb_rows t2 ?n = Some (map res_row (xs @ [stored r']))" by (rule rows)
    show "\<exists>as. tb_rows t2 ?m = Some as \<and> (\<forall>i. [a \<leftarrow> as. column a 1 = SInt i] = entry_rows G i (xs @ [stored r']))"
      using rows(2) atoms by blast
    show "sorted_wrt (<) (map obj_id (xs @ [stored r']))"
      using hold ids by (auto simp: tables_hold_def sorted_wrt_append r'_def)
    show "list_all (\<lambda>x. entry_ok G x \<and> obj_id x \<le> tb_seq t2 ?n) (xs @ [stored r'])"
      using hold ok seqs(1) by (auto simp: tables_hold_def list_all_iff r'_def)
  qed
  then show ?thesis using run so2(2) seqs by blast
qed

lemma delete_atoms_effect:
  assumes "tb_rows t ''h_reservation_atom'' = Some A" and "q = ReservationDeleteAtoms \<and> args = [SInt i] \<or> q = ReservationDelete \<and> args = [SInt i, SInt i]"
  shows "\<exists>t'. sql_effect q args t = Some ([], t')
    \<and> put_rows ''h_reservation_atom'' [a \<leftarrow> A. column a 1 \<noteq> SInt i] (tb_seq t ''h_reservation_atom'') t t'"
proof -
  have c: "concat (map (\<lambda>r. if P r then [] else [r]) zs) = filter (\<lambda>r. \<not> P r) zs"
    for P and zs :: "sql_row list"
    by (induction zs) auto
  define t' where "t' = t\<lparr>tb_rows := (tb_rows t)(''h_reservation_atom'' := Some [a \<leftarrow> A. column a 1 \<noteq> SInt i]),
      tb_changes := int (length [a \<leftarrow> A. column a 1 = SInt i])\<rparr>"
  have "change_rows ''h_reservation_atom'' (\<lambda>a. column a 1 = SInt i) (\<lambda>_. None) t = Some ([], t')"
    unfolding change_rows_def assms(1) option.case c t'_def ..
  then have "sql_effect q args t = Some ([], t')"
    using assms(2) by (auto simp: sql_effect_def bound_types_def value_type_def)
  then show ?thesis by (auto simp: put_rows_def t'_def)
qed

lemma entry_rows_map:
  assumes "\<And>x. x \<in> set xs \<Longrightarrow> obj_id (f x) = obj_id x" and "\<And>x. x \<in> set xs \<Longrightarrow> obj_id x = j \<Longrightarrow> res_atoms (f x) = res_atoms x"
  shows "entry_rows G j (map f xs) = entry_rows G j xs"
  unfolding entry_rows_def using assms by (induction xs) auto

text \<open>Replacing the reservation with the id \<open>i\<close>, of which there is at most one.\<close>

definition replace_entry :: "int \<Rightarrow> ('p reservation \<Rightarrow> 'p reservation) \<Rightarrow> 'p reservation list \<Rightarrow> 'p reservation list" where
  "replace_entry i f xs = map (\<lambda>x. if obj_id x = i then f x else x) xs"

lemma replace_entry_absent: "i \<notin> obj_id ` set xs \<Longrightarrow> replace_entry i f xs = xs"
  unfolding replace_entry_def by (induction xs) auto

lemma replace_entry_ids: "(\<And>x. obj_id x = i \<Longrightarrow> obj_id (f x) = i) \<Longrightarrow> map obj_id (replace_entry i f xs) = map obj_id xs"
  by (auto simp: replace_entry_def)

lemma entry_rows_replace_other:
  "j \<noteq> i \<Longrightarrow> (\<And>x. obj_id x = i \<Longrightarrow> obj_id (f x) = i) \<Longrightarrow> entry_rows G j (replace_entry i f xs) = entry_rows G j xs"
  unfolding replace_entry_def by (rule entry_rows_map) auto

lemma sorted_distinct_ids: "sorted_wrt (<) (map obj_id xs) \<Longrightarrow> distinct (map obj_id (xs :: 'p reservation list))"
  by (rule sorted_wrt_distinct) auto

lemma entry_rows_single:
  assumes "distinct (map obj_id xs)" and "x \<in> set xs"
  shows "entry_rows G (obj_id x) xs = map (atom_row G (obj_id x)) (res_atoms x)"
proof -
  obtain ys zs where xs: "xs = ys @ x # zs" using assms(2) by (meson split_list)
  then have "obj_id x \<notin> obj_id ` set ys" "obj_id x \<notin> obj_id ` set zs" using assms(1) by auto
  then show ?thesis using xs by (simp add: entry_rows_append entry_rows_none) (simp add: entry_rows_def entry_rows_none [unfolded entry_rows_def])
qed

lemma entry_rows_cleared: "entry_rows G i (replace_entry i (\<lambda>x. x\<lparr>res_atoms := []\<rparr>) xs) = []"
proof (induction xs)
  case (Cons x xs)
  then show ?case by (cases "obj_id x = i") (simp_all only: entry_rows_def replace_entry_def list.map concat.simps if_True if_False refl, simp_all)
qed (simp add: entry_rows_def replace_entry_def)

lemma delete_reservation_effect:
  assumes S: "sql_ok S T" and at: "storage_at S T so t" and hold: "tables_hold G t xs"
  shows "\<exists>so' t'. deleteReservationById S i so = Inr so' \<and> storage_at S T so' t'
    \<and> tables_hold G t' (replace_entry i (\<lambda>x. x\<lparr>res_atoms := []\<rparr>) xs) \<and> tb_seq t' = tb_seq t \<and> tb_saved t' = tb_saved t"
proof -
  let ?n = "''h_reservation''" and ?m = "''h_reservation_atom''" and ?ys = "replace_entry i (\<lambda>x. x\<lparr>res_atoms := []\<rparr>) xs"
  obtain A where A: "tb_rows t ?m = Some A" "\<And>i. [a \<leftarrow> A. column a 1 = SInt i] = entry_rows G i xs"
    using hold by (auto simp: tables_hold_def)
  obtain t' where t': "sql_effect ReservationDelete [SInt i, SInt i] t = Some ([], t')" "put_rows ?m [a \<leftarrow> A. column a 1 \<noteq> SInt i] (tb_seq t ?m) t t'"
    using delete_atoms_effect [OF A(1)] by blast
  obtain so' where so': "query_execute S ReservationDelete [SInt i, SInt i] so = Inr so'" "storage_at S T so' t'"
    using query_execute_effect [OF S at _ t'(1)] by (auto simp: query_keys_def)
  have atoms: "[a \<leftarrow> [a \<leftarrow> A. column a 1 \<noteq> SInt i]. column a 1 = SInt j] = entry_rows G j ?ys" for j
  proof (cases "j = i")
    case True
    then show ?thesis using entry_rows_cleared [of G i xs] by (simp add: filter_empty_conv)
  next
    case False
    have "[a \<leftarrow> [a \<leftarrow> A. column a 1 \<noteq> SInt i]. column a 1 = SInt j] = [a \<leftarrow> A. column a 1 = SInt j]"
      using False by (auto intro: filter_cong)
    then show ?thesis using A(2) [of j] False entry_rows_replace_other [of j i "\<lambda>x. x\<lparr>res_atoms := []\<rparr>" G xs] by simp
  qed
  have "map res_row ?ys = map res_row xs" by (auto simp: replace_entry_def res_row_def)
  moreover have "list_all (\<lambda>x. entry_ok G x \<and> obj_id x \<le> tb_seq t ?n) ?ys"
    using hold by (auto simp: tables_hold_def list_all_iff replace_entry_def entry_ok_def storable_def stored_fixed)
  ultimately have "tables_hold G t' ?ys"
    unfolding tables_hold_def
  proof (intro conjI)
    show "tb_rows t' ?n = Some (map res_row ?ys)"
      using hold t'(2) \<open>map res_row ?ys = map res_row xs\<close> by (simp add: tables_hold_def put_rows_def)
    show "\<exists>as. tb_rows t' ?m = Some as \<and> (\<forall>i. [a \<leftarrow> as. column a 1 = SInt i] = entry_rows G i ?ys)"
      using t'(2) atoms by (simp add: put_rows_def)
    show "sorted_wrt (<) (map obj_id ?ys)"
      using hold replace_entry_ids [of i "\<lambda>x. x\<lparr>res_atoms := []\<rparr>" xs] by (simp add: tables_hold_def)
    show "list_all (\<lambda>x. entry_ok G x \<and> obj_id x \<le> tb_seq t' ?n) ?ys" if "list_all (\<lambda>x. entry_ok G x \<and> obj_id x \<le> tb_seq t ?n) ?ys"
      using that t'(2) by (simp add: put_rows_def)
  qed
  then show ?thesis using so' t'(2) by (auto simp: deleteReservationById_def put_rows_def)
qed

lemma same_id_same:
  fixes xs :: "'p reservation list"
  assumes "sorted_wrt (<) (map obj_id xs)" and "x \<in> set xs" and "y \<in> set xs" and "obj_id x = obj_id y"
  shows "x = y"
  using sorted_distinct_ids [OF assms(1)] assms(2-4) by (auto simp: distinct_map inj_on_def)

text \<open>The \<open>UPDATE\<close> changes the row with the id and the revision, if there is one.\<close>

lemma update_row_effect:
  assumes hold: "tables_hold G t xs" and r: "storable G r"
  defines "args \<equiv> [SText (res_description r), SText (status_text (res_status r)), SInt (res_adults r), SInt (res_children r),
      SInt (obj_id r), SInt (obj_revision r)]"
    and "found \<equiv> (\<exists>x \<in> set xs. obj_id x = obj_id r \<and> obj_revision x = obj_revision r)"
  shows "\<exists>t'. sql_effect ReservationUpdate args t = Some ([], t') \<and> tb_changes t' = (if found then 1 else 0)
    \<and> put_rows ''h_reservation'' (map res_row (if found then replace_entry (obj_id r) (\<lambda>_. r\<lparr>obj_revision := obj_revision r + 1\<rparr>) xs else xs))
        (tb_seq t ''h_reservation'') t t'"
proof -
  let ?n = "''h_reservation''"
  let ?P = "\<lambda>row. column row 0 = SInt (obj_id r) \<and> column row 1 = SInt (obj_revision r)"
  let ?f = "\<lambda>row. row[1 := next_revision (column row 1), 2 := SText (res_description r), 3 := SText (status_text (res_status r)),
      4 := SInt (res_adults r), 5 := SInt (res_children r)]"
  have R: "tb_rows t ?n = Some (map res_row xs)" and sorted: "sorted_wrt (<) (map obj_id xs)"
    using hold by (simp_all add: tables_hold_def)
  have P: "?P (res_row x) \<longleftrightarrow> obj_id x = obj_id r \<and> obj_revision x = obj_revision r" for x :: "'b reservation"
    by (simp add: res_row_def column_def)
  have c: "concat (map (\<lambda>row. if ?P row then [?f row] else [row]) zs) = map (\<lambda>row. if ?P row then ?f row else row) zs" for zs
    by (induction zs) auto
  have f: "?f (res_row x) = res_row (r\<lparr>obj_revision := obj_revision r + 1\<rparr>)"
    if "obj_id x = obj_id r" "obj_revision x = obj_revision r" for x :: "'b reservation"
    using that by (simp add: res_row_def column_def next_revision_def)
  define t' where "t' = t\<lparr>tb_rows := (tb_rows t)(?n := Some (map (\<lambda>row. if ?P row then ?f row else row) (map res_row xs))),
      tb_changes := int (length (filter ?P (map res_row xs)))\<rparr>"
  have "change_rows ?n ?P (\<lambda>row. Some (?f row)) t = Some ([], t')"
    unfolding change_rows_def R option.case c t'_def ..
  then have eff: "sql_effect ReservationUpdate args t = Some ([], t')"
    by (simp add: sql_effect_def bound_types_def value_type_def args_def)
  show ?thesis
  proof (cases found)
    case True
    then obtain x where x: "x \<in> set xs" "obj_id x = obj_id r" "obj_revision x = obj_revision r" by (auto simp: found_def)
    have same: "y = x" if "y \<in> set xs" "obj_id y = obj_id r" for y
      by (rule same_id_same [OF sorted that(1) x(1)]) (simp add: that(2) x(2))
    have iff: "?P (res_row y) \<longleftrightarrow> y = x" if "y \<in> set xs" for y using P [of y] same [OF that] x by blast
    have "filter (\<lambda>y. ?P (res_row y)) xs = filter (\<lambda>y. y = x) xs"
      using iff by (rule filter_cong [OF refl])
    moreover have "filter (\<lambda>y. y = x) xs = [x]"
    proof -
      obtain ys zs where xs: "xs = ys @ x # zs" using x(1) by (meson split_list)
      then have "x \<notin> set ys" "x \<notin> set zs" using sorted_distinct_ids [OF sorted] by auto
      then have "filter (\<lambda>y. y = x) ys = []" "filter (\<lambda>y. y = x) zs = []" by (auto simp: filter_empty_conv)
      then show ?thesis using xs by simp
    qed
    ultimately have "tb_changes t' = 1" by (simp add: t'_def filter_map comp_def)
    moreover have "map (\<lambda>row. if ?P row then ?f row else row) (map res_row xs)
        = map res_row (replace_entry (obj_id r) (\<lambda>_. r\<lparr>obj_revision := obj_revision r + 1\<rparr>) xs)"
      unfolding replace_entry_def map_map
    proof (rule map_cong [OF refl])
      fix y assume y: "y \<in> set xs"
      show "((\<lambda>row. if ?P row then ?f row else row) \<circ> res_row) y
          = (res_row \<circ> (\<lambda>x. if obj_id x = obj_id r then r\<lparr>obj_revision := obj_revision r + 1\<rparr> else x)) y"
      proof (cases "obj_id y = obj_id r")
        case True
        then have "y = x" by (rule same [OF y])
        then show ?thesis using x(2,3) P [of x] f [of x] by (simp only: comp_def if_True simp_thms)
      next
        case False
        then show ?thesis using P [of y] by (simp only: comp_def if_False simp_thms)
      qed
    qed
    ultimately show ?thesis using eff True by (auto simp: put_rows_def t'_def)
  next
    case False
    then have none: "\<not> ?P (res_row y)" if "y \<in> set xs" for y using that P [of y] by (auto simp: found_def)
    have "filter ?P (map res_row xs) = []" using none by (simp only: filter_map comp_def filter_empty_conv) (simp add: filter_empty_conv)
    moreover have "map (\<lambda>row. if ?P row then ?f row else row) (map res_row xs) = map res_row xs"
      unfolding map_map by (rule map_cong [OF refl]) (use none in \<open>simp only: comp_def if_False simp_thms\<close>)
    ultimately show ?thesis using eff False by (auto simp: put_rows_def t'_def)
  qed
qed

lemma entry_rows_replace_same:
  assumes "obj_id y = i" and "sorted_wrt (<) (map obj_id xs)"
  shows "i \<in> obj_id ` set xs \<Longrightarrow> entry_rows G i (replace_entry i (\<lambda>_. y) xs) = map (atom_row G i) (res_atoms y)"
proof -
  assume "i \<in> obj_id ` set xs"
  then have mem: "y \<in> set (replace_entry i (\<lambda>_. y) xs)" by (force simp: replace_entry_def)
  have "map obj_id (replace_entry i (\<lambda>_. y) xs) = map obj_id xs" by (rule replace_entry_ids) (rule assms(1))
  then have "distinct (map obj_id (replace_entry i (\<lambda>_. y) xs))" using sorted_distinct_ids [OF assms(2)] by simp
  then show ?thesis using entry_rows_single [OF _ mem, of G] assms(1) by simp
qed

lemma update_reservation_effect:
  assumes S: "sql_ok S T" and at: "storage_at S T so t" and hold: "tables_hold G t xs" and r: "storable G r"
    and rev: "int32 (obj_revision r + 1)"
    and s: "0 \<le> tb_seq t ''h_reservation_atom''" "tb_seq t ''h_reservation_atom'' + int (length (res_atoms r)) < 2147483648"
  defines "found \<equiv> (\<exists>x \<in> set xs. obj_id x = obj_id r \<and> obj_revision x = obj_revision r)"
    and "r' \<equiv> r\<lparr>obj_revision := obj_revision r + 1, res_atoms := number_atoms (tb_seq t ''h_reservation_atom'') (res_atoms r)\<rparr>"
  shows "\<exists>so' t'. update_reservation S G r so = Inr (found, if found then r' else r, so') \<and> storage_at S T so' t'
    \<and> tables_hold G t' (if found then replace_entry (obj_id r) (\<lambda>_. stored r') xs else xs)
    \<and> tb_seq t' = (tb_seq t)(''h_reservation_atom'' := tb_seq t ''h_reservation_atom'' + (if found then int (length (res_atoms r)) else 0))
    \<and> tb_saved t' = tb_saved t"
proof -
  let ?n = "''h_reservation''" and ?m = "''h_reservation_atom''"
  let ?args = "[SText (res_description r), SText (status_text (res_status r)), SInt (res_adults r), SInt (res_children r),
      SInt (obj_id r), SInt (obj_revision r)]"
  obtain A where A: "tb_rows t ?m = Some A" "\<And>i. [a \<leftarrow> A. column a 1 = SInt i] = entry_rows G i xs"
    using hold by (auto simp: tables_hold_def)
  have sorted: "sorted_wrt (<) (map obj_id xs)" using hold by (simp add: tables_hold_def)
  have st: "serializeReservationStatus (res_status r) = Inr (status_text (res_status r))"
    using r by (cases "res_status r") (simp_all add: storable_def status_text_def serializeReservationStatus_def)
  define ys where "ys = replace_entry (obj_id r) (\<lambda>_. r\<lparr>obj_revision := obj_revision r + 1\<rparr>) xs"
  obtain t1 where t1: "sql_effect ReservationUpdate ?args t = Some ([], t1)" "tb_changes t1 = (if found then 1 else 0)"
      "put_rows ?n (map res_row (if found then ys else xs)) (tb_seq t ?n) t t1"
    using update_row_effect [OF hold r] unfolding found_def ys_def by blast
  obtain so1 where so1: "query_execute S ReservationUpdate ?args so = Inr so1" "storage_at S T so1 t1"
    using query_execute_effect [OF S at _ t1(1)] by (auto simp: query_keys_def)
  have rows1: "updatedRows S so1 = (if found then 1 else 0)" using storage_counters(2) [OF S so1(2)] t1(2) by simp
  show ?thesis
  proof (cases found)
    case False
    have "put_rows ?n (map res_row xs) (tb_seq t ?n) t t1" using t1(3) False by simp
    then have same: "tb_rows t1 = tb_rows t" "tb_seq t1 = tb_seq t" "tb_saved t1 = tb_saved t"
      using hold by (auto simp: put_rows_def tables_hold_def)
    then have "tables_hold G t1 xs" using hold unfolding tables_hold_def by simp
    moreover have "update_reservation S G r so = Inr (False, r, so1)"
      using st so1(1) rows1 False by (simp add: update_reservation_def)
    ultimately show ?thesis using False so1(2) same by (auto intro!: exI [of _ so1] exI [of _ t1])
  next
    case True
    have p1: "put_rows ?n (map res_row ys) (tb_seq t ?n) t t1" using t1(3) True by simp
    have A1: "tb_rows t1 ?m = Some A" using p1 A(1) by (simp add: put_rows_def)
    obtain t2 where t2: "sql_effect ReservationDeleteAtoms [SInt (obj_id r)] t1 = Some ([], t2)"
        "put_rows ?m [a \<leftarrow> A. column a 1 \<noteq> SInt (obj_id r)] (tb_seq t1 ?m) t1 t2"
      using delete_atoms_effect [OF A1] by blast
    obtain so2 where so2: "query_execute S ReservationDeleteAtoms [SInt (obj_id r)] so1 = Inr so2" "storage_at S T so2 t2"
      using query_execute_effect [OF S so1(2) _ t2(1)] by (auto simp: query_keys_def)
    have seq2: "tb_seq t2 ?m = tb_seq t ?m" using p1 t2(2) by (simp add: put_rows_def)
    have A2: "tb_rows t2 ?m = Some [a \<leftarrow> A. column a 1 \<noteq> SInt (obj_id r)]" using t2(2) by (simp add: put_rows_def)
    obtain so3 t3 where so3: "store_atoms S G (obj_id r) (res_atoms r) so2 = Inr (number_atoms (tb_seq t ?m) (res_atoms r), so3)"
        "storage_at S T so3 t3"
        "put_rows ?m ([a \<leftarrow> A. column a 1 \<noteq> SInt (obj_id r)] @ map (atom_row G (obj_id r)) (number_atoms (tb_seq t ?m) (res_atoms r)))
           (tb_seq t ?m + int (length (res_atoms r))) t2 t3"
      using store_atoms_effect [OF S so2(2) A2, of "res_atoms r" G "obj_id r"] seq2 s by auto
    have run: "update_reservation S G r so = Inr (True, r', so3)"
      using st so1(1) rows1 True so2(1) so3(1)
      by (simp add: update_reservation_def setRevision_def r'_def)
    define zs where "zs = replace_entry (obj_id r) (\<lambda>_. stored r') xs"
    have rows: "tb_rows t3 ?n = Some (map res_row zs)"
    proof -
      have "map res_row zs = map res_row ys"
        unfolding zs_def ys_def replace_entry_def map_map by (rule map_cong [OF refl]) (simp add: res_row_def r'_def)
      then show ?thesis using p1 t2(2) so3(3) by (simp add: put_rows_def)
    qed
    have atoms: "[a \<leftarrow> [a \<leftarrow> A. column a 1 \<noteq> SInt (obj_id r)] @ map (atom_row G (obj_id r)) (number_atoms (tb_seq t ?m) (res_atoms r)).
        column a 1 = SInt j] = entry_rows G j zs" for j
    proof (cases "j = obj_id r")
      case j: True
      have "obj_id r \<in> obj_id ` set xs" using True unfolding found_def by (metis imageI)
      then have "entry_rows G j zs = map (atom_row G (obj_id r)) (number_atoms (tb_seq t ?m) (res_atoms r))"
        using entry_rows_replace_same [of "stored r'" "obj_id r" xs G] sorted j
        by (simp add: zs_def r'_def comp_def atom_row_stored)
      moreover have "[a \<leftarrow> [a \<leftarrow> A. column a 1 \<noteq> SInt (obj_id r)]. column a 1 = SInt j] = []"
        using j by (simp add: filter_empty_conv)
      ultimately show ?thesis using j by (simp only: filter_append filter_atom_rows refl if_True append_Nil)
    next
      case j: False
      have "[a \<leftarrow> [a \<leftarrow> A. column a 1 \<noteq> SInt (obj_id r)]. column a 1 = SInt j] = [a \<leftarrow> A. column a 1 = SInt j]"
        using j by (auto intro: filter_cong)
      moreover have "entry_rows G j zs = entry_rows G j xs"
        unfolding zs_def by (rule entry_rows_replace_other [OF j]) (simp add: r'_def)
      ultimately show ?thesis using A(2) [of j] j by (simp only: filter_append filter_atom_rows) simp
    qed
    have ids: "map obj_id zs = map obj_id xs"
      unfolding zs_def by (rule replace_entry_ids) (simp add: r'_def)
    have old: "entry_ok G x \<and> obj_id x \<le> tb_seq t ?n" if "x \<in> set xs" for x using hold that by (auto simp: tables_hold_def list_all_iff)
    have "int32 (obj_id r) \<and> obj_id r \<le> tb_seq t ?n"
    proof -
      obtain x where "x \<in> set xs" "obj_id x = obj_id r" using True by (auto simp: found_def)
      then show ?thesis using old [of x] by (simp add: entry_ok_def)
    qed
    moreover have "entry_ok G (stored r')"
      using entry_ok_new [OF r, of "obj_id r" "obj_revision r + 1" "tb_seq t ?m"] calculation rev s by (simp add: r'_def)
    ultimately have "list_all (\<lambda>x. entry_ok G x \<and> obj_id x \<le> tb_seq t ?n) zs"
      using old by (auto simp: list_all_iff zs_def replace_entry_def r'_def)
    moreover have seqs: "tb_seq t3 = (tb_seq t)(?m := tb_seq t ?m + int (length (res_atoms r)))" "tb_saved t3 = tb_saved t"
      using p1 t2(2) so3(3) by (auto simp: put_rows_def)
    ultimately have ok: "list_all (\<lambda>x. entry_ok G x \<and> obj_id x \<le> tb_seq t3 ?n) zs" by simp
    have atoms3: "tb_rows t3 ?m = Some ([a \<leftarrow> A. column a 1 \<noteq> SInt (obj_id r)] @ map (atom_row G (obj_id r)) (number_atoms (tb_seq t ?m) (res_atoms r)))"
      using so3(3) by (simp add: put_rows_def)
    have "tables_hold G t3 zs"
    proof -
      have "\<exists>as. tb_rows t3 ?m = Some as \<and> (\<forall>i. [a \<leftarrow> as. column a 1 = SInt i] = entry_rows G i zs)"
        by (rule exI, rule conjI, rule atoms3, rule allI, rule atoms)
      then show ?thesis unfolding tables_hold_def ids using rows sorted ok by (intro conjI)
    qed
    then show ?thesis using run so3(2) seqs True by (auto simp: zs_def intro!: exI [of _ so3] exI [of _ t3])
  qed
qed

section \<open>Loading\<close>

lemma key_less_asym: "key_less x y \<Longrightarrow> \<not> key_less y x"
  by (auto simp: key_less_def)

lemma order_joined_sorted: "sorted_wrt (\<lambda>x y. key_less (join_key x) (join_key y)) js \<Longrightarrow> order_joined js = js"
  unfolding order_joined_def
proof (induction js)
  case (Cons x js)
  then show ?case by (cases js) (auto dest: key_less_asym)
qed simp

lemma sorted_keys_distinct: "sorted_wrt (\<lambda>x y. key_less (join_key x) (join_key y)) js \<Longrightarrow> distinct (map join_key js)"
proof (induction js)
  case (Cons x js)
  have "join_key x \<noteq> join_key y" if "y \<in> set js" for y
    using Cons.prems that key_less_asym [of "join_key x" "join_key y"] by auto
  then show ?case using Cons by auto
qed simp

definition joined :: "('d::linorder, 'p) gregorian \<Rightarrow> 'p reservation list \<Rightarrow> (sql_row \<times> sql_row) list" where
  "joined G xs = concat (map (\<lambda>x. map (\<lambda>a. (res_row x, atom_row G (obj_id x) a)) (res_atoms x)) xs)"

lemma join_rows_joined:
  assumes "\<And>x. x \<in> set xs \<Longrightarrow> [a \<leftarrow> A. column a 1 = SInt (obj_id x)] = map (atom_row G (obj_id x)) (res_atoms x)"
  shows "join_rows (map res_row xs) A = joined G xs"
proof -
  have one: "concat (map (\<lambda>a. if column a 1 = column (res_row x) 0 then [(res_row x, a)] else []) A)
      = map (\<lambda>a. (res_row x, atom_row G (obj_id x) a)) (res_atoms x)" if "x \<in> set xs" for x
  proof -
    have c: "concat (map (\<lambda>a. if P a then [(res_row x, a)] else []) zs) = map (Pair (res_row x)) (filter P zs)" for P zs
      by (induction zs) auto
    have "column (res_row x) 0 = SInt (obj_id x)" by (simp add: column_def res_row_def)
    then show ?thesis by (simp only: c assms [OF that] map_map comp_def)
  qed
  show ?thesis unfolding join_rows_def joined_def map_map comp_def
    by (rule arg_cong [where f = concat], rule map_cong [OF refl]) (rule one)
qed

lemma chain_begins_sorted:
  "chain G as \<Longrightarrow> sorted_wrt (\<lambda>a b. p_begin G (atom_range a) < p_begin G (atom_range b)) as"
proof (induction G as rule: chain.induct)
  case (3 G a b as)
  have ab: "p_begin G (atom_range a) < p_begin G (atom_range b)" using "3.prems" by (auto simp: period_ok_def)
  have "p_begin G (atom_range b) < p_begin G (atom_range c)" if "c \<in> set as" for c
    using "3.IH" "3.prems" that by auto
  then show ?case using 3 ab by (auto intro: less_trans)
qed auto

lemma joined_sorted:
  assumes G: "iso_ok G" and ch: "\<And>x. x \<in> set xs \<Longrightarrow> chain G (res_atoms x)" and ids: "sorted_wrt (<) (map obj_id xs)"
  shows "sorted_wrt (\<lambda>x y. key_less (join_key x) (join_key y)) (joined G xs)"
  using ch ids
proof (induction xs)
  case Nil
  then show ?case by (simp add: joined_def)
next
  case (Cons x xs)
  have key: "join_key (res_row y, atom_row G (obj_id y) a) = (obj_id y, to_iso G (p_begin G (atom_range a)))" for y :: "'b reservation" and a
    by (simp add: join_key_def res_row_def atom_row_def column_def bindDate_def)
  have "sorted_wrt (\<lambda>a b. p_begin G (atom_range a) < p_begin G (atom_range b)) (res_atoms x)"
    using chain_begins_sorted Cons.prems(1) by auto
  moreover have "\<not> is_special G (p_begin G (atom_range a))" if "a \<in> set (res_atoms x)" for a
    using chain_period_ok [OF Cons.prems(1) that] by (simp add: period_ok_def)
  ultimately have "sorted_wrt (\<lambda>a b. to_iso G (p_begin G (atom_range a)) < to_iso G (p_begin G (atom_range b))) (res_atoms x)"
    using G by (auto simp: iso_ok_def elim: sorted_wrt_mono_rel [rotated])
  moreover have "sorted_wrt (\<lambda>x y. key_less (join_key x) (join_key y)) (joined G xs)" using Cons by simp
  moreover have "obj_id x < obj_id y" if "y \<in> set xs" for y using Cons.prems(2) that by auto
  ultimately show ?case
    by (auto simp: joined_def sorted_wrt_append sorted_wrt_map key key_less_def)
qed

text \<open>A row of the join as the loading functions see it; \<open>k\<close> is where the description is.\<close>

definition row_of :: "('d::linorder, 'p) gregorian \<Rightarrow> nat \<Rightarrow> 'p reservation \<Rightarrow> 'p reservation_atom \<Rightarrow> sql_row \<Rightarrow> bool" where
  "row_of G k x a r \<longleftrightarrow> column r (k - 1) = SInt (obj_revision x) \<and> column r k = SText (res_description x)
     \<and> column r (k + 1) = SText (status_text (res_status x)) \<and> column r (k + 2) = SInt (res_adults x)
     \<and> column r (k + 3) = SInt (res_children x) \<and> column r (k + 4) = SInt (obj_id a) \<and> column r (k + 5) = SInt (atom_room a)
     \<and> column r (k + 6) = bindDate G (p_begin G (atom_range a)) \<and> column r (k + 7) = bindDate G (p_end G (atom_range a))"

lemma parse_status: "s \<noteq> Temporary \<Longrightarrow> parseReservationStatus (status_text s) = Inr s \<and> CHR 0x00 \<notin> set (status_text s)"
  by (cases s) (simp_all add: status_text_def serializeReservationStatus_def parseReservationStatus_def)

lemma readDate_bound:
  "gregorian_ok G \<Longrightarrow> iso_ok G \<Longrightarrow> \<not> is_special G d \<Longrightarrow> readDate S G (bindDate G d) = Inr d"
  by (simp add: readDate_def bindDate_def readString_SText iso_ok_def gregorian_ok_def text_laws_def)

lemma stored_atom_eq: "stored_atom a = a \<Longrightarrow> period_ok G (atom_range a) \<Longrightarrow> gregorian_ok G \<Longrightarrow>
    setId (obj_id a) (mk_atom (atom_room a) (mk_period G (p_begin G (atom_range a)) (p_end G (atom_range a)))) = a"
  by (cases a) (simp add: setId_def mk_atom_def g_eta stored_atom_def)

lemma first_row_loads:
  assumes G: "gregorian_ok G" "iso_ok G" and x: "entry_ok G x" and a: "res_atoms x = a # as" and r: "row_of G k x a r"
  shows "bindr (first_row S G (obj_id x) k r) (set_last_atom_id (readInt S (column r (k + 4)))) = Inr (x\<lparr>res_atoms := [a]\<rparr>)"
proof -
  have p: "period_ok G (atom_range a)" "\<not> is_special G (p_begin G (atom_range a))" "\<not> is_special G (p_end G (atom_range a))"
    using x a chain_period_ok [of G "res_atoms x" a] by (auto simp: entry_ok_def storable_def period_ok_def)
  have fields: "stored_atom a = a" "res_owner x = None" "int32 (obj_id a)" "int32 (atom_room a)" "int32 (obj_revision x)"
      "int32 (res_adults x)" "int32 (res_children x)" "CHR 0x00 \<notin> set (res_description x)" "res_status x \<noteq> Temporary"
    using x a stored_fixed [of x] by (auto simp: entry_ok_def storable_def)
  have "mk_reservation_atom (res_description x) (atom_room a) (mk_period G (p_begin G (atom_range a)) (p_end G (atom_range a)))
      \<lparr>obj_id := obj_id x, obj_revision := obj_revision x, res_status := res_status x, res_adults := res_adults x,
       res_children := res_children x, res_atoms := [a]\<rparr> = x\<lparr>res_atoms := [a]\<rparr>"
    using fields(2) by (cases x) (simp add: mk_reservation_atom_def mk_reservation_def)
  then show ?thesis
    using r fields parse_status [OF fields(9)] stored_atom_eq [OF fields(1) p(1) G(1)]
    by (simp add: first_row_def row_of_def readDate_bound [OF G] p readInt_SInt readString_SText set_last_atom_id_def
        mk_reservation_atom_def)
qed

lemma next_row_loads:
  assumes G: "gregorian_ok G" "iso_ok G" and a: "stored_atom a = a" "int32 (obj_id a)" "int32 (atom_room a)"
    and ch: "chain G (res_atoms y @ [a])" "res_atoms y \<noteq> []" and r: "row_of G k x a r"
  shows "bindr (next_row S G k r y) (set_last_atom_id (readInt S (column r (k + 4)))) = Inr (y\<lparr>res_atoms := res_atoms y @ [a]\<rparr>)"
proof -
  have p: "period_ok G (atom_range a)" "\<not> is_special G (p_begin G (atom_range a))" "\<not> is_special G (p_end G (atom_range a))"
    "p_end G (atom_range (last (res_atoms y))) = p_begin G (atom_range a)" "p_begin G (atom_range a) < p_end G (atom_range a)"
    using ch by (auto simp: chain_append_one period_ok_def)
  show ?thesis
    using r a ch(2) p stored_atom_eq [OF a(1) p(1) G(1)]
    by (simp add: next_row_def row_of_def readDate_bound [OF G] readInt_SInt addContinuation_def lastAtom_eq set_last_atom_id_def)
qed

definition atom_columns :: "('d::linorder, 'p) gregorian \<Rightarrow> 'p reservation_atom \<Rightarrow> sql_row" where
  "atom_columns G a =
     [SInt (obj_id a), SInt (atom_room a), bindDate G (p_begin G (atom_range a)), bindDate G (p_end G (atom_range a))]"

lemma atom_columns: "[column (atom_row G i a) 0, column (atom_row G i a) 2, column (atom_row G i a) 3, column (atom_row G i a) 4] = atom_columns G a"
  by (simp add: column_def atom_row_def atom_columns_def)

lemma row_of_all: "row_of G 2 x a (res_row x @ atom_columns G a)"
  and row_of_id: "row_of G 1 x a (tl (res_row x) @ atom_columns G a)"
  by (simp_all add: row_of_def column_def res_row_def atom_columns_def)

lemma all_row_next:
  assumes G: "gregorian_ok G" "iso_ok G" and x: "entry_ok G x" and int: "int32 (obj_id x)"
  shows "chain G (pre @ as) \<Longrightarrow> pre \<noteq> [] \<Longrightarrow> list_all (\<lambda>a. stored_atom a = a \<and> int32 (obj_id a) \<and> int32 (atom_room a)) as
    \<Longrightarrow> fold_res (all_row S G) (map (\<lambda>a. res_row x @ atom_columns G a) as) (acc, Some (x\<lparr>res_atoms := pre\<rparr>))
      = Inr (acc, Some (x\<lparr>res_atoms := pre @ as\<rparr>))"
proof (induction as arbitrary: pre)
  case Nil
  then show ?case by simp
next
  case (Cons a as)
  have ch: "chain G (pre @ [a])" using Cons.prems(1) chain_append [of G "pre @ [a]" as] by simp
  have "bindr (next_row S G 2 (res_row x @ atom_columns G a) (x\<lparr>res_atoms := pre\<rparr>))
      (set_last_atom_id (readInt S (column (res_row x @ atom_columns G a) (2 + 4)))) = Inr (x\<lparr>res_atoms := pre @ [a]\<rparr>)"
    using next_row_loads [OF G _ _ _ _ _ row_of_all [of G x a], of "x\<lparr>res_atoms := pre\<rparr>" S] Cons.prems ch by simp
  moreover have "readInt S (column (res_row x @ atom_columns G a) 0) = obj_id x"
    using int by (simp add: res_row_def column_def readInt_SInt)
  ultimately have "all_row S G (res_row x @ atom_columns G a) (acc, Some (x\<lparr>res_atoms := pre\<rparr>)) = Inr (acc, Some (x\<lparr>res_atoms := pre @ [a]\<rparr>))"
    by (auto simp: all_row_def Let_def)
  then show ?case using Cons.IH [of "pre @ [a]"] Cons.prems by simp
qed

lemma entry_atoms: "entry_ok G x \<Longrightarrow> list_all (\<lambda>a. stored_atom a = a \<and> int32 (obj_id a) \<and> int32 (atom_room a)) (res_atoms x)"
  using stored_fixed [of x] map_eq_conv [of stored_atom "res_atoms x" "\<lambda>a. a"] by (simp add: entry_ok_def storable_def list_all_iff)

abbreviation opt_list :: "'a option \<Rightarrow> 'a list" where
  "opt_list x \<equiv> (case x of None \<Rightarrow> [] | Some y \<Rightarrow> [y])"

lemma all_row_group:
  assumes G: "gregorian_ok G" "iso_ok G" and x: "entry_ok G x" and ne: "res_atoms x \<noteq> []"
    and cur: "\<And>c. cur = Some c \<Longrightarrow> obj_id c \<noteq> obj_id x"
  shows "fold_res (all_row S G) (map (\<lambda>a. res_row x @ atom_columns G a) (res_atoms x)) (acc, cur) = Inr (acc @ opt_list cur, Some x)"
proof -
  obtain a as where a: "res_atoms x = a # as" using ne by (cases "res_atoms x") auto
  have int: "int32 (obj_id x)" using x by (simp add: entry_ok_def)
  have "readInt S (column (res_row x @ atom_columns G a) 0) = obj_id x"
    using int by (simp add: res_row_def column_def readInt_SInt)
  then have "all_row S G (res_row x @ atom_columns G a) (acc, cur) = Inr (acc @ opt_list cur, Some (x\<lparr>res_atoms := [a]\<rparr>))"
    using first_row_loads [OF G x a row_of_all [of G x a], of S] cur by (cases cur) (auto simp: all_row_def Let_def)
  moreover have "chain G ([a] @ as)" using x a by (simp add: entry_ok_def storable_def)
  moreover have "list_all (\<lambda>a. stored_atom a = a \<and> int32 (obj_id a) \<and> int32 (atom_room a)) as" using entry_atoms [OF x] a by simp
  moreover have "x\<lparr>res_atoms := a # as\<rparr> = x" using a by (cases x) simp
  ultimately show ?thesis using all_row_next [OF G x int, of "[a]" as S] a by simp
qed

lemma all_rows_load:
  assumes G: "gregorian_ok G" "iso_ok G"
  shows "list_all (entry_ok G) xs \<Longrightarrow> sorted_wrt (<) (map obj_id xs) \<Longrightarrow> (\<And>c x. cur = Some c \<Longrightarrow> x \<in> set xs \<Longrightarrow> obj_id c \<noteq> obj_id x)
    \<Longrightarrow> \<exists>result current. fold_res (all_row S G) (concat (map (\<lambda>x. map (\<lambda>a. res_row x @ atom_columns G a) (res_atoms x)) xs)) (acc, cur)
        = Inr (result, current) \<and> result @ opt_list current = acc @ opt_list cur @ [x \<leftarrow> xs. res_atoms x \<noteq> []]"
proof (induction xs arbitrary: acc cur)
  case Nil
  then show ?case by simp
next
  case (Cons x xs)
  show ?case
  proof (cases "res_atoms x = []")
    case True
    then show ?thesis using Cons.IH [of cur acc] Cons.prems by auto
  next
    case False
    have x: "entry_ok G x" using Cons.prems(1) by simp
    have "fold_res (all_row S G) (map (\<lambda>a. res_row x @ atom_columns G a) (res_atoms x)) (acc, cur) = Inr (acc @ opt_list cur, Some x)"
      using Cons.prems(3) by (intro all_row_group [OF G x False]) auto
    moreover have "obj_id c \<noteq> obj_id y" if "Some x = Some c" "y \<in> set xs" for c y
      using Cons.prems(2) that by auto
    ultimately show ?thesis
      using Cons.IH [of "Some x" "acc @ opt_list cur"] Cons.prems(1,2) False by (auto simp: fold_res_append)
  qed
qed

lemma select_joined_entries:
  assumes G: "iso_ok G" and hold: "tables_hold G t xs" and P: "\<And>x. P (res_row x) = Q x"
  shows "select_joined P cols t
    = Some (concat (map (\<lambda>x. map (\<lambda>a. cols (res_row x) @ atom_columns G a) (res_atoms x)) (filter Q xs)), t)"
proof -
  obtain A where A: "tb_rows t ''h_reservation_atom'' = Some A" "\<And>i. [a \<leftarrow> A. column a 1 = SInt i] = entry_rows G i xs"
    using hold by (auto simp: tables_hold_def)
  have sorted: "sorted_wrt (<) (map obj_id xs)" and ok: "list_all (entry_ok G) xs" and R: "tb_rows t ''h_reservation'' = Some (map res_row xs)"
    using hold by (auto simp: tables_hold_def list_all_iff)
  have sub: "sorted_wrt (<) (map obj_id (filter Q xs))"
    using sorted by (induction xs) auto
  have "join_rows (map res_row (filter Q xs)) A = joined G (filter Q xs)"
  proof (rule join_rows_joined)
    fix x
    assume "x \<in> set (filter Q xs)"
    then show "[a \<leftarrow> A. column a 1 = SInt (obj_id x)] = map (atom_row G (obj_id x)) (res_atoms x)"
      using entry_rows_single [OF sorted_distinct_ids [OF sorted], of x G] A(2) [of "obj_id x"] by simp
  qed
  moreover have "filter P (map res_row xs) = map res_row (filter Q xs)"
    by (induction xs) (simp_all add: P)
  moreover have js: "sorted_wrt (\<lambda>x y. key_less (join_key x) (join_key y)) (joined G (filter Q xs))"
    using ok by (intro joined_sorted [OF G _ sub]) (auto simp: list_all_iff entry_ok_def storable_def)
  moreover have "map (\<lambda>(r, a). cols r @ [column a 0, column a 2, column a 3, column a 4]) (joined G (filter Q xs))
      = concat (map (\<lambda>x. map (\<lambda>a. cols (res_row x) @ atom_columns G a) (res_atoms x)) (filter Q xs))"
    by (simp only: joined_def map_concat map_map comp_def prod.case atom_columns)
  ultimately show ?thesis
    using order_joined_sorted [OF js] sorted_keys_distinct [OF js] by (simp only: select_joined_def A(1) R option.case prod.case Let_def if_True simp_thms)
qed

definition listed :: "'p reservation list \<Rightarrow> 'p reservation list" where
  "listed xs = [x \<leftarrow> xs. res_atoms x \<noteq> []]"

text \<open>Loading every reservation gives those that have atoms, in the order of their ids.\<close>

lemma load_all_effect:
  assumes S: "sql_ok S T" and at: "storage_at S T so t" and hold: "tables_hold G t xs" and G: "gregorian_ok G" "iso_ok G"
  shows "\<exists>so'. loadAllReservations S G so = Inr (listed xs, so') \<and> storage_at S T so' t"
proof -
  have sql: "sql_effect ReservationAndAtomsAll [] t
      = Some (concat (map (\<lambda>x. map (\<lambda>a. res_row x @ atom_columns G a) (res_atoms x)) xs), t)"
    using select_joined_entries [OF G(2) hold, of "\<lambda>_. True" "\<lambda>_. True" "\<lambda>r. r"] by (simp add: sql_effect_def bound_types_def)
  then obtain so' where so': "query_rows S ReservationAndAtomsAll [] so
      = Inr (concat (map (\<lambda>x. map (\<lambda>a. res_row x @ atom_columns G a) (res_atoms x)) xs), so')" "storage_at S T so' t"
    using query_rows_effect [OF S at _ sql] by (auto simp: query_keys_def)
  have "list_all (entry_ok G) xs" "sorted_wrt (<) (map obj_id xs)" using hold by (auto simp: tables_hold_def list_all_iff)
  then obtain result current where "fold_res (all_row S G) (concat (map (\<lambda>x. map (\<lambda>a. res_row x @ atom_columns G a) (res_atoms x)) xs)) ([], None)
      = Inr (result, current)" "result @ opt_list current = listed xs"
    using all_rows_load [OF G, of xs None S "[]"] by (auto simp: listed_def)
  then show ?thesis using so' by (cases current) (simp_all add: loadAllReservations_def)
qed

lemma id_row_next:
  assumes G: "gregorian_ok G" "iso_ok G" and x: "entry_ok G x"
  shows "chain G (pre @ as) \<Longrightarrow> pre \<noteq> [] \<Longrightarrow> list_all (\<lambda>a. stored_atom a = a \<and> int32 (obj_id a) \<and> int32 (atom_room a)) as
    \<Longrightarrow> fold_res (id_row S G i) (map (\<lambda>a. tl (res_row x) @ atom_columns G a) as) (Some (x\<lparr>res_atoms := pre\<rparr>))
      = Inr (Some (x\<lparr>res_atoms := pre @ as\<rparr>))"
proof (induction as arbitrary: pre)
  case Nil
  then show ?case by simp
next
  case (Cons a as)
  have ch: "chain G (pre @ [a])" using Cons.prems(1) chain_append [of G "pre @ [a]" as] by simp
  have "bindr (next_row S G 1 (tl (res_row x) @ atom_columns G a) (x\<lparr>res_atoms := pre\<rparr>))
      (set_last_atom_id (readInt S (column (tl (res_row x) @ atom_columns G a) (1 + 4)))) = Inr (x\<lparr>res_atoms := pre @ [a]\<rparr>)"
    using next_row_loads [OF G _ _ _ _ _ row_of_id [of G x a], of "x\<lparr>res_atoms := pre\<rparr>" S] Cons.prems ch by simp
  then have "id_row S G i (tl (res_row x) @ atom_columns G a) (Some (x\<lparr>res_atoms := pre\<rparr>)) = Inr (Some (x\<lparr>res_atoms := pre @ [a]\<rparr>))"
    unfolding id_row_def option.case by (auto simp: bindr_def split: sum.splits)
  then show ?case using Cons.IH [of "pre @ [a]"] Cons.prems by simp
qed

lemma id_rows_load:
  assumes G: "gregorian_ok G" "iso_ok G" and x: "entry_ok G x"
  shows "fold_res (id_row S G (obj_id x)) (map (\<lambda>a. tl (res_row x) @ atom_columns G a) (res_atoms x)) None
    = Inr (if res_atoms x = [] then None else Some x)"
proof (cases "res_atoms x")
  case (Cons a as)
  have "bindr (first_row S G (obj_id x) 1 (tl (res_row x) @ atom_columns G a))
      (set_last_atom_id (readInt S (column (tl (res_row x) @ atom_columns G a) (1 + 4)))) = Inr (x\<lparr>res_atoms := [a]\<rparr>)"
    by (rule first_row_loads [OF G x Cons row_of_id])
  then have "id_row S G (obj_id x) (tl (res_row x) @ atom_columns G a) None = Inr (Some (x\<lparr>res_atoms := [a]\<rparr>))"
    unfolding id_row_def option.case by (auto simp: bindr_def split: sum.splits)
  moreover have "chain G ([a] @ as)" using x Cons by (simp add: entry_ok_def storable_def)
  moreover have "list_all (\<lambda>a. stored_atom a = a \<and> int32 (obj_id a) \<and> int32 (atom_room a)) as" using entry_atoms [OF x] Cons by simp
  moreover have "x\<lparr>res_atoms := a # as\<rparr> = x" using Cons by (cases x) simp
  ultimately show ?thesis using id_row_next [OF G x, of "[a]" as S "obj_id x"] Cons by simp
qed simp

definition entry_of :: "int \<Rightarrow> 'p reservation list \<Rightarrow> 'p reservation option" where
  "entry_of i xs = find (\<lambda>x. obj_id x = i) (listed xs)"

lemma load_by_id_effect:
  assumes S: "sql_ok S T" and at: "storage_at S T so t" and hold: "tables_hold G t xs" and G: "gregorian_ok G" "iso_ok G"
  shows "\<exists>so'. loadReservationById S G i so = Inr (entry_of i xs, so') \<and> storage_at S T so' t"
proof -
  let ?xs = "[x \<leftarrow> xs. obj_id x = i]"
  let ?rows = "concat (map (\<lambda>x. map (\<lambda>a. tl (res_row x) @ atom_columns G a) (res_atoms x)) ?xs)"
  have sql: "sql_effect ReservationAndAtomsById [SInt i] t = Some (?rows, t)"
    using select_joined_entries [OF G(2) hold, of "\<lambda>r. column r 0 = SInt i" "\<lambda>x. obj_id x = i" tl]
    by (simp add: sql_effect_def bound_types_def value_type_def res_row_def column_def)
  then obtain so' where so': "query_rows S ReservationAndAtomsById [SInt i] so = Inr (?rows, so')" "storage_at S T so' t"
    using query_rows_effect [OF S at _ sql] by (auto simp: query_keys_def)
  have ok: "list_all (entry_ok G) xs" and sorted: "sorted_wrt (<) (map obj_id xs)" using hold by (auto simp: tables_hold_def list_all_iff)
  have "fold_res (id_row S G i) ?rows None = Inr (entry_of i xs)"
    using ok sorted
  proof (induction xs)
    case Nil
    then show ?case by (simp add: entry_of_def listed_def)
  next
    case (Cons x xs)
    show ?case
    proof (cases "obj_id x = i")
      case True
      then have "i \<notin> obj_id ` set xs" using Cons.prems(2) by auto
      then have "[x \<leftarrow> xs. obj_id x = i] = []" "entry_of i xs = None"
        by (auto simp: filter_empty_conv entry_of_def find_None_iff listed_def)
      then show ?thesis using id_rows_load [OF G, of x S] Cons.prems(1) True by (auto simp: entry_of_def listed_def)
    next
      case False
      then show ?thesis using Cons by (simp add: entry_of_def listed_def)
    qed
  qed
  then show ?thesis using so' by (simp add: loadReservationById_def)
qed

section \<open>The abstract store\<close>

text \<open>
  What the storage promises of reservations: entries with fresh ids, updates of the current revision only, and
  numbered atoms.  A deleted reservation loses its atoms, which hides it from every load.
\<close>

record 'p store =
  st_entries :: "'p reservation list"
  st_lastId :: int
  st_lastAtom :: int

datatype 'p store_command = PutNew "'p reservation" | PutUpdate "'p reservation" | Remove int | RemoveAll

datatype 'p store_answer = IsStored "'p reservation" | IsUpdated bool "'p reservation" | IsDone

definition empty_store :: "'p store" where
  "empty_store = \<lparr>st_entries = [], st_lastId = 0, st_lastAtom = 0\<rparr>"

definition put_new :: "'p reservation \<Rightarrow> 'p store \<Rightarrow> 'p store_answer \<times> 'p store" where
  "put_new r st =
     (let r' = r\<lparr>obj_id := st_lastId st + 1, obj_revision := 1, res_atoms := number_atoms (st_lastAtom st) (res_atoms r)\<rparr>
      in (IsStored r', \<lparr>st_entries = st_entries st @ [stored r'], st_lastId = st_lastId st + 1,
                        st_lastAtom = st_lastAtom st + int (length (res_atoms r))\<rparr>))"

definition put_update :: "'p reservation \<Rightarrow> 'p store \<Rightarrow> 'p store_answer \<times> 'p store" where
  "put_update r st =
     (if \<exists>x \<in> set (st_entries st). obj_id x = obj_id r \<and> obj_revision x = obj_revision r
      then let r' = r\<lparr>obj_revision := obj_revision r + 1, res_atoms := number_atoms (st_lastAtom st) (res_atoms r)\<rparr>
           in (IsUpdated True r', st\<lparr>st_entries := replace_entry (obj_id r) (\<lambda>_. stored r') (st_entries st),
                                     st_lastAtom := st_lastAtom st + int (length (res_atoms r))\<rparr>)
      else (IsUpdated False r, st))"

definition spec_command :: "'p store_command \<Rightarrow> 'p store \<Rightarrow> 'p store_answer \<times> 'p store" where
  "spec_command c st =
     (case c of
        PutNew r \<Rightarrow> put_new r st
      | PutUpdate r \<Rightarrow> put_update r st
      | Remove i \<Rightarrow> (IsDone, st\<lparr>st_entries := replace_entry i (\<lambda>x. x\<lparr>res_atoms := []\<rparr>) (st_entries st)\<rparr>)
      | RemoveAll \<Rightarrow> (IsDone, empty_store))"

fun spec_commands :: "'p store_command list \<Rightarrow> 'p store \<Rightarrow> 'p store_answer list \<times> 'p store" where
  "spec_commands [] st = ([], st)"
| "spec_commands (c # cs) st =
     (let (a, st') = spec_command c st; (as, st'') = spec_commands cs st' in (a # as, st''))"

definition storage_command ::
    "'db sqlite \<Rightarrow> ('d::linorder, 'p) gregorian \<Rightarrow> 'p store_command \<Rightarrow> 'db storage \<Rightarrow> ('p store_answer \<times> 'db storage) res" where
  "storage_command S G c so =
     (case c of
        PutNew r \<Rightarrow> bindr (storeNewReservationAndAtoms S G r so) (\<lambda>(r', so'). Inr (IsStored r', so'))
      | PutUpdate r \<Rightarrow> bindr (update_reservation S G r so) (\<lambda>(ok, r', so'). Inr (IsUpdated ok r', so'))
      | Remove i \<Rightarrow> bindr (deleteReservationById S i so) (\<lambda>so'. Inr (IsDone, so'))
      | RemoveAll \<Rightarrow> Inr (IsDone, deleteAll S so))"

fun storage_commands ::
    "'db sqlite \<Rightarrow> ('d::linorder, 'p) gregorian \<Rightarrow> 'p store_command list \<Rightarrow> 'db storage \<Rightarrow> ('p store_answer list \<times> 'db storage) res" where
  "storage_commands S G [] so = Inr ([], so)"
| "storage_commands S G (c # cs) so =
     bindr (storage_command S G c so) (\<lambda>(a, so').
     bindr (storage_commands S G cs so') (\<lambda>(as, so''). Inr (a # as, so'')))"

definition command_ok :: "('d::linorder, 'p) gregorian \<Rightarrow> 'p store_command \<Rightarrow> bool" where
  "command_ok G c =
     (case c of PutNew r \<Rightarrow> storable G r | PutUpdate r \<Rightarrow> storable G r \<and> int32 (obj_revision r + 1) | _ \<Rightarrow> True)"

text \<open>The rows a command may insert.\<close>

definition command_rows :: "'p store_command \<Rightarrow> nat" where
  "command_rows c = (case c of PutNew r \<Rightarrow> Suc (length (res_atoms r)) | PutUpdate r \<Rightarrow> length (res_atoms r) | _ \<Rightarrow> 0)"

definition store_at ::
    "'db sqlite \<Rightarrow> ('db \<Rightarrow> tables) \<Rightarrow> ('d::linorder, 'p) gregorian \<Rightarrow> 'db storage \<Rightarrow> tables \<Rightarrow> 'p store \<Rightarrow> bool" where
  "store_at S T G so t st \<longleftrightarrow>
     storage_at S T so t \<and> tables_hold G t (st_entries st) \<and> tb_seq t ''h_reservation'' = st_lastId st
     \<and> tb_seq t ''h_reservation_atom'' = st_lastAtom st \<and> 0 \<le> st_lastId st \<and> 0 \<le> st_lastAtom st"

lemma store_at_erased:
  assumes S: "sql_ok S T" and at: "storage_at S T so t"
  shows "\<exists>t'. store_at S T G (deleteAll S so) t' empty_store \<and> tb_saved t' = tb_saved t"
proof -
  let ?t = "created (dropped t (rev table_names)) table_names"
  have "tables_hold G ?t []"
    by (simp add: tables_hold_def created_def dropped_def table_names_def entry_rows_def)
  then have "store_at S T G (deleteAll S so) ?t empty_store"
    using deleteAll_at [OF S at] by (simp add: store_at_def empty_store_def) (simp add: created_def dropped_def table_names_def)
  then show ?thesis by (intro exI [of _ ?t]) (simp add: created_def dropped_def)
qed

lemma store_at_opened:
  assumes S: "sql_ok S T" and opened: "sq_open S file = Some db" "T db = no_tables"
  shows "\<exists>t. store_at S T G (mk_storage S file) t empty_store"
proof -
  have "tables_hold G (created no_tables table_names) []"
    by (simp add: tables_hold_def created_def no_tables_def table_names_def entry_rows_def)
  then show ?thesis
    using mk_storage_at [OF S opened(1)] opened(2)
    by (intro exI [of _ "created no_tables table_names"]) (simp add: store_at_def empty_store_def created_def no_tables_def)
qed

lemma storage_command_refines:
  assumes S: "sql_ok S T" and at: "store_at S T G so t st" and ok: "command_ok G c"
    and room: "st_lastId st + st_lastAtom st + int (command_rows c) < 2147483648"
  shows "\<exists>so' t'. storage_command S G c so = Inr (fst (spec_command c st), so') \<and> store_at S T G so' t' (snd (spec_command c st))
    \<and> tb_saved t' = tb_saved t"
    and "st_lastId (snd (spec_command c st)) + st_lastAtom (snd (spec_command c st)) \<le> st_lastId st + st_lastAtom st + int (command_rows c)"
proof -
  have storage: "storage_at S T so t" and hold: "tables_hold G t (st_entries st)"
    and seqs: "tb_seq t ''h_reservation'' = st_lastId st" "tb_seq t ''h_reservation_atom'' = st_lastAtom st" "0 \<le> st_lastId st" "0 \<le> st_lastAtom st"
    using at by (auto simp: store_at_def)
  show "st_lastId (snd (spec_command c st)) + st_lastAtom (snd (spec_command c st)) \<le> st_lastId st + st_lastAtom st + int (command_rows c)"
    using seqs by (cases c) (simp_all add: spec_command_def put_new_def put_update_def command_rows_def empty_store_def Let_def)
  show "\<exists>so' t'. storage_command S G c so = Inr (fst (spec_command c st), so') \<and> store_at S T G so' t' (snd (spec_command c st))
    \<and> tb_saved t' = tb_saved t"
  proof (cases c)
    case (PutNew r)
    then have "storable G r" "st_lastId st + 1 < 2147483648" "st_lastAtom st + int (length (res_atoms r)) < 2147483648"
      using ok room seqs by (simp_all add: command_ok_def command_rows_def)
    then show ?thesis
      using store_reservation_effect [OF S storage hold, of r] seqs PutNew
      by (fastforce simp: storage_command_def spec_command_def put_new_def Let_def store_at_def)
  next
    case (PutUpdate r)
    then have "storable G r" "int32 (obj_revision r + 1)" "st_lastAtom st + int (length (res_atoms r)) < 2147483648"
      using ok room seqs by (simp_all add: command_ok_def command_rows_def)
    then obtain so' t' where "update_reservation S G r so = Inr (case put_update r st of (IsUpdated b r', _) \<Rightarrow> (b, r', so'))"
        "store_at S T G so' t' (snd (put_update r st))" "tb_saved t' = tb_saved t"
      using update_reservation_effect [OF S storage hold, of r] seqs
      by (fastforce simp: put_update_def Let_def store_at_def split: if_splits)
    then show ?thesis using PutUpdate
      by (auto simp: storage_command_def spec_command_def put_update_def Let_def split: if_splits)
  next
    case (Remove i)
    then show ?thesis
      using delete_reservation_effect [OF S storage hold, of i] seqs
      by (fastforce simp: storage_command_def spec_command_def store_at_def)
  next
    case RemoveAll
    then show ?thesis using store_at_erased [OF S storage, of G] by (auto simp: storage_command_def spec_command_def)
  qed
qed

lemma storage_commands_refine:
  assumes S: "sql_ok S T" 
  shows "store_at S T G so t st \<Longrightarrow> list_all (command_ok G) cs
    \<Longrightarrow> st_lastId st + st_lastAtom st + int (sum_list (map command_rows cs)) < 2147483648
    \<Longrightarrow> \<exists>so' t'. storage_commands S G cs so = Inr (fst (spec_commands cs st), so')
      \<and> store_at S T G so' t' (snd (spec_commands cs st)) \<and> tb_saved t' = tb_saved t"
proof (induction cs arbitrary: so t st)
  case Nil
  then show ?case by auto
next
  case (Cons c cs)
  have small: "st_lastId st + st_lastAtom st + int (command_rows c) < 2147483648" using Cons.prems(3) by simp
  have ok: "command_ok G c" using Cons.prems(2) by simp
  note step = storage_command_refines [OF S Cons.prems(1) ok small]
  obtain a st' where c: "spec_command c st = (a, st')" by (cases "spec_command c st")
  obtain so' t' where so': "storage_command S G c so = Inr (a, so')" "store_at S T G so' t' st'" "tb_saved t' = tb_saved t"
    using step(1) c by auto
  have "st_lastId st' + st_lastAtom st' + int (sum_list (map command_rows cs)) < 2147483648"
    using step(2) Cons.prems(3) c by simp
  then obtain so'' t'' where "storage_commands S G cs so' = Inr (fst (spec_commands cs st'), so'')"
      "store_at S T G so'' t'' (snd (spec_commands cs st'))" "tb_saved t'' = tb_saved t'"
    using Cons.IH [OF so'(2)] Cons.prems(2) by auto
  then show ?case using so' c by (auto simp: Let_def split: prod.splits)
qed

section \<open>The property\<close>

text \<open>C7 The database behaves as the abstract store: after opening an empty database file, any sequence of storing,
  updating, deleting and erasing reservations gives the answers of the store (fresh ids, revision \<open>1\<close>, updates
  only of the current revision), and then every load returns what the store lists: the reservations that have
  atoms, in the order of their ids, without owner.\<close>

theorem storage_refines_store:
  assumes "sql_ok S T" and "sq_open S file = Some db" and "T db = no_tables" and "gregorian_ok G" and "iso_ok G"
    and "list_all (command_ok G) cs" and "int (sum_list (map command_rows cs)) < 2147483648"
  shows "\<exists>so so'. storage_commands S G cs (mk_storage S file) = Inr (fst (spec_commands cs empty_store), so)
    \<and> loadAllReservations S G so = Inr (listed (st_entries (snd (spec_commands cs empty_store))), so')
    \<and> (\<forall>i. \<exists>so'. loadReservationById S G i so = Inr (entry_of i (st_entries (snd (spec_commands cs empty_store))), so'))"
proof -
  obtain t where "store_at S T G (mk_storage S file) t empty_store" using store_at_opened [OF assms(1-3)] by blast
  then obtain so t' where so: "storage_commands S G cs (mk_storage S file) = Inr (fst (spec_commands cs empty_store), so)"
      "store_at S T G so t' (snd (spec_commands cs empty_store))"
    using storage_commands_refine [OF assms(1) _ assms(6)] assms(7) by (fastforce simp: empty_store_def)
  have at: "storage_at S T so t'" and hold: "tables_hold G t' (st_entries (snd (spec_commands cs empty_store)))"
    using so(2) by (auto simp: store_at_def)
  show ?thesis
    using so(1) load_all_effect [OF assms(1) at hold assms(4,5)] load_by_id_effect [OF assms(1) at hold assms(4,5)] by blast
qed

lemma replicate_less: "m < n \<Longrightarrow> replicate m (c :: char) < replicate n c"
proof (induction m arbitrary: n)
  case (Suc m)
  then show ?case by (cases n) simp_all
qed (auto simp: gr0_conv_Suc)

lemma day_calendar_iso_ok: "iso_ok day_calendar"
  by (auto simp: iso_ok_def day_calendar_def intro!: replicate_less)

definition demo_commands :: "(int \<times> int) store_command list" where
  "demo_commands = [PutNew demo_stay, PutUpdate (demo_stay\<lparr>obj_id := 1, obj_revision := 1\<rparr>), Remove 7]"

lemma demo_commands_ok:
  "list_all (command_ok day_calendar) demo_commands" "int (sum_list (map command_rows demo_commands)) < 2147483648"
  by (simp_all add: demo_commands_def command_ok_def command_rows_def storable_def demo_stay_def mk_reservation_def mk_atom_def
      period_ok_def int32_def)

lemma table_db_opens: "sq_open table_db file = Some no_tables"
  by (simp add: table_db_def)

theorem storage_refines_store_witness:
  "\<exists>so so'. storage_commands table_db day_calendar demo_commands (mk_storage table_db []) = Inr (fst (spec_commands demo_commands empty_store), so)
    \<and> loadAllReservations table_db day_calendar so = Inr (listed (st_entries (snd (spec_commands demo_commands empty_store))), so')"
  using storage_refines_store [OF table_db_ok table_db_opens refl day_calendar_ok day_calendar_iso_ok demo_commands_ok, of "[]"]
  by blast

end
