(* ===== verification/BackendSpec.thy ===== *)
theory BackendSpec
  imports SqliteBackend StorageSpec
begin

text \<open>
  What the worker of \<open>SqliteBackend\<close> promises: a task is one transaction, and the streams of reservations
  follow the database.
\<close>

section \<open>Operations and invariants of the storage\<close>

definition write_keys :: "sql list" where
  "write_keys =
     [HotelInsert, HotelUpdate, CategoryInsert, RoomInsert, ReservationInsert, ReservationUpdate, ReservationDeleteAtoms,
      ReservationDelete, AtomInsert]"

text \<open>An invariant of the storage that writing and erasing keep is kept by every operation.\<close>

locale storage_invariant =
  fixes S :: "'db sqlite" and inv :: "'db storage \<Rightarrow> bool"
  assumes write_law: "inv so \<Longrightarrow> q \<in> set write_keys \<Longrightarrow> map value_type args = map Some (bound_types q)
      \<Longrightarrow> query_execute S q args so = Inr so' \<Longrightarrow> inv so'"
    and erase_law: "inv so \<Longrightarrow> inv (deleteAll S so)"
begin

lemmas write_simps = write_keys_def bound_types_def value_type_def bindDate_def

lemma store_categories_keeps: "store_categories S i cs so = Inr (cs', so') \<Longrightarrow> inv so \<Longrightarrow> inv so'"
proof (induction cs arbitrary: cs' so)
  case (Cons c cs)
  obtain so1 cs1 where w: "query_execute S CategoryInsert [SInt i, SText (cat_shortCode c), SText (cat_name c)] so = Inr so1"
      "store_categories S i cs so1 = Inr (cs1, so')"
    using Cons.prems(1) by auto
  then show ?case using Cons.IH [OF w(2)] write_law [OF Cons.prems(2) _ _ w(1)] by (simp add: write_simps)
qed simp

lemma store_rooms_keeps: "store_rooms S h rs so = Inr (rs', so') \<Longrightarrow> inv so \<Longrightarrow> inv so'"
proof (induction rs arbitrary: rs' so)
  case (Cons r rs)
  obtain i so1 rs1 where w: "query_execute S RoomInsert [SInt (obj_id h), SInt i, SText (room_name r)] so = Inr so1"
      "store_rooms S h rs so1 = Inr (rs1, so')"
    using Cons.prems(1) by auto
  then show ?case using Cons.IH [OF w(2)] write_law [OF Cons.prems(2) _ _ w(1)] by (simp add: write_simps)
qed simp

lemma store_atoms_keeps: "store_atoms S G i as so = Inr (as', so') \<Longrightarrow> inv so \<Longrightarrow> inv so'"
proof (induction as arbitrary: as' so)
  case (Cons a as)
  obtain so1 as1 where w: "query_execute S AtomInsert [SInt i, SInt (atom_room a), bindDate G (p_begin G (atom_range a)),
        bindDate G (p_end G (atom_range a))] so = Inr so1" "store_atoms S G i as so1 = Inr (as1, so')"
    using Cons.prems(1) by auto
  then show ?case using Cons.IH [OF w(2)] write_law [OF Cons.prems(2) _ _ w(1)] by (simp add: write_simps)
qed simp

lemma storeNewHotel_keeps:
  assumes "storeNewHotel S h so = Inr (h', so')" and "inv so"
  shows "inv so'"
proof -
  obtain so1 where w: "query_execute S HotelInsert [SText (hotel_name h)] so = Inr so1"
    and rest: "\<exists>i g cs so2 rs. store_categories S i (hotel_categories h) so1 = Inr (cs, so2) \<and> store_rooms S g (hotel_rooms h) so2 = Inr (rs, so')"
    using assms(1) by (fastforce simp: storeNewHotel_def Let_def setId_def setRevision_def)
  have "inv so1" using write_law [OF assms(2) _ _ w] by (simp add: write_simps)
  then show ?thesis using rest store_categories_keeps store_rooms_keeps by blast
qed

lemma storeNewReservation_keeps:
  assumes "storeNewReservationAndAtoms S G r so = Inr (r', so')" and "inv so"
  shows "inv so'"
proof -
  obtain status so1 i as where w: "query_execute S ReservationInsert [SText (res_description r), SText status, SInt (res_adults r),
        SInt (res_children r)] so = Inr so1" "store_atoms S G i (res_atoms r) so1 = Inr (as, so')"
    using assms(1) by (fastforce simp: storeNewReservationAndAtoms_def Let_def setId_def setRevision_def)
  have "inv so1" using write_law [OF assms(2) _ _ w(1)] by (simp add: write_simps)
  then show ?thesis using store_atoms_keeps [OF w(2)] by simp
qed

lemma update_hotel_keeps:
  assumes "update_hotel S h so = Inr (ok, h', so')" and "inv so"
  shows "inv so'"
proof -
  have w: "query_execute S HotelUpdate [SText (hotel_name h), SInt (obj_id h), SInt (obj_revision h)] so = Inr so'"
    using assms(1) by (auto simp: update_hotel_def split: if_splits)
  show ?thesis using write_law [OF assms(2) _ _ w] by (simp add: write_simps)
qed

lemma update_reservation_keeps:
  assumes "update_reservation S G r so = Inr (ok, r', so')" and "inv so"
  shows "inv so'"
proof -
  obtain status so1 where w: "query_execute S ReservationUpdate [SText (res_description r), SText status, SInt (res_adults r),
        SInt (res_children r), SInt (obj_id r), SInt (obj_revision r)] so = Inr so1"
      "so' = so1 \<or> (\<exists>so2 as. query_execute S ReservationDeleteAtoms [SInt (obj_id r)] so1 = Inr so2
         \<and> store_atoms S G (obj_id r) (res_atoms r) so2 = Inr (as, so'))"
    using assms(1) by (fastforce simp: update_reservation_def split: if_splits)
  have one: "inv so1" using write_law [OF assms(2) _ _ w(1)] by (simp add: write_simps)
  have "inv so2" if "query_execute S ReservationDeleteAtoms [SInt (obj_id r)] so1 = Inr so2" for so2
    using write_law [OF one _ _ that] by (simp add: write_simps)
  then show ?thesis using w(2) one store_atoms_keeps by blast
qed

lemma deleteReservation_keeps: "deleteReservationById S i so = Inr so' \<Longrightarrow> inv so \<Longrightarrow> inv so'"
  using write_law [of so ReservationDelete "[SInt i, SInt i]" so'] by (simp add: deleteReservationById_def write_simps)

lemma executeOperation_keeps:
  assumes "executeOperation S G store m op w = Inr (r, changes, so)" and "inv (snd w)"
  shows "inv so"
proof (cases op)
  case EraseAllData
  then show ?thesis using assms erase_law
    by (auto simp: executeOperation_def executeEraseAllData_def Let_def)
next
  case (StoreNew item)
  then show ?thesis using assms storeNewHotel_keeps storeNewReservation_keeps
    by (cases item; cases w) (fastforce simp: executeOperation_def executeStoreNew_def)+
next
  case (Update item)
  then show ?thesis using assms update_hotel_keeps update_reservation_keeps
    by (cases item; cases w) (fastforce simp: executeOperation_def executeUpdate_def split: if_splits)+
next
  case (Delete type i)
  then show ?thesis using assms deleteReservation_keeps
    by (cases type) (auto simp: executeOperation_def executeDelete_def)
qed

lemma run_operations_keeps:
  "run_operations S G store m ops w = Inr (rollback, rs, changes, so) \<Longrightarrow> inv (snd w) \<Longrightarrow> inv so"
proof (induction ops arbitrary: w rollback rs)
  case (Cons op ops)
  obtain r w' where op: "executeOperation S G store m op w = Inr (r, w')"
      "(changes, so) = w' \<or> (\<exists>rollback rs. run_operations S G store m ops w' = Inr (rollback, rs, changes, so))"
    using Cons.prems(1) by (fastforce split: if_splits)
  have "inv (snd w')" using executeOperation_keeps [of G store m op w r "fst w'" "snd w'"] op(1) Cons.prems(2) by simp
  then show ?case using op(2) Cons.IH [of w'] by auto
qed simp

end

section \<open>Transactions\<close>

text \<open>The storage is usable, and what a rollback would restore.\<close>

definition storage_saves :: "'db sqlite \<Rightarrow> ('db \<Rightarrow> tables) \<Rightarrow> ((string \<Rightarrow> sql_row list option) \<times> (string \<Rightarrow> int)) option \<Rightarrow> 'db storage \<Rightarrow> bool" where
  "storage_saves S T v so \<longleftrightarrow> (sql_ok S T \<longrightarrow> (\<exists>t. storage_at S T so t \<and> has_tables t \<and> tb_saved t = v))"

lemma insert_row_writes:
  "has_tables t \<Longrightarrow> n \<in> set table_names \<Longrightarrow> \<exists>t'. insert_row n vs t = Some ([], t') \<and> has_tables t' \<and> tb_saved t' = tb_saved t"
  by (cases "tb_rows t n") (auto simp: insert_row_def has_tables_def list_all_iff Let_def)

lemma change_rows_writes:
  "has_tables t \<Longrightarrow> n \<in> set table_names \<Longrightarrow> \<exists>t'. change_rows n P f t = Some ([], t') \<and> has_tables t' \<and> tb_saved t' = tb_saved t"
  by (cases "tb_rows t n") (auto simp: change_rows_def has_tables_def list_all_iff)

lemma write_effect:
  assumes "has_tables t" and "q \<in> set write_keys" and "map value_type args = map Some (bound_types q)"
  shows "\<exists>t'. sql_effect q args t = Some ([], t') \<and> has_tables t' \<and> tb_saved t' = tb_saved t"
  using assms(2,3) insert_row_writes [OF assms(1)] change_rows_writes [OF assms(1)]
  by (auto simp: write_keys_def sql_effect_def table_names_def)

interpretation transaction: storage_invariant S "storage_saves S T v" for S T v
proof
  fix so so' q args
  assume inv: "storage_saves S T v so" and q: "q \<in> set write_keys" "map value_type args = map Some (bound_types q)"
    and run: "query_execute S q args so = Inr so'"
  show "storage_saves S T v so'"
    unfolding storage_saves_def
  proof
    assume S: "sql_ok S T"
    obtain t where t: "storage_at S T so t" "has_tables t" "tb_saved t = v" using inv S by (auto simp: storage_saves_def)
    obtain t' where t': "sql_effect q args t = Some ([], t')" "has_tables t'" "tb_saved t' = v"
      using write_effect [OF t(2) q] t(3) by auto
    moreover have "q \<in> set query_keys" using q(1) by (auto simp: write_keys_def query_keys_def)
    ultimately show "\<exists>t. storage_at S T so' t \<and> has_tables t \<and> tb_saved t = v"
      using query_execute_effect [OF S t(1) _ t'(1)] run by auto
  qed
next
  fix so
  assume "storage_saves S T v so"
  then show "storage_saves S T v (deleteAll S so)"
    using deleteAll_at [of S T so] created_has_tables
    by (auto simp: storage_saves_def) (fastforce simp: created_def dropped_def)
qed

lemma run_operations_results:
  "run_operations S G store m ops w = Inr (rollback, rs, w') \<Longrightarrow>
     rollback = (Error \<in> task_status ` set rs) \<and> (rollback \<longrightarrow> rs \<noteq> [] \<and> task_status (last rs) = Error \<and> Error \<notin> task_status ` set (butlast rs))
     \<and> (\<not> rollback \<longrightarrow> length rs = length ops)"
proof (induction ops arbitrary: w rollback rs)
  case (Cons op ops)
  obtain r w1 where op: "executeOperation S G store m op w = Inr (r, w1)" using Cons.prems by auto
  show ?case
  proof (cases "task_status r = Error")
    case True
    then show ?thesis using Cons.prems op by auto
  next
    case False
    then obtain rs1 where "run_operations S G store m ops w1 = Inr (rollback, rs1, w')" "rs = r # rs1"
      using Cons.prems op by auto
    then show ?thesis using Cons.IH [of w1 rollback rs1] False by auto
  qed
qed simp

lemma begin_saves:
  assumes S: "sql_ok S T" and at: "storage_at S T so t" "has_tables t"
  shows "storage_at S T (beginTransaction S so) (t\<lparr>tb_saved := Some (tb_rows t, tb_seq t)\<rparr>)"
    and "storage_saves S T (Some (tb_rows t, tb_seq t)) (beginTransaction S so)"
proof -
  show one: "storage_at S T (beginTransaction S so) (t\<lparr>tb_saved := Some (tb_rows t, tb_seq t)\<rparr>)"
    using assms by (auto simp: storage_at_def beginTransaction_def on_db_def sql_ok_def)
  have "has_tables (t\<lparr>tb_saved := Some (tb_rows t, tb_seq t)\<rparr>)" using at(2) by (simp add: has_tables_def)
  then show "storage_saves S T (Some (tb_rows t, tb_seq t)) (beginTransaction S so)"
    unfolding storage_saves_def by (intro impI exI [of _ "t\<lparr>tb_saved := Some (tb_rows t, tb_seq t)\<rparr>"]) (simp add: one)
qed

lemma commit_at:
  "sql_ok S T \<Longrightarrow> storage_at S T so t \<Longrightarrow> storage_at S T (commitTransaction S so) (t\<lparr>tb_saved := None\<rparr>)"
  by (auto simp: storage_at_def commitTransaction_def on_db_def sql_ok_def)

lemma rollback_at:
  "sql_ok S T \<Longrightarrow> storage_at S T so t \<Longrightarrow> tb_saved t = Some (rows, sq)
    \<Longrightarrow> storage_at S T (rollbackTransaction S so) (t\<lparr>tb_rows := rows, tb_seq := sq, tb_saved := None\<rparr>)"
  by (auto simp: storage_at_def rollbackTransaction_def on_db_def sql_ok_def)

section \<open>Atomic tasks\<close>

text \<open>C4 A task is one transaction.  Whatever its operations are, the worker resolves its promise once, with the
  results up to the first error, and leaves no transaction open.  With an error, every table and every id counter
  is what it was before the task and no stream hears of it; without one, each operation has its result and the
  changes of all of them enter the queue, in order.\<close>

theorem worker_task_atomic:
  assumes "sql_ok S T" and "storage_at S T (sb_storage b) t" and "has_tables t"
    and "sb_tasks b = (operations, promise) # tasks" and "worker_task S G store b = Inr b'"
  shows "\<exists>rollback results changes so t'.
      run_operations S G store (sb_streams b) operations ([], beginTransaction S (sb_storage b)) = Inr (rollback, results, changes, so)
    \<and> sb_resolved b' = sb_resolved b @ [(promise, results)] \<and> sb_tasks b' = tasks
    \<and> storage_at S T (sb_storage b') t' \<and> has_tables t' \<and> tb_saved t' = None
    \<and> (if Error \<in> task_status ` set results
       then tb_rows t' = tb_rows t \<and> tb_seq t' = tb_seq t \<and> sb_changeQueue b' = sb_changeQueue b
         \<and> task_status (last results) = Error \<and> Error \<notin> task_status ` set (butlast results)
       else length results = length operations \<and> cq_pending (sb_changeQueue b') = cq_pending (sb_changeQueue b) @ changes)"
proof -
  obtain rollback results changes so where
      run: "run_operations S G store (sb_streams b) operations ([], beginTransaction S (sb_storage b)) = Inr (rollback, results, changes, so)"
    and b': "b' = b\<lparr>sb_tasks := tasks,
                     sb_storage := (if rollback then rollbackTransaction S so else commitTransaction S so),
                     sb_changeQueue := (if rollback then sb_changeQueue b else addChanges changes (sb_changeQueue b)),
                     sb_resolved := sb_resolved b @ [(promise, results)]\<rparr>"
    using assms(4,5) by (auto simp: worker_task_def)
  have "storage_saves S T (Some (tb_rows t, tb_seq t)) so"
    using transaction.run_operations_keeps [OF run, of T] begin_saves(2) [OF assms(1-3)] by simp
  then obtain t1 where t1: "storage_at S T so t1" "has_tables t1" "tb_saved t1 = Some (tb_rows t, tb_seq t)"
    using assms(1) by (auto simp: storage_saves_def)
  have rb: "storage_at S T (rollbackTransaction S so) (t1\<lparr>tb_rows := tb_rows t, tb_seq := tb_seq t, tb_saved := None\<rparr>)"
    using rollback_at [OF assms(1) t1(1,3)] .
  have cm: "storage_at S T (commitTransaction S so) (t1\<lparr>tb_saved := None\<rparr>)" using commit_at [OF assms(1) t1(1)] .
  note results = run_operations_results [OF run]
  show ?thesis
  proof (cases rollback)
    case True
    then show ?thesis using run b' rb results assms(3)
      by (intro exI [of _ rollback] exI [of _ results] exI [of _ changes] exI [of _ so]
            exI [of _ "t1\<lparr>tb_rows := tb_rows t, tb_seq := tb_seq t, tb_saved := None\<rparr>"]) (simp add: has_tables_def)
  next
    case False
    then show ?thesis using run b' cm results t1(2)
      by (intro exI [of _ rollback] exI [of _ results] exI [of _ changes] exI [of _ so]
            exI [of _ "t1\<lparr>tb_saved := None\<rparr>"]) (simp add: has_tables_def addChanges_def)
  qed
qed

definition demo_backend :: "(int \<times> int, tables) backend" where
  "demo_backend = (mk_backend table_db [])\<lparr>sb_tasks := [([EraseAllData, StoreNew (PersonItem (mk_person ''A'' ''B''))], 4)]\<rparr>"

lemma demo_backend_at: "storage_at table_db (\<lambda>t. t) (sb_storage demo_backend) (created no_tables table_names)"
  using mk_storage_at [OF table_db_ok table_db_opens, of "[]"] by (simp add: demo_backend_def mk_backend_def)

lemma demo_backend_runs:
  "\<exists>b'. worker_task table_db day_calendar H demo_backend = Inr b'
    \<and> sb_resolved b' = [(4, [successful JNull, failed ''Not implemented yet!''])]"
  by (simp add: worker_task_def demo_backend_def mk_backend_def executeOperation_def executeEraseAllData_def executeStoreNew_def
      manager_clear_def foreachStream_def successful_def failed_def Let_def)

theorem worker_task_atomic_witness:
  "\<exists>b' t'. worker_task table_db day_calendar (\<lambda>_. mk_data_stream NullStream [] JNull) demo_backend = Inr b'
    \<and> storage_at table_db (\<lambda>t. t) (sb_storage b') t' \<and> tb_rows t' = tb_rows (created no_tables table_names)
    \<and> sb_changeQueue b' = empty_queue"
proof -
  obtain b' where b': "worker_task table_db day_calendar (\<lambda>_. mk_data_stream NullStream [] JNull) demo_backend = Inr b'"
      "sb_resolved b' = [(4, [successful JNull, failed ''Not implemented yet!''])]"
    using demo_backend_runs by blast
  show ?thesis
    using worker_task_atomic [OF table_db_ok demo_backend_at created_has_tables _ b'(1)] b'
    by (fastforce simp: demo_backend_def mk_backend_def successful_def failed_def)
qed

end
