(* ===== verification/BackendMirror.thy ===== *)
theory BackendMirror
  imports BackendSpec
begin

text \<open>
  What a client sees of the database: the changes the worker queues for a default stream of reservations, applied
  by the observer, give the reservations that loading would give.
\<close>

section \<open>What the streams are told\<close>

definition serves :: "data_stream \<Rightarrow> bool" where
  "serves ds =
     (case findHandler ds of
        None \<Rightarrow> False
      | Some DefaultHandler \<Rightarrow> True
      | Some SingleIdHandler \<Rightarrow> (case int_at (ds_options ds) ''id'' of Inl _ \<Rightarrow> False | Inr _ \<Rightarrow> True))"

definition emits :: "stream_type \<Rightarrow> (handler \<Rightarrow> data_stream \<Rightarrow> 'p differential list res) \<Rightarrow> data_stream \<Rightarrow> 'p differential list" where
  "emits type f ds =
     (if ds_type ds = type
      then case findHandler ds of None \<Rightarrow> [] | Some hl \<Rightarrow> (case f hl ds of Inl _ \<Rightarrow> [] | Inr new \<Rightarrow> new)
      else [])"

text \<open>A callback that succeeds on served streams and speaks of its own stream only.\<close>

definition own_callback :: "(handler \<Rightarrow> data_stream \<Rightarrow> 'p differential list res) \<Rightarrow> bool" where
  "own_callback f \<longleftrightarrow>
     (\<forall>ds hl. findHandler ds = Some hl \<longrightarrow> serves ds \<longrightarrow> (\<exists>new. f hl ds = Inr new \<and> fst ` set new \<subseteq> {ds_id ds}))"

lemma callbacks_own:
  "own_callback (\<lambda>hl ds. handler_addItems hl ds items)" "own_callback (\<lambda>hl ds. handler_updateItems hl ds items)"
  "own_callback (\<lambda>hl ds. handler_removeItems hl ds ids)" "own_callback handler_clear"
  by (auto simp: own_callback_def serves_def handler_addItems_def handler_updateItems_def handler_removeItems_def handler_clear_def Let_def
      simp del: bindr_eq_Inr split: handler.splits sum.splits)

lemma foreach_emits:
  assumes "own_callback f" and "\<And>s. s \<in> set (sm_active m) \<Longrightarrow> serves (H s)"
  shows "foreachStream H type f m changes = Inr (changes @ concat (map (\<lambda>s. emits type f (H s)) (sm_active m)))"
  using assms(2) unfolding foreachStream_def
proof (induction "sm_active m" arbitrary: m changes)
  case Nil
  then show ?case by simp
next
  case (Cons s ss)
  let ?step = "\<lambda>s changes. case findHandler (H s) of None \<Rightarrow> Inl AssertFailed
      | Some hl \<Rightarrow> if ds_type (H s) = type then bindr (f hl (H s)) (\<lambda>new. Inr (changes @ new)) else Inr changes"
  have s: "serves (H s)" using Cons.prems [of s] Cons.hyps(2) by (metis list.set_intros(1))
  then obtain hl where hl: "findHandler (H s) = Some hl" by (auto simp: serves_def split: option.splits)
  obtain new where "f hl (H s) = Inr new" using assms(1) hl s unfolding own_callback_def by meson
  then have "?step s changes = Inr (changes @ emits type f (H s))" using hl by (simp add: emits_def)
  moreover have "fold_res ?step ss (changes @ emits type f (H s))
      = Inr ((changes @ emits type f (H s)) @ concat (map (\<lambda>s. emits type f (H s)) ss))"
    using Cons.hyps(1) [of "m\<lparr>sm_active := ss\<rparr>"] Cons.prems Cons.hyps(2) [symmetric] by simp
  ultimately show ?case by (simp add: Cons.hyps(2) [symmetric])
qed

lemma changes_for_append [simp]: "changes_for i (xs @ ys) = changes_for i xs @ changes_for i ys"
  by (simp add: changes_for_def)

lemma emits_own:
  assumes "own_callback f" and "serves ds"
  shows "fst ` set (emits type f ds) \<subseteq> {ds_id ds}"
proof -
  obtain hl where hl: "findHandler ds = Some hl" using assms(2) by (auto simp: serves_def split: option.splits)
  then obtain new where "f hl ds = Inr new" "fst ` set new \<subseteq> {ds_id ds}" using assms unfolding own_callback_def by meson
  then show ?thesis by (simp only: emits_def hl option.case sum.case) auto
qed

lemma changes_for_emits:
  assumes "own_callback f"
  shows "\<forall>s \<in> set ss. serves (H s) \<Longrightarrow> distinct (map (\<lambda>s. ds_id (H s)) ss) \<Longrightarrow> s0 \<in> set ss
    \<Longrightarrow> changes_for (ds_id (H s0)) (concat (map (\<lambda>s. emits type f (H s)) ss)) = map snd (emits type f (H s0))"
proof (induction ss)
  case (Cons s ss)
  have own: "fst ` set (emits type f (H s)) \<subseteq> {ds_id (H s)}" using emits_own [OF assms, of "H s"] Cons.prems(1) by simp
  show ?case
  proof (cases "s = s0")
    case True
    have "changes_for (ds_id (H s0)) (concat (map (\<lambda>s. emits type f (H s)) ss)) = []"
      using Cons.prems True emits_own [OF assms]
      by (auto simp: changes_for_def filter_empty_conv) (metis image_eqI image_subset_iff singletonD fst_conv)
    moreover have "changes_for (ds_id (H s0)) (emits type f (H s)) = map snd (emits type f (H s0))"
      using own True by (auto simp: changes_for_def intro!: arg_cong [where f = "map snd"] filter_True)
    ultimately show ?thesis by simp
  next
    case False
    then have "ds_id (H s) \<noteq> ds_id (H s0)" using Cons.prems by auto
    then have "changes_for (ds_id (H s0)) (emits type f (H s)) = []"
      using own by (auto simp: changes_for_def filter_empty_conv)
    then show ?thesis using Cons False by simp
  qed
qed simp

text \<open>The streams of a backend, and a default stream of reservations among the active ones.\<close>

definition streams_served :: "(nat \<Rightarrow> data_stream) \<Rightarrow> nat list \<Rightarrow> bool" where
  "streams_served H ss \<longleftrightarrow> list_all (\<lambda>s. serves (H s)) ss \<and> distinct (map (\<lambda>s. ds_id (H s)) ss)"

definition reservation_default :: "data_stream \<Rightarrow> bool" where
  "reservation_default ds \<longleftrightarrow> ds_type ds = ReservationStream \<and> ds_endpoint ds = []"

lemma told:
  assumes "own_callback f" and "streams_served H (sm_active m)" and "s \<in> set (sm_active m)"
  shows "\<exists>new. foreachStream H type f m changes = Inr (changes @ new) \<and> changes_for (ds_id (H s)) new = map snd (emits type f (H s))"
  using assms changes_for_emits [OF assms(1), of "sm_active m" H s type] foreach_emits [OF assms(1), of m H type changes]
  by (auto simp: streams_served_def list_all_iff)

lemma default_emits:
  assumes "reservation_default ds"
  shows "map snd (emits ReservationStream (\<lambda>hl ds. handler_addItems hl ds items) ds) = [ItemsAdded items]"
    and "map snd (emits ReservationStream (\<lambda>hl ds. handler_updateItems hl ds items) ds) = [ItemsUpdated items]"
    and "map snd (emits ReservationStream (\<lambda>hl ds. handler_removeItems hl ds ids) ds) = [ItemsRemoved ids]"
    and "map snd (emits ReservationStream handler_clear ds) = [Cleared]" and "emits HotelStream f ds = []"
  using assms by (simp_all add: emits_def reservation_default_def findHandler_def handler_addItems_def handler_updateItems_def
      handler_removeItems_def handler_clear_def)

section \<open>Views\<close>

text \<open>A map of items shows a store when it is what the store lists, up to what the database forgets.\<close>

definition shows_store :: "'p store \<Rightarrow> (int \<rightharpoonup> 'p reservation) \<Rightarrow> bool" where
  "shows_store st m \<longleftrightarrow> (\<forall>i. map_option stored (m i) = entry_of i (st_entries st))"

lemma items_map_find: "items_map xs i = find (\<lambda>x. obj_id x = i) xs"
  by (induction xs) (auto simp: items_map_def)

lemma entry_of_append: "entry_of i (xs @ ys) = (case entry_of i xs of None \<Rightarrow> entry_of i ys | Some x \<Rightarrow> Some x)"
  by (induction xs) (auto simp: entry_of_def listed_def)

lemma entry_of_Nil [simp]: "entry_of i [] = None"
  by (simp add: entry_of_def listed_def)

lemma entry_of_Cons: "entry_of i (x # xs) = (if res_atoms x \<noteq> [] \<and> obj_id x = i then Some x else entry_of i xs)"
  by (simp add: entry_of_def listed_def)

lemma entry_of_clear:
  "entry_of j (replace_entry i (\<lambda>x. x\<lparr>res_atoms := []\<rparr>) xs) = (if j = i then None else entry_of j xs)"
  by (induction xs) (auto simp: entry_of_Cons replace_entry_def)

lemma entry_of_replace:
  assumes "res_atoms y \<noteq> []" and "obj_id y = i"
  shows "entry_of j (replace_entry i (\<lambda>_. y) xs) = (if j = i \<and> i \<in> obj_id ` set xs then Some y else entry_of j xs)"
  using assms by (induction xs) (auto simp: entry_of_Cons replace_entry_def)

lemma entry_of_listed: "x \<in> set xs \<Longrightarrow> res_atoms x \<noteq> [] \<Longrightarrow> entry_of (obj_id x) xs \<noteq> None"
  by (induction xs) (auto simp: entry_of_Cons)

lemma number_atoms_empty: "number_atoms i as = [] \<longleftrightarrow> as = []"
  by (cases as) simp_all

lemma shows_put_new:
  assumes "shows_store st m" and "res_atoms r \<noteq> []" and "put_new r st = (IsStored r', st')"
  shows "shows_store st' (mirror_step (ItemsAdded (ReservationItems [r'])) m)"
proof -
  have st': "st_entries st' = st_entries st @ [stored r']" and ne: "res_atoms r' \<noteq> []"
    using assms(2,3) by (auto simp: put_new_def Let_def number_atoms_empty)
  show ?thesis
    unfolding shows_store_def
  proof
    fix i
    have "map_option stored (m i) = entry_of i (st_entries st)" using assms(1) by (simp add: shows_store_def)
    then show "map_option stored (mirror_step (ItemsAdded (ReservationItems [r'])) m i) = entry_of i (st_entries st')"
      using ne by (cases "m i") (auto simp: st' mirror_step_def entry_of_append entry_of_Cons map_add_def items_map_find dest: sym)
  qed
qed

text \<open>Updating a deleted reservation would bring it back in the database, but in no stream.\<close>

definition visible :: "'p store_command \<Rightarrow> 'p store \<Rightarrow> bool" where
  "visible c st =
     (case c of
        PutNew r \<Rightarrow> res_atoms r \<noteq> []
      | PutUpdate r \<Rightarrow> res_atoms r \<noteq> [] \<and> list_all (\<lambda>x. obj_id x = obj_id r \<longrightarrow> res_atoms x \<noteq> []) (st_entries st)
      | _ \<Rightarrow> True)"

lemma shows_put_update:
  assumes "shows_store st m" and "visible (PutUpdate r) st" and "put_update r st = (IsUpdated True r', st')"
  shows "shows_store st' (mirror_step (ItemsUpdated (ReservationItems [r'])) m)"
proof -
  obtain x where x: "x \<in> set (st_entries st)" "obj_id x = obj_id r"
    using assms(3) by (auto simp: put_update_def split: if_splits)
  have st': "st_entries st' = replace_entry (obj_id r) (\<lambda>_. stored r') (st_entries st)" and r': "obj_id r' = obj_id r" "res_atoms r' \<noteq> []"
    using assms(2,3) by (auto simp: put_update_def Let_def visible_def number_atoms_empty split: if_splits)
  have "entry_of (obj_id r) (st_entries st) \<noteq> None"
    using entry_of_listed [OF x(1)] x assms(2) by (auto simp: visible_def list_all_iff)
  then have "obj_id r \<in> dom m" using assms(1) by (metis domIff option.simps(8) shows_store_def)
  moreover have "entry_of j (st_entries st') = (if j = obj_id r then Some (stored r') else entry_of j (st_entries st))" for j
  proof -
    have "obj_id r \<in> obj_id ` set (st_entries st)" using x by (metis imageI)
    then show ?thesis using entry_of_replace [of "stored r'" "obj_id r" j "st_entries st"] r' by (simp add: st')
  qed
  ultimately show ?thesis using assms(1) r' by (simp add: shows_store_def mirror_step_def update_one_def)
qed

lemma shows_remove:
  "shows_store st m \<Longrightarrow> shows_store (st\<lparr>st_entries := replace_entry i (\<lambda>x. x\<lparr>res_atoms := []\<rparr>) (st_entries st)\<rparr>) (mirror_step (ItemsRemoved [i]) m)"
  by (auto simp: shows_store_def mirror_step_def entry_of_clear restrict_map_def)

lemma shows_empty: "shows_store empty_store Map.empty"
  by (simp add: shows_store_def empty_store_def)

section \<open>Operations on the store\<close>

definition to_operation :: "'p store_command \<Rightarrow> 'p operation" where
  "to_operation c =
     (case c of
        PutNew r \<Rightarrow> StoreNew (ReservationItem r)
      | PutUpdate r \<Rightarrow> Update (ReservationItem r)
      | Remove i \<Rightarrow> Delete ReservationType i
      | RemoveAll \<Rightarrow> EraseAllData)"

text \<open>The abstract operation: an update fails without an id and when its revision is not the current one.\<close>

definition spec_operation :: "'p store_command \<Rightarrow> 'p store \<Rightarrow> 'p store option" where
  "spec_operation c st =
     (case c of
        PutUpdate r \<Rightarrow>
          (if obj_id r = 0 then None
           else case put_update r st of (IsUpdated True _, st') \<Rightarrow> Some st' | _ \<Rightarrow> None)
      | _ \<Rightarrow> Some (snd (spec_command c st)))"

text \<open>What a default stream of reservations is told of an operation that succeeds.\<close>

definition told_change :: "'p store_command \<Rightarrow> 'p store \<Rightarrow> 'p change list" where
  "told_change c st =
     (case c of
        PutNew r \<Rightarrow> (case put_new r st of (IsStored r', _) \<Rightarrow> [ItemsAdded (ReservationItems [r'])] | _ \<Rightarrow> [])
      | PutUpdate r \<Rightarrow> (case put_update r st of (IsUpdated True r', _) \<Rightarrow> [ItemsUpdated (ReservationItems [r'])] | _ \<Rightarrow> [])
      | Remove i \<Rightarrow> [ItemsRemoved [i]]
      | RemoveAll \<Rightarrow> [Cleared])"

lemma put_update_cases: "\<exists>ok r' st'. put_update r st = (IsUpdated ok r', st')"
  by (cases "\<exists>x \<in> set (st_entries st). obj_id x = obj_id r \<and> obj_revision x = obj_revision r") (simp_all only: put_update_def if_True if_False Let_def prod.inject store_answer.inject, blast+)

lemma operation_refines:
  assumes S: "sql_ok S T" and at: "store_at S T G so t st" and c: "command_ok G c" "visible c st"
    and room: "st_lastId st + st_lastAtom st + int (command_rows c) < 2147483648"
    and served: "streams_served H (sm_active m)" and s: "s \<in> set (sm_active m)" "reservation_default (H s)"
  shows "\<exists>r new so' t'. executeOperation S G H m (to_operation c) (changes, so) = Inr (r, changes @ new, so')
    \<and> tb_saved t' = tb_saved t
    \<and> (case spec_operation c st of
         None \<Rightarrow> task_status r = Error \<and> store_at S T G so' t' st
       | Some st' \<Rightarrow> task_status r \<noteq> Error \<and> store_at S T G so' t' st' \<and> changes_for (ds_id (H s)) new = told_change c st
           \<and> list_all reservation_change (changes_for (ds_id (H s)) new)
           \<and> (\<forall>v. shows_store st v \<longrightarrow> shows_store st' (fold mirror_step (changes_for (ds_id (H s)) new) v)))"
proof -
  note step = storage_command_refines(1) [OF S at c(1) room]
  note tell = told [OF _ served s(1)]
  show ?thesis
  proof (cases c)
    case (PutNew r)
    obtain r' st' where p: "put_new r st = (IsStored r', st')" by (auto simp: put_new_def Let_def)
    obtain so' t' where so': "storeNewReservationAndAtoms S G r so = Inr (r', so')" "store_at S T G so' t' st'" "tb_saved t' = tb_saved t"
      using step PutNew p by (auto simp: storage_command_def spec_command_def)
    obtain new where "manager_addItems H ReservationStream (ReservationItems [r']) m changes = Inr (changes @ new)"
        "changes_for (ds_id (H s)) new = [ItemsAdded (ReservationItems [r'])]"
      using tell [OF callbacks_own(1)] default_emits(1) [OF s(2)] unfolding manager_addItems_def by metis
    then show ?thesis
      using so' PutNew p shows_put_new [of st _ r r' st'] c(2)
      by (auto simp: to_operation_def executeOperation_def executeStoreNew_def spec_operation_def spec_command_def successful_def
          reservation_change_def visible_def told_change_def)
  next
    case (PutUpdate r)
    show ?thesis
    proof (cases "obj_id r = 0")
      case True
      then show ?thesis using PutUpdate at
        by (auto simp: to_operation_def executeOperation_def executeUpdate_def spec_operation_def failed_def intro!: exI [of _ "[]"] exI [of _ t])
    next
      case False
      obtain ok r' st' where p: "put_update r st = (IsUpdated ok r', st')" using put_update_cases by blast
      obtain so' t' where so': "update_reservation S G r so = Inr (ok, r', so')" "store_at S T G so' t' st'" "tb_saved t' = tb_saved t"
        using step PutUpdate p by (auto simp: storage_command_def spec_command_def)
      show ?thesis
      proof (cases ok)
        case True
        obtain new where "manager_updateItems H ReservationStream (ReservationItems [r']) m changes = Inr (changes @ new)"
            "changes_for (ds_id (H s)) new = [ItemsUpdated (ReservationItems [r'])]"
          using tell [OF callbacks_own(2)] default_emits(2) [OF s(2)] unfolding manager_updateItems_def by metis
        then show ?thesis
          using so' PutUpdate p True False shows_put_update [of st _ r r' st'] c(2)
          by (auto simp: to_operation_def executeOperation_def executeUpdate_def spec_operation_def successful_def reservation_change_def
              told_change_def)
      next
        case ok: False
        then have "st' = st" using p by (auto simp: put_update_def Let_def split: if_splits)
        then show ?thesis using so' PutUpdate p ok False
          by (auto simp: to_operation_def executeOperation_def executeUpdate_def spec_operation_def failed_def intro!: exI [of _ "[]"])
      qed
    qed
  next
    case (Remove i)
    let ?st = "st\<lparr>st_entries := replace_entry i (\<lambda>x. x\<lparr>res_atoms := []\<rparr>) (st_entries st)\<rparr>"
    obtain so' t' where so': "deleteReservationById S i so = Inr so'" "store_at S T G so' t' ?st" "tb_saved t' = tb_saved t"
      using step Remove by (auto simp: storage_command_def spec_command_def)
    obtain new where "manager_removeItems H ReservationStream [i] m changes = Inr (changes @ new)"
        "changes_for (ds_id (H s)) new = [ItemsRemoved [i]]"
      using tell [OF callbacks_own(3)] default_emits(3) [OF s(2)] unfolding manager_removeItems_def by metis
    then show ?thesis
      using so' Remove shows_remove [of st _ i]
      by (auto simp: to_operation_def executeOperation_def executeDelete_def spec_operation_def spec_command_def successful_def reservation_change_def
          told_change_def)
  next
    case RemoveAll
    obtain so' t' where so': "deleteAll S so = so'" "store_at S T G so' t' empty_store" "tb_saved t' = tb_saved t"
      using step RemoveAll by (auto simp: storage_command_def spec_command_def)
    obtain new where new: "manager_clear H ReservationStream m changes = Inr (changes @ new)" "changes_for (ds_id (H s)) new = [Cleared]"
      using tell [OF callbacks_own(4)] default_emits(4) [OF s(2)] unfolding manager_clear_def by metis
    obtain more where "manager_clear H HotelStream m (changes @ new) = Inr ((changes @ new) @ more)" "changes_for (ds_id (H s)) more = []"
      using tell [OF callbacks_own(4), of HotelStream "changes @ new"] default_emits(5) [OF s(2), of handler_clear]
      unfolding manager_clear_def by auto
    then show ?thesis
      using so' RemoveAll new shows_empty
      by (auto simp: to_operation_def executeOperation_def executeEraseAllData_def spec_operation_def spec_command_def successful_def
          reservation_change_def mirror_step_def told_change_def intro!: exI [of _ "new @ more"])
  qed
qed

section \<open>Tasks on the store\<close>

fun spec_task :: "'p store_command list \<Rightarrow> 'p store \<Rightarrow> 'p store option" where
  "spec_task [] st = Some st"
| "spec_task (c # cs) st = (case spec_operation c st of None \<Rightarrow> None | Some st' \<Rightarrow> spec_task cs st')"

fun told_operations :: "'p store_command list \<Rightarrow> 'p store \<Rightarrow> 'p change list" where
  "told_operations [] st = []"
| "told_operations (c # cs) st = told_change c st @ (case spec_operation c st of None \<Rightarrow> [] | Some st' \<Rightarrow> told_operations cs st')"

text \<open>A task that fails is rolled back, and no stream is told of it.\<close>

definition told_task :: "'p store_command list \<Rightarrow> 'p store \<Rightarrow> 'p change list" where
  "told_task cs st = (if spec_task cs st = None then [] else told_operations cs st)"

definition after_task :: "'p store_command list \<Rightarrow> 'p store \<Rightarrow> 'p store" where
  "after_task cs st = (case spec_task cs st of None \<Rightarrow> st | Some st' \<Rightarrow> st')"

fun visible_task :: "'p store_command list \<Rightarrow> 'p store \<Rightarrow> bool" where
  "visible_task [] st \<longleftrightarrow> True"
| "visible_task (c # cs) st \<longleftrightarrow> visible c st \<and> (case spec_operation c st of None \<Rightarrow> True | Some st' \<Rightarrow> visible_task cs st')"

definition task_rows :: "'p store_command list \<Rightarrow> int" where
  "task_rows cs = int (sum_list (map command_rows cs))"

lemma spec_operation_bound:
  "spec_operation c st = Some st' \<Longrightarrow> 0 \<le> st_lastId st \<Longrightarrow> 0 \<le> st_lastAtom st \<Longrightarrow>
     st_lastId st' + st_lastAtom st' \<le> st_lastId st + st_lastAtom st + int (command_rows c)"
  by (cases c) (auto simp: spec_operation_def spec_command_def put_new_def put_update_def command_rows_def empty_store_def Let_def
      split: if_splits)

lemma operations_refine:
  assumes S: "sql_ok S T" and served: "streams_served H (sm_active m)" and s: "s \<in> set (sm_active m)" "reservation_default (H s)"
  shows "store_at S T G so t st \<Longrightarrow> list_all (command_ok G) cs \<Longrightarrow> visible_task cs st
    \<Longrightarrow> st_lastId st + st_lastAtom st + task_rows cs < 2147483648
    \<Longrightarrow> \<exists>rollback rs new so' t' st'. run_operations S G H m (map to_operation cs) (changes, so) = Inr (rollback, rs, changes @ new, so')
      \<and> tb_saved t' = tb_saved t \<and> store_at S T G so' t' st' \<and> rollback = (spec_task cs st = None)
      \<and> (\<not> rollback \<longrightarrow> spec_task cs st = Some st' \<and> changes_for (ds_id (H s)) new = told_operations cs st
          \<and> list_all reservation_change (changes_for (ds_id (H s)) new)
          \<and> (\<forall>v. shows_store st v \<longrightarrow> shows_store st' (fold mirror_step (changes_for (ds_id (H s)) new) v)))"
proof (induction cs arbitrary: so t st changes)
  case Nil
  show ?case by (rule exI [of _ False], rule exI [of _ "[]"], rule exI [of _ "[]"], rule exI [of _ so], rule exI [of _ t], rule exI [of _ st])
      (simp add: Nil changes_for_def)
next
  case (Cons c cs)
  have pos: "0 \<le> st_lastId st" "0 \<le> st_lastAtom st" using Cons.prems(1) by (simp_all add: store_at_def)
  have small: "st_lastId st + st_lastAtom st + int (command_rows c) < 2147483648"
    and c: "command_ok G c" "visible c st" using Cons.prems by (simp_all add: task_rows_def)
  obtain r new so1 t1 where op: "executeOperation S G H m (to_operation c) (changes, so) = Inr (r, changes @ new, so1)"
      "tb_saved t1 = tb_saved t"
    and res: "case spec_operation c st of
         None \<Rightarrow> task_status r = Error \<and> store_at S T G so1 t1 st
       | Some st' \<Rightarrow> task_status r \<noteq> Error \<and> store_at S T G so1 t1 st' \<and> changes_for (ds_id (H s)) new = told_change c st \<and> list_all reservation_change (changes_for (ds_id (H s)) new)
           \<and> (\<forall>v. shows_store st v \<longrightarrow> shows_store st' (fold mirror_step (changes_for (ds_id (H s)) new) v))"
    using operation_refines [OF S Cons.prems(1) c small served s, of changes] by blast
  show ?case
  proof (cases "spec_operation c st")
    case None
    then show ?thesis using op res
      by (intro exI [of _ True] exI [of _ "[r]"] exI [of _ new] exI [of _ so1] exI [of _ t1] exI [of _ st]) simp
  next
    case (Some st1)
    have one: "task_status r \<noteq> Error" "store_at S T G so1 t1 st1" "list_all reservation_change (changes_for (ds_id (H s)) new)"
        "\<And>v. shows_store st v \<Longrightarrow> shows_store st1 (fold mirror_step (changes_for (ds_id (H s)) new) v)"
        "changes_for (ds_id (H s)) new = told_change c st"
      using res Some by auto
    have "visible_task cs st1" "list_all (command_ok G) cs" using Cons.prems Some by simp_all
    moreover have "st_lastId st1 + st_lastAtom st1 + task_rows cs < 2147483648"
      using spec_operation_bound [OF Some pos] Cons.prems(4) by (simp add: task_rows_def)
    ultimately obtain rollback rs new1 so2 t2 st2 where
        run: "run_operations S G H m (map to_operation cs) (changes @ new, so1) = Inr (rollback, rs, (changes @ new) @ new1, so2)"
        "tb_saved t2 = tb_saved t1" "store_at S T G so2 t2 st2" "rollback = (spec_task cs st1 = None)"
        "\<not> rollback \<longrightarrow> spec_task cs st1 = Some st2 \<and> changes_for (ds_id (H s)) new1 = told_operations cs st1 \<and> list_all reservation_change (changes_for (ds_id (H s)) new1)
          \<and> (\<forall>v. shows_store st1 v \<longrightarrow> shows_store st2 (fold mirror_step (changes_for (ds_id (H s)) new1) v))"
      using Cons.IH [OF one(2), of "changes @ new"] by blast
    have "run_operations S G H m (map to_operation (c # cs)) (changes, so) = Inr (rollback, r # rs, changes @ (new @ new1), so2)"
      using op(1) one(1) run(1) by simp
    then show ?thesis using op(2) run(2-5) one(3-5) Some
      by (intro exI [of _ rollback] exI [of _ "r # rs"] exI [of _ "new @ new1"] exI [of _ so2] exI [of _ t2] exI [of _ st2])
         (auto simp: fold_append)
  qed
qed

lemma store_at_cong:
  assumes "store_at S T G so t st" and "storage_at S T so' t'" and "tb_rows t' = tb_rows t" and "tb_seq t' = tb_seq t"
  shows "store_at S T G so' t' st"
proof -
  have "tables_hold G t' (st_entries st) = tables_hold G t (st_entries st)" by (simp add: tables_hold_def assms(3,4))
  then show ?thesis using assms by (simp add: store_at_def)
qed

lemma task_refines:
  assumes S: "sql_ok S T" and at: "store_at S T G (sb_storage b) t st" and ok: "list_all (command_ok G) cs" "visible_task cs st"
    and room: "st_lastId st + st_lastAtom st + task_rows cs < 2147483648"
    and served: "streams_served H (sm_active (sb_streams b))" and s: "s \<in> set (sm_active (sb_streams b))" "reservation_default (H s)"
    and task: "sb_tasks b = (map to_operation cs, promise) # tasks"
  shows "\<exists>b' t' new. worker_task S G H b = Inr b' \<and> sb_tasks b' = tasks \<and> sb_streams b' = sb_streams b
    \<and> store_at S T G (sb_storage b') t' (after_task cs st)
    \<and> cq_pending (sb_changeQueue b') = cq_pending (sb_changeQueue b) @ new \<and> changes_for (ds_id (H s)) new = told_task cs st
    \<and> list_all reservation_change (changes_for (ds_id (H s)) new)
    \<and> (\<forall>v. shows_store st v \<longrightarrow> shows_store (after_task cs st) (fold mirror_step (changes_for (ds_id (H s)) new) v))"
proof -
  let ?t = "t\<lparr>tb_saved := Some (tb_rows t, tb_seq t)\<rparr>"
  have "storage_at S T (sb_storage b) t" using at by (simp add: store_at_def)
  then have begun: "storage_at S T (beginTransaction S (sb_storage b)) ?t"
    using S by (auto simp: storage_at_def beginTransaction_def on_db_def sql_ok_def)
  have begun_at: "store_at S T G (beginTransaction S (sb_storage b)) ?t st" by (rule store_at_cong [OF at begun]) simp_all
  have saved: "tb_saved ?t = Some (tb_rows t, tb_seq t)" by simp
  obtain rollback rs new so' t' st' where
      run: "run_operations S G H (sb_streams b) (map to_operation cs) ([], beginTransaction S (sb_storage b)) = Inr (rollback, rs, new, so')"
      "tb_saved t' = Some (tb_rows t, tb_seq t)" "store_at S T G so' t' st'" "rollback = (spec_task cs st = None)"
      "\<not> rollback \<longrightarrow> spec_task cs st = Some st' \<and> changes_for (ds_id (H s)) new = told_operations cs st \<and> list_all reservation_change (changes_for (ds_id (H s)) new)
        \<and> (\<forall>v. shows_store st v \<longrightarrow> shows_store st' (fold mirror_step (changes_for (ds_id (H s)) new) v))"
    using operations_refine [OF S served s begun_at ok room, of "[]"] unfolding saved append_Nil by blast
  have at': "storage_at S T so' t'" using run(3) by (simp add: store_at_def)
  show ?thesis
  proof (cases rollback)
    case True
    let ?t' = "t'\<lparr>tb_rows := tb_rows t, tb_seq := tb_seq t, tb_saved := None\<rparr>"
    have "store_at S T G (rollbackTransaction S so') ?t' st"
      by (rule store_at_cong [OF at rollback_at [OF S at' run(2)]]) simp_all
    then show ?thesis using run(1,4) True task
      by (auto simp: worker_task_def after_task_def told_task_def changes_for_def intro!: exI [of _ "[]"] exI [of _ ?t'])
  next
    case False
    have "store_at S T G (commitTransaction S so') (t'\<lparr>tb_saved := None\<rparr>) st'"
      by (rule store_at_cong [OF run(3) commit_at [OF S at']]) simp_all
    then show ?thesis using run(1,4,5) False task
      by (auto simp: worker_task_def after_task_def told_task_def addChanges_def intro!: exI [of _ new] exI [of _ "t'\<lparr>tb_saved := None\<rparr>"])
  qed
qed

section \<open>A new stream\<close>

lemma load_entries_stored:
  assumes "tables_hold G t xs"
  shows "map_option stored (items_map (listed xs) i) = entry_of i xs"
proof (cases "items_map (listed xs) i")
  case (Some x)
  then have "x \<in> set xs" by (auto simp: items_map_find find_Some_iff listed_def) (metis filter_is_subset nth_mem subsetD)
  then have "stored x = x" using assms by (auto simp: tables_hold_def list_all_iff entry_ok_def)
  then show ?thesis using Some by (simp add: entry_of_def items_map_find)
qed (simp add: entry_of_def items_map_find)

text \<open>What a new stream is told at first.\<close>

definition told_stream :: "'p store \<Rightarrow> 'p change list" where
  "told_stream st = [ItemsAdded (ReservationItems (listed (st_entries st))), Initialized]"

lemma initialize_refines:
  assumes S: "sql_ok S T" and G: "gregorian_ok G" "iso_ok G" and at: "store_at S T G (sb_storage b) t st"
    and new: "sm_uninitialized (sb_streams b) = [s]" "reservation_default (H s)"
  shows "\<exists>b' new. worker_initialize S G H b = Inr b' \<and> sb_tasks b' = sb_tasks b \<and> sm_active (sb_streams b') = sm_active (sb_streams b) @ [s]
    \<and> store_at S T G (sb_storage b') t st \<and> cq_pending (sb_changeQueue b') = cq_pending (sb_changeQueue b) @ new
    \<and> changes_for (ds_id (H s)) new = told_stream st \<and> list_all reservation_change (changes_for (ds_id (H s)) new)
    \<and> shows_store st (fold mirror_step (changes_for (ds_id (H s)) new) Map.empty)"
proof -
  have storage: "storage_at S T (sb_storage b) t" and hold: "tables_hold G t (st_entries st)" using at by (auto simp: store_at_def)
  obtain so' where so': "loadAllReservations S G (sb_storage b) = Inr (listed (st_entries st), so')" "storage_at S T so' t"
    using load_all_effect [OF S storage hold G] by blast
  let ?new = "[(ds_id (H s), ItemsAdded (ReservationItems (listed (st_entries st)))), (ds_id (H s), Initialized)]"
  let ?b = "b\<lparr>sb_streams := \<lparr>sm_uninitialized = [], sm_active = sm_active (sb_streams b) @ [s]\<rparr>,
      sb_changeQueue := fold (\<lambda>(i, c) q. addStreamChange i c q) ?new (sb_changeQueue b), sb_storage := so'\<rparr>"
  have init: "worker_initialize S G H b = Inr ?b"
    using so'(1) new
    by (simp add: worker_initialize_def manager_initialize_def Let_def initialize_stream_def findHandler_def reservation_default_def
        handler_initialize_def default_initialize_def)
  have "store_at S T G so' t st" by (rule store_at_cong [OF at so'(2) refl refl])
  moreover have "shows_store st (fold mirror_step (changes_for (ds_id (H s)) ?new) Map.empty)"
    using load_entries_stored [OF hold] by (simp add: shows_store_def changes_for_def mirror_step_def)
  ultimately show ?thesis using init
    by (intro exI [of _ ?b] exI [of _ ?new]) (simp add: addStreamChange_def changes_for_def reservation_change_def told_stream_def)
qed

fun told_tasks :: "('p store_command list \<times> nat) list \<Rightarrow> 'p store \<Rightarrow> 'p change list" where
  "told_tasks [] st = []"
| "told_tasks (task # tasks) st = told_task (fst task) st @ told_tasks tasks (after_task (fst task) st)"

definition after_tasks :: "('p store_command list \<times> nat) list \<Rightarrow> 'p store \<Rightarrow> 'p store" where
  "after_tasks tasks st = fold (\<lambda>(cs, _). after_task cs) tasks st"

fun visible_tasks :: "('p store_command list \<times> nat) list \<Rightarrow> 'p store \<Rightarrow> bool" where
  "visible_tasks [] st \<longleftrightarrow> True"
| "visible_tasks ((cs, _) # tasks) st \<longleftrightarrow> visible_task cs st \<and> visible_tasks tasks (after_task cs st)"

definition to_task :: "'p store_command list \<times> nat \<Rightarrow> 'p operation list \<times> nat" where
  "to_task = (\<lambda>(cs, promise). (map to_operation cs, promise))"

lemma spec_task_bound:
  "spec_task cs st = Some st' \<Longrightarrow> 0 \<le> st_lastId st \<Longrightarrow> 0 \<le> st_lastAtom st \<Longrightarrow>
     st_lastId st' + st_lastAtom st' \<le> st_lastId st + st_lastAtom st + task_rows cs \<and> 0 \<le> st_lastId st' \<and> 0 \<le> st_lastAtom st'"
proof (induction cs arbitrary: st)
  case (Cons c cs)
  obtain st1 where st1: "spec_operation c st = Some st1" "spec_task cs st1 = Some st'"
    using Cons.prems(1) by (auto split: option.splits)
  have "0 \<le> st_lastId st1" "0 \<le> st_lastAtom st1"
    using st1(1) Cons.prems(2,3)
    by (cases c; auto simp: spec_operation_def spec_command_def put_new_def put_update_def empty_store_def Let_def split: if_splits)+
  then show ?case using Cons.IH [OF st1(2)] spec_operation_bound [OF st1(1) Cons.prems(2,3)] by (simp add: task_rows_def)
qed (simp add: task_rows_def)

lemma after_task_bound:
  assumes "0 \<le> st_lastId st" and "0 \<le> st_lastAtom st"
  shows "st_lastId (after_task cs st) + st_lastAtom (after_task cs st) \<le> st_lastId st + st_lastAtom st + task_rows cs"
  using spec_task_bound [of cs st] assms by (auto simp: after_task_def task_rows_def split: option.splits)

lemma tasks_refine:
  assumes S: "sql_ok S T" and s: "reservation_default (H s)"
  shows "store_at S T G (sb_storage b) t st \<Longrightarrow> streams_served H (sm_active (sb_streams b)) \<Longrightarrow> s \<in> set (sm_active (sb_streams b))
    \<Longrightarrow> sb_tasks b = map to_task tasks \<Longrightarrow> list_all (\<lambda>(cs, _). list_all (command_ok G) cs) tasks \<Longrightarrow> visible_tasks tasks st
    \<Longrightarrow> st_lastId st + st_lastAtom st + sum_list (map (\<lambda>(cs, _). task_rows cs) tasks) < 2147483648
    \<Longrightarrow> \<exists>b' t' new. fold_res (\<lambda>_. worker_task S G H) tasks b = Inr b' \<and> sb_tasks b' = []
      \<and> store_at S T G (sb_storage b') t' (after_tasks tasks st)
      \<and> cq_pending (sb_changeQueue b') = cq_pending (sb_changeQueue b) @ new \<and> changes_for (ds_id (H s)) new = told_tasks tasks st
      \<and> list_all reservation_change (changes_for (ds_id (H s)) new)
      \<and> (\<forall>v. shows_store st v \<longrightarrow> shows_store (after_tasks tasks st) (fold mirror_step (changes_for (ds_id (H s)) new) v))"
proof (induction tasks arbitrary: b t st)
  case Nil
  show ?case by (rule exI [of _ b], rule exI [of _ t], rule exI [of _ "[]"]) (use Nil in \<open>simp add: after_tasks_def changes_for_def\<close>)
next
  case (Cons task tasks)
  obtain cs promise where task: "task = (cs, promise)" by (cases task)
  have rest: "0 \<le> sum_list (map (\<lambda>(cs, _). task_rows cs) tasks)"
    by (rule sum_list_nonneg) (auto simp: task_rows_def)
  have ok: "list_all (command_ok G) cs" "visible_task cs st" "st_lastId st + st_lastAtom st + task_rows cs < 2147483648"
    and q: "sb_tasks b = (map to_operation cs, promise) # map to_task tasks"
    using Cons.prems rest by (auto simp: task to_task_def)
  obtain b1 t1 new1 where b1: "worker_task S G H b = Inr b1" "sb_tasks b1 = map to_task tasks" "sb_streams b1 = sb_streams b"
      "store_at S T G (sb_storage b1) t1 (after_task cs st)"
      "cq_pending (sb_changeQueue b1) = cq_pending (sb_changeQueue b) @ new1" "changes_for (ds_id (H s)) new1 = told_task cs st"
      "list_all reservation_change (changes_for (ds_id (H s)) new1)"
      "\<And>v. shows_store st v \<Longrightarrow> shows_store (after_task cs st) (fold mirror_step (changes_for (ds_id (H s)) new1) v)"
    using task_refines [OF S Cons.prems(1) ok Cons.prems(2,3) s q] by blast
  have pos: "0 \<le> st_lastId st" "0 \<le> st_lastAtom st" using Cons.prems(1) by (auto simp: store_at_def)
  have "st_lastId (after_task cs st) + st_lastAtom (after_task cs st) + sum_list (map (\<lambda>(cs, _). task_rows cs) tasks) < 2147483648"
    using after_task_bound [OF pos, of cs] Cons.prems(7) by (simp add: task)
  then obtain b' t' new2 where "fold_res (\<lambda>_. worker_task S G H) tasks b1 = Inr b'" "sb_tasks b' = []"
      "store_at S T G (sb_storage b') t' (after_tasks tasks (after_task cs st))"
      "cq_pending (sb_changeQueue b') = cq_pending (sb_changeQueue b1) @ new2"
      "changes_for (ds_id (H s)) new2 = told_tasks tasks (after_task cs st)" "list_all reservation_change (changes_for (ds_id (H s)) new2)"
      "\<And>v. shows_store (after_task cs st) v \<Longrightarrow> shows_store (after_tasks tasks (after_task cs st)) (fold mirror_step (changes_for (ds_id (H s)) new2) v)"
    using Cons.IH [OF b1(4) _ _ b1(2)] Cons.prems b1(3) by (auto simp: task)
  then show ?case using b1
    by (intro exI [of _ b'] exI [of _ t'] exI [of _ "new1 @ new2"]) (simp add: task after_tasks_def fold_append)
qed

section \<open>The property\<close>

text \<open>The worker's steps, and the changes they queue for the stream.\<close>

lemma new_stream_told:
  assumes "sql_ok S T" and "gregorian_ok G" and "iso_ok G" and "store_at S T G (sb_storage b) t st"
    and "sm_uninitialized (sb_streams b) = [s]" and "reservation_default (H s)" and "streams_served H (sm_active (sb_streams b) @ [s])"
    and "sb_tasks b = map to_task tasks" and "list_all (\<lambda>(cs, _). list_all (command_ok G) cs) tasks" and "visible_tasks tasks st"
    and "st_lastId st + st_lastAtom st + sum_list (map (\<lambda>(cs, _). task_rows cs) tasks) < 2147483648"
  shows "\<exists>b1 b2 new t'. worker_initialize S G H b = Inr b1 \<and> fold_res (\<lambda>_. worker_task S G H) tasks b1 = Inr b2 \<and> sb_tasks b2 = []
    \<and> cq_pending (sb_changeQueue b2) = cq_pending (sb_changeQueue b) @ new
    \<and> changes_for (ds_id (H s)) new = told_stream st @ told_tasks tasks st \<and> list_all reservation_change (changes_for (ds_id (H s)) new)
    \<and> store_at S T G (sb_storage b2) t' (after_tasks tasks st)
    \<and> shows_store (after_tasks tasks st) (fold mirror_step (changes_for (ds_id (H s)) new) Map.empty)"
proof -
  obtain b1 new1 where b1: "worker_initialize S G H b = Inr b1" "sb_tasks b1 = sb_tasks b" "sm_active (sb_streams b1) = sm_active (sb_streams b) @ [s]"
      "store_at S T G (sb_storage b1) t st" "cq_pending (sb_changeQueue b1) = cq_pending (sb_changeQueue b) @ new1"
      "changes_for (ds_id (H s)) new1 = told_stream st"
      "list_all reservation_change (changes_for (ds_id (H s)) new1)" "shows_store st (fold mirror_step (changes_for (ds_id (H s)) new1) Map.empty)"
    using initialize_refines [OF assms(1-4), of s H] assms(5,6) by blast
  obtain b2 t2 new2 where b2: "fold_res (\<lambda>_. worker_task S G H) tasks b1 = Inr b2" "sb_tasks b2 = []"
      "store_at S T G (sb_storage b2) t2 (after_tasks tasks st)"
      "cq_pending (sb_changeQueue b2) = cq_pending (sb_changeQueue b1) @ new2" "changes_for (ds_id (H s)) new2 = told_tasks tasks st"
      "list_all reservation_change (changes_for (ds_id (H s)) new2)"
      "\<And>v. shows_store st v \<Longrightarrow> shows_store (after_tasks tasks st) (fold mirror_step (changes_for (ds_id (H s)) new2) v)"
    using tasks_refine [where H = H and s = s, OF assms(1,6) b1(4), of tasks] b1(2,3) assms(7-11) by auto
  show ?thesis
    by (rule exI [of _ b1], rule exI [of _ b2], rule exI [of _ "new1 @ new2"], rule exI [of _ t2])
      (use b1 b2(1-6) b2(7) [OF b1(8)] in \<open>simp add: fold_append\<close>)
qed

text \<open>A map of items that shows the store is what loading gives.\<close>

lemma shown_loads:
  assumes "sql_ok S T" and "gregorian_ok G" and "iso_ok G" and "store_at S T G so t st" and "shows_store st m"
  shows "\<exists>so'. loadReservationById S G i so = Inr (map_option stored (m i), so')"
proof -
  have "storage_at S T so t" "tables_hold G t (st_entries st)" using assms(4) by (auto simp: store_at_def)
  then show ?thesis using load_by_id_effect [OF assms(1) _ _ assms(2,3), of so t "st_entries st" i] assms(5) by (auto simp: shows_store_def)
qed

text \<open>C3 A new default stream of reservations shows the database, for one round of the worker whose tasks are commands on
  reservations.  The worker initializes the stream and runs the tasks in its queue, whatever stores, updates, deletions and erasures
  they are and whether they fail or not, as long as no task updates a deleted reservation nor stores or updates to a
  reservation without atoms (\<open>visible_tasks\<close>).  None of the worker's own steps fails, and an observer that applies the changes
  queued for the stream to an empty vector ends with exactly what loading each id from the database gives, up to the owner and
  the revisions of atoms that the database does not keep.  Without the condition this does not hold: an update brings a deleted
  reservation back in the database but not in the streams (\<open>revived_reservation_not_shown\<close>).\<close>

theorem new_stream_mirrors_database:
  assumes "sql_ok S T" and "gregorian_ok G" and "iso_ok G" and "store_at S T G (sb_storage b) t st"
    and "sm_uninitialized (sb_streams b) = [s]" and "reservation_default (H s)" and "streams_served H (sm_active (sb_streams b) @ [s])"
    and "sb_tasks b = map to_task tasks" and "list_all (\<lambda>(cs, _). list_all (command_ok G) cs) tasks" and "visible_tasks tasks st"
    and "st_lastId st + st_lastAtom st + sum_list (map (\<lambda>(cs, _). task_rows cs) tasks) < 2147483648"
  shows "\<exists>b1 b2 new xs. worker_initialize S G H b = Inr b1 \<and> fold_res (\<lambda>_. worker_task S G H) tasks b1 = Inr b2 \<and> sb_tasks b2 = []
    \<and> cq_pending (sb_changeQueue b2) = cq_pending (sb_changeQueue b) @ new
    \<and> fold_res (notify reservation_vector_ops) (changes_for (ds_id (H s)) new) [] = Inr xs
    \<and> (\<forall>i. \<exists>so. loadReservationById S G i (sb_storage b2) = Inr (map_option stored (items_map xs i), so))"
proof -
  obtain b1 b2 new t' where b: "worker_initialize S G H b = Inr b1" "fold_res (\<lambda>_. worker_task S G H) tasks b1 = Inr b2" "sb_tasks b2 = []"
      "cq_pending (sb_changeQueue b2) = cq_pending (sb_changeQueue b) @ new" "list_all reservation_change (changes_for (ds_id (H s)) new)"
      "store_at S T G (sb_storage b2) t' (after_tasks tasks st)"
      "shows_store (after_tasks tasks st) (fold mirror_step (changes_for (ds_id (H s)) new) Map.empty)"
    using new_stream_told [OF assms] by blast
  obtain xs where xs: "fold_res (notify reservation_vector_ops) (changes_for (ds_id (H s)) new) [] = Inr xs"
      "items_map xs = fold mirror_step (changes_for (ds_id (H s)) new) (items_map [])"
    using reservation_vector.notify_all [OF b(5), of "[]"] by blast
  have "shows_store (after_tasks tasks st) (items_map xs)" using b(7) xs(2) by (simp add: items_map_def)
  then show ?thesis using b(1-4) xs(1) shown_loads [OF assms(1-3) b(6)] by blast
qed

definition demo_tasks :: "((int \<times> int) store_command list \<times> nat) list" where
  "demo_tasks = [([PutNew demo_stay], 1), ([PutUpdate (demo_stay\<lparr>obj_id := 1, obj_revision := 1\<rparr>), Remove 1], 2)]"

definition demo_served :: "(int \<times> int, tables) backend" where
  "demo_served = (mk_backend table_db [])\<lparr>sb_streams := \<lparr>sm_uninitialized = [0], sm_active = []\<rparr>, sb_tasks := map to_task demo_tasks\<rparr>"

abbreviation demo_stream :: "nat \<Rightarrow> data_stream" where
  "demo_stream \<equiv> \<lambda>_. mk_data_stream ReservationStream [] JNull"

lemma demo_served_ok:
  "store_at table_db (\<lambda>t. t) day_calendar (sb_storage demo_served) (created no_tables table_names) empty_store"
  "sm_uninitialized (sb_streams demo_served) = [0]" "reservation_default (mk_data_stream ReservationStream [] JNull)"
  "streams_served demo_stream (sm_active (sb_streams demo_served) @ [0])" "sb_tasks demo_served = map to_task demo_tasks"
  using mk_storage_at [OF table_db_ok table_db_opens, of "[]"]
  by (simp_all add: store_at_def tables_hold_def demo_served_def mk_backend_def empty_store_def created_def no_tables_def table_names_def
      entry_rows_def streams_served_def serves_def findHandler_def mk_data_stream_def reservation_default_def)

lemma demo_tasks_ok:
  "list_all (\<lambda>(cs, _). list_all (command_ok day_calendar) cs) demo_tasks" "visible_tasks demo_tasks empty_store"
  "st_lastId (empty_store :: (int \<times> int) store) + st_lastAtom (empty_store :: (int \<times> int) store)
    + sum_list (map (\<lambda>(cs, _). task_rows cs) demo_tasks) < 2147483648"
  by (simp_all add: demo_tasks_def command_ok_def storable_def demo_stay_def mk_reservation_def mk_atom_def period_ok_def int32_def
      visible_def after_task_def spec_operation_def spec_command_def put_new_def put_update_def empty_store_def task_rows_def
      command_rows_def replace_entry_def Let_def)

theorem new_stream_mirrors_database_witness:
  "\<exists>b1 b2 new xs. worker_initialize table_db day_calendar demo_stream demo_served = Inr b1
    \<and> fold_res (\<lambda>_. worker_task table_db day_calendar demo_stream) demo_tasks b1 = Inr b2 \<and> sb_tasks b2 = []
    \<and> cq_pending (sb_changeQueue b2) = cq_pending (sb_changeQueue demo_served) @ new
    \<and> fold_res (notify reservation_vector_ops) (changes_for (ds_id (demo_stream 0)) new) [] = Inr xs
    \<and> (\<forall>i. \<exists>so. loadReservationById table_db day_calendar i (sb_storage b2) = Inr (map_option stored (items_map xs i), so))"
  by (rule new_stream_mirrors_database [where H = demo_stream and s = 0, OF table_db_ok day_calendar_ok day_calendar_iso_ok
        demo_served_ok demo_tasks_ok])

text \<open>What the condition on the tasks is for: after an update of a deleted reservation the store has it, and the streams do not.\<close>

definition revived_tasks :: "((int \<times> int) store_command list \<times> nat) list" where
  "revived_tasks = [([PutNew demo_stay], 1), ([Remove 1], 2), ([PutUpdate (demo_stay\<lparr>obj_id := 1, obj_revision := 1\<rparr>)], 3)]"

lemma revived_reservation_not_shown:
  "entry_of 1 (st_entries (after_tasks revived_tasks empty_store)) \<noteq> None"
  "fold mirror_step (told_stream empty_store @ told_tasks revived_tasks empty_store) Map.empty 1 = None"
  by (simp_all add: revived_tasks_def after_tasks_def after_task_def told_stream_def told_task_def told_change_def spec_operation_def
      spec_command_def put_new_def put_update_def Let_def demo_stay_def mk_reservation_def mk_atom_def empty_store_def
      replace_entry_def mirror_step_def items_map_def update_one_def stored_def setId_def entry_of_def listed_def)

end
