(* ===== verification/BoardLayout.thy ===== *)
theory BoardLayout
  imports Hotel Gregorian
begin

text \<open>
  \<open>gui::planningwidget::PlanningBoardLayout\<close>: the rows of the planning board and the positions of rooms and
  dates on it.  Coordinates are far below the bounds of \<open>int\<close>, so they are integers; the one division of doubles
  has operands that are exact and a floor that is the floor of the exact quotient.
\<close>

section \<open>State\<close>

datatype row_type = RoomRow | SeparatorRow

record row_geometry =
  row_type :: row_type
  row_id :: int
  row_top :: int
  row_height :: int
  row_isEven :: bool

definition mk_row_geometry :: "row_type \<Rightarrow> int \<Rightarrow> int \<Rightarrow> bool \<Rightarrow> int \<Rightarrow> row_geometry" where
  "mk_row_geometry t y height isEven i =
     \<lparr>row_type = t, row_id = i, row_top = y, row_height = height, row_isEven = isEven\<rparr>"

definition row_bottom :: "row_geometry \<Rightarrow> int" where
  "row_bottom r = row_top r + row_height r"

record rect =
  rect_x :: int
  rect_y :: int
  rect_width :: int
  rect_height :: int

definition mk_rect :: "int \<Rightarrow> int \<Rightarrow> int \<Rightarrow> int \<Rightarrow> rect" where
  "mk_rect x y w h = \<lparr>rect_x = x, rect_y = y, rect_width = w, rect_height = h\<rparr>"

datatype layout_type = GroupedByHotel | GroupedByRoomCategory

record ('d, 'p) board_layout =
  bl_roomRowHeight :: int
  bl_dateColumnWidth :: int
  bl_sceneRect :: rect
  bl_rows :: "row_geometry list"
  bl_pivotDate :: 'd
  bl_highlightedPeriods :: "'p list"
  bl_originDate :: 'd

text \<open>\<open>today\<close> is the value of \<open>day_clock::local_day()\<close>.\<close>

definition mk_board_layout :: "'d \<Rightarrow> ('d, 'p) board_layout" where
  "mk_board_layout today =
     \<lparr>bl_roomRowHeight = 22, bl_dateColumnWidth = 26, bl_sceneRect = mk_rect 0 0 0 0, bl_rows = [],
      bl_pivotDate = today, bl_highlightedPeriods = [], bl_originDate = today\<rparr>"

section \<open>Rows\<close>

definition getHeight :: "('d, 'p) board_layout \<Rightarrow> int" where
  "getHeight l = (if bl_rows l = [] then 0 else row_bottom (last (bl_rows l)))"

definition appendRoomRow :: "bool \<Rightarrow> int \<Rightarrow> ('d, 'p) board_layout \<Rightarrow> ('d, 'p) board_layout" where
  "appendRoomRow isEven roomId l =
     l\<lparr>bl_rows := bl_rows l @ [mk_row_geometry RoomRow (getHeight l) (bl_roomRowHeight l) isEven roomId]\<rparr>"

definition appendSeparatorRow :: "int \<Rightarrow> ('d, 'p) board_layout \<Rightarrow> ('d, 'p) board_layout" where
  "appendSeparatorRow height l =
     l\<lparr>bl_rows := bl_rows l @ [mk_row_geometry SeparatorRow (getHeight l) height True 0]\<rparr>"

text \<open>Rows of alternating parity for the given rooms.\<close>

fun append_rooms :: "bool \<Rightarrow> hotel_room list \<Rightarrow> ('d, 'p) board_layout \<Rightarrow> ('d, 'p) board_layout" where
  "append_rooms isEven [] l = l"
| "append_rooms isEven (r # rs) l = append_rooms (\<not> isEven) rs (appendRoomRow isEven (obj_id r) l)"

definition hotel_rows :: "hotel \<Rightarrow> ('d, 'p) board_layout \<Rightarrow> ('d, 'p) board_layout" where
  "hotel_rows h l = appendSeparatorRow 20 (append_rooms True (hotel_rooms h) l)"

text \<open>The rooms of one hotel whose category has the id; following the pointer of a room without one is undefined.\<close>

fun rooms_of_category :: "int \<Rightarrow> hotel \<Rightarrow> hotel_room list \<Rightarrow> hotel_room list res" where
  "rooms_of_category i h [] = Inr []"
| "rooms_of_category i h (r # rs) =
     bindr (category_of h r) (\<lambda>c. bindr (rooms_of_category i h rs) (\<lambda>rest. Inr (if obj_id c = i then r # rest else rest)))"

definition category_rows :: "hotel list \<Rightarrow> room_category \<Rightarrow> ('d, 'p) board_layout \<Rightarrow> ('d, 'p) board_layout res" where
  "category_rows hotels c l =
     bindr (map_res (\<lambda>h. rooms_of_category (obj_id c) h (hotel_rooms h)) hotels) (\<lambda>rss.
       let rs = concat rss; l' = append_rooms True rs l
       in Inr (if rs \<noteq> [] then appendSeparatorRow 10 l' else l'))"

definition hotel_category_rows :: "hotel list \<Rightarrow> hotel \<Rightarrow> ('d, 'p) board_layout \<Rightarrow> ('d, 'p) board_layout res" where
  "hotel_category_rows hotels h l =
     bindr (fold_res (category_rows hotels) (hotel_categories h) l) (\<lambda>l'.
       let l'' = (if bl_rows l' \<noteq> [] then l'\<lparr>bl_rows := butlast (bl_rows l')\<rparr> else l')
       in Inr (appendSeparatorRow 20 l''))"

definition initializeLayout :: "hotel list \<Rightarrow> layout_type \<Rightarrow> ('d, 'p) board_layout \<Rightarrow> ('d, 'p) board_layout res" where
  "initializeLayout hotels t l =
     (let l0 = appendSeparatorRow 20 (l\<lparr>bl_rows := []\<rparr>) in
      bindr (case t of
               GroupedByHotel \<Rightarrow> Inr (fold hotel_rows hotels l0)
             | GroupedByRoomCategory \<Rightarrow> fold_res (hotel_category_rows hotels) hotels l0) (\<lambda>l'.
        Inr (l'\<lparr>bl_sceneRect := (bl_sceneRect l')\<lparr>rect_height := getHeight l'\<rparr>\<rparr>)))"

definition getRowGeometryForRoom :: "int \<Rightarrow> ('d, 'p) board_layout \<Rightarrow> row_geometry option" where
  "getRowGeometryForRoom roomId l = find (\<lambda>r. row_type r = RoomRow \<and> row_id r = roomId) (bl_rows l)"

definition getRowGeometryAtPosition :: "int \<Rightarrow> ('d, 'p) board_layout \<Rightarrow> row_geometry option" where
  "getRowGeometryAtPosition posY l = find (\<lambda>r. row_top r \<le> posY \<and> posY < row_bottom r) (bl_rows l)"

section \<open>Dates\<close>

definition getDatePositionX :: "('d::linorder, 'p) gregorian \<Rightarrow> 'd \<Rightarrow> ('d, 'p) board_layout \<Rightarrow> int" where
  "getDatePositionX G date l = days_between G date (bl_originDate l) * bl_dateColumnWidth l"

definition getAtomRect :: "('d::linorder, 'p) gregorian \<Rightarrow> int \<Rightarrow> 'p \<Rightarrow> ('d, 'p) board_layout \<Rightarrow> rect" where
  "getAtomRect G roomId period l =
     (let pos = getDatePositionX G (p_begin G period) l;
          width = days_between G (p_end G period) (p_begin G period) * bl_dateColumnWidth l - 1
      in case getRowGeometryForRoom roomId l of
           None \<Rightarrow> mk_rect pos 0 width 0
         | Some r \<Rightarrow> mk_rect pos (row_top r) width (row_height r))"

text \<open>\<open>floor((x + w / 2.0) / w)\<close> without fractions.\<close>

definition getNearestDatePosition :: "('d::linorder, 'p) gregorian \<Rightarrow> int \<Rightarrow> ('d, 'p) board_layout \<Rightarrow> 'd \<times> int" where
  "getNearestDatePosition G positionX l =
     (let w = bl_dateColumnWidth l; dateIndex = (2 * positionX + w) div (2 * w)
      in (add_days G (bl_originDate l) dateIndex, dateIndex * w))"

definition setSceneRect :: "rect \<Rightarrow> ('d, 'p) board_layout \<Rightarrow> ('d, 'p) board_layout" where
  "setSceneRect r l = l\<lparr>bl_sceneRect := r\<rparr>"

definition setPivotDate :: "'d \<Rightarrow> ('d, 'p) board_layout \<Rightarrow> ('d, 'p) board_layout" where
  "setPivotDate d l = l\<lparr>bl_pivotDate := d\<rparr>"

definition setHighlightedPeriods :: "'p list \<Rightarrow> ('d, 'p) board_layout \<Rightarrow> ('d, 'p) board_layout" where
  "setHighlightedPeriods ps l = l\<lparr>bl_highlightedPeriods := ps\<rparr>"

section \<open>Rows tile the board\<close>

fun tiled :: "int \<Rightarrow> row_geometry list \<Rightarrow> bool" where
  "tiled y [] \<longleftrightarrow> True"
| "tiled y (r # rs) \<longleftrightarrow> row_top r = y \<and> 0 < row_height r \<and> tiled (row_bottom r) rs"

definition height_from :: "int \<Rightarrow> row_geometry list \<Rightarrow> int" where
  "height_from y rs = (if rs = [] then y else row_bottom (last rs))"

lemma height_from_Cons: "height_from y (r # rs) = height_from (row_bottom r) rs"
  by (simp add: height_from_def)

lemma getHeight_from: "getHeight l = height_from 0 (bl_rows l)"
  by (simp add: getHeight_def height_from_def)

lemma tiled_append: "tiled y (rs @ ss) \<longleftrightarrow> tiled y rs \<and> tiled (height_from y rs) ss"
  by (induction rs arbitrary: y) (simp_all add: height_from_Cons, simp add: height_from_def)

lemma tiled_butlast: "tiled y rs \<Longrightarrow> tiled y (butlast rs)"
  by (cases rs rule: rev_cases) (simp_all add: tiled_append)

lemma tiled_height: "tiled y rs \<Longrightarrow> y \<le> height_from y rs \<and> (\<forall>r \<in> set rs. y \<le> row_top r \<and> row_bottom r \<le> height_from y rs)"
proof (induction rs arbitrary: y)
  case (Cons r rs)
  then have "y < row_bottom r" by (simp add: row_bottom_def)
  then show ?case using Cons.IH [of "row_bottom r"] Cons.prems by (force simp: height_from_Cons)
qed (simp add: height_from_def)

lemma tiled_at:
  "tiled y rs \<Longrightarrow> y \<le> p \<Longrightarrow> p < height_from y rs \<Longrightarrow> \<exists>r \<in> set rs. row_top r \<le> p \<and> p < row_bottom r"
proof (induction rs arbitrary: y)
  case (Cons r rs)
  show ?case
  proof (cases "p < row_bottom r")
    case True
    then show ?thesis using Cons.prems by auto
  next
    case False
    then show ?thesis using Cons.IH [of "row_bottom r"] Cons.prems by (auto simp: height_from_Cons)
  qed
qed (simp add: height_from_def)

lemma tiled_unique:
  "tiled y rs \<Longrightarrow> r \<in> set rs \<Longrightarrow> row_top r \<le> p \<Longrightarrow> p < row_bottom r \<Longrightarrow> find (\<lambda>r. row_top r \<le> p \<and> p < row_bottom r) rs = Some r"
proof (induction rs arbitrary: y)
  case (Cons s rs)
  have rest: "tiled (row_bottom s) rs" using Cons.prems(1) by simp
  show ?case
  proof (cases "r \<in> set rs")
    case True
    then have "row_bottom s \<le> row_top r" using tiled_height [OF rest] by blast
    then show ?thesis using Cons.IH [OF rest True] Cons.prems by simp
  next
    case False
    then show ?thesis using Cons.prems by simp
  qed
qed simp

section \<open>The rows of the rooms\<close>

definition room_ids :: "row_geometry list \<Rightarrow> int list" where
  "room_ids rs = map row_id (filter (\<lambda>r. row_type r = RoomRow) rs)"

text \<open>What the construction keeps: the rows tile the board, and the last one is a separator.\<close>

definition rows_ok :: "('d, 'p) board_layout \<Rightarrow> bool" where
  "rows_ok l \<longleftrightarrow> 0 < bl_roomRowHeight l \<and> tiled 0 (bl_rows l)"

definition separated :: "('d, 'p) board_layout \<Rightarrow> bool" where
  "separated l \<longleftrightarrow> bl_rows l \<noteq> [] \<and> row_type (last (bl_rows l)) = SeparatorRow"

lemma room_ids_append [simp]: "room_ids (rs @ ss) = room_ids rs @ room_ids ss"
  by (simp add: room_ids_def)

lemma appendRoomRow_ok:
  "rows_ok l \<Longrightarrow> rows_ok (appendRoomRow isEven i l)" "room_ids (bl_rows (appendRoomRow isEven i l)) = room_ids (bl_rows l) @ [i]"
  by (simp_all add: rows_ok_def appendRoomRow_def tiled_append getHeight_from mk_row_geometry_def room_ids_def)

lemma appendSeparatorRow_ok:
  "rows_ok l \<Longrightarrow> 0 < h \<Longrightarrow> rows_ok (appendSeparatorRow h l)" "room_ids (bl_rows (appendSeparatorRow h l)) = room_ids (bl_rows l)"
  "separated (appendSeparatorRow h l)"
  by (simp_all add: rows_ok_def appendSeparatorRow_def tiled_append getHeight_from mk_row_geometry_def room_ids_def separated_def)

lemma append_rooms_ok:
  "rows_ok l \<Longrightarrow> rows_ok (append_rooms isEven rs l)" "room_ids (bl_rows (append_rooms isEven rs l)) = room_ids (bl_rows l) @ map obj_id rs"
  by (induction isEven rs l rule: append_rooms.induct) (simp_all add: appendRoomRow_ok)

lemma hotel_rows_ok:
  assumes "rows_ok l"
  shows "rows_ok (hotel_rows h l)" and "room_ids (bl_rows (hotel_rows h l)) = room_ids (bl_rows l) @ map obj_id (hotel_rooms h)"
  using assms by (simp_all add: hotel_rows_def appendSeparatorRow_ok append_rooms_ok)

lemma all_hotel_rows_ok:
  "rows_ok l \<Longrightarrow> rows_ok (fold hotel_rows hs l)
    \<and> room_ids (bl_rows (fold hotel_rows hs l)) = room_ids (bl_rows l) @ concat (map (\<lambda>h. map obj_id (hotel_rooms h)) hs)"
  by (induction hs arbitrary: l) (simp_all add: hotel_rows_ok)

definition in_category :: "hotel \<Rightarrow> int \<Rightarrow> hotel_room \<Rightarrow> bool" where
  "in_category h i r \<longleftrightarrow> (case category_of h r of Inl _ \<Rightarrow> False | Inr c \<Rightarrow> obj_id c = i)"

definition category_rooms :: "hotel list \<Rightarrow> int \<Rightarrow> hotel_room list" where
  "category_rooms hs i = concat (map (\<lambda>h. filter (in_category h i) (hotel_rooms h)) hs)"

lemma rooms_of_category_ok:
  "list_all (\<lambda>r. returns (category_of h r)) rs \<Longrightarrow> rooms_of_category i h rs = Inr (filter (in_category h i) rs)"
  by (induction rs) (auto simp: in_category_def returns_def split: sum.splits)

definition pointers_ok :: "hotel \<Rightarrow> bool" where
  "pointers_ok h \<longleftrightarrow> list_all (\<lambda>r. returns (category_of h r)) (hotel_rooms h)"

lemma map_res_rooms: "list_all pointers_ok hs \<Longrightarrow>
    map_res (\<lambda>h. rooms_of_category i h (hotel_rooms h)) hs = Inr (map (\<lambda>h. filter (in_category h i) (hotel_rooms h)) hs)"
  by (induction hs) (simp_all add: rooms_of_category_ok pointers_ok_def)

lemma category_rows_ok:
  assumes "list_all pointers_ok hs" and "rows_ok l" and "separated l"
  shows "\<exists>l'. category_rows hs c l = Inr l' \<and> rows_ok l' \<and> separated l'
    \<and> room_ids (bl_rows l') = room_ids (bl_rows l) @ map obj_id (category_rooms hs (obj_id c))"
proof (cases "category_rooms hs (obj_id c) = []")
  case True
  then show ?thesis using assms(2,3)
    by (simp add: category_rows_def map_res_rooms [OF assms(1)] category_rooms_def [symmetric] Let_def del: concat_eq_Nil_conv)
next
  case False
  then show ?thesis using assms(2,3)
    by (simp add: category_rows_def map_res_rooms [OF assms(1)] category_rooms_def [symmetric] Let_def appendSeparatorRow_ok append_rooms_ok del: concat_eq_Nil_conv)
qed

lemma all_category_rows_ok:
  assumes "list_all pointers_ok hs"
  shows "rows_ok l \<Longrightarrow> separated l \<Longrightarrow> \<exists>l'. fold_res (category_rows hs) cs l = Inr l' \<and> rows_ok l' \<and> separated l'
    \<and> room_ids (bl_rows l') = room_ids (bl_rows l) @ concat (map (\<lambda>c. map obj_id (category_rooms hs (obj_id c))) cs)"
proof (induction cs arbitrary: l)
  case (Cons c cs)
  obtain l1 where l1: "category_rows hs c l = Inr l1" "rows_ok l1" "separated l1"
      "room_ids (bl_rows l1) = room_ids (bl_rows l) @ map obj_id (category_rooms hs (obj_id c))"
    using category_rows_ok [OF assms Cons.prems] by blast
  then show ?case using Cons.IH [OF l1(2,3)] by auto
qed auto

text \<open>The row taken off at the end of a hotel is a separator, so no room is lost.\<close>

lemma hotel_category_rows_ok:
  assumes "list_all pointers_ok hs" and "rows_ok l" and "separated l"
  shows "\<exists>l'. hotel_category_rows hs h l = Inr l' \<and> rows_ok l' \<and> separated l'
    \<and> room_ids (bl_rows l') = room_ids (bl_rows l) @ concat (map (\<lambda>c. map obj_id (category_rooms hs (obj_id c))) (hotel_categories h))"
proof -
  obtain l1 where l1: "fold_res (category_rows hs) (hotel_categories h) l = Inr l1" "rows_ok l1" "separated l1"
      "room_ids (bl_rows l1) = room_ids (bl_rows l) @ concat (map (\<lambda>c. map obj_id (category_rooms hs (obj_id c))) (hotel_categories h))"
    using all_category_rows_ok [OF assms] by blast
  let ?l = "l1\<lparr>bl_rows := butlast (bl_rows l1)\<rparr>"
  have "rows_ok ?l" using l1(2) by (simp add: rows_ok_def tiled_butlast)
  moreover have "room_ids (bl_rows ?l) = room_ids (bl_rows l1)"
    using l1(3) by (cases "bl_rows l1" rule: rev_cases) (simp_all add: separated_def room_ids_def)
  ultimately show ?thesis using l1
    by (simp add: hotel_category_rows_def Let_def appendSeparatorRow_ok separated_def [of l1])
qed

lemma all_hotel_category_rows_ok:
  assumes "list_all pointers_ok hs"
  shows "rows_ok l \<Longrightarrow> separated l \<Longrightarrow> \<exists>l'. fold_res (hotel_category_rows hs) ks l = Inr l' \<and> rows_ok l' \<and> separated l'
    \<and> room_ids (bl_rows l') = room_ids (bl_rows l)
        @ concat (map (\<lambda>h. concat (map (\<lambda>c. map obj_id (category_rooms hs (obj_id c))) (hotel_categories h))) ks)"
proof (induction ks arbitrary: l)
  case (Cons k ks)
  obtain l1 where l1: "hotel_category_rows hs k l = Inr l1" "rows_ok l1" "separated l1"
      "room_ids (bl_rows l1) = room_ids (bl_rows l) @ concat (map (\<lambda>c. map obj_id (category_rooms hs (obj_id c))) (hotel_categories k))"
    using hotel_category_rows_ok [OF assms Cons.prems] by blast
  then show ?case using Cons.IH [OF l1(2,3)] by auto
qed auto

lemma hotel_ok_pointers: "hotel_ok h \<Longrightarrow> pointers_ok h"
  by (auto simp: hotel_ok_def room_ok_def pointers_ok_def list_all_iff category_of_def returns_def split: option.splits)

lemma room_of_hotel_category:
  assumes "hotel_ok h" and "h \<in> set hs" and "r \<in> set (hotel_rooms h)"
  shows "\<exists>c \<in> set (hotel_categories h). r \<in> set (category_rooms hs (obj_id c))"
proof -
  obtain i where "room_category r = Some i" "i < length (hotel_categories h)" using assms(1,3) by (auto simp: hotel_ok_def room_ok_def list_all_iff split: option.splits)
  then have "in_category h (obj_id (hotel_categories h ! i)) r" "hotel_categories h ! i \<in> set (hotel_categories h)"
    by (simp_all add: in_category_def category_of_def)
  then show ?thesis using assms(2,3) by (auto simp: category_rooms_def)
qed

lemma category_rooms_rooms: "r \<in> set (category_rooms hs i) \<Longrightarrow> \<exists>h \<in> set hs. r \<in> set (hotel_rooms h)"
  by (auto simp: category_rooms_def)

definition all_room_ids :: "hotel list \<Rightarrow> int set" where
  "all_room_ids hs = (\<Union>h \<in> set hs. obj_id ` set (hotel_rooms h))"

lemma initializeLayout_ok:
  assumes "list_all hotel_ok hs" and "0 < bl_roomRowHeight l"
  shows "\<exists>l'. initializeLayout hs t l = Inr l' \<and> tiled 0 (bl_rows l') \<and> set (room_ids (bl_rows l')) = all_room_ids hs
    \<and> rect_height (bl_sceneRect l') = getHeight l' \<and> 0 < bl_roomRowHeight l'"
proof -
  let ?l = "appendSeparatorRow 20 (l\<lparr>bl_rows := []\<rparr>)"
  have base: "rows_ok ?l" "separated ?l" "room_ids (bl_rows ?l) = []"
    using assms(2) by (simp_all add: appendSeparatorRow_ok, simp_all add: rows_ok_def room_ids_def appendSeparatorRow_def mk_row_geometry_def getHeight_def)
  have ptrs: "list_all pointers_ok hs" using assms(1) hotel_ok_pointers by (auto simp: list_all_iff)
  have height: "getHeight (k\<lparr>bl_sceneRect := r\<rparr>) = getHeight k" for k :: "('a, 'b) board_layout" and r by (simp add: getHeight_def)
  show ?thesis
  proof (cases t)
    case GroupedByHotel
    then show ?thesis using all_hotel_rows_ok [OF base(1), of hs] base(3)
      by (auto simp: initializeLayout_def Let_def rows_ok_def all_room_ids_def height)
  next
    case GroupedByRoomCategory
    obtain l' where l': "fold_res (hotel_category_rows hs) hs ?l = Inr l'" "rows_ok l'"
        "room_ids (bl_rows l') = concat (map (\<lambda>h. concat (map (\<lambda>c. map obj_id (category_rooms hs (obj_id c))) (hotel_categories h))) hs)"
      using all_hotel_category_rows_ok [OF ptrs base(1,2), of hs] base(3) by auto
    have "set (room_ids (bl_rows l')) = all_room_ids hs"
    proof
      show "set (room_ids (bl_rows l')) \<subseteq> all_room_ids hs"
        using category_rooms_rooms by (fastforce simp: l'(3) all_room_ids_def)
      show "all_room_ids hs \<subseteq> set (room_ids (bl_rows l'))"
        using room_of_hotel_category assms(1) by (fastforce simp: l'(3) all_room_ids_def list_all_iff)
    qed
    then show ?thesis using l'(1,2) GroupedByRoomCategory by (simp add: initializeLayout_def Let_def rows_ok_def height)
  qed
qed

lemma room_row_found: "(\<exists>row. find (\<lambda>r. row_type r = RoomRow \<and> row_id r = i) rs = Some row) \<longleftrightarrow> i \<in> set (room_ids rs)"
  by (induction rs) (auto simp: room_ids_def)

section \<open>Properties\<close>

text \<open>C24 For well-formed hotels the layout is built in both groupings without following a null category.  The rows
  then tile the board: every height from \<open>0\<close> up to the total height lies in exactly one row, the one the lookup
  returns, and no other height does; the scene is as high as the rows; and exactly the rooms of the hotels have a
  row, whatever categories are empty.\<close>

theorem layout_shows_rooms:
  assumes "list_all hotel_ok hotels" and "0 < bl_roomRowHeight l"
  shows "\<exists>l'. initializeLayout hotels t l = Inr l'
    \<and> (\<forall>y. getRowGeometryAtPosition y l' \<noteq> None \<longleftrightarrow> 0 \<le> y \<and> y < getHeight l')
    \<and> (\<forall>y row. getRowGeometryAtPosition y l' = Some row \<longleftrightarrow> row \<in> set (bl_rows l') \<and> row_top row \<le> y \<and> y < row_bottom row)
    \<and> rect_height (bl_sceneRect l') = getHeight l'
    \<and> (\<forall>i. getRowGeometryForRoom i l' \<noteq> None \<longleftrightarrow> (\<exists>h \<in> set hotels. \<exists>r \<in> set (hotel_rooms h). obj_id r = i))"
proof -
  obtain l' where l': "initializeLayout hotels t l = Inr l'" "tiled 0 (bl_rows l')" "set (room_ids (bl_rows l')) = all_room_ids hotels"
      "rect_height (bl_sceneRect l') = getHeight l'"
    using initializeLayout_ok [OF assms] by blast
  have at: "getRowGeometryAtPosition y l' = Some row \<longleftrightarrow> row \<in> set (bl_rows l') \<and> row_top row \<le> y \<and> y < row_bottom row" for y row
    using tiled_unique [OF l'(2), of row y] by (auto simp: getRowGeometryAtPosition_def find_Some_iff)
  have "getRowGeometryAtPosition y l' \<noteq> None \<longleftrightarrow> 0 \<le> y \<and> y < getHeight l'" for y
  proof
    assume "getRowGeometryAtPosition y l' \<noteq> None"
    then obtain row where "row \<in> set (bl_rows l')" "row_top row \<le> y" "y < row_bottom row" using at by blast
    then show "0 \<le> y \<and> y < getHeight l'" using tiled_height [OF l'(2)] by (fastforce simp: getHeight_from)
  next
    assume "0 \<le> y \<and> y < getHeight l'"
    then obtain row where "row \<in> set (bl_rows l')" "row_top row \<le> y" "y < row_bottom row"
      using tiled_at [OF l'(2), of y] by (auto simp: getHeight_from)
    then have "getRowGeometryAtPosition y l' = Some row" by (simp add: at)
    then show "getRowGeometryAtPosition y l' \<noteq> None" by simp
  qed
  moreover have "getRowGeometryForRoom i l' \<noteq> None \<longleftrightarrow> (\<exists>h \<in> set hotels. \<exists>r \<in> set (hotel_rooms h). obj_id r = i)" for i
    using room_row_found [of i "bl_rows l'"] l'(3) by (auto simp: getRowGeometryForRoom_def all_room_ids_def)
  ultimately show ?thesis using l'(1,4) at by blast
qed

theorem layout_shows_rooms_witness:
  "\<exists>l'. initializeLayout [demo_hotel] GroupedByRoomCategory (mk_board_layout (7 :: int)) = Inr l'
    \<and> (\<forall>y. getRowGeometryAtPosition y l' \<noteq> None \<longleftrightarrow> 0 \<le> y \<and> y < getHeight l')"
  using layout_shows_rooms [of "[demo_hotel]" "mk_board_layout 7" GroupedByRoomCategory] demo_hotel_ok
  by (auto simp: mk_board_layout_def)

text \<open>A position on the board and the date found for it are at most half a column apart, and the date at the
  returned position is the returned date; every ordinary date is found from each position less than half a column
  from its own, in particular from its own.\<close>

lemma nearest_date_correct:
  assumes "gregorian_ok G" and "0 < bl_dateColumnWidth l" and "\<not> is_special G (bl_originDate l)"
  shows "2 * \<bar>x - snd (getNearestDatePosition G x l)\<bar> \<le> bl_dateColumnWidth l
    \<and> (\<not> is_special G (fst (getNearestDatePosition G x l))
        \<longrightarrow> getDatePositionX G (fst (getNearestDatePosition G x l)) l = snd (getNearestDatePosition G x l))
    \<and> (\<forall>d. \<not> is_special G d \<longrightarrow> 2 * \<bar>x - getDatePositionX G d l\<bar> < bl_dateColumnWidth l
        \<longrightarrow> getNearestDatePosition G x l = (d, getDatePositionX G d l))"
proof (intro conjI allI impI)
  let ?w = "bl_dateColumnWidth l" and ?i = "(2 * x + bl_dateColumnWidth l) div (2 * bl_dateColumnWidth l)"
  have "?i * (2 * ?w) + (2 * x + ?w) mod (2 * ?w) = 2 * x + ?w" by (rule div_mult_mod_eq)
  moreover have "0 \<le> (2 * x + ?w) mod (2 * ?w)" "(2 * x + ?w) mod (2 * ?w) < 2 * ?w" using assms(2) by simp_all
  ultimately have div: "2 * (?i * ?w) \<le> 2 * x + ?w" "2 * x + ?w < 2 * (?i * ?w) + 2 * ?w" by linarith+
  show "2 * \<bar>x - snd (getNearestDatePosition G x l)\<bar> \<le> ?w"
    using div by (simp add: getNearestDatePosition_def Let_def abs_if)
  show "getDatePositionX G (fst (getNearestDatePosition G x l)) l = snd (getNearestDatePosition G x l)"
    if "\<not> is_special G (fst (getNearestDatePosition G x l))"
    using that assms(1,3) by (simp add: getNearestDatePosition_def getDatePositionX_def Let_def gregorian_ok_def day_laws_def)
  show "getNearestDatePosition G x l = (d, getDatePositionX G d l)"
    if d: "\<not> is_special G d" and near: "2 * \<bar>x - getDatePositionX G d l\<bar> < ?w" for d
  proof -
    let ?n = "days_between G d (bl_originDate l)"
    have near': "2 * (?n * ?w) < 2 * x + ?w" "2 * x < 2 * (?n * ?w) + ?w"
      using near by (simp_all add: getDatePositionX_def abs_if split: if_splits)
    have "?i = ?n"
    proof (rule ccontr)
      assume "?i \<noteq> ?n"
      then have "?i + 1 \<le> ?n \<or> ?n + 1 \<le> ?i" by linarith
      then have "(?i + 1) * ?w \<le> ?n * ?w \<or> (?n + 1) * ?w \<le> ?i * ?w" using assms(2) by auto
      then show False using div near' by (auto simp: distrib_right)
    qed
    moreover have "add_days G (bl_originDate l) ?n = d" using assms(1,3) d by (simp add: gregorian_ok_def day_laws_def)
    ultimately show ?thesis by (simp add: getNearestDatePosition_def getDatePositionX_def Let_def)
  qed
qed

end
