(* ===== verification/ReservationTools.thy ===== *)
theory ReservationTools
  imports BoardLayout Planning Operations
begin

text \<open>
  The tools of the planning board, \<open>NewReservationTool\<close> and \<open>MoveReservationTool\<close>: state machines over mouse and
  key events, which draw temporary reservations (ghosts) and queue operations at the backend.  They read the
  planning board and the layout of their context; the graphics item a ghost has is not modelled, a ghost whose item
  was reset is one that is left out.  Mouse positions are the integers the code casts them to.
\<close>

section \<open>Drawing new reservations\<close>

record ('d, 'p) ghost =
  gh_reservation :: "'p reservation"
  gh_startRoomId :: int
  gh_startDate :: 'd

record ('d, 'p) new_tool =
  nt_ghosts :: "('d, 'p) ghost list"
  nt_current :: "('d, 'p) ghost option"

definition mk_new_tool :: "('d, 'p) new_tool" where
  "mk_new_tool = \<lparr>nt_ghosts = [], nt_current = None\<rparr>"

definition ghost_list :: "('d, 'p) new_tool \<Rightarrow> ('d, 'p) ghost list" where
  "ghost_list nt = nt_ghosts nt @ (case nt_current nt of None \<Rightarrow> [] | Some g \<Rightarrow> [g])"

definition updateHighlightedPeriods ::
    "('d::linorder, 'p) gregorian \<Rightarrow> ('d, 'p) new_tool \<Rightarrow> ('d, 'p) board_layout \<Rightarrow> ('d, 'p) board_layout" where
  "updateHighlightedPeriods G nt l =
     setHighlightedPeriods
       (map (\<lambda>g. dateRange G (gh_reservation g)) (filter (\<lambda>g. isValid G (gh_reservation g)) (ghost_list nt))) l"

definition new_unload :: "('d, 'p) new_tool \<times> ('d, 'p) board_layout \<Rightarrow> ('d, 'p) new_tool \<times> ('d, 'p) board_layout" where
  "new_unload w = (mk_new_tool, setHighlightedPeriods [] (snd w))"

definition new_reservationAdded :: "('d::linorder, 'p) gregorian \<Rightarrow> 'p reservation \<Rightarrow> ('d, 'p) new_tool \<Rightarrow> ('d, 'p) new_tool" where
  "new_reservationAdded G item nt =
     \<lparr>nt_ghosts = filter (\<lambda>g. \<not> intersectsWith G item (gh_reservation g)) (nt_ghosts nt),
      nt_current = (case nt_current nt of
         None \<Rightarrow> None
       | Some g \<Rightarrow> if intersectsWith G item (gh_reservation g) then None else Some g)\<rparr>"

text \<open>The loops over the atoms of the ghosts: the returned date, or the one they leave.\<close>

fun narrow_date :: "('d::linorder, 'p) gregorian \<Rightarrow> int \<Rightarrow> 'd \<Rightarrow> 'p reservation_atom list \<Rightarrow> 'd \<Rightarrow> 'd" where
  "narrow_date G roomId fromDate [] maximumDate = maximumDate"
| "narrow_date G roomId fromDate (a # as) maximumDate =
     (if atom_room a = roomId
      then if p_contains G (atom_range a) fromDate then fromDate
           else if fromDate \<le> p_begin G (atom_range a) \<and> p_begin G (atom_range a) < maximumDate
           then narrow_date G roomId fromDate as (p_begin G (atom_range a))
           else narrow_date G roomId fromDate as maximumDate
      else narrow_date G roomId fromDate as maximumDate)"

definition computeMaximumDate ::
    "('d::linorder, 'p) gregorian \<Rightarrow> 'p planning_board \<Rightarrow> ('d, 'p) new_tool \<Rightarrow> int \<Rightarrow> 'd \<Rightarrow> 'd res" where
  "computeMaximumDate G b nt roomId fromDate =
     bindr (getAvailableDaysFrom G b roomId fromDate) (\<lambda>availableDays.
       Inr (narrow_date G roomId fromDate (concat (map (\<lambda>g. res_atoms (gh_reservation g)) (nt_ghosts nt)))
              (add_days G fromDate availableDays)))"

definition new_mousePress ::
    "('d::linorder, 'p) gregorian \<Rightarrow> 'p planning_board \<Rightarrow> int \<Rightarrow> int \<Rightarrow> ('d, 'p) new_tool \<times> ('d, 'p) board_layout
       \<Rightarrow> (('d, 'p) new_tool \<times> ('d, 'p) board_layout) res" where
  "new_mousePress G b x y w =
     (let nt = fst w; l = snd w; date = fst (getNearestDatePosition G x l) in
      case getRowGeometryAtPosition y l of
        None \<Rightarrow> Inr w
      | Some row \<Rightarrow>
          if row_type row \<noteq> RoomRow then Inr w
          else bindr (computeMaximumDate G b nt (row_id row) date) (\<lambda>maximumDate.
            if maximumDate = date then Inr w
            else let nt' = nt\<lparr>nt_current := Some \<lparr>gh_reservation = (mk_reservation ''new'')\<lparr>res_status := Temporary\<rparr>,
                                                   gh_startRoomId = row_id row, gh_startDate = date\<rparr>\<rparr>
                 in Inr (nt', updateHighlightedPeriods G nt' l)))"

definition new_mouseRelease :: "('d::linorder, 'p) gregorian \<Rightarrow> ('d, 'p) new_tool \<Rightarrow> ('d, 'p) new_tool" where
  "new_mouseRelease G nt =
     (case nt_current nt of
        None \<Rightarrow> nt
      | Some g \<Rightarrow>
          \<lparr>nt_ghosts = (if \<not> p_is_null G (dateRange G (gh_reservation g)) then nt_ghosts nt @ [g] else nt_ghosts nt),
           nt_current = None\<rparr>)"

text \<open>Which room the mouse draws in, whether the last atom is redrawn, and from which date: \<open>shift\<close> changes rooms.\<close>

definition drawing_target ::
    "('d::linorder, 'p) gregorian \<Rightarrow> bool \<Rightarrow> row_geometry option \<Rightarrow> ('d, 'p) ghost \<Rightarrow> int \<times> bool \<times> 'd" where
  "drawing_target G shift row g =
     (let last_atom = lastAtom (gh_reservation g);
          room = (case last_atom of Some a \<Rightarrow> atom_room a | None \<Rightarrow> gh_startRoomId g);
          modifies = (\<lambda>i. case last_atom of Some a \<Rightarrow> atom_room a = i | None \<Rightarrow> False);
          stays = (room, modifies room,
                   case last_atom of
                     Some a \<Rightarrow> if modifies room then p_begin G (atom_range a) else gh_startDate g
                   | None \<Rightarrow> gh_startDate g)
      in case row of
           None \<Rightarrow> stays
         | Some r \<Rightarrow>
             if shift \<and> row_type r = RoomRow \<and> row_id r \<noteq> room
             then (row_id r, modifies (row_id r),
                   case last_atom of
                     Some a \<Rightarrow> if modifies (row_id r) then p_begin G (atom_range a) else p_end G (atom_range a)
                   | None \<Rightarrow> gh_startDate g)
             else stays)"

definition draw_to ::
    "('d::linorder, 'p) gregorian \<Rightarrow> 'p planning_board \<Rightarrow> ('d, 'p) new_tool \<Rightarrow> 'd \<Rightarrow> int \<times> bool \<times> 'd \<Rightarrow> ('d, 'p) ghost
       \<Rightarrow> ('d, 'p) ghost res" where
  "draw_to G b nt currentDate target g =
     (case target of (room, modify, startDate) \<Rightarrow>
        bindr (computeMaximumDate G b nt room startDate) (\<lambda>maximumDate.
          let d1 = (if currentDate < startDate then startDate else currentDate);
              d2 = (if maximumDate < d1 then maximumDate else d1);
              newPeriod = mk_period G startDate d2;
              r = (if modify then removeLastAtom (gh_reservation g) else gh_reservation g)
          in bindr (if \<not> p_is_null G newPeriod then addAtom G room newPeriod r else Inr r) (\<lambda>r'.
               Inr (g\<lparr>gh_reservation := r'\<rparr>))))"

definition new_mouseMove ::
    "('d::linorder, 'p) gregorian \<Rightarrow> 'p planning_board \<Rightarrow> bool \<Rightarrow> int \<Rightarrow> int \<Rightarrow> ('d, 'p) new_tool \<times> ('d, 'p) board_layout
       \<Rightarrow> (('d, 'p) new_tool \<times> ('d, 'p) board_layout) res" where
  "new_mouseMove G b shift x y w =
     (let nt = fst w; l = snd w in
      bindr (case nt_current nt of
               None \<Rightarrow> Inr nt
             | Some g \<Rightarrow>
                 bindr (draw_to G b nt (fst (getNearestDatePosition G x l))
                         (drawing_target G shift (getRowGeometryAtPosition y l) g) g) (\<lambda>g'.
                   Inr (nt\<lparr>nt_current := Some g'\<rparr>))) (\<lambda>nt'.
        Inr (nt', updateHighlightedPeriods G nt' l)))"

text \<open>Enter carries the name the user gives, empty when the dialog is cancelled.\<close>

datatype tool_key = Escape | Backspace | Enter string | OtherKey

definition commit_ghost :: "string \<Rightarrow> ('d, 'p) ghost \<Rightarrow> 'p reservation" where
  "commit_ghost descr g = (gh_reservation g)\<lparr>res_status := New, res_description := descr\<rparr>"

definition new_keyPress ::
    "('d::linorder, 'p) gregorian \<Rightarrow> tool_key \<Rightarrow> ('d, 'p) new_tool \<times> ('d, 'p) board_layout
       \<Rightarrow> ('d, 'p) new_tool \<times> ('d, 'p) board_layout \<times> 'p operation list" where
  "new_keyPress G key w =
     (let nt = fst w; l = snd w in
      if nt_current nt \<noteq> None then (nt, l, [])
      else case key of
        Escape \<Rightarrow> (let (nt', l') = new_unload w in (nt', updateHighlightedPeriods G nt' l', []))
      | Backspace \<Rightarrow> (let nt' = nt\<lparr>nt_ghosts := butlast (nt_ghosts nt)\<rparr> in (nt', updateHighlightedPeriods G nt' l, []))
      | Enter descr \<Rightarrow>
          if nt_ghosts nt = [] then (nt, updateHighlightedPeriods G nt l, [])
          else if descr = [] then (nt, l, [])
          else let nt' = nt\<lparr>nt_ghosts := []\<rparr>
               in (nt', updateHighlightedPeriods G nt' l, map (\<lambda>g. StoreNew (ReservationItem (commit_ghost descr g))) (nt_ghosts nt))
      | OtherKey \<Rightarrow> (nt, updateHighlightedPeriods G nt l, []))"

section \<open>Moving reservations\<close>

record 'p move_ghost =
  mg_reservation :: "'p reservation"
  mg_originalStatus :: reservation_status
  mg_originalRoomId :: int
  mg_atomIndex :: nat

type_synonym 'p move_tool = "'p move_ghost option"

text \<open>The pressed atom is the one at position \<open>i\<close> of the reservation.\<close>

definition move_atomMousePress :: "'p reservation \<Rightarrow> nat \<Rightarrow> 'p move_tool \<Rightarrow> 'p move_tool res" where
  "move_atomMousePress r i mt =
     (case mt of
        Some _ \<Rightarrow> Inr mt
      | None \<Rightarrow>
          assert_that (i < length (res_atoms r))
            (Inr (Some \<lparr>mg_reservation = r\<lparr>res_status := Temporary\<rparr>, mg_originalStatus = res_status r,
                        mg_originalRoomId = atom_room (res_atoms r ! i), mg_atomIndex = i\<rparr>)))"

definition move_mouseRelease :: "('d::linorder, 'p) gregorian \<Rightarrow> 'p move_tool \<Rightarrow> 'p move_tool \<times> 'p operation list" where
  "move_mouseRelease G mt =
     (None,
      case mt of
        None \<Rightarrow> []
      | Some g \<Rightarrow> [Update (ReservationItem (joinAdjacentAtoms G ((mg_reservation g)\<lparr>res_status := mg_originalStatus g\<rparr>)))])"

definition move_mouseMove ::
    "('d::linorder, 'p) gregorian \<Rightarrow> 'p planning_board \<Rightarrow> ('d, 'p) board_layout \<Rightarrow> int \<Rightarrow> 'p move_tool \<Rightarrow> 'p move_tool res" where
  "move_mouseMove G b l y mt =
     (case mt of
        None \<Rightarrow> Inr None
      | Some g \<Rightarrow>
          (case getRowGeometryAtPosition y l of
             None \<Rightarrow> Inr (Some g)
           | Some row \<Rightarrow>
               if row_type row \<noteq> RoomRow then Inr (Some g)
               else if mg_atomIndex g < length (res_atoms (mg_reservation g)) then
                 let a = res_atoms (mg_reservation g) ! mg_atomIndex g in
                 bindr (if row_id row = mg_originalRoomId g then Inr True else isFree G b (row_id row) (atom_range a)) (\<lambda>ok.
                   if ok then Inr (Some (g\<lparr>mg_reservation := (mg_reservation g)\<lparr>res_atoms :=
                       (res_atoms (mg_reservation g))[mg_atomIndex g := a\<lparr>atom_room := row_id row\<rparr>]\<rparr>\<rparr>))
                   else Inr (Some g))
               else Inl UndefinedBehaviour))"

definition move_reservationAdded :: "('d::linorder, 'p) gregorian \<Rightarrow> 'p reservation \<Rightarrow> 'p move_tool \<Rightarrow> 'p move_tool" where
  "move_reservationAdded G item mt =
     (case mt of None \<Rightarrow> None | Some g \<Rightarrow> if intersectsWith G item (mg_reservation g) then None else Some g)"

section \<open>Free dates\<close>

text \<open>
  What else the tools rely on: a period with equal ends is null, also for the date that is none, and adding the
  largest \<open>int\<close> of days to an ordinary date goes past every ordinary date.
\<close>

definition tool_calendar :: "('d::linorder, 'p) gregorian \<Rightarrow> bool" where
  "tool_calendar G \<longleftrightarrow> gregorian_ok G \<and> (\<forall>a. p_is_null G (mk_period G a a))
     \<and> (\<forall>a b. \<not> is_special G a \<longrightarrow> \<not> is_special G b \<longrightarrow> b < add_days G a int_max)"

lemma day_calendar_tools: "tool_calendar day_calendar"
  by (simp add: tool_calendar_def int_max_def)

text \<open>A date up to which a drawing may extend: ordinary, or past all ordinary dates.\<close>

definition limit_ok :: "('d::linorder, 'p) gregorian \<Rightarrow> 'd \<Rightarrow> bool" where
  "limit_ok G m \<longleftrightarrow> \<not> is_special G m \<or> (\<forall>e. \<not> is_special G e \<longrightarrow> e < m)"

lemma narrow_date_ok:
  assumes "gregorian_ok G" and "\<not> is_special G from"
  shows "\<forall>a \<in> set as. period_ok G (atom_range a) \<Longrightarrow> from \<le> m \<Longrightarrow> limit_ok G m \<Longrightarrow>
    from \<le> narrow_date G room from as m \<and> narrow_date G room from as m \<le> m \<and> limit_ok G (narrow_date G room from as m)
    \<and> (\<forall>e. \<not> is_special G e \<longrightarrow> from \<le> e \<longrightarrow> e < narrow_date G room from as m \<longrightarrow> (room, e) \<notin> atoms_nights G as)"
proof (induction as arbitrary: m)
  case (Cons a as)
  have a: "period_ok G (atom_range a)" using Cons.prems(1) by simp
  have contains: "p_contains G (atom_range a) from = (p_begin G (atom_range a) \<le> from \<and> from < p_end G (atom_range a))"
    using g_contains [OF assms(1) a assms(2)] .
  have begin_ok: "limit_ok G (p_begin G (atom_range a))" using a by (simp add: limit_ok_def period_ok_def)
  consider "atom_room a \<noteq> room" | "atom_room a = room" "p_contains G (atom_range a) from"
    | "atom_room a = room" "\<not> p_contains G (atom_range a) from" "from \<le> p_begin G (atom_range a)" "p_begin G (atom_range a) < m"
    | "atom_room a = room" "\<not> p_contains G (atom_range a) from" "\<not> (from \<le> p_begin G (atom_range a) \<and> p_begin G (atom_range a) < m)"
    by blast
  then show ?case
  proof cases
    case 1
    then show ?thesis using Cons.IH [of m] Cons.prems by (auto simp: atoms_nights_def)
  next
    case 2
    then show ?thesis using assms(2) Cons.prems(2) by (auto simp: limit_ok_def)
  next
    case 3
    then show ?thesis
      using Cons.IH [of "p_begin G (atom_range a)"] Cons.prems begin_ok by (fastforce simp: period_days_def)
  next
    case 4
    have "e \<notin> period_days G (atom_range a)" if "from \<le> e" "e < m" for e
      using 4 that contains by (auto simp: period_days_def)
    then show ?thesis using Cons.IH [of m] Cons.prems 4 by fastforce
  qed
qed auto

lemma available_limit:
  assumes "tool_calendar G" and "board_ok G b" and "\<not> is_special G from"
  shows "\<exists>n. getAvailableDaysFrom G b room from = Inr n \<and> from \<le> add_days G from n \<and> limit_ok G (add_days G from n)
    \<and> (\<forall>e. \<not> is_special G e \<longrightarrow> from \<le> e \<longrightarrow> e < add_days G from n \<longrightarrow> (room, e) \<notin> board_nights G b)"
proof -
  have G: "gregorian_ok G" using assms(1) by (simp add: tool_calendar_def)
  obtain n where n: "getAvailableDaysFrom G b room from = Inr n" "0 \<le> n"
      "\<And>e. \<not> is_special G e \<Longrightarrow> from \<le> e \<Longrightarrow> days_between G e from < n \<Longrightarrow> (room, e) \<notin> board_nights G b"
      "n = int_max \<or> (room, add_days G from n) \<in> board_nights G b"
    using getAvailableDaysFrom_ok [OF G assms(2,3)] by blast
  show ?thesis
  proof (cases "n = int_max")
    case True
    have "e < add_days G from n" if "\<not> is_special G e" for e
      using assms(1,3) that True by (auto simp: tool_calendar_def)
    moreover have "(room, e) \<notin> board_nights G b" if "\<not> is_special G e" "from \<le> e" for e
      using n(3) [OF that] g_days_bound [OF G that(1) assms(3)] True by (simp add: int_max_def)
    ultimately show ?thesis using n(1) assms(3) by (auto simp: limit_ok_def less_imp_le)
  next
    case False
    then have ord: "\<not> is_special G (add_days G from n)"
      using n(4) by (auto simp: board_nights_def atoms_nights_def period_days_def)
    have days: "days_between G (add_days G from n) from = n" by (rule g_days_of_add [OF G assms(3) ord])
    have "from \<le> add_days G from n"
      using g_days_nonpos [OF G assms(3) ord] g_days_add [OF G assms(3) ord assms(3)] g_days_self [OF G assms(3)] days n(2) by simp
    moreover have "days_between G e from < n" if "\<not> is_special G e" "e < add_days G from n" for e
      using g_days_pos [OF G ord that(1)] g_days_add [OF G ord that(1) assms(3)] that(2) days by simp
    ultimately show ?thesis using n(1,3) ord by (auto simp: limit_ok_def)
  qed
qed

section \<open>The drawing never overlaps\<close>

text \<open>
  The ghosts, the current one last, are contiguous stays, finished ones are not empty; no night is in two of them,
  and none is taken on the board.
\<close>

definition ghost_nights :: "('d::linorder, 'p) gregorian \<Rightarrow> ('d, 'p) ghost \<Rightarrow> (int \<times> 'd) set" where
  "ghost_nights G g = nights G (gh_reservation g)"

definition tool_ok :: "('d::linorder, 'p) gregorian \<Rightarrow> 'p planning_board \<Rightarrow> ('d, 'p) new_tool \<Rightarrow> bool" where
  "tool_ok G b nt \<longleftrightarrow>
     (\<forall>g \<in> set (nt_ghosts nt). res_atoms (gh_reservation g) \<noteq> [])
     \<and> (\<forall>g \<in> set (ghost_list nt). chain G (res_atoms (gh_reservation g)) \<and> \<not> is_special G (gh_startDate g)
          \<and> ghost_nights G g \<inter> board_nights G b = {})
     \<and> sorted_wrt (\<lambda>g h. ghost_nights G g \<inter> ghost_nights G h = {}) (ghost_list nt)"

lemma tool_ok_mk: "tool_ok G b mk_new_tool"
  by (simp add: tool_ok_def mk_new_tool_def ghost_list_def)

lemma ghost_atoms_nights: "atoms_nights G (concat (map (\<lambda>g. res_atoms (gh_reservation g)) gs)) = (\<Union>g \<in> set gs. ghost_nights G g)"
  by (induction gs) (simp_all add: ghost_nights_def)

lemma computeMaximumDate_ok:
  assumes "tool_calendar G" and "board_ok G b" and "tool_ok G b nt" and "\<not> is_special G from"
  shows "\<exists>m. computeMaximumDate G b nt room from = Inr m \<and> from \<le> m \<and> limit_ok G m
    \<and> (\<forall>e. \<not> is_special G e \<longrightarrow> from \<le> e \<longrightarrow> e < m \<longrightarrow> (room, e) \<notin> board_nights G b
          \<and> (\<forall>g \<in> set (nt_ghosts nt). (room, e) \<notin> ghost_nights G g))"
proof -
  let ?as = "concat (map (\<lambda>g. res_atoms (gh_reservation g)) (nt_ghosts nt))"
  have G: "gregorian_ok G" using assms(1) by (simp add: tool_calendar_def)
  obtain n where n: "getAvailableDaysFrom G b room from = Inr n" "from \<le> add_days G from n" "limit_ok G (add_days G from n)"
      "\<And>e. \<not> is_special G e \<Longrightarrow> from \<le> e \<Longrightarrow> e < add_days G from n \<Longrightarrow> (room, e) \<notin> board_nights G b"
    using available_limit [OF assms(1,2,4)] by blast
  have "\<forall>a \<in> set ?as. period_ok G (atom_range a)"
    using assms(3) chain_period_ok by (fastforce simp: tool_ok_def ghost_list_def)
  note nd = narrow_date_ok [OF G assms(4) this n(2,3), of room]
  let ?m = "narrow_date G room from ?as (add_days G from n)"
  have "computeMaximumDate G b nt room from = Inr ?m" using n(1) by (simp add: computeMaximumDate_def)
  moreover have "(room, e) \<notin> board_nights G b \<and> (\<forall>g \<in> set (nt_ghosts nt). (room, e) \<notin> ghost_nights G g)"
    if "\<not> is_special G e" "from \<le> e" "e < ?m" for e
  proof -
    have "e < add_days G from n" using nd that(3) by (blast intro: less_le_trans)
    moreover have "(room, e) \<notin> atoms_nights G ?as" using nd that by blast
    ultimately show ?thesis using n(4) that by (simp add: ghost_atoms_nights)
  qed
  ultimately show ?thesis using nd by blast
qed

text \<open>The target of a drawing continues the stay: what it keeps of the ghost ends where it starts.\<close>

lemma drawing_target_ok:
  assumes "chain G (res_atoms (gh_reservation g))" and "\<not> is_special G (gh_startDate g)"
    and "drawing_target G shift row g = (room, modify, from)"
  defines "r \<equiv> if modify then removeLastAtom (gh_reservation g) else gh_reservation g"
  shows "\<not> is_special G from \<and> chain G (res_atoms r) \<and> nights G r \<subseteq> ghost_nights G g
    \<and> (res_atoms r \<noteq> [] \<longrightarrow> p_end G (atom_range (last (res_atoms r))) = from)"
proof (cases "res_atoms (gh_reservation g)" rule: rev_cases)
  case Nil
  then show ?thesis using assms(2,3)
    by (auto simp: r_def drawing_target_def lastAtom_eq Let_def ghost_nights_def split: option.splits if_splits)
next
  case (snoc as a)
  have ends: "\<not> is_special G (p_begin G (atom_range a))" "\<not> is_special G (p_end G (atom_range a))"
    using assms(1) snoc by (auto simp: chain_append_one period_ok_def)
  show ?thesis using assms(1,3) snoc ends
    by (auto simp: r_def drawing_target_def lastAtom_eq Let_def ghost_nights_def removeLastAtom_def chain_append_one
        split: option.splits if_splits)
qed

lemma draw_to_ok:
  assumes cal: "tool_calendar G" and b: "board_ok G b" and nt: "tool_ok G b nt" and cur: "nt_current nt = Some g"
    and date: "\<not> is_special G currentDate" and target: "drawing_target G shift row g = (room, modify, from)"
  shows "\<exists>g'. draw_to G b nt currentDate (room, modify, from) g = Inr g' \<and> tool_ok G b (nt\<lparr>nt_current := Some g'\<rparr>)"
proof -
  let ?r = "if modify then removeLastAtom (gh_reservation g) else gh_reservation g"
  have G: "gregorian_ok G" using cal by (simp add: tool_calendar_def)
  have g: "chain G (res_atoms (gh_reservation g))" "\<not> is_special G (gh_startDate g)" "ghost_nights G g \<inter> board_nights G b = {}"
      "\<And>h. h \<in> set (nt_ghosts nt) \<Longrightarrow> ghost_nights G h \<inter> ghost_nights G g = {}"
    using nt cur by (auto simp: tool_ok_def ghost_list_def sorted_wrt_append)
  have others: "\<And>h. h \<in> set (nt_ghosts nt) \<Longrightarrow> res_atoms (gh_reservation h) \<noteq> [] \<and> chain G (res_atoms (gh_reservation h))
      \<and> \<not> is_special G (gh_startDate h) \<and> ghost_nights G h \<inter> board_nights G b = {}"
      "sorted_wrt (\<lambda>g h. ghost_nights G g \<inter> ghost_nights G h = {}) (nt_ghosts nt)"
    using nt cur by (auto simp: tool_ok_def ghost_list_def sorted_wrt_append)
  have replaced: "tool_ok G b (nt\<lparr>nt_current := Some g'\<rparr>)"
    if ch: "chain G (res_atoms (gh_reservation g'))" "gh_startDate g' = gh_startDate g" and new:
      "\<And>room e. (room, e) \<in> ghost_nights G g' \<Longrightarrow> (room, e) \<in> ghost_nights G g
         \<or> (room, e) \<notin> board_nights G b \<and> (\<forall>h \<in> set (nt_ghosts nt). (room, e) \<notin> ghost_nights G h)" for g'
  proof -
    have "ghost_nights G g' \<inter> board_nights G b = {}" using new g(3) by fast
    moreover have "ghost_nights G h \<inter> ghost_nights G g' = {}" if h: "h \<in> set (nt_ghosts nt)" for h
      using new g(4) [OF h] h by fast
    ultimately show ?thesis using ch g(2) others by (auto simp: tool_ok_def ghost_list_def sorted_wrt_append)
  qed
  note t = drawing_target_ok [OF g(1,2) target]
  obtain m where m: "computeMaximumDate G b nt room from = Inr m" "from \<le> m" "limit_ok G m"
      "\<And>e. \<not> is_special G e \<Longrightarrow> from \<le> e \<Longrightarrow> e < m \<Longrightarrow> (room, e) \<notin> board_nights G b
          \<and> (\<forall>h \<in> set (nt_ghosts nt). (room, e) \<notin> ghost_nights G h)"
    using computeMaximumDate_ok [OF cal b nt, of "from" room] t by blast
  define d1 where "d1 = (if currentDate < from then from else currentDate)"
  define d2 where "d2 = (if m < d1 then m else d1)"
  have d1: "\<not> is_special G d1" "from \<le> d1" using date t by (auto simp: d1_def)
  have d2: "\<not> is_special G d2" "from \<le> d2" "d2 \<le> m"
    using d1 m(2,3) by (auto simp: d2_def limit_ok_def dest: less_asym)
  have reg: "period_regular G (mk_period G from d2)" using t d2(1) G by (simp add: period_regular_def g_begin g_end)
  have null: "p_is_null G (mk_period G from d2) \<longleftrightarrow> d2 \<le> from"
    using g_is_null [OF G reg] t d2(1) G by (simp add: g_begin g_end)
  have eq: "draw_to G b nt currentDate (room, modify, from) g
      = bindr (if \<not> p_is_null G (mk_period G from d2) then addAtom G room (mk_period G from d2) ?r else Inr ?r) (\<lambda>r'. Inr (g\<lparr>gh_reservation := r'\<rparr>))"
    by (simp add: draw_to_def m(1) Let_def d1_def d2_def)
  show ?thesis
  proof (cases "d2 \<le> from")
    case True
    have "tool_ok G b (nt\<lparr>nt_current := Some (g\<lparr>gh_reservation := ?r\<rparr>)\<rparr>)"
      using t by (intro replaced) (auto simp: ghost_nights_def)
    then show ?thesis using eq null True by (intro exI [of _ "g\<lparr>gh_reservation := ?r\<rparr>"]) simp
  next
    case False
    let ?a = "mk_atom room (mk_period G from d2)"
    let ?s = "?r\<lparr>res_atoms := res_atoms ?r @ [?a]\<rparr>"
    have p: "period_ok G (mk_period G from d2)" using False t d2(1) G by (simp add: period_ok_def g_begin g_end)
    have ch: "chain G (res_atoms ?r @ [?a])" using t p G by (simp add: chain_append_one mk_atom_def g_begin)
    have "addAtom G room (mk_period G from d2) ?r = Inr ?s"
      using t null False G by (simp add: addAtom_def lastAtom_eq g_begin)
    moreover have "tool_ok G b (nt\<lparr>nt_current := Some (g\<lparr>gh_reservation := ?s\<rparr>)\<rparr>)"
    proof (rule replaced)
      show "chain G (res_atoms (gh_reservation (g\<lparr>gh_reservation := ?s\<rparr>)))" using ch by simp
      show "gh_startDate (g\<lparr>gh_reservation := ?s\<rparr>) = gh_startDate g" by simp
      fix i e
      assume "(i, e) \<in> ghost_nights G (g\<lparr>gh_reservation := ?s\<rparr>)"
      then have "(i, e) \<in> nights G ?r \<or> i = room \<and> e \<in> period_days G (mk_period G from d2)"
        by (simp add: ghost_nights_def) (auto simp: mk_atom_def)
      then show "(i, e) \<in> ghost_nights G g
         \<or> (i, e) \<notin> board_nights G b \<and> (\<forall>h \<in> set (nt_ghosts nt). (i, e) \<notin> ghost_nights G h)"
      proof
        assume "i = room \<and> e \<in> period_days G (mk_period G from d2)"
        then have "i = room" "\<not> is_special G e" "from \<le> e" "e < d2" using t d2(1) G by (auto simp: period_days_def g_begin g_end)
        then show ?thesis using m(4) [of e] less_le_trans [OF _ d2(3)] by blast
      qed (use t in blast)
    qed
    ultimately show ?thesis using eq null False by (intro exI [of _ "g\<lparr>gh_reservation := ?s\<rparr>"]) simp
  qed
qed

lemma new_mousePress_ok:
  assumes "tool_calendar G" and "board_ok G b" and "tool_ok G b nt" and "\<not> is_special G (fst (getNearestDatePosition G x l))"
  shows "\<exists>nt' l'. new_mousePress G b x y (nt, l) = Inr (nt', l') \<and> tool_ok G b nt'"
proof -
  let ?g = "\<lambda>i. \<lparr>gh_reservation = (mk_reservation ''new'')\<lparr>res_status := Temporary\<rparr>, gh_startRoomId = i,
      gh_startDate = fst (getNearestDatePosition G x l)\<rparr>"
  have "tool_ok G b (nt\<lparr>nt_current := Some (?g i)\<rparr>)" for i
    using assms(3,4) by (auto simp: tool_ok_def ghost_list_def mk_reservation_def ghost_nights_def sorted_wrt_append split: option.splits)
  moreover obtain m where "computeMaximumDate G b nt room (fst (getNearestDatePosition G x l)) = Inr (m room)" for room
    using computeMaximumDate_ok [OF assms] by metis
  ultimately show ?thesis using assms(3) by (auto simp: new_mousePress_def Let_def split: option.split)
qed

lemma new_mouseMove_ok:
  assumes "tool_calendar G" and "board_ok G b" and "tool_ok G b nt" and "\<not> is_special G (fst (getNearestDatePosition G x l))"
  shows "\<exists>nt' l'. new_mouseMove G b shift x y (nt, l) = Inr (nt', l') \<and> tool_ok G b nt'"
proof (cases "nt_current nt")
  case None
  then show ?thesis using assms(3) by (simp add: new_mouseMove_def)
next
  case (Some g)
  obtain room modify "from" where t: "drawing_target G shift (getRowGeometryAtPosition y l) g = (room, modify, from)"
    using prod_cases3 by blast
  show ?thesis using draw_to_ok [OF assms(1-3) Some assms(4) t] t Some by (auto simp: new_mouseMove_def Let_def)
qed

lemma new_mouseRelease_ok:
  assumes "tool_calendar G" and "tool_ok G b nt"
  shows "tool_ok G b (new_mouseRelease G nt)"
proof (cases "nt_current nt")
  case None
  then show ?thesis using assms(2) by (simp add: new_mouseRelease_def)
next
  case (Some g)
  have null: "p_is_null G (dateRange G (gh_reservation g))" if "res_atoms (gh_reservation g) = []"
    using that assms(1) by (simp add: dateRange_def isValid_def tool_calendar_def)
  show ?thesis using assms(2) Some null
    by (auto simp: new_mouseRelease_def tool_ok_def ghost_list_def sorted_wrt_append)
qed

lemma new_keyPress_ok:
  assumes "tool_ok G b nt" and "new_keyPress G key (nt, l) = (nt', l', ops)"
  shows "tool_ok G b nt'"
proof -
  have gone: "tool_ok G b (nt\<lparr>nt_ghosts := gs\<rparr>)" if "nt_current nt = None" "nt_ghosts nt = gs @ hs" for gs hs
    using assms(1) that by (auto simp: tool_ok_def ghost_list_def sorted_wrt_append)
  have last: "tool_ok G b (nt\<lparr>nt_ghosts := butlast (nt_ghosts nt)\<rparr>)" if "nt_current nt = None"
    using gone [OF that, of "butlast (nt_ghosts nt)" "drop (length (nt_ghosts nt) - 1) (nt_ghosts nt)"] by (simp add: butlast_conv_take)
  show ?thesis
    using assms gone [of "[]" "nt_ghosts nt"] last
    by (auto simp: new_keyPress_def new_unload_def Let_def tool_ok_mk split: if_splits tool_key.splits)
qed

lemma sorted_wrt_filter': "sorted_wrt P xs \<Longrightarrow> sorted_wrt P (filter Q xs)"
  by (induction xs) auto

lemma new_reservationAdded_list:
  "ghost_list (new_reservationAdded G item nt) = filter (\<lambda>g. \<not> intersectsWith G item (gh_reservation g)) (ghost_list nt)"
  by (auto simp: new_reservationAdded_def ghost_list_def split: option.split)

lemma new_reservationAdded_ok:
  assumes "tool_ok G b nt"
  shows "tool_ok G b (new_reservationAdded G item nt)"
  using assms unfolding tool_ok_def new_reservationAdded_list
  by (auto simp: new_reservationAdded_def sorted_wrt_filter')

text \<open>After a reservation was added to the board, no ghost shares a night with it.\<close>

lemma added_ok:
  assumes "gregorian_ok G" and "tool_ok G b nt" and "reservation_ok G item" and "board_nights G b' \<subseteq> board_nights G b \<union> nights G item"
  shows "tool_ok G b' (new_reservationAdded G item nt)"
proof -
  have "ghost_nights G g \<inter> board_nights G b' = {}" if "g \<in> set (ghost_list (new_reservationAdded G item nt))" for g
  proof -
    have g: "g \<in> set (ghost_list nt)" "\<not> intersectsWith G item (gh_reservation g)"
      using that by (auto simp: new_reservationAdded_list)
    have ch: "chain G (res_atoms (gh_reservation g))" "ghost_nights G g \<inter> board_nights G b = {}"
      using assms(2) g(1) by (auto simp: tool_ok_def)
    then have "nights G item \<inter> ghost_nights G g = {}"
      using intersectsWith_chain [OF assms(1), of item "gh_reservation g"] assms(3) g(2)
      by (simp add: reservation_ok_def ghost_nights_def)
    then show ?thesis using ch(2) assms(4) by blast
  qed
  then show ?thesis using new_reservationAdded_ok [OF assms(2), of item] by (simp add: tool_ok_def)
qed

lemma tool_ok_subset: "tool_ok G b nt \<Longrightarrow> board_nights G b' \<subseteq> board_nights G b \<Longrightarrow> tool_ok G b' nt"
  by (fastforce simp: tool_ok_def)

lemma remove_id_subset: "set (pb_reservations (removeReservationId i b)) \<subseteq> set (pb_reservations b)"
  by (auto simp: removeReservationId_def split: option.splits dest: in_set_takeD in_set_dropD)

lemma remove_id_nights: "board_nights G (removeReservationId i b) \<subseteq> board_nights G b"
  using remove_id_subset by (auto simp: board_nights_def)

section \<open>Runs of the drawing tool\<close>

text \<open>
  The runs of an active tool on a board that changes under it: the mouse at positions of ordinary dates, keys,
  other layouts, removals from the board, and additions, of which the context tells the tool first.
\<close>

type_synonym ('d, 'p) drawing = "'p planning_board \<times> ('d, 'p) board_layout \<times> ('d, 'p) new_tool"

inductive drawing_reachable :: "('d::linorder, 'p) gregorian \<Rightarrow> ('d, 'p) drawing \<Rightarrow> bool" for G where
  start: "board_reachable G b \<Longrightarrow> drawing_reachable G (b, l, mk_new_tool)"
| press: "drawing_reachable G (b, l, nt) \<Longrightarrow> \<not> is_special G (fst (getNearestDatePosition G x l)) \<Longrightarrow>
    new_mousePress G b x y (nt, l) = Inr (nt', l') \<Longrightarrow> drawing_reachable G (b, l', nt')"
| move: "drawing_reachable G (b, l, nt) \<Longrightarrow> \<not> is_special G (fst (getNearestDatePosition G x l)) \<Longrightarrow>
    new_mouseMove G b shift x y (nt, l) = Inr (nt', l') \<Longrightarrow> drawing_reachable G (b, l', nt')"
| release: "drawing_reachable G (b, l, nt) \<Longrightarrow> drawing_reachable G (b, l, new_mouseRelease G nt)"
| key: "drawing_reachable G (b, l, nt) \<Longrightarrow> new_keyPress G k (nt, l) = (nt', l', ops) \<Longrightarrow> drawing_reachable G (b, l', nt')"
| layout: "drawing_reachable G (b, l, nt) \<Longrightarrow> drawing_reachable G (b, l', nt)"
| added: "drawing_reachable G (b, l, nt) \<Longrightarrow> fst e \<notin> fst ` set (pb_reservations b) \<Longrightarrow> atoms_regular G (snd e) \<Longrightarrow>
    addReservation G (Some e) b = Inr b' \<Longrightarrow> drawing_reachable G (b', l, new_reservationAdded G (snd e) nt)"
| rejected: "drawing_reachable G (b, l, nt) \<Longrightarrow> drawing_reachable G (b, l, new_reservationAdded G item nt)"
| removed: "drawing_reachable G (b, l, nt) \<Longrightarrow> drawing_reachable G (removeReservationId i b, l, nt)"

lemma drawing_ok:
  assumes "drawing_reachable G w" and "tool_calendar G"
  shows "case w of (b, l, nt) \<Rightarrow> board_reachable G b \<and> tool_ok G b nt"
  using assms(1)
proof (induction rule: drawing_reachable.induct)
  case (start b l)
  then show ?case by (simp add: tool_ok_mk)
next
  case (press b l nt x y nt' l')
  have G: "gregorian_ok G" using assms(2) by (simp add: tool_calendar_def)
  show ?case using press new_mousePress_ok [OF assms(2) board_reachable_ok [OF _ G], of b nt x l y] by auto
next
  case (move b l nt x shift y nt' l')
  have G: "gregorian_ok G" using assms(2) by (simp add: tool_calendar_def)
  show ?case using move new_mouseMove_ok [OF assms(2) board_reachable_ok [OF _ G], of b nt x l shift y] by auto
next
  case (release b l nt)
  then show ?case using new_mouseRelease_ok [OF assms(2)] by simp
next
  case (key b l nt k nt' l' ops)
  then show ?case using new_keyPress_ok [of G b nt k l nt' l' ops] by auto
next
  case (layout b l nt l')
  then show ?case by simp
next
  case (added b l nt e b')
  have G: "gregorian_ok G" using assms(2) by (simp add: tool_calendar_def)
  have b: "board_reachable G b" "tool_ok G b nt" using added by auto
  have "reservation_ok G (snd e) \<and> pb_reservations b' = pb_reservations b @ [e]"
    using addReservation_outcome_lemma [OF G board_reachable_ok [OF b(1) G] added(2,3)] added(4) by (auto split: if_splits)
  then have "tool_ok G b' (new_reservationAdded G (snd e) nt)"
    using added_ok [OF G b(2), of "snd e" b'] by (simp add: board_nights_def Un_commute)
  then show ?case using board_reachable.add [OF b(1) added(2-4)] by simp
next
  case (rejected b l nt item)
  then show ?case using new_reservationAdded_ok by auto
next
  case (removed b l nt i)
  then show ?case using board_reachable.remove_id [of G b i] tool_ok_subset [OF _ remove_id_nights] by auto
qed

section \<open>Properties\<close>

text \<open>C10 Drawing never overlaps.  On every run of the tool, whatever is added to or removed from the board meanwhile,
  no mouse event at an ordinary date fails, and the reservations that Enter sends to be stored are all new, carry
  the name given, can each be added to the board as it is, and no two of them share a room night.\<close>

theorem drawn_reservations_fit:
  assumes "tool_calendar G" and "drawing_reachable G (b, l, nt)"
  shows "(\<forall>x y. \<not> is_special G (fst (getNearestDatePosition G x l)) \<longrightarrow>
        returns (new_mousePress G b x y (nt, l)) \<and> (\<forall>shift. returns (new_mouseMove G b shift x y (nt, l))))
    \<and> (\<forall>descr nt' l' ops. new_keyPress G (Enter descr) (nt, l) = (nt', l', ops) \<longrightarrow>
        (\<exists>rs. ops = map (\<lambda>r. StoreNew (ReservationItem r)) rs
          \<and> (\<forall>r \<in> set rs. res_status r = New \<and> res_description r = descr \<and> canAddReservation G b r = Inr True)
          \<and> sorted_wrt (\<lambda>r s. nights G r \<inter> nights G s = {}) rs))"
proof (intro conjI allI impI)
  have G: "gregorian_ok G" using assms(1) by (simp add: tool_calendar_def)
  have b: "board_ok G b" and nt: "tool_ok G b nt"
    using drawing_ok [OF assms(2,1)] board_reachable_ok [OF _ G] by auto
  fix x y shift
  assume x: "\<not> is_special G (fst (getNearestDatePosition G x l))"
  show "returns (new_mousePress G b x y (nt, l))" using new_mousePress_ok [OF assms(1) b nt x, of y] by (auto simp: returns_def)
  show "returns (new_mouseMove G b shift x y (nt, l))" using new_mouseMove_ok [OF assms(1) b nt x, of shift y] by (auto simp: returns_def)
next
  have G: "gregorian_ok G" using assms(1) by (simp add: tool_calendar_def)
  have b: "board_ok G b" and nt: "tool_ok G b nt"
    using drawing_ok [OF assms(2,1)] board_reachable_ok [OF _ G] by auto
  fix descr nt' l' ops
  assume key: "new_keyPress G (Enter descr) (nt, l) = (nt', l', ops)"
  show "\<exists>rs. ops = map (\<lambda>r. StoreNew (ReservationItem r)) rs
          \<and> (\<forall>r \<in> set rs. res_status r = New \<and> res_description r = descr \<and> canAddReservation G b r = Inr True)
          \<and> sorted_wrt (\<lambda>r s. nights G r \<inter> nights G s = {}) rs"
  proof (cases "ops = []")
    case True
    then show ?thesis by (intro exI [of _ "[]"]) simp
  next
    case False
    let ?rs = "map (commit_ghost descr) (nt_ghosts nt)"
    have ops: "ops = map (\<lambda>r. StoreNew (ReservationItem r)) ?rs"
      using key False by (auto simp: new_keyPress_def Let_def split: if_splits)
    have "canAddReservation G b (commit_ghost descr g) = Inr True" if "g \<in> set (nt_ghosts nt)" for g
    proof -
      have "reservation_ok G (commit_ghost descr g)" "board_nights G b \<inter> nights G (commit_ghost descr g) = {}"
        using nt that by (auto simp: tool_ok_def ghost_list_def reservation_ok_def commit_ghost_def ghost_nights_def)
      then show ?thesis by (simp add: canAddReservation_ok [OF G b reservation_ok_regular])
    qed
    moreover have "sorted_wrt (\<lambda>r s. nights G r \<inter> nights G s = {}) ?rs"
      using nt by (simp add: tool_ok_def ghost_list_def sorted_wrt_append sorted_wrt_map commit_ghost_def ghost_nights_def)
    ultimately show ?thesis using ops by (intro exI [of _ ?rs]) (auto simp: commit_ghost_def)
  qed
qed

definition demo_rows :: "(int, int \<times> int) board_layout" where
  "demo_rows = (mk_board_layout 5)\<lparr>bl_rows := [mk_row_geometry RoomRow 0 22 True 3]\<rparr>"

definition demo_ghost :: "(int \<times> int) reservation_atom list \<Rightarrow> (int, int \<times> int) ghost" where
  "demo_ghost as = \<lparr>gh_reservation = (mk_reservation ''new'')\<lparr>res_status := Temporary, res_atoms := as\<rparr>,
      gh_startRoomId = 3, gh_startDate = 5\<rparr>"

lemma demo_rows_simps:
  "getNearestDatePosition day_calendar 0 demo_rows = (5, 0)" "getNearestDatePosition day_calendar 52 (setHighlightedPeriods ps demo_rows) = (7, 52)"
  "getRowGeometryAtPosition 9 demo_rows = Some (mk_row_geometry RoomRow 0 22 True 3)"
  "getRowGeometryAtPosition 9 (setHighlightedPeriods ps demo_rows) = Some (mk_row_geometry RoomRow 0 22 True 3)"
  by (simp_all add: demo_rows_def mk_board_layout_def getNearestDatePosition_def getRowGeometryAtPosition_def mk_row_geometry_def
      row_bottom_def setHighlightedPeriods_def)

lemma demo_free: "computeMaximumDate day_calendar empty_board nt 3 5 = Inr (narrow_date day_calendar 3 5
    (concat (map (\<lambda>g. res_atoms (gh_reservation g)) (nt_ghosts nt))) 2147483652)"
  by (simp add: computeMaximumDate_def getAvailableDaysFrom_def empty_board_def omap_find_def int_max_def)

text \<open>Pressing at the fifth day, moving to the seventh and releasing.\<close>

lemma demo_drawing: "\<exists>l. drawing_reachable day_calendar (empty_board, l, \<lparr>nt_ghosts = [demo_ghost [mk_atom 3 (5, 7)]], nt_current = None\<rparr>)"
proof -
  let ?w0 = "(empty_board, demo_rows, mk_new_tool)"
  let ?nt1 = "\<lparr>nt_ghosts = [], nt_current = Some (demo_ghost [])\<rparr>" and ?nt2 = "\<lparr>nt_ghosts = [], nt_current = Some (demo_ghost [mk_atom 3 (5, 7)])\<rparr>"
  have w0: "drawing_reachable day_calendar ?w0" by (rule drawing_reachable.start [OF board_reachable.construct])
  have "new_mousePress day_calendar empty_board 0 9 (mk_new_tool, demo_rows) = Inr (?nt1, setHighlightedPeriods [] demo_rows)"
    by (simp add: new_mousePress_def demo_rows_simps Let_def mk_row_geometry_def demo_free mk_new_tool_def demo_ghost_def
        updateHighlightedPeriods_def ghost_list_def mk_reservation_def isValid_def)
  then have w1: "drawing_reachable day_calendar (empty_board, setHighlightedPeriods [] demo_rows, ?nt1)"
    by (rule drawing_reachable.press [OF w0, rotated]) (simp add: demo_rows_simps)
  have "\<exists>l. new_mouseMove day_calendar empty_board False 52 9 (?nt1, setHighlightedPeriods [] demo_rows) = Inr (?nt2, l)"
    by (simp add: new_mouseMove_def demo_rows_simps Let_def drawing_target_def demo_ghost_def mk_reservation_def lastAtom_eq draw_to_def
        demo_free mk_row_geometry_def addAtom_def)
  then obtain l where "new_mouseMove day_calendar empty_board False 52 9 (?nt1, setHighlightedPeriods [] demo_rows) = Inr (?nt2, l)" by blast
  then have "drawing_reachable day_calendar (empty_board, l, ?nt2)"
    by (rule drawing_reachable.move [OF w1, rotated]) (simp add: demo_rows_simps)
  then have "drawing_reachable day_calendar (empty_board, l, new_mouseRelease day_calendar ?nt2)" by (rule drawing_reachable.release)
  then show ?thesis
    by (simp add: new_mouseRelease_def demo_ghost_def dateRange_def isValid_def mk_reservation_def mk_atom_def) blast
qed

theorem drawn_reservations_fit_witness:
  "canAddReservation day_calendar empty_board (commit_ghost ''Doe'' (demo_ghost [mk_atom 3 (5, 7)])) = Inr True"
proof -
  let ?nt = "\<lparr>nt_ghosts = [demo_ghost [mk_atom 3 (5, 7)]], nt_current = None\<rparr>"
  obtain l where l: "drawing_reachable day_calendar (empty_board, l, ?nt)" using demo_drawing by blast
  obtain nt' l' where "new_keyPress day_calendar (Enter ''Doe'') (?nt, l)
      = (nt', l', [StoreNew (ReservationItem (commit_ghost ''Doe'' (demo_ghost [mk_atom 3 (5, 7)])))])"
    by (auto simp: new_keyPress_def Let_def)
  then show ?thesis
    using drawn_reservations_fit [OF day_calendar_tools l] by (fastforce simp: map_eq_Cons_conv)
qed

section \<open>Moving keeps the plan free of conflicts\<close>

text \<open>What the drag keeps: only the room of the pressed atom changes, to the original one or to a free one.\<close>

definition dragged ::
    "('d::linorder, 'p) gregorian \<Rightarrow> 'p planning_board \<Rightarrow> 'p reservation \<Rightarrow> nat \<Rightarrow> 'p move_ghost \<Rightarrow> bool" where
  "dragged G b r i g \<longleftrightarrow>
     (\<exists>room. g = \<lparr>mg_reservation = r\<lparr>res_status := Temporary, res_atoms := (res_atoms r)[i := (res_atoms r ! i)\<lparr>atom_room := room\<rparr>]\<rparr>,
          mg_originalStatus = res_status r, mg_originalRoomId = atom_room (res_atoms r ! i), mg_atomIndex = i\<rparr>
        \<and> (room = atom_room (res_atoms r ! i) \<or> board_nights G b \<inter> {room} \<times> period_days G (atom_range (res_atoms r ! i)) = {}))"

lemma dragged_press:
  assumes "i < length (res_atoms r)"
  shows "\<exists>g. move_atomMousePress r i None = Inr (Some g) \<and> dragged G b r i g"
proof -
  let ?g = "\<lparr>mg_reservation = r\<lparr>res_status := Temporary\<rparr>, mg_originalStatus = res_status r,
      mg_originalRoomId = atom_room (res_atoms r ! i), mg_atomIndex = i\<rparr>"
  have "(res_atoms r)[i := (res_atoms r ! i)\<lparr>atom_room := atom_room (res_atoms r ! i)\<rparr>] = res_atoms r"
    using assms by (cases "res_atoms r ! i") (simp add: list_update_same_conv)
  then have "dragged G b r i ?g" unfolding dragged_def by (intro exI [of _ "atom_room (res_atoms r ! i)"]) (cases r; simp)
  then show ?thesis using assms by (simp add: move_atomMousePress_def assert_that_def)
qed

lemma dragged_move:
  assumes "gregorian_ok G" and "board_ok G b" and "reservation_ok G r" and "i < length (res_atoms r)" and "dragged G b r i g"
  shows "\<exists>g'. move_mouseMove G b l y (Some g) = Inr (Some g') \<and> dragged G b r i g'"
proof (cases "getRowGeometryAtPosition y l")
  case None
  then show ?thesis using assms(5) by (simp add: move_mouseMove_def)
next
  case (Some row)
  obtain room where g: "g = \<lparr>mg_reservation = r\<lparr>res_status := Temporary, res_atoms := (res_atoms r)[i := (res_atoms r ! i)\<lparr>atom_room := room\<rparr>]\<rparr>,
          mg_originalStatus = res_status r, mg_originalRoomId = atom_room (res_atoms r ! i), mg_atomIndex = i\<rparr>"
    using assms(5) by (auto simp: dragged_def)
  have p: "period_ok G (atom_range (res_atoms r ! i))" using assms(3,4) chain_period_ok [of G "res_atoms r" "res_atoms r ! i"] by (simp add: reservation_ok_def)
  let ?g = "g\<lparr>mg_reservation := (mg_reservation g)\<lparr>res_atoms := (res_atoms r)[i := (res_atoms r ! i)\<lparr>atom_room := row_id row\<rparr>]\<rparr>\<rparr>"
  have new: "dragged G b r i ?g"
    if "row_id row = atom_room (res_atoms r ! i) \<or> board_nights G b \<inter> {row_id row} \<times> period_days G (atom_range (res_atoms r ! i)) = {}"
    unfolding dragged_def using that by (intro exI [of _ "row_id row"]) (simp add: g)
  define free where "free \<longleftrightarrow> board_nights G b \<inter> {row_id row} \<times> period_days G (atom_range (res_atoms r ! i)) = {}"
  have isFree: "isFree G b (row_id row) (atom_range (res_atoms r ! i)) = Inr free"
    unfolding free_def by (rule isFree_ok [OF assms(1,2) p])
  have "move_mouseMove G b l y (Some g) = Inr (Some (if row_type row = RoomRow \<and> (row_id row = atom_room (res_atoms r ! i) \<or> free) then ?g else g))"
    using Some assms(4) isFree
    by (cases "row_type row = RoomRow"; cases "row_id row = atom_room (res_atoms r ! i)"; cases free) (simp_all add: move_mouseMove_def g Let_def)
  then show ?thesis using new assms(5) by (simp add: free_def)
qed

lemma dragged_moves:
  assumes "gregorian_ok G" and "board_ok G b" and "reservation_ok G r" and "i < length (res_atoms r)"
  shows "dragged G b r i g \<Longrightarrow> \<exists>g'. fold_res (\<lambda>(l, y). move_mouseMove G b l y) moves (Some g) = Inr (Some g') \<and> dragged G b r i g'"
proof (induction moves arbitrary: g)
  case (Cons m moves)
  obtain l y where m: "m = (l, y)" by (cases m)
  obtain g1 where "move_mouseMove G b l y (Some g) = Inr (Some g1)" "dragged G b r i g1"
    using dragged_move [OF assms Cons.prems] by blast
  then show ?case using Cons.IH m by simp
qed auto

lemma chain_update_room: "chain G xs \<Longrightarrow> chain G (xs[i := (xs ! i)\<lparr>atom_room := room\<rparr>])"
  by (cases "i < length xs") (auto simp: chain_iff_nth nth_list_update)

lemma nights_update_room:
  "i < length xs \<Longrightarrow> atoms_nights G (xs[i := (xs ! i)\<lparr>atom_room := room\<rparr>])
     \<subseteq> atoms_nights G xs \<union> {room} \<times> period_days G (atom_range (xs ! i))"
  by (auto simp: atoms_nights_def dest!: set_update_subset_insert [THEN subsetD])

text \<open>C11 While the board does not change, dragging an atom of a reservation on it over any rooms and releasing it sends exactly
  one update.  It is for the same reservation and revision, with its status, description, owner and dates, is valid, and shares no
  room night with any other reservation on the board.  Nothing is said of a drag during which the board changes: an added reservation
  ends the drag without an update, and a removed one may leave a room that is then taken.\<close>

theorem moved_reservation_fits:
  assumes "gregorian_ok G" and "board_ok G b" and "e \<in> set (pb_reservations b)" and "i < length (res_atoms (snd e))"
  shows "\<exists>mt r. bindr (move_atomMousePress (snd e) i None) (fold_res (\<lambda>(l, y). move_mouseMove G b l y) moves) = Inr mt
    \<and> move_mouseRelease G mt = (None, [Update (ReservationItem r)])
    \<and> obj_id r = obj_id (snd e) \<and> obj_revision r = obj_revision (snd e) \<and> res_status r = res_status (snd e)
    \<and> res_description r = res_description (snd e) \<and> res_owner r = res_owner (snd e)
    \<and> reservation_ok G r \<and> dateRange G r = dateRange G (snd e)
    \<and> (\<forall>f \<in> set (pb_reservations b). fst f \<noteq> fst e \<longrightarrow> nights G r \<inter> nights G (snd f) = {})"
proof -
  let ?r = "snd e"
  have r: "reservation_ok G ?r" using board_ok_reservation [OF assms(2,3)] .
  obtain g0 where g0: "move_atomMousePress ?r i None = Inr (Some g0)" "dragged G b ?r i g0" using dragged_press [OF assms(4)] by blast
  obtain g where g: "fold_res (\<lambda>(l, y). move_mouseMove G b l y) moves (Some g0) = Inr (Some g)" "dragged G b ?r i g"
    using dragged_moves [OF assms(1,2) r assms(4) g0(2)] by blast
  obtain room where g': "g = \<lparr>mg_reservation = ?r\<lparr>res_status := Temporary, res_atoms := (res_atoms ?r)[i := (res_atoms ?r ! i)\<lparr>atom_room := room\<rparr>]\<rparr>,
          mg_originalStatus = res_status ?r, mg_originalRoomId = atom_room (res_atoms ?r ! i), mg_atomIndex = i\<rparr>"
      and room: "room = atom_room (res_atoms ?r ! i) \<or> board_nights G b \<inter> {room} \<times> period_days G (atom_range (res_atoms ?r ! i)) = {}"
    using g(2) unfolding dragged_def by blast
  let ?s = "?r\<lparr>res_atoms := (res_atoms ?r)[i := (res_atoms ?r ! i)\<lparr>atom_room := room\<rparr>]\<rparr>"
  have s: "(mg_reservation g)\<lparr>res_status := mg_originalStatus g\<rparr> = ?s" by (simp add: g')
  have ok: "reservation_ok G ?s" using r chain_update_room by (auto simp: reservation_ok_def)
  have range: "dateRange G ?s = dateRange G ?r"
  proof -
    have "atom_range (hd (res_atoms ?s)) = atom_range (hd (res_atoms ?r))" "atom_range (last (res_atoms ?s)) = atom_range (last (res_atoms ?r))"
    proof -
      have m: "map atom_range (res_atoms ?s) = map atom_range (res_atoms ?r)"
        using assms(4) by (simp add: map_update list_update_same_conv)
      have ne: "res_atoms ?r \<noteq> []" "res_atoms ?s \<noteq> []" using assms(4) by auto
      show "atom_range (hd (res_atoms ?s)) = atom_range (hd (res_atoms ?r))"
        using arg_cong [OF m, of hd] hd_map [OF ne(1), of atom_range] hd_map [OF ne(2), of atom_range] by metis
      show "atom_range (last (res_atoms ?s)) = atom_range (last (res_atoms ?r))"
        using arg_cong [OF m, of last] last_map [OF ne(1), of atom_range] last_map [OF ne(2), of atom_range] by metis
    qed
    then show ?thesis using dateRange_ok(1) [OF assms(1) ok] dateRange_ok(1) [OF assms(1) r] by simp
  qed
  have free: "nights G ?s \<inter> nights G (snd f) = {}" if f: "f \<in> set (pb_reservations b)" "fst f \<noteq> fst e" for f
  proof -
    obtain m n where "m < length (pb_reservations b)" "pb_reservations b ! m = e" "n < length (pb_reservations b)" "pb_reservations b ! n = f"
      using assms(3) f(1) by (metis in_set_conv_nth)
    then have other: "nights G ?r \<inter> nights G (snd f) = {}" using board_nights_disjoint [OF assms(2), of m n] f(2) by auto
    have "nights G (snd f) \<subseteq> board_nights G b" using f(1) by (auto simp: board_nights_def)
    moreover have "{room} \<times> period_days G (atom_range (res_atoms ?r ! i)) \<subseteq> nights G ?r" if "room = atom_room (res_atoms ?r ! i)"
      using that assms(4) by (auto simp: atoms_nights_def)
    ultimately have "({room} \<times> period_days G (atom_range (res_atoms ?r ! i))) \<inter> nights G (snd f) = {}"
      using room other by blast
    then show ?thesis using nights_update_room [OF assms(4), of G room] other by auto
  qed
  let ?t = "joinAdjacentAtoms G ?s"
  have "move_mouseRelease G (Some g) = (None, [Update (ReservationItem ?t)])" by (simp add: move_mouseRelease_def s)
  moreover have "obj_id ?t = obj_id ?r" "obj_revision ?t = obj_revision ?r" "res_status ?t = res_status ?r"
      "res_description ?t = res_description ?r" "res_owner ?t = res_owner ?r"
    by (simp_all add: joinAdjacentAtoms_merge)
  ultimately show ?thesis
    using g0(1) g(1) join_ok [OF assms(1) ok] range free by (intro exI [of _ "Some g"] exI [of _ ?t]) simp
qed

theorem moved_reservation_fits_witness:
  "\<exists>mt r. bindr (move_atomMousePress demo_stay 1 None) (fold_res (\<lambda>(l, y). move_mouseMove day_calendar demo_board l y) [(demo_rows, 9)]) = Inr mt
    \<and> move_mouseRelease day_calendar mt = (None, [Update (ReservationItem r)]) \<and> reservation_ok day_calendar r"
  using moved_reservation_fits [OF day_calendar_ok demo_board_ok, of "(9, demo_stay)" 1 "[(demo_rows, 9)]"]
  by (auto simp: demo_board_def demo_stay_def)

end
