(* ===== verification/PlanningContext.thy ===== *)
theory PlanningContext
  imports ReservationTools
begin

text \<open>
  \<open>gui::planningwidget::Context\<close>, the state the widgets of the planning board share, with the items of
  \<open>PlanningBoardWidget\<close> and the handlers of \<open>PlanningWidget\<close> that keep them in step with the data streams.
  The board owns the reservations; items and the selection hold pointers to them, which are their addresses.
  Repainting is not modelled.
\<close>

section \<open>Context\<close>

datatype ('d, 'p) tool = NewTool "('d, 'p) new_tool" | MoveTool "'p move_tool"

text \<open>The selection is an unordered set in the code; here it has the order of insertion.\<close>

record ('d, 'p) planning_context =
  ctx_backend :: bool
  ctx_hotels :: "hotel list"
  ctx_board :: "'p planning_board"
  ctx_selected :: "addr list"
  ctx_layout :: "('d, 'p) board_layout"
  ctx_tools :: "(string \<times> ('d, 'p) tool) list"
  ctx_active :: "string option"

definition mk_context :: "'d \<Rightarrow> ('d, 'p) planning_context" where
  "mk_context today =
     \<lparr>ctx_backend = False, ctx_hotels = [], ctx_board = empty_board, ctx_selected = [], ctx_layout = mk_board_layout today,
      ctx_tools = [], ctx_active = None\<rparr>"

definition setDataBackend :: "('d, 'p) planning_context \<Rightarrow> ('d, 'p) planning_context" where
  "setDataBackend c = c\<lparr>ctx_backend := True\<rparr>"

definition addSelectedReservation :: "addr \<Rightarrow> ('d, 'p) planning_context \<Rightarrow> ('d, 'p) planning_context" where
  "addSelectedReservation a c = c\<lparr>ctx_selected := (if a \<in> set (ctx_selected c) then ctx_selected c else ctx_selected c @ [a])\<rparr>"

definition removeSelectedReservation :: "addr \<Rightarrow> ('d, 'p) planning_context \<Rightarrow> ('d, 'p) planning_context" where
  "removeSelectedReservation a c = c\<lparr>ctx_selected := removeAll a (ctx_selected c)\<rparr>"

definition context_addHotel :: "hotel \<Rightarrow> ('d, 'p) planning_context \<Rightarrow> ('d, 'p) planning_context res" where
  "context_addHotel h c =
     assert_that (obj_id h \<noteq> 0) (bindr (copy_hotel h) (\<lambda>h'. Inr (c\<lparr>ctx_hotels := ctx_hotels c @ [h']\<rparr>)))"

definition context_removeHotel :: "int \<Rightarrow> ('d, 'p) planning_context \<Rightarrow> ('d, 'p) planning_context" where
  "context_removeHotel i c = c\<lparr>ctx_hotels := filter (\<lambda>h. obj_id h \<noteq> i) (ctx_hotels c)\<rparr>"

definition activeTool :: "('d, 'p) planning_context \<Rightarrow> ('d, 'p) tool option" where
  "activeTool c = (case ctx_active c of None \<Rightarrow> None | Some n \<Rightarrow> map_of (ctx_tools c) n)"

definition set_tool :: "string \<Rightarrow> ('d, 'p) tool \<Rightarrow> (string \<times> ('d, 'p) tool) list \<Rightarrow> (string \<times> ('d, 'p) tool) list" where
  "set_tool n t ts = map (\<lambda>(k, x). (k, if k = n then t else x)) ts"

definition put_active :: "('d, 'p) tool \<Rightarrow> ('d, 'p) planning_context \<Rightarrow> ('d, 'p) planning_context" where
  "put_active t c = (case ctx_active c of None \<Rightarrow> c | Some n \<Rightarrow> c\<lparr>ctx_tools := set_tool n t (ctx_tools c)\<rparr>)"

definition tool_reservationAdded :: "('d::linorder, 'p) gregorian \<Rightarrow> 'p reservation \<Rightarrow> ('d, 'p) tool \<Rightarrow> ('d, 'p) tool" where
  "tool_reservationAdded G item t =
     (case t of NewTool nt \<Rightarrow> NewTool (new_reservationAdded G item nt) | MoveTool mt \<Rightarrow> MoveTool (move_reservationAdded G item mt))"

definition tell_active :: "(('d, 'p) tool \<Rightarrow> ('d, 'p) tool) \<Rightarrow> ('d, 'p) planning_context \<Rightarrow> ('d, 'p) planning_context" where
  "tell_active f c = (case activeTool c of None \<Rightarrow> c | Some t \<Rightarrow> put_active (f t) c)"

text \<open>\<open>a\<close> is the address of the copy that \<open>make_unique\<close> makes, which the board returns.\<close>

definition context_addReservation ::
    "('d::linorder, 'p) gregorian \<Rightarrow> addr \<Rightarrow> 'p reservation \<Rightarrow> ('d, 'p) planning_context \<Rightarrow> ('d, 'p) planning_context res" where
  "context_addReservation G a r c =
     assert_that (obj_id r \<noteq> 0)
       (let c' = tell_active (tool_reservationAdded G r) c in
        bindr (addReservation G (Some (a, r)) (ctx_board c')) (\<lambda>b. Inr (c'\<lparr>ctx_board := b\<rparr>)))"

text \<open>No tool overrides \<open>reservationRemoved\<close>.\<close>

definition context_removeReservation :: "int \<Rightarrow> ('d, 'p) planning_context \<Rightarrow> ('d, 'p) planning_context" where
  "context_removeReservation i c = c\<lparr>ctx_board := removeReservationId i (ctx_board c)\<rparr>"

definition context_setPivotDate :: "'d \<Rightarrow> ('d, 'p) planning_context \<Rightarrow> ('d, 'p) planning_context" where
  "context_setPivotDate d c = c\<lparr>ctx_layout := setPivotDate d (ctx_layout c)\<rparr>"

definition context_setHighlightedPeriods :: "'p list \<Rightarrow> ('d, 'p) planning_context \<Rightarrow> ('d, 'p) planning_context" where
  "context_setHighlightedPeriods ps c = c\<lparr>ctx_layout := setHighlightedPeriods ps (ctx_layout c)\<rparr>"

definition context_initializeLayout :: "layout_type \<Rightarrow> ('d, 'p) planning_context \<Rightarrow> ('d, 'p) planning_context res" where
  "context_initializeLayout t c =
     assert_that (ctx_backend c) (bindr (initializeLayout (ctx_hotels c) t (ctx_layout c)) (\<lambda>l. Inr (c\<lparr>ctx_layout := l\<rparr>)))"

definition registerTool :: "string \<Rightarrow> ('d, 'p) tool \<Rightarrow> ('d, 'p) planning_context \<Rightarrow> ('d, 'p) planning_context" where
  "registerTool name t c =
     (if name = [] then c
      else if map_of (ctx_tools c) name \<noteq> None then c
      else c\<lparr>ctx_tools := ctx_tools c @ [(name, t)]\<rparr>)"

definition unload_active :: "('d, 'p) planning_context \<Rightarrow> ('d, 'p) planning_context" where
  "unload_active c =
     (case activeTool c of
        None \<Rightarrow> c
      | Some (NewTool nt) \<Rightarrow> (let (nt', l) = new_unload (nt, ctx_layout c) in (put_active (NewTool nt') c)\<lparr>ctx_layout := l\<rparr>)
      | Some (MoveTool mt) \<Rightarrow> put_active (MoveTool None) c)"

definition activateTool :: "string \<Rightarrow> ('d, 'p) planning_context \<Rightarrow> ('d, 'p) planning_context" where
  "activateTool name c =
     (let new = (if map_of (ctx_tools c) name \<noteq> None then Some name else None) in
      if ctx_active c \<noteq> new then (unload_active c)\<lparr>ctx_active := new\<rparr> else c)"

section \<open>The items on the board\<close>

text \<open>
  The items of the board's reservations, each with its pointer and whether it is selected; \<open>pw_ghost\<close> is the id of
  the reservation a move tool is dragging while the item of its ghost, the topmost, is on the scene.  The items of
  new ghosts never matter to a search, their id is \<open>0\<close>.
\<close>

record ('d, 'p) planning_widget =
  pw_context :: "('d, 'p) planning_context"
  pw_layoutType :: layout_type
  pw_items :: "(addr \<times> bool) list"
  pw_ghost :: "int option"
  pw_roomList :: "hotel_room list"

definition live :: "('d, 'p) planning_widget \<Rightarrow> addr \<Rightarrow> 'p reservation option" where
  "live w a = map_of (pb_reservations (ctx_board (pw_context w))) a"

definition on_context :: "(('d, 'p) planning_context \<Rightarrow> ('d, 'p) planning_context) \<Rightarrow> ('d, 'p) planning_widget \<Rightarrow> ('d, 'p) planning_widget" where
  "on_context f w = w\<lparr>pw_context := f (pw_context w)\<rparr>"

text \<open>The ghost's item goes with the ghost.\<close>

definition sync_ghost :: "('d, 'p) planning_widget \<Rightarrow> ('d, 'p) planning_widget" where
  "sync_ghost w = (case activeTool (pw_context w) of Some (MoveTool (Some _)) \<Rightarrow> w | _ \<Rightarrow> w\<lparr>pw_ghost := None\<rparr>)"

definition board_addReservation :: "addr \<Rightarrow> ('d, 'p) planning_widget \<Rightarrow> ('d, 'p) planning_widget" where
  "board_addReservation a w = w\<lparr>pw_items := (a, False) # pw_items w\<rparr>"

fun find_item :: "'p objects \<Rightarrow> int \<Rightarrow> (addr \<times> bool) list \<Rightarrow> addr option res" where
  "find_item H i [] = Inr None"
| "find_item H i (x # xs) =
     (case map_of H (fst x) of
        None \<Rightarrow> Inl UndefinedBehaviour
      | Some r \<Rightarrow> if obj_id r = i then Inr (Some (fst x)) else find_item H i xs)"

definition board_removeReservations :: "addr \<Rightarrow> ('d, 'p) planning_widget \<Rightarrow> ('d, 'p) planning_widget" where
  "board_removeReservations a w =
     (on_context (removeSelectedReservation a) w)\<lparr>pw_items := filter (\<lambda>x. fst x \<noteq> a) (pw_items w)\<rparr>"

definition board_removeReservation :: "int \<Rightarrow> ('d, 'p) planning_widget \<Rightarrow> ('d, 'p) planning_widget res" where
  "board_removeReservation i w =
     (if pw_ghost w = Some i then Inr (w\<lparr>pw_ghost := None\<rparr>)
      else bindr (find_item (pb_reservations (ctx_board (pw_context w))) i (pw_items w)) (\<lambda>found.
        Inr (case found of None \<Rightarrow> w | Some a \<Rightarrow> board_removeReservations a w)))"

definition board_removeAllReservations :: "('d, 'p) planning_widget \<Rightarrow> ('d, 'p) planning_widget" where
  "board_removeAllReservations w = w\<lparr>pw_items := [], pw_ghost := None\<rparr>"

text \<open>Laying the items out follows the pointer of each.\<close>

definition updateLayout :: "('d, 'p) planning_widget \<Rightarrow> ('d, 'p) planning_widget res" where
  "updateLayout w = (if list_all (\<lambda>x. live w (fst x) \<noteq> None) (pw_items w) then Inr w else Inl UndefinedBehaviour)"

text \<open>The scene selects or deselects one of its items.\<close>

definition setReservationSelected :: "addr \<Rightarrow> bool \<Rightarrow> ('d, 'p) planning_widget \<Rightarrow> ('d, 'p) planning_widget res" where
  "setReservationSelected a select w =
     (case map_of (pw_items w) a of
        None \<Rightarrow> Inr w
      | Some sel \<Rightarrow>
          (case live w a of
             None \<Rightarrow> Inl UndefinedBehaviour
           | Some r \<Rightarrow>
               if res_status r = Temporary \<or> sel = select then Inr w
               else Inr ((on_context (if select then addSelectedReservation a else removeSelectedReservation a) w)
                      \<lparr>pw_items := map (\<lambda>x. if fst x = a then (a, select) else x) (pw_items w)\<rparr>)))"

section \<open>The handlers\<close>

text \<open>The scene reaches from a week before the first reservation over at least a year; \<open>today\<close> is the clock's date.\<close>

definition updateDateRange :: "('d::linorder, 'p) gregorian \<Rightarrow> 'd \<Rightarrow> ('d, 'p) planning_widget \<Rightarrow> ('d, 'p) planning_widget res" where
  "updateDateRange G today w =
     (let l = ctx_layout (pw_context w) in
      bindr (getPlanningExtent G today (ctx_board (pw_context w))) (\<lambda>extent.
        let dateRange = p_merge G extent (mk_period G (add_days G (p_begin G extent) (-7)) (add_days G (p_begin G extent) 365));
            left = getDatePositionX G (p_begin G dateRange) l - 10;
            right = getDatePositionX G (p_end G dateRange) l + 10
        in Inr (on_context (\<lambda>c. c\<lparr>ctx_layout := setSceneRect (mk_rect left 0 (right - left) (getHeight l)) l\<rparr>) w)))"

text \<open>\<open>alloc\<close> gives the address of the next object, depending on the board.\<close>

definition add_one ::
    "('d::linorder, 'p) gregorian \<Rightarrow> ('p planning_board \<Rightarrow> addr) \<Rightarrow> 'p reservation \<Rightarrow> ('d, 'p) planning_widget \<Rightarrow> ('d, 'p) planning_widget res" where
  "add_one G alloc r w =
     (let a = alloc (ctx_board (pw_context w)) in
      bindr (context_addReservation G a r (pw_context w)) (\<lambda>c.
        Inr (board_addReservation a (sync_ghost (w\<lparr>pw_context := c\<rparr>)))))"

definition remove_one :: "int \<Rightarrow> ('d, 'p) planning_widget \<Rightarrow> ('d, 'p) planning_widget res" where
  "remove_one i w = bindr (board_removeReservation i w) (\<lambda>w'. Inr (on_context (context_removeReservation i) w'))"

definition reservationsAdded ::
    "('d::linorder, 'p) gregorian \<Rightarrow> 'd \<Rightarrow> ('p planning_board \<Rightarrow> addr) \<Rightarrow> 'p reservation list \<Rightarrow> ('d, 'p) planning_widget
       \<Rightarrow> ('d, 'p) planning_widget res" where
  "reservationsAdded G today alloc rs w = bindr (fold_res (add_one G alloc) rs w) (updateDateRange G today)"

definition reservationsUpdated ::
    "('d::linorder, 'p) gregorian \<Rightarrow> 'd \<Rightarrow> ('p planning_board \<Rightarrow> addr) \<Rightarrow> 'p reservation list \<Rightarrow> ('d, 'p) planning_widget
       \<Rightarrow> ('d, 'p) planning_widget res" where
  "reservationsUpdated G today alloc rs w =
     bindr (fold_res (\<lambda>r w. bindr (remove_one (obj_id r) w) (add_one G alloc r)) rs w) (updateDateRange G today)"

definition reservationsRemoved ::
    "('d::linorder, 'p) gregorian \<Rightarrow> 'd \<Rightarrow> int list \<Rightarrow> ('d, 'p) planning_widget \<Rightarrow> ('d, 'p) planning_widget res" where
  "reservationsRemoved G today ids w = bindr (fold_res remove_one ids w) (updateDateRange G today)"

definition allReservationsRemoved :: "('d, 'p) planning_widget \<Rightarrow> ('d, 'p) planning_widget" where
  "allReservationsRemoved w = board_removeAllReservations w"

text \<open>The room list and the layout after the hotels changed.\<close>

definition hotels_changed :: "layout_type \<Rightarrow> ('d, 'p) planning_widget \<Rightarrow> ('d, 'p) planning_widget res" where
  "hotels_changed t w =
     bindr (context_initializeLayout t (pw_context w)) (\<lambda>c.
       updateLayout (w\<lparr>pw_context := c, pw_roomList := concat (map hotel_rooms (ctx_hotels c))\<rparr>))"

definition hotelsAdded :: "hotel list \<Rightarrow> ('d, 'p) planning_widget \<Rightarrow> ('d, 'p) planning_widget res" where
  "hotelsAdded hs w =
     bindr (fold_res context_addHotel hs (pw_context w)) (\<lambda>c. hotels_changed (pw_layoutType w) (w\<lparr>pw_context := c\<rparr>))"

definition hotelsUpdated :: "hotel list \<Rightarrow> ('d, 'p) planning_widget \<Rightarrow> ('d, 'p) planning_widget res" where
  "hotelsUpdated hs w =
     bindr (fold_res (\<lambda>h c. context_addHotel h (context_removeHotel (obj_id h) c)) hs (pw_context w)) (\<lambda>c.
       hotels_changed (pw_layoutType w) (w\<lparr>pw_context := c\<rparr>))"

definition hotelsRemoved :: "int list \<Rightarrow> ('d, 'p) planning_widget \<Rightarrow> ('d, 'p) planning_widget res" where
  "hotelsRemoved ids w = hotels_changed GroupedByHotel (on_context (fold context_removeHotel ids) w)"

definition allHotelsRemoved :: "('d, 'p) planning_widget \<Rightarrow> ('d, 'p) planning_widget res" where
  "allHotelsRemoved w = updateLayout (w\<lparr>pw_roomList := []\<rparr>)"

definition setPlanningBoardLayout :: "layout_type \<Rightarrow> ('d, 'p) planning_widget \<Rightarrow> ('d, 'p) planning_widget res" where
  "setPlanningBoardLayout t w =
     bindr (context_initializeLayout t (pw_context w)) (\<lambda>c. updateLayout (w\<lparr>pw_layoutType := t, pw_context := c\<rparr>))"

definition widget_setPivotDate :: "'d \<Rightarrow> ('d, 'p) planning_widget \<Rightarrow> ('d, 'p) planning_widget res" where
  "widget_setPivotDate d w = updateLayout (on_context (context_setPivotDate d) w)"

text \<open>Keys: two choose the grouping, one deletes the selection, and the active tool sees every key.\<close>

datatype widget_key = F1 | F2 | DeleteKey | ToolKey tool_key

definition delete_selected :: "('d, 'p) planning_widget \<Rightarrow> 'p operation list res" where
  "delete_selected w =
     map_res (\<lambda>a. case live w a of None \<Rightarrow> Inl UndefinedBehaviour | Some r \<Rightarrow> Inr (Delete ReservationType (obj_id r)))
       (ctx_selected (pw_context w))"

definition tool_keyPress ::
    "('d::linorder, 'p) gregorian \<Rightarrow> tool_key \<Rightarrow> ('d, 'p) planning_context \<Rightarrow> ('d, 'p) planning_context \<times> 'p operation list" where
  "tool_keyPress G k c =
     (case activeTool c of
        Some (NewTool nt) \<Rightarrow>
          (let (nt', l, ops) = new_keyPress G k (nt, ctx_layout c) in ((put_active (NewTool nt') c)\<lparr>ctx_layout := l\<rparr>, ops))
      | _ \<Rightarrow> (c, []))"

definition widget_keyPress ::
    "('d::linorder, 'p) gregorian \<Rightarrow> widget_key \<Rightarrow> ('d, 'p) planning_widget \<Rightarrow> (('d, 'p) planning_widget \<times> 'p operation list) res" where
  "widget_keyPress G k w =
     bindr (case k of F1 \<Rightarrow> setPlanningBoardLayout GroupedByHotel w | F2 \<Rightarrow> setPlanningBoardLayout GroupedByRoomCategory w | _ \<Rightarrow> Inr w) (\<lambda>w.
     bindr (case k of DeleteKey \<Rightarrow> delete_selected w | _ \<Rightarrow> Inr []) (\<lambda>dels.
       let (c, ops) = tool_keyPress G (case k of ToolKey tk \<Rightarrow> tk | _ \<Rightarrow> OtherKey) (pw_context w)
       in Inr (w\<lparr>pw_context := c\<rparr>, dels @ ops)))"

text \<open>The mouse of the active tool: pressing an atom, moving, and releasing.\<close>

definition atom_pressed :: "addr \<Rightarrow> nat \<Rightarrow> ('d, 'p) planning_widget \<Rightarrow> ('d, 'p) planning_widget res" where
  "atom_pressed a i w =
     (case activeTool (pw_context w) of
        Some (MoveTool None) \<Rightarrow>
          (case live w a of
             None \<Rightarrow> Inl UndefinedBehaviour
           | Some r \<Rightarrow>
               bindr (move_atomMousePress r i None) (\<lambda>mt.
                 Inr ((on_context (put_active (MoveTool mt)) w)\<lparr>pw_ghost := Some (obj_id r)\<rparr>)))
      | _ \<Rightarrow> Inr w)"

definition mouse_moved ::
    "('d::linorder, 'p) gregorian \<Rightarrow> bool \<Rightarrow> int \<Rightarrow> int \<Rightarrow> ('d, 'p) planning_widget \<Rightarrow> ('d, 'p) planning_widget res" where
  "mouse_moved G shift x y w =
     (let c = pw_context w in
      case activeTool c of
        None \<Rightarrow> Inr w
      | Some (NewTool nt) \<Rightarrow>
          bindr (new_mouseMove G (ctx_board c) shift x y (nt, ctx_layout c)) (\<lambda>(nt', l).
            Inr (w\<lparr>pw_context := (put_active (NewTool nt') c)\<lparr>ctx_layout := l\<rparr>\<rparr>))
      | Some (MoveTool mt) \<Rightarrow>
          bindr (move_mouseMove G (ctx_board c) (ctx_layout c) y mt) (\<lambda>mt'. Inr (on_context (put_active (MoveTool mt')) w)))"

definition mouse_pressed ::
    "('d::linorder, 'p) gregorian \<Rightarrow> int \<Rightarrow> int \<Rightarrow> ('d, 'p) planning_widget \<Rightarrow> ('d, 'p) planning_widget res" where
  "mouse_pressed G x y w =
     (let c = pw_context w in
      case activeTool c of
        Some (NewTool nt) \<Rightarrow>
          bindr (new_mousePress G (ctx_board c) x y (nt, ctx_layout c)) (\<lambda>(nt', l).
            Inr (w\<lparr>pw_context := (put_active (NewTool nt') c)\<lparr>ctx_layout := l\<rparr>\<rparr>))
      | _ \<Rightarrow> Inr w)"

definition mouse_released ::
    "('d::linorder, 'p) gregorian \<Rightarrow> ('d, 'p) planning_widget \<Rightarrow> ('d, 'p) planning_widget \<times> 'p operation list" where
  "mouse_released G w =
     (case activeTool (pw_context w) of
        None \<Rightarrow> (w, [])
      | Some (NewTool nt) \<Rightarrow> (on_context (put_active (NewTool (new_mouseRelease G nt))) w, [])
      | Some (MoveTool mt) \<Rightarrow>
          (let (mt', ops) = move_mouseRelease G mt in (sync_ghost (on_context (put_active (MoveTool mt')) w), ops)))"

text \<open>Choosing a tool takes the ghosts of the other one away.\<close>

definition widget_activateTool :: "string \<Rightarrow> ('d, 'p) planning_widget \<Rightarrow> ('d, 'p) planning_widget" where
  "widget_activateTool name w = sync_ghost (on_context (activateTool name) w)"

definition widget_registerTool :: "string \<Rightarrow> ('d, 'p) tool \<Rightarrow> ('d, 'p) planning_widget \<Rightarrow> ('d, 'p) planning_widget" where
  "widget_registerTool name t w = on_context (registerTool name t) w"

text \<open>The constructor, up to connecting the streams.\<close>

definition mk_planning_widget :: "('d::linorder, 'p) gregorian \<Rightarrow> 'd \<Rightarrow> ('d, 'p) planning_widget res" where
  "mk_planning_widget G today =
     bindr (context_initializeLayout GroupedByHotel (context_setPivotDate today (setDataBackend (mk_context today)))) (\<lambda>c.
       updateDateRange G today
         \<lparr>pw_context = c, pw_layoutType = GroupedByHotel, pw_items = [], pw_ghost = None, pw_roomList = []\<rparr>)"

text \<open>What reaches the widget: changes of its two streams, which the constructor connects, and the user.\<close>

datatype ('d, 'p) widget_event =
    ReservationsAdded "'p reservation list"
  | ReservationsUpdated "'p reservation list"
  | ReservationsRemoved "int list"
  | AllReservationsRemoved
  | HotelsAdded "hotel list"
  | HotelsUpdated "hotel list"
  | HotelsRemoved "int list"
  | AllHotelsRemoved
  | DateClicked 'd
  | KeyPressed widget_key
  | ItemSelected addr bool
  | AtomPressed addr nat
  | MousePressed int int
  | MouseMoved bool int int
  | MouseReleased
  | ToolRegistered string "('d, 'p) tool"
  | ToolActivated string

definition no_ops :: "'w res \<Rightarrow> ('w \<times> 'p operation list) res" where
  "no_ops m = bindr m (\<lambda>w. Inr (w, []))"

fun handle_event ::
    "('d::linorder, 'p) gregorian \<Rightarrow> 'd \<Rightarrow> ('p planning_board \<Rightarrow> addr) \<Rightarrow> ('d, 'p) widget_event \<Rightarrow> ('d, 'p) planning_widget
       \<Rightarrow> (('d, 'p) planning_widget \<times> 'p operation list) res" where
  "handle_event G today alloc (ReservationsAdded rs) w = no_ops (reservationsAdded G today alloc rs w)"
| "handle_event G today alloc (ReservationsUpdated rs) w = no_ops (reservationsUpdated G today alloc rs w)"
| "handle_event G today alloc (ReservationsRemoved ids) w = no_ops (reservationsRemoved G today ids w)"
| "handle_event G today alloc AllReservationsRemoved w = Inr (allReservationsRemoved w, [])"
| "handle_event G today alloc (HotelsAdded hs) w = no_ops (hotelsAdded hs w)"
| "handle_event G today alloc (HotelsUpdated hs) w = no_ops (hotelsUpdated hs w)"
| "handle_event G today alloc (HotelsRemoved ids) w = no_ops (hotelsRemoved ids w)"
| "handle_event G today alloc AllHotelsRemoved w = no_ops (allHotelsRemoved w)"
| "handle_event G today alloc (DateClicked d) w = no_ops (widget_setPivotDate d w)"
| "handle_event G today alloc (KeyPressed k) w = widget_keyPress G k w"
| "handle_event G today alloc (ItemSelected a s) w = no_ops (setReservationSelected a s w)"
| "handle_event G today alloc (AtomPressed a i) w = no_ops (atom_pressed a i w)"
| "handle_event G today alloc (MousePressed x y) w = no_ops (mouse_pressed G x y w)"
| "handle_event G today alloc (MouseMoved shift x y) w = no_ops (mouse_moved G shift x y w)"
| "handle_event G today alloc MouseReleased w = Inr (mouse_released G w)"
| "handle_event G today alloc (ToolRegistered name t) w = Inr (widget_registerTool name t w, [])"
| "handle_event G today alloc (ToolActivated name) w = Inr (widget_activateTool name w, [])"

end
