(* ===== verification/WidgetSafety.thy ===== *)
theory WidgetSafety
  imports PlanningContext
begin

text \<open>
  The planning widget under any sequence of stream changes and user events: the items of the board and the selection
  never hold the pointer of a reservation that is gone.
\<close>

section \<open>Steps that may throw\<close>

text \<open>A step that is never undefined and gives \<open>P\<close> when it returns.\<close>

definition safe :: "('a \<Rightarrow> bool) \<Rightarrow> 'a res \<Rightarrow> bool" where
  "safe P m \<longleftrightarrow> (case m of Inl e \<Rightarrow> e \<noteq> UndefinedBehaviour | Inr x \<Rightarrow> P x)"

lemma safe_Inr [simp]: "safe P (Inr x) \<longleftrightarrow> P x"
  by (simp add: safe_def)

lemma safe_Inl [simp]: "safe P (Inl e) \<longleftrightarrow> e \<noteq> UndefinedBehaviour"
  by (simp add: safe_def)

lemma safe_bindr: "safe P m \<Longrightarrow> (\<And>x. P x \<Longrightarrow> safe Q (f x)) \<Longrightarrow> safe Q (bindr m f)"
  by (cases m) auto

lemma safe_assert: "(c \<Longrightarrow> safe P m) \<Longrightarrow> safe P (assert_that c m)"
  by (simp add: assert_that_def)

lemma safe_fold: "(\<And>x s. x \<in> set xs \<Longrightarrow> P s \<Longrightarrow> safe P (f x s)) \<Longrightarrow> P s \<Longrightarrow> safe P (fold_res f xs s)"
proof (induction xs arbitrary: s)
  case (Cons x xs)
  show ?case using Cons.prems Cons.IH by (auto intro: safe_bindr)
qed simp

section \<open>Tools\<close>

definition tool_fine :: "('d::linorder, 'p) gregorian \<Rightarrow> 'p planning_board \<Rightarrow> ('d, 'p) tool \<Rightarrow> bool" where
  "tool_fine G b t \<longleftrightarrow>
     (case t of
        NewTool nt \<Rightarrow> tool_ok G b nt
      | MoveTool None \<Rightarrow> True
      | MoveTool (Some g) \<Rightarrow> mg_atomIndex g < length (res_atoms (mg_reservation g))
          \<and> period_ok G (atom_range (res_atoms (mg_reservation g) ! mg_atomIndex g)))"

definition tool_idle :: "('d, 'p) tool \<Rightarrow> bool" where
  "tool_idle t \<longleftrightarrow> t = NewTool mk_new_tool \<or> t = MoveTool None"

definition tools_ok :: "('d::linorder, 'p) gregorian \<Rightarrow> ('d, 'p) planning_context \<Rightarrow> bool" where
  "tools_ok G c \<longleftrightarrow> (\<forall>(n, t) \<in> set (ctx_tools c). if ctx_active c = Some n then tool_fine G (ctx_board c) t else tool_idle t)"

lemma idle_fine: "tool_idle t \<Longrightarrow> tool_fine G b t"
  by (auto simp: tool_idle_def tool_fine_def tool_ok_mk)

lemma activeTool_fine: "tools_ok G c \<Longrightarrow> activeTool c = Some t \<Longrightarrow> tool_fine G (ctx_board c) t"
  by (fastforce simp: tools_ok_def activeTool_def split: option.splits dest: map_of_SomeD)

lemma put_active_fields [simp]:
  "ctx_board (put_active t c) = ctx_board c" "ctx_selected (put_active t c) = ctx_selected c" "ctx_active (put_active t c) = ctx_active c"
  "ctx_hotels (put_active t c) = ctx_hotels c" "ctx_backend (put_active t c) = ctx_backend c" "ctx_layout (put_active t c) = ctx_layout c"
  by (simp_all add: put_active_def split: option.split)

lemma put_active_ok:
  assumes "tools_ok G c" and "tool_fine G (ctx_board c) t"
  shows "tools_ok G (put_active t c)"
  using assms by (auto simp: tools_ok_def put_active_def set_tool_def split: option.split)

lemma tools_ok_layout [simp]: "tools_ok G (c\<lparr>ctx_layout := l\<rparr>) = tools_ok G c"
  "tools_ok G (c\<lparr>ctx_selected := s\<rparr>) = tools_ok G c" "tools_ok G (c\<lparr>ctx_hotels := hs\<rparr>) = tools_ok G c"
  by (simp_all add: tools_ok_def)

lemma tools_ok_cong:
  "tools_ok G c \<Longrightarrow> ctx_tools d = ctx_tools c \<Longrightarrow> ctx_active d = ctx_active c \<Longrightarrow> ctx_board d = ctx_board c \<Longrightarrow> tools_ok G d"
  by (simp only: tools_ok_def)

lemma tool_fine_subset: "tool_fine G b t \<Longrightarrow> board_nights G b' \<subseteq> board_nights G b \<Longrightarrow> tool_fine G b' t"
  by (auto simp: tool_fine_def intro: tool_ok_subset split: tool.splits option.splits)

lemma tools_ok_board:
  assumes "tools_ok G c" and "board_nights G b \<subseteq> board_nights G (ctx_board c)"
  shows "tools_ok G (c\<lparr>ctx_board := b\<rparr>)"
  using assms tool_fine_subset [OF _ assms(2)] by (fastforce simp: tools_ok_def)

lemma inactive_idle:
  assumes "tools_ok G c" and "activeTool c = None" and "(n, t) \<in> set (ctx_tools c)"
  shows "tool_idle t"
proof -
  have "ctx_active c \<noteq> Some n" using assms(2) weak_map_of_SomeI [OF assms(3)] by (auto simp: activeTool_def)
  then show ?thesis using assms(1,3) by (auto simp: tools_ok_def)
qed

text \<open>The tool is told of a reservation before it is on the board.\<close>

lemma tool_added:
  assumes "gregorian_ok G" and "tool_fine G b t" and "reservation_ok G r" and "board_nights G b' \<subseteq> board_nights G b \<union> nights G r"
  shows "tool_fine G b' (tool_reservationAdded G r t)"
  using assms added_ok [OF assms(1) _ assms(3,4)]
  by (auto simp: tool_fine_def tool_reservationAdded_def move_reservationAdded_def split: tool.splits option.splits)

lemma tell_active_fields [simp]:
  "ctx_board (tell_active f c) = ctx_board c" "ctx_selected (tell_active f c) = ctx_selected c" "ctx_active (tell_active f c) = ctx_active c"
  "ctx_hotels (tell_active f c) = ctx_hotels c" "ctx_backend (tell_active f c) = ctx_backend c" "ctx_layout (tell_active f c) = ctx_layout c"
  by (simp_all add: tell_active_def split: option.split)

lemma tell_active_added:
  assumes "gregorian_ok G" and "tools_ok G c" and "reservation_ok G r" and "board_nights G b \<subseteq> board_nights G (ctx_board c) \<union> nights G r"
  shows "tools_ok G ((tell_active (tool_reservationAdded G r) c)\<lparr>ctx_board := b\<rparr>)"
proof (cases "activeTool c")
  case None
  note inactive_idle [OF assms(2) None]
  then show ?thesis using None by (auto simp: tell_active_def tools_ok_def intro: idle_fine)
next
  case (Some t)
  obtain n where n: "ctx_active c = Some n" using Some by (cases "ctx_active c") (simp_all add: activeTool_def)
  have "tool_fine G b (tool_reservationAdded G r t)"
    using tool_added [OF assms(1) activeTool_fine [OF assms(2) Some] assms(3,4)] .
  then show ?thesis using assms(2) Some n by (auto simp: tell_active_def tools_ok_def put_active_def set_tool_def)
qed

section \<open>What the widget keeps\<close>

abbreviation board_of :: "('d, 'p) planning_widget \<Rightarrow> 'p planning_board" where
  "board_of w \<equiv> ctx_board (pw_context w)"

definition board_ids :: "'p planning_board \<Rightarrow> int list" where
  "board_ids b = map (\<lambda>e. obj_id (snd e)) (pb_reservations b)"

text \<open>
  The items show exactly the reservations of the board, each once, and the selection of the context is that of the
  items.
\<close>

definition items_ok :: "('d, 'p) planning_widget \<Rightarrow> bool" where
  "items_ok w \<longleftrightarrow> distinct (map fst (pw_items w)) \<and> set (map fst (pw_items w)) = set (map fst (pb_reservations (board_of w)))
     \<and> distinct (ctx_selected (pw_context w)) \<and> set (ctx_selected (pw_context w)) = {a. (a, True) \<in> set (pw_items w)}"

definition widget_ok :: "('d::linorder, 'p) gregorian \<Rightarrow> ('d, 'p) planning_widget \<Rightarrow> bool" where
  "widget_ok G w \<longleftrightarrow>
     board_ok G (board_of w) \<and> distinct (board_ids (board_of w)) \<and> items_ok w \<and> ctx_backend (pw_context w)
     \<and> list_all hotel_ok (ctx_hotels (pw_context w)) \<and> 0 < bl_roomRowHeight (ctx_layout (pw_context w))
     \<and> tools_ok G (pw_context w)"

lemma item_live:
  assumes "widget_ok G w" and "a \<in> fst ` set (pw_items w)"
  shows "\<exists>r. live w a = Some r \<and> (a, r) \<in> set (pb_reservations (board_of w))"
proof -
  have "a \<in> fst ` set (pb_reservations (board_of w))" using assms by (auto simp: widget_ok_def items_ok_def)
  then show ?thesis using assms(1) by (auto simp: widget_ok_def board_ok_def live_def map_of_eq_Some_iff)
qed

lemma selected_live:
  assumes "widget_ok G w" and "a \<in> set (ctx_selected (pw_context w))"
  shows "\<exists>r. live w a = Some r \<and> (a, r) \<in> set (pb_reservations (board_of w))"
  using assms by (intro item_live) (force simp: widget_ok_def items_ok_def)+

lemma updateLayout_live: "widget_ok G w \<Longrightarrow> updateLayout w = Inr w"
  using item_live by (fastforce simp: updateLayout_def list_all_iff)

section \<open>Adding and removing\<close>

lemma sync_ghost_fields [simp]:
  "pw_context (sync_ghost w) = pw_context w" "pw_items (sync_ghost w) = pw_items w"
  by (auto simp: sync_ghost_def split: option.split tool.split)

lemma sync_ghost_ghost: "pw_ghost (sync_ghost w) \<in> {None, pw_ghost w}"
  by (auto simp: sync_ghost_def split: option.split tool.split)

lemma canAddReservation_safe:
  assumes "gregorian_ok G" and "board_ok G b" and "a \<notin> fst ` set (pb_reservations b)" and "atoms_regular G r"
  shows "safe (\<lambda>b'. board_ok G b' \<and> pb_reservations b' = pb_reservations b @ [(a, r)] \<and> reservation_ok G r)
    (addReservation G (Some (a, r)) b)"
  using addReservation_outcome_lemma [of G b "(a, r)"] assms by (auto split: if_splits)

lemma add_one_safe:
  assumes "gregorian_ok G" and "\<And>b. alloc b \<notin> fst ` set (pb_reservations b)"
    and w: "widget_ok G w" and "atoms_regular G r" and new: "obj_id r \<notin> set (board_ids (board_of w))"
  shows "safe (\<lambda>w'. widget_ok G w' \<and> board_ids (board_of w') = board_ids (board_of w) @ [obj_id r] \<and> pw_ghost w' \<in> {None, pw_ghost w})
    (add_one G alloc r w)"
proof -
  let ?a = "alloc (board_of w)" and ?c = "tell_active (tool_reservationAdded G r) (pw_context w)"
  have fresh: "?a \<notin> fst ` set (pb_reservations (board_of w))" using assms(2) .
  have kept: "widget_ok G (board_addReservation ?a (sync_ghost (w\<lparr>pw_context := ?c\<lparr>ctx_board := b\<rparr>\<rparr>)))"
    if b: "board_ok G b" "pb_reservations b = pb_reservations (board_of w) @ [(?a, r)]" "reservation_ok G r" for b
  proof -
    have "board_nights G b \<subseteq> board_nights G (board_of w) \<union> nights G r" using b(2) by (auto simp: board_nights_def)
    then have "tools_ok G (?c\<lparr>ctx_board := b\<rparr>)"
      using tell_active_added [OF assms(1) _ b(3)] w by (simp add: widget_ok_def)
    then show ?thesis using w b new fresh
      by (auto simp: widget_ok_def items_ok_def board_addReservation_def board_ids_def)
  qed
  have "safe (\<lambda>c. \<exists>b. c = ?c\<lparr>ctx_board := b\<rparr> \<and> board_ok G b \<and> pb_reservations b = pb_reservations (board_of w) @ [(?a, r)] \<and> reservation_ok G r)
      (context_addReservation G ?a r (pw_context w))"
    unfolding context_addReservation_def Let_def
    using w by (intro safe_assert safe_bindr [OF canAddReservation_safe [OF assms(1) _ _ assms(4)]]) (auto simp: widget_ok_def fresh)
  then show ?thesis unfolding add_one_def Let_def
  proof (rule safe_bindr)
    fix c
    assume "\<exists>b. c = ?c\<lparr>ctx_board := b\<rparr> \<and> board_ok G b \<and> pb_reservations b = pb_reservations (board_of w) @ [(?a, r)] \<and> reservation_ok G r"
    then obtain b where b: "c = ?c\<lparr>ctx_board := b\<rparr>" "board_ok G b" "pb_reservations b = pb_reservations (board_of w) @ [(?a, r)]" "reservation_ok G r"
      by blast
    let ?w = "w\<lparr>pw_context := ?c\<lparr>ctx_board := b\<rparr>\<rparr>"
    have "pw_ghost (sync_ghost ?w) \<in> {None, pw_ghost w}" using sync_ghost_ghost [of ?w] by simp
    then show "safe (\<lambda>w'. widget_ok G w' \<and> board_ids (board_of w') = board_ids (board_of w) @ [obj_id r] \<and> pw_ghost w' \<in> {None, pw_ghost w})
        (Inr (board_addReservation ?a (sync_ghost (w\<lparr>pw_context := c\<rparr>))))"
      using kept [OF b(2-4)] b by (simp add: board_addReservation_def board_ids_def)
  qed
qed

lemma find_item_live:
  "\<forall>x \<in> set xs. map_of H (fst x) \<noteq> None \<Longrightarrow>
     (\<exists>a r. find_item H i xs = Inr (Some a) \<and> a \<in> fst ` set xs \<and> map_of H a = Some r \<and> obj_id r = i)
     \<or> find_item H i xs = Inr None \<and> (\<forall>x \<in> set xs. \<forall>r. map_of H (fst x) = Some r \<longrightarrow> obj_id r \<noteq> i)"
proof (induction xs)
  case (Cons x xs)
  then show ?case by (cases "map_of H (fst x)") (auto split: if_splits)
qed simp

lemma remove_at_addrs:
  assumes "distinct (map f R)" and "k < length R"
  shows "f ` set (take k R @ drop (Suc k) R) = f ` set R - {f (R ! k)}" and "distinct (map f (take k R @ drop (Suc k) R))"
proof -
  have R: "R = take k R @ R ! k # drop (Suc k) R" using assms(2) by (rule id_take_nth_drop)
  have "distinct (map f (take k R @ R ! k # drop (Suc k) R))" using assms(1) R by simp
  then have d: "distinct (map f (take k R @ drop (Suc k) R))" "f (R ! k) \<notin> f ` set (take k R @ drop (Suc k) R)" by auto
  show "distinct (map f (take k R @ drop (Suc k) R))" using d(1) .
  have "f ` set R = insert (f (R ! k)) (f ` set (take k R @ drop (Suc k) R))"
    using arg_cong [OF R, of "\<lambda>R. f ` set R"] by (simp add: image_Un)
  then show "f ` set (take k R @ drop (Suc k) R) = f ` set R - {f (R ! k)}" using d(2) by auto
qed

lemma on_context_fields [simp]: "pw_context (on_context f w) = f (pw_context w)" "pw_items (on_context f w) = pw_items w"
  "pw_ghost (on_context f w) = pw_ghost w"
  by (simp_all add: on_context_def)

text \<open>The item that is found is that of the reservation the board removes.\<close>

lemma remove_one_safe:
  assumes w: "widget_ok G w" and ghost: "pw_ghost w \<noteq> Some i"
  shows "safe (\<lambda>w'. widget_ok G w' \<and> i \<notin> set (board_ids (board_of w')) \<and> pw_ghost w' = pw_ghost w) (remove_one i w)"
proof -
  let ?R = "pb_reservations (board_of w)" and ?b = "removeReservationId i (board_of w)"
  have b: "board_ok G (board_of w)" "distinct (map fst ?R)" "distinct (map (\<lambda>e. obj_id (snd e)) ?R)" and items: "items_ok w"
    using w by (simp_all add: widget_ok_def board_ok_def board_ids_def)
  have at: "map_of ?R (fst (?R ! k)) = Some (snd (?R ! k))" if "k < length ?R" for k
    using b(2) that by (simp add: map_of_eq_Some_iff)
  have "\<forall>x \<in> set (pw_items w). map_of ?R (fst x) \<noteq> None" using item_live [OF w] by (fastforce simp: live_def)
  note found = find_item_live [OF this, of i]
  have tools: "tools_ok G ((pw_context w)\<lparr>ctx_board := ?b\<rparr>)"
    using w remove_id_nights by (intro tools_ok_board) (auto simp: widget_ok_def)
  have board: "board_ok G ?b" using remove_id_ok [OF b(1)] .
  show ?thesis
  proof (cases "find_index (\<lambda>x. obj_id (snd x) = i) ?R")
    case None
    then have none: "\<forall>e \<in> set ?R. obj_id (snd e) \<noteq> i" by (simp add: find_index_None)
    then have "find_item ?R i (pw_items w) = Inr None" using found map_of_SomeD by fastforce
    then have "remove_one i w = Inr (on_context (context_removeReservation i) w)"
      using ghost by (simp add: remove_one_def board_removeReservation_def)
    moreover have "?b = board_of w" using None by (simp add: removeReservationId_def)
    ultimately show ?thesis using w none by (auto simp: context_removeReservation_def on_context_def board_ids_def)
  next
    case (Some k)
    let ?a = "fst (?R ! k)"
    have k: "k < length ?R" "obj_id (snd (?R ! k)) = i" using find_index_SomeD [OF Some] by auto
    have R': "pb_reservations ?b = take k ?R @ drop (Suc k) ?R" using Some by (simp add: removeReservationId_def)
    have mem: "?R ! k \<in> set ?R" using k(1) by simp
    have shown: "?a \<in> fst ` set (pw_items w)" using items mem by (auto simp: items_ok_def)
    have unique: "a = ?a" if "map_of ?R a = Some r" "obj_id r = i" for a r
    proof -
      have "(a, r) = ?R ! k"
        using inj_onD [of "\<lambda>e. obj_id (snd e)" "set ?R" "(a, r)" "?R ! k"] b(3) map_of_SomeD [OF that(1)] mem that(2) k(2)
        by (simp add: distinct_map)
      then show ?thesis by (metis fst_conv)
    qed
    have "find_item ?R i (pw_items w) = Inr (Some ?a)" using found
    proof
      assume "\<exists>a r. find_item ?R i (pw_items w) = Inr (Some a) \<and> a \<in> fst ` set (pw_items w) \<and> map_of ?R a = Some r \<and> obj_id r = i"
      then obtain a r where "find_item ?R i (pw_items w) = Inr (Some a)" "map_of ?R a = Some r" "obj_id r = i" by blast
      then show ?thesis using unique by simp
    next
      assume "find_item ?R i (pw_items w) = Inr None \<and> (\<forall>x \<in> set (pw_items w). \<forall>r. map_of ?R (fst x) = Some r \<longrightarrow> obj_id r \<noteq> i)"
      then show ?thesis using shown at [OF k(1)] k(2) by force
    qed
    then have eq: "remove_one i w = Inr (on_context (context_removeReservation i) (board_removeReservations ?a w))"
      using ghost by (simp add: remove_one_def board_removeReservation_def)
    have addrs: "fst ` set (pb_reservations ?b) = fst ` set ?R - {?a}" using remove_at_addrs(1) [OF b(2) k(1)] R' by simp
    have ids: "i \<notin> set (board_ids ?b)" "distinct (board_ids ?b)"
      using remove_at_addrs [OF b(3) k(1)] k(2) R' by (auto simp: board_ids_def)
    have filtered: "fst ` {x \<in> set (pw_items w). fst x \<noteq> ?a} = fst ` set (pw_items w) - {?a}" by auto
    have "items_ok (on_context (context_removeReservation i) (board_removeReservations ?a w))"
      using items addrs filtered
      by (auto simp: items_ok_def board_removeReservations_def removeSelectedReservation_def context_removeReservation_def
          distinct_map_filter distinct_removeAll)
    moreover have "tools_ok G (pw_context (on_context (context_removeReservation i) (board_removeReservations ?a w)))"
      by (rule tools_ok_cong [OF tools])
         (simp_all add: board_removeReservations_def removeSelectedReservation_def context_removeReservation_def)
    ultimately have "widget_ok G (on_context (context_removeReservation i) (board_removeReservations ?a w))"
      using w board ids(2)
      by (simp add: widget_ok_def board_removeReservations_def removeSelectedReservation_def context_removeReservation_def)
    then show ?thesis using ids
      by (simp add: eq board_removeReservations_def removeSelectedReservation_def context_removeReservation_def)
  qed
qed

lemma updateDateRange_safe:
  assumes "gregorian_ok G" and "widget_ok G w"
  shows "safe (\<lambda>w'. widget_ok G w' \<and> board_of w' = board_of w \<and> pw_ghost w' = pw_ghost w) (updateDateRange G today w)"
proof -
  obtain p where "getPlanningExtent G today (board_of w) = Inr p"
    using getPlanningExtent_ok [OF assms(1), of "board_of w" today] assms(2)
    by (cases "pb_reservations (board_of w) = []") (auto simp: getPlanningExtent_def widget_ok_def)
  then show ?thesis using assms(2)
    by (simp add: updateDateRange_def Let_def widget_ok_def items_ok_def setSceneRect_def)
qed

section \<open>The handlers\<close>

lemma adds_safe:
  assumes "gregorian_ok G" and "\<And>b. alloc b \<notin> fst ` set (pb_reservations b)"
  shows "widget_ok G w \<Longrightarrow> \<forall>r \<in> set rs. atoms_regular G r \<Longrightarrow> distinct (board_ids (board_of w) @ map obj_id rs) \<Longrightarrow>
    safe (widget_ok G) (fold_res (add_one G alloc) rs w)"
proof (induction rs arbitrary: w)
  case (Cons r rs)
  have "safe (\<lambda>w'. widget_ok G w' \<and> board_ids (board_of w') = board_ids (board_of w) @ [obj_id r] \<and> pw_ghost w' \<in> {None, pw_ghost w})
      (add_one G alloc r w)"
    using Cons.prems by (intro add_one_safe assms) auto
  then show ?case unfolding fold_res.simps
  proof (rule safe_bindr)
    fix v
    assume "widget_ok G v \<and> board_ids (board_of v) = board_ids (board_of w) @ [obj_id r] \<and> pw_ghost v \<in> {None, pw_ghost w}"
    then show "safe (widget_ok G) (fold_res (add_one G alloc) rs v)" using Cons.prems by (intro Cons.IH) auto
  qed
qed simp

lemma date_range_safe: "gregorian_ok G \<Longrightarrow> widget_ok G w \<Longrightarrow> safe (widget_ok G) (updateDateRange G today w)"
  using updateDateRange_safe [of G w today] by (auto simp: safe_def split: sum.splits)

lemma updates_safe:
  assumes "gregorian_ok G" and "\<And>b. alloc b \<notin> fst ` set (pb_reservations b)"
    and "widget_ok G w" and "\<forall>r \<in> set rs. atoms_regular G r \<and> pw_ghost w \<noteq> Some (obj_id r)"
  shows "safe (\<lambda>v. widget_ok G v \<and> pw_ghost v \<in> {None, pw_ghost w})
    (fold_res (\<lambda>r w. bindr (remove_one (obj_id r) w) (add_one G alloc r)) rs w)"
proof (rule safe_fold)
  fix r v
  assume r: "r \<in> set rs" and v: "widget_ok G v \<and> pw_ghost v \<in> {None, pw_ghost w}"
  have "pw_ghost v \<noteq> Some (obj_id r)" using r v assms(4) by auto
  then show "safe (\<lambda>v. widget_ok G v \<and> pw_ghost v \<in> {None, pw_ghost w}) (bindr (remove_one (obj_id r) v) (add_one G alloc r))"
  proof (intro safe_bindr [OF remove_one_safe])
    fix u
    assume u: "widget_ok G u \<and> obj_id r \<notin> set (board_ids (board_of u)) \<and> pw_ghost u = pw_ghost v"
    have "safe (\<lambda>w'. widget_ok G w' \<and> board_ids (board_of w') = board_ids (board_of u) @ [obj_id r] \<and> pw_ghost w' \<in> {None, pw_ghost u})
        (add_one G alloc r u)"
      using u r assms(4) by (intro add_one_safe assms(1,2)) auto
    then show "safe (\<lambda>v. widget_ok G v \<and> pw_ghost v \<in> {None, pw_ghost w}) (add_one G alloc r u)"
      using u v by (auto simp: safe_def split: sum.splits)
  qed (use v in simp)
qed (use assms in simp)

lemma removals_safe:
  assumes "widget_ok G w" and "\<forall>i \<in> set ids. pw_ghost w \<noteq> Some i"
  shows "safe (\<lambda>v. widget_ok G v \<and> pw_ghost v = pw_ghost w) (fold_res remove_one ids w)"
proof (rule safe_fold)
  fix i v
  assume "i \<in> set ids" and "widget_ok G v \<and> pw_ghost v = pw_ghost w"
  then show "safe (\<lambda>v. widget_ok G v \<and> pw_ghost v = pw_ghost w) (remove_one i v)"
    using remove_one_safe [of G v i] assms(2) by (auto simp: safe_def split: sum.splits)
qed (use assms in simp)

text \<open>Steps that change only the hotels, the layout and the tools.\<close>

lemma widget_ok_context:
  assumes "widget_ok G w" and "pw_items v = pw_items w" and "board_of v = board_of w"
    and "ctx_selected (pw_context v) = ctx_selected (pw_context w)" and "ctx_backend (pw_context v) = ctx_backend (pw_context w)"
    and "list_all hotel_ok (ctx_hotels (pw_context v))" and "0 < bl_roomRowHeight (ctx_layout (pw_context v))" and "tools_ok G (pw_context v)"
  shows "widget_ok G v"
  using assms by (simp add: widget_ok_def items_ok_def)

lemma hotels_changed_safe:
  assumes "widget_ok G w"
  shows "safe (widget_ok G) (hotels_changed t w)" and "safe (widget_ok G) (setPlanningBoardLayout t w)"
proof -
  let ?c = "pw_context w"
  obtain l' where l': "initializeLayout (ctx_hotels ?c) t (ctx_layout ?c) = Inr l'" "0 < bl_roomRowHeight l'"
    using initializeLayout_ok [of "ctx_hotels ?c" "ctx_layout ?c" t] assms by (auto simp: widget_ok_def)
  have init: "context_initializeLayout t ?c = Inr (?c\<lparr>ctx_layout := l'\<rparr>)"
    using l' assms by (simp add: context_initializeLayout_def widget_ok_def)
  have ok: "widget_ok G (w\<lparr>pw_context := ?c\<lparr>ctx_layout := l'\<rparr>, pw_roomList := rs\<rparr>)"
      "widget_ok G (w\<lparr>pw_layoutType := t, pw_context := ?c\<lparr>ctx_layout := l'\<rparr>\<rparr>)" for rs
    using assms l'(2) by (simp_all add: widget_ok_def items_ok_def)
  show "safe (widget_ok G) (hotels_changed t w)" "safe (widget_ok G) (setPlanningBoardLayout t w)"
    using ok updateLayout_live [OF ok(1)] updateLayout_live [OF ok(2)] by (simp_all add: hotels_changed_def setPlanningBoardLayout_def init)
qed

lemma context_addHotel_ok:
  "hotel_ok h \<Longrightarrow> safe (\<lambda>d. \<exists>hs. d = c\<lparr>ctx_hotels := hs\<rparr> \<and> set hs \<subseteq> insert h (set (ctx_hotels c))) (context_addHotel h c)"
  unfolding context_addHotel_def by (intro safe_assert) (auto simp: copy_hotel_ok intro!: exI [of _ "ctx_hotels c @ [h]"])

lemma widget_hotels:
  assumes "widget_ok G w" and "list_all hotel_ok hs"
  shows "widget_ok G (w\<lparr>pw_context := (pw_context w)\<lparr>ctx_hotels := hs\<rparr>\<rparr>)"
  using assms by (intro widget_ok_context [OF assms(1)]) (simp_all add: widget_ok_def)

lemma hotels_kept:
  assumes "widget_ok G w"
    and "safe (\<lambda>d. \<exists>hs. d = (pw_context w)\<lparr>ctx_hotels := hs\<rparr> \<and> list_all hotel_ok hs) m"
  shows "safe (widget_ok G) (bindr m (\<lambda>c. hotels_changed t (w\<lparr>pw_context := c\<rparr>)))"
  using assms(2) by (rule safe_bindr) (auto intro!: hotels_changed_safe widget_hotels [OF assms(1)])

lemma hotelsAdded_safe:
  assumes "widget_ok G w" and "list_all hotel_ok hs"
  shows "safe (widget_ok G) (hotelsAdded hs w)" and "safe (widget_ok G) (hotelsUpdated hs w)"
proof -
  let ?P = "\<lambda>d. \<exists>hs. d = (pw_context w)\<lparr>ctx_hotels := hs\<rparr> \<and> list_all hotel_ok hs"
  have start: "?P (pw_context w)"
    using assms(1) by (intro exI [of _ "ctx_hotels (pw_context w)"]) (simp add: widget_ok_def)
  have add: "safe ?P (context_addHotel h d)" if "hotel_ok h" "?P d" for h d
    using context_addHotel_ok [OF that(1), of d] that by (fastforce simp: safe_def list_all_iff split: sum.splits)
  have remove: "?P (context_removeHotel i d)" if "?P d" for i d
    using that by (auto simp: context_removeHotel_def list_all_iff)
  have "safe ?P (fold_res context_addHotel hs (pw_context w))"
    using assms(2) start by (intro safe_fold [where P = ?P] add) (auto simp: list_all_iff)
  then show "safe (widget_ok G) (hotelsAdded hs w)" unfolding hotelsAdded_def by (rule hotels_kept [OF assms(1)])
  have "safe ?P (fold_res (\<lambda>h c. context_addHotel h (context_removeHotel (obj_id h) c)) hs (pw_context w))"
    using assms(2) start by (intro safe_fold [where P = ?P] add remove) (auto simp: list_all_iff)
  then show "safe (widget_ok G) (hotelsUpdated hs w)" unfolding hotelsUpdated_def by (rule hotels_kept [OF assms(1)])
qed

lemma hotelsRemoved_safe:
  assumes "widget_ok G w"
  shows "safe (widget_ok G) (hotelsRemoved ids w)"
proof -
  have "\<exists>hs. fold context_removeHotel ids c = c\<lparr>ctx_hotels := hs\<rparr> \<and> set hs \<subseteq> set (ctx_hotels c)" for c :: "('a, 'b) planning_context"
  proof (induction ids arbitrary: c)
    case (Cons i ids)
    show ?case using Cons.IH [of "context_removeHotel i c"] by (fastforce simp: context_removeHotel_def)
  next
    case Nil
    show ?case by (rule exI [of _ "ctx_hotels c"]) simp
  qed
  then obtain hs where hs: "fold context_removeHotel ids (pw_context w) = (pw_context w)\<lparr>ctx_hotels := hs\<rparr>" "set hs \<subseteq> set (ctx_hotels (pw_context w))"
    by blast
  have "list_all hotel_ok hs" using hs(2) assms by (auto simp: widget_ok_def list_all_iff)
  then show ?thesis using hotels_changed_safe(1) [OF widget_hotels [OF assms]] hs(1) by (simp add: hotelsRemoved_def on_context_def)
qed

section \<open>The user\<close>

lemma setReservationSelected_safe:
  assumes w: "widget_ok G w"
  shows "safe (widget_ok G) (setReservationSelected a select w)"
proof (cases "map_of (pw_items w) a")
  case None
  then show ?thesis using w by (simp add: setReservationSelected_def)
next
  case (Some sel)
  have mem: "(a, sel) \<in> set (pw_items w)" using map_of_SomeD [OF Some] .
  then obtain r where r: "live w a = Some r" using item_live [OF w, of a] by force
  let ?v = "(on_context (if select then addSelectedReservation a else removeSelectedReservation a) w)
      \<lparr>pw_items := map (\<lambda>x. if fst x = a then (a, select) else x) (pw_items w)\<rparr>"
  have items: "items_ok w" using w by (simp add: widget_ok_def)
  have keys: "map fst (pw_items ?v) = map fst (pw_items w)" by simp
  have board: "board_of ?v = board_of w" by (simp add: addSelectedReservation_def removeSelectedReservation_def)
  have sel: "{b. (b, True) \<in> (\<lambda>x. if fst x = a then (a, select) else x) ` set (pw_items w)}
      = (if select then insert a {b. (b, True) \<in> set (pw_items w)} else {b. (b, True) \<in> set (pw_items w)} - {a})"
    using mem by (force simp: image_iff)
  have "distinct (map fst (pw_items ?v))" using items by (simp only: keys items_ok_def)
  moreover have "set (map fst (pw_items ?v)) = set (map fst (pb_reservations (board_of ?v)))"
    using items by (simp only: keys board items_ok_def)
  moreover have "distinct (ctx_selected (pw_context ?v))"
    using items by (simp add: items_ok_def addSelectedReservation_def removeSelectedReservation_def distinct_removeAll)
  moreover have "set (ctx_selected (pw_context ?v)) = {b. (b, True) \<in> set (pw_items ?v)}"
    using items sel by (cases select) (simp_all add: items_ok_def addSelectedReservation_def removeSelectedReservation_def insert_absorb)
  ultimately have "items_ok ?v" unfolding items_ok_def by blast
  moreover have "tools_ok G (pw_context ?v)"
    using w by (simp add: widget_ok_def addSelectedReservation_def removeSelectedReservation_def)
  ultimately have "widget_ok G ?v"
    using w by (simp add: widget_ok_def addSelectedReservation_def removeSelectedReservation_def)
  then show ?thesis using w r Some by (simp add: setReservationSelected_def)
qed

text \<open>Steps of the active tool change the tool and the highlighted periods.\<close>

lemma new_layout_height:
  "new_keyPress G k (nt, l) = (nt', l', ops) \<Longrightarrow> bl_roomRowHeight l' = bl_roomRowHeight l"
  "new_mousePress G b x y (nt, l) = Inr (nt', l') \<Longrightarrow> bl_roomRowHeight l' = bl_roomRowHeight l"
  "new_mouseMove G b shift x y (nt, l) = Inr (nt', l') \<Longrightarrow> bl_roomRowHeight l' = bl_roomRowHeight l"
  by (auto simp: new_keyPress_def new_mousePress_def new_mouseMove_def new_unload_def updateHighlightedPeriods_def setHighlightedPeriods_def Let_def
      split: if_splits tool_key.splits option.splits)

lemma put_active_widget:
  assumes "widget_ok G w" and "tool_fine G (board_of w) t" and "pw_items v = pw_items w"
    and "pw_context v = (put_active t (pw_context w))\<lparr>ctx_layout := l\<rparr>" and "bl_roomRowHeight l = bl_roomRowHeight (ctx_layout (pw_context w))"
  shows "widget_ok G v"
proof (rule widget_ok_context [OF assms(1,3)])
  show "tools_ok G (pw_context v)" using assms by (simp add: widget_ok_def put_active_ok)
qed (use assms in \<open>simp_all add: widget_ok_def\<close>)

lemma put_active_widget':
  assumes "widget_ok G w" and "tool_fine G (board_of w) t" and "pw_items v = pw_items w" and "pw_context v = put_active t (pw_context w)"
  shows "widget_ok G v"
  by (rule put_active_widget [OF assms(1-3), of "ctx_layout (pw_context w)"]) (simp_all add: assms(4) put_active_def split: option.split)

lemma active_fine: "widget_ok G w \<Longrightarrow> activeTool (pw_context w) = Some t \<Longrightarrow> tool_fine G (board_of w) t"
  using activeTool_fine [of G "pw_context w" t] by (simp add: widget_ok_def)

lemma atom_pressed_safe:
  assumes w: "widget_ok G w" and item: "a \<in> fst ` set (pw_items w)"
  shows "safe (widget_ok G) (atom_pressed a i w)"
proof (cases "activeTool (pw_context w) = Some (MoveTool None)")
  case True
  obtain r where r: "live w a = Some r" "(a, r) \<in> set (pb_reservations (board_of w))" using item_live [OF w item] by blast
  then have ok: "reservation_ok G r" using board_ok_reservation [of G "board_of w" "(a, r)"] w by (simp add: widget_ok_def)
  show ?thesis
  proof (cases "i < length (res_atoms r)")
    case index: True
    then have p: "period_ok G (atom_range (res_atoms r ! i))"
      using ok chain_period_ok [of G "res_atoms r" "res_atoms r ! i"] by (simp add: reservation_ok_def)
    let ?g = "\<lparr>mg_reservation = r\<lparr>res_status := Temporary\<rparr>, mg_originalStatus = res_status r,
        mg_originalRoomId = atom_room (res_atoms r ! i), mg_atomIndex = i\<rparr>"
    have "tool_fine G (board_of w) (MoveTool (Some ?g))" using index p by (simp add: tool_fine_def)
    then have "widget_ok G ((on_context (put_active (MoveTool (Some ?g))) w)\<lparr>pw_ghost := Some (obj_id r)\<rparr>)"
      by (rule put_active_widget' [OF w]) simp_all
    then show ?thesis using r True index by (simp add: atom_pressed_def move_atomMousePress_def)
  next
    case False
    then show ?thesis using r True by (simp add: atom_pressed_def move_atomMousePress_def assert_that_def)
  qed
next
  case False
  then have "atom_pressed a i w = Inr w" by (auto simp: atom_pressed_def split: option.split tool.split)
  then show ?thesis using w by simp
qed

lemma mouse_pressed_safe:
  assumes cal: "tool_calendar G" and w: "widget_ok G w" and date: "\<not> is_special G (fst (getNearestDatePosition G x (ctx_layout (pw_context w))))"
  shows "safe (widget_ok G) (mouse_pressed G x y w)"
proof (cases "\<exists>nt. activeTool (pw_context w) = Some (NewTool nt)")
  case True
  then obtain nt where nt: "activeTool (pw_context w) = Some (NewTool nt)" by blast
  have "tool_ok G (board_of w) nt" using active_fine [OF w nt] by (simp add: tool_fine_def)
  then obtain nt' l' where p: "new_mousePress G (board_of w) x y (nt, ctx_layout (pw_context w)) = Inr (nt', l')" "tool_ok G (board_of w) nt'"
    using new_mousePress_ok [OF cal _ _ date, of "board_of w" nt y] w by (auto simp: widget_ok_def)
  have "widget_ok G (w\<lparr>pw_context := (put_active (NewTool nt') (pw_context w))\<lparr>ctx_layout := l'\<rparr>\<rparr>)"
    by (rule put_active_widget [OF w, of "NewTool nt'" _ l']) (use p new_layout_height in \<open>auto simp: tool_fine_def\<close>)
  then show ?thesis using nt p(1) by (simp add: mouse_pressed_def)
next
  case False
  then have "mouse_pressed G x y w = Inr w" by (auto simp: mouse_pressed_def Let_def split: option.split tool.split)
  then show ?thesis using w by simp
qed

lemma move_mouseMove_safe:
  assumes "gregorian_ok G" and "board_ok G b" and "tool_fine G b (MoveTool mt)"
  shows "\<exists>mt'. move_mouseMove G b l y mt = Inr mt' \<and> tool_fine G b (MoveTool mt')"
proof (cases mt)
  case None
  then show ?thesis by (simp add: move_mouseMove_def tool_fine_def)
next
  case (Some g)
  let ?a = "res_atoms (mg_reservation g) ! mg_atomIndex g"
  have g: "mg_atomIndex g < length (res_atoms (mg_reservation g))" "period_ok G (atom_range ?a)"
    using assms(3) Some by (simp_all add: tool_fine_def)
  define f where "f room \<longleftrightarrow> board_nights G b \<inter> {room} \<times> period_days G (atom_range ?a) = {}" for room
  have f: "isFree G b room (atom_range ?a) = Inr (f room)" for room unfolding f_def by (rule isFree_ok [OF assms(1,2) g(2)])
  show ?thesis
  proof (cases "getRowGeometryAtPosition y l")
    case None
    then show ?thesis using assms(3) Some by (simp add: move_mouseMove_def)
  next
    case row: (Some row)
    show ?thesis using assms(3) Some row g f
      by (cases "row_type row = RoomRow"; cases "row_id row = mg_originalRoomId g"; cases "f (row_id row)")
         (simp_all add: move_mouseMove_def Let_def tool_fine_def)
  qed
qed

lemma mouse_moved_safe:
  assumes cal: "tool_calendar G" and w: "widget_ok G w" and date: "\<not> is_special G (fst (getNearestDatePosition G x (ctx_layout (pw_context w))))"
  shows "safe (widget_ok G) (mouse_moved G shift x y w)"
proof (cases "activeTool (pw_context w)")
  case None
  then show ?thesis using w by (simp add: mouse_moved_def)
next
  case (Some t)
  note fine = active_fine [OF w Some]
  have b: "board_ok G (board_of w)" using w by (simp add: widget_ok_def)
  show ?thesis
  proof (cases t)
    case (NewTool nt)
    have "tool_ok G (board_of w) nt" using fine NewTool by (simp add: tool_fine_def)
    then obtain nt' l' where p: "new_mouseMove G (board_of w) shift x y (nt, ctx_layout (pw_context w)) = Inr (nt', l')" "tool_ok G (board_of w) nt'"
      using new_mouseMove_ok [OF cal b _ date, of nt shift y] by auto
    have "widget_ok G (w\<lparr>pw_context := (put_active (NewTool nt') (pw_context w))\<lparr>ctx_layout := l'\<rparr>\<rparr>)"
      by (rule put_active_widget [OF w, of "NewTool nt'" _ l']) (use p new_layout_height in \<open>auto simp: tool_fine_def\<close>)
    then show ?thesis using Some NewTool p(1) by (simp add: mouse_moved_def)
  next
    case (MoveTool mt)
    obtain mt' where mt': "move_mouseMove G (board_of w) (ctx_layout (pw_context w)) y mt = Inr mt'" "tool_fine G (board_of w) (MoveTool mt')"
      using move_mouseMove_safe [OF _ b fine [unfolded MoveTool]] cal by (meson tool_calendar_def)
    have "widget_ok G (on_context (put_active (MoveTool mt')) w)" by (rule put_active_widget' [OF w mt'(2)]) simp_all
    then show ?thesis using Some MoveTool mt'(1) by (simp add: mouse_moved_def)
  qed
qed

lemma mouse_released_ok:
  assumes cal: "tool_calendar G" and w: "widget_ok G w"
  shows "widget_ok G (fst (mouse_released G w))"
proof (cases "activeTool (pw_context w)")
  case None
  then show ?thesis using w by (simp add: mouse_released_def)
next
  case (Some t)
  note fine = active_fine [OF w Some]
  show ?thesis
  proof (cases t)
    case (NewTool nt)
    then have "tool_fine G (board_of w) (NewTool (new_mouseRelease G nt))"
      using fine new_mouseRelease_ok [OF cal] by (simp add: tool_fine_def)
    then have "widget_ok G (on_context (put_active (NewTool (new_mouseRelease G nt))) w)" by (rule put_active_widget' [OF w]) simp_all
    then show ?thesis using Some NewTool by (simp add: mouse_released_def)
  next
    case (MoveTool mt)
    have "tool_fine G (board_of w) (MoveTool None)" by (simp add: tool_fine_def)
    then have "widget_ok G (sync_ghost (on_context (put_active (MoveTool None)) w))" by (rule put_active_widget' [OF w]) simp_all
    then show ?thesis using Some MoveTool by (simp add: mouse_released_def move_mouseRelease_def)
  qed
qed

lemma tool_keyPress_ok:
  assumes w: "widget_ok G w" and key: "tool_keyPress G k (pw_context w) = (c, ops)"
  shows "widget_ok G (w\<lparr>pw_context := c\<rparr>)"
proof (cases "\<exists>nt. activeTool (pw_context w) = Some (NewTool nt)")
  case True
  then obtain nt where nt: "activeTool (pw_context w) = Some (NewTool nt)" by blast
  obtain nt' l' os where k: "new_keyPress G k (nt, ctx_layout (pw_context w)) = (nt', l', os)" using prod_cases3 by blast
  have "tool_fine G (board_of w) (NewTool nt')"
    using active_fine [OF w nt] new_keyPress_ok [OF _ k, of "board_of w"] by (simp add: tool_fine_def)
  moreover have "c = (put_active (NewTool nt') (pw_context w))\<lparr>ctx_layout := l'\<rparr>" using key nt k by (simp add: tool_keyPress_def)
  ultimately show ?thesis using new_layout_height(1) [OF k] by (intro put_active_widget [OF w, of "NewTool nt'" _ l']) simp_all
next
  case False
  then have "c = pw_context w" using key by (auto simp: tool_keyPress_def split: option.splits tool.splits)
  then show ?thesis using w by simp
qed

lemma delete_selected_ok:
  assumes "widget_ok G w"
  shows "delete_selected w = Inr (map (\<lambda>a. Delete ReservationType (obj_id (the (live w a)))) (ctx_selected (pw_context w)))"
  unfolding delete_selected_def by (rule map_res_Inr) (use selected_live [OF assms] in fastforce)

lemma widget_keyPress_safe:
  assumes w: "widget_ok G w"
  shows "safe (\<lambda>(v, ops). widget_ok G v) (widget_keyPress G k w)"
  unfolding widget_keyPress_def
proof (rule safe_bindr)
  show "safe (widget_ok G) (case k of F1 \<Rightarrow> setPlanningBoardLayout GroupedByHotel w | F2 \<Rightarrow> setPlanningBoardLayout GroupedByRoomCategory w | _ \<Rightarrow> Inr w)"
    using w hotels_changed_safe(2) [OF w] by (simp split: widget_key.split)
next
  fix v
  assume v: "widget_ok G v"
  have "safe (\<lambda>_. True) (case k of DeleteKey \<Rightarrow> delete_selected v | _ \<Rightarrow> Inr [])"
    using delete_selected_ok [OF v] by (simp split: widget_key.split)
  then show "safe (\<lambda>(v, ops). widget_ok G v) (bindr (case k of DeleteKey \<Rightarrow> delete_selected v | _ \<Rightarrow> Inr []) (\<lambda>dels.
       let (c, ops) = tool_keyPress G (case k of ToolKey tk \<Rightarrow> tk | _ \<Rightarrow> OtherKey) (pw_context v) in Inr (v\<lparr>pw_context := c\<rparr>, dels @ ops)))"
    using tool_keyPress_ok [OF v prod.collapse [symmetric]] by (auto intro!: safe_bindr simp: split_beta Let_def)
qed

lemma registerTool_ok:
  assumes "widget_ok G w" and "tool_idle t"
  shows "widget_ok G (widget_registerTool name t w)"
proof (rule widget_ok_context [OF assms(1)])
  show "tools_ok G (pw_context (widget_registerTool name t w))"
    using assms idle_fine [OF assms(2)] by (auto simp: widget_ok_def tools_ok_def widget_registerTool_def registerTool_def)
qed (use assms in \<open>auto simp: widget_registerTool_def registerTool_def widget_ok_def\<close>)

lemma unload_active_fields [simp]:
  "ctx_board (unload_active c) = ctx_board c" "ctx_selected (unload_active c) = ctx_selected c" "ctx_hotels (unload_active c) = ctx_hotels c"
  "ctx_backend (unload_active c) = ctx_backend c" "bl_roomRowHeight (ctx_layout (unload_active c)) = bl_roomRowHeight (ctx_layout c)"
  by (simp_all add: unload_active_def new_unload_def setHighlightedPeriods_def split: option.split tool.split)

lemma unload_idle:
  assumes "tools_ok G c" and "(n, t) \<in> set (ctx_tools (unload_active c))"
  shows "tool_idle t"
proof (cases "activeTool c")
  case None
  then show ?thesis using inactive_idle [OF assms(1) None] assms(2) by (simp add: unload_active_def)
next
  case (Some u)
  obtain m where m: "ctx_active c = Some m" using Some by (cases "ctx_active c") (simp_all add: activeTool_def)
  have "tool_idle t" if "(n, t) \<in> set (set_tool m v (ctx_tools c))" "tool_idle v" for v
    using that assms(1) m by (auto simp: set_tool_def tools_ok_def split: if_splits)
  then show ?thesis using assms(2) Some m
    by (auto simp: unload_active_def new_unload_def put_active_def tool_idle_def split: tool.splits)
qed

lemma activateTool_ok:
  assumes "widget_ok G w"
  shows "widget_ok G (widget_activateTool name w)"
proof (rule widget_ok_context [OF assms])
  show "tools_ok G (pw_context (widget_activateTool name w))"
    using assms unload_idle [of G "pw_context w"]
    by (auto simp: widget_activateTool_def activateTool_def Let_def widget_ok_def tools_ok_def [of _ "_\<lparr>ctx_active := _\<rparr>"] intro: idle_fine)
qed (use assms in \<open>auto simp: widget_activateTool_def activateTool_def Let_def widget_ok_def\<close>)

section \<open>Runs\<close>

text \<open>
  The events considered: the streams name new reservations once, with ids the board does not have, and no change
  concerns the reservation that is being dragged at the moment, whose ghost has the same id; the board is not
  cleared; hotels are well formed; the mouse is at ordinary dates; only items can be pressed; and tools are
  registered as they were constructed.
\<close>

definition event_ok :: "('d::linorder, 'p) gregorian \<Rightarrow> ('d, 'p) planning_widget \<Rightarrow> ('d, 'p) widget_event \<Rightarrow> bool" where
  "event_ok G w e \<longleftrightarrow>
     (case e of
        ReservationsAdded rs \<Rightarrow> (\<forall>r \<in> set rs. atoms_regular G r) \<and> distinct (board_ids (board_of w) @ map obj_id rs)
      | ReservationsUpdated rs \<Rightarrow> \<forall>r \<in> set rs. atoms_regular G r \<and> pw_ghost w \<noteq> Some (obj_id r)
      | ReservationsRemoved ids \<Rightarrow> \<forall>i \<in> set ids. pw_ghost w \<noteq> Some i
      | AllReservationsRemoved \<Rightarrow> False
      | HotelsAdded hs \<Rightarrow> list_all hotel_ok hs
      | HotelsUpdated hs \<Rightarrow> list_all hotel_ok hs
      | AtomPressed a i \<Rightarrow> a \<in> fst ` set (pw_items w)
      | MousePressed x y \<Rightarrow> \<not> is_special G (fst (getNearestDatePosition G x (ctx_layout (pw_context w))))
      | MouseMoved shift x y \<Rightarrow> \<not> is_special G (fst (getNearestDatePosition G x (ctx_layout (pw_context w))))
      | ToolRegistered name t \<Rightarrow> tool_idle t
      | _ \<Rightarrow> True)"

inductive widget_reachable ::
    "('d::linorder, 'p) gregorian \<Rightarrow> 'd \<Rightarrow> ('p planning_board \<Rightarrow> addr) \<Rightarrow> ('d, 'p) planning_widget \<Rightarrow> bool" for G today alloc where
  construct: "mk_planning_widget G today = Inr w \<Longrightarrow> widget_reachable G today alloc w"
| handle: "widget_reachable G today alloc w \<Longrightarrow> event_ok G w e \<Longrightarrow> handle_event G today alloc e w = Inr (w', ops) \<Longrightarrow>
    widget_reachable G today alloc w'"

lemma no_ops_safe: "safe P m \<Longrightarrow> safe (\<lambda>(w, ops). P w) (no_ops m)"
  unfolding no_ops_def by (auto intro: safe_bindr)

lemma added_safe:
  assumes "gregorian_ok G" and "\<And>b. alloc b \<notin> fst ` set (pb_reservations b)"
    and "widget_ok G w" and "\<forall>r \<in> set rs. atoms_regular G r" and "distinct (board_ids (board_of w) @ map obj_id rs)"
  shows "safe (widget_ok G) (reservationsAdded G today alloc rs w)"
  unfolding reservationsAdded_def by (rule safe_bindr [OF adds_safe [OF assms] date_range_safe [OF assms(1)]])

lemma updated_safe:
  assumes "gregorian_ok G" and "\<And>b. alloc b \<notin> fst ` set (pb_reservations b)"
    and "widget_ok G w" and "\<forall>r \<in> set rs. atoms_regular G r \<and> pw_ghost w \<noteq> Some (obj_id r)"
  shows "safe (widget_ok G) (reservationsUpdated G today alloc rs w)"
  unfolding reservationsUpdated_def by (rule safe_bindr [OF updates_safe [OF assms]]) (blast intro: date_range_safe [OF assms(1)])

lemma removed_safe:
  assumes "gregorian_ok G" and "widget_ok G w" and "\<forall>i \<in> set ids. pw_ghost w \<noteq> Some i"
  shows "safe (widget_ok G) (reservationsRemoved G today ids w)"
  unfolding reservationsRemoved_def by (rule safe_bindr [OF removals_safe [OF assms(2,3)]]) (blast intro: date_range_safe [OF assms(1)])

lemma layout_steps_safe:
  assumes "widget_ok G w"
  shows "safe (widget_ok G) (allHotelsRemoved w)" and "safe (widget_ok G) (widget_setPivotDate d w)"
proof -
  have ok: "widget_ok G (w\<lparr>pw_roomList := []\<rparr>)" "widget_ok G (on_context (context_setPivotDate d) w)"
    by (rule widget_ok_context [OF assms]; use assms in \<open>simp add: widget_ok_def context_setPivotDate_def setPivotDate_def\<close>)+
  show "safe (widget_ok G) (allHotelsRemoved w)" "safe (widget_ok G) (widget_setPivotDate d w)"
    using ok updateLayout_live [OF ok(1)] updateLayout_live [OF ok(2)] by (simp_all add: allHotelsRemoved_def widget_setPivotDate_def)
qed

lemma handle_event_safe:
  assumes cal: "tool_calendar G" and alloc: "\<And>b. alloc b \<notin> fst ` set (pb_reservations b)" and w: "widget_ok G w" and e: "event_ok G w e"
  shows "safe (\<lambda>(v, ops). widget_ok G v) (handle_event G today alloc e w)"
proof -
  have G: "gregorian_ok G" using cal by (simp add: tool_calendar_def)
  show ?thesis
    using e w mouse_released_ok [OF cal w]
    by (cases e)
       (auto simp: event_ok_def split_beta intro!: no_ops_safe added_safe [OF G alloc] updated_safe [OF G alloc] removed_safe [OF G]
          hotelsAdded_safe hotelsRemoved_safe layout_steps_safe widget_keyPress_safe setReservationSelected_safe atom_pressed_safe
          mouse_pressed_safe [OF cal] mouse_moved_safe [OF cal] registerTool_ok activateTool_ok)
qed

lemma mk_planning_widget_ok:
  fixes G :: "('d::linorder, 'p) gregorian"
  assumes "gregorian_ok G" and "mk_planning_widget G today = Inr w"
  shows "widget_ok G w"
proof -
  let ?c = "context_setPivotDate today (setDataBackend (mk_context today)) :: ('d, 'p) planning_context"
  obtain l' where l': "initializeLayout (ctx_hotels ?c) GroupedByHotel (ctx_layout ?c) = Inr l'" "0 < bl_roomRowHeight l'"
    using initializeLayout_ok [of "ctx_hotels ?c" "ctx_layout ?c" GroupedByHotel]
    by (auto simp: context_setPivotDate_def setDataBackend_def mk_context_def mk_board_layout_def setPivotDate_def)
  let ?w = "\<lparr>pw_context = ?c\<lparr>ctx_layout := l'\<rparr>, pw_layoutType = GroupedByHotel, pw_items = [], pw_ghost = None, pw_roomList = []\<rparr>"
  have "context_initializeLayout GroupedByHotel ?c = Inr (?c\<lparr>ctx_layout := l'\<rparr>)"
    using l'(1) by (auto simp: context_initializeLayout_def context_setPivotDate_def setDataBackend_def)
  then have "updateDateRange G today ?w = Inr w" using assms(2) by (simp add: mk_planning_widget_def)
  moreover have "widget_ok G ?w" using l'(2)
    by (simp add: widget_ok_def items_ok_def board_ids_def context_setPivotDate_def setDataBackend_def mk_context_def tools_ok_def)
       (simp add: empty_board_def)
  ultimately show ?thesis using date_range_safe [OF assms(1), of ?w today] by simp
qed

lemma widget_reachable_ok:
  assumes "widget_reachable G today alloc w" and "tool_calendar G" and "\<And>b. alloc b \<notin> fst ` set (pb_reservations b)"
  shows "widget_ok G w"
  using assms(1)
proof (induction rule: widget_reachable.induct)
  case (construct w)
  then show ?case using mk_planning_widget_ok assms(2) by (auto simp: tool_calendar_def)
next
  case (handle w e w' ops)
  then show ?case using handle_event_safe [OF assms(2,3) handle.IH handle.hyps(2), of today] by simp
qed

text \<open>After a clearing the selection is not safe any more: the removal of the selected reservation leaves its pointer there, and the
  delete key follows it.\<close>

lemma cleared_selection_dangles:
  assumes "gregorian_ok G" and w: "widget_ok G w" and a: "ctx_selected (pw_context w) = [a]" "live w a = Some r"
  shows "\<exists>w'. handle_event G today alloc (ReservationsRemoved [obj_id r]) (allReservationsRemoved w) = Inr (w', [])
    \<and> handle_event G today alloc (KeyPressed DeleteKey) w' = Inl UndefinedBehaviour"
proof -
  let ?b = "removeReservationId (obj_id r) (board_of w)"
  let ?w = "(allReservationsRemoved w)\<lparr>pw_context := (pw_context w)\<lparr>ctx_board := ?b\<rparr>\<rparr>"
  have one: "remove_one (obj_id r) (allReservationsRemoved w) = Inr ?w"
    by (simp add: remove_one_def board_removeReservation_def allReservationsRemoved_def board_removeAllReservations_def
        context_removeReservation_def on_context_def)
  have "board_ok G ?b" using w remove_id_ok by (auto simp: widget_ok_def)
  then obtain p where "getPlanningExtent G today ?b = Inr p"
    using getPlanningExtent_ok [OF assms(1), of ?b today]
    by (cases "pb_reservations ?b = []") (auto simp: getPlanningExtent_def)
  then obtain l where l: "updateDateRange G today ?w = Inr (on_context (\<lambda>c. c\<lparr>ctx_layout := l\<rparr>) ?w)"
    by (simp add: updateDateRange_def Let_def on_context_def)
  let ?R = "pb_reservations (board_of w)"
  have R: "distinct (map fst ?R)" "(a, r) \<in> set ?R" using w a(2) map_of_SomeD by (auto simp: widget_ok_def board_ok_def live_def)
  obtain k where k: "find_index (\<lambda>x. obj_id (snd x) = obj_id r) ?R = Some k"
    using R(2) find_index_None [of "\<lambda>x. obj_id (snd x) = obj_id r" ?R] by (cases "find_index (\<lambda>x. obj_id (snd x) = obj_id r) ?R") force+
  have ids: "distinct (map (\<lambda>e. obj_id (snd e)) ?R)" using w by (simp add: widget_ok_def board_ids_def)
  have nth: "k < length ?R" "obj_id (snd (?R ! k)) = obj_id r" using find_index_SomeD [OF k] by auto
  then have "?R ! k = (a, r)" using inj_onD [of "\<lambda>e. obj_id (snd e)" "set ?R" "?R ! k" "(a, r)"] ids R(2) by (simp add: distinct_map)
  then have "a \<notin> fst ` set (take k ?R @ drop (Suc k) ?R)"
    using remove_at_addrs(1) [OF R(1) nth(1)] by simp
  then have "live (on_context (\<lambda>c. c\<lparr>ctx_layout := l\<rparr>) ?w) a = None"
    using k by (simp add: live_def on_context_def removeReservationId_def map_of_eq_None_iff image_Un)
  then have "delete_selected (on_context (\<lambda>c. c\<lparr>ctx_layout := l\<rparr>) ?w) = Inl UndefinedBehaviour"
    using a(1) by (simp add: delete_selected_def on_context_def)
  then show ?thesis using one l
    by (intro exI [of _ "on_context (\<lambda>c. c\<lparr>ctx_layout := l\<rparr>) ?w"]) (simp add: reservationsRemoved_def no_ops_def widget_keyPress_def)
qed

section \<open>Properties\<close>

text \<open>C9 The planning widget never follows the pointer of a reservation that is gone, in the runs \<open>event_ok\<close> allows: the
  stream of reservations is never cleared, a reservation is not updated or removed while the move tool drags it, streamed
  reservations have new ids and ordinary dates, hotels are well formed and the mouse stays on ordinary dates.  In every such run of stream
  changes and user events, each further such event, given to the widget as it then is, is free of undefined behaviour; the board shows
  exactly the reservations the context owns, each by one item; the selection holds only such reservations; and the
  delete key sends the removal of exactly the selected reservations, each once.  The two exclusions of stream changes are needed: after a
  clearing the selection outlives the items, and the removal of a dragged reservation takes its ghost off the board in place of its
  item.\<close>

theorem widget_never_dangles:
  assumes "tool_calendar G" and "\<And>b. alloc b \<notin> fst ` set (pb_reservations b)" and "widget_reachable G today alloc w"
  shows "(\<forall>e. event_ok G w e \<longrightarrow> handle_event G today alloc e w \<noteq> Inl UndefinedBehaviour)
    \<and> distinct (map fst (pw_items w)) \<and> set (map fst (pw_items w)) = set (reservations (ctx_board (pw_context w)))
    \<and> set (ctx_selected (pw_context w)) \<subseteq> set (reservations (ctx_board (pw_context w))) \<and> distinct (ctx_selected (pw_context w))
    \<and> (\<exists>w'. handle_event G today alloc (KeyPressed DeleteKey) w
          = Inr (w', map (\<lambda>a. Delete ReservationType (obj_id (the (live w a)))) (ctx_selected (pw_context w))))"
proof -
  have w: "widget_ok G w" using widget_reachable_ok [OF assms(3,1,2)] .
  have "handle_event G today alloc e w \<noteq> Inl UndefinedBehaviour" if "event_ok G w e" for e
    using handle_event_safe [OF assms(1,2) w that, of today] by (auto simp: safe_def)
  moreover have "set (ctx_selected (pw_context w)) \<subseteq> set (reservations (board_of w))"
    using w by (force simp: widget_ok_def items_ok_def reservations_def)
  moreover have "snd (tool_keyPress G OtherKey (pw_context w)) = []"
    by (simp add: tool_keyPress_def new_keyPress_def Let_def split: option.split tool.split)
  then have "\<exists>w'. widget_keyPress G DeleteKey w = Inr (w', map (\<lambda>a. Delete ReservationType (obj_id (the (live w a)))) (ctx_selected (pw_context w)))"
    using delete_selected_ok [OF w] by (simp add: widget_keyPress_def split_beta Let_def)
  ultimately show ?thesis using w by (simp add: widget_ok_def items_ok_def reservations_def)
qed

text \<open>A stay is added and selected; the delete key then removes it.\<close>

definition demo_stay4 :: "(int \<times> int) reservation" where
  "demo_stay4 = demo_stay\<lparr>obj_id := 4\<rparr>"

lemma demo_widget:
  "\<exists>w. widget_reachable day_calendar 5 new_addr w \<and> ctx_selected (pw_context w) = [1] \<and> live w 1 = Some demo_stay4"
proof -
  let ?G = day_calendar and ?r = demo_stay4
  have range: "\<exists>l. updateDateRange ?G 5 w = Inr (on_context (\<lambda>c. c\<lparr>ctx_layout := l\<rparr>) w)" if "board_ok ?G (board_of w)" for w
    using that getPlanningExtent_ok [OF day_calendar_ok that, of 5]
    by (cases "pb_reservations (board_of w) = []") (auto simp: updateDateRange_def Let_def getPlanningExtent_def on_context_def)
  obtain w0 where w0: "mk_planning_widget ?G 5 = Inr w0" "board_of w0 = empty_board" "ctx_tools (pw_context w0) = []"
      "pw_items w0 = []" "ctx_selected (pw_context w0) = []" "ctx_active (pw_context w0) = None"
    by (simp add: mk_planning_widget_def context_initializeLayout_def setDataBackend_def context_setPivotDate_def mk_context_def
        initializeLayout_def Let_def updateDateRange_def getPlanningExtent_def empty_board_def)
  have r: "reservation_ok ?G ?r" "obj_id ?r = 4" "res_status ?r \<noteq> Temporary"
    using demo_stay_ok by (simp_all add: demo_stay4_def reservation_ok_def) (simp add: demo_stay_def mk_reservation_def)
  obtain b where b: "addReservation ?G (Some (1, ?r)) empty_board = Inr b" "board_ok ?G b" "pb_reservations b = [(1, ?r)]"
    using addReservation_ok [OF day_calendar_ok board_ok_empty, of "(1, ?r)"] r(1) by (auto simp: board_nights_def empty_board_def)
  let ?w1 = "w0\<lparr>pw_context := (pw_context w0)\<lparr>ctx_board := b\<rparr>, pw_items := [(1, False)], pw_ghost := None\<rparr>"
  have "new_addr (empty_board :: (int \<times> int) planning_board) = 1" by (simp add: new_addr_def empty_board_def)
  then have "add_one ?G new_addr ?r w0 = Inr ?w1"
    using w0 r(2) b(1)
    by (simp add: add_one_def context_addReservation_def tell_active_def activeTool_def Let_def sync_ghost_def board_addReservation_def)
  moreover obtain l where "updateDateRange ?G 5 ?w1 = Inr (on_context (\<lambda>c. c\<lparr>ctx_layout := l\<rparr>) ?w1)" using range [of ?w1] b(2) by auto
  ultimately have "handle_event ?G 5 new_addr (ReservationsAdded [?r]) w0 = Inr (on_context (\<lambda>c. c\<lparr>ctx_layout := l\<rparr>) ?w1, [])"
    by (simp add: reservationsAdded_def no_ops_def)
  moreover have "event_ok ?G w0 (ReservationsAdded [?r])"
    using w0(2) r by (simp add: event_ok_def board_ids_def empty_board_def reservation_ok_regular)
  ultimately have w1: "widget_reachable ?G 5 new_addr (on_context (\<lambda>c. c\<lparr>ctx_layout := l\<rparr>) ?w1)"
    using widget_reachable.handle [OF widget_reachable.construct [OF w0(1)]] by blast
  let ?w2 = "(on_context (addSelectedReservation 1) (on_context (\<lambda>c. c\<lparr>ctx_layout := l\<rparr>) ?w1))\<lparr>pw_items := [(1, True)]\<rparr>"
  have "handle_event ?G 5 new_addr (ItemSelected 1 True) (on_context (\<lambda>c. c\<lparr>ctx_layout := l\<rparr>) ?w1) = Inr (?w2, [])"
    using r(3) b(3) by (simp add: setReservationSelected_def live_def no_ops_def)
  then have "widget_reachable ?G 5 new_addr ?w2"
    using widget_reachable.handle [OF w1, of "ItemSelected 1 True"] by (simp add: event_ok_def)
  then show ?thesis using b(3) w0(5) by (intro exI [of _ ?w2]) (simp add: addSelectedReservation_def live_def)
qed

theorem widget_never_dangles_witness:
  "\<exists>w w'. widget_reachable day_calendar 5 new_addr w
    \<and> handle_event day_calendar 5 new_addr (KeyPressed DeleteKey) w = Inr (w', [Delete ReservationType 4])"
proof -
  obtain w where w: "widget_reachable day_calendar 5 new_addr w" "ctx_selected (pw_context w) = [1]" "live w 1 = Some demo_stay4"
    using demo_widget by blast
  have "obj_id (the (live w 1)) = 4" using w(3) by (simp add: demo_stay4_def)
  then show ?thesis
    using widget_never_dangles [OF day_calendar_tools new_addr_fresh w(1), THEN conjunct2, THEN conjunct2, THEN conjunct2, THEN conjunct2, THEN conjunct2]
      w(1,2) by auto
qed

end
