(* ===== verification/EditReservation.thy ===== *)
theory EditReservation
  imports Operations NetSerializer
begin

text \<open>
  \<open>gui::dialogs::EditReservationDialog\<close>: a form over one reservation of a stream, which saves against the version it
  was filled from, and merges the user's edits with newer versions that arrive meanwhile.  \<open>Q\<close> is what the three
  input widgets of Qt make of the values put into them.  Layout and the status bar are not modelled.
\<close>

section \<open>Three-way merge\<close>

text \<open>
  \<open>Resolver::merge\<close> over arrays of one size: the merged array, which starts as \<open>base\<close>, and the indices in conflict.
\<close>

definition merge_field :: "'a list \<Rightarrow> 'a list \<Rightarrow> 'a list \<Rightarrow> nat \<Rightarrow> 'a list \<times> nat list \<Rightarrow> 'a list \<times> nat list" where
  "merge_field base ours theirs i resolution =
     (let oursChanged = base ! i \<noteq> ours ! i;
          theirsChanged = base ! i \<noteq> theirs ! i;
          merged = fst resolution;
          conflicts = snd resolution
      in if ours ! i = theirs ! i then (merged[i := ours ! i], conflicts)
         else if oursChanged \<and> \<not> theirsChanged then (merged[i := ours ! i], conflicts)
         else if \<not> oursChanged \<and> theirsChanged then (merged[i := theirs ! i], conflicts)
         else if oursChanged \<and> theirsChanged then (merged, conflicts @ [i])
         else resolution)"

definition merge :: "'a list \<Rightarrow> 'a list \<Rightarrow> 'a list \<Rightarrow> 'a list \<times> nat list" where
  "merge base ours theirs = fold (merge_field base ours theirs) [0..<length base] (base, [])"

text \<open>What the user answers to a conflict.\<close>

datatype choice = BaseVersion | OurVersion | TheirVersion

definition resolve_field :: "(nat \<Rightarrow> choice) \<Rightarrow> 'a list \<Rightarrow> 'a list \<Rightarrow> nat \<Rightarrow> 'a list \<Rightarrow> 'a list" where
  "resolve_field answer ours theirs i merged =
     (case answer i of
        BaseVersion \<Rightarrow> merged
      | OurVersion \<Rightarrow> merged[i := ours ! i]
      | TheirVersion \<Rightarrow> merged[i := theirs ! i])"

definition resolve :: "(nat \<Rightarrow> choice) \<Rightarrow> 'a list \<Rightarrow> 'a list \<Rightarrow> 'a list \<Rightarrow> 'a list" where
  "resolve answer base ours theirs =
     (let (merged, conflicts) = merge base ours theirs in fold (resolve_field answer ours theirs) conflicts merged)"

section \<open>The form\<close>

datatype form_value = IntValue int | TextValue string | StatusValue reservation_status

record qt =
  qt_setCurrentIndex :: "int \<Rightarrow> int \<Rightarrow> int"
  qt_setText :: "string \<Rightarrow> string"
  qt_setValue :: "int \<Rightarrow> int \<Rightarrow> int \<Rightarrow> int"

text \<open>
  Of the documentation: the index is the given one, or \<open>-1\<close> for one without an item, and a spin box keeps the given
  value within its range.
\<close>

definition qt_ok :: "qt \<Rightarrow> bool" where
  "qt_ok Q \<longleftrightarrow> (\<forall>n i. qt_setCurrentIndex Q n i = (if 0 \<le> i \<and> i < n then i else -1))
     \<and> (\<forall>a b v. a \<le> b \<longrightarrow> qt_setValue Q a b v = max a (min b v))"

definition qt_plain :: qt where
  "qt_plain = \<lparr>qt_setCurrentIndex = \<lambda>n i. if 0 \<le> i \<and> i < n then i else -1, qt_setText = \<lambda>s. s, qt_setValue = \<lambda>a b v. max a (min b v)\<rparr>"

lemma qt_plain_ok: "qt_ok qt_plain"
  by (simp add: qt_ok_def qt_plain_def)

record form =
  fm_status :: int
  fm_description :: string
  fm_adults :: int
  fm_children :: int

definition mk_form :: form where
  "mk_form = \<lparr>fm_status = 0, fm_description = [], fm_adults = 0, fm_children = 0\<rparr>"

text \<open>The enumeration and its numbers; the cast of another number is undefined.\<close>

definition status_number :: "reservation_status \<Rightarrow> int" where
  "status_number s =
     (case s of Unknown \<Rightarrow> 0 | Temporary \<Rightarrow> 1 | New \<Rightarrow> 2 | Confirmed \<Rightarrow> 3 | CheckedIn \<Rightarrow> 4 | CheckedOut \<Rightarrow> 5 | Archived \<Rightarrow> 6)"

definition number_status :: "int \<Rightarrow> reservation_status res" where
  "number_status i =
     (if i = 0 then Inr Unknown else if i = 1 then Inr Temporary else if i = 2 then Inr New else if i = 3 then Inr Confirmed
      else if i = 4 then Inr CheckedIn else if i = 5 then Inr CheckedOut else if i = 6 then Inr Archived else Inl UndefinedBehaviour)"

definition formValues :: "form \<Rightarrow> form_value list res" where
  "formValues f =
     bindr (number_status (fm_status f + 2)) (\<lambda>s.
       Inr [StatusValue s, TextValue (fm_description f), IntValue (fm_adults f), IntValue (fm_children f)])"

fun get_status :: "form_value \<Rightarrow> reservation_status res" where
  "get_status (StatusValue s) = Inr s"
| "get_status _ = Inl BadVariantAccess"

fun get_text :: "form_value \<Rightarrow> string res" where
  "get_text (TextValue s) = Inr s"
| "get_text _ = Inl BadVariantAccess"

fun get_int :: "form_value \<Rightarrow> int res" where
  "get_int (IntValue i) = Inr i"
| "get_int _ = Inl BadVariantAccess"

definition setFormValues :: "qt \<Rightarrow> form_value list \<Rightarrow> form \<Rightarrow> form res" where
  "setFormValues Q t f =
     bindr (get_status (t ! 0)) (\<lambda>s. bindr (get_text (t ! 1)) (\<lambda>d. bindr (get_int (t ! 2)) (\<lambda>a. bindr (get_int (t ! 3)) (\<lambda>c.
       Inr \<lparr>fm_status = qt_setCurrentIndex Q 5 (status_number s - 2), fm_description = qt_setText Q d,
            fm_adults = qt_setValue Q 0 10 a, fm_children = qt_setValue Q 0 10 c\<rparr>))))"

definition ItemToTuple :: "'p reservation \<Rightarrow> form_value list" where
  "ItemToTuple r = [StatusValue (res_status r), TextValue (res_description r), IntValue (res_adults r), IntValue (res_children r)]"

definition SetItemFromTuple :: "form_value list \<Rightarrow> 'p reservation \<Rightarrow> 'p reservation res" where
  "SetItemFromTuple t r =
     bindr (get_status (t ! 0)) (\<lambda>s. bindr (get_text (t ! 1)) (\<lambda>d. bindr (get_int (t ! 2)) (\<lambda>a. bindr (get_int (t ! 3)) (\<lambda>c.
       Inr (r\<lparr>res_status := s, res_description := d, res_adults := a, res_children := c\<rparr>)))))"

section \<open>The dialog\<close>

datatype dialog_status = NotInitialized | Ready | Removed | Saving

text \<open>
  \<open>ed_enabled\<close>, \<open>ed_save\<close> and \<open>ed_merge\<close> say whether the dialog and its save button are enabled and the merge button is
  visible.  \<open>ed_merging\<close> holds the local variables of \<open>mergeChangesClicked\<close> while its message boxes run an
  event loop of their own; \<open>ed_saveTask\<close> says that a result is awaited, \<open>ed_closed\<close> that the dialog is deleted.
\<close>

record 'p dialog =
  ed_status :: dialog_status
  ed_reference :: "'p reservation option"
  ed_newest :: "'p reservation option"
  ed_form :: form
  ed_enabled :: bool
  ed_save :: bool
  ed_merge :: bool
  ed_merging :: "(form_value list \<times> form_value list \<times> form_value list) option"
  ed_saveTask :: bool
  ed_closed :: bool

definition updateUI :: "'p dialog \<Rightarrow> 'p dialog" where
  "updateUI d = d\<lparr>ed_enabled := (ed_status d = Ready \<and> ed_reference d \<noteq> None),
     ed_save := (ed_status d = Ready \<and> ed_newest d = None),
     ed_merge := (ed_status d = Ready \<and> ed_newest d \<noteq> None)\<rparr>"

definition mk_dialog :: "'p dialog" where
  "mk_dialog = updateUI
     \<lparr>ed_status = NotInitialized, ed_reference = None, ed_newest = None, ed_form = mk_form, ed_enabled = True, ed_save = True,
      ed_merge = True, ed_merging = None, ed_saveTask = False, ed_closed = False\<rparr>"

definition saveClicked :: "'p dialog \<Rightarrow> ('p dialog \<times> 'p operation list) res" where
  "saveClicked d =
     assert_that (ed_status d = Ready)
       (case ed_reference d of
          None \<Rightarrow> Inl AssertFailed
        | Some r \<Rightarrow>
            bindr (formValues (ed_form d)) (\<lambda>t. bindr (SetItemFromTuple t r) (\<lambda>updated.
              Inr (updateUI (d\<lparr>ed_status := Saving, ed_saveTask := True\<rparr>), [Update (ReservationItem updated)]))))"

text \<open>The end of \<open>mergeChangesClicked\<close>, from the values the form gets if there are any.\<close>

definition finish_merge :: "qt \<Rightarrow> form_value list option \<Rightarrow> 'p dialog \<Rightarrow> 'p dialog res" where
  "finish_merge Q merged d =
     bindr (case merged of None \<Rightarrow> Inr (ed_form d) | Some t \<Rightarrow> setFormValues Q t (ed_form d)) (\<lambda>f.
       Inr (updateUI (d\<lparr>ed_form := f, ed_reference := ed_newest d, ed_newest := None, ed_merging := None\<rparr>)))"

definition mergeChangesClicked :: "qt \<Rightarrow> 'p dialog \<Rightarrow> 'p dialog res" where
  "mergeChangesClicked Q d =
     (case ed_newest d of
        None \<Rightarrow> finish_merge Q None d
      | Some newest \<Rightarrow>
          (case ed_reference d of
             None \<Rightarrow> Inl UndefinedBehaviour
           | Some reference \<Rightarrow>
               bindr (formValues (ed_form d)) (\<lambda>ours.
                 let base = ItemToTuple reference; theirs = ItemToTuple newest; (merged, conflicts) = merge base ours theirs
                 in if conflicts = [] then finish_merge Q (Some merged) d
                    else Inr (d\<lparr>ed_merging := Some (base, ours, theirs)\<rparr>))))"

definition conflicts_answered :: "qt \<Rightarrow> (nat \<Rightarrow> choice) \<Rightarrow> 'p dialog \<Rightarrow> 'p dialog res" where
  "conflicts_answered Q answer d =
     (case ed_merging d of
        None \<Rightarrow> Inr d
      | Some (base, ours, theirs) \<Rightarrow> finish_merge Q (Some (resolve answer base ours theirs)) d)"

definition dialog_initialized :: "'p dialog \<Rightarrow> 'p dialog res" where
  "dialog_initialized d = assert_that (ed_status d = NotInitialized) (Inr (updateUI (d\<lparr>ed_status := Ready\<rparr>)))"

definition dialog_added :: "qt \<Rightarrow> 'p reservation list \<Rightarrow> 'p dialog \<Rightarrow> 'p dialog res" where
  "dialog_added Q rs d =
     assert_that (ed_status d = NotInitialized) (assert_that (length rs = 1) (assert_that (ed_reference d = None)
       (bindr (setFormValues Q (ItemToTuple (rs ! 0)) (ed_form d)) (\<lambda>f.
         Inr (d\<lparr>ed_reference := Some (rs ! 0), ed_form := f\<rparr>)))))"

definition dialog_updated :: "'p reservation list \<Rightarrow> 'p dialog \<Rightarrow> 'p dialog res" where
  "dialog_updated rs d =
     assert_that (length rs = 1)
       (case ed_reference d of
          None \<Rightarrow> Inl AssertFailed
        | Some reference \<Rightarrow>
            assert_that (obj_revision reference < obj_revision (rs ! 0)) (Inr (updateUI (d\<lparr>ed_newest := Some (rs ! 0)\<rparr>))))"

definition dialog_removed :: "int list \<Rightarrow> 'p dialog \<Rightarrow> 'p dialog res" where
  "dialog_removed ids d =
     assert_that (length ids = 1)
       (case ed_reference d of
          None \<Rightarrow> Inl AssertFailed
        | Some reference \<Rightarrow>
            assert_that (obj_id reference = ids ! 0) (Inr (updateUI (d\<lparr>ed_reference := None, ed_status := Removed\<rparr>))))"

definition dialog_allRemoved :: "'p dialog \<Rightarrow> 'p dialog" where
  "dialog_allRemoved d = updateUI (d\<lparr>ed_reference := None, ed_status := Removed\<rparr>)"

text \<open>Another status than success needs a message.\<close>

definition saveTaskUpdated :: "task_result list \<Rightarrow> 'p dialog \<Rightarrow> 'p dialog res" where
  "saveTaskUpdated results d =
     (if results = [] then Inl UndefinedBehaviour
      else if task_status (results ! 0) = Successful then Inr (d\<lparr>ed_saveTask := False, ed_closed := True\<rparr>)
      else bindr (string_at (task_data (results ! 0)) ''message'') (\<lambda>message.
        Inr (updateUI (d\<lparr>ed_saveTask := False, ed_status := Ready\<rparr>))))"

text \<open>What reaches the dialog: its stream, the user, and the result of the task.\<close>

datatype 'p dialog_event =
    StreamInitialized
  | ItemsAdded "'p reservation list"
  | ItemsUpdated "'p reservation list"
  | ItemsRemoved "int list"
  | AllItemsRemoved
  | FormEdited form
  | SaveClicked
  | MergeClicked
  | ConflictsAnswered "nat \<Rightarrow> choice"
  | SaveFinished "task_result list"

fun dialog_step :: "qt \<Rightarrow> 'p dialog_event \<Rightarrow> 'p dialog \<Rightarrow> ('p dialog \<times> 'p operation list) res" where
  "dialog_step Q SaveClicked d = saveClicked d"
| "dialog_step Q StreamInitialized d = bindr (dialog_initialized d) (\<lambda>d. Inr (d, []))"
| "dialog_step Q (ItemsAdded rs) d = bindr (dialog_added Q rs d) (\<lambda>d. Inr (d, []))"
| "dialog_step Q (ItemsUpdated rs) d = bindr (dialog_updated rs d) (\<lambda>d. Inr (d, []))"
| "dialog_step Q (ItemsRemoved ids) d = bindr (dialog_removed ids d) (\<lambda>d. Inr (d, []))"
| "dialog_step Q AllItemsRemoved d = Inr (dialog_allRemoved d, [])"
| "dialog_step Q (FormEdited f) d = Inr (d\<lparr>ed_form := f\<rparr>, [])"
| "dialog_step Q MergeClicked d = bindr (mergeChangesClicked Q d) (\<lambda>d. Inr (d, []))"
| "dialog_step Q (ConflictsAnswered answer) d = bindr (conflicts_answered Q answer d) (\<lambda>d. Inr (d, []))"
| "dialog_step Q (SaveFinished results) d = bindr (saveTaskUpdated results d) (\<lambda>d. Inr (d, []))"

section \<open>The merge\<close>

text \<open>What becomes of one field, if the two sides do not settle it.\<close>

definition merged_value :: "'a \<Rightarrow> 'a \<Rightarrow> 'a \<Rightarrow> 'a option" where
  "merged_value b o' t = (if o' = t then Some o' else if b = t then Some o' else if b = o' then Some t else None)"

lemma merge_field_value: "merge_field base ours theirs i (m, cs) =
    (case merged_value (base ! i) (ours ! i) (theirs ! i) of None \<Rightarrow> (m, cs @ [i]) | Some v \<Rightarrow> (m[i := v], cs))"
  by (auto simp: merge_field_def merged_value_def Let_def)

lemma merge_loop:
  defines "val base ours theirs i \<equiv> case merged_value (base ! i) (ours ! i) (theirs ! i) of None \<Rightarrow> base ! i | Some v \<Rightarrow> v"
  shows "k \<le> length base \<Longrightarrow> fold (merge_field base ours theirs) [0..<k] (base, []) =
    (map (val base ours theirs) [0..<k] @ drop k base,
     filter (\<lambda>i. merged_value (base ! i) (ours ! i) (theirs ! i) = None) [0..<k])"
proof (induction k)
  case (Suc k)
  have drop: "drop k base = base ! k # drop (Suc k) base" using Suc.prems by (simp add: Cons_nth_drop_Suc)
  show ?case using Suc
    by (cases "merged_value (base ! k) (ours ! k) (theirs ! k)")
       (simp_all add: merge_field_value val_def drop list_update_append)
qed simp

lemma merge_fields:
  "merge base ours theirs =
    (map (\<lambda>i. case merged_value (base ! i) (ours ! i) (theirs ! i) of None \<Rightarrow> base ! i | Some v \<Rightarrow> v) [0..<length base],
     filter (\<lambda>i. merged_value (base ! i) (ours ! i) (theirs ! i) = None) [0..<length base])"
  using merge_loop [of "length base" base ours theirs] by (simp add: merge_def)

definition chosen :: "choice \<Rightarrow> 'a \<Rightarrow> 'a \<Rightarrow> 'a \<Rightarrow> 'a" where
  "chosen c b o' t = (case c of BaseVersion \<Rightarrow> b | OurVersion \<Rightarrow> o' | TheirVersion \<Rightarrow> t)"

lemma resolve_loop:
  assumes "distinct cs" and "\<forall>i \<in> set cs. i < length m"
  shows "length (fold (resolve_field answer ours theirs) cs m) = length m
    \<and> (\<forall>i < length m. fold (resolve_field answer ours theirs) cs m ! i
          = (if i \<in> set cs then chosen (answer i) (m ! i) (ours ! i) (theirs ! i) else m ! i))"
  using assms
proof (induction cs arbitrary: m)
  case (Cons c cs)
  let ?m = "resolve_field answer ours theirs c m"
  have m: "length ?m = length m" "\<And>i. i < length m \<Longrightarrow> ?m ! i = (if i = c then chosen (answer c) (m ! c) (ours ! c) (theirs ! c) else m ! i)"
    by (auto simp: resolve_field_def chosen_def split: choice.split)
  show ?case using Cons.IH [of ?m] Cons.prems m by auto
qed simp

lemma resolve_fields:
  assumes "i < length base"
  shows "resolve answer base ours theirs ! i =
    (case merged_value (base ! i) (ours ! i) (theirs ! i) of
       None \<Rightarrow> chosen (answer i) (base ! i) (ours ! i) (theirs ! i) | Some v \<Rightarrow> v)"
    and "length (resolve answer base ours theirs) = length base"
proof -
  let ?c = "filter (\<lambda>i. merged_value (base ! i) (ours ! i) (theirs ! i) = None) [0..<length base]"
  let ?m = "map (\<lambda>i. case merged_value (base ! i) (ours ! i) (theirs ! i) of None \<Rightarrow> base ! i | Some v \<Rightarrow> v) [0..<length base]"
  have r: "resolve answer base ours theirs = fold (resolve_field answer ours theirs) ?c ?m" by (simp add: resolve_def merge_fields)
  have loop: "length (fold (resolve_field answer ours theirs) ?c ?m) = length ?m
    \<and> (\<forall>i < length ?m. fold (resolve_field answer ours theirs) ?c ?m ! i
          = (if i \<in> set ?c then chosen (answer i) (?m ! i) (ours ! i) (theirs ! i) else ?m ! i))"
    by (rule resolve_loop) auto
  show "length (resolve answer base ours theirs) = length base" using loop r by simp
  show "resolve answer base ours theirs ! i =
    (case merged_value (base ! i) (ours ! i) (theirs ! i) of
       None \<Rightarrow> chosen (answer i) (base ! i) (ours ! i) (theirs ! i) | Some v \<Rightarrow> v)"
    using loop assms unfolding r by (cases "merged_value (base ! i) (ours ! i) (theirs ! i)") auto
qed

section \<open>Forms\<close>

definition typed :: "form_value list \<Rightarrow> bool" where
  "typed t \<longleftrightarrow> (\<exists>s d a c. t = [StatusValue s, TextValue d, IntValue a, IntValue c])"

definition form_ok :: "form \<Rightarrow> bool" where
  "form_ok f \<longleftrightarrow> -1 \<le> fm_status f \<and> fm_status f < 5 \<and> 0 \<le> fm_adults f \<and> fm_adults f \<le> 10 \<and> 0 \<le> fm_children f \<and> fm_children f \<le> 10"

lemma typed_item [simp]: "typed (ItemToTuple r)"
  by (simp add: typed_def ItemToTuple_def)

lemma typed_length: "typed t \<Longrightarrow> length t = 4"
  by (auto simp: typed_def)

lemma typed_pick:
  assumes "typed b" and "typed o'" and "typed t" and "length m = 4" and "\<And>i. i < 4 \<Longrightarrow> m ! i \<in> {b ! i, o' ! i, t ! i}"
  shows "typed m"
proof -
  have m: "m = [m ! 0, m ! 1, m ! 2, m ! 3]" using assms(4) by (intro nth_equalityI) (auto simp: less_Suc_eq numeral_eq_Suc)
  have "m ! 0 \<in> {b ! 0, o' ! 0, t ! 0}" "m ! 1 \<in> {b ! 1, o' ! 1, t ! 1}" "m ! 2 \<in> {b ! 2, o' ! 2, t ! 2}" "m ! 3 \<in> {b ! 3, o' ! 3, t ! 3}"
    using assms(5) by auto
  then show ?thesis using assms(1-3) unfolding typed_def by (subst m) auto
qed

lemma typed_merge:
  assumes "typed b" and "typed o'" and "typed t"
  shows "typed (fst (merge b o' t))" and "typed (resolve answer b o' t)"
proof -
  have pick: "v \<in> {b ! i, o' ! i, t ! i}" if "merged_value (b ! i) (o' ! i) (t ! i) = Some v" for i v
    using that by (auto simp: merged_value_def split: if_splits)
  show "typed (fst (merge b o' t))"
  proof (rule typed_pick [OF assms])
    show "fst (merge b o' t) ! i \<in> {b ! i, o' ! i, t ! i}" if "i < 4" for i
      using that pick [of i] typed_length [OF assms(1)] by (auto simp: merge_fields split: option.split)
  qed (simp add: merge_fields typed_length [OF assms(1)])
  show "typed (resolve answer b o' t)"
  proof (rule typed_pick [OF assms])
    show "resolve answer b o' t ! i \<in> {b ! i, o' ! i, t ! i}" if "i < 4" for i
      using that pick [of i] typed_length [OF assms(1)] by (auto simp: resolve_fields chosen_def split: option.split choice.split)
  qed (use resolve_fields(2) [of 0 b] typed_length [OF assms(1)] in simp)
qed

lemma formValues_ok: "form_ok f \<Longrightarrow> \<exists>t. formValues f = Inr t \<and> typed t"
proof -
  assume f: "form_ok f"
  have "\<exists>s. number_status (fm_status f + 2) = Inr s" using f by (auto simp: number_status_def form_ok_def)
  then show ?thesis by (auto simp: formValues_def typed_def)
qed

lemma setFormValues_ok: "qt_ok Q \<Longrightarrow> typed t \<Longrightarrow> \<exists>f'. setFormValues Q t f = Inr f' \<and> form_ok f'"
  unfolding typed_def by (elim exE) (simp add: setFormValues_def qt_ok_def form_ok_def del: bindr_eq_Inr)

lemma SetItemFromTuple_ok:
  assumes "typed t"
  shows "\<exists>s. SetItemFromTuple t r = Inr s \<and> ItemToTuple s = t \<and> obj_id s = obj_id r \<and> obj_revision s = obj_revision r
    \<and> res_owner s = res_owner r \<and> res_atoms s = res_atoms r"
  using assms by (auto simp: typed_def SetItemFromTuple_def ItemToTuple_def)

section \<open>Runs of the dialog\<close>

text \<open>
  What the stream has shown: nothing yet, the reservation before and after the initialisation is complete, or that
  there is none.
\<close>

datatype 'p stream_view = NotYet | Loaded "'p reservation" | Shown "'p reservation" | Gone

text \<open>
  The events that can come: the stream adds its one reservation before it is initialised, updates it with
  greater revisions, removes it or is cleared; the user uses what is enabled, and nothing else while a message box
  is open; the task gives one result.  An update that arrives while a message box is open is excluded: the
  code takes it for the version that was merged.
\<close>

definition usable :: "'p dialog \<Rightarrow> bool" where
  "usable d \<longleftrightarrow> ed_enabled d \<and> ed_merging d = None"

inductive dialog_event_ok :: "'p dialog \<Rightarrow> 'p stream_view \<Rightarrow> 'p dialog_event \<Rightarrow> 'p stream_view \<Rightarrow> bool" where
  "dialog_event_ok d NotYet (ItemsAdded [r]) (Loaded r)"
| "dialog_event_ok d (Loaded r) StreamInitialized (Shown r)"
| "dialog_event_ok d NotYet StreamInitialized Gone"
| "obj_id s = obj_id r \<Longrightarrow> obj_revision r < obj_revision s \<Longrightarrow> ed_merging d = None \<Longrightarrow>
    dialog_event_ok d (Shown r) (ItemsUpdated [s]) (Shown s)"
| "dialog_event_ok d (Shown r) (ItemsRemoved [obj_id r]) Gone"
| "dialog_event_ok d (Shown r) AllItemsRemoved Gone"
| "dialog_event_ok d Gone AllItemsRemoved Gone"
| "usable d \<Longrightarrow> form_ok f \<Longrightarrow> dialog_event_ok d v (FormEdited f) v"
| "usable d \<Longrightarrow> ed_save d \<Longrightarrow> dialog_event_ok d v SaveClicked v"
| "usable d \<Longrightarrow> ed_merge d \<Longrightarrow> dialog_event_ok d v MergeClicked v"
| "ed_merging d \<noteq> None \<Longrightarrow> dialog_event_ok d v (ConflictsAnswered answer) v"
| "ed_saveTask d \<Longrightarrow> task_status x = Successful \<or> (\<exists>m. string_at (task_data x) ''message'' = Inr m) \<Longrightarrow>
    dialog_event_ok d v (SaveFinished (x # xs)) v"

inductive editing :: "qt \<Rightarrow> 'p dialog \<Rightarrow> 'p stream_view \<Rightarrow> bool" for Q where
  opened: "editing Q mk_dialog NotYet"
| event: "editing Q d v \<Longrightarrow> \<not> ed_closed d \<Longrightarrow> dialog_event_ok d v e v' \<Longrightarrow> dialog_step Q e d = Inr (d', ops) \<Longrightarrow> editing Q d' v'"

definition buttons_ok :: "'p dialog \<Rightarrow> bool" where
  "buttons_ok d \<longleftrightarrow> ed_enabled d = (ed_status d = Ready \<and> ed_reference d \<noteq> None)
     \<and> ed_save d = (ed_status d = Ready \<and> ed_newest d = None) \<and> ed_merge d = (ed_status d = Ready \<and> ed_newest d \<noteq> None)"

definition merging_ok :: "'p dialog \<Rightarrow> bool" where
  "merging_ok d \<longleftrightarrow> (case ed_merging d of None \<Rightarrow> True | Some (b, o', t) \<Rightarrow> typed b \<and> typed o' \<and> typed t \<and> ed_newest d \<noteq> None \<and> \<not> ed_saveTask d)"

definition dialog_ok :: "'p dialog \<Rightarrow> 'p stream_view \<Rightarrow> bool" where
  "dialog_ok d v \<longleftrightarrow> form_ok (ed_form d) \<and> buttons_ok d \<and> merging_ok d \<and>
     (case v of
        NotYet \<Rightarrow> ed_status d = NotInitialized \<and> ed_reference d = None \<and> ed_newest d = None \<and> ed_merging d = None \<and> \<not> ed_saveTask d
      | Loaded r \<Rightarrow> ed_status d = NotInitialized \<and> ed_reference d = Some r \<and> ed_newest d = None \<and> ed_merging d = None \<and> \<not> ed_saveTask d
      | Shown r \<Rightarrow> ed_status d = (if ed_saveTask d then Saving else Ready)
          \<and> (case ed_newest d of
                None \<Rightarrow> ed_reference d = Some r
              | Some n \<Rightarrow> n = r \<and> (\<exists>b. ed_reference d = Some b \<and> obj_id b = obj_id r \<and> obj_revision b < obj_revision r))
      | Gone \<Rightarrow> ed_status d \<in> {Ready, Removed} \<and> (ed_status d = Ready \<or> ed_saveTask d \<longrightarrow> ed_reference d = None \<and> ed_merging d = None))"

lemma buttons_updateUI [simp]: "buttons_ok (updateUI d)"
  by (simp add: buttons_ok_def updateUI_def)

lemma updateUI_fields [simp]:
  "ed_status (updateUI d) = ed_status d" "ed_reference (updateUI d) = ed_reference d" "ed_newest (updateUI d) = ed_newest d"
  "ed_form (updateUI d) = ed_form d" "ed_merging (updateUI d) = ed_merging d" "ed_saveTask (updateUI d) = ed_saveTask d"
  "ed_closed (updateUI d) = ed_closed d"
  by (simp_all add: updateUI_def)

lemma mk_dialog_ok: "dialog_ok mk_dialog NotYet"
  by (simp add: dialog_ok_def mk_dialog_def merging_ok_def) (simp add: form_ok_def mk_form_def)

text \<open>Ending a merge: the reference is what was the newest version.\<close>

lemma finish_merge_ok:
  assumes "qt_ok Q" and "typed t"
  shows "\<exists>f. finish_merge Q (Some t) d = Inr (updateUI (d\<lparr>ed_form := f, ed_reference := ed_newest d, ed_newest := None, ed_merging := None\<rparr>)) \<and> form_ok f"
  using setFormValues_ok [OF assms, of "ed_form d"] by (auto simp: finish_merge_def)

lemma merged_dialog_ok:
  assumes "dialog_ok d v" and "form_ok f" and "ed_newest d \<noteq> None" and "\<not> ed_saveTask d" and "v = Gone \<Longrightarrow> ed_status d = Removed"
  shows "dialog_ok (updateUI (d\<lparr>ed_form := f, ed_reference := ed_newest d, ed_newest := None, ed_merging := None\<rparr>)) v"
  using assms by (cases v) (auto simp: dialog_ok_def merging_ok_def)

lemma merge_step_ok:
  assumes Q: "qt_ok Q" and d: "dialog_ok d v" and u: "usable d" "ed_merge d"
  shows "\<exists>d'. mergeChangesClicked Q d = Inr d' \<and> dialog_ok d' v"
proof -
  have r: "ed_status d = Ready" "ed_reference d \<noteq> None" "ed_newest d \<noteq> None" "ed_merging d = None"
    using d u by (auto simp: usable_def dialog_ok_def buttons_ok_def)
  then have s: "\<not> ed_saveTask d" "v \<noteq> Gone" using d by (cases v; auto simp: dialog_ok_def)+
  obtain b n where bn: "ed_reference d = Some b" "ed_newest d = Some n" using r by auto
  obtain t where t: "formValues (ed_form d) = Inr t" "typed t" using formValues_ok d by (auto simp: dialog_ok_def)
  obtain m cs where m: "merge (ItemToTuple b) t (ItemToTuple n) = (m, cs)" by (cases "merge (ItemToTuple b) t (ItemToTuple n)")
  then have typed: "typed m" using typed_merge(1) [OF typed_item t(2) typed_item, of b n] by simp
  show ?thesis
  proof (cases "cs = []")
    case True
    obtain f where f: "finish_merge Q (Some m) d = Inr (updateUI (d\<lparr>ed_form := f, ed_reference := ed_newest d, ed_newest := None, ed_merging := None\<rparr>))" "form_ok f"
      using finish_merge_ok [OF Q typed] by blast
    show ?thesis using merged_dialog_ok [OF d f(2)] f(1) s r bn t m True by (simp add: mergeChangesClicked_def Let_def)
  next
    case False
    have "dialog_ok (d\<lparr>ed_merging := Some (ItemToTuple b, t, ItemToTuple n)\<rparr>) v"
      using d s bn t by (cases v) (auto simp: dialog_ok_def merging_ok_def buttons_ok_def)
    then show ?thesis using bn t m False by (simp add: mergeChangesClicked_def Let_def)
  qed
qed

lemma answer_step_ok:
  assumes Q: "qt_ok Q" and d: "dialog_ok d v" and merging: "ed_merging d \<noteq> None"
  shows "\<exists>d'. conflicts_answered Q answer d = Inr d' \<and> dialog_ok d' v"
proof -
  obtain b u t where m: "ed_merging d = Some (b, u, t)" using merging by (cases "ed_merging d") auto
  have typed: "typed b" "typed u" "typed t" "ed_newest d \<noteq> None" "\<not> ed_saveTask d" using d m by (auto simp: dialog_ok_def merging_ok_def)
  obtain f where f: "finish_merge Q (Some (resolve answer b u t)) d
      = Inr (updateUI (d\<lparr>ed_form := f, ed_reference := ed_newest d, ed_newest := None, ed_merging := None\<rparr>))" "form_ok f"
    using finish_merge_ok [OF Q typed_merge(2) [OF typed(1-3)]] by blast
  have "v = Gone \<Longrightarrow> ed_status d = Removed" using d m by (auto simp: dialog_ok_def)
  then show ?thesis using merged_dialog_ok [OF d f(2) typed(4,5)] f(1) m by (simp add: conflicts_answered_def)
qed

lemma save_step_ok:
  assumes d: "dialog_ok d v" and u: "usable d" "ed_save d"
  shows "\<exists>r s. v = Shown r \<and> saveClicked d = Inr (updateUI (d\<lparr>ed_status := Saving, ed_saveTask := True\<rparr>), [Update (ReservationItem s)])
    \<and> dialog_ok (updateUI (d\<lparr>ed_status := Saving, ed_saveTask := True\<rparr>)) v
    \<and> formValues (ed_form d) = Inr (ItemToTuple s) \<and> obj_id s = obj_id r \<and> obj_revision s = obj_revision r
    \<and> res_owner s = res_owner r \<and> res_atoms s = res_atoms r"
proof -
  have r: "ed_status d = Ready" "ed_reference d \<noteq> None" "ed_newest d = None" "ed_merging d = None"
    using d u by (auto simp: usable_def dialog_ok_def buttons_ok_def)
  then obtain b where b: "v = Shown b" "ed_reference d = Some b" using d by (cases v) (auto simp: dialog_ok_def)
  obtain t where t: "formValues (ed_form d) = Inr t" "typed t" using formValues_ok d by (auto simp: dialog_ok_def)
  obtain s where s: "SetItemFromTuple t b = Inr s" "ItemToTuple s = t" "obj_id s = obj_id b" "obj_revision s = obj_revision b"
      "res_owner s = res_owner b" "res_atoms s = res_atoms b"
    using SetItemFromTuple_ok [OF t(2), of b] by blast
  have "dialog_ok (updateUI (d\<lparr>ed_status := Saving, ed_saveTask := True\<rparr>)) v"
    using d r b by (simp add: dialog_ok_def merging_ok_def)
  then show ?thesis using r b t s by (simp add: saveClicked_def)
qed

lemma dialog_step_ok:
  assumes Q: "qt_ok Q" and d: "dialog_ok d v" and e: "dialog_event_ok d v e v'"
  shows "\<exists>d' ops. dialog_step Q e d = Inr (d', ops) \<and> (\<not> ed_closed d' \<longrightarrow> dialog_ok d' v')"
  using e
proof cases
  case (1 r)
  obtain f where "setFormValues Q (ItemToTuple r) (ed_form d) = Inr f" "form_ok f" using setFormValues_ok [OF Q typed_item] by blast
  then show ?thesis using d 1 by (simp add: dialog_added_def dialog_ok_def merging_ok_def buttons_ok_def)
next
  case (2 r)
  then show ?thesis using d by (simp add: dialog_initialized_def dialog_ok_def merging_ok_def)
next
  case 3
  then show ?thesis using d by (simp add: dialog_initialized_def dialog_ok_def merging_ok_def)
next
  case (4 s r)
  then show ?thesis using d by (auto simp: dialog_updated_def dialog_ok_def merging_ok_def split: option.splits)
next
  case (5 r)
  then show ?thesis using d by (auto simp: dialog_removed_def dialog_ok_def merging_ok_def split: option.splits)
next
  case (6 r)
  then show ?thesis using d by (auto simp: dialog_allRemoved_def dialog_ok_def merging_ok_def split: option.splits)
next
  case 7
  then show ?thesis using d by (auto simp: dialog_allRemoved_def dialog_ok_def merging_ok_def split: option.splits)
next
  case (8 f)
  then have "dialog_ok (d\<lparr>ed_form := f\<rparr>) v"
    using d by (cases v; cases "ed_newest d") (simp_all add: usable_def dialog_ok_def merging_ok_def buttons_ok_def)
  then show ?thesis using 8 by simp
next
  case 9
  then show ?thesis using save_step_ok [OF d] by auto
next
  case 10
  then show ?thesis using merge_step_ok [OF Q d] by auto
next
  case (11 answer)
  then show ?thesis using answer_step_ok [OF Q d] by auto
next
  case (12 x xs)
  show ?thesis
  proof (cases "task_status x = Successful")
    case True
    then show ?thesis using 12 by (simp add: saveTaskUpdated_def)
  next
    case False
    then show ?thesis using 12 d
      by (cases v) (auto simp: saveTaskUpdated_def dialog_ok_def merging_ok_def split: option.splits)
  qed
qed

lemma editing_ok:
  assumes "editing Q d v" and "qt_ok Q"
  shows "\<not> ed_closed d \<longrightarrow> dialog_ok d v"
  using assms(1)
proof (induction rule: editing.induct)
  case opened
  show ?case by (simp add: mk_dialog_ok)
next
  case (event d v e v' d' ops)
  then show ?case using dialog_step_ok [OF assms(2) _ event.hyps(3)] by fastforce
qed

section \<open>Properties\<close>

text \<open>C13 The three-way merge settles each field by itself: a field only one side changed gets that side's value, a field
  both set to the same gets that value, and exactly the fields both changed differently are in conflict; they
  get the version the user chooses, and the base version as long as none is chosen.\<close>

theorem merge_settles_fields:
  assumes "i < length base"
  shows "resolve answer base ours theirs ! i =
      (if ours ! i = theirs ! i then ours ! i
       else if theirs ! i = base ! i then ours ! i
       else if ours ! i = base ! i then theirs ! i
       else chosen (answer i) (base ! i) (ours ! i) (theirs ! i))
    \<and> (i \<in> set (snd (merge base ours theirs)) \<longleftrightarrow> ours ! i \<noteq> theirs ! i \<and> ours ! i \<noteq> base ! i \<and> theirs ! i \<noteq> base ! i)
    \<and> (i \<in> set (snd (merge base ours theirs)) \<longrightarrow> fst (merge base ours theirs) ! i = base ! i)"
  using assms by (auto simp: resolve_fields(1) [OF assms] merge_fields merged_value_def)

theorem merge_settles_fields_witness:
  "resolve (\<lambda>_. TheirVersion) [1, 2, 3, 4] [1, 5, 3, 6] [7, 2, 3, 8 :: int] ! 3 = 8"
  using merge_settles_fields [of 3 "[1, 2, 3, 4]" "\<lambda>_. TheirVersion" "[1, 5, 3, 6]" "[7, 2, 3, 8 :: int]"]
  by (simp add: chosen_def)

text \<open>Once the reservation is removed, another removal of it, which the server announces for every deletion it
  is asked for, or an update fails an assertion of the dialog.\<close>

lemma second_removal_fails:
  assumes "dialog_step Q (ItemsRemoved [i]) d = Inr (d', ops)"
  shows "dialog_step Q (ItemsRemoved [j]) d' = Inl AssertFailed" and "dialog_step Q (ItemsUpdated [r]) d' = Inl AssertFailed"
  using assms by (auto simp: dialog_removed_def dialog_updated_def assert_that_def split: option.splits if_splits)

text \<open>C12 Saving never overwrites a version the dialog has not shown, in the runs \<open>dialog_event_ok\<close> allows: after the removal of
  the reservation nothing more arrives for it but a clearing, and no update arrives while a message box of the merge is open.  In every such run of
  stream changes, edits, merges and results, no assertion of the dialog fails and no null version is followed; and when the user can
  save, exactly one update is sent: of the newest version the stream has delivered, with its id, revision, owner and
  rooms, and with the four fields of the form.  Outside these runs an assertion does fail (\<open>second_removal_fails\<close>).\<close>

theorem save_sends_newest:
  assumes "qt_ok Q" and "editing Q d v" and "\<not> ed_closed d"
  shows "(\<forall>e v'. dialog_event_ok d v e v' \<longrightarrow> returns (dialog_step Q e d))
    \<and> (usable d \<longrightarrow> ed_save d \<longrightarrow>
        (\<exists>r s d'. v = Shown r \<and> dialog_step Q SaveClicked d = Inr (d', [Update (ReservationItem s)])
          \<and> obj_id s = obj_id r \<and> obj_revision s = obj_revision r \<and> res_owner s = res_owner r \<and> res_atoms s = res_atoms r
          \<and> formValues (ed_form d) = Inr [StatusValue (res_status s), TextValue (res_description s), IntValue (res_adults s), IntValue (res_children s)]))"
proof -
  have d: "dialog_ok d v" using editing_ok [OF assms(2,1)] assms(3) by simp
  have "returns (dialog_step Q e d)" if "dialog_event_ok d v e v'" for e v'
    using dialog_step_ok [OF assms(1) d that] by (auto simp: returns_def)
  moreover have "\<exists>r s d'. v = Shown r \<and> dialog_step Q SaveClicked d = Inr (d', [Update (ReservationItem s)])
          \<and> obj_id s = obj_id r \<and> obj_revision s = obj_revision r \<and> res_owner s = res_owner r \<and> res_atoms s = res_atoms r
          \<and> formValues (ed_form d) = Inr [StatusValue (res_status s), TextValue (res_description s), IntValue (res_adults s), IntValue (res_children s)]"
    if u: "usable d" "ed_save d"
    using save_step_ok [OF d u] by (auto simp: ItemToTuple_def)
  ultimately show ?thesis by blast
qed

text \<open>The user changes the description, somebody else the number of adults; the merge keeps both.\<close>

definition edit_stay :: "string \<Rightarrow> int \<Rightarrow> int \<Rightarrow> (int \<times> int) reservation" where
  "edit_stay descr adults revision = (mk_reservation descr)\<lparr>obj_id := 4, obj_revision := revision, res_status := New, res_adults := adults\<rparr>"

definition edit_form :: "string \<Rightarrow> int \<Rightarrow> form" where
  "edit_form descr adults = \<lparr>fm_status = 0, fm_description = descr, fm_adults = adults, fm_children = 0\<rparr>"

definition edit_dialog :: "(int \<times> int) dialog" where
  "edit_dialog = updateUI
     \<lparr>ed_status = Ready, ed_reference = Some (edit_stay ''a'' 2 1), ed_newest = None, ed_form = edit_form ''b'' 2, ed_enabled = True,
      ed_save = True, ed_merge = True, ed_merging = None, ed_saveTask = False, ed_closed = False\<rparr>"

lemma edit_values: "formValues (edit_form descr adults) = Inr [StatusValue New, TextValue descr, IntValue adults, IntValue 0]"
  by (simp add: formValues_def number_status_def edit_form_def)

lemma edit_merge: "merge (ItemToTuple (edit_stay ''a'' 1 0)) [StatusValue New, TextValue ''b'', IntValue 1, IntValue 0] (ItemToTuple (edit_stay ''a'' 2 1))
    = ([StatusValue New, TextValue ''b'', IntValue 2, IntValue 0], [])"
  by (simp add: merge_fields ItemToTuple_def edit_stay_def mk_reservation_def merged_value_def)

lemma edit_run: "editing qt_plain edit_dialog (Shown (edit_stay ''a'' 2 1))"
proof -
  let ?r = "edit_stay ''a'' 1 0" and ?s = "edit_stay ''a'' 2 1"
  let ?d1 = "(mk_dialog :: (int \<times> int) dialog)\<lparr>ed_reference := Some ?r, ed_form := edit_form ''a'' 1\<rparr>"
  let ?d2 = "updateUI (?d1\<lparr>ed_status := Ready\<rparr>)"
  let ?d3 = "?d2\<lparr>ed_form := edit_form ''b'' 1\<rparr>"
  let ?d4 = "updateUI (?d3\<lparr>ed_newest := Some ?s\<rparr>)"
  have "editing qt_plain ?d1 (Loaded ?r)"
    by (rule editing.event [OF editing.opened _ dialog_event_ok.intros(1), where ops = "[]"])
       (simp_all add: mk_dialog_def updateUI_def dialog_added_def setFormValues_def ItemToTuple_def edit_stay_def mk_reservation_def
          status_number_def qt_plain_def edit_form_def)
  then have "editing qt_plain ?d2 (Shown ?r)"
    by (rule editing.event [OF _ _ dialog_event_ok.intros(2), where ops = "[]"])
       (simp_all add: mk_dialog_def updateUI_def dialog_initialized_def)
  then have "editing qt_plain ?d3 (Shown ?r)"
    by (rule editing.event [OF _ _ dialog_event_ok.intros(8), where ops = "[]"])
       (simp_all add: mk_dialog_def updateUI_def usable_def form_ok_def edit_form_def)
  then have "editing qt_plain ?d4 (Shown ?s)"
    by (rule editing.event [OF _ _ dialog_event_ok.intros(4), where ops = "[]"])
       (simp_all add: mk_dialog_def updateUI_def dialog_updated_def edit_stay_def mk_reservation_def)
  moreover have "dialog_step qt_plain MergeClicked ?d4 = Inr (edit_dialog, [])"
    by (simp add: edit_merge mk_dialog_def updateUI_def mergeChangesClicked_def edit_values edit_form_def [symmetric] finish_merge_def)
       (simp add: edit_dialog_def updateUI_def setFormValues_def edit_form_def status_number_def qt_plain_def)
  ultimately show ?thesis
    by (elim editing.event [OF _ _ dialog_event_ok.intros(10), where ops = "[]"])
       (simp_all add: mk_dialog_def updateUI_def usable_def edit_stay_def)
qed

theorem save_sends_newest_witness:
  "\<exists>d' s. dialog_step qt_plain SaveClicked edit_dialog = Inr (d', [Update (ReservationItem s)])
    \<and> obj_revision s = 1 \<and> res_description s = ''b'' \<and> res_adults s = 2"
  using save_sends_newest [OF qt_plain_ok edit_run]
  by (auto simp: edit_dialog_def updateUI_def usable_def formValues_def edit_form_def edit_stay_def)

end
