(* ===== verification/FasStream.thy ===== *)
theory FasStream
  imports Prelude
begin

text \<open>
  \<open>fas::Stream\<close> and \<open>fas::StreamProducer\<close>: values pass from a producer through a chain of continuations, each a job
  on some executor, to the holder of the stream.  The states of the chain are the list of stages, a stage's continuation
  leads to the next stage, and the last has none.  Executors and threads interleave freely: a thread is
  the list of what it still has to do, and what a mutex makes atomic is one step.  Values of the chain have one
  type here; the code's may differ from stage to stage.
\<close>

section \<open>Stages\<close>

text \<open>
  \<open>None\<close> in the queue is the end of the stream.  A continuation is its function and whether the object is alive.
\<close>

record 'a stage =
  st_isFinished :: bool
  st_processingPoppedValue :: bool
  st_queue :: "'a option list"
  st_cont :: bool
  st_fn :: "'a \<Rightarrow> 'a"

definition mk_stage :: "'a stage" where
  "mk_stage = \<lparr>st_isFinished = False, st_processingPoppedValue = False, st_queue = [], st_cont = False, st_fn = id\<rparr>"

definition stage_isFinished :: "'a stage \<Rightarrow> bool" where
  "stage_isFinished s \<longleftrightarrow> st_isFinished s \<and> (st_queue s = [] \<or> hd (st_queue s) = None)"

definition stage_isReady :: "'a stage \<Rightarrow> bool" where
  "stage_isReady s \<longleftrightarrow> st_isFinished s \<or> st_queue s \<noteq> []"

definition popValue :: "'a stage \<Rightarrow> ('a option option \<times> 'a stage) res" where
  "popValue s =
     assert_that (\<not> st_processingPoppedValue s)
       (case st_queue s of
          [] \<Rightarrow> Inr (None, s)
        | v # q \<Rightarrow> Inr (Some v, s\<lparr>st_queue := q, st_processingPoppedValue := True\<rparr>))"

text \<open>The flag says whether the caller has to execute the continuation.\<close>

definition finishedProcessingPoppedValue :: "'a stage \<Rightarrow> bool \<times> 'a stage" where
  "finishedProcessingPoppedValue s = (st_queue s \<noteq> [] \<and> st_cont s, s\<lparr>st_processingPoppedValue := False\<rparr>)"

definition pushValue :: "'a \<Rightarrow> 'a stage \<Rightarrow> (bool \<times> 'a stage) res" where
  "pushValue v s =
     assert_that (\<not> st_isFinished s)
       (Inr (st_queue s = [] \<and> \<not> st_processingPoppedValue s \<and> st_cont s, s\<lparr>st_queue := st_queue s @ [Some v]\<rparr>))"

definition close_stage :: "'a stage \<Rightarrow> (bool \<times> 'a stage) res" where
  "close_stage s =
     assert_that (\<not> st_isFinished s)
       (Inr (st_queue s = [] \<and> \<not> st_processingPoppedValue s \<and> st_cont s,
             s\<lparr>st_isFinished := True, st_queue := st_queue s @ [None]\<rparr>))"

definition chain_stage :: "('a \<Rightarrow> 'a) \<Rightarrow> 'a stage \<Rightarrow> (bool \<times> 'a stage) res" where
  "chain_stage f s =
     assert_that (\<not> st_cont s) (assert_that (\<not> st_processingPoppedValue s)
       (Inr (st_queue s \<noteq> [], s\<lparr>st_cont := True, st_fn := f\<rparr>)))"

section \<open>Threads\<close>

text \<open>
  What a thread may be about to do with the continuation of a stage: call it, run its job for a value, finish
  with the popped value, or drop the continuation.
\<close>

datatype 'a todo = Continue nat | RunJob nat 'a | Finish nat | ResetContinuation nat

record 'a stream_world =
  sw_stages :: "'a stage list"
  sw_canceled :: bool
  sw_producer :: bool
  sw_stream :: bool
  sw_threads :: "'a todo list list"

definition set_stage :: "nat \<Rightarrow> 'a stage \<Rightarrow> 'a stream_world \<Rightarrow> 'a stream_world" where
  "set_stage i s w = w\<lparr>sw_stages := (sw_stages w)[i := s]\<rparr>"

text \<open>What the thread does next, what a new thread does, and the world; a dead continuation must not be called.\<close>

definition stage_continueWith :: "nat \<Rightarrow> 'a stream_world \<Rightarrow> ('a todo list \<times> 'a todo list \<times> 'a stream_world) res" where
  "stage_continueWith i w =
     (if \<not> st_cont (sw_stages w ! i) then Inl UndefinedBehaviour
      else bindr (popValue (sw_stages w ! i)) (\<lambda>(val, s).
        case val of
          None \<Rightarrow> Inl AssertFailed
        | Some None \<Rightarrow>
            bindr (close_stage (sw_stages w ! Suc i)) (\<lambda>(run, t).
              Inr ((if run then [Continue (Suc i)] else []) @ [ResetContinuation i], [], set_stage (Suc i) t (set_stage i s w)))
        | Some (Some v) \<Rightarrow> Inr ([], [RunJob i v], set_stage i s w)))"

fun run_todo :: "'a todo \<Rightarrow> 'a stream_world \<Rightarrow> ('a todo list \<times> 'a todo list \<times> 'a stream_world) res" where
  "run_todo (Continue i) w = stage_continueWith i w"
| "run_todo (RunJob i v) w =
     (if \<not> st_cont (sw_stages w ! i) then Inl UndefinedBehaviour
      else if sw_canceled w then Inr ([], [], w)
      else bindr (pushValue (st_fn (sw_stages w ! i) v) (sw_stages w ! Suc i)) (\<lambda>(run, t).
        Inr ((if run then [Continue (Suc i)] else []) @ [Finish i], [], set_stage (Suc i) t w)))"
| "run_todo (Finish i) w =
     (let (run, s) = finishedProcessingPoppedValue (sw_stages w ! i)
      in Inr (if run then [Continue i] else [], [], set_stage i s w))"
| "run_todo (ResetContinuation i) w = Inr ([], [], set_stage i ((sw_stages w ! i)\<lparr>st_cont := False\<rparr>) w)"

definition start_thread :: "'a todo list \<Rightarrow> 'a stream_world \<Rightarrow> 'a stream_world" where
  "start_thread ts w = (if ts = [] then w else w\<lparr>sw_threads := sw_threads w @ [ts]\<rparr>)"

text \<open>The next step of thread \<open>k\<close>.\<close>

definition stream_step :: "nat \<Rightarrow> 'a stream_world \<Rightarrow> 'a stream_world res" where
  "stream_step k w =
     (case sw_threads w ! k of
        [] \<Rightarrow> Inr w
      | m # ms \<Rightarrow>
          bindr (run_todo m w) (\<lambda>(next, spawned, w').
            Inr (start_thread spawned (w'\<lparr>sw_threads := (sw_threads w)[k := next @ ms]\<rparr>))))"

section \<open>The stream and its producer\<close>

definition makeStreamProducer :: "'a stream_world" where
  "makeStreamProducer =
     \<lparr>sw_stages = [mk_stage], sw_canceled = False, sw_producer = True, sw_stream = True, sw_threads = []\<rparr>"

definition producer_send :: "'a \<Rightarrow> 'a stream_world \<Rightarrow> 'a stream_world res" where
  "producer_send v w =
     (if \<not> sw_producer w then Inl UndefinedBehaviour
      else bindr (pushValue v (sw_stages w ! 0)) (\<lambda>(run, s).
        Inr (start_thread (if run then [Continue 0] else []) (set_stage 0 s w))))"

definition producer_reset :: "'a stream_world \<Rightarrow> 'a stream_world res" where
  "producer_reset w =
     (if \<not> sw_producer w then Inl UndefinedBehaviour
      else bindr (close_stage (sw_stages w ! 0)) (\<lambda>(run, s).
        Inr (start_thread (if run then [Continue 0] else []) ((set_stage 0 s w)\<lparr>sw_producer := False\<rparr>))))"

abbreviation last_index :: "'a stream_world \<Rightarrow> nat" where
  "last_index w \<equiv> length (sw_stages w) - 1"

text \<open>A call that would wait has no result yet.\<close>

definition stream_get :: "'a stream_world \<Rightarrow> ('a option \<times> 'a stream_world) option res" where
  "stream_get w =
     assert_that (sw_stream w)
       (if \<not> stage_isReady (sw_stages w ! last_index w) then Inr None
        else bindr (popValue (sw_stages w ! last_index w)) (\<lambda>(value, s).
          let (_, s') = finishedProcessingPoppedValue s
          in Inr (Some (case value of None \<Rightarrow> None | Some v \<Rightarrow> v, set_stage (last_index w) s' w))))"

definition stream_then :: "('a \<Rightarrow> 'a) \<Rightarrow> 'a stream_world \<Rightarrow> 'a stream_world res" where
  "stream_then f w =
     assert_that (sw_stream w)
       (bindr (chain_stage f (sw_stages w ! last_index w)) (\<lambda>(run, s).
          let w' = set_stage (last_index w) s w
          in Inr (start_thread (if run then [Continue (last_index w)] else []) (w'\<lparr>sw_stages := sw_stages w' @ [mk_stage]\<rparr>))))"

definition stream_reset :: "'a stream_world \<Rightarrow> 'a stream_world" where
  "stream_reset w = w\<lparr>sw_stream := False, sw_canceled := True\<rparr>"

text \<open>Any order of what producer, holder and threads do.\<close>

inductive stream_reachable :: "'a stream_world \<Rightarrow> bool" where
  make: "stream_reachable makeStreamProducer"
| thread: "stream_reachable w \<Longrightarrow> k < length (sw_threads w) \<Longrightarrow> stream_step k w = Inr w' \<Longrightarrow> stream_reachable w'"
| send: "stream_reachable w \<Longrightarrow> sw_producer w \<Longrightarrow> producer_send v w = Inr w' \<Longrightarrow> stream_reachable w'"
| close: "stream_reachable w \<Longrightarrow> sw_producer w \<Longrightarrow> producer_reset w = Inr w' \<Longrightarrow> stream_reachable w'"
| get: "stream_reachable w \<Longrightarrow> sw_stream w \<Longrightarrow> stream_get w = Inr (Some (v, w')) \<Longrightarrow> stream_reachable w'"
| chain: "stream_reachable w \<Longrightarrow> sw_stream w \<Longrightarrow> stream_then f w = Inr w' \<Longrightarrow> stream_reachable w'"
| cancel: "stream_reachable w \<Longrightarrow> stream_reachable (stream_reset w)"

section \<open>What the chain keeps\<close>

fun target :: "'a todo \<Rightarrow> nat" where
  "target (Continue i) = i"
| "target (RunJob i v) = i"
| "target (Finish i) = i"
| "target (ResetContinuation i) = i"

definition todos :: "nat \<Rightarrow> 'a todo list list \<Rightarrow> 'a todo list" where
  "todos i ths = filter (\<lambda>m. target m = i) (concat ths)"

text \<open>
  \<open>ended\<close> says that the next stage is finished.  At most one thing is to be done with a continuation.  Without any, the stage waits for a value, or its
  continuation has handed on the end of the stream, or a job saw the cancellation and left it.
\<close>

definition stage_ok :: "bool \<Rightarrow> 'a stage \<Rightarrow> bool \<Rightarrow> 'a todo list \<Rightarrow> bool" where
  "stage_ok canceled s ended ms \<longleftrightarrow>
     (case ms of
        [] \<Rightarrow> (st_cont s \<and> \<not> st_processingPoppedValue s \<and> st_queue s = []) \<or> (\<not> st_cont s \<and> ended)
            \<or> (st_cont s \<and> st_processingPoppedValue s \<and> canceled)
      | [Continue _] \<Rightarrow> st_cont s \<and> \<not> st_processingPoppedValue s \<and> st_queue s \<noteq> []
      | [RunJob _ _] \<Rightarrow> st_cont s \<and> st_processingPoppedValue s \<and> \<not> ended
      | [Finish _] \<Rightarrow> st_cont s \<and> st_processingPoppedValue s
      | [ResetContinuation _] \<Rightarrow> st_cont s \<and> ended
      | _ \<Rightarrow> False)
     \<and> (ended \<longrightarrow> st_isFinished s \<and> st_queue s = [])"

definition queue_ok :: "'a stage \<Rightarrow> bool" where
  "queue_ok s \<longleftrightarrow> (\<forall>k < length (st_queue s). st_queue s ! k = None \<longrightarrow> Suc k = length (st_queue s) \<and> st_isFinished s)"

definition stream_ok :: "'a stream_world \<Rightarrow> bool" where
  "stream_ok w \<longleftrightarrow>
     sw_stages w \<noteq> []
     \<and> (\<forall>i < length (sw_stages w). queue_ok (sw_stages w ! i))
     \<and> (\<forall>i. Suc i < length (sw_stages w) \<longrightarrow> stage_ok (sw_canceled w) (sw_stages w ! i) (st_isFinished (sw_stages w ! Suc i)) (todos i (sw_threads w)))
     \<and> st_fn (last (sw_stages w)) = id \<and> \<not> st_cont (last (sw_stages w)) \<and> \<not> st_processingPoppedValue (last (sw_stages w))
     \<and> (\<forall>i. length (sw_stages w) \<le> Suc i \<longrightarrow> todos i (sw_threads w) = [])
     \<and> (sw_producer w \<longleftrightarrow> \<not> st_isFinished (sw_stages w ! 0))"

lemma queue_ok_end: "queue_ok s \<Longrightarrow> st_queue s = None # q \<Longrightarrow> q = [] \<and> st_isFinished s"
  by (auto simp: queue_ok_def)

lemma queue_ok_tl: "queue_ok s \<Longrightarrow> st_queue s = v # q \<Longrightarrow> queue_ok (s\<lparr>st_queue := q, st_processingPoppedValue := b\<rparr>)"
  by (fastforce simp: queue_ok_def)

lemma queue_ok_push: "queue_ok s \<Longrightarrow> \<not> st_isFinished s \<Longrightarrow> queue_ok (s\<lparr>st_queue := st_queue s @ [Some v]\<rparr>)"
  by (auto simp: queue_ok_def nth_append less_Suc_eq)

lemma queue_ok_close: "queue_ok s \<Longrightarrow> \<not> st_isFinished s \<Longrightarrow> queue_ok (s\<lparr>st_isFinished := True, st_queue := st_queue s @ [None]\<rparr>)"
  by (auto simp: queue_ok_def nth_append less_Suc_eq)

text \<open>A step of a thread replaces its first todo.\<close>

lemma todos_step:
  assumes "k < length ths" and "ths ! k = m # ms"
  shows "\<exists>A B. \<forall>i next sp. todos i ths = A i @ filter (\<lambda>m. target m = i) [m] @ B i
    \<and> todos i (ths[k := next @ ms] @ sp) = A i @ filter (\<lambda>m. target m = i) next @ B i @ todos i sp"
proof -
  have ths: "ths = take k ths @ (m # ms) # drop (Suc k) ths" using assms id_take_nth_drop [of k ths] by simp
  have upd: "ths[k := x] = take k ths @ x # drop (Suc k) ths" for x using assms(1) by (rule upd_conv_take_nth_drop)
  show ?thesis
  proof (intro exI allI conjI)
    fix i "next" sp
    show "todos i ths = todos i (take k ths) @ filter (\<lambda>m. target m = i) [m] @ (filter (\<lambda>m. target m = i) ms @ todos i (drop (Suc k) ths))"
      by (subst ths) (simp add: todos_def)
    show "todos i (ths[k := next @ ms] @ sp) = todos i (take k ths) @ filter (\<lambda>m. target m = i) next
        @ (filter (\<lambda>m. target m = i) ms @ todos i (drop (Suc k) ths)) @ todos i sp"
      by (simp add: upd todos_def)
  qed
qed

lemma todos_one:
  assumes "k < length ths" and "ths ! k = m # ms" and "length (todos (target m) ths) \<le> 1"
  shows "todos (target m) ths = [m]"
    and "todos (target m) (ths[k := next @ ms] @ sp) = filter (\<lambda>x. target x = target m) next @ todos (target m) sp"
proof -
  obtain A B where AB: "\<And>i next sp. todos i ths = A i @ filter (\<lambda>m. target m = i) [m] @ B i"
      "\<And>i next sp. todos i (ths[k := next @ ms] @ sp) = A i @ filter (\<lambda>m. target m = i) next @ B i @ todos i sp"
    using todos_step [OF assms(1,2)] by metis
  have "A (target m) = []" "B (target m) = []" using assms(3) by (simp_all add: AB(1))
  then show "todos (target m) ths = [m]"
      "todos (target m) (ths[k := next @ ms] @ sp) = filter (\<lambda>x. target x = target m) next @ todos (target m) sp"
    by (simp_all add: AB)
qed

lemma todos_other:
  assumes "k < length ths" and "ths ! k = m # ms" and "i \<noteq> target m"
  shows "filter (\<lambda>x. target x = i) next = [] \<Longrightarrow> todos i sp = [] \<Longrightarrow> todos i (ths[k := next @ ms] @ sp) = todos i ths"
    and "todos i ths = [] \<Longrightarrow> todos i (ths[k := next @ ms] @ sp) = filter (\<lambda>x. target x = i) next @ todos i sp"
proof -
  obtain A B where AB: "\<And>i next sp. todos i ths = A i @ filter (\<lambda>m. target m = i) [m] @ B i"
      "\<And>i next sp. todos i (ths[k := next @ ms] @ sp) = A i @ filter (\<lambda>m. target m = i) next @ B i @ todos i sp"
    using todos_step [OF assms(1,2)] by metis
  show "filter (\<lambda>x. target x = i) next = [] \<Longrightarrow> todos i sp = [] \<Longrightarrow> todos i (ths[k := next @ ms] @ sp) = todos i ths"
      "todos i ths = [] \<Longrightarrow> todos i (ths[k := next @ ms] @ sp) = filter (\<lambda>x. target x = i) next @ todos i sp"
    using assms(3) by (auto simp: AB)
qed

section \<open>One step of a thread\<close>

lemma stage_ok_push:
  assumes "stage_ok c t ended ms" and "\<not> st_isFinished t" and "run = (st_queue t = [] \<and> \<not> st_processingPoppedValue t \<and> st_cont t)"
  shows "stage_ok c (t\<lparr>st_queue := st_queue t @ [x]\<rparr>) ended (if run then [Continue j] else ms)"
    and "stage_ok c (t\<lparr>st_isFinished := b, st_queue := st_queue t @ [x]\<rparr>) ended (if run then [Continue j] else ms)"
    and "run \<Longrightarrow> ms = []"
  using assms by (auto simp: stage_ok_def split: list.splits todo.splits)

definition job_values :: "'a todo list \<Rightarrow> 'a option list" where
  "job_values ms = concat (map (\<lambda>m. case m of RunJob i v \<Rightarrow> [Some v] | _ \<Rightarrow> []) ms)"

lemma job_values_simps [simp]: "job_values [] = []" "job_values (RunJob i v # ms) = Some v # job_values ms"
  "job_values (Continue i # ms) = job_values ms" "job_values (Finish i # ms) = job_values ms"
  "job_values (ResetContinuation i # ms) = job_values ms"
  by (simp_all add: job_values_def)

text \<open>The value at the front of a stage, in its job or its queue, goes to the end of the next one, or nothing moves.\<close>

definition moved :: "'a option list \<Rightarrow> 'a option list \<Rightarrow> ('a \<Rightarrow> 'a) \<Rightarrow> 'a option list \<Rightarrow> 'a option list \<Rightarrow> bool" where
  "moved xs xs' f ys ys' \<longleftrightarrow> (xs' = xs \<and> ys' = ys) \<or> (\<exists>x. xs = x # xs' \<and> ys' = ys @ [map_option f x])"

text \<open>
  A bound on the steps that are still to be made for a stage with \<open>d\<close> stages after it: six for each value and stage it has
  to pass.
\<close>

fun todo_work :: "nat \<Rightarrow> 'a todo \<Rightarrow> nat" where
  "todo_work d (Continue i) = 1"
| "todo_work d (RunJob i v) = 6 * d - 2"
| "todo_work d (Finish i) = 2"
| "todo_work d (ResetContinuation i) = 1"

definition stage_work :: "nat \<Rightarrow> 'a todo list \<Rightarrow> 'a option list \<Rightarrow> nat" where
  "stage_work d ms q = sum_list (map (todo_work d) ms) + 6 * d * length q"

lemma stage_work_simps [simp]:
  "stage_work d (m # ms) q = todo_work d m + stage_work d ms q"
  "stage_work d [] (x # q) = 6 * d + stage_work d [] q"
  "stage_work d [] (q @ [x]) = 6 * d + stage_work d [] q"
  "stage_work d [] [] = 0"
  by (simp_all add: stage_work_def)

definition step_ok :: "bool \<Rightarrow> nat \<Rightarrow> 'a todo \<Rightarrow> 'a stage \<Rightarrow> 'a stage \<Rightarrow> bool \<Rightarrow> 'a todo list \<Rightarrow> 'a todo list \<Rightarrow> 'a stage \<Rightarrow> 'a stage \<Rightarrow> bool" where
  "step_ok c i m s t run next spawned s' t' \<longleftrightarrow>
     (\<forall>x \<in> set (next @ spawned). target x = i) \<and> queue_ok s' \<and> queue_ok t' \<and> st_isFinished s' = st_isFinished s
     \<and> st_fn s' = st_fn s \<and> st_fn t' = st_fn t
     \<and> stage_ok c s' (st_isFinished t') (next @ spawned)
     \<and> (\<forall>ended ms. stage_ok c t ended ms \<longrightarrow> stage_ok c t' ended (if run then [Continue (Suc i)] else ms) \<and> (run \<longrightarrow> ms = []))
     \<and> (\<not> st_cont t \<and> \<not> st_processingPoppedValue t \<longrightarrow> \<not> run \<and> \<not> st_cont t' \<and> \<not> st_processingPoppedValue t')
     \<and> (c \<or> moved (job_values [m] @ st_queue s) (job_values (next @ spawned) @ st_queue s') (st_fn s) (st_queue t) (st_queue t'))
     \<and> (\<forall>d. stage_work (Suc d) (next @ spawned) (st_queue s') + stage_work d (if run then [Continue (Suc i)] else []) (st_queue t')
          < stage_work (Suc d) [m] (st_queue s) + stage_work d [] (st_queue t))"

lemma set_stage_same [simp]: "set_stage i (sw_stages w ! i) w = w"
  by (simp add: set_stage_def)

lemma run_todo_ok:
  assumes s: "s = sw_stages w ! i" and t: "t = sw_stages w ! Suc i" and i: "target m = i" "Suc i < length (sw_stages w)"
    and q: "queue_ok s" "queue_ok t" and ok: "stage_ok (sw_canceled w) s (st_isFinished t) [m]"
  shows "\<exists>run next spawned s' t'. run_todo m w
      = Inr ((if run then [Continue (Suc i)] else []) @ next, spawned, set_stage (Suc i) t' (set_stage i s' w))
    \<and> step_ok (sw_canceled w) i m s t run next spawned s' t'"
proof (cases m)
  case (Continue j)
  then have j: "j = i" using i(1) by simp
  have st: "st_cont s" "\<not> st_processingPoppedValue s" "st_queue s \<noteq> []" "\<not> st_isFinished t" using ok Continue by (auto simp: stage_ok_def)
  obtain x rest where x: "st_queue s = x # rest" using st(3) by (cases "st_queue s") auto
  let ?s = "s\<lparr>st_queue := rest, st_processingPoppedValue := True\<rparr>"
  have qs: "queue_ok ?s" by (rule queue_ok_tl [OF q(1) x])
  show ?thesis
  proof (cases x)
    case None
    then have e: "rest = []" "st_isFinished s" using queue_ok_end [OF q(1)] x by auto
    let ?run = "st_queue t = [] \<and> \<not> st_processingPoppedValue t \<and> st_cont t"
    let ?t = "t\<lparr>st_isFinished := True, st_queue := st_queue t @ [None]\<rparr>"
    have "run_todo m w = Inr ((if ?run then [Continue (Suc i)] else []) @ [ResetContinuation i], [], set_stage (Suc i) ?t (set_stage i ?s w))"
      using st x None Continue j s t by (simp add: stage_continueWith_def popValue_def close_stage_def)
    moreover have "step_ok (sw_canceled w) i m s t ?run [ResetContinuation i] [] ?s ?t"
      using st e x None Continue qs queue_ok_close [OF q(2) st(4)] stage_ok_push(2,3) [OF _ st(4) refl]
      by (simp add: step_ok_def stage_ok_def [of _ "_\<lparr>st_processingPoppedValue := _\<rparr>"] moved_def)
    ultimately show ?thesis by blast
  next
    case (Some v)
    have "run_todo m w = Inr ((if False then [Continue (Suc i)] else []) @ [], [RunJob i v], set_stage (Suc i) t (set_stage i ?s w))"
      using st x Some Continue j s t i(2) by (simp add: stage_continueWith_def popValue_def) (simp add: set_stage_def list_update_swap)
    moreover have "step_ok (sw_canceled w) i m s t False [] [RunJob i v] ?s t"
      using st x Some Continue qs q(2) by (simp add: step_ok_def stage_ok_def [of _ "_\<lparr>st_processingPoppedValue := _\<rparr>"] moved_def)
    ultimately show ?thesis by blast
  qed
next
  case (RunJob j v)
  then have j: "j = i" using i(1) by simp
  have st: "st_cont s" "st_processingPoppedValue s" "\<not> st_isFinished t" using ok RunJob by (auto simp: stage_ok_def)
  show ?thesis
  proof (cases "sw_canceled w")
    case True
    have "run_todo m w = Inr ((if False then [Continue (Suc i)] else []) @ [], [], set_stage (Suc i) t (set_stage i s w))"
      using st True RunJob j s t by simp
    moreover have "step_ok (sw_canceled w) i m s t False [] [] s t"
      using st True RunJob q by (simp add: step_ok_def stage_ok_def [of _ s])
    ultimately show ?thesis by blast
  next
    case False
    let ?run = "st_queue t = [] \<and> \<not> st_processingPoppedValue t \<and> st_cont t"
    let ?t = "t\<lparr>st_queue := st_queue t @ [Some (st_fn s v)]\<rparr>"
    have "run_todo m w = Inr ((if ?run then [Continue (Suc i)] else []) @ [Finish i], [], set_stage (Suc i) ?t (set_stage i s w))"
      using st False RunJob j s t by (simp add: pushValue_def)
    moreover have "step_ok (sw_canceled w) i m s t ?run [Finish i] [] s ?t"
      using st RunJob q(1) queue_ok_push [OF q(2) st(3)] stage_ok_push(1,3) [OF _ st(3) refl]
      by (simp add: step_ok_def stage_ok_def [of _ s] moved_def)
    ultimately show ?thesis by blast
  qed
next
  case (Finish j)
  then have j: "j = i" using i(1) by simp
  have st: "st_cont s" "st_processingPoppedValue s" "st_isFinished t \<longrightarrow> st_isFinished s \<and> st_queue s = []" using ok Finish by (auto simp: stage_ok_def)
  let ?s = "s\<lparr>st_processingPoppedValue := False\<rparr>" and ?next = "if st_queue s \<noteq> [] then [Continue i] else []"
  have "run_todo m w = Inr ((if False then [Continue (Suc i)] else []) @ ?next, [], set_stage (Suc i) t (set_stage i ?s w))"
    using st Finish j s t by (simp add: finishedProcessingPoppedValue_def) (simp add: set_stage_def list_update_swap)
  moreover have "step_ok (sw_canceled w) i m s t False ?next [] ?s t"
    using st Finish q by (simp add: step_ok_def stage_ok_def [of _ "_\<lparr>st_processingPoppedValue := _\<rparr>"] moved_def) (simp add: queue_ok_def)
  ultimately show ?thesis by blast
next
  case (ResetContinuation j)
  then have j: "j = i" using i(1) by simp
  have st: "st_isFinished t" "st_isFinished s" "st_queue s = []" using ok ResetContinuation by (auto simp: stage_ok_def)
  let ?s = "s\<lparr>st_cont := False\<rparr>"
  have "run_todo m w = Inr ((if False then [Continue (Suc i)] else []) @ [], [], set_stage (Suc i) t (set_stage i ?s w))"
    using ResetContinuation j s t by (simp add: set_stage_def list_update_swap)
  moreover have "step_ok (sw_canceled w) i m s t False [] [] ?s t"
    using st ResetContinuation q by (simp add: step_ok_def stage_ok_def [of _ "_\<lparr>st_cont := _\<rparr>"] moved_def) (simp add: queue_ok_def)
  ultimately show ?thesis by blast
qed

lemma last_nth: "Suc i = length xs \<Longrightarrow> last xs = xs ! i"
  by (metis diff_Suc_1 last_conv_nth length_0_conv nat.simps(3))

lemma stream_ok_update:
  assumes w: "stream_ok w" and i: "Suc i < length (sw_stages w)"
    and s: "queue_ok s'" "st_isFinished s' = st_isFinished (sw_stages w ! i)" and t: "queue_ok t'"
    and this_ok: "stage_ok (sw_canceled w) s' (st_isFinished t') (todos i ths')"
    and next_ok: "Suc (Suc i) < length (sw_stages w) \<Longrightarrow>
      stage_ok (sw_canceled w) t' (st_isFinished (sw_stages w ! Suc (Suc i))) (todos (Suc i) ths')"
    and last_ok: "Suc (Suc i) = length (sw_stages w) \<Longrightarrow> st_fn t' = id \<and> \<not> st_cont t' \<and> \<not> st_processingPoppedValue t' \<and> todos (Suc i) ths' = []"
    and others: "\<And>j. j \<noteq> i \<Longrightarrow> j \<noteq> Suc i \<Longrightarrow> todos j ths' = todos j (sw_threads w)"
  shows "stream_ok ((set_stage (Suc i) t' (set_stage i s' w))\<lparr>sw_threads := ths'\<rparr>)"
proof -
  let ?ss = "sw_stages w" and ?ss' = "(sw_stages w)[i := s', Suc i := t']"
  have nth: "?ss' ! j = (if j = Suc i then t' else if j = i then s' else ?ss ! j)" if "j < length ?ss" for j
    using that i by (simp add: nth_list_update)
  have "stage_ok (sw_canceled w) (?ss' ! j) (st_isFinished (?ss' ! Suc j)) (todos j ths')" if j: "Suc j < length ?ss" for j
  proof -
    consider "j = i" | "j = Suc i" | "Suc j = i" | "j \<noteq> i" "j \<noteq> Suc i" "Suc j \<noteq> i" by blast
    then show ?thesis
    proof cases
      case 1
      then show ?thesis using this_ok i nth by simp
    next
      case 2
      then show ?thesis using next_ok j i nth by simp
    next
      case 3
      then have "stage_ok (sw_canceled w) (?ss ! j) (st_isFinished (?ss ! Suc j)) (todos j (sw_threads w))" using w j unfolding stream_ok_def by blast
      then show ?thesis using 3 others [of j] s(2) nth [of j] nth [of "Suc j"] i by auto
    next
      case 4
      then have "stage_ok (sw_canceled w) (?ss ! j) (st_isFinished (?ss ! Suc j)) (todos j (sw_threads w))" using w j unfolding stream_ok_def by blast
      then show ?thesis using 4 others [of j] nth [of j] nth [of "Suc j"] j by auto
    qed
  qed
  moreover have "queue_ok (?ss' ! j)" if "j < length ?ss" for j
    unfolding nth [OF that] using w s(1) t that by (simp add: stream_ok_def)
  moreover have "st_fn (last ?ss') = id \<and> \<not> st_cont (last ?ss') \<and> \<not> st_processingPoppedValue (last ?ss')"
  proof (cases "Suc (Suc i) = length ?ss")
    case True
    then have "length ?ss - 1 = Suc i" by simp
    then have "last ?ss' = t'" using nth [of "Suc i"] i by (subst last_conv_nth) auto
    then show ?thesis using last_ok [OF True] by simp
  next
    case False
    then have "last ?ss' = last ?ss" using i nth [of "length ?ss - 1"] by (subst (1 2) last_conv_nth) auto
    then show ?thesis using w unfolding stream_ok_def by simp
  qed
  moreover have "todos j ths' = []" if j: "length ?ss \<le> Suc j" for j
  proof (cases "j = Suc i")
    case True
    then show ?thesis using last_ok j i by simp
  next
    case False
    then have "todos j ths' = todos j (sw_threads w)" using i j by (intro others) simp_all
    then show ?thesis using w j unfolding stream_ok_def by simp
  qed
  moreover have "st_isFinished (?ss' ! 0) = st_isFinished (?ss ! 0)" 
  proof (cases "i = 0")
    case True
    have "0 < length ?ss" using i by linarith
    then show ?thesis using True s(2) by simp
  qed simp
  ultimately show ?thesis using w by (simp add: stream_ok_def set_stage_def)
qed

section \<open>What is on its way\<close>

definition items :: "'a stream_world \<Rightarrow> nat \<Rightarrow> 'a option list" where
  "items w i = job_values (todos i (sw_threads w)) @ st_queue (sw_stages w ! i)"

text \<open>A value goes through the functions of its stage and of the ones after it; the last stage holds the oldest values.\<close>

fun through :: "('a \<Rightarrow> 'a) list \<Rightarrow> 'a \<Rightarrow> 'a" where
  "through [] v = v"
| "through (f # fs) v = through fs (f v)"

fun arriving :: "(('a \<Rightarrow> 'a) \<times> 'a option list) list \<Rightarrow> 'a option list" where
  "arriving [] = []"
| "arriving ((f, xs) # L) = arriving L @ map (map_option (\<lambda>v. through (map fst L) (f v))) xs"

definition flow :: "'a stream_world \<Rightarrow> (('a \<Rightarrow> 'a) \<times> 'a option list) list" where
  "flow w = map (\<lambda>i. (st_fn (sw_stages w ! i), items w i)) [0..<length (sw_stages w)]"

text \<open>What \<open>get\<close> will return, in its order, unless the holder resets the stream.\<close>

definition pending :: "'a stream_world \<Rightarrow> 'a option list" where
  "pending w = arriving (flow w)"

definition stream_work :: "'a stream_world \<Rightarrow> nat" where
  "stream_work w = (\<Sum>i < length (sw_stages w).
     stage_work (length (sw_stages w) - 1 - i) (todos i (sw_threads w)) (st_queue (sw_stages w ! i)))"

lemma arriving_moved:
  assumes "moved xs xs' f ys ys'"
  shows "arriving (pre @ (f, xs') # (g, ys') # post) = arriving (pre @ (f, xs) # (g, ys) # post)"
proof (induction pre)
  case Nil
  show ?case using assms by (auto simp: moved_def option.map_comp comp_def)
next
  case (Cons p pre)
  then show ?case by (cases p) simp
qed

lemma upt_split2: "Suc i < n \<Longrightarrow> [0..<n] = [0..<i] @ i # Suc i # [Suc (Suc i)..<n]"
  by (metis Suc_lessD less_imp_le_nat upt_add_eq_append upt_conv_Cons le0 add_diff_inverse_nat le_add_diff_inverse)

lemma sum_two:
  fixes f g :: "nat \<Rightarrow> nat"
  assumes "Suc i < n" and "\<And>j. j < n \<Longrightarrow> j \<noteq> i \<Longrightarrow> j \<noteq> Suc i \<Longrightarrow> f j = g j" and "f i + f (Suc i) < g i + g (Suc i)"
  shows "sum f {..<n} < sum g {..<n}"
proof -
  let ?R = "{..<n} - {i, Suc i}"
  have split: "sum h {..<n} = sum h ?R + (h i + h (Suc i))" for h :: "nat \<Rightarrow> nat"
  proof -
    have "sum h {..<n} = sum h ?R + sum h {i, Suc i}" using assms(1) by (subst sum.subset_diff [of "{i, Suc i}"]) auto
    then show ?thesis by simp
  qed
  have "sum f ?R = sum g ?R" using assms(2) by (intro sum.cong) auto
  then show ?thesis using assms(3) by (simp add: split)
qed

lemma update_world:
  assumes i: "Suc i < length (sw_stages w)" and fn: "st_fn s' = st_fn (sw_stages w ! i)" "st_fn t' = st_fn (sw_stages w ! Suc i)"
    and others: "\<And>j. j \<noteq> i \<Longrightarrow> j \<noteq> Suc i \<Longrightarrow> todos j ths' = todos j (sw_threads w)"
    and w': "w' = (set_stage (Suc i) t' (set_stage i s' w))\<lparr>sw_threads := ths'\<rparr>"
  shows "moved (items w i) (items w' i) (st_fn (sw_stages w ! i)) (items w (Suc i)) (items w' (Suc i)) \<Longrightarrow> pending w' = pending w"
    and "(\<And>d. stage_work (Suc d) (todos i ths') (st_queue s') + stage_work d (todos (Suc i) ths') (st_queue t')
        < stage_work (Suc d) (todos i (sw_threads w)) (st_queue (sw_stages w ! i))
          + stage_work d (todos (Suc i) (sw_threads w)) (st_queue (sw_stages w ! Suc i))) \<Longrightarrow> stream_work w' < stream_work w"
proof -
  let ?n = "length (sw_stages w)"
  have st: "sw_stages w' ! i = s'" "sw_stages w' ! Suc i = t'" "sw_threads w' = ths'" "length (sw_stages w') = ?n"
    "\<And>j. j \<noteq> i \<Longrightarrow> j \<noteq> Suc i \<Longrightarrow> sw_stages w' ! j = sw_stages w ! j"
    using i by (simp_all add: w' set_stage_def)
  have fns: "st_fn (sw_stages w' ! j) = st_fn (sw_stages w ! j)" for j
    using st fn by (cases "j = i"; cases "j = Suc i") simp_all
  have it: "items w' j = items w j" if "j \<noteq> i" "j \<noteq> Suc i" for j
    using that st others by (simp add: items_def)
  define e where "e x = map (\<lambda>j. (st_fn (sw_stages w ! j), items w j)) x" for x
  have "map (\<lambda>j. (st_fn (sw_stages w' ! j), items w' j)) [0..<i] = e [0..<i]"
    "map (\<lambda>j. (st_fn (sw_stages w' ! j), items w' j)) [Suc (Suc i)..<?n] = e [Suc (Suc i)..<?n]"
    by (auto simp: e_def fns it)
  then have f: "flow w' = e [0..<i] @ (st_fn (sw_stages w ! i), items w' i) # (st_fn (sw_stages w ! Suc i), items w' (Suc i)) # e [Suc (Suc i)..<?n]"
    by (simp add: flow_def st(4) upt_split2 [OF i] fns)
  have f0: "flow w = e [0..<i] @ (st_fn (sw_stages w ! i), items w i) # (st_fn (sw_stages w ! Suc i), items w (Suc i)) # e [Suc (Suc i)..<?n]"
    by (simp add: flow_def upt_split2 [OF i] e_def)
  show "pending w' = pending w"
    if "moved (items w i) (items w' i) (st_fn (sw_stages w ! i)) (items w (Suc i)) (items w' (Suc i))"
    unfolding pending_def f f0 by (rule arriving_moved [OF that])
  show "stream_work w' < stream_work w"
    if less: "\<And>d. stage_work (Suc d) (todos i ths') (st_queue s') + stage_work d (todos (Suc i) ths') (st_queue t')
        < stage_work (Suc d) (todos i (sw_threads w)) (st_queue (sw_stages w ! i))
          + stage_work d (todos (Suc i) (sw_threads w)) (st_queue (sw_stages w ! Suc i))"
  proof -
    have d: "?n - 1 - i = Suc (?n - 1 - Suc i)" using i by simp
    show ?thesis unfolding stream_work_def st(3,4)
    proof (rule sum_two [OF i])
      show "stage_work (?n - 1 - j) (todos j ths') (st_queue (sw_stages w' ! j))
          = stage_work (?n - 1 - j) (todos j (sw_threads w)) (st_queue (sw_stages w ! j))" if "j < ?n" "j \<noteq> i" "j \<noteq> Suc i" for j
        using that st(5) others by simp
    next
      show "stage_work (?n - 1 - i) (todos i ths') (st_queue (sw_stages w' ! i))
          + stage_work (?n - 1 - Suc i) (todos (Suc i) ths') (st_queue (sw_stages w' ! Suc i))
        < stage_work (?n - 1 - i) (todos i (sw_threads w)) (st_queue (sw_stages w ! i))
          + stage_work (?n - 1 - Suc i) (todos (Suc i) (sw_threads w)) (st_queue (sw_stages w ! Suc i))"
        unfolding d st(1,2) by (rule less)
    qed
  qed
qed

lemma stage_work_split: "stage_work d ms q = sum_list (map (todo_work d) ms) + stage_work d [] q"
  by (simp add: stage_work_def)

lemma stream_step_ok:
  assumes ok: "stream_ok w" and k: "k < length (sw_threads w)" and ths: "sw_threads w ! k = m # ms"
  shows "\<exists>w'. stream_step k w = Inr w' \<and> stream_ok w' \<and> sw_canceled w' = sw_canceled w \<and> sw_producer w' = sw_producer w
    \<and> sw_stream w' = sw_stream w \<and> length (sw_stages w') = length (sw_stages w)
    \<and> (sw_canceled w \<or> pending w' = pending w) \<and> stream_work w' < stream_work w"
proof -
  let ?i = "target m" and ?n = "length (sw_stages w)"
  let ?s = "sw_stages w ! ?i" and ?t = "sw_stages w ! Suc ?i"
  have "m \<in> set (todos ?i (sw_threads w))" using nth_mem [OF k] ths by (force simp: todos_def)
  then have i: "Suc ?i < ?n" using ok unfolding stream_ok_def by (metis empty_iff list.set(1) not_le)
  then have stage: "stage_ok (sw_canceled w) ?s (st_isFinished ?t) (todos ?i (sw_threads w))" using ok unfolding stream_ok_def by blast
  then have "length (todos ?i (sw_threads w)) \<le> 1" by (auto simp: stage_ok_def split: list.splits todo.splits)
  note one = todos_one [OF k ths this]
  have q: "queue_ok ?s" "queue_ok ?t" using ok i unfolding stream_ok_def by simp_all
  obtain run nxt spawned s' t' where
    r: "run_todo m w = Inr ((if run then [Continue (Suc ?i)] else []) @ nxt, spawned, set_stage (Suc ?i) t' (set_stage ?i s' w))"
    and so: "step_ok (sw_canceled w) ?i m ?s ?t run nxt spawned s' t'"
    using run_todo_ok [OF refl refl refl i q] stage one(1) by metis
  let ?next = "(if run then [Continue (Suc ?i)] else []) @ nxt"
  define ths' where "ths' = (sw_threads w)[k := ?next @ ms] @ (if spawned = [] then [] else [spawned])"
  define w' where "w' = (set_stage (Suc ?i) t' (set_stage ?i s' w))\<lparr>sw_threads := ths'\<rparr>"
  have step: "stream_step k w = Inr w'"
    using ths r by (simp add: stream_step_def start_thread_def w'_def ths'_def)
  have tgt: "filter (\<lambda>x. target x = j) nxt = (if j = ?i then nxt else [])" "filter (\<lambda>x. target x = j) spawned = (if j = ?i then spawned else [])" for j
    using so by (auto simp: step_ok_def filter_empty_conv filter_id_conv)
  have sp: "todos j (if spawned = [] then [] else [spawned]) = (if j = ?i then spawned else [])" for j
    using tgt(2) [of j] by (cases "j = ?i") (simp_all add: todos_def)
  have ti: "todos ?i ths' = nxt @ spawned" using one(2) [of ?next] tgt(1) [of ?i] sp by (simp add: ths'_def)
  let ?u = "Suc ?i" and ?old = "todos (Suc ?i) (sw_threads w)"
  have last: "st_fn ?t = id \<and> \<not> st_cont ?t \<and> \<not> st_processingPoppedValue ?t \<and> ?old = []" if n: "Suc ?u = ?n"
  proof -
    have "last (sw_stages w) = ?t" by (rule last_nth [OF n])
    then show ?thesis using ok n unfolding stream_ok_def by auto
  qed
  have stage': "stage_ok (sw_canceled w) ?t (st_isFinished (sw_stages w ! Suc ?u)) ?old" if "Suc ?u < ?n"
    using ok that unfolding stream_ok_def by blast
  have fresh: "?old = []" if run
  proof (cases "Suc ?u = ?n")
    case True
    then show ?thesis using last by simp
  next
    case False
    then show ?thesis using stage' i so that unfolding step_ok_def by (metis Suc_lessI)
  qed
  have tn: "todos ?u ths' = (if run then [Continue ?u] else ?old)"
  proof (cases run)
    case True
    have "todos ?u ths' = filter (\<lambda>x. target x = ?u) ?next @ todos ?u (if spawned = [] then [] else [spawned])"
      unfolding ths'_def by (rule todos_other(2) [OF k ths _ fresh [OF True]]) simp
    then show ?thesis using True tgt(1) [of ?u] sp [of ?u] by simp
  next
    case False
    have "todos ?u ths' = ?old" unfolding ths'_def using False tgt(1) [of ?u] sp [of ?u] by (intro todos_other(1) [OF k ths]) simp_all
    then show ?thesis using False by simp
  qed
  have others: "todos j ths' = todos j (sw_threads w)" if "j \<noteq> ?i" "j \<noteq> ?u" for j
    unfolding ths'_def using that tgt(1) [of j] sp [of j] by (intro todos_other(1) [OF k ths]) auto
  have ok': "stream_ok w'" unfolding w'_def
  proof (rule stream_ok_update [OF ok i])
    show "stage_ok (sw_canceled w) s' (st_isFinished t') (todos ?i ths')" using so ti by (simp add: step_ok_def)
    show "stage_ok (sw_canceled w) t' (st_isFinished (sw_stages w ! Suc ?u)) (todos ?u ths')" if "Suc ?u < ?n"
      using stage' [OF that] so unfolding step_ok_def tn by blast
    show "st_fn t' = id \<and> \<not> st_cont t' \<and> \<not> st_processingPoppedValue t' \<and> todos ?u ths' = []" if "Suc ?u = ?n"
      using last [OF that] so unfolding step_ok_def tn by auto
  qed (use so others in \<open>simp_all add: step_ok_def\<close>)
  have fns: "st_fn s' = st_fn ?s" "st_fn t' = st_fn ?t" using so by (simp_all add: step_ok_def)
  have it: "items w' ?i = job_values (nxt @ spawned) @ st_queue s'" "items w ?i = job_values [m] @ st_queue ?s"
    "items w' ?u = job_values ?old @ st_queue t'" "items w ?u = job_values ?old @ st_queue ?t"
    using i ti tn one(1) fresh by (auto simp: items_def w'_def set_stage_def)
  have "moved (items w ?i) (items w' ?i) (st_fn ?s) (items w ?u) (items w' ?u)" if "\<not> sw_canceled w"
    using so that unfolding step_ok_def it by (auto simp: moved_def)
  then have pending: "sw_canceled w \<or> pending w' = pending w"
    using update_world(1) [OF i fns others w'_def] by blast
  have "stream_work w' < stream_work w"
  proof (rule update_world(2) [OF i fns others w'_def])
    fix d
    have "stage_work (Suc d) (nxt @ spawned) (st_queue s') + stage_work d (if run then [Continue ?u] else []) (st_queue t')
        < stage_work (Suc d) [m] (st_queue ?s) + stage_work d [] (st_queue ?t)"
      using so unfolding step_ok_def by blast
    then show "stage_work (Suc d) (todos ?i ths') (st_queue s') + stage_work d (todos ?u ths') (st_queue t')
        < stage_work (Suc d) (todos ?i (sw_threads w)) (st_queue ?s) + stage_work d ?old (st_queue ?t)"
      unfolding ti tn one(1) using fresh stage_work_split [of d ?old] by (cases run) simp_all
  qed
  moreover have "sw_canceled w' = sw_canceled w" "sw_producer w' = sw_producer w" "sw_stream w' = sw_stream w" "length (sw_stages w') = ?n"
    by (simp_all add: w'_def set_stage_def)
  ultimately show ?thesis using step ok' pending by blast
qed

section \<open>Calls of the producer and the holder\<close>

lemma stream_ok_one:
  assumes w: "stream_ok w" and i: "i < length (sw_stages w)" and s: "queue_ok s'"
    and fin: "i = 0 \<and> p = (\<not> st_isFinished s') \<or> p = sw_producer w \<and> st_isFinished s' = st_isFinished (sw_stages w ! i)"
    and this_ok: "Suc i < length (sw_stages w) \<Longrightarrow> stage_ok (sw_canceled w) s' (st_isFinished (sw_stages w ! Suc i)) (todos i ths')"
    and last_ok: "Suc i = length (sw_stages w) \<Longrightarrow> st_fn s' = id \<and> \<not> st_cont s' \<and> \<not> st_processingPoppedValue s' \<and> todos i ths' = []"
    and others: "\<And>j. j \<noteq> i \<Longrightarrow> todos j ths' = todos j (sw_threads w)"
  shows "stream_ok ((set_stage i s' w)\<lparr>sw_producer := p, sw_threads := ths'\<rparr>)"
proof -
  let ?ss = "sw_stages w" and ?ss' = "(sw_stages w)[i := s']"
  have nth: "?ss' ! j = (if j = i then s' else ?ss ! j)" if "j < length ?ss" for j
    using that by (simp add: nth_list_update)
  have "stage_ok (sw_canceled w) (?ss' ! j) (st_isFinished (?ss' ! Suc j)) (todos j ths')" if j: "Suc j < length ?ss" for j
  proof (cases "j = i")
    case True
    then show ?thesis using this_ok j nth by simp
  next
    case False
    have "stage_ok (sw_canceled w) (?ss ! j) (st_isFinished (?ss ! Suc j)) (todos j (sw_threads w))" using w j unfolding stream_ok_def by blast
    moreover have "st_isFinished (?ss' ! Suc j) = st_isFinished (?ss ! Suc j)" unfolding nth [OF j] using fin by auto
    ultimately show ?thesis using False others [of j] by simp
  qed
  moreover have "queue_ok (?ss' ! j)" if "j < length ?ss" for j
    unfolding nth [OF that] using w s(1) that by (simp add: stream_ok_def)
  moreover have "st_fn (last ?ss') = id \<and> \<not> st_cont (last ?ss') \<and> \<not> st_processingPoppedValue (last ?ss')"
  proof (cases "Suc i = length ?ss")
    case True
    then have "last ?ss' = ?ss' ! i" by (intro last_nth) simp
    then have "last ?ss' = s'" using i by simp
    then show ?thesis using last_ok [OF True] by simp
  next
    case False
    then have "last ?ss' = last ?ss" using i nth [of "length ?ss - 1"] by (subst (1 2) last_conv_nth) auto
    then show ?thesis using w unfolding stream_ok_def by simp
  qed
  moreover have "todos j ths' = []" if j: "length ?ss \<le> Suc j" for j
    using last_ok others [of j] w j i unfolding stream_ok_def by (cases "j = i") auto
  moreover have "p = (\<not> st_isFinished (?ss' ! 0))"
  proof (cases "i = 0")
    case True
    have "0 < length ?ss" using i by linarith
    then show ?thesis using True fin w by (auto simp: stream_ok_def)
  next
    case False
    then show ?thesis using fin w by (simp add: stream_ok_def)
  qed
  ultimately show ?thesis using w by (simp add: stream_ok_def set_stage_def)
qed

lemma todos_start: "todos j (ths @ (if run then [[Continue i]] else [])) = todos j ths @ (if run \<and> j = i then [Continue i] else [])"
  by (simp add: todos_def)

text \<open>Send and close are the same but for what they put in the queue.\<close>

lemma producer_push_ok:
  fixes w :: "'a stream_world" and x b
  assumes ok: "stream_ok w" and p: "sw_producer w"
  defines "s \<equiv> sw_stages w ! 0"
  defines "run \<equiv> st_queue s = [] \<and> \<not> st_processingPoppedValue s \<and> st_cont s"
  defines "s' \<equiv> s\<lparr>st_isFinished := b, st_queue := st_queue s @ [x]\<rparr>"
  defines "w' \<equiv> start_thread (if run then [Continue 0] else []) ((set_stage 0 s' w)\<lparr>sw_producer := \<not> b\<rparr>)"
  assumes x: "(x = None) = b"
  shows "stream_ok w'" and "pending w' = pending w @ [map_option (through (map st_fn (sw_stages w))) x]"
proof -
  let ?n = "length (sw_stages w)"
  have n: "0 < ?n" and fin: "\<not> st_isFinished s" and q: "queue_ok s" using ok p by (auto simp: stream_ok_def s_def)
  have w': "w' = (set_stage 0 s' w)\<lparr>sw_producer := \<not> b, sw_threads := sw_threads w @ (if run then [[Continue 0]] else [])\<rparr>"
    by (simp add: w'_def start_thread_def set_stage_def)
  have qs: "queue_ok s'"
    unfolding s'_def using q fin x by (auto simp: queue_ok_def nth_append less_Suc_eq)
  have stage: "stage_ok (sw_canceled w) s (st_isFinished (sw_stages w ! Suc 0)) (todos 0 (sw_threads w))" if "Suc 0 < ?n"
    using ok that unfolding stream_ok_def s_def by blast
  have last: "s = last (sw_stages w)" if "Suc 0 = ?n" unfolding s_def by (rule last_nth [OF that, symmetric])
  have none: "todos 0 (sw_threads w) = []" if run
  proof (cases "Suc 0 = ?n")
    case True
    then show ?thesis using ok unfolding stream_ok_def by simp
  next
    case False
    then have "Suc 0 < ?n" using n by linarith
    then show ?thesis using stage_ok_push(3) [OF stage fin] that unfolding run_def by blast
  qed
  have start: "todos 0 (sw_threads w @ (if run then [[Continue 0]] else [])) = (if run then [Continue 0] else todos 0 (sw_threads w))"
    using none by (simp add: todos_start)
  show "stream_ok w'" unfolding w'
  proof (rule stream_ok_one [OF ok n qs])
    show "0 = (0::nat) \<and> (\<not> b) = (\<not> st_isFinished s') \<or> (\<not> b) = sw_producer w \<and> st_isFinished s' = st_isFinished (sw_stages w ! 0)"
      by (simp add: s'_def)
    show "stage_ok (sw_canceled w) s' (st_isFinished (sw_stages w ! Suc 0)) (todos 0 (sw_threads w @ (if run then [[Continue 0]] else [])))" if "Suc 0 < ?n"
      unfolding start unfolding s'_def run_def by (rule stage_ok_push(2) [OF stage [OF that] fin refl])
    show "st_fn s' = id \<and> \<not> st_cont s' \<and> \<not> st_processingPoppedValue s' \<and> todos 0 (sw_threads w @ (if run then [[Continue 0]] else [])) = []"
      if "Suc 0 = ?n"
      using ok last that unfolding stream_ok_def todos_start s'_def run_def by auto
  qed (simp add: todos_start)
  have "items w' 0 = items w 0 @ [x]" using n none by (auto simp: items_def w' set_stage_def todos_start s'_def s_def)
  moreover have it: "items w' j = items w j" if "j \<noteq> 0" for j
    using that by (simp add: items_def w' set_stage_def todos_start)
  moreover define F where "F = map (\<lambda>i. (st_fn (sw_stages w ! i), items w i)) [Suc 0..<?n]"
  moreover from it have "map (\<lambda>i. (st_fn (sw_stages w ! i), items w' i)) [Suc 0..<?n] = F" by (simp add: F_def)
  moreover have "through (f # fs) = (\<lambda>v. through fs (f v))" for f :: "'a \<Rightarrow> 'a" and fs by (rule ext) simp
  moreover have "[0..<?n] = 0 # [Suc 0..<?n]" using n by (simp add: upt_conv_Cons)
  moreover have "st_fn (sw_stages w' ! j) = st_fn (sw_stages w ! j)" for j
    using n by (cases "j = 0") (simp_all add: w' set_stage_def s'_def s_def)
  moreover have "length (sw_stages w') = ?n" by (simp add: w' set_stage_def)
  moreover have "map st_fn (sw_stages w) = map (\<lambda>i. st_fn (sw_stages w ! i)) [0..<?n]"
    by (metis map_map map_nth comp_apply map_cong)
  ultimately show "pending w' = pending w @ [map_option (through (map st_fn (sw_stages w))) x]"
    by (simp add: pending_def flow_def comp_def flip: F_def) (simp add: F_def comp_def)
qed

lemma arriving_get: "arriving (L @ [(id, x # q)]) = x # arriving (L @ [(id, q)])"
  by (induction L) (auto simp: option.map_ident)

lemma arriving_chain: "arriving (L @ [(f, q), (id, [])]) = map (map_option f) (arriving (L @ [(id, q)]))"
proof (induction L)
  case Nil
  show ?case by (simp add: option.map_ident)
next
  case (Cons p L)
  have "through (map fst (L @ [(f, q), (id, [])])) v = f (through (map fst (L @ [(id, q)])) v)" for v
    by (induction L arbitrary: v) auto
  then show ?case using Cons by (cases p) (simp add: option.map_comp comp_def id_def)
qed

lemma flow_last:
  assumes "stream_ok w"
  shows "flow w = map (\<lambda>i. (st_fn (sw_stages w ! i), items w i)) [0..<last_index w] @ [(id, st_queue (sw_stages w ! last_index w))]"
    and "Suc (last_index w) = length (sw_stages w)" and "last (sw_stages w) = sw_stages w ! last_index w" and "todos (last_index w) (sw_threads w) = []"
proof -
  show l: "Suc (last_index w) = length (sw_stages w)" using assms by (simp add: stream_ok_def)
  show s: "last (sw_stages w) = sw_stages w ! last_index w" by (rule last_nth [OF l])
  show t: "todos (last_index w) (sw_threads w) = []" using assms l unfolding stream_ok_def by simp
  have "st_fn (sw_stages w ! last_index w) = id" using assms unfolding stream_ok_def s by simp
  moreover have "[0..<length (sw_stages w)] = [0..<last_index w] @ [last_index w]"
    using upt_Suc_append [OF le0, of "last_index w"] unfolding l .
  ultimately show "flow w = map (\<lambda>i. (st_fn (sw_stages w ! i), items w i)) [0..<last_index w] @ [(id, st_queue (sw_stages w ! last_index w))]"
    using t by (simp add: flow_def items_def)
qed

lemma get_ok:
  assumes ok: "stream_ok w" and v: "sw_stream w"
  defines "s \<equiv> sw_stages w ! last_index w"
  shows "st_queue s = [] \<Longrightarrow> stream_get w = Inr (if st_isFinished s then Some (None, w) else None)"
    and "st_queue s = x # q \<Longrightarrow> \<exists>w'. stream_get w = Inr (Some (x, w')) \<and> stream_ok w' \<and> pending w = x # pending w' \<and> sw_canceled w' = sw_canceled w"
proof -
  note l = flow_last [OF ok]
  have st: "st_fn s = id" "\<not> st_cont s" "\<not> st_processingPoppedValue s" using ok l(3) unfolding stream_ok_def s_def by simp_all
  have "s\<lparr>st_processingPoppedValue := False\<rparr> = s" "set_stage (last_index w) s w = w" using st(3) by (simp_all add: s_def)
  then have same: "set_stage (last_index w) (s\<lparr>st_processingPoppedValue := False\<rparr>) w = w" by metis
  show "stream_get w = Inr (if st_isFinished s then Some (None, w) else None)" if e: "st_queue s = []"
    unfolding stream_get_def stage_isReady_def popValue_def finishedProcessingPoppedValue_def s_def [symmetric]
    using e v st(3) same by simp
  show "\<exists>w'. stream_get w = Inr (Some (x, w')) \<and> stream_ok w' \<and> pending w = x # pending w' \<and> sw_canceled w' = sw_canceled w"
    if e: "st_queue s = x # q"
  proof (intro exI conjI)
    let ?s = "s\<lparr>st_queue := q, st_processingPoppedValue := False\<rparr>"
    let ?w = "set_stage (last_index w) ?s w"
    show "stream_get w = Inr (Some (x, ?w))"
      unfolding stream_get_def stage_isReady_def popValue_def finishedProcessingPoppedValue_def s_def [symmetric]
      using e v st(3) by simp
    have i: "last_index w < length (sw_stages w)" using l(2) by linarith
    have q: "queue_ok s" using ok i unfolding stream_ok_def s_def by blast
    have "stream_ok (?w\<lparr>sw_producer := sw_producer w, sw_threads := sw_threads w\<rparr>)"
      by (rule stream_ok_one [OF ok i queue_ok_tl [OF q e]]) (use l(2,4) st in \<open>simp_all add: s_def\<close>)
    then show ok': "stream_ok ?w" by (simp add: set_stage_def)
    have "last_index ?w = last_index w" "sw_stages ?w ! last_index w = ?s" using i by (simp_all add: set_stage_def)
    moreover define F where "F = map (\<lambda>i. (st_fn (sw_stages w ! i), items w i)) [0..<last_index w]"
    moreover have "map (\<lambda>i. (st_fn (sw_stages ?w ! i), items ?w i)) [0..<last_index w] = F"
      by (simp add: set_stage_def items_def F_def)
    ultimately have "flow ?w = F @ [(id, q)]" "flow w = F @ [(id, x # q)]"
      using flow_last(1) [OF ok'] l(1) e by (simp_all add: s_def)
    then show "pending w = x # pending ?w"
      unfolding pending_def by (simp only: arriving_get)
  qed (simp add: set_stage_def)
qed

lemma stream_then_ok:
  fixes w :: "'a stream_world"
  assumes ok: "stream_ok w" and v: "sw_stream w"
  shows "\<exists>w'. stream_then f w = Inr w' \<and> stream_ok w' \<and> pending w' = map (map_option f) (pending w) \<and> sw_canceled w' = sw_canceled w"
proof -
  define l where "l = last_index w"
  let ?ss = "sw_stages w" and ?n = "length (sw_stages w)" and ?s = "sw_stages w ! l"
  let ?s' = "?s\<lparr>st_cont := True, st_fn := f\<rparr>" and ?run = "st_queue ?s \<noteq> []"
  define ss' where "ss' = ?ss[l := ?s'] @ [mk_stage]"
  define ths' where "ths' = sw_threads w @ (if ?run then [[Continue l]] else [])"
  define w' where "w' = w\<lparr>sw_stages := ss', sw_threads := ths'\<rparr>"
  note L = flow_last [OF ok, folded l_def]
  have st: "st_fn ?s = id" "\<not> st_cont ?s" "\<not> st_processingPoppedValue ?s" using ok L(3) unfolding stream_ok_def by simp_all
  have step: "stream_then f w = Inr w'"
    using v st unfolding stream_then_def chain_stage_def l_def [symmetric]
    by (simp add: w'_def ths'_def ss'_def start_thread_def set_stage_def Let_def)
  have n: "l < ?n" "Suc l = ?n" "length ss' = Suc ?n" using L(2) by (simp_all add: ss'_def)
  have nth: "ss' ! j = (if j = ?n then mk_stage else if j = l then ?s' else ?ss ! j)" if "j < Suc ?n" for j
    using that n by (auto simp: ss'_def nth_append nth_list_update)
  have fin: "st_isFinished (ss' ! j) = st_isFinished (?ss ! j)" if "j < ?n" for j
    using that nth [of j] by auto
  have td: "todos j ths' = (if j = l then (if ?run then [Continue l] else []) else todos j (sw_threads w))" for j
    unfolding ths'_def todos_start using L(4) by simp
  have "stage_ok (sw_canceled w) (ss' ! j) (st_isFinished (ss' ! Suc j)) (todos j ths')" if j: "Suc j < Suc ?n" for j
  proof (cases "j = l")
    case True
    then have "ss' ! j = ?s'" "\<not> st_isFinished (ss' ! Suc j)" using n nth [of j] nth [of "Suc j"] by (simp_all add: mk_stage_def)
    then show ?thesis using True st td [of j] by (simp add: stage_ok_def)
  next
    case False
    then have j': "Suc j < ?n" using j n by linarith
    have "stage_ok (sw_canceled w) (?ss ! j) (st_isFinished (?ss ! Suc j)) (todos j (sw_threads w))" using ok j' unfolding stream_ok_def by blast
    then show ?thesis using False fin [OF j'] nth [of j] td [of j] j' by simp
  qed
  moreover have "queue_ok (ss' ! j)" if "j < Suc ?n" for j
  proof -
    have "queue_ok ?s'" using ok n(1) unfolding stream_ok_def queue_ok_def by simp
    then show ?thesis unfolding nth [OF that] using ok that by (simp add: stream_ok_def queue_ok_def mk_stage_def)
  qed
  moreover have "last ss' = mk_stage" "ss' \<noteq> []" by (simp_all add: ss'_def)
  moreover have "todos j ths' = []" if "length ss' \<le> Suc j" for j using ok n that td [of j] unfolding stream_ok_def by simp
  moreover have "st_isFinished (ss' ! 0) = st_isFinished (?ss ! 0)" using n(1) by (intro fin) linarith
  ultimately have ok': "stream_ok w'" using ok n(3) by (simp add: stream_ok_def w'_def mk_stage_def)
  define F where "F = map (\<lambda>i. (st_fn (?ss ! i), items w i)) [0..<l]"
  have w'_nth: "st_fn (sw_stages w' ! j) = st_fn (?ss ! j)" "items w' j = items w j" if "j < l" for j
    using that n nth [of j] td [of j] by (simp_all add: w'_def items_def)
  have F': "map (\<lambda>i. (st_fn (sw_stages w' ! i), items w' i)) [0..<l] = F" by (simp add: F_def w'_nth)
  have it: "st_fn (sw_stages w' ! l) = f" "items w' l = st_queue ?s" "st_fn (sw_stages w' ! Suc l) = id" "items w' (Suc l) = []"
    using n nth [of l] nth [of "Suc l"] td [of l] td [of "Suc l"] ok unfolding stream_ok_def
    by (simp_all add: w'_def items_def mk_stage_def)
  have "[0..<Suc ?n] = [0..<l] @ [l, Suc l]" unfolding n(2) [symmetric] by simp
  then have "flow w' = F @ [(f, st_queue ?s), (id, [])]" using n(3) F' it by (simp add: flow_def w'_def)
  moreover have "flow w = F @ [(id, st_queue ?s)]" using L(1) by (simp add: F_def)
  ultimately have "pending w' = map (map_option f) (pending w)" unfolding pending_def by (simp only: arriving_chain)
  then show ?thesis using step ok' by (auto simp: w'_def)
qed

lemma stage_ok_cancel: "stage_ok c s ended ms \<Longrightarrow> stage_ok True s ended ms"
  by (auto simp: stage_ok_def split: list.splits todo.splits)

lemma reset_ok: "stream_ok w \<Longrightarrow> stream_ok (stream_reset w)"
  unfolding stream_ok_def stream_reset_def using stage_ok_cancel [of "sw_canceled w"] by simp blast

lemma send_ok:
  assumes "stream_ok w" and "sw_producer w"
  shows "\<exists>w'. producer_send v w = Inr w' \<and> stream_ok w' \<and> pending w' = pending w @ [Some (through (map st_fn (sw_stages w)) v)]
    \<and> sw_canceled w' = sw_canceled w"
proof -
  let ?s = "sw_stages w ! 0"
  have fin: "\<not> st_isFinished ?s" using assms by (simp add: stream_ok_def)
  then have s: "?s\<lparr>st_queue := q\<rparr> = ?s\<lparr>st_isFinished := False, st_queue := q\<rparr>" for q by (cases ?s) simp
  have w: "set_stage 0 s w = (set_stage 0 s w)\<lparr>sw_producer := \<not> False\<rparr>" for s using assms(2) by (cases w) (simp add: set_stage_def)
  let ?run = "st_queue ?s = [] \<and> \<not> st_processingPoppedValue ?s \<and> st_cont ?s"
  let ?w = "start_thread (if ?run then [Continue 0] else [])
    ((set_stage 0 (?s\<lparr>st_isFinished := False, st_queue := st_queue ?s @ [Some v]\<rparr>) w)\<lparr>sw_producer := \<not> False\<rparr>)"
  have "producer_send v w = Inr ?w"
    unfolding producer_send_def pushValue_def s by (subst w [symmetric]) (use assms(2) fin in simp)
  moreover have "sw_canceled ?w = sw_canceled w" by (simp add: start_thread_def set_stage_def)
  ultimately show ?thesis using producer_push_ok [OF assms, of "Some v" False] by (intro exI [of _ ?w]) simp
qed

lemma close_ok:
  assumes "stream_ok w" and "sw_producer w"
  shows "\<exists>w'. producer_reset w = Inr w' \<and> stream_ok w' \<and> pending w' = pending w @ [None] \<and> sw_canceled w' = sw_canceled w"
proof -
  let ?s = "sw_stages w ! 0"
  have fin: "\<not> st_isFinished ?s" using assms by (simp add: stream_ok_def)
  let ?run = "st_queue ?s = [] \<and> \<not> st_processingPoppedValue ?s \<and> st_cont ?s"
  let ?w = "start_thread (if ?run then [Continue 0] else [])
    ((set_stage 0 (?s\<lparr>st_isFinished := True, st_queue := st_queue ?s @ [None]\<rparr>) w)\<lparr>sw_producer := \<not> True\<rparr>)"
  have "producer_reset w = Inr ?w"
    unfolding producer_reset_def close_stage_def using assms(2) fin by simp
  moreover have "sw_canceled ?w = sw_canceled w" by (simp add: start_thread_def set_stage_def)
  ultimately show ?thesis using producer_push_ok [OF assms, of None True] by (intro exI [of _ ?w]) simp
qed

section \<open>Every reachable stream\<close>

lemma stream_reachable_ok: "stream_reachable w \<Longrightarrow> stream_ok w"
proof (induction rule: stream_reachable.induct)
  case make
  show ?case by (simp add: stream_ok_def makeStreamProducer_def mk_stage_def queue_ok_def todos_def)
next
  case (thread w k w')
  show ?case
  proof (cases "sw_threads w ! k")
    case Nil
    then show ?thesis using thread by (simp add: stream_step_def)
  next
    case (Cons m ms)
    then show ?thesis using stream_step_ok [OF thread.IH thread.hyps(2) Cons] thread.hyps(3) by auto
  qed
next
  case (send w v w')
  then show ?case using send_ok [of w v] by auto
next
  case (close w w')
  then show ?case using close_ok [of w] by auto
next
  case (get w v w')
  show ?case
  proof (cases "st_queue (sw_stages w ! last_index w)")
    case Nil
    then show ?thesis using get_ok(1) [OF get.IH get.hyps(2) Nil] get.hyps(3) get.IH by (auto split: if_splits)
  next
    case (Cons x q)
    then show ?thesis using get_ok(2) [OF get.IH get.hyps(2) Cons] get.hyps(3) by auto
  qed
next
  case (chain w f w')
  then show ?case using stream_then_ok [of w f] by auto
next
  case (cancel w)
  then show ?case by (simp add: reset_ok)
qed

lemma stage_ok_idle: "stage_ok False s ended [] \<Longrightarrow> st_queue s = []"
  by (auto simp: stage_ok_def)

lemma arriving_last: "arriving (map (\<lambda>i. (h i, [])) js @ [(id, q)]) = q"
  by (induction js) (auto simp: id_def option.map_id0 [unfolded id_def])

lemma arriving_none: "(\<And>i. i \<in> set js \<Longrightarrow> g i = []) \<Longrightarrow> arriving (map (\<lambda>i. (h i, g i)) js) = []"
  by (induction js) auto

text \<open>With nothing left to do everything pending is in the last queue.\<close>

lemma pending_idle:
  fixes w :: "'a stream_world"
  assumes ok: "stream_ok w" and live: "\<not> sw_canceled w" and idle: "\<And>ts. ts \<in> set (sw_threads w) \<Longrightarrow> ts = []"
  shows "pending w = st_queue (sw_stages w ! last_index w)"
proof -
  have none: "todos i (sw_threads w) = []" for i using idle by (force simp: todos_def filter_empty_conv)
  have "items w i = []" if "i < last_index w" for i
  proof -
    have "Suc i < length (sw_stages w)" using that by linarith
    then have "stage_ok False (sw_stages w ! i) (st_isFinished (sw_stages w ! Suc i)) []"
      using ok live none [of i] unfolding stream_ok_def by metis
    then show ?thesis using none by (simp add: items_def stage_ok_idle)
  qed
  then have F: "map (\<lambda>i. (st_fn (sw_stages w ! i), items w i)) [0..<last_index w] = map (\<lambda>i. (st_fn (sw_stages w ! i), [])) [0..<last_index w]"
    by simp
  show ?thesis unfolding pending_def flow_last(1) [OF ok] F by (rule arriving_last)
qed

text \<open>A finished stage has nothing behind it.\<close>

lemma items_finished:
  assumes ok: "stream_ok w" and j: "j < length (sw_stages w)" "st_isFinished (sw_stages w ! j)"
  shows "i < j \<Longrightarrow> items w i = []"
  using j
proof (induction j arbitrary: i)
  case 0
  then show ?case by simp
next
  case (Suc j)
  let ?ms = "todos j (sw_threads w)"
  have "stage_ok (sw_canceled w) (sw_stages w ! j) True ?ms" using ok Suc.prems unfolding stream_ok_def by metis
  then have "st_isFinished (sw_stages w ! j)" "items w j = []"
    by (auto simp: stage_ok_def items_def split: list.splits todo.splits)
  then show ?case using Suc.IH [of i] Suc.prems by (cases "i = j") simp_all
qed

lemma pending_nil:
  fixes w :: "'a stream_world"
  assumes e: "\<And>i. i < length (sw_stages w) \<Longrightarrow> items w i = []"
  shows "pending w = []"
  unfolding pending_def flow_def by (rule arriving_none) (simp add: e)

lemma get_takes_first:
  assumes ok: "stream_ok w" and v: "sw_stream w" and g: "stream_get w = Inr (Some (x, w'))"
  shows "pending w = x # pending w' \<or> (x = None \<and> w' = w \<and> pending w = [])"
proof (cases "st_queue (sw_stages w ! last_index w)")
  case Nil
  then have f: "x = None" "w' = w" "st_isFinished (sw_stages w ! last_index w)"
    using get_ok(1) [OF ok v Nil] g by (auto split: if_splits)
  have l: "last_index w < length (sw_stages w)" using flow_last(2) [OF ok] by linarith
  have "items w i = []" if "i < length (sw_stages w)" for i
  proof (cases "i = last_index w")
    case True
    then show ?thesis using Nil flow_last(4) [OF ok] by (simp add: items_def)
  next
    case False
    then have "i < last_index w" using that by linarith
    then show ?thesis by (rule items_finished [OF ok l f(3)])
  qed
  then show ?thesis using f pending_nil by blast
next
  case (Cons y q)
  then show ?thesis using get_ok(2) [OF ok v Cons] g by auto
qed

lemma idle_get:
  assumes ok: "stream_ok w" and v: "sw_stream w" and live: "\<not> sw_canceled w"
    and idle: "\<And>ts. ts \<in> set (sw_threads w) \<Longrightarrow> ts = []" and some: "pending w \<noteq> []"
  shows "\<exists>w'. stream_get w = Inr (Some (hd (pending w), w'))"
proof -
  obtain x q where "st_queue (sw_stages w ! last_index w) = x # q"
    using pending_idle [OF ok live idle] some by (metis neq_Nil_conv)
  then show ?thesis using get_ok(2) [OF ok v] pending_idle [OF ok live idle] by fastforce
qed

text \<open>C14 A stream that was not reset is a queue.  In any state the threads, the producer and the holder can reach, a step of a thread
  changes nothing the holder can see; a value sent goes to the end of what is pending, with the functions of all continuations
  applied; closing puts the end of the stream there; \<open>then\<close> applies its function to everything pending; a \<open>get\<close> that
  does not wait takes the first, or says that the stream has ended.  Once the threads have nothing left to do \<open>get\<close> does not wait
  while something is pending.  None of these calls fails an assertion.
\<close>

theorem stream_refines_fifo:
  fixes w :: "'a stream_world"
  assumes "stream_reachable w" and "sw_stream w" and "\<not> sw_canceled w"
  shows "(\<forall>k < length (sw_threads w). \<exists>w'. stream_step k w = Inr w' \<and> pending w' = pending w)
    \<and> (sw_producer w \<longrightarrow>
         (\<forall>v. \<exists>w'. producer_send v w = Inr w' \<and> pending w' = pending w @ [Some (through (map st_fn (sw_stages w)) v)])
         \<and> (\<exists>w'. producer_reset w = Inr w' \<and> pending w' = pending w @ [None]))
    \<and> (\<forall>f. \<exists>w'. stream_then f w = Inr w' \<and> pending w' = map (map_option f) (pending w))
    \<and> (\<exists>r. stream_get w = Inr r)
    \<and> (\<forall>x w'. stream_get w = Inr (Some (x, w')) \<longrightarrow> pending w = x # pending w' \<or> (x = None \<and> w' = w \<and> pending w = []))
    \<and> ((\<forall>ts \<in> set (sw_threads w). ts = []) \<and> pending w \<noteq> [] \<longrightarrow> (\<exists>w'. stream_get w = Inr (Some (hd (pending w), w'))))"
proof (intro conjI allI impI)
  have ok: "stream_ok w" by (rule stream_reachable_ok [OF assms(1)])
  show "\<exists>w'. stream_step k w = Inr w' \<and> pending w' = pending w" if "k < length (sw_threads w)" for k
    using stream_step_ok [OF ok that] assms(3) by (cases "sw_threads w ! k") (simp add: stream_step_def, blast)
  show "\<exists>w'. producer_send v w = Inr w' \<and> pending w' = pending w @ [Some (through (map st_fn (sw_stages w)) v)]" if "sw_producer w" for v
    using send_ok [OF ok that] by blast
  show "\<exists>w'. producer_reset w = Inr w' \<and> pending w' = pending w @ [None]" if "sw_producer w"
    using close_ok [OF ok that] by blast
  show "\<exists>w'. stream_then f w = Inr w' \<and> pending w' = map (map_option f) (pending w)" for f
    using stream_then_ok [OF ok assms(2)] by blast
  show "\<exists>r. stream_get w = Inr r"
    using get_ok [OF ok assms(2)] by (cases "st_queue (sw_stages w ! last_index w)") blast+
  show "pending w = x # pending w' \<or> (x = None \<and> w' = w \<and> pending w = [])" if "stream_get w = Inr (Some (x, w'))" for x w'
    by (rule get_takes_first [OF ok assms(2) that])
  show "\<exists>w'. stream_get w = Inr (Some (hd (pending w), w'))" if "(\<forall>ts \<in> set (sw_threads w). ts = []) \<and> pending w \<noteq> []"
    using idle_get [OF ok assms(2,3)] that by blast
qed

text \<open>A stream of numbers: three is sent, then the successor is chained, whose continuation has not run yet.\<close>

definition sample_stream :: "nat stream_world" where
  "sample_stream =
     \<lparr>sw_stages = [\<lparr>st_isFinished = False, st_processingPoppedValue = False, st_queue = [Some 3], st_cont = True, st_fn = Suc\<rparr>, mk_stage],
      sw_canceled = False, sw_producer = True, sw_stream = True, sw_threads = [[Continue 0]]\<rparr>"

lemma sample_stream_reachable: "stream_reachable sample_stream"
proof -
  let ?p = "makeStreamProducer :: nat stream_world"
  let ?w = "set_stage 0 (mk_stage\<lparr>st_queue := [Some 3]\<rparr>) ?p"
  have p: "sw_stages ?p = [mk_stage]" "sw_producer ?p" "sw_stream ?p" by (simp_all add: makeStreamProducer_def)
  have "producer_send 3 ?p = Inr ?w"
    by (simp add: producer_send_def pushValue_def p start_thread_def mk_stage_def del: bindr_eq_Inr)
  then have r: "stream_reachable ?w" by (rule stream_reachable.send [OF stream_reachable.make p(2)])
  have "stream_then Suc ?w = Inr sample_stream" and v: "sw_stream ?w"
    by (simp_all add: stream_then_def chain_stage_def makeStreamProducer_def mk_stage_def sample_stream_def set_stage_def start_thread_def
      del: bindr_eq_Inr)
  then show ?thesis by (intro stream_reachable.chain [OF r v])
qed

theorem stream_refines_fifo_witness:
  "pending sample_stream = [Some 4]
   \<and> (\<exists>w'. stream_step 0 sample_stream = Inr w' \<and> pending w' = [Some 4])
   \<and> (\<exists>w'. producer_send 6 sample_stream = Inr w' \<and> pending w' = [Some 4, Some 7])"
proof -
  have p: "pending sample_stream = [Some 4]"
    by (simp add: pending_def flow_def items_def todos_def sample_stream_def mk_stage_def)
  have thr: "through (map st_fn (sw_stages sample_stream)) 6 = 7" "0 < length (sw_threads sample_stream)" "sw_producer sample_stream"
    by (simp_all add: sample_stream_def mk_stage_def)
  have "sw_stream sample_stream" "\<not> sw_canceled sample_stream" by (simp_all add: sample_stream_def)
  note fifo = stream_refines_fifo [OF sample_stream_reachable this]
  have "\<exists>w'. stream_step 0 sample_stream = Inr w' \<and> pending w' = pending sample_stream" using fifo thr(2) by blast
  moreover have "\<exists>w'. producer_send 6 sample_stream = Inr w' \<and> pending w' = pending sample_stream @ [Some 7]"
    using fifo thr(1,3) by metis
  ultimately show ?thesis using p by simp
qed

text \<open>C36 In any interleaving, also after the holder has reset the stream, a thread that has something left makes its step: no
  assertion of the stages fails and no continuation is called after it was destroyed.  Each step lowers
  a bound on the steps still to be made, so the threads come to rest when producer and holder pause.
\<close>

theorem stream_threads_finish:
  assumes "stream_reachable w" and "k < length (sw_threads w)" and "sw_threads w ! k \<noteq> []"
  shows "\<exists>w'. stream_step k w = Inr w' \<and> stream_reachable w' \<and> stream_work w' < stream_work w"
proof -
  obtain m ms where "sw_threads w ! k = m # ms" using assms(3) unfolding neq_Nil_conv by blast
  then obtain w' where "stream_step k w = Inr w'" "stream_work w' < stream_work w"
    using stream_step_ok [OF stream_reachable_ok [OF assms(1)] assms(2)] by blast
  then show ?thesis using stream_reachable.thread [OF assms(1,2)] by blast
qed

theorem stream_threads_finish_witness:
  "stream_work (stream_reset sample_stream) = 7
   \<and> (\<exists>w'. stream_step 0 (stream_reset sample_stream) = Inr w' \<and> stream_reachable w' \<and> stream_work w' < 7)"
proof -
  have w: "stream_work (stream_reset sample_stream) = 7"
    by code_simp
  have "0 < length (sw_threads (stream_reset sample_stream))" "sw_threads (stream_reset sample_stream) ! 0 \<noteq> []"
    by (simp_all add: stream_reset_def sample_stream_def)
  from stream_threads_finish [OF stream_reachable.cancel [OF sample_stream_reachable] this] show ?thesis unfolding w by simp
qed

end
