(* ===== verification/ChangeOwners.thy ===== *)
theory ChangeOwners
  imports ChangeQueue
begin

text \<open>
  The two owners of a change queue: \<open>gui::ChangeIntegrator\<close>, which applies changes in the GUI thread and asks for at most one
  event at a time, and \<open>server::NetServer\<close>, which posts a job to its thread for each signal.  The locale \<open>change_owner\<close> is what
  an owner promises: a signal is followed by an application of the changes.
\<close>

section \<open>A queue and its owner\<close>

text \<open>\<open>cw_unsignalled\<close> counts the changes whose thread has left the mutex and not yet called the slot of the owner.\<close>

record ('p, 's, 'o) owned_queue =
  cw_queue :: "'p change_queue"
  cw_store :: "nat \<Rightarrow> data_stream"
  cw_observers :: "nat \<Rightarrow> 's"
  cw_unsignalled :: nat
  cw_owner :: 'o

datatype 'p queue_event = AddChanges "'p differential list" | AddStreamChange int "'p change" | SlotCalled | OwnerStep nat

definition push_changes ::
    "('p change_queue \<Rightarrow> 'p change_queue) \<Rightarrow> ('p, 's, 'o) owned_queue \<Rightarrow> ('p, 's, 'o) owned_queue" where
  "push_changes add w =
     (let q = add (cw_queue w)
      in w\<lparr>cw_queue := q, cw_unsignalled := cw_unsignalled w + (cq_signals q - cq_signals (cw_queue w))\<rparr>)"

text \<open>
  Any interleaving of the threads that add changes with the owner's.  An owner is its slot and its steps: \<open>None\<close> when the step
  cannot be made, otherwise its next state and whether it applies the changes.
\<close>

fun queue_step ::
    "('o \<Rightarrow> 'o) \<Rightarrow> (nat \<Rightarrow> 'o \<Rightarrow> ('o \<times> bool) option) \<Rightarrow> ('p, 's) observer_ops \<Rightarrow> 'p queue_event
       \<Rightarrow> ('p, 's, 'o) owned_queue \<Rightarrow> ('p, 's, 'o) owned_queue res" where
  "queue_step slot step ops (AddChanges l) w = Inr (push_changes (addChanges l) w)"
| "queue_step slot step ops (AddStreamChange i c) w = Inr (push_changes (addStreamChange i c) w)"
| "queue_step slot step ops SlotCalled w =
     Inr (if cw_unsignalled w = 0 then w else w\<lparr>cw_unsignalled := cw_unsignalled w - 1, cw_owner := slot (cw_owner w)\<rparr>)"
| "queue_step slot step ops (OwnerStep k) w =
     (case step k (cw_owner w) of
        None \<Rightarrow> Inr w
      | Some (own, applies) \<Rightarrow>
          if applies
          then bindr (applyStreamChanges ops (cw_queue w, cw_store w, cw_observers w)) (\<lambda>(q, H, os).
                 Inr (w\<lparr>cw_queue := q, cw_store := H, cw_observers := os, cw_owner := own\<rparr>))
          else Inr (w\<lparr>cw_owner := own\<rparr>))"

fun added_changes :: "'p queue_event \<Rightarrow> 'p differential list" where
  "added_changes (AddChanges l) = l"
| "added_changes (AddStreamChange i c) = [(i, c)]"
| "added_changes SlotCalled = []"
| "added_changes (OwnerStep k) = []"

definition at_rest :: "(nat \<Rightarrow> 'o \<Rightarrow> ('o \<times> bool) option) \<Rightarrow> ('p, 's, 'o) owned_queue \<Rightarrow> bool" where
  "at_rest step w \<longleftrightarrow> cw_unsignalled w = 0 \<and> (\<forall>k. step k (cw_owner w) = None)"

text \<open>Of the changes \<open>xs\<close> the observers have seen all but the pending ones.\<close>

definition seen ::
    "('p change \<Rightarrow> 's \<Rightarrow> 's) \<Rightarrow> nat list \<Rightarrow> (nat \<Rightarrow> data_stream) \<Rightarrow> (nat \<Rightarrow> 's) \<Rightarrow> 'p differential list
       \<Rightarrow> ('p, 's, 'o) owned_queue \<Rightarrow> bool" where
  "seen f ss H os xs w \<longleftrightarrow>
     (\<exists>ys. xs = ys @ cq_pending (cw_queue w) \<and> cq_streams (cw_queue w) = ss
       \<and> (\<forall>t. ds_id (cw_store w t) = ds_id (H t) \<and> ds_observer (cw_store w t) = ds_observer (H t))
       \<and> (\<forall>s \<in> set ss. \<forall>a. ds_observer (H s) = Some a \<longrightarrow> cw_observers w a = fold f (changes_for (ds_id (H s)) ys) (os a)))"

lemma seen_apply:
  assumes total: "\<And>c obs. notify ops c obs = Inr (f c obs)" and H: "streams_ok H ss" and w: "seen f ss H os xs w"
  shows "\<exists>q K ns. applyStreamChanges ops (cw_queue w, cw_store w, cw_observers w) = Inr (q, K, ns) \<and> cq_pending q = []
    \<and> seen f ss H os xs (w\<lparr>cw_queue := q, cw_store := K, cw_observers := ns, cw_owner := own\<rparr>)"
proof -
  obtain ys where ys: "xs = ys @ cq_pending (cw_queue w)" "cq_streams (cw_queue w) = ss"
      "\<And>t. ds_id (cw_store w t) = ds_id (H t)" "\<And>t. ds_observer (cw_store w t) = ds_observer (H t)"
      "\<And>s a. s \<in> set ss \<Longrightarrow> ds_observer (H s) = Some a \<Longrightarrow> cw_observers w a = fold f (changes_for (ds_id (H s)) ys) (os a)"
    using w unfolding seen_def by metis
  have ok: "streams_ok (cw_store w) ss" using ys(3,4) by (intro streams_ok_cong [OF H]) simp
  have live: "filter (\<lambda>s. stream_isValid (cw_store w s)) ss = ss"
    using ok by (auto simp: streams_ok_def stream_isValid_def filter_id_conv)
  obtain K ns where d: "fold_res (dispatch ops ss) (cq_pending (cw_queue w)) (cw_store w, cw_observers w) = Inr (K, ns)"
      "\<And>t. ds_id (K t) = ds_id (H t) \<and> ds_observer (K t) = ds_observer (H t)"
      "\<And>s a. s \<in> set ss \<Longrightarrow> ds_observer (H s) = Some a \<Longrightarrow>
        ns a = fold f (changes_for (ds_id (H s)) (cq_pending (cw_queue w))) (cw_observers w a)"
    using dispatch_all [OF total ok, of "cq_pending (cw_queue w)" "cw_observers w"] ys(3,4) by metis
  have "seen f ss H os xs (w\<lparr>cw_queue := (cw_queue w)\<lparr>cq_streams := ss, cq_pending := []\<rparr>, cw_store := K, cw_observers := ns, cw_owner := own\<rparr>)"
    unfolding seen_def by (rule exI [of _ xs]) (use d(2,3) ys(1,5) in \<open>simp add: changes_for_def\<close>)
  then show ?thesis using d(1) ys(2) live by (simp add: applyStreamChanges_def Let_def)
qed

lemma seen_push:
  assumes "seen f ss H os xs w" and "cq_pending (add (cw_queue w)) = cq_pending (cw_queue w) @ l"
    and "cq_streams (add (cw_queue w)) = cq_streams (cw_queue w)"
  shows "seen f ss H os (xs @ l) (push_changes add w)"
  using assms by (auto simp: seen_def push_changes_def Let_def)

lemma queue_step_seen:
  assumes total: "\<And>c obs. notify ops c obs = Inr (f c obs)" and H: "streams_ok H ss" and w: "seen f ss H os xs w"
  shows "\<exists>w'. queue_step slot step ops e w = Inr w' \<and> seen f ss H os (xs @ added_changes e) w'"
proof (cases e)
  case (AddChanges l)
  have "seen f ss H os (xs @ l) (push_changes (addChanges l) w)" by (rule seen_push [OF w]) (simp_all add: addChanges_def)
  then show ?thesis using AddChanges by simp
next
  case (AddStreamChange i c)
  have "seen f ss H os (xs @ [(i, c)]) (push_changes (addStreamChange i c) w)"
    by (rule seen_push [OF w]) (simp_all add: addStreamChange_def)
  then show ?thesis using AddStreamChange by simp
next
  case SlotCalled
  then show ?thesis using w by (simp add: seen_def)
next
  case (OwnerStep k)
  show ?thesis
  proof (cases "step k (cw_owner w)")
    case None
    then show ?thesis using OwnerStep w by simp
  next
    case (Some r)
    obtain own applies where r: "r = (own, applies)" by (cases r)
    obtain q K ns where a: "applyStreamChanges ops (cw_queue w, cw_store w, cw_observers w) = Inr (q, K, ns)"
        "seen f ss H os xs (w\<lparr>cw_queue := q, cw_store := K, cw_observers := ns, cw_owner := own\<rparr>)"
      using seen_apply [OF total H w] by metis
    have "seen f ss H os xs (w\<lparr>cw_owner := own\<rparr>)" using w by (simp add: seen_def)
    then show ?thesis using OwnerStep Some r a by (cases applies) simp_all
  qed
qed

lemma queue_run_seen:
  assumes total: "\<And>c obs. notify ops c obs = Inr (f c obs)" and H: "streams_ok H ss"
  shows "seen f ss H os xs w \<Longrightarrow>
    \<exists>w'. fold_res (queue_step slot step ops) es w = Inr w' \<and> seen f ss H os (xs @ concat (map added_changes es)) w'"
proof (induction es arbitrary: w xs)
  case Nil
  then show ?case by simp
next
  case (Cons e es)
  obtain v where v: "queue_step slot step ops e w = Inr v" "seen f ss H os (xs @ added_changes e) v"
    using queue_step_seen [OF total H Cons.prems] by blast
  then show ?case using Cons.IH [OF v(2)] by simp
qed

section \<open>What an owner promises\<close>

text \<open>
  \<open>due\<close>: the owner will apply the changes.  A call of the slot makes it so, and it stays so until the owner applies them.
\<close>

locale change_owner =
  fixes ok :: "'o \<Rightarrow> bool" and due :: "'o \<Rightarrow> bool" and work :: "'o \<Rightarrow> nat"
    and slot :: "'o \<Rightarrow> 'o" and step :: "nat \<Rightarrow> 'o \<Rightarrow> ('o \<times> bool) option"
  assumes slot_due: "ok own \<Longrightarrow> ok (slot own) \<and> due (slot own) \<and> work (slot own) \<le> work own + 4"
    and step_due: "ok own \<Longrightarrow> step k own = Some (own', applies) \<Longrightarrow> ok own' \<and> (applies \<or> \<not> due own \<or> due own') \<and> work own' < work own"
    and due_steps: "ok own \<Longrightarrow> due own \<Longrightarrow> \<exists>k. step k own \<noteq> None"
begin

definition announced :: "('p, 's, 'o) owned_queue \<Rightarrow> bool" where
  "announced w \<longleftrightarrow> ok (cw_owner w) \<and> (cq_pending (cw_queue w) \<noteq> [] \<longrightarrow> 0 < cw_unsignalled w \<or> due (cw_owner w))"

lemma step_announced:
  assumes "announced w" and "queue_step slot step ops e w = Inr w'"
  shows "announced w'"
proof (cases e)
  case (OwnerStep k)
  show ?thesis
  proof (cases "step k (cw_owner w)")
    case None
    then show ?thesis using assms OwnerStep by simp
  next
    case (Some r)
    obtain own applies where r: "r = (own, applies)" by (cases r)
    have "ok own" "applies \<or> \<not> due (cw_owner w) \<or> due own"
      using step_due [of "cw_owner w" k own applies] assms(1) Some r by (auto simp: announced_def)
    then show ?thesis using assms OwnerStep Some r
      by (cases applies) (auto simp: announced_def applyStreamChanges_def Let_def)
  qed
next
  case SlotCalled
  then show ?thesis using assms slot_due [of "cw_owner w"] by (auto simp: announced_def split: if_splits)
next
  case (AddChanges l)
  then show ?thesis using assms by (auto simp: announced_def push_changes_def addChanges_def)
next
  case (AddStreamChange i c)
  then show ?thesis using assms by (auto simp: announced_def push_changes_def addStreamChange_def)
qed

lemma run_announced:
  "announced w \<Longrightarrow> fold_res (queue_step slot step ops) es w = Inr w' \<Longrightarrow> announced w'"
  by (induction es arbitrary: w) (auto dest: step_announced)

lemma rest_delivered: "announced w \<Longrightarrow> at_rest step w \<Longrightarrow> cq_pending (cw_queue w) = []"
  using due_steps [of "cw_owner w"] unfolding announced_def at_rest_def by auto

text \<open>Without new changes the queue comes to rest, whatever the order of the steps; this is one order.\<close>

lemma settles:
  fixes w :: "('p, 's, 'o) owned_queue"
  assumes total: "\<And>c obs. notify ops c obs = Inr (f c obs)" and H: "streams_ok H ss"
  shows "seen f ss H os xs w \<Longrightarrow> announced w \<Longrightarrow>
    \<exists>es w'. concat (map added_changes es) = [] \<and> fold_res (queue_step slot step ops) es w = Inr w' \<and> at_rest step w'"
proof (induction "5 * cw_unsignalled w + work (cw_owner w)" arbitrary: w rule: less_induct)
  case less
  show ?case
  proof (cases "at_rest step w")
    case True
    then show ?thesis by (intro exI [of _ "[]"]) simp
  next
    case False
    obtain k where k: "cw_unsignalled w = 0 \<Longrightarrow> step k (cw_owner w) \<noteq> None" using False unfolding at_rest_def by blast
    define e :: "'p queue_event" where "e = (if cw_unsignalled w = 0 then OwnerStep k else SlotCalled)"
    have e: "added_changes e = []" by (simp add: e_def)
    obtain v where v: "queue_step slot step ops e w = Inr v" "seen f ss H os xs v"
      using queue_step_seen [OF total H less.prems(1), of slot step e] e by auto
    have ok: "ok (cw_owner w)" using less.prems(2) by (simp add: announced_def)
    have "5 * cw_unsignalled v + work (cw_owner v) < 5 * cw_unsignalled w + work (cw_owner w)"
    proof (cases "cw_unsignalled w = 0")
      case True
      then obtain own applies where s: "step k (cw_owner w) = Some (own, applies)" using k by auto
      have "cw_owner v = own" "cw_unsignalled v = 0" using v(1) True s by (auto simp: e_def split: if_splits)
      then show ?thesis using step_due [OF ok s] True by simp
    next
      case False
      then show ?thesis using v(1) slot_due [OF ok] by (auto simp: e_def)
    qed
    then obtain es w' where "concat (map added_changes es) = []" "fold_res (queue_step slot step ops) es v = Inr w'" "at_rest step w'"
      using less.hyps [of v] v(2) step_announced [OF less.prems(2) v(1)] by blast
    then show ?thesis using v(1) e by (intro exI [of _ "e # es"] exI [of _ w']) simp
  qed
qed

end

text \<open>What the two owners share: once at rest every change has been delivered, and the queue comes to rest.\<close>

context change_owner
begin

lemma delivers:
  assumes total: "\<And>c obs. notify ops c obs = Inr (f c obs)" and H: "streams_ok H ss"
    and w: "cw_queue w = q" "cw_store w = H" "cw_observers w = os" "cq_streams q = ss" and a: "announced w"
  shows "\<exists>w'. fold_res (queue_step slot step ops) es w = Inr w'
    \<and> (at_rest step w' \<longrightarrow> cq_pending (cw_queue w') = []
        \<and> (\<forall>s \<in> set ss. \<forall>b. ds_observer (H s) = Some b \<longrightarrow>
             cw_observers w' b = fold f (changes_for (ds_id (H s)) (cq_pending q @ concat (map added_changes es))) (os b)))
    \<and> (\<exists>es' w''. concat (map added_changes es') = [] \<and> fold_res (queue_step slot step ops) es' w' = Inr w'' \<and> at_rest step w'')"
proof -
  have "seen f ss H os (cq_pending q) w" unfolding seen_def by (rule exI [of _ "[]"]) (use w in \<open>simp add: changes_for_def\<close>)
  then obtain w' where w': "fold_res (queue_step slot step ops) es w = Inr w'"
      "seen f ss H os (cq_pending q @ concat (map added_changes es)) w'"
    using queue_run_seen [OF total H] by blast
  have a': "announced w'" by (rule run_announced [OF a w'(1)])
  have "cq_pending (cw_queue w') = []
        \<and> (\<forall>s \<in> set ss. \<forall>b. ds_observer (H s) = Some b \<longrightarrow>
             cw_observers w' b = fold f (changes_for (ds_id (H s)) (cq_pending q @ concat (map added_changes es))) (os b))"
    if "at_rest step w'"
    using w'(2) rest_delivered [OF a' that] unfolding seen_def by auto
  then show ?thesis using w'(1) settles [OF total H w'(2) a'] by blast
qed

end

section \<open>The GUI's owner\<close>

text \<open>
  \<open>emitting\<close> counts the threads between the exchange of the flag and the emission, \<open>resultsEvents\<close> the queued events; slots of
  another thread's signals are called through Qt's event queue.
\<close>

datatype gui_thread = WaitingForEvent | HandlingEvent | ApplyingChanges

record change_integrator =
  eventScheduled :: bool
  emitting :: nat
  resultsEvents :: nat
  guiThread :: gui_thread

definition emitResultsAvailable :: "change_integrator \<Rightarrow> change_integrator" where
  "emitResultsAvailable c =
     (let eventAlreadyScheduled = eventScheduled c; c' = c\<lparr>eventScheduled := True\<rparr>
      in if \<not> eventAlreadyScheduled then c'\<lparr>emitting := Suc (emitting c')\<rparr> else c')"

text \<open>A thread emits; the GUI thread takes an event; \<open>handleAvailableResults\<close> clears the flag; then it applies the changes.\<close>

definition integrator_step :: "nat \<Rightarrow> change_integrator \<Rightarrow> (change_integrator \<times> bool) option" where
  "integrator_step k c =
     (if k = 0 \<and> 0 < emitting c then Some (c\<lparr>emitting := emitting c - 1, resultsEvents := Suc (resultsEvents c)\<rparr>, False)
      else if k = 1 \<and> guiThread c = WaitingForEvent \<and> 0 < resultsEvents c
      then Some (c\<lparr>resultsEvents := resultsEvents c - 1, guiThread := HandlingEvent\<rparr>, False)
      else if k = 2 \<and> guiThread c = HandlingEvent then Some (c\<lparr>eventScheduled := False, guiThread := ApplyingChanges\<rparr>, False)
      else if k = 3 \<and> guiThread c = ApplyingChanges then Some (c\<lparr>guiThread := WaitingForEvent\<rparr>, True)
      else None)"

text \<open>
  Constructed and about to handle results for the first time.  The flag has no initial value in the code, so \<open>b\<close> is any.
\<close>

definition mk_integrator :: "bool \<Rightarrow> change_integrator" where
  "mk_integrator b = \<lparr>eventScheduled = b, emitting = 0, resultsEvents = 0, guiThread = HandlingEvent\<rparr>"

definition event_coming :: "change_integrator \<Rightarrow> bool" where
  "event_coming c \<longleftrightarrow> 0 < emitting c \<or> 0 < resultsEvents c \<or> guiThread c = HandlingEvent"

definition integrator_ok :: "change_integrator \<Rightarrow> bool" where
  "integrator_ok c \<longleftrightarrow> (eventScheduled c \<longrightarrow> event_coming c)"

definition integrator_due :: "change_integrator \<Rightarrow> bool" where
  "integrator_due c \<longleftrightarrow> event_coming c \<or> guiThread c = ApplyingChanges"

definition integrator_work :: "change_integrator \<Rightarrow> nat" where
  "integrator_work c = 4 * emitting c + 3 * resultsEvents c
     + (case guiThread c of WaitingForEvent \<Rightarrow> 0 | HandlingEvent \<Rightarrow> 2 | ApplyingChanges \<Rightarrow> 1)"

lemmas integrator_defs = integrator_ok_def integrator_due_def event_coming_def integrator_work_def integrator_step_def emitResultsAvailable_def

interpretation integrator: change_owner integrator_ok integrator_due integrator_work emitResultsAvailable integrator_step
proof
  show "integrator_ok (emitResultsAvailable c) \<and> integrator_due (emitResultsAvailable c)
      \<and> integrator_work (emitResultsAvailable c) \<le> integrator_work c + 4" if "integrator_ok c" for c
    using that by (auto simp: integrator_defs Let_def)
  show "integrator_ok c' \<and> (applies \<or> \<not> integrator_due c \<or> integrator_due c') \<and> integrator_work c' < integrator_work c"
    if "integrator_ok c" "integrator_step k c = Some (c', applies)" for c k c' applies
    using that by (auto simp: integrator_defs split: if_splits)
  show "\<exists>k. integrator_step k c \<noteq> None" if "integrator_due c" for c
  proof (cases "guiThread c")
    case WaitingForEvent
    then have "integrator_step 0 c \<noteq> None \<or> integrator_step 1 c \<noteq> None" using that by (auto simp: integrator_defs)
    then show ?thesis by blast
  next
    case HandlingEvent
    then have "integrator_step 2 c \<noteq> None" by (simp add: integrator_step_def)
    then show ?thesis by blast
  next
    case ApplyingChanges
    then have "integrator_step 3 c \<noteq> None" by (simp add: integrator_step_def)
    then show ?thesis by blast
  qed
qed

text \<open>C32 The GUI loses no change.  Any number of threads add changes and signal them while the GUI thread handles
  its events, in any interleaving and whatever the uninitialised flag holds at first; no step fails.  Whenever nothing is left to
  be done, the observer of every stream has been told of exactly the changes of its stream, those pending at construction and those
  added since, in their order.  That point is always reached when no more changes are added.
\<close>

theorem gui_integrates_changes:
  assumes "\<And>c obs. notify ops c obs = Inr (f c obs)" and "streams_ok H (cq_streams q)"
  shows "\<exists>w'. fold_res (queue_step emitResultsAvailable integrator_step ops) es
        \<lparr>cw_queue = q, cw_store = H, cw_observers = os, cw_unsignalled = n, cw_owner = mk_integrator b\<rparr> = Inr w'
    \<and> (at_rest integrator_step w' \<longrightarrow> cq_pending (cw_queue w') = []
        \<and> (\<forall>s \<in> set (cq_streams q). \<forall>a. ds_observer (H s) = Some a \<longrightarrow>
             cw_observers w' a = fold f (changes_for (ds_id (H s)) (cq_pending q @ concat (map added_changes es))) (os a)))
    \<and> (\<exists>es' w''. concat (map added_changes es') = []
        \<and> fold_res (queue_step emitResultsAvailable integrator_step ops) es' w' = Inr w'' \<and> at_rest integrator_step w'')"
  by (rule integrator.delivers [OF assms])
    (simp_all add: integrator.announced_def mk_integrator_def integrator_ok_def integrator_due_def event_coming_def)

definition demo_stream :: data_stream where
  "demo_stream = (mk_data_stream ReservationStream [] JNull)\<lparr>ds_id := 7, ds_observer := Some 2\<rparr>"

theorem gui_integrates_changes_witness:
  "\<exists>w'. fold_res (queue_step emitResultsAvailable integrator_step log_ops)
        [AddStreamChange 7 Cleared, SlotCalled, OwnerStep 2, OwnerStep 3]
        \<lparr>cw_queue = \<lparr>cq_streams = [0], cq_pending = [(7, Initialized)], cq_signals = 1\<rparr>, cw_store = \<lambda>_. demo_stream,
          cw_observers = \<lambda>_. [], cw_unsignalled = 0, cw_owner = mk_integrator True\<rparr> = Inr w'
    \<and> (at_rest integrator_step w' \<longrightarrow> cw_observers w' 2 = [Initialized, Cleared])"
  using gui_integrates_changes [OF log_ops_total,
      of "\<lambda>_. demo_stream" "\<lparr>cq_streams = [0], cq_pending = [(7, Initialized)], cq_signals = 1\<rparr>"
         "[AddStreamChange 7 Cleared, SlotCalled, OwnerStep 2, OwnerStep 3]" "\<lambda>_. []" 0 True]
  by (fastforce simp: streams_ok_def demo_stream_def changes_for_def)

section \<open>The server's owner\<close>

text \<open>Each signal posts a job to the thread that runs the server's loop; the number of jobs posted and not run.\<close>

definition handleChanges :: "nat \<Rightarrow> nat" where
  "handleChanges jobs = Suc jobs"

definition server_step :: "nat \<Rightarrow> nat \<Rightarrow> (nat \<times> bool) option" where
  "server_step k jobs = (if k = 0 \<and> 0 < jobs then Some (jobs - 1, True) else None)"

interpretation server_loop: change_owner "\<lambda>_. True" "\<lambda>jobs. 0 < jobs" id handleChanges server_step
  by unfold_locales (auto simp: handleChanges_def server_step_def split: if_splits)

lemma server_integrates_changes:
  assumes "\<And>c obs. notify ops c obs = Inr (f c obs)" and "streams_ok H (cq_streams q)" and "cq_pending q = []"
  shows "\<exists>w'. fold_res (queue_step handleChanges server_step ops) es
        \<lparr>cw_queue = q, cw_store = H, cw_observers = os, cw_unsignalled = 0, cw_owner = 0\<rparr> = Inr w'
    \<and> (at_rest server_step w' \<longrightarrow> cq_pending (cw_queue w') = []
        \<and> (\<forall>s \<in> set (cq_streams q). \<forall>a. ds_observer (H s) = Some a \<longrightarrow>
             cw_observers w' a = fold f (changes_for (ds_id (H s)) (concat (map added_changes es))) (os a)))
    \<and> (\<exists>es' w''. concat (map added_changes es') = []
        \<and> fold_res (queue_step handleChanges server_step ops) es' w' = Inr w'' \<and> at_rest server_step w'')"
  by (rule server_loop.delivers [OF assms(1,2), where q = q, unfolded assms(3) append_Nil])
    (simp_all add: server_loop.announced_def assms(3))

end
