(* ===== verification/TestData.thy ===== *)
theory TestData
  imports Planning
begin

text \<open>
  The sample data of the GUI application (\<open>guiapp/testdata\<close>), the largest client of the hotels and the planning board:
  random hotels, and random reservations that change rooms where the first one is taken.  The random number engine is the parameter
  \<open>R\<close>.
\<close>

section \<open>Random numbers\<close>

text \<open>
  A distribution draws from the engine's state: an integer between two bounds, or a normally distributed number with a mean and
  a deviation, already converted to an integer.
\<close>

record 'r random_ops =
  uniform_int :: "int \<Rightarrow> int \<Rightarrow> 'r \<Rightarrow> int \<times> 'r"
  normal_int :: "int \<Rightarrow> int \<Rightarrow> 'r \<Rightarrow> int \<times> 'r"

definition random_ok :: "'r random_ops \<Rightarrow> bool" where
  "random_ok R \<longleftrightarrow> (\<forall>a b rng. a \<le> b \<longrightarrow> a \<le> fst (uniform_int R a b rng) \<and> fst (uniform_int R a b rng) \<le> b)"

definition irange :: "int \<Rightarrow> int list" where
  "irange n = map int [0..<nat n]"

section \<open>Hotels\<close>

definition sample_category :: "int \<Rightarrow> hotel \<Rightarrow> hotel res" where
  "sample_category c hotel =
     addRoomCategory (Some (mk_room_category (''cat'' @ to_string c) (''Category '' @ to_string c))) hotel"

definition sample_room :: "'r random_ops \<Rightarrow> int \<Rightarrow> int \<Rightarrow> int \<Rightarrow> int \<Rightarrow> 'r \<times> hotel \<Rightarrow> ('r \<times> hotel) res" where
  "sample_room R numOfCategories i f r s =
     (let (k, rng) = uniform_int R 0 (numOfCategories - 1) (fst s);
          category = ''cat'' @ to_string k;
          roomNumber = to_string i @ ''_'' @ to_string (100 * (1 + f) + r + 1)
      in bindr (addRoom (Some (mk_hotel_room roomNumber)) category (snd s)) (\<lambda>hotel. Inr (rng, hotel)))"

definition sample_floor :: "'r random_ops \<Rightarrow> int \<Rightarrow> int \<Rightarrow> int \<Rightarrow> 'r \<times> hotel \<Rightarrow> ('r \<times> hotel) res" where
  "sample_floor R numOfCategories i f s =
     (let (numOfRooms, rng) = uniform_int R 1 10 (fst s)
      in fold_res (sample_room R numOfCategories i f) (irange numOfRooms) (rng, snd s))"

definition sample_hotel :: "'r random_ops \<Rightarrow> int \<Rightarrow> 'r \<Rightarrow> ('r \<times> hotel) res" where
  "sample_hotel R i rng =
     (let hotel = mk_hotel (''Hotel '' @ to_string i);
          (numOfFloors, rng) = uniform_int R 1 3 rng;
          numOfCategories = numOfFloors div 3 + 1
      in bindr (fold_res sample_category (irange numOfCategories) hotel) (\<lambda>hotel.
           fold_res (sample_floor R numOfCategories i) (irange numOfFloors) (rng, hotel)))"

definition createTestHotels :: "'r random_ops \<Rightarrow> 'r \<Rightarrow> ('r \<times> hotel list) res" where
  "createTestHotels R rng =
     (let (numOfHotels, rng) = uniform_int R 2 2 rng
      in fold_res (\<lambda>i s. bindr (sample_hotel R i (fst s)) (\<lambda>(rng, hotel). Inr (rng, snd s @ [hotel])))
           (irange numOfHotels) (rng, []))"

section \<open>Reservations\<close>

text \<open>C++ rounds the division of a negative number towards zero.\<close>

definition snap_day :: "int \<Rightarrow> int" where
  "snap_day day = (if day < 0 then - ((- day) div 7) else day div 7) * 7"

definition snap_length :: "int \<Rightarrow> int" where
  "snap_length len = ((len + 6) div 7) * 7"

definition random_room :: "'r random_ops \<Rightarrow> hotel \<Rightarrow> 'r \<Rightarrow> (int \<times> 'r) res" where
  "random_room R hotel rng =
     (let (k, rng) = uniform_int R 0 (int (length (hotel_rooms hotel)) - 1) rng
      in if 0 \<le> k \<and> k < int (length (hotel_rooms hotel)) then Inr (obj_id (hotel_rooms hotel ! nat k), rng)
         else Inl UndefinedBehaviour)"

text \<open>At most \<open>attempts\<close> changes of room fill the days that are missing.\<close>

fun fill_days ::
    "('d::linorder, 'p) gregorian \<Rightarrow> 'r random_ops \<Rightarrow> hotel \<Rightarrow> 'p planning_board \<Rightarrow> nat
       \<Rightarrow> 'r \<Rightarrow> 'd \<Rightarrow> int \<Rightarrow> 'p reservation \<Rightarrow> ('r \<times> int \<times> 'p reservation) res" where
  "fill_days G R hotel planning 0 rng endDate additionalDays reservation = Inr (rng, additionalDays, reservation)"
| "fill_days G R hotel planning (Suc attempts) rng endDate additionalDays reservation =
     (let startDate = endDate
      in if additionalDays = 0 then Inr (rng, additionalDays, reservation)
         else bindr (random_room R hotel rng) (\<lambda>(roomId, rng).
           bindr (getAvailableDaysFrom G planning roomId startDate) (\<lambda>available.
             let availableDays = min additionalDays available
             in if availableDays \<noteq> 0
                then let endDate = add_days G startDate availableDays
                     in bindr (addContinuation G roomId endDate reservation) (\<lambda>reservation.
                          fill_days G R hotel planning attempts rng endDate (additionalDays - availableDays) reservation)
                else fill_days G R hotel planning attempts rng endDate additionalDays reservation)))"

text \<open>\<open>today\<close> is the value of \<open>day_clock::local_day()\<close>.\<close>

definition sample_status ::
    "('d::linorder, 'p) gregorian \<Rightarrow> 'r random_ops \<Rightarrow> 'd \<Rightarrow> 'p reservation \<Rightarrow> 'r \<Rightarrow> reservation_status \<times> 'r" where
  "sample_status G R today reservation rng =
     (if p_contains G (dateRange G reservation) today then (CheckedIn, rng)
      else if p_end G (dateRange G reservation) < add_days G today (-5) then (Archived, rng)
      else if p_end G (dateRange G reservation) \<le> today then (CheckedOut, rng)
      else let (percentage, rng) = uniform_int R 0 100 rng
           in if percentage < 90 then (Confirmed, rng) else (New, rng))"

text \<open>
  The first room and the first period: as asked for when the room is free, otherwise up to the first taken night.  \<open>None\<close> is a room
  without a free night to start with.
\<close>

definition first_stay ::
    "('d::linorder, 'p) gregorian \<Rightarrow> 'p planning_board \<Rightarrow> int \<Rightarrow> 'd \<Rightarrow> 'd \<Rightarrow> ('d \<times> int) option res" where
  "first_stay G planning roomId startDate endDate =
     bindr (isFree G planning roomId (mk_period G startDate endDate)) (\<lambda>free.
       if free then Inr (Some (endDate, 0))
       else bindr (getAvailableDaysFrom G planning roomId startDate) (\<lambda>availableDaysInRoom.
         if availableDaysInRoom = 0 then Inr None
         else Inr (Some (add_days G startDate availableDaysInRoom, days_between G endDate startDate - availableDaysInRoom))))"

text \<open>\<open>within\<close> is \<open>date_period::contains\<close> of a period.\<close>

definition add_random_reservation ::
    "('d::linorder, 'p) gregorian \<Rightarrow> ('p \<Rightarrow> 'p \<Rightarrow> bool) \<Rightarrow> 'd \<Rightarrow> 'r random_ops \<Rightarrow> hotel \<Rightarrow> 'p \<Rightarrow> int
       \<Rightarrow> 'r \<times> 'p planning_board \<Rightarrow> ('r \<times> 'p planning_board) res" where
  "add_random_reservation G within today R hotel period i s =
     (let days = days_between G (p_end G period) (p_begin G period);
          planning = snd s;
          (day, rng) = normal_int R (days div 4) (days div 2) (fst s);
          (len, rng) = uniform_int R 3 21 rng;
          (percentage, rng) = uniform_int R 0 100 rng;
          (day, len) = (if percentage < 70 then (snap_day day, snap_length len) else (day, len));
          startDate = add_days G (p_begin G period) day;
          endDate = add_days G startDate len
      in if \<not> within period (mk_period G startDate endDate) then Inr (rng, planning)
         else bindr (random_room R hotel rng) (\<lambda>(roomId, rng).
           bindr (first_stay G planning roomId startDate endDate) (\<lambda>stay.
             case stay of
               None \<Rightarrow> Inr (rng, planning)
             | Some (endDate, additionalDays) \<Rightarrow>
                 bindr (fill_days G R hotel planning 10 rng endDate additionalDays
                     (mk_reservation_atom (''Reservation '' @ to_string i) roomId (mk_period G startDate endDate)))
                   (\<lambda>(rng, additionalDays, reservation).
                     if additionalDays = 0
                     then let (status, rng) = sample_status G R today reservation rng
                          in bindr (addReservation G (Some (new_addr planning, reservation\<lparr>res_status := status\<rparr>)) planning)
                               (\<lambda>planning. Inr (rng, planning))
                     else Inr (rng, planning)))))"

definition addRandomReservations ::
    "('d::linorder, 'p) gregorian \<Rightarrow> ('p \<Rightarrow> 'p \<Rightarrow> bool) \<Rightarrow> 'd \<Rightarrow> 'r random_ops \<Rightarrow> hotel \<Rightarrow> int \<Rightarrow> 'p
       \<Rightarrow> 'r \<times> 'p planning_board \<Rightarrow> ('r \<times> 'p planning_board) res" where
  "addRandomReservations G within today R hotel count period s =
     fold_res (add_random_reservation G within today R hotel period) (irange count) s"

definition createTestPlanning ::
    "('d::linorder, 'p) gregorian \<Rightarrow> ('p \<Rightarrow> 'p \<Rightarrow> bool) \<Rightarrow> 'd \<Rightarrow> 'r random_ops \<Rightarrow> 'r \<Rightarrow> hotel list
       \<Rightarrow> ('r \<times> 'p planning_board) res" where
  "createTestPlanning G within today R rng hotels =
     (let periodFrom = add_days G today (-14);
          periodTo = add_days G today 600;
          period = mk_period G periodFrom periodTo
      in fold_res (\<lambda>hotel. addRandomReservations G within today R hotel (20 * int (length (hotel_rooms hotel))) period)
           hotels (rng, empty_board))"

section \<open>The hotels are well formed\<close>

fun digits_value :: "nat \<Rightarrow> string \<Rightarrow> nat" where
  "digits_value a [] = a"
| "digits_value a (c # cs) = digits_value (10 * a + (of_char c - 48)) cs"

lemma digits_value_append: "digits_value a (xs @ ys) = digits_value (digits_value a xs) ys"
  by (induction xs arbitrary: a) auto

lemma digits_value_digits: "digits_value 0 (digits n) = n"
proof (induction n rule: digits.induct)
  case (1 n)
  have c: "of_char (char_of (48 + k) :: char) - 48 = k" if "k < 10" for k :: nat using that by (simp add: take_bit_eq_mod)
  show ?case
  proof (cases "n < 10")
    case True
    then show ?thesis using c [of n] by (simp add: digits.simps [of n])
  next
    case False
    then show ?thesis using 1 c [of "n mod 10"] by (simp add: digits.simps [of n] digits_value_append)
  qed
qed

lemma digits_inj: "digits m = digits n \<longleftrightarrow> m = n"
  by (metis digits_value_digits)

lemma to_string_inj: "0 \<le> m \<Longrightarrow> 0 \<le> n \<Longrightarrow> to_string m = to_string n \<longleftrightarrow> m = n"
  by (simp add: to_string_def digits_inj eq_nat_nat_iff)

lemma set_irange: "set (irange n) = {0..<n}"
proof -
  have "int ` {0..<nat n} = {0..<n}" by (simp add: image_int_atLeastLessThan)
  then show ?thesis by (simp add: irange_def)
qed

lemma sample_categories:
  "\<exists>k. fold_res sample_category (irange n) (mk_hotel t) = Inr k
     \<and> map cat_shortCode (hotel_categories k) = map (\<lambda>c. ''cat'' @ to_string c) (irange n) \<and> hotel_rooms k = []"
proof -
  have "\<exists>k. fold_res sample_category (map int [0..<m]) (mk_hotel t) = Inr k
     \<and> map cat_shortCode (hotel_categories k) = map (\<lambda>c. ''cat'' @ to_string c) (map int [0..<m]) \<and> hotel_rooms k = []" for m
  proof (induction m)
    case 0
    then show ?case by (simp add: mk_hotel_def)
  next
    case (Suc m)
    then obtain k where k: "fold_res sample_category (map int [0..<m]) (mk_hotel t) = Inr k"
        "map cat_shortCode (hotel_categories k) = map (\<lambda>c. ''cat'' @ to_string c) (map int [0..<m])" "hotel_rooms k = []" by blast
    have "cat_shortCode ` set (hotel_categories k) = set (map (\<lambda>c. ''cat'' @ to_string c) (map int [0..<m]))"
      unfolding k(2) [symmetric] by simp
    then have "cat_shortCode ` set (hotel_categories k) = (\<lambda>c. ''cat'' @ to_string c) ` int ` {0..<m}" by (simp add: image_image)
    then have "getCategoryByShortCode (''cat'' @ to_string (int m)) k = None"
      unfolding getCategoryByShortCode_None by (auto simp: to_string_inj)
    then have "sample_category (int m) k = Inr (k\<lparr>hotel_categories := hotel_categories k
        @ [mk_room_category (''cat'' @ to_string (int m)) (''Category '' @ to_string (int m))]\<rparr>)"
      by (simp add: sample_category_def addRoomCategory_def mk_room_category_def)
    then show ?case using k by (simp add: fold_res_append mk_room_category_def)
  qed
  then show ?thesis by (simp add: irange_def)
qed

text \<open>A hotel under construction: the categories are there, and the rooms have the numbers \<open>ns\<close>, below \<open>bound\<close>.\<close>

definition built :: "int \<Rightarrow> int \<Rightarrow> int \<Rightarrow> hotel \<Rightarrow> bool" where
  "built i numOfCategories bound h \<longleftrightarrow> hotel_ok h
     \<and> map cat_shortCode (hotel_categories h) = map (\<lambda>c. ''cat'' @ to_string c) (irange numOfCategories)
     \<and> (\<exists>ns. map room_name (hotel_rooms h) = map (\<lambda>n. to_string i @ ''_'' @ to_string n) ns
           \<and> distinct ns \<and> (\<forall>n \<in> set ns. 0 \<le> n \<and> n < bound))"

lemma built_mono: "built i c a h \<Longrightarrow> a \<le> b \<Longrightarrow> built i c b h"
  unfolding built_def by (meson order_less_le_trans)

lemma built_room:
  assumes R: "random_ok R" and c: "0 < c" and n: "0 \<le> f" "0 \<le> r" and h: "built i c (100 * (1 + f) + r + 1) h"
  shows "\<exists>rng' h'. sample_room R c i f r (rng, h) = Inr (rng', h') \<and> built i c (100 * (1 + f) + r + 2) h'
    \<and> length (hotel_rooms h') = Suc (length (hotel_rooms h))"
proof -
  obtain k rng' where k: "uniform_int R 0 (c - 1) rng = (k, rng')" by fastforce
  then have kc: "0 \<le> k" "k < c" using R c unfolding random_ok_def by (metis fst_conv zle_diff1_eq diff_ge_0_iff_ge int_one_le_iff_zero_less)+
  let ?n = "100 * (1 + f) + r + 1"
  let ?room = "mk_hotel_room (to_string i @ ''_'' @ to_string ?n)"
  obtain ns where ns: "map room_name (hotel_rooms h) = map (\<lambda>n. to_string i @ ''_'' @ to_string n) ns" "distinct ns"
      "\<And>n. n \<in> set ns \<Longrightarrow> 0 \<le> n \<and> n < ?n"
    using h unfolding built_def by auto
  have codes: "map cat_shortCode (hotel_categories h) = map (\<lambda>c. ''cat'' @ to_string c) (irange c)" and ok: "hotel_ok h"
    using h by (simp_all add: built_def)
  have "''cat'' @ to_string k \<in> set (map (\<lambda>c. ''cat'' @ to_string c) (irange c))" using kc by (simp add: set_irange)
  then have "''cat'' @ to_string k \<in> cat_shortCode ` set (hotel_categories h)" unfolding codes [symmetric] by simp
  then obtain j where j: "getCategoryByShortCode (''cat'' @ to_string k) h = Some j"
    by (metis getCategoryByShortCode_None not_Some_eq)
  let ?h = "h\<lparr>hotel_rooms := hotel_rooms h @ [?room\<lparr>room_category := Some j\<rparr>]\<rparr>"
  have add: "addRoom (Some ?room) (''cat'' @ to_string k) h = Inr ?h" using j by (simp add: addRoom_def)
  have "distinct (ns @ [?n])" using ns(2,3) by auto
  moreover have "map room_name (hotel_rooms ?h) = map (\<lambda>n. to_string i @ ''_'' @ to_string n) (ns @ [?n])"
    using ns(1) by (simp add: mk_hotel_room_def)
  moreover have "\<forall>m \<in> set (ns @ [?n]). 0 \<le> m \<and> m < ?n + 1" using ns(3) n by fastforce
  ultimately have "\<exists>ns. map room_name (hotel_rooms ?h) = map (\<lambda>n. to_string i @ ''_'' @ to_string n) ns
           \<and> distinct ns \<and> (\<forall>n \<in> set ns. 0 \<le> n \<and> n < ?n + 1)" by blast
  then have "built i c (?n + 1) ?h"
    using addRoom_ok [OF ok add] codes by (simp add: built_def)
  then show ?thesis using add k by (simp add: sample_room_def)
qed

lemma built_rooms:
  assumes R: "random_ok R" and c: "0 < c" and f: "0 \<le> f" and h: "built i c (100 * (1 + f) + 1) h"
  shows "\<exists>rng' h'. fold_res (sample_room R c i f) (map int [0..<m]) (rng, h) = Inr (rng', h') \<and> built i c (100 * (1 + f) + int m + 1) h'
    \<and> length (hotel_rooms h') = m + length (hotel_rooms h)"
proof (induction m)
  case 0
  then show ?case using h by simp
next
  case (Suc m)
  then obtain rng1 h1 where 1: "fold_res (sample_room R c i f) (map int [0..<m]) (rng, h) = Inr (rng1, h1)"
      "built i c (100 * (1 + f) + int m + 1) h1" "length (hotel_rooms h1) = m + length (hotel_rooms h)" by blast
  have eq: "100 * (1 + f) + int m + 2 = 100 * (1 + f) + int (Suc m) + 1" by simp
  show ?case using 1 built_room [OF R c f _ 1(2), of rng1] unfolding eq by (force simp: fold_res_append)
qed

lemma built_floors:
  assumes R: "random_ok R" and c: "0 < c" and h: "built i c 101 h"
  shows "\<exists>rng' h'. fold_res (sample_floor R c i) (map int [0..<m]) (rng, h) = Inr (rng', h') \<and> built i c (100 * (1 + int m) + 1) h'
    \<and> m + length (hotel_rooms h) \<le> length (hotel_rooms h')"
proof (induction m)
  case 0
  then show ?case using h by simp
next
  case (Suc m)
  then obtain rng1 h1 where 1: "fold_res (sample_floor R c i) (map int [0..<m]) (rng, h) = Inr (rng1, h1)"
      "built i c (100 * (1 + int m) + 1) h1" "m + length (hotel_rooms h) \<le> length (hotel_rooms h1)" by blast
  obtain n rng2 where n: "uniform_int R 1 10 rng1 = (n, rng2)" by fastforce
  then have n10: "1 \<le> n" "n \<le> 10" using R unfolding random_ok_def by (metis fst_conv one_le_numeral)+
  obtain rng3 h3 where 3: "fold_res (sample_room R c i (int m)) (map int [0..<nat n]) (rng2, h1) = Inr (rng3, h3)"
      "built i c (100 * (1 + int m) + int (nat n) + 1) h3" "length (hotel_rooms h3) = nat n + length (hotel_rooms h1)"
    using built_rooms [OF R c _ 1(2), where rng = rng2 and m = "nat n"] by auto
  have "built i c (100 * (1 + int (Suc m)) + 1) h3" by (rule built_mono [OF 3(2)]) (use n10 in simp)
  moreover have "Suc m + length (hotel_rooms h) \<le> length (hotel_rooms h3)" using 3(3) 1(3) n10 by linarith
  moreover have "sample_floor R c i (int m) (rng1, h1) = Inr (rng3, h3)" using 3(1) n by (simp add: sample_floor_def irange_def)
  then have "fold_res (sample_floor R c i) (map int [0..<Suc m]) (rng, h) = Inr (rng3, h3)" using 1(1) by (simp add: fold_res_append)
  ultimately show ?case by blast
qed

lemma sample_hotel_ok:
  assumes R: "random_ok R"
  shows "\<exists>rng' h. sample_hotel R i rng = Inr (rng', h) \<and> hotel_ok h \<and> hotel_rooms h \<noteq> [] \<and> distinct (map room_name (hotel_rooms h))"
proof -
  obtain n rng1 where n: "uniform_int R 1 3 rng = (n, rng1)" by fastforce
  then have n3: "1 \<le> n" "n \<le> 3" using R unfolding random_ok_def by (metis fst_conv one_le_numeral)+
  let ?c = "n div 3 + 1"
  have c: "0 < ?c" using n3 by (simp add: add_nonneg_pos pos_imp_zdiv_nonneg_iff)
  obtain k where k: "fold_res sample_category (irange ?c) (mk_hotel (''Hotel '' @ to_string i)) = Inr k"
      "map cat_shortCode (hotel_categories k) = map (\<lambda>c. ''cat'' @ to_string c) (irange ?c)" "hotel_rooms k = []"
    using sample_categories by blast
  have "distinct (map (\<lambda>c. ''cat'' @ to_string c) (irange ?c))"
    by (auto simp: distinct_map irange_def inj_on_def to_string_inj)
  then have "built i ?c 101 k" using k(2,3) unfolding built_def hotel_ok_def by simp
  then obtain rng2 h where h: "fold_res (sample_floor R ?c i) (irange n) (rng1, k) = Inr (rng2, h)" "built i ?c (100 * (1 + int (nat n)) + 1) h"
      "nat n + length (hotel_rooms k) \<le> length (hotel_rooms h)"
    using built_floors [OF R c, of i k "nat n" rng1] unfolding irange_def by blast
  have "hotel_rooms h \<noteq> []" using h(3) n3 by (cases "hotel_rooms h") auto
  moreover have "distinct (map room_name (hotel_rooms h))"
  proof -
    obtain ns where ns: "map room_name (hotel_rooms h) = map (\<lambda>n. to_string i @ ''_'' @ to_string n) ns" "distinct ns" "\<forall>n \<in> set ns. 0 \<le> n"
      using h(2) unfolding built_def by blast
    show ?thesis unfolding ns(1) using ns(2,3) by (auto simp: distinct_map inj_on_def to_string_inj)
  qed
  ultimately show ?thesis using n k(1) h(1,2) by (simp add: sample_hotel_def built_def)
qed

text \<open>C22 Whatever the random numbers are, within the bounds of their distributions, the sample hotels are built without an exception: two
  hotels whose short codes are distinct and whose rooms point to their categories, with at least one room and no two rooms
  of the same name.
\<close>

theorem createTestHotels_well_formed:
  assumes "random_ok R"
  shows "\<exists>rng' hotels. createTestHotels R rng = Inr (rng', hotels) \<and> length hotels = 2
    \<and> (\<forall>h \<in> set hotels. hotel_ok h \<and> hotel_rooms h \<noteq> [] \<and> distinct (map room_name (hotel_rooms h)))"
proof -
  obtain n rng1 where n: "uniform_int R 2 2 rng = (n, rng1)" by fastforce
  have "n = 2" using n assms unfolding random_ok_def by (metis fst_conv order_antisym order_refl)
  obtain rng2 h0 where 0: "sample_hotel R 0 rng1 = Inr (rng2, h0)" "hotel_ok h0" "hotel_rooms h0 \<noteq> []" "distinct (map room_name (hotel_rooms h0))"
    using sample_hotel_ok [OF assms] by blast
  obtain rng3 h1 where 1: "sample_hotel R 1 rng2 = Inr (rng3, h1)" "hotel_ok h1" "hotel_rooms h1 \<noteq> []" "distinct (map room_name (hotel_rooms h1))"
    using sample_hotel_ok [OF assms] by blast
  have "createTestHotels R rng = Inr (rng3, [h0, h1])"
    using n 0(1) 1(1) by (simp add: createTestHotels_def irange_def \<open>n = 2\<close> numeral_2_eq_2)
  then show ?thesis using 0 1 by simp
qed

text \<open>An engine that always draws the lower bound.\<close>

definition lowest :: "unit random_ops" where
  "lowest = \<lparr>uniform_int = (\<lambda>a b rng. (a, rng)), normal_int = (\<lambda>m d rng. (m, rng))\<rparr>"

lemma lowest_ok: "random_ok lowest"
  by (simp add: lowest_def random_ok_def)

theorem createTestHotels_well_formed_witness:
  "\<exists>rng' hotels. createTestHotels lowest () = Inr (rng', hotels) \<and> length hotels = 2"
  using createTestHotels_well_formed [OF lowest_ok] by blast

section \<open>The reservations fit\<close>

text \<open>
  What the dates have to promise: a period contains only periods with ordinary dates between its ends, and a date between ordinary dates is
  ordinary.
\<close>

definition sample_dates :: "('d::linorder, 'p) gregorian \<Rightarrow> ('p \<Rightarrow> 'p \<Rightarrow> bool) \<Rightarrow> bool" where
  "sample_dates G within \<longleftrightarrow> gregorian_ok G
     \<and> (\<forall>p a b. period_ok G p \<longrightarrow> within p (mk_period G a b) \<longrightarrow>
           \<not> is_special G a \<and> \<not> is_special G b \<and> p_begin G p \<le> a \<and> b \<le> p_end G p)
     \<and> (\<forall>a b n. \<not> is_special G a \<longrightarrow> \<not> is_special G b \<longrightarrow> 0 \<le> n \<longrightarrow> n \<le> days_between G b a \<longrightarrow> \<not> is_special G (add_days G a n))"

lemma sample_dates_add:
  assumes "sample_dates G within" and "\<not> is_special G a" "\<not> is_special G b" and "0 < n" "n \<le> days_between G b a"
  shows "\<not> is_special G (add_days G a n)" "a < add_days G a n" "days_between G (add_days G a n) a = n"
    "days_between G b (add_days G a n) = days_between G b a - n" "add_days G a n \<le> b"
proof -
  have G: "gregorian_ok G" using assms(1) by (simp add: sample_dates_def)
  have "\<forall>a b n. \<not> is_special G a \<longrightarrow> \<not> is_special G b \<longrightarrow> 0 \<le> n \<longrightarrow> n \<le> days_between G b a \<longrightarrow> \<not> is_special G (add_days G a n)"
    using assms(1) unfolding sample_dates_def by blast
  then show e: "\<not> is_special G (add_days G a n)" using assms(2-5) by simp
  show d: "days_between G (add_days G a n) a = n" by (rule g_days_of_add [OF G assms(2) e])
  show "a < add_days G a n" using g_days_pos [OF G e assms(2)] d assms(4) by simp
  show b: "days_between G b (add_days G a n) = days_between G b a - n" using g_days_add [OF G assms(3) e assms(2)] d by simp
  show "add_days G a n \<le> b" using g_days_pos [OF G e assms(3)] g_days_add [OF G e assms(3) e] g_days_self [OF G e] b assms(5)
    by (simp add: not_less [symmetric])
qed

text \<open>The nights of a room from a date on that are free by \<open>getAvailableDaysFrom\<close>.\<close>

lemma available_free:
  assumes G: "sample_dates G within" and b: "board_ok G b" and d: "\<not> is_special G start" "\<not> is_special G until"
    and n: "0 < n" "n \<le> days_between G until start" "n \<le> m"
    and free: "\<And>e. \<not> is_special G e \<Longrightarrow> start \<le> e \<Longrightarrow> days_between G e start < m \<Longrightarrow> (room, e) \<notin> board_nights G b"
  shows "period_ok G (mk_period G start (add_days G start n))"
    and "board_nights G b \<inter> {room} \<times> period_days G (mk_period G start (add_days G start n)) = {}"
proof -
  have g: "gregorian_ok G" using G by (simp add: sample_dates_def)
  note a = sample_dates_add [OF G d n(1,2)]
  show "period_ok G (mk_period G start (add_days G start n))" by (rule period_ok_mk [OF g d(1) a(1,2)])
  have "days_between G e start < m" if "\<not> is_special G e" "e < add_days G start n" for e
    using g_days_pos [OF g a(1) that(1)] g_days_add [OF g a(1) that(1) d(1)] that(2) a(3) n(3) by simp
  then show "board_nights G b \<inter> {room} \<times> period_days G (mk_period G start (add_days G start n)) = {}"
    using free by (auto simp: period_days_def g_begin [OF g] g_end [OF g d(1) a(1)])
qed

text \<open>A reservation in the making: valid, on free nights, and up to \<open>until\<close> lack \<open>additional\<close> days.\<close>

definition fits :: "('d::linorder, 'p) gregorian \<Rightarrow> 'p planning_board \<Rightarrow> 'd \<Rightarrow> 'd \<Rightarrow> 'd \<Rightarrow> int \<Rightarrow> 'p reservation \<Rightarrow> bool" where
  "fits G b start until endDate additional r \<longleftrightarrow> reservation_ok G r \<and> board_nights G b \<inter> nights G r = {}
     \<and> p_begin G (dateRange G r) = start \<and> p_end G (dateRange G r) = endDate
     \<and> \<not> is_special G endDate \<and> 0 \<le> additional \<and> days_between G until endDate = additional"

lemma random_room_ok:
  assumes "random_ok R" and "hotel_rooms h \<noteq> []"
  shows "\<exists>i rng'. random_room R h rng = Inr (i, rng')"
proof -
  obtain k rng' where k: "uniform_int R 0 (int (length (hotel_rooms h)) - 1) rng = (k, rng')" by fastforce
  have "0 \<le> int (length (hotel_rooms h)) - 1" using assms(2) by (cases "hotel_rooms h") auto
  then have "0 \<le> k \<and> k \<le> int (length (hotel_rooms h)) - 1" using assms(1) k unfolding random_ok_def by (metis fst_conv)
  then show ?thesis using k by (simp add: random_room_def)
qed

lemma fill_days_ok:
  assumes G: "sample_dates G within" and R: "random_ok R" and b: "board_ok G b" and h: "hotel_rooms h \<noteq> []" and l: "\<not> is_special G until"
  shows "fits G b start until endDate additional r \<Longrightarrow>
    \<exists>rng' e' a' r'. fill_days G R h b attempts rng endDate additional r = Inr (rng', a', r') \<and> fits G b start until e' a' r'"
proof (induction attempts arbitrary: rng endDate additional r)
  case 0
  then show ?case by auto
next
  case (Suc n)
  have g: "gregorian_ok G" using G by (simp add: sample_dates_def)
  note f = Suc.prems [unfolded fits_def]
  show ?case
  proof (cases "additional = 0")
    case True
    then show ?thesis using Suc.prems by auto
  next
    case False
    obtain i rng1 where i: "random_room R h rng = Inr (i, rng1)" using random_room_ok [OF R h] by blast
    obtain m where m: "getAvailableDaysFrom G b i endDate = Inr m" "0 \<le> m"
        "\<And>e. \<not> is_special G e \<Longrightarrow> endDate \<le> e \<Longrightarrow> days_between G e endDate < m \<Longrightarrow> (i, e) \<notin> board_nights G b"
      using getAvailableDaysFrom_ok [OF g b, of endDate i] f by blast
    let ?k = "min additional m"
    show ?thesis
    proof (cases "?k = 0")
      case True
      then show ?thesis using False i m(1) Suc.IH [OF Suc.prems, of rng1] by simp
    next
      case k: False
      have kp: "0 < ?k" "?k \<le> days_between G until endDate" "?k \<le> m" using k False f m(2) by auto
      have e: "\<not> is_special G endDate" using f by blast
      note a = sample_dates_add [OF G e l kp(1,2)] and free = available_free [OF G b e l kp m(3)]
      have ok: "reservation_ok G r" "p_end G (dateRange G r) = endDate" using f by blast+
      obtain r' where r': "addContinuation G i (add_days G endDate ?k) r = Inr r'" "reservation_ok G r'"
          "p_begin G (dateRange G r') = start" "p_end G (dateRange G r') = add_days G endDate ?k"
        using addContinuation_extends [OF g ok(1) a(1)] a(2) ok(2) f by metis
      have ends: "p_end G (atom_range (last (res_atoms r))) = endDate" using dateRange_ok(4) [OF g ok(1)] ok(2) by simp
      have "res_atoms r' = res_atoms r @ [mk_atom i (mk_period G endDate (add_days G endDate ?k))]"
        using r'(1) ok(1) ends by (auto simp: addContinuation_def lastAtom_eq reservation_ok_def split: if_splits)
      then have "nights G r' = nights G r \<union> {i} \<times> period_days G (mk_period G endDate (add_days G endDate ?k))"
        by (auto simp: atoms_nights_def mk_atom_def)
      then have "fits G b start until (add_days G endDate ?k) (additional - ?k) r'"
        using f r'(2,3,4) a(1,4) free(2) unfolding fits_def by (simp add: Int_Un_distrib)
      then show ?thesis using Suc.IH [of "add_days G endDate ?k" "additional - ?k" r' rng1] False k i m(1) r'(1)
        by (simp add: Let_def del: min_less_iff_conj min.bounded_iff)
    qed
  qed
qed

lemma fits_first:
  assumes "gregorian_ok G" and "period_ok G (mk_period G start e)" and "\<not> is_special G start" "\<not> is_special G e"
    and "board_nights G b \<inter> {room} \<times> period_days G (mk_period G start e) = {}" and "0 \<le> a" and "days_between G until e = a"
  shows "fits G b start until e a (mk_reservation_atom t room (mk_period G start e))"
proof -
  let ?r = "mk_reservation_atom t room (mk_period G start e)"
  have r: "reservation_ok G ?r" using assms(2) by (simp add: reservation_ok_def mk_reservation_atom_def mk_atom_def)
  have "p_begin G (dateRange G ?r) = start" "p_end G (dateRange G ?r) = e"
    using dateRange_ok(3,4) [OF assms(1) r] g_begin [OF assms(1)] g_end [OF assms(1,3,4)]
    by (simp_all add: mk_reservation_atom_def mk_atom_def)
  moreover have "nights G ?r = {room} \<times> period_days G (mk_period G start e)"
    by (simp add: mk_reservation_atom_def mk_atom_def)
  ultimately show ?thesis using assms(4-7) r by (simp add: fits_def)
qed

lemma first_stay_ok:
  assumes G: "sample_dates G within" and b: "board_ok G b"
    and s: "\<not> is_special G start" and u: "\<not> is_special G until" and len: "start < until"
  shows "first_stay G b room start until = Inr None
    \<or> (\<exists>e a. first_stay G b room start until = Inr (Some (e, a)) \<and> fits G b start until e a (mk_reservation_atom t room (mk_period G start e)))"
proof -
  have g: "gregorian_ok G" using G by (simp add: sample_dates_def)
  have p: "period_ok G (mk_period G start until)" by (rule period_ok_mk [OF g s u len])
  note free = isFree_ok [OF g b p, of room]
  show ?thesis
  proof (cases "board_nights G b \<inter> {room} \<times> period_days G (mk_period G start until) = {}")
    case True
    then have "fits G b start until until 0 (mk_reservation_atom t room (mk_period G start until))"
      by (intro fits_first [OF g p s u]) (simp_all add: g_days_self [OF g u])
    then show ?thesis using True free by (simp add: first_stay_def)
  next
    case False
    obtain m where m: "getAvailableDaysFrom G b room start = Inr m" "0 \<le> m"
        "\<And>e. \<not> is_special G e \<Longrightarrow> start \<le> e \<Longrightarrow> days_between G e start < m \<Longrightarrow> (room, e) \<notin> board_nights G b"
      using getAvailableDaysFrom_ok [OF g b s] by blast
    obtain d where d: "(room, d) \<in> board_nights G b" "\<not> is_special G d" "start \<le> d" "d < until"
      using False by (auto simp: period_days_def g_begin [OF g] g_end [OF g s u])
    have "m \<le> days_between G d start" using m(3) [OF d(2,3)] d(1) by linarith
    also have "days_between G d start < days_between G until start"
      using g_days_add [OF g u d(2) s] g_days_pos [OF g u d(2)] d(4) by simp
    finally have less: "m < days_between G until start" .
    show ?thesis
    proof (cases "m = 0")
      case True
      then show ?thesis using False free m(1) by (simp add: first_stay_def)
    next
      case pos: False
      have k: "0 < m" "m \<le> days_between G until start" "m \<le> m" using pos m(2) less by simp_all
      note a = sample_dates_add [OF G s u k(1,2)] and f = available_free [OF G b s u k m(3)]
      have "fits G b start until (add_days G start m) (days_between G until start - m) (mk_reservation_atom t room (mk_period G start (add_days G start m)))"
        by (rule fits_first [OF g f(1) s a(1) f(2)]) (use less a(4) in simp_all)
      then show ?thesis using False free m(1) pos by (simp add: first_stay_def)
    qed
  qed
qed

text \<open>A board of samples: all reservations lie in the period and last three to twenty-one nights.\<close>

definition sample_board :: "('d::linorder, 'p) gregorian \<Rightarrow> 'p \<Rightarrow> 'p planning_board \<Rightarrow> bool" where
  "sample_board G period b \<longleftrightarrow> board_ok G b \<and> (\<forall>e \<in> set (pb_reservations b).
     p_begin G period \<le> p_begin G (dateRange G (snd e)) \<and> p_end G (dateRange G (snd e)) \<le> p_end G period
     \<and> 3 \<le> reservation_length G (snd e) \<and> reservation_length G (snd e) \<le> 21)"

lemma snap_length_bounds: "3 \<le> n \<Longrightarrow> n \<le> 21 \<Longrightarrow> 3 \<le> snap_length n \<and> snap_length n \<le> 21"
  unfolding snap_length_def by presburger

lemma add_fitting:
  assumes G: "gregorian_ok G" and b: "sample_board G period b" and f: "fits G b start until until 0 r" and s: "\<not> is_special G start"
    and p: "p_begin G period \<le> start" "until \<le> p_end G period" "3 \<le> days_between G until start" "days_between G until start \<le> 21"
  shows "\<exists>b'. addReservation G (Some (new_addr b, r\<lparr>res_status := st\<rparr>)) b = Inr b' \<and> sample_board G period b'"
proof -
  let ?r = "r\<lparr>res_status := st\<rparr>"
  have r: "reservation_ok G ?r" "board_nights G b \<inter> nights G ?r = {}" using f by (simp_all add: fits_def reservation_ok_def)
  have d: "dateRange G ?r = dateRange G r" by (simp add: dateRange_def isValid_def)
  have "reservation_length G ?r = days_between G until start"
    using f r(1) dateRange_ok(3,4) [OF G r(1)] d
    by (simp add: fits_def reservation_length_def lastAtom_eq firstAtom_eq reservation_ok_def)
  moreover have "p_begin G (dateRange G ?r) = start" "p_end G (dateRange G ?r) = until" using f d by (simp_all add: fits_def)
  moreover have "atoms_regular G ?r" using r(1) chain_period_ok [of G "res_atoms ?r"]
    by (auto simp: atoms_regular_def reservation_ok_def list_all_iff intro: period_ok_regular)
  ultimately show ?thesis
    using addReservation_outcome_lemma [OF G, of b "(new_addr b, ?r)"] b r p new_addr_fresh [of b]
    by (auto simp: sample_board_def)
qed

lemma add_random_reservation_ok:
  assumes G: "sample_dates G within" and R: "random_ok R" and h: "hotel_rooms h \<noteq> []" and P: "period_ok G period"
    and b: "sample_board G period b"
  shows "\<exists>rng' b'. add_random_reservation G within today R h period i (rng, b) = Inr (rng', b') \<and> sample_board G period b'"
proof -
  have g: "gregorian_ok G" using G by (simp add: sample_dates_def)
  have bo: "board_ok G b" using b by (simp add: sample_board_def)
  let ?days = "days_between G (p_end G period) (p_begin G period)"
  obtain day0 rng1 where 1: "normal_int R (?days div 4) (?days div 2) rng = (day0, rng1)" by fastforce
  obtain len0 rng2 where 2: "uniform_int R 3 21 rng1 = (len0, rng2)" by fastforce
  obtain pc rng3 where 3: "uniform_int R 0 100 rng2 = (pc, rng3)" by fastforce
  obtain day n where dn: "(if pc < 70 then (snap_day day0, snap_length len0) else (day0, len0)) = (day, n)" by fastforce
  have len0: "3 \<le> len0" "len0 \<le> 21" using R 2 unfolding random_ok_def by (metis fst_conv numeral_le_iff semiring_norm(68,69,71,73))+
  then have n: "3 \<le> n" "n \<le> 21" using snap_length_bounds [OF len0] dn by (auto split: if_splits)
  let ?start = "add_days G (p_begin G period) day"
  let ?until = "add_days G ?start n"
  note steps = add_random_reservation_def Let_def 1 2 3 dn
  show ?thesis
  proof (cases "within period (mk_period G ?start ?until)")
    case False
    then show ?thesis using b by (simp add: steps)
  next
    case True
    have s: "\<not> is_special G ?start" "\<not> is_special G ?until" "p_begin G period \<le> ?start" "?until \<le> p_end G period"
      using G P True unfolding sample_dates_def by blast+
    have d: "days_between G ?until ?start = n" by (rule g_days_of_add [OF g s(1,2)])
    have lt: "?start < ?until" using g_days_pos [OF g s(2,1)] d n by simp
    obtain room rng4 where 4: "random_room R h rng3 = Inr (room, rng4)" using random_room_ok [OF R h] by blast
    show ?thesis
    proof (cases "first_stay G b room ?start ?until = Inr None")
      case True
      then show ?thesis using \<open>within _ _\<close> 4 b by (simp add: steps)
    next
      case False
      then obtain e a where e: "first_stay G b room ?start ?until = Inr (Some (e, a))"
          "fits G b ?start ?until e a (mk_reservation_atom (''Reservation '' @ to_string i) room (mk_period G ?start e))"
        using first_stay_ok [OF G bo s(1,2) lt] by blast
      obtain rng5 e' a' r where r: "fill_days G R h b 10 rng4 e a
            (mk_reservation_atom (''Reservation '' @ to_string i) room (mk_period G ?start e)) = Inr (rng5, a', r)"
          "fits G b ?start ?until e' a' r"
        using fill_days_ok [OF G R bo h s(2) e(2), where rng = rng4 and attempts = 10] by blast
      obtain st rng6 where st: "sample_status G R today r rng5 = (st, rng6)" by fastforce
      show ?thesis
      proof (cases "a' = 0")
        case True
        have "e' = ?until" using r(2) True g_add_days_between [OF g] g_days_self [OF g] s(2) unfolding fits_def by metis
        then obtain b' where "addReservation G (Some (new_addr b, r\<lparr>res_status := st\<rparr>)) b = Inr b'" "sample_board G period b'"
          using add_fitting [OF g b, of ?start ?until r st] r(2) True s d n by auto
        then show ?thesis using \<open>within _ _\<close> 4 e(1) r(1) st True by (simp add: steps)
      next
        case False
        then show ?thesis using \<open>within _ _\<close> 4 e(1) r(1) b by (simp add: steps)
      qed
    qed
  qed
qed

lemma addRandomReservations_ok:
  assumes "sample_dates G within" and "random_ok R" and "hotel_rooms h \<noteq> []" and "period_ok G period" and "sample_board G period b"
  shows "\<exists>rng' b'. addRandomReservations G within today R h count period (rng, b) = Inr (rng', b') \<and> sample_board G period b'"
proof -
  have "\<exists>rng' b'. fold_res (add_random_reservation G within today R h period) is (rng, b) = Inr (rng', b') \<and> sample_board G period b'" for "is"
    using assms(5)
  proof (induction "is" arbitrary: rng b)
    case (Cons i "is")
    obtain rng1 b1 where 1: "add_random_reservation G within today R h period i (rng, b) = Inr (rng1, b1)" "sample_board G period b1"
      using add_random_reservation_ok [OF assms(1-4) Cons.prems] by blast
    show ?case using 1(1) Cons.IH [OF 1(2), of rng1] by simp
  qed simp
  then show ?thesis by (simp add: addRandomReservations_def)
qed

text \<open>C21 Whatever the random numbers are, the sample planning is built without an exception: every reservation that is completed is accepted
  by the board, which stays free of double bookings, although rooms are changed where nights are taken.  All reservations
  lie in the period of 614 days around today and last three to twenty-one nights.
\<close>

theorem createTestPlanning_fits:
  assumes "sample_dates G within" and "random_ok R" and "\<And>h. h \<in> set hotels \<Longrightarrow> hotel_rooms h \<noteq> []"
    and "period_ok G (mk_period G (add_days G today (-14)) (add_days G today 600))"
  shows "\<exists>rng' b. createTestPlanning G within today R rng hotels = Inr (rng', b)
    \<and> sample_board G (mk_period G (add_days G today (-14)) (add_days G today 600)) b"
proof -
  let ?p = "mk_period G (add_days G today (-14)) (add_days G today 600)"
  have "\<exists>rng' b'. fold_res (\<lambda>h. addRandomReservations G within today R h (20 * int (length (hotel_rooms h))) ?p) hotels (rng, b) = Inr (rng', b')
      \<and> sample_board G ?p b'" if "sample_board G ?p b" for b
    using assms(3) that
  proof (induction hotels arbitrary: rng b)
    case (Cons h hotels)
    obtain rng1 b1 where 1: "addRandomReservations G within today R h (20 * int (length (hotel_rooms h))) ?p (rng, b) = Inr (rng1, b1)"
        "sample_board G ?p b1"
      using addRandomReservations_ok [OF assms(1,2) _ assms(4) Cons.prems(2)] Cons.prems(1) by (meson list.set_intros(1))
    show ?case using 1(1) Cons.IH [OF _ 1(2), of rng1] Cons.prems(1) by simp
  qed simp
  moreover have "sample_board G ?p empty_board"
    using board_ok_empty by (simp add: sample_board_def) (simp add: empty_board_def)
  ultimately show ?thesis by (simp add: createTestPlanning_def Let_def)
qed

theorem createTestPlanning_fits_witness:
  "\<exists>rng' b. createTestPlanning day_calendar (\<lambda>p q. 0 \<le> fst p \<and> fst p \<le> fst q \<and> fst q \<le> snd q \<and> snd q \<le> snd p \<and> snd p < 4000000) 1000 lowest () [demo_hotel] = Inr (rng', b)
     \<and> sample_board day_calendar (986, 1600) b"
proof -
  let ?within = "\<lambda>p q. 0 \<le> fst p \<and> fst p \<le> fst q \<and> fst q \<le> snd q \<and> snd q \<le> snd p \<and> snd p < (4000000::int)"
  have "sample_dates day_calendar ?within" by (auto simp: sample_dates_def)
  moreover have "hotel_rooms h \<noteq> []" if "h \<in> set [demo_hotel]" for h using that by (simp add: demo_hotel_def)
  moreover have "period_ok day_calendar (mk_period day_calendar (add_days day_calendar 1000 (-14)) (add_days day_calendar 1000 600))"
    by (simp add: period_ok_def)
  ultimately show ?thesis
    using createTestPlanning_fits [OF _ lowest_ok, of day_calendar ?within "[demo_hotel]" 1000 "()"] by simp
qed

end
