(* ===== verification/HotelStore.thy ===== *)
theory HotelStore
  imports StorageSpec "HOL-Library.Multiset"
begin

text \<open>
  Hotels in the database: what \<open>storeNewHotel\<close> writes to three tables \<open>loadAllHotels\<close> and \<open>loadHotelById\<close> put together
  again.  The queries have no \<open>ORDER BY\<close>, and SQL leaves the order of their rows open: hotels, categories and rooms come
  back as multisets.
\<close>

section \<open>Rows in any order\<close>

text \<open>The rows a query without an order selects, in the order of the table.\<close>

definition selected_rows :: "sql \<Rightarrow> sql_value list \<Rightarrow> tables \<Rightarrow> sql_row list option" where
  "selected_rows q args t =
     (case (q, args) of
        (HotelAll, []) \<Rightarrow> tb_rows t ''h_hotel''
      | (HotelById, [SInt i]) \<Rightarrow> map_option (filter (\<lambda>r. column r 0 = SInt i)) (tb_rows t ''h_hotel'')
      | (CategoriesByHotelId, [SInt i]) \<Rightarrow>
          map_option (\<lambda>rows. map (\<lambda>r. [column r 0, column r 2, column r 3]) (filter (\<lambda>r. column r 1 = SInt i) rows))
            (tb_rows t ''h_room_category'')
      | (RoomsByHotelId, [SInt i]) \<Rightarrow>
          map_option (\<lambda>rows. map (\<lambda>r. [column r 0, column r 2, column r 3]) (filter (\<lambda>r. column r 1 = SInt i) rows))
            (tb_rows t ''h_room'')
      | _ \<Rightarrow> None)"

definition select_ok :: "'db sqlite \<Rightarrow> ('db \<Rightarrow> tables) \<Rightarrow> bool" where
  "select_ok S T \<longleftrightarrow>
     (\<forall>q args db rows. selected_rows q args (T db) = Some rows \<longrightarrow>
        (\<exists>rows' db'. sq_run S q args db = (rows', SqliteDone, db') \<and> mset rows' = mset rows \<and> T db' = T db))"

lemma query_rows_select:
  assumes "select_ok S T" and "storage_at S T so t" and "q \<in> set query_keys" and "selected_rows q args t = Some rows"
  shows "\<exists>rows' so'. query_rows S q args so = Inr (rows', so') \<and> mset rows' = mset rows \<and> storage_at S T so' t"
proof -
  obtain db st where db: "so_db so = Some db" "T db = t" and st: "so_statements so q = Some st" "statement_ready q st"
    using assms(2,3) by (auto simp: storage_at_def)
  obtain st1 where st1: "prepareForQuery st = (True, st1)" "st_sql st1 = q" "st_compiled st1" using prepare_ready [OF st(2)] by blast
  obtain rows' db' where db': "sq_run S q args db = (rows', SqliteDone, db')" "mset rows' = mset rows" "T db' = t"
    using assms(1,4) db(2) unfolding select_ok_def by blast
  define st2 where "st2 = st1\<lparr>st_rows := rows', st_end := SqliteDone, st_lastResult := (if rows' = [] then SqliteDone else SqliteRow)\<rparr>"
  have ex: "query_execute S q args so = Inr \<lparr>so_db = Some db', so_statements = (so_statements so)(q := Some st2)\<rparr>"
    using db st(1) st1 db' by (simp add: query_execute_def statement_execute_def Let_def st2_def)
  have rd: "read_rows st2 = (rows', st2\<lparr>st_rows := [], st_lastResult := SqliteDone\<rparr>)"
    by (rule read_rows_all) (simp_all add: st2_def)
  show ?thesis
    using assms(2) ex rd db' st1 by (auto simp: query_rows_def storage_at_def statement_ready_def st2_def)
qed

lemma query_row_select:
  assumes "select_ok S T" and "storage_at S T so t" and "q \<in> set query_keys" and "selected_rows q args t = Some [r]"
  shows "\<exists>so'. query_row S q args so = Inr (Some r, so') \<and> storage_at S T so' t"
proof -
  obtain db st where db: "so_db so = Some db" "T db = t" and st: "so_statements so q = Some st" "statement_ready q st"
    using assms(2,3) by (auto simp: storage_at_def)
  obtain st1 where st1: "prepareForQuery st = (True, st1)" "st_sql st1 = q" "st_compiled st1" using prepare_ready [OF st(2)] by blast
  obtain rows' db' where "sq_run S q args db = (rows', SqliteDone, db')" "mset rows' = mset [r]" "T db' = t"
    using assms(1,4) db(2) unfolding select_ok_def by blast
  then have db': "sq_run S q args db = ([r], SqliteDone, db')" "T db' = t" by simp_all
  define st2 where "st2 = st1\<lparr>st_rows := [r], st_end := SqliteDone, st_lastResult := SqliteRow\<rparr>"
  have ex: "query_execute S q args so = Inr \<lparr>so_db = Some db', so_statements = (so_statements so)(q := Some st2)\<rparr>"
    using db st(1) st1 db' by (simp add: query_execute_def statement_execute_def Let_def st2_def)
  show ?thesis
    using assms(2) ex db' st1 by (auto simp: query_row_def hasResultRow_def readRow_def storage_at_def statement_ready_def st2_def)
qed

section \<open>Hotels as rows\<close>

definition hotel_row :: "hotel \<Rightarrow> sql_row" where
  "hotel_row h = [SInt (obj_id h), SInt (obj_revision h), SText (hotel_name h)]"

definition category_row :: "int \<Rightarrow> room_category \<Rightarrow> sql_row" where
  "category_row i c = [SInt (obj_id c), SInt i, SText (cat_shortCode c), SText (cat_name c)]"

definition category_id :: "hotel \<Rightarrow> hotel_room \<Rightarrow> int" where
  "category_id h r = obj_id (hotel_categories h ! the (room_category r))"

definition room_row :: "hotel \<Rightarrow> hotel_room \<Rightarrow> sql_row" where
  "room_row h r = [SInt (obj_id r), SInt (obj_id h), SInt (category_id h r), SText (room_name r)]"

text \<open>What a hotel must satisfy to be stored, and what its rows satisfy then.\<close>

definition plain :: "string \<Rightarrow> bool" where
  "plain s \<longleftrightarrow> CHR 0x00 \<notin> set s"

definition storable_hotel :: "hotel \<Rightarrow> bool" where
  "storable_hotel h \<longleftrightarrow> hotel_ok h \<and> plain (hotel_name h)
     \<and> (\<forall>c \<in> set (hotel_categories h). plain (cat_shortCode c) \<and> plain (cat_name c))
     \<and> (\<forall>r \<in> set (hotel_rooms h). plain (room_name r))"

definition stored_hotel_ok :: "hotel \<Rightarrow> bool" where
  "stored_hotel_ok h \<longleftrightarrow> storable_hotel h \<and> int32 (obj_id h) \<and> int32 (obj_revision h)
     \<and> distinct (map obj_id (hotel_categories h)) \<and> (\<forall>c \<in> set (hotel_categories h). int32 (obj_id c))
     \<and> (\<forall>r \<in> set (hotel_rooms h). int32 (obj_id r))"

definition hotels_hold :: "tables \<Rightarrow> hotel list \<Rightarrow> bool" where
  "hotels_hold t hs \<longleftrightarrow>
     (\<exists>cs rs. tb_rows t ''h_hotel'' = Some (map hotel_row hs)
       \<and> tb_rows t ''h_room_category'' = Some cs \<and> tb_rows t ''h_room'' = Some rs
       \<and> (\<forall>h \<in> set hs. filter (\<lambda>r. column r 1 = SInt (obj_id h)) cs = map (category_row (obj_id h)) (hotel_categories h)
            \<and> filter (\<lambda>r. column r 1 = SInt (obj_id h)) rs = map (room_row h) (hotel_rooms h)
            \<and> stored_hotel_ok h \<and> obj_id h \<le> tb_seq t ''h_hotel'')
       \<and> (\<forall>r \<in> set cs \<union> set rs. \<exists>i. column r 1 = SInt i \<and> i \<le> tb_seq t ''h_hotel'')
       \<and> distinct (map obj_id hs))"

section \<open>Loading\<close>

definition category_content :: "room_category \<Rightarrow> int \<times> string \<times> string" where
  "category_content c = (obj_id c, cat_shortCode c, cat_name c)"

definition room_content :: "hotel \<Rightarrow> hotel_room \<Rightarrow> int \<times> string \<times> string" where
  "room_content h r = (obj_id r, room_name r, cat_shortCode (hotel_categories h ! the (room_category r)))"

text \<open>A hotel as its users see it: the order of categories and rooms, and the revisions of both, do not count.\<close>

definition hotel_content ::
    "hotel \<Rightarrow> int \<times> int \<times> string \<times> (int \<times> string \<times> string) multiset \<times> (int \<times> string \<times> string) multiset" where
  "hotel_content h =
     (obj_id h, obj_revision h, hotel_name h, mset (map category_content (hotel_categories h)), mset (map (room_content h) (hotel_rooms h)))"

definition category_of_row :: "'db sqlite \<Rightarrow> sql_row \<Rightarrow> room_category" where
  "category_of_row S r = (mk_room_category (readString S (column r 1)) (readString S (column r 2)))\<lparr>obj_id := readInt S (column r 0)\<rparr>"

lemma add_categories:
  "distinct (map cat_shortCode (hotel_categories h @ map (category_of_row S) rows)) \<Longrightarrow>
    fold_res (add_category_row S) rows h = Inr (h\<lparr>hotel_categories := hotel_categories h @ map (category_of_row S) rows\<rparr>)"
proof (induction rows arbitrary: h)
  case (Cons r rows)
  let ?c = "category_of_row S r"
  let ?h = "h\<lparr>hotel_categories := hotel_categories h @ [?c]\<rparr>"
  have "getCategoryByShortCode (cat_shortCode ?c) h = None" using Cons.prems by (auto simp: getCategoryByShortCode_None)
  then have "add_category_row S r h = Inr ?h" by (simp add: add_category_row_def addRoomCategory_def category_of_row_def)
  moreover have "fold_res (add_category_row S) rows ?h = Inr (?h\<lparr>hotel_categories := hotel_categories ?h @ map (category_of_row S) rows\<rparr>)"
    by (rule Cons.IH) (use Cons.prems in auto)
  ultimately show ?case by simp
qed simp

definition room_of_row :: "'db sqlite \<Rightarrow> hotel \<Rightarrow> sql_row \<Rightarrow> hotel_room" where
  "room_of_row S h r =
     (mk_hotel_room (readString S (column r 2)))\<lparr>obj_id := readInt S (column r 0), room_category := getCategoryById (readInt S (column r 1)) h\<rparr>"

lemma add_rooms:
  assumes codes: "distinct (map cat_shortCode cats)"
  shows "hotel_categories h = cats \<Longrightarrow> (\<And>r. r \<in> set rows \<Longrightarrow> readInt S (column r 1) \<in> obj_id ` set cats) \<Longrightarrow>
    fold_res (add_room_row S) rows h = Inr (h\<lparr>hotel_rooms := hotel_rooms h @ map (room_of_row S h) rows\<rparr>)"
proof (induction rows arbitrary: h)
  case (Cons r rows)
  obtain k where k: "getCategoryById (readInt S (column r 1)) h = Some k"
    using Cons.prems(1) Cons.prems(2) [of r] find_index_None [of "\<lambda>c. obj_id c = readInt S (column r 1)" cats]
    by (cases "getCategoryById (readInt S (column r 1)) h") (auto simp: getCategoryById_def)
  then have "k < length cats" using Cons.prems(1) find_index_SomeD unfolding getCategoryById_def by blast
  then have "getCategoryByShortCode (cat_shortCode (hotel_categories h ! k)) h = Some k"
    using getCategoryByShortCode_key [of h k] codes Cons.prems(1) by simp
  then have add: "add_room_row S r h = Inr (h\<lparr>hotel_rooms := hotel_rooms h @ [room_of_row S h r]\<rparr>)"
    using k by (simp add: add_room_row_def addRoom_def room_of_row_def)
  let ?h = "h\<lparr>hotel_rooms := hotel_rooms h @ [room_of_row S h r]\<rparr>"
  have "room_of_row S ?h = room_of_row S h" by (rule ext) (simp add: room_of_row_def getCategoryById_def)
  moreover have "fold_res (add_room_row S) rows ?h = Inr (?h\<lparr>hotel_rooms := hotel_rooms ?h @ map (room_of_row S ?h) rows\<rparr>)"
    using Cons.prems by (intro Cons.IH) simp_all
  ultimately show ?case using add by simp
qed simp

definition stub :: "hotel \<Rightarrow> hotel" where
  "stub h = (mk_hotel (hotel_name h))\<lparr>obj_id := obj_id h, obj_revision := obj_revision h\<rparr>"

lemma hotel_of_stored_row: "stored_hotel_ok h \<Longrightarrow> hotel_of_row S (hotel_row h) = stub h"
  by (simp add: hotel_of_row_def hotel_row_def column_def stub_def readInt_SInt readString_SText stored_hotel_ok_def storable_hotel_def plain_def)

definition part_row :: "sql_row \<Rightarrow> sql_row" where
  "part_row r = [column r 0, column r 2, column r 3]"

lemma category_of_stored_row:
  assumes "plain (cat_shortCode c)" "plain (cat_name c)" "int32 (obj_id c)"
  shows "category_content (category_of_row S (part_row (category_row i c))) = category_content c"
  using assms by (simp add: category_content_def category_of_row_def part_row_def category_row_def column_def mk_room_category_def
      readInt_SInt readString_SText plain_def)

lemma image_mset_cong_list: "mset xs = mset (map g ys) \<Longrightarrow> (\<And>y. y \<in> set ys \<Longrightarrow> f (g y) = h y) \<Longrightarrow> mset (map f xs) = mset (map h ys)"
  by (metis (mono_tags, lifting) list.map_comp list.map_cong mset_map o_apply)

lemma load_hotel_parts_ok:
  assumes S: "select_ok S T" and at: "storage_at S T so t" and hold: "hotels_hold t hs" and h: "h \<in> set hs"
  shows "\<exists>h' so'. load_hotel_parts S (stub h) so = Inr (h', so') \<and> storage_at S T so' t
    \<and> hotel_content h' = hotel_content h \<and> hotel_ok h'"
proof -
  obtain cs rs where t: "tb_rows t ''h_room_category'' = Some cs" "tb_rows t ''h_room'' = Some rs"
      "filter (\<lambda>r. column r 1 = SInt (obj_id h)) cs = map (category_row (obj_id h)) (hotel_categories h)"
      "filter (\<lambda>r. column r 1 = SInt (obj_id h)) rs = map (room_row h) (hotel_rooms h)" and ok: "stored_hotel_ok h"
    using hold h unfolding hotels_hold_def by auto
  have hok: "hotel_ok h" and ids: "distinct (map obj_id (hotel_categories h))"
    using ok by (simp_all add: stored_hotel_ok_def storable_hotel_def)
  let ?i = "obj_id h"
  have q: "CategoriesByHotelId \<in> set query_keys" "RoomsByHotelId \<in> set query_keys" by (simp_all add: query_keys_def)
  have "selected_rows CategoriesByHotelId [SInt ?i] t = Some (map part_row (map (category_row ?i) (hotel_categories h)))"
    using t by (simp add: selected_rows_def part_row_def [abs_def])
  then obtain crows so1 where c: "query_rows S CategoriesByHotelId [SInt ?i] so = Inr (crows, so1)"
      "mset crows = mset (map (\<lambda>c. part_row (category_row ?i c)) (hotel_categories h))" "storage_at S T so1 t"
    using query_rows_select [OF S at q(1)] by (fastforce simp: comp_def)
  have "selected_rows RoomsByHotelId [SInt ?i] t = Some (map part_row (map (room_row h) (hotel_rooms h)))"
    using t by (simp add: selected_rows_def part_row_def [abs_def])
  then obtain rrows so2 where r: "query_rows S RoomsByHotelId [SInt ?i] so1 = Inr (rrows, so2)"
      "mset rrows = mset (map (\<lambda>r. part_row (room_row h r)) (hotel_rooms h))" "storage_at S T so2 t"
    using query_rows_select [OF S c(3) q(2)] by (fastforce simp: comp_def)
  define cats where "cats = map (category_of_row S) crows"
  have cont: "mset (map category_content cats) = mset (map category_content (hotel_categories h))"
    unfolding cats_def map_map comp_def
    by (rule image_mset_cong_list [OF c(2)]) (use ok in \<open>simp add: category_of_stored_row stored_hotel_ok_def storable_hotel_def\<close>)
  have codes_eq: "mset (map cat_shortCode cats) = mset (map cat_shortCode (hotel_categories h))"
  proof -
    have "map cat_shortCode xs = map (fst \<circ> snd) (map category_content xs)" for xs by (simp add: category_content_def)
    then show ?thesis using cont by (metis mset_map)
  qed
  then have codes: "distinct (map cat_shortCode cats)" using hok mset_eq_imp_distinct_iff unfolding hotel_ok_def by blast
  have ids_eq: "mset (map obj_id cats) = mset (map obj_id (hotel_categories h))"
  proof -
    have "map obj_id xs = map fst (map category_content xs)" for xs by (simp add: category_content_def)
    then show ?thesis using cont by (metis mset_map)
  qed
  let ?h1 = "(stub h)\<lparr>hotel_categories := cats\<rparr>"
  have f1: "fold_res (add_category_row S) crows (stub h) = Inr ?h1"
    using add_categories [of "stub h" S crows] codes by (simp add: cats_def stub_def mk_hotel_def)
  have room: "readInt S (column (part_row (room_row h x)) 1) = category_id h x \<and> category_id h x \<in> obj_id ` set cats
      \<and> room_content ?h1 (room_of_row S ?h1 (part_row (room_row h x))) = room_content h x"
    if x: "x \<in> set (hotel_rooms h)" for x
  proof -
    obtain k0 where k0: "room_category x = Some k0" "k0 < length (hotel_categories h)"
      using hok x by (auto simp: hotel_ok_def room_ok_def list_all_iff split: option.splits)
    let ?c0 = "hotel_categories h ! k0"
    have c0: "?c0 \<in> set (hotel_categories h)" "category_id h x = obj_id ?c0" using k0 by (simp_all add: category_id_def)
    have "int32 (category_id h x)" using ok c0 by (simp add: stored_hotel_ok_def)
    then have rd: "readInt S (column (part_row (room_row h x)) 1) = category_id h x"
      by (simp add: part_row_def room_row_def column_def readInt_SInt)
    have mem: "category_id h x \<in> obj_id ` set cats"
      using c0 ids_eq by (metis image_eqI list.set_map set_mset_mset)
    obtain k where k: "getCategoryById (category_id h x) ?h1 = Some k"
      using mem find_index_None [of "\<lambda>c. obj_id c = category_id h x" cats]
      by (cases "getCategoryById (category_id h x) ?h1") (auto simp: getCategoryById_def)
    then have kc: "k < length cats" "obj_id (cats ! k) = category_id h x"
      using find_index_SomeD unfolding getCategoryById_def by fastforce+
    have "category_content (cats ! k) \<in> set (map category_content (hotel_categories h))"
      using cont kc(1) by (metis length_map nth_map nth_mem set_mset_mset)
    then obtain c where c: "c \<in> set (hotel_categories h)" "category_content (cats ! k) = category_content c" by auto
    then have "obj_id c = obj_id ?c0" using kc(2) c0(2) by (simp add: category_content_def)
    then have "c = ?c0" using ids c(1) c0(1) by (auto simp: distinct_map inj_on_def)
    then have "cat_shortCode (cats ! k) = cat_shortCode ?c0" using c(2) by (simp add: category_content_def)
    moreover have "int32 (obj_id x)" "plain (room_name x)" using ok x by (simp_all add: stored_hotel_ok_def storable_hotel_def)
    ultimately have "room_content ?h1 (room_of_row S ?h1 (part_row (room_row h x))) = room_content h x"
      using k k0 rd by (simp add: room_content_def room_of_row_def mk_hotel_room_def) (simp add: part_row_def room_row_def column_def readInt_SInt readString_SText plain_def)
    then show ?thesis using rd mem by blast
  qed
  have rset: "\<exists>x \<in> set (hotel_rooms h). y = part_row (room_row h x)" if "y \<in> set rrows" for y
    using that r(2) by (metis (mono_tags, lifting) image_iff list.set_map set_mset_mset)
  let ?h2 = "?h1\<lparr>hotel_rooms := map (room_of_row S ?h1) rrows\<rparr>"
  have f2: "fold_res (add_room_row S) rrows ?h1 = Inr ?h2"
  proof -
    have "fold_res (add_room_row S) rrows ?h1 = Inr (?h1\<lparr>hotel_rooms := hotel_rooms ?h1 @ map (room_of_row S ?h1) rrows\<rparr>)"
      by (rule add_rooms [OF codes]) (use rset room in \<open>force+\<close>)
    then show ?thesis by (simp add: stub_def mk_hotel_def)
  qed
  have "mset (map (room_content ?h1) (map (room_of_row S ?h1) rrows)) = mset (map (room_content h) (hotel_rooms h))"
    unfolding map_map comp_def by (rule image_mset_cong_list [OF r(2)]) (use room in blast)
  moreover have "room_content ?h2 = room_content ?h1" by (rule ext) (simp add: room_content_def)
  ultimately have content: "hotel_content ?h2 = hotel_content h"
    using cont by (simp add: hotel_content_def stub_def mk_hotel_def)
  have "hotel_ok (stub h)" by (simp add: stub_def hotel_ok_def mk_hotel_def)
  have "hotel_ok ?h2"
  proof (rule fold_res_invariant [OF f2])
    show "hotel_ok ?h1" using codes by (simp add: hotel_ok_def stub_def mk_hotel_def)
    show "hotel_ok k" if "hotel_ok g" "add_room_row S y g = Inr k" for g k y
      using that addRoom_ok [of g _ _ k] by (auto simp: add_room_row_def split: option.splits)
  qed
  then show ?thesis
    using c r f1 f2 content by (auto simp: load_hotel_parts_def stub_def)
qed

lemma load_parts_ok:
  assumes S: "select_ok S T" and hold: "hotels_hold t hs"
  shows "storage_at S T so t \<Longrightarrow> set gs \<subseteq> set hs \<Longrightarrow>
    \<exists>gs' so'. load_parts S (map stub gs) so = Inr (gs', so') \<and> storage_at S T so' t
      \<and> map hotel_content gs' = map hotel_content gs \<and> list_all hotel_ok gs'"
proof (induction gs arbitrary: so)
  case (Cons g gs)
  obtain g' so1 where 1: "load_hotel_parts S (stub g) so = Inr (g', so1)" "storage_at S T so1 t" "hotel_content g' = hotel_content g" "hotel_ok g'"
    using load_hotel_parts_ok [OF S Cons.prems(1) hold, of g] Cons.prems(2) by auto
  show ?case using Cons.IH [OF 1(2)] Cons.prems(2) 1 by auto
qed simp

lemma mset_map_ex: "mset ys = mset (map f xs) \<Longrightarrow> \<exists>zs. ys = map f zs \<and> mset zs = mset xs"
proof (induction ys arbitrary: xs)
  case (Cons y ys)
  then have "y \<in> set (map f xs)" by (metis list.set_intros(1) set_mset_mset)
  then obtain x where x: "x \<in> set xs" "y = f x" by auto
  obtain us vs where xs: "xs = us @ x # vs" using x(1) by (meson split_list)
  then have "mset ys = mset (map f (us @ vs))" using Cons.prems x(2) by simp
  then obtain zs where "ys = map f zs" "mset zs = mset (us @ vs)" using Cons.IH by blast
  then show ?case using x xs by (intro exI [of _ "x # zs"]) simp
qed simp

lemma load_all_hotels_ok:
  assumes S: "select_ok S T" and at: "storage_at S T so t" and hold: "hotels_hold t hs"
  shows "\<exists>gs so'. loadAllHotels S so = Inr (gs, so') \<and> mset (map hotel_content gs) = mset (map hotel_content hs) \<and> list_all hotel_ok gs"
proof -
  have "selected_rows HotelAll [] t = Some (map hotel_row hs)" using hold by (auto simp: hotels_hold_def selected_rows_def)
  then obtain rows so1 where r: "query_rows S HotelAll [] so = Inr (rows, so1)" "mset rows = mset (map hotel_row hs)" "storage_at S T so1 t"
    using query_rows_select [OF S at, of HotelAll "[]"] by (auto simp: query_keys_def)
  obtain gs where gs: "rows = map hotel_row gs" "mset gs = mset hs" using mset_map_ex [OF r(2)] by blast
  then have sub: "set gs = set hs" by (metis set_mset_mset)
  then have "map (hotel_of_row S) rows = map stub gs"
    using hold gs(1) by (auto simp: hotels_hold_def hotel_of_stored_row)
  then obtain gs' so' where "loadAllHotels S so = Inr (gs', so')" "map hotel_content gs' = map hotel_content gs" "list_all hotel_ok gs'"
    using load_parts_ok [OF S hold r(3), of gs] sub r(1) by (auto simp: loadAllHotels_def)
  then show ?thesis using gs(2) by (metis mset_map)
qed

lemma load_hotel_by_id_ok:
  assumes S: "select_ok S T" and at: "storage_at S T so t" and hold: "hotels_hold t hs" and h: "h \<in> set hs"
  shows "\<exists>g so'. loadHotelById S (obj_id h) so = Inr (Some g, so') \<and> hotel_content g = hotel_content h \<and> hotel_ok g"
proof -
  have rows: "tb_rows t ''h_hotel'' = Some (map hotel_row hs)" and ids: "distinct (map obj_id hs)" and ok: "stored_hotel_ok h"
    using hold h by (auto simp: hotels_hold_def)
  have "filter (\<lambda>r. column r 0 = SInt (obj_id h)) (map hotel_row hs) = [hotel_row h]"
  proof -
    obtain us vs where hs: "hs = us @ h # vs" using h by (meson split_list)
    then have "obj_id x \<noteq> obj_id h" if "x \<in> set us \<union> set vs" for x using that ids by (auto simp: image_iff)
    then show ?thesis using hs by (auto simp: hotel_row_def column_def filter_empty_conv filter_map comp_def)
  qed
  then have sel: "selected_rows HotelById [SInt (obj_id h)] t = Some [hotel_row h]" using rows by (simp add: selected_rows_def)
  obtain so1 where 1: "query_row S HotelById [SInt (obj_id h)] so = Inr (Some (hotel_row h), so1)" "storage_at S T so1 t"
    using query_row_select [OF S at _ sel] by (auto simp: query_keys_def)
  then show ?thesis
    using load_hotel_parts_ok [OF S 1(2) hold h] hotel_of_stored_row [OF ok, of S] by (auto simp: loadHotelById_def)
qed

section \<open>Storing\<close>

fun number_objects :: "int \<Rightarrow> 'a persistent_object_scheme list \<Rightarrow> 'a persistent_object_scheme list" where
  "number_objects s [] = []"
| "number_objects s (x # xs) = setId (s + 1) x # number_objects (s + 1) xs"

lemma number_objects_props:
  "length (number_objects s xs) = length xs"
  "k < length xs \<Longrightarrow> number_objects s xs ! k = setId (s + 1 + int k) (xs ! k)"
  "map obj_id (number_objects s xs) = map (\<lambda>k. s + 1 + int k) [0..<length xs]"
proof -
  show l: "length (number_objects s xs) = length xs" for s by (induction xs arbitrary: s) auto
  show n: "number_objects s xs ! k = setId (s + 1 + int k) (xs ! k)" if "k < length xs" for k s using that
  proof (induction xs arbitrary: s k)
    case (Cons x xs)
    then show ?case by (cases k) (simp_all add: algebra_simps)
  qed simp
  show "map obj_id (number_objects s xs) = map (\<lambda>k. s + 1 + int k) [0..<length xs]"
    by (rule nth_equalityI) (simp_all add: l n setId_def)
qed

lemma store_categories_effect:
  assumes "sql_ok S T"
  shows "storage_at S T so t \<Longrightarrow> tb_rows t ''h_room_category'' = Some rows \<Longrightarrow> 0 \<le> tb_seq t ''h_room_category''
    \<Longrightarrow> tb_seq t ''h_room_category'' + int (length cs) < 2147483648
    \<Longrightarrow> \<exists>so' t'. store_categories S i cs so = Inr (number_objects (tb_seq t ''h_room_category'') cs, so') \<and> storage_at S T so' t'
      \<and> put_rows ''h_room_category'' (rows @ map (category_row i) (number_objects (tb_seq t ''h_room_category'') cs))
          (tb_seq t ''h_room_category'' + int (length cs)) t t'"
proof (induction cs arbitrary: so t rows)
  case Nil
  have "put_rows ''h_room_category'' rows (tb_seq t ''h_room_category'') t t" using Nil by (auto simp: put_rows_def)
  then show ?case using Nil(1) by (auto simp del: fun_upd_apply)
next
  case (Cons c cs)
  let ?n = "''h_room_category''" and ?args = "[SInt i, SText (cat_shortCode c), SText (cat_name c)]"
  have "sql_effect CategoryInsert ?args t = insert_row ?n ?args t"
    by (simp add: sql_effect_def bound_types_def value_type_def)
  then obtain so1 t1 where so1: "query_execute S CategoryInsert ?args so = Inr so1" "storage_at S T so1 t1"
      "lastInsertId S so1 = tb_seq t ?n + 1" "put_rows ?n (rows @ [SInt (tb_seq t ?n + 1) # ?args]) (tb_seq t ?n + 1) t t1"
    using insert_effect [OF assms Cons.prems(1), of CategoryInsert ?args ?n ?args rows] Cons.prems by (auto simp: query_keys_def)
  have t1: "tb_seq t1 ?n = tb_seq t ?n + 1" "tb_rows t1 ?n = Some (rows @ [SInt (tb_seq t ?n + 1) # ?args])"
    using so1(4) by (simp_all add: put_rows_def)
  obtain so2 t2 where so2: "store_categories S i cs so1 = Inr (number_objects (tb_seq t ?n + 1) cs, so2)" "storage_at S T so2 t2"
      "put_rows ?n ((rows @ [SInt (tb_seq t ?n + 1) # ?args]) @ map (category_row i) (number_objects (tb_seq t ?n + 1) cs))
         (tb_seq t ?n + 1 + int (length cs)) t1 t2"
    using Cons.IH [OF so1(2) t1(2)] t1 Cons.prems by auto
  have "put_rows ?n (rows @ map (category_row i) (number_objects (tb_seq t ?n) (c # cs))) (tb_seq t ?n + int (length (c # cs))) t t2"
    using so1(4) so2(3) by (simp add: put_rows_def category_row_def setId_def ac_simps)
  then show ?case using so1 so2 by auto
qed

lemma store_rooms_effect:
  assumes "sql_ok S T"
  shows "storage_at S T so t \<Longrightarrow> tb_rows t ''h_room'' = Some rows \<Longrightarrow> 0 \<le> tb_seq t ''h_room''
    \<Longrightarrow> tb_seq t ''h_room'' + int (length rs) < 2147483648 \<Longrightarrow> list_all (room_ok h) rs
    \<Longrightarrow> \<exists>so' t'. store_rooms S h rs so = Inr (number_objects (tb_seq t ''h_room'') rs, so') \<and> storage_at S T so' t'
      \<and> put_rows ''h_room'' (rows @ map (room_row h) (number_objects (tb_seq t ''h_room'') rs)) (tb_seq t ''h_room'' + int (length rs)) t t'"
proof (induction rs arbitrary: so t rows)
  case Nil
  have "put_rows ''h_room'' rows (tb_seq t ''h_room'') t t" using Nil by (auto simp: put_rows_def)
  then show ?case using Nil(1) by (auto simp del: fun_upd_apply)
next
  case (Cons r rs)
  let ?n = "''h_room''" and ?args = "[SInt (obj_id h), SInt (category_id h r), SText (room_name r)]"
  have cat: "category_of h r = Inr (hotel_categories h ! the (room_category r))"
    using category_of_ok [of h r] Cons.prems(5) by auto
  have "sql_effect RoomInsert ?args t = insert_row ?n ?args t"
    by (simp add: sql_effect_def bound_types_def value_type_def)
  then obtain so1 t1 where so1: "query_execute S RoomInsert ?args so = Inr so1" "storage_at S T so1 t1"
      "lastInsertId S so1 = tb_seq t ?n + 1" "put_rows ?n (rows @ [SInt (tb_seq t ?n + 1) # ?args]) (tb_seq t ?n + 1) t t1"
    using insert_effect [OF assms Cons.prems(1), of RoomInsert ?args ?n ?args rows] Cons.prems by (auto simp: query_keys_def)
  have t1: "tb_seq t1 ?n = tb_seq t ?n + 1" "tb_rows t1 ?n = Some (rows @ [SInt (tb_seq t ?n + 1) # ?args])"
    using so1(4) by (simp_all add: put_rows_def)
  obtain so2 t2 where so2: "store_rooms S h rs so1 = Inr (number_objects (tb_seq t ?n + 1) rs, so2)" "storage_at S T so2 t2"
      "put_rows ?n ((rows @ [SInt (tb_seq t ?n + 1) # ?args]) @ map (room_row h) (number_objects (tb_seq t ?n + 1) rs))
         (tb_seq t ?n + 1 + int (length rs)) t1 t2"
    using Cons.IH [OF so1(2) t1(2)] t1 Cons.prems by auto
  have "put_rows ?n (rows @ map (room_row h) (number_objects (tb_seq t ?n) (r # rs))) (tb_seq t ?n + int (length (r # rs))) t t2"
    using so1(4) so2(3) by (simp add: put_rows_def room_row_def category_id_def setId_def ac_simps)
  then show ?case using so1 so2 cat by (auto simp: category_id_def)
qed

lemma number_objects_set:
  "y \<in> set (number_objects s xs) \<Longrightarrow> \<exists>x \<in> set xs. \<exists>i. s < i \<and> i \<le> s + int (length xs) \<and> y = setId i x"
proof (induction xs arbitrary: s)
  case (Cons x xs)
  show ?case
  proof (cases "y = setId (s + 1) x")
    case True
    then show ?thesis by (intro bexI [of _ x] exI [of _ "s + 1"]) simp_all
  next
    case False
    then obtain z i where "z \<in> set xs" "s + 1 < i" "i \<le> s + 1 + int (length xs)" "y = setId i z"
      using Cons.IH [of "s + 1"] Cons.prems by auto
    then show ?thesis by (intro bexI [of _ z] exI [of _ i]) simp_all
  qed
qed simp

lemma number_objects_map: "(\<And>x i. f (setId i x) = f x) \<Longrightarrow> map f (number_objects s xs) = map f xs"
  by (induction xs arbitrary: s) auto

definition stored_hotel :: "int \<Rightarrow> int \<Rightarrow> int \<Rightarrow> hotel \<Rightarrow> hotel" where
  "stored_hotel i c r h =
     h\<lparr>obj_id := i, obj_revision := 1, hotel_categories := number_objects c (hotel_categories h), hotel_rooms := number_objects r (hotel_rooms h)\<rparr>"

lemma stored_hotel_is_ok:
  assumes h: "storable_hotel h" and i: "int32 i" and c: "0 \<le> c" "c + int (length (hotel_categories h)) < 2147483648"
    and r: "0 \<le> r" "r + int (length (hotel_rooms h)) < 2147483648"
  shows "stored_hotel_ok (stored_hotel i c r h)"
proof -
  let ?h = "stored_hotel i c r h"
  have "map cat_shortCode (hotel_categories ?h) = map cat_shortCode (hotel_categories h)"
    unfolding stored_hotel_def by (simp add: number_objects_map setId_def)
  moreover have "room_ok ?h y" if y: "y \<in> set (hotel_rooms ?h)" for y
  proof -
    obtain x j where "x \<in> set (hotel_rooms h)" "y = setId j x" using number_objects_set y by (fastforce simp: stored_hotel_def)
    then show ?thesis using h
      by (auto simp: storable_hotel_def hotel_ok_def list_all_iff room_ok_def stored_hotel_def setId_def number_objects_props split: option.splits)
  qed
  ultimately have ok: "hotel_ok ?h" using h by (simp add: hotel_ok_def storable_hotel_def list_all_iff)
  have cats: "int32 (obj_id y) \<and> plain (cat_shortCode y) \<and> plain (cat_name y)" if y: "y \<in> set (hotel_categories ?h)" for y
  proof -
    obtain x j where "x \<in> set (hotel_categories h)" "c < j" "j \<le> c + int (length (hotel_categories h))" "y = setId j x"
      using number_objects_set y by (fastforce simp: stored_hotel_def)
    then show ?thesis using h c by (auto simp: setId_def int32_def storable_hotel_def)
  qed
  have rooms: "int32 (obj_id y) \<and> plain (room_name y)" if y: "y \<in> set (hotel_rooms ?h)" for y
  proof -
    obtain x j where "x \<in> set (hotel_rooms h)" "r < j" "j \<le> r + int (length (hotel_rooms h))" "y = setId j x"
      using number_objects_set y by (fastforce simp: stored_hotel_def)
    then show ?thesis using h r by (auto simp: setId_def int32_def storable_hotel_def)
  qed
  have "distinct (map obj_id (hotel_categories ?h))"
    by (simp add: stored_hotel_def number_objects_props(3) distinct_map inj_on_def)
  then show ?thesis using ok cats rooms h i by (simp add: stored_hotel_ok_def storable_hotel_def) (simp add: stored_hotel_def int32_def)
qed

text \<open>The ids of the three tables are below the bound of \<open>int\<close> after \<open>k\<close> more rows in each.\<close>

definition room_for :: "tables \<Rightarrow> int \<Rightarrow> bool" where
  "room_for t k \<longleftrightarrow> (\<forall>n \<in> {''h_hotel'', ''h_room_category'', ''h_room''}. 0 \<le> tb_seq t n \<and> tb_seq t n + k < 2147483648)"

lemma filter_part_rows:
  "filter (\<lambda>r. column r 1 = SInt j) (map (category_row i) xs) = (if i = j then map (category_row i) xs else [])"
  "filter (\<lambda>r. column r 1 = SInt j) (map (room_row h) ys) = (if obj_id h = j then map (room_row h) ys else [])"
  by (induction xs, simp_all add: category_row_def column_def) (induction ys, simp_all add: room_row_def column_def)

lemma store_hotel_effect:
  assumes S: "sql_ok S T" and at: "storage_at S T so t" and hold: "hotels_hold t hs" and h: "storable_hotel h"
    and b: "room_for t (1 + int (length (hotel_categories h)) + int (length (hotel_rooms h)) + k)" and k: "0 \<le> k"
  defines "h' \<equiv> stored_hotel (tb_seq t ''h_hotel'' + 1) (tb_seq t ''h_room_category'') (tb_seq t ''h_room'') h"
  shows "\<exists>so' t'. storeNewHotel S h so = Inr (h', so') \<and> storage_at S T so' t' \<and> hotels_hold t' (hs @ [h']) \<and> room_for t' k"
proof -
  let ?n = "''h_hotel''" and ?c = "''h_room_category''" and ?r = "''h_room''"
  let ?i = "tb_seq t ?n + 1" and ?h1 = "h\<lparr>obj_id := tb_seq t ?n + 1, obj_revision := 1\<rparr>"
  let ?cats = "number_objects (tb_seq t ?c) (hotel_categories h)" and ?rooms = "number_objects (tb_seq t ?r) (hotel_rooms h)"
  let ?h2 = "?h1\<lparr>hotel_categories := ?cats\<rparr>"
  obtain cs rs where t: "tb_rows t ?n = Some (map hotel_row hs)" "tb_rows t ?c = Some cs" "tb_rows t ?r = Some rs"
      and old: "\<And>g. g \<in> set hs \<Longrightarrow> filter (\<lambda>r. column r 1 = SInt (obj_id g)) cs = map (category_row (obj_id g)) (hotel_categories g)
            \<and> filter (\<lambda>r. column r 1 = SInt (obj_id g)) rs = map (room_row g) (hotel_rooms g)
            \<and> stored_hotel_ok g \<and> obj_id g \<le> tb_seq t ?n"
      and low: "\<And>r. r \<in> set cs \<union> set rs \<Longrightarrow> \<exists>i. column r 1 = SInt i \<and> i \<le> tb_seq t ?n" and ids: "distinct (map obj_id hs)"
    using hold unfolding hotels_hold_def by blast
  have bounds: "0 \<le> tb_seq t ?n" "tb_seq t ?n + 1 < 2147483648" "0 \<le> tb_seq t ?c"
    "tb_seq t ?c + int (length (hotel_categories h)) < 2147483648" "0 \<le> tb_seq t ?r" "tb_seq t ?r + int (length (hotel_rooms h)) < 2147483648"
    using b k unfolding room_for_def by auto
  have "sql_effect HotelInsert [SText (hotel_name h)] t = insert_row ?n [SInt 1, SText (hotel_name h)] t"
    by (simp add: sql_effect_def bound_types_def value_type_def)
  then obtain so1 t1 where 1: "query_execute S HotelInsert [SText (hotel_name h)] so = Inr so1" "storage_at S T so1 t1"
      "lastInsertId S so1 = ?i" "put_rows ?n (map hotel_row hs @ [[SInt ?i, SInt 1, SText (hotel_name h)]]) ?i t t1"
    using insert_effect [OF S at, of HotelInsert "[SText (hotel_name h)]" ?n "[SInt 1, SText (hotel_name h)]"] t(1) bounds
    by (auto simp: query_keys_def)
  have t1: "tb_rows t1 ?c = Some cs" "tb_seq t1 ?c = tb_seq t ?c" using 1(4) t by (simp_all add: put_rows_def)
  obtain so2 t2 where 2: "store_categories S ?i (hotel_categories h) so1 = Inr (?cats, so2)" "storage_at S T so2 t2"
      "put_rows ?c (cs @ map (category_row ?i) ?cats) (tb_seq t ?c + int (length (hotel_categories h))) t1 t2"
    using store_categories_effect [OF S 1(2) t1(1), of "hotel_categories h" ?i] t1(2) bounds by auto
  have t2: "tb_rows t2 ?r = Some rs" "tb_seq t2 ?r = tb_seq t ?r" using 1(4) 2(3) t by (simp_all add: put_rows_def)
  have "list_all (room_ok ?h2) (hotel_rooms h)"
    using h by (auto simp: storable_hotel_def hotel_ok_def list_all_iff room_ok_def number_objects_props split: option.splits)
  then obtain so3 t3 where 3: "store_rooms S ?h2 (hotel_rooms h) so2 = Inr (?rooms, so3)" "storage_at S T so3 t3"
      "put_rows ?r (rs @ map (room_row ?h2) ?rooms) (tb_seq t ?r + int (length (hotel_rooms h))) t2 t3"
    using store_rooms_effect [OF S 2(2) t2(1), of "hotel_rooms h" ?h2] t2(2) bounds by auto
  have h': "h' = ?h2\<lparr>hotel_rooms := ?rooms\<rparr>" by (simp add: h'_def stored_hotel_def)
  have run: "storeNewHotel S h so = Inr (h', so3)"
    using 1(1,3) 2(1) 3(1) by (simp add: storeNewHotel_def setId_def setRevision_def h')
  have "room_row ?h2 = room_row h'" by (rule ext) (simp add: room_row_def category_id_def h')
  then have t3: "tb_rows t3 ?n = Some (map hotel_row (hs @ [h']))" "tb_rows t3 ?c = Some (cs @ map (category_row ?i) (hotel_categories h'))"
      "tb_rows t3 ?r = Some (rs @ map (room_row h') (hotel_rooms h'))" "tb_seq t3 ?n = ?i"
      "tb_seq t3 ?c = tb_seq t ?c + int (length (hotel_categories h))" "tb_seq t3 ?r = tb_seq t ?r + int (length (hotel_rooms h))"
    using 1(4) 2(3) 3(3) by (simp_all add: put_rows_def h' hotel_row_def)
  have i: "obj_id h' = ?i" by (simp add: h')
  have "stored_hotel_ok h'" unfolding h'_def using bounds by (intro stored_hotel_is_ok [OF h]) (auto simp: int32_def)
  then have new: "stored_hotel_ok h' \<and> obj_id h' \<le> tb_seq t3 ?n" using i t3(4) by simp
  have none: "filter (\<lambda>r. column r 1 = SInt ?i) cs = []" "filter (\<lambda>r. column r 1 = SInt ?i) rs = []"
    using low by (fastforce simp: filter_empty_conv)+
  have other: "obj_id g \<noteq> ?i" if "g \<in> set hs" for g using old [OF that] by simp
  have fresh: "?i \<notin> obj_id ` set hs"
  proof
    assume "?i \<in> obj_id ` set hs"
    then obtain g where "?i = obj_id g" "g \<in> set hs" by (rule imageE)
    then show False using other [of g] by simp
  qed
  have "hotels_hold t3 (hs @ [h'])" unfolding hotels_hold_def
  proof (rule exI [of _ "cs @ map (category_row ?i) (hotel_categories h')"], rule exI [of _ "rs @ map (room_row h') (hotel_rooms h')"],
      intro conjI ballI)
    show "tb_rows t3 ?n = Some (map hotel_row (hs @ [h']))" "tb_rows t3 ?c = Some (cs @ map (category_row ?i) (hotel_categories h'))"
      "tb_rows t3 ?r = Some (rs @ map (room_row h') (hotel_rooms h'))" by (rule t3)+
    fix g assume g: "g \<in> set (hs @ [h'])"
    then consider "g \<in> set hs" | "g = h'" by auto
    then have "filter (\<lambda>r. column r 1 = SInt (obj_id g)) (cs @ map (category_row ?i) (hotel_categories h')) = map (category_row (obj_id g)) (hotel_categories g)
      \<and> filter (\<lambda>r. column r 1 = SInt (obj_id g)) (rs @ map (room_row h') (hotel_rooms h')) = map (room_row g) (hotel_rooms g)"
    proof cases
      case 1
      then show ?thesis using old [OF 1] other [OF 1] by (simp add: i filter_part_rows del: One_nat_def)
    next
      case 2
      then show ?thesis by (simp add: i none filter_part_rows del: One_nat_def)
    qed
    then show "filter (\<lambda>r. column r 1 = SInt (obj_id g)) (cs @ map (category_row ?i) (hotel_categories h')) = map (category_row (obj_id g)) (hotel_categories g)"
      "filter (\<lambda>r. column r 1 = SInt (obj_id g)) (rs @ map (room_row h') (hotel_rooms h')) = map (room_row g) (hotel_rooms g)" by simp_all
    show "stored_hotel_ok g" "obj_id g \<le> tb_seq t3 ?n" using g old new t3(4) by fastforce+
  next
    fix y assume y: "y \<in> set (cs @ map (category_row ?i) (hotel_categories h')) \<union> set (rs @ map (room_row h') (hotel_rooms h'))"
    consider "y \<in> set cs \<union> set rs" | "column y 1 = SInt ?i"
      using y i by (auto simp: category_row_def room_row_def column_def)
    then show "\<exists>j. column y 1 = SInt j \<and> j \<le> tb_seq t3 ?n" using low [of y] t3(4) by cases force+
  next
    show "distinct (map obj_id (hs @ [h']))" using ids fresh by (simp add: i)
  qed
  moreover have "room_for t3 k" using b t3(4-6) bounds k by (auto simp: room_for_def)
  ultimately show ?thesis using run 3(2) by blast
qed

section \<open>The property\<close>

text \<open>Comparing a hotel with what was stored of it.\<close>

lemma rooms_eq_numbered:
  assumes "length (hotel_categories k) = length (hotel_categories h)"
    and "\<And>i. i < length (hotel_categories h) \<Longrightarrow> category_eq (hotel_categories h ! i) (hotel_categories k ! i)"
  shows "list_all (room_ok h) rs \<Longrightarrow> rooms_eq h rs k (number_objects s rs) = Inr True"
proof (induction rs arbitrary: s)
  case (Cons r rs)
  obtain i where i: "room_category r = Some i" "i < length (hotel_categories h)" "category_of h r = Inr (hotel_categories h ! i)"
    using category_of_ok [of h r] Cons.prems by auto
  then have "category_of k (setId (s + 1) r) = Inr (hotel_categories k ! i)" using assms(1) by (simp add: category_of_def setId_def)
  then show ?case using Cons i assms(2) by (simp add: room_eq_def setId_def)
qed simp

lemma stored_hotel_eq: "hotel_ok h \<Longrightarrow> hotel_eq h (stored_hotel i c r h) = Inr True"
proof -
  assume h: "hotel_ok h"
  let ?k = "stored_hotel i c r h"
  have cats: "category_eq (hotel_categories h ! j) (hotel_categories ?k ! j)" if "j < length (hotel_categories h)" for j
    using that by (simp add: stored_hotel_def number_objects_props setId_def category_eq_def)
  have l: "length (hotel_categories ?k) = length (hotel_categories h)" by (simp add: stored_hotel_def number_objects_props)
  have "rooms_eq h (hotel_rooms h) ?k (hotel_rooms ?k) = Inr True"
    using rooms_eq_numbered [OF l cats] h by (simp add: hotel_ok_def stored_hotel_def)
  moreover have "list_all2 category_eq (hotel_categories h) (hotel_categories ?k)" using cats l by (simp add: list_all2_conv_all_nth)
  moreover have "hotel_name ?k = hotel_name h" "length (hotel_rooms ?k) = length (hotel_rooms h)"
    by (simp_all add: stored_hotel_def number_objects_props)
  ultimately show ?thesis using l by (simp add: hotel_eq_def)
qed

fun store_new_hotels :: "'db sqlite \<Rightarrow> hotel list \<Rightarrow> 'db storage \<Rightarrow> (hotel list \<times> 'db storage) res" where
  "store_new_hotels S [] so = Inr ([], so)"
| "store_new_hotels S (h # hs) so =
     bindr (storeNewHotel S h so) (\<lambda>(g, so). bindr (store_new_hotels S hs so) (\<lambda>(gs, so). Inr (g # gs, so)))"

definition rows_of_hotel :: "hotel \<Rightarrow> int" where
  "rows_of_hotel h = 1 + int (length (hotel_categories h)) + int (length (hotel_rooms h))"

lemma rows_of_hotel_pos: "0 \<le> sum_list (map rows_of_hotel hs)"
  by (induction hs) (simp_all add: rows_of_hotel_def)

lemma store_new_hotels_ok:
  assumes S: "sql_ok S T"
  shows "storage_at S T so t \<Longrightarrow> hotels_hold t old \<Longrightarrow> list_all storable_hotel hs \<Longrightarrow> room_for t (sum_list (map rows_of_hotel hs)) \<Longrightarrow>
    \<exists>gs so' t'. store_new_hotels S hs so = Inr (gs, so') \<and> storage_at S T so' t' \<and> hotels_hold t' (old @ gs)
      \<and> list_all2 (\<lambda>h g. hotel_eq h g = Inr True \<and> obj_revision g = 1) hs gs"
proof (induction hs arbitrary: so t old)
  case Nil
  then show ?case by auto
next
  case (Cons h hs)
  let ?g = "stored_hotel (tb_seq t ''h_hotel'' + 1) (tb_seq t ''h_room_category'') (tb_seq t ''h_room'') h"
  have h: "storable_hotel h" using Cons.prems by simp
  have room: "room_for t (1 + int (length (hotel_categories h)) + int (length (hotel_rooms h)) + sum_list (map rows_of_hotel hs))"
    using Cons.prems(4) by (simp add: rows_of_hotel_def [of h])
  obtain so1 t1 where 1: "storeNewHotel S h so = Inr (?g, so1)" "storage_at S T so1 t1" "hotels_hold t1 (old @ [?g])"
      "room_for t1 (sum_list (map rows_of_hotel hs))"
    using store_hotel_effect [OF S Cons.prems(1,2) h room rows_of_hotel_pos] by blast
  have "hotel_eq h ?g = Inr True" "obj_revision ?g = 1"
    using h stored_hotel_eq by (auto simp: storable_hotel_def stored_hotel_def)
  then show ?case using Cons.IH [OF 1(2,3) _ 1(4)] Cons.prems(3) 1(1) by (auto simp del: bindr_eq_Inr)
qed

text \<open>C8 Hotels survive the database.  Storing well-formed hotels whose texts have no zero character in an empty database file
  succeeds and gives each a fresh id and revision 1 without changing what \<open>operator==\<close> compares.  Loading all hotels then gives exactly
  those hotels, and loading by id each of them: the same ids, names, categories and rooms, every room with its category, in
  whatever order the database delivers the rows.
\<close>

theorem hotels_survive_database:
  assumes "sql_ok S T" and "select_ok S T" and "sq_open S file = Some db" and "T db = no_tables"
    and "list_all storable_hotel hs" and "sum_list (map rows_of_hotel hs) < 2147483648"
  shows "\<exists>gs so. store_new_hotels S hs (mk_storage S file) = Inr (gs, so)
    \<and> list_all2 (\<lambda>h g. hotel_eq h g = Inr True \<and> obj_revision g = 1) hs gs \<and> distinct (map obj_id gs)
    \<and> (\<exists>loaded so'. loadAllHotels S so = Inr (loaded, so')
         \<and> mset (map hotel_content loaded) = mset (map hotel_content gs) \<and> list_all hotel_ok loaded)
    \<and> (\<forall>g \<in> set gs. \<exists>k so'. loadHotelById S (obj_id g) so = Inr (Some k, so') \<and> hotel_content k = hotel_content g \<and> hotel_ok k)"
proof -
  let ?t = "created no_tables table_names"
  have at: "storage_at S T (mk_storage S file) ?t" using mk_storage_at [OF assms(1,3)] assms(4) by simp
  have hold: "hotels_hold ?t []" by (simp add: hotels_hold_def created_def no_tables_def table_names_def)
  have "room_for ?t (sum_list (map rows_of_hotel hs))" using assms(6) by (simp add: room_for_def created_def no_tables_def)
  then obtain gs so t where gs: "store_new_hotels S hs (mk_storage S file) = Inr (gs, so)" "storage_at S T so t" "hotels_hold t gs"
      "list_all2 (\<lambda>h g. hotel_eq h g = Inr True \<and> obj_revision g = 1) hs gs"
    using store_new_hotels_ok [OF assms(1) at hold assms(5)] by auto
  moreover have "distinct (map obj_id gs)" using gs(3) by (auto simp: hotels_hold_def)
  ultimately show ?thesis
    using load_all_hotels_ok [OF assms(2) gs(2,3)] load_hotel_by_id_ok [OF assms(2) gs(2,3)] by blast
qed

text \<open>The tables as a database that delivers rows in the order of their ids.\<close>

definition hotel_db :: "tables sqlite" where
  "hotel_db = table_db\<lparr>sq_run := (\<lambda>q args t. case selected_rows q args t of Some rows \<Rightarrow> (rows, SqliteDone, t) | None \<Rightarrow> sq_run table_db q args t)\<rparr>"

lemma hotel_db_ok: "sql_ok hotel_db (\<lambda>t. t)" "select_ok hotel_db (\<lambda>t. t)"
proof -
  have "selected_rows q args t = None" if "sql_effect q args t = Some r" for q args t r
    using that by (cases q) (simp_all add: sql_effect_def selected_rows_def split: if_splits)
  then show "sql_ok hotel_db (\<lambda>t. t)" by (auto simp: sql_ok_def hotel_db_def table_db_def)
  show "select_ok hotel_db (\<lambda>t. t)" by (auto simp: select_ok_def hotel_db_def)
qed

theorem hotels_survive_database_witness:
  "\<exists>g so. store_new_hotels hotel_db [demo_hotel] (mk_storage hotel_db []) = Inr ([g], so) \<and> hotel_eq demo_hotel g = Inr True
     \<and> (\<exists>k so'. loadHotelById hotel_db (obj_id g) so = Inr (Some k, so') \<and> hotel_content k = hotel_content g)"
proof -
  have "sq_open hotel_db [] = Some no_tables" by (simp add: hotel_db_def table_db_def)
  moreover have "list_all storable_hotel [demo_hotel]" using demo_hotel_ok
    by (simp add: storable_hotel_def) (simp add: demo_hotel_def mk_hotel_def mk_hotel_room_def mk_room_category_def plain_def)
  moreover have "sum_list (map rows_of_hotel [demo_hotel]) < 2147483648" by (simp add: rows_of_hotel_def demo_hotel_def)
  ultimately show ?thesis
    using hotels_survive_database [OF hotel_db_ok _ refl, of "[]" "[demo_hotel]"] by (fastforce simp: list_all2_Cons1)
qed

end
