(* ===== verification/RemoteBackend.thy ===== *)
theory RemoteBackend
  imports NetSession SqliteBackend
begin

text \<open>
  A backend used over the network.  \<open>NetClientBackend\<close> and the \<open>NetClientSession\<close> on the other end of its socket, together
  with the backend the session runs the commands on, as one system: callers, the IO threads of both ends and the backend's
  own thread interleave, and the bytes in between arrive in pieces of any size.  The specification is a program that
  calls the backend itself.
\<close>

section \<open>The calls of a client\<close>

text \<open>Promises and streams are named by the caller: \<open>QueueOperations\<close> with the token of the new promise, \<open>CreateStream\<close> with the
  address of the new stream and of its observer.  Resetting the handle of a stream disconnects it first.\<close>

datatype 'p call =
    QueueOperations "'p operation list" nat
  | CreateStream nat nat stream_type string json
  | RemoveStream nat

definition client_call ::
    "('d::linorder, 'p) gregorian \<Rightarrow> json_text \<Rightarrow> 'p call \<Rightarrow> (nat \<Rightarrow> data_stream) \<times> 'p net_client
       \<Rightarrow> ((nat \<Rightarrow> data_stream) \<times> 'p net_client) res" where
  "client_call G T k w =
     (case k of
        QueueOperations ops p \<Rightarrow> bindr (client_queueOperations G T ops p (snd w)) (\<lambda>c. Inr (fst w, c))
      | CreateStream a obs t service options \<Rightarrow> bindr (client_createStream T a obs t service options w) (\<lambda>(h, w'). Inr w')
      | RemoveStream a \<Rightarrow>
          let ds = disconnect (fst w a)
          in bindr (client_removeStream T ds (snd w)) (\<lambda>c. Inr ((fst w)(a := ds), c)))"

section \<open>Both ends and the bytes between them\<close>

text \<open>A reader has taken a number of bytes off the wire and waits for a header or a body with some bytes left over.\<close>

type_synonym read_state = "nat \<times> reader \<times> byte list"

definition take_bytes :: "nat \<Rightarrow> byte list \<Rightarrow> read_state \<Rightarrow> byte list list \<times> read_state" where
  "take_bytes k wire rs =
     (let (pos, r, left) = rs; chunk = take k (drop pos wire); (ms, r', left') = read_all r (left @ chunk)
      in (ms, pos + length chunk, r', left'))"

record ('p, 'b) remote =
  rm_store :: "nat \<Rightarrow> data_stream"
  rm_client :: "'p net_client"
  rm_session :: net_session
  rm_backend :: 'b
  rm_serverRead :: read_state
  rm_clientRead :: read_state

text \<open>What happens at the server apart from reading: a step \<open>e\<close> of the backend's own, the results of a task, which arrive
  once per future, and a change of a stream.\<close>

datatype ('p, 'e) server_event =
    Work 'e
  | TaskDone nat "task_result list"
  | StreamChanged int "'p change"

datatype ('p, 'e) remote_event =
    Call "'p call"
  | ConnectionUp
  | ClientWritten
  | ServerReads nat
  | SessionWritten
  | ClientReads nat
  | Server "('p, 'e) server_event"

definition remote_server_step ::
    "('d::linorder, 'p) gregorian \<Rightarrow> json_text \<Rightarrow> ('e \<Rightarrow> 'b \<Rightarrow> 'b) \<Rightarrow> ('p, 'e) server_event \<Rightarrow> ('p, 'b) remote \<Rightarrow> ('p, 'b) remote res" where
  "remote_server_step G T work e r =
     (case e of
        Work x \<Rightarrow> Inr (r\<lparr>rm_backend := work x (rm_backend r)\<rparr>)
      | TaskDone f results \<Rightarrow> bindr (session_results T f results (rm_session r)) (\<lambda>s. Inr (r\<lparr>rm_session := s\<rparr>))
      | StreamChanged i ch \<Rightarrow> bindr (notify (session_observer G T i) ch (rm_session r)) (\<lambda>s. Inr (r\<lparr>rm_session := s\<rparr>)))"

definition remote_step ::
    "('d::linorder, 'p) gregorian \<Rightarrow> json_text \<Rightarrow> ('p, 'b) backend_ops \<Rightarrow> ('e \<Rightarrow> 'b \<Rightarrow> 'b) \<Rightarrow> ('p, 'e) remote_event
       \<Rightarrow> ('p, 'b) remote \<Rightarrow> ('p, 'b) remote res" where
  "remote_step G T B work e r =
     (case e of
        Call k \<Rightarrow> bindr (client_call G T k (rm_store r, rm_client r)) (\<lambda>(st, c). Inr (r\<lparr>rm_store := st, rm_client := c\<rparr>))
      | ConnectionUp \<Rightarrow>
          if nc_status (rm_client r) = Connecting then
            bindr (socketConnected False (rm_client r)) (\<lambda>c. Inr (r\<lparr>rm_client := c\<rparr>))
          else Inr r
      | ClientWritten \<Rightarrow>
          if nc_writing (rm_client r) = None then Inr r
          else bindr (client_written (rm_client r)) (\<lambda>c. Inr (r\<lparr>rm_client := c\<rparr>))
      | ServerReads k \<Rightarrow>
          let (ms, rs) = take_bytes k (nc_wire (rm_client r)) (rm_serverRead r)
          in bindr (fold_res (session_bodyRead G T B) ms (rm_session r, rm_backend r)) (\<lambda>(s, b).
               Inr (r\<lparr>rm_session := s, rm_backend := b, rm_serverRead := rs\<rparr>))
      | SessionWritten \<Rightarrow>
          if ns_writing (rm_session r) = None then Inr r
          else bindr (session_written T (rm_session r)) (\<lambda>s. Inr (r\<lparr>rm_session := s\<rparr>))
      | ClientReads k \<Rightarrow>
          let (ms, rs) = take_bytes k (ns_wire (rm_session r)) (rm_clientRead r)
          in bindr (fold_res (client_bodyRead G T) ms (rm_client r)) (\<lambda>c. Inr (r\<lparr>rm_client := c, rm_clientRead := rs\<rparr>))
      | Server x \<Rightarrow> remote_server_step G T work x r)"

definition remote_start :: "'b \<Rightarrow> ('p, 'b) remote" where
  "remote_start b =
     \<lparr>rm_store = (\<lambda>_. mk_data_stream NullStream [] JNull), rm_client = mk_net_client, rm_session = mk_net_session,
      rm_backend = b, rm_serverRead = (0, WaitHeader, []), rm_clientRead = (0, WaitHeader, [])\<rparr>"

text \<open>Nothing is left to send or to read.\<close>

definition quiet :: "('p, 'b) remote \<Rightarrow> bool" where
  "quiet r \<longleftrightarrow> nc_status (rm_client r) = Connected \<and> nc_messages (rm_client r) = [] \<and> ns_outgoing (rm_session r) = []
     \<and> fst (rm_serverRead r) = length (nc_wire (rm_client r)) \<and> fst (rm_clientRead r) = length (ns_wire (rm_session r))"

section \<open>The specification: calling the backend\<close>

text \<open>A program next to the backend keeps the handles of its streams by address and the promises of its tasks by the
  backend's future.  It numbers both, as the client does: the backend is told the number of a new stream's observer.\<close>

datatype 'p outcome = Resolved int nat "task_result list" | Changed int "'p change"

record numbering =
  nu_task :: int
  nu_stream :: int
  nu_ids :: "nat \<Rightarrow> int"
  nu_issued :: "(int \<times> nat) list"

datatype 'p command = Schedule int "'p operation list" | Open int stream_type string json | Close int

fun number_call :: "'p call \<Rightarrow> numbering \<Rightarrow> 'p command \<times> numbering" where
  "number_call (QueueOperations ops p) n =
     (Schedule (nu_task n + 1) ops, n\<lparr>nu_task := nu_task n + 1, nu_issued := nu_issued n @ [(nu_task n + 1, p)]\<rparr>)"
| "number_call (CreateStream a obs t service options) n =
     (Open (nu_stream n) t service options, n\<lparr>nu_stream := nu_stream n + 1, nu_ids := (nu_ids n)(a := nu_stream n)\<rparr>)"
| "number_call (RemoveStream a) n = (Close (nu_ids n a), n)"

definition numbering_start :: numbering where
  "numbering_start = \<lparr>nu_task = 1, nu_stream = 1, nu_ids = (\<lambda>_. 0), nu_issued = []\<rparr>"

record ('p, 'b) direct =
  dr_number :: numbering
  dr_handles :: "nat \<Rightarrow> nat option"
  dr_tasks :: "(nat \<times> int \<times> nat) list"
  dr_backend :: 'b
  dr_outcomes :: "'p outcome list"

definition direct_start :: "'b \<Rightarrow> ('p, 'b) direct" where
  "direct_start b =
     \<lparr>dr_number = numbering_start, dr_handles = (\<lambda>_. None), dr_tasks = [], dr_backend = b, dr_outcomes = []\<rparr>"

definition direct_call :: "('p, 'b) backend_ops \<Rightarrow> 'p call \<Rightarrow> ('p, 'b) direct \<Rightarrow> ('p, 'b) direct" where
  "direct_call B k d =
     (let d' = d\<lparr>dr_number := snd (number_call k (dr_number d))\<rparr>
      in case k of
           QueueOperations ops p \<Rightarrow>
             let (f, b) = b_queueOperations B (map wire_operation ops) (dr_backend d)
             in d'\<lparr>dr_tasks := dr_tasks d @ [(f, nu_task (dr_number d) + 1, p)], dr_backend := b\<rparr>
         | CreateStream a obs t service options \<Rightarrow>
             let (h, b) = b_createStream B (nu_stream (dr_number d)) (stream_type_int t) service options (dr_backend d)
             in d'\<lparr>dr_handles := (dr_handles d)(a := Some h), dr_backend := b\<rparr>
         | RemoveStream a \<Rightarrow>
             (case dr_handles d a of
                None \<Rightarrow> d'
              | Some h \<Rightarrow> d'\<lparr>dr_handles := (dr_handles d)(a := None), dr_backend := b_removeStream B h (dr_backend d)\<rparr>))"

definition direct_server :: "('e \<Rightarrow> 'b \<Rightarrow> 'b) \<Rightarrow> ('p, 'e) server_event \<Rightarrow> ('p, 'b) direct \<Rightarrow> ('p, 'b) direct" where
  "direct_server work e d =
     (case e of
        Work x \<Rightarrow> d\<lparr>dr_backend := work x (dr_backend d)\<rparr>
      | TaskDone f results \<Rightarrow>
          (case find_index (\<lambda>t. fst t = f) (dr_tasks d) of
             None \<Rightarrow> d
           | Some k \<Rightarrow>
               d\<lparr>dr_tasks := take k (dr_tasks d) @ drop (Suc k) (dr_tasks d),
                 dr_outcomes := dr_outcomes d @ [case dr_tasks d ! k of (_, i, p) \<Rightarrow> Resolved i p results]\<rparr>)
      | StreamChanged i ch \<Rightarrow> d\<lparr>dr_outcomes := dr_outcomes d @ [Changed i ch]\<rparr>)"

text \<open>A history of the backend: its calls and what happened at the server, in order.\<close>

definition direct_step ::
    "('p, 'b) backend_ops \<Rightarrow> ('e \<Rightarrow> 'b \<Rightarrow> 'b) \<Rightarrow> 'p call + ('p, 'e) server_event \<Rightarrow> ('p, 'b) direct \<Rightarrow> ('p, 'b) direct" where
  "direct_step B work x d = (case x of Inl k \<Rightarrow> direct_call B k d | Inr e \<Rightarrow> direct_server work e d)"

text \<open>What a caller sees of the outcomes: the promises resolved and the changes to apply.  The format of the messages loses
  the owners of reservations, and the client ignores the clearing of a stream.\<close>

definition resolutions :: "'p outcome list \<Rightarrow> (nat \<times> task_result list) list" where
  "resolutions outs = concat (map (\<lambda>x. case x of Resolved i p rs \<Rightarrow> [(p, rs)] | Changed i c \<Rightarrow> []) outs)"

definition changes_seen :: "'p outcome list \<Rightarrow> 'p differential list" where
  "changes_seen outs =
     concat (map (\<lambda>x. case x of Resolved i p rs \<Rightarrow> [] | Changed i c \<Rightarrow> if c = Cleared then [] else [(i, wire_change c)]) outs)"

section \<open>Messages\<close>

definition command_json :: "('d::linorder, 'p) gregorian \<Rightarrow> 'p command \<Rightarrow> json res" where
  "command_json G cmd =
     (case cmd of
        Schedule i ops \<Rightarrow> bindr (map_res (serialize_operation G) ops) (\<lambda>xs. Inr (json_set ''operations'' (JArray xs)
          (json_set ''id'' (JInt i) (json_set ''op'' (JString ''schedule_operations'') JNull))))
      | Open i t service options \<Rightarrow> Inr (json_set ''options'' options (json_set ''service'' (JString service)
          (json_set ''type'' (JInt (stream_type_int t)) (json_set ''id'' (JInt i)
            (json_set ''op'' (JString ''create_stream'') JNull)))))
      | Close i \<Rightarrow> Inr (json_set ''id'' (JInt i) (json_set ''op'' (JString ''remove_stream'') JNull)))"

definition command_message :: "('d::linorder, 'p) gregorian \<Rightarrow> json_text \<Rightarrow> 'p command \<Rightarrow> byte list" where
  "command_message G T cmd = (case command_json G cmd of Inr j \<Rightarrow> dump T j | Inl _ \<Rightarrow> [])"

definition outcome_json :: "('d::linorder, 'p) gregorian \<Rightarrow> 'p outcome \<Rightarrow> json res" where
  "outcome_json G x = (case x of Resolved i p rs \<Rightarrow> Inr (serializeTaskResultsMessage i rs) | Changed i c \<Rightarrow> change_message G i c)"

definition outcome_message :: "('d::linorder, 'p) gregorian \<Rightarrow> json_text \<Rightarrow> 'p outcome \<Rightarrow> byte list" where
  "outcome_message G T x = (case outcome_json G x of Inr j \<Rightarrow> dump T j | Inl _ \<Rightarrow> [])"

definition numbered :: "'p call \<Rightarrow> int \<Rightarrow> 'p command" where
  "numbered k i =
     (case k of QueueOperations ops p \<Rightarrow> Schedule i ops | CreateStream a obs t service options \<Rightarrow> Open i t service options
      | RemoveStream a \<Rightarrow> Close i)"

text \<open>What is asked of the events: items that the formats can express, and messages of less than four gigabytes, whatever
  number up to \<open>N\<close> they carry.\<close>

definition call_ok :: "('d::linorder, 'p) gregorian \<Rightarrow> 'p call \<Rightarrow> bool" where
  "call_ok G k = (case k of QueueOperations ops p \<Rightarrow> list_all (operation_ok G) ops | _ \<Rightarrow> True)"

definition event_ok :: "('d::linorder, 'p) gregorian \<Rightarrow> json_text \<Rightarrow> int \<Rightarrow> ('p, 'e) remote_event \<Rightarrow> bool" where
  "event_ok G T N e =
     (case e of
        Call k \<Rightarrow> call_ok G k \<and> list_all (\<lambda>i. fits (command_message G T (numbered k i))) [0..N]
      | Server (TaskDone f rs) \<Rightarrow>
          list_all result_ok rs \<and> list_all (\<lambda>i. fits (dump T (serializeTaskResultsMessage i rs))) [0..N]
      | Server (StreamChanged i ch) \<Rightarrow> int32 i \<and> change_ok G ch \<and> fits (outcome_message G T (Changed i ch))
      | _ \<Rightarrow> True)"

section \<open>Numbering\<close>

fun commands :: "'p call list \<Rightarrow> numbering \<Rightarrow> 'p command list" where
  "commands [] n = []"
| "commands (k # ks) n = fst (number_call k n) # commands ks (snd (number_call k n))"

definition number_calls :: "'p call list \<Rightarrow> numbering \<Rightarrow> numbering" where
  "number_calls ks n = fold (\<lambda>k n. snd (number_call k n)) ks n"

lemma number_calls_simps [simp]:
  "number_calls [] n = n" "number_calls (k # ks) n = number_calls ks (snd (number_call k n))"
  "number_calls (ks @ ls) n = number_calls ls (number_calls ks n)"
  by (simp_all add: number_calls_def)

lemma commands_append: "commands (ks @ ls) n = commands ks n @ commands ls (number_calls ks n)"
  by (induction ks arbitrary: n) simp_all

lemma length_commands [simp]: "length (commands ks n) = length ks"
  by (induction ks arbitrary: n) simp_all

lemma commands_take: "take k (commands ks n) = commands (take k ks) n"
  by (induction ks arbitrary: k n) (auto simp: take_Cons split: nat.split)

definition numbering_ok :: "int \<Rightarrow> numbering \<Rightarrow> bool" where
  "numbering_ok N n \<longleftrightarrow> 1 \<le> nu_task n \<and> nu_task n \<le> N \<and> 1 \<le> nu_stream n \<and> nu_stream n \<le> N
     \<and> distinct (map fst (nu_issued n)) \<and> (\<forall>i \<in> fst ` set (nu_issued n). 0 < i \<and> i \<le> nu_task n)
     \<and> (\<forall>a. 0 \<le> nu_ids n a \<and> nu_ids n a < nu_stream n)
     \<and> (\<forall>a a'. nu_ids n a = nu_ids n a' \<longrightarrow> nu_ids n a \<noteq> 0 \<longrightarrow> a = a')"

lemma numbering_start_ok: "numbering_ok 1 numbering_start"
  by (simp add: numbering_ok_def numbering_start_def)

lemma numbering_ok_mono: "numbering_ok N n \<Longrightarrow> N \<le> M \<Longrightarrow> numbering_ok M n"
  by (auto simp: numbering_ok_def)

lemma number_call_ok:
  assumes "numbering_ok N n"
  shows "numbering_ok (N + 1) (snd (number_call k n))"
proof (cases k)
  case (CreateStream a obs t service options)
  have old: "0 \<le> nu_ids n b" "nu_ids n b < nu_stream n" for b using assms by (auto simp: numbering_ok_def)
  then have "nu_stream n \<noteq> nu_ids n b" "nu_ids n b \<noteq> nu_stream n" "nu_ids n b < nu_stream n + 1" for b
    by (metis less_irrefl, metis less_irrefl, metis zless_add1_eq)
  then show ?thesis using assms old(1) CreateStream by (simp add: numbering_ok_def)
next
  case (QueueOperations ops p)
  have "nu_task n + 1 \<notin> fst ` set (nu_issued n)" using assms unfolding numbering_ok_def by force
  then show ?thesis using assms QueueOperations by (auto simp: numbering_ok_def)
next
  case (RemoveStream a)
  then show ?thesis using assms by (auto simp: numbering_ok_def)
qed

lemma number_calls_ok: "numbering_ok N n \<Longrightarrow> numbering_ok (N + int (length ks)) (number_calls ks n)"
proof (induction ks arbitrary: n N)
  case (Cons k ks)
  then show ?case using Cons.IH [OF number_call_ok [OF Cons.prems]] by (simp add: algebra_simps)
qed simp

lemma number_call_issued: "set (nu_issued n) \<subseteq> set (nu_issued (snd (number_call k n)))"
  by (cases k) auto

lemma number_calls_issued: "set (nu_issued n) \<subseteq> set (nu_issued (number_calls ks n))"
proof (induction ks arbitrary: n)
  case (Cons k ks)
  then show ?case using number_call_issued [of n k] by fastforce
qed simp

lemma command_numbered:
  assumes "numbering_ok N n"
  shows "\<exists>i. fst (number_call k n) = numbered k i \<and> 0 \<le> i \<and> i \<le> N + 1"
proof (cases k)
  case (RemoveStream a)
  have "0 \<le> nu_ids n a" "nu_ids n a < nu_stream n" "nu_stream n \<le> N" using assms by (auto simp: numbering_ok_def)
  then have "0 \<le> nu_ids n a \<and> nu_ids n a \<le> N + 1" by linarith
  then show ?thesis using RemoveStream by (auto simp: numbered_def)
qed (use assms in \<open>auto simp: numbered_def numbering_ok_def\<close>)

section \<open>The client's end\<close>

definition client_sending :: "byte list list \<Rightarrow> 'p net_client \<Rightarrow> bool" where
  "client_sending sent c \<longleftrightarrow>
     (if nc_status c = Connected then client_sender.sender_ok sent c
      else nc_status c = Connecting \<and> nc_messages c = sent \<and> nc_writing c = None \<and> nc_wire c = [])"

text \<open>The counters and the running tasks of the client, when the results of the tasks \<open>seen\<close> have arrived.\<close>

definition client_numbers :: "numbering \<Rightarrow> int set \<Rightarrow> (nat \<Rightarrow> data_stream) \<Rightarrow> 'p net_client \<Rightarrow> bool" where
  "client_numbers n seen st c \<longleftrightarrow> nc_nextOperationId c = nu_task n \<and> nc_nextStreamId c = nu_stream n
     \<and> (\<forall>a. ds_id (st a) = nu_ids n a) \<and> omap_ok (nc_tasks c)
     \<and> (\<forall>i. omap_find (nc_tasks c) i = (if i \<in> seen then None else map_of (nu_issued n) i))"

lemma submit_sending:
  assumes "client_sending sent c"
  shows "\<exists>w. client_submit m c = Inr (c\<lparr>nc_messages := nc_messages c @ [m], nc_writing := w\<rparr>)
    \<and> client_sending (sent @ [m]) (c\<lparr>nc_messages := nc_messages c @ [m], nc_writing := w\<rparr>)"
proof (cases "nc_status c = Connected")
  case True
  let ?w = "if nc_messages c = [] then Some (frame m) else nc_writing c"
  have s: "client_submit m c = Inr (c\<lparr>nc_messages := nc_messages c @ [m], nc_writing := ?w\<rparr>)"
    using True by (simp add: client_submit_def doSumitMessages_def split: list.split)
  have "client_sender.sender_ok sent c" using assms True by (simp add: client_sending_def)
  then have "client_sender.sender_ok (sent @ [m]) (c\<lparr>nc_messages := nc_messages c @ [m], nc_writing := ?w\<rparr>)"
    by (auto simp: client_sender.sender_ok_def client_active_def split: list.splits)
  then show ?thesis using s True by (intro exI [of _ ?w]) (simp add: client_sending_def)
next
  case False
  then show ?thesis using assms
    by (intro exI [of _ None]) (auto simp: client_sending_def client_submit_def)
qed

lemma written_sending:
  assumes "client_sending sent c" and "nc_writing c = Some buf"
  shows "\<exists>q w. client_written c = Inr (c\<lparr>nc_messages := q, nc_writing := w, nc_wire := nc_wire c @ buf\<rparr>)
    \<and> client_sending sent (c\<lparr>nc_messages := q, nc_writing := w, nc_wire := nc_wire c @ buf\<rparr>)"
proof -
  have ok: "client_sender.sender_ok sent c" "nc_status c = Connected"
    using assms by (auto simp: client_sending_def split: if_splits)
  then obtain m q where q: "nc_messages c = m # q" "buf = frame m"
    using assms(2) by (auto simp: client_sender.sender_ok_def split: list.splits)
  let ?w = "case q of [] \<Rightarrow> None | r # _ \<Rightarrow> Some (frame r)"
  have "client_written c = Inr (c\<lparr>nc_messages := q, nc_writing := ?w, nc_wire := nc_wire c @ buf\<rparr>)"
    using q assms(2) by (simp add: client_written_def doSumitMessages_def split: list.split)
  moreover obtain gone where "sent = gone @ m # q" "nc_wire c = concat (map frame gone)"
    using ok(1) q by (auto simp: client_sender.sender_ok_def)
  then have "client_sender.sender_ok sent (c\<lparr>nc_messages := q, nc_writing := ?w, nc_wire := nc_wire c @ buf\<rparr>)"
    using ok q(2) by (auto simp: client_sender.sender_ok_def client_active_def intro: exI [of _ "gone @ [m]"])
  ultimately show ?thesis using ok(2) by (auto simp: client_sending_def)
qed

lemma connected_sending:
  assumes "client_sending sent c" and "nc_status c = Connecting"
  shows "\<exists>w. socketConnected False c = Inr (c\<lparr>nc_status := Connected, nc_writing := w\<rparr>)
    \<and> client_sending sent (c\<lparr>nc_status := Connected, nc_writing := w\<rparr>)"
proof -
  let ?w = "case nc_messages c of [] \<Rightarrow> None | m # _ \<Rightarrow> Some (frame m)"
  have c: "nc_messages c = sent" "nc_writing c = None" "nc_wire c = []" using assms by (auto simp: client_sending_def)
  then have "socketConnected False c = Inr (c\<lparr>nc_status := Connected, nc_writing := ?w\<rparr>)"
    by (cases sent) (simp_all add: socketConnected_def doSumitMessages_def)
  moreover have "client_sender.sender_ok sent (c\<lparr>nc_status := Connected, nc_writing := ?w\<rparr>)"
    using c by (simp add: client_sender.sender_ok_def client_active_def)
  ultimately show ?thesis by (auto simp: client_sending_def)
qed

lemma operations_roundtrip:
  assumes "gregorian_ok G"
  shows "list_all (operation_ok G) ops \<Longrightarrow>
    \<exists>js. map_res (serialize_operation G) ops = Inr js \<and> map_res (deserialize_operation G) js = Inr (map wire_operation ops)"
proof (induction ops)
  case (Cons x ops)
  then obtain js where "map_res (serialize_operation G) ops = Inr js" "map_res (deserialize_operation G) js = Inr (map wire_operation ops)"
    by auto
  moreover obtain j where "serialize_operation G x = Inr j" "deserialize_operation G j = Inr (wire_operation x)"
    using operation_roundtrip [OF assms, of x] Cons.prems by auto
  ultimately have "map_res (serialize_operation G) (x # ops) = Inr (j # js)"
    "map_res (deserialize_operation G) (j # js) = Inr (map wire_operation (x # ops))" by simp_all
  then show ?case by blast
qed simp

lemma map_of_snoc: "i \<notin> fst ` set xs \<Longrightarrow> map_of (xs @ [(i, v)]) j = (if j = i then Some v else map_of xs j)"
  by (induction xs) auto

text \<open>A call submits exactly one message, and changes nothing but what is waiting to be sent and the numbering.\<close>

definition same_answers :: "'p net_client \<Rightarrow> 'p net_client \<Rightarrow> bool" where
  "same_answers c c' \<longleftrightarrow> nc_status c' = nc_status c \<and> nc_wire c' = nc_wire c \<and> nc_resolved c' = nc_resolved c
     \<and> cq_pending (nc_changes c') = cq_pending (nc_changes c)"

lemma client_call_ok:
  assumes G: "gregorian_ok G" and k: "call_ok G k" and n: "numbering_ok N n"
    and c: "client_sending sent c" "client_numbers n seen st c" and seen: "seen \<subseteq> fst ` set (nu_issued n)"
  shows "\<exists>st' c'. client_call G T k (st, c) = Inr (st', c')
    \<and> client_sending (sent @ [command_message G T (fst (number_call k n))]) c'
    \<and> client_numbers (snd (number_call k n)) seen st' c' \<and> same_answers c c'"
proof (cases k)
  case (QueueOperations ops p)
  let ?i = "nu_task n + 1"
  have fresh: "?i \<notin> fst ` set (nu_issued n)" using n unfolding numbering_ok_def by force
  then have none: "omap_find (nc_tasks c) ?i = None" using c(2) by (auto simp: client_numbers_def map_of_eq_None_iff)
  let ?c = "c\<lparr>nc_nextOperationId := ?i, nc_tasks := omap_put ?i p (nc_tasks c)\<rparr>"
  obtain js where js: "map_res (serialize_operation G) ops = Inr js"
    using operations_roundtrip [OF G] k QueueOperations by (auto simp: call_ok_def)
  have "client_sending sent ?c" using c(1) by (auto simp: client_sending_def client_sender.sender_ok_def client_active_def)
  note sub = submit_sending [OF this, of "command_message G T (Schedule ?i ops)"]
  then obtain w where w: "client_submit (command_message G T (Schedule ?i ops)) ?c
        = Inr (?c\<lparr>nc_messages := nc_messages ?c @ [command_message G T (Schedule ?i ops)], nc_writing := w\<rparr>)"
      "client_sending (sent @ [command_message G T (Schedule ?i ops)])
        (?c\<lparr>nc_messages := nc_messages ?c @ [command_message G T (Schedule ?i ops)], nc_writing := w\<rparr>)" by blast
  have "client_call G T k (st, c) = Inr (st, ?c\<lparr>nc_messages := nc_messages ?c @ [command_message G T (Schedule ?i ops)], nc_writing := w\<rparr>)"
    using w(1) js none c(2) QueueOperations
    by (simp add: client_call_def client_queueOperations_def client_numbers_def command_message_def command_json_def Let_def)
  moreover have "map_of (nu_issued n @ [(?i, p)]) j = (if j = ?i then Some p else map_of (nu_issued n) j)" for j
    using map_of_snoc [OF fresh] .
  then have "client_numbers (snd (number_call k n)) seen st
      (?c\<lparr>nc_messages := nc_messages ?c @ [command_message G T (Schedule ?i ops)], nc_writing := w\<rparr>)"
    using c(2) fresh seen QueueOperations by (auto simp: client_numbers_def simp del: map_of_append)
  ultimately show ?thesis using w(2) QueueOperations by (auto simp: same_answers_def)
next
  case (CreateStream a obs t service options)
  let ?i = "nu_stream n" and ?m = "command_message G T (Open (nu_stream n) t service options)"
  let ?c = "c\<lparr>nc_changes := addStream a (nc_changes c)\<rparr>"
  have "client_sending sent ?c" using c(1) by (auto simp: client_sending_def client_sender.sender_ok_def client_active_def)
  then obtain w where w: "client_submit ?m ?c = Inr (?c\<lparr>nc_messages := nc_messages ?c @ [?m], nc_writing := w\<rparr>)"
      "client_sending (sent @ [?m]) (?c\<lparr>nc_messages := nc_messages ?c @ [?m], nc_writing := w\<rparr>)"
    using submit_sending by blast
  let ?ds = "(mk_data_stream t service options)\<lparr>ds_id := ?i, ds_observer := Some obs\<rparr>"
  let ?c' = "?c\<lparr>nc_messages := nc_messages ?c @ [?m], nc_writing := w, nc_nextStreamId := ?i + 1\<rparr>"
  have "connect_stream ?i obs (mk_data_stream t service options) = Inr ?ds"
    by (simp add: connect_stream_def mk_data_stream_def assert_that_def)
  then have "client_call G T k (st, c) = Inr (st(a := ?ds), ?c')"
    using w(1) c(2) CreateStream
    by (simp add: client_call_def client_createStream_def client_numbers_def command_message_def command_json_def Let_def)
  moreover have "client_sending (sent @ [?m]) ?c'"
    using w(2) by (auto simp: client_sending_def client_sender.sender_ok_def client_active_def)
  ultimately show ?thesis using c(2) CreateStream
    by (auto simp: client_numbers_def same_answers_def addStream_def)
next
  case (RemoveStream a)
  let ?m = "command_message G T (Close (nu_ids n a))"
  obtain w where w: "client_submit ?m c = Inr (c\<lparr>nc_messages := nc_messages c @ [?m], nc_writing := w\<rparr>)"
      "client_sending (sent @ [?m]) (c\<lparr>nc_messages := nc_messages c @ [?m], nc_writing := w\<rparr>)"
    using submit_sending [OF c(1)] by blast
  have "client_call G T k (st, c) = Inr (st(a := disconnect (st a)), c\<lparr>nc_messages := nc_messages c @ [?m], nc_writing := w\<rparr>)"
    using w(1) c(2) RemoveStream
    by (simp add: client_call_def client_removeStream_def client_numbers_def command_message_def command_json_def disconnect_def)
  then show ?thesis using w(2) c(2) RemoveStream
    by (auto simp: client_numbers_def same_answers_def disconnect_def)
qed

text \<open>Reading the messages of outcomes resolves the promises and queues the changes.\<close>

definition outcome_ok :: "('d::linorder, 'p) gregorian \<Rightarrow> 'p outcome \<Rightarrow> bool" where
  "outcome_ok G x = (case x of Resolved i p rs \<Rightarrow> int32 i \<and> list_all result_ok rs | Changed i c \<Rightarrow> int32 i \<and> change_ok G c)"

definition outcome_ids :: "'p outcome list \<Rightarrow> int list" where
  "outcome_ids outs = concat (map (\<lambda>x. case x of Resolved i p rs \<Rightarrow> [i] | Changed i c \<Rightarrow> []) outs)"

definition outcome_tasks :: "'p outcome list \<Rightarrow> (int \<times> nat) list" where
  "outcome_tasks outs = concat (map (\<lambda>x. case x of Resolved i p rs \<Rightarrow> [(i, p)] | Changed i c \<Rightarrow> []) outs)"

lemma outcome_simps [simp]:
  "outcome_ids [] = []" "outcome_ids (xs @ ys) = outcome_ids xs @ outcome_ids ys"
  "outcome_ids [Resolved i p rs] = [i]" "outcome_ids [Changed i c] = []"
  "outcome_tasks [] = []" "outcome_tasks (xs @ ys) = outcome_tasks xs @ outcome_tasks ys"
  "outcome_tasks [Resolved i p rs] = [(i, p)]" "outcome_tasks [Changed i c] = []"
  "resolutions [] = []" "resolutions (xs @ ys) = resolutions xs @ resolutions ys"
  "resolutions [Resolved i p rs] = [(p, rs)]" "resolutions [Changed i c] = []"
  "changes_seen [] = []" "changes_seen (xs @ ys) = changes_seen xs @ changes_seen ys"
  "changes_seen [Resolved i p rs] = []" "changes_seen [Changed i c] = (if c = Cleared then [] else [(i, wire_change c)])"
  by (simp_all add: outcome_ids_def outcome_tasks_def resolutions_def changes_seen_def)

lemma outcome_Cons:
  "outcome_tasks (x # xs) = outcome_tasks [x] @ outcome_tasks xs" "outcome_ids (x # xs) = outcome_ids [x] @ outcome_ids xs"
  "resolutions (x # xs) = resolutions [x] @ resolutions xs" "changes_seen (x # xs) = changes_seen [x] @ changes_seen xs"
  by (simp_all add: outcome_ids_def outcome_tasks_def resolutions_def changes_seen_def)

definition same_sending :: "'p net_client \<Rightarrow> 'p net_client \<Rightarrow> bool" where
  "same_sending c c' \<longleftrightarrow> nc_status c' = nc_status c \<and> nc_messages c' = nc_messages c \<and> nc_writing c' = nc_writing c
     \<and> nc_wire c' = nc_wire c"

lemma same_sending_sending: "same_sending c c' \<Longrightarrow> client_sending sent c \<Longrightarrow> client_sending sent c'"
  by (auto simp: same_sending_def client_sending_def client_sender.sender_ok_def client_active_def)

lemma client_reads_outcome:
  assumes G: "gregorian_ok G" and T: "text_ok T" and x: "outcome_ok G x" and c: "client_numbers n seen st c"
    and task: "set (outcome_tasks [x]) \<subseteq> set (nu_issued n)" "seen \<inter> set (outcome_ids [x]) = {}" and n: "distinct (map fst (nu_issued n))"
  shows "\<exists>c'. client_bodyRead G T (outcome_message G T x) c = Inr c' \<and> client_numbers n (seen \<union> set (outcome_ids [x])) st c'
    \<and> same_sending c c' \<and> nc_resolved c' = nc_resolved c @ resolutions [x]
    \<and> cq_pending (nc_changes c') = cq_pending (nc_changes c) @ changes_seen [x]"
proof (cases x)
  case (Resolved i p rs)
  have "omap_find (nc_tasks c) i = Some p" using c task Resolved n by (auto simp: client_numbers_def)
  then have "client_bodyRead G T (outcome_message G T x) c
      = Inr (c\<lparr>nc_resolved := nc_resolved c @ [(p, rs)], nc_tasks := omap_erase i (nc_tasks c)\<rparr>)"
    using task_results_processed [of i rs G c] x Resolved T
    by (simp add: client_bodyRead_def outcome_message_def outcome_json_def outcome_ok_def text_ok_def)
  then show ?thesis using c Resolved by (auto simp: client_numbers_def same_sending_def)
next
  case (Changed i ch)
  obtain j where j: "change_message G i ch = Inr j"
      "client_processMessage G j c = Inr (if ch = Cleared then c else client_streamChange i (wire_change ch) c)"
    using change_message_processed [OF G, of ch i c] x Changed by (auto simp: outcome_ok_def)
  then have "client_bodyRead G T (outcome_message G T x) c
      = Inr (if ch = Cleared then c else client_streamChange i (wire_change ch) c)"
    using Changed T by (simp add: client_bodyRead_def outcome_message_def outcome_json_def text_ok_def)
  then show ?thesis using c Changed
    by (auto simp: client_numbers_def same_sending_def client_streamChange_def addStreamChange_def)
qed

lemma client_reads_outcomes:
  assumes G: "gregorian_ok G" and T: "text_ok T" and n: "distinct (map fst (nu_issued n))"
  shows "list_all (outcome_ok G) xs \<Longrightarrow> client_numbers n seen st c \<Longrightarrow> set (outcome_tasks xs) \<subseteq> set (nu_issued n) \<Longrightarrow>
      seen \<inter> set (outcome_ids xs) = {} \<Longrightarrow> distinct (outcome_ids xs) \<Longrightarrow>
    \<exists>c'. fold_res (client_bodyRead G T) (map (outcome_message G T) xs) c = Inr c'
      \<and> client_numbers n (seen \<union> set (outcome_ids xs)) st c'
      \<and> same_sending c c' \<and> nc_resolved c' = nc_resolved c @ resolutions xs
      \<and> cq_pending (nc_changes c') = cq_pending (nc_changes c) @ changes_seen xs"
proof (induction xs arbitrary: seen c)
  case Nil
  then show ?case by (simp add: same_sending_def)
next
  case (Cons x xs)
  have "set (outcome_tasks [x]) \<subseteq> set (nu_issued n)" "set (outcome_tasks xs) \<subseteq> set (nu_issued n)"
    using Cons.prems(3) by (simp_all add: outcome_Cons [of x xs])
  then obtain c1 where c1: "client_bodyRead G T (outcome_message G T x) c = Inr c1"
      "client_numbers n (seen \<union> set (outcome_ids [x])) st c1" "same_sending c c1" "nc_resolved c1 = nc_resolved c @ resolutions [x]"
      "cq_pending (nc_changes c1) = cq_pending (nc_changes c) @ changes_seen [x]"
    using client_reads_outcome [OF G T _ Cons.prems(2) _ _ n, of x] Cons.prems(1,4) unfolding outcome_Cons(2) [of x xs] by auto
  have disjoint: "(seen \<union> set (outcome_ids [x])) \<inter> set (outcome_ids xs) = {}" "distinct (outcome_ids xs)"
    using Cons.prems(4,5) unfolding outcome_Cons(2) [of x xs] by auto
  then obtain c2 where c2: "fold_res (client_bodyRead G T) (map (outcome_message G T) xs) c1 = Inr c2"
      "client_numbers n (seen \<union> set (outcome_ids [x]) \<union> set (outcome_ids xs)) st c2" "same_sending c1 c2"
      "nc_resolved c2 = nc_resolved c1 @ resolutions xs"
      "cq_pending (nc_changes c2) = cq_pending (nc_changes c1) @ changes_seen xs"
    using Cons.IH [OF _ c1(2) \<open>set (outcome_tasks xs) \<subseteq> _\<close> disjoint] Cons.prems(1) by auto
  show ?case unfolding outcome_Cons [of x xs] using c1 c2 by (auto simp: same_sending_def Un_assoc)
qed

section \<open>The server's end\<close>

text \<open>The session's streams and running operations are those of the program next to the backend.\<close>

definition session_direct :: "net_session \<Rightarrow> ('p, 'b) direct \<Rightarrow> bool" where
  "session_direct s d \<longleftrightarrow>
     map (\<lambda>r. (fst r, fst (snd r))) (filter (\<lambda>r. \<not> snd (snd r)) (ns_running s)) = map (\<lambda>t. (fst t, JInt (fst (snd t)))) (dr_tasks d)
     \<and> distinct (map snd (ns_streams s)) \<and> (\<forall>i \<in> snd ` set (ns_streams s). 0 < i \<and> i < nu_stream (dr_number d))
     \<and> (\<forall>a. dr_handles d a = map_of (map prod.swap (ns_streams s)) (nu_ids (dr_number d) a))"

lemma session_direct_written:
  "ns_streams s' = ns_streams s \<Longrightarrow> ns_running s' = ns_running s \<Longrightarrow> session_direct s' d = session_direct s d"
  by (simp add: session_direct_def)

definition same_output :: "net_session \<Rightarrow> net_session \<Rightarrow> bool" where
  "same_output s s' \<longleftrightarrow> ns_outgoing s' = ns_outgoing s \<and> ns_writing s' = ns_writing s \<and> ns_wire s' = ns_wire s"

lemma same_output_ok: "same_output s s' \<Longrightarrow> session_sender.sender_ok T sent s \<Longrightarrow> session_sender.sender_ok T sent s'"
  by (auto simp: same_output_def session_sender.sender_ok_def session_active_def)

definition direct_ok :: "('d::linorder, 'p) gregorian \<Rightarrow> json_text \<Rightarrow> int \<Rightarrow> ('p, 'b) direct \<Rightarrow> bool" where
  "direct_ok G T N d \<longleftrightarrow> numbering_ok N (dr_number d)
     \<and> distinct (outcome_ids (dr_outcomes d) @ map (\<lambda>t. fst (snd t)) (dr_tasks d))
     \<and> set (outcome_tasks (dr_outcomes d)) \<union> set (map snd (dr_tasks d)) \<subseteq> set (nu_issued (dr_number d))
     \<and> list_all (outcome_ok G) (dr_outcomes d) \<and> list_all (\<lambda>x. fits (outcome_message G T x)) (dr_outcomes d)"

lemma outcome_ids_tasks: "outcome_ids outs = map fst (outcome_tasks outs)"
  by (induction outs) (auto simp: outcome_ids_def outcome_tasks_def split: outcome.splits)

lemma direct_call_ok:
  assumes d: "direct_ok G T N d"
  shows "direct_ok G T (N + 1) (direct_call B k d)"
proof (cases k)
  case (QueueOperations ops p)
  let ?i = "nu_task (dr_number d) + 1"
  have "?i \<notin> fst ` set (nu_issued (dr_number d))" using d unfolding direct_ok_def numbering_ok_def by force
  then have "?i \<notin> set (outcome_ids (dr_outcomes d))" "?i \<notin> (\<lambda>t. fst (snd t)) ` set (dr_tasks d)"
    using d unfolding direct_ok_def outcome_ids_tasks by force+
  then show ?thesis using d number_call_ok [of N "dr_number d" k] QueueOperations
    by (auto simp: direct_ok_def direct_call_def Let_def split: prod.split)
next
  case (CreateStream a obs t service options)
  then show ?thesis using d number_call_ok [of N "dr_number d" k]
    by (auto simp: direct_ok_def direct_call_def Let_def split: prod.split)
next
  case (RemoveStream a)
  then show ?thesis using d number_call_ok [of N "dr_number d" k]
    by (auto simp: direct_ok_def direct_call_def Let_def split: option.split)
qed

lemma map_of_remove:
  "distinct (map fst xs) \<Longrightarrow> k < length xs \<Longrightarrow>
     map_of (take k xs @ drop (Suc k) xs) j = (if j = fst (xs ! k) then None else map_of xs j)"
proof (induction xs arbitrary: k)
  case (Cons x xs)
  show ?case
  proof (cases k)
    case 0
    then show ?thesis using Cons.prems by (auto simp: map_of_eq_None_iff)
  next
    case (Suc m)
    then have "fst x \<noteq> fst (xs ! m)" using Cons.prems by (auto simp: image_iff)
    then show ?thesis using Cons.IH [of m] Cons.prems Suc by (auto simp del: map_of_append)
  qed
qed simp

lemma session_opens:
  assumes s: "session_direct s d" and n: "numbering_ok N (dr_number d)" "N < 2147483648" and T: "text_ok T"
    and k: "k = CreateStream a obs t service options"
  shows "\<exists>s'. session_bodyRead G T B (command_message G T (fst (number_call k (dr_number d)))) (s, dr_backend d)
      = Inr (s', dr_backend (direct_call B k d)) \<and> session_direct s' (direct_call B k d) \<and> same_output s s'"
proof -
  let ?i = "nu_stream (dr_number d)"
  obtain h b where h: "b_createStream B ?i (stream_type_int t) service options (dr_backend d) = (h, b)" by fastforce
  have i: "int32 ?i" "0 < ?i" using n by (auto simp: numbering_ok_def int32_def)
  have t: "int32 (stream_type_int t)" by (simp add: stream_type_int_def int32_def split: stream_type.split)
  let ?s = "s\<lparr>ns_streams := ns_streams s @ [(h, ?i)]\<rparr>"
  have run: "session_bodyRead G T B (command_message G T (fst (number_call k (dr_number d)))) (s, dr_backend d) = Inr (?s, b)"
    using T i t h k by (simp add: session_bodyRead_def command_message_def command_json_def text_ok_def runCommand_def runCreateStream_def
        string_at_def int_at_def)
  have d: "direct_call B k d = d\<lparr>dr_number := snd (number_call k (dr_number d)), dr_handles := (dr_handles d)(a := Some h), dr_backend := b\<rparr>"
    using h k by (simp add: direct_call_def Let_def)
  have new: "?i \<notin> snd ` set (ns_streams s)" "\<And>b. nu_ids (dr_number d) b \<noteq> ?i"
    using s n by (auto simp: session_direct_def numbering_ok_def) (metis less_irrefl)
  have "map_of (map prod.swap (ns_streams s) @ [(?i, h)]) j = (if j = ?i then Some h else map_of (map prod.swap (ns_streams s)) j)" for j
    using new(1) by (intro map_of_snoc) (auto simp: image_iff)
  then have "session_direct ?s (direct_call B k d)"
    using s new i k unfolding d session_direct_def by (auto simp del: map_of_append)
  then show ?thesis using run d by (auto simp: same_output_def)
qed

lemma session_closes:
  assumes s: "session_direct s d" and n: "numbering_ok N (dr_number d)" "N < 2147483648" and T: "text_ok T" and k: "k = RemoveStream a"
  shows "\<exists>s'. session_bodyRead G T B (command_message G T (fst (number_call k (dr_number d)))) (s, dr_backend d)
      = Inr (s', dr_backend (direct_call B k d)) \<and> session_direct s' (direct_call B k d) \<and> same_output s s'"
proof -
  let ?i = "nu_ids (dr_number d) a" and ?ss = "ns_streams s"
  have "0 \<le> ?i" "?i < nu_stream (dr_number d)" "nu_stream (dr_number d) \<le> N" using n by (auto simp: numbering_ok_def)
  then have i: "int32 ?i" using n(2) by (simp add: int32_def)
  have run: "session_bodyRead G T B (command_message G T (fst (number_call k (dr_number d)))) (s, dr_backend d) = runRemoveStream B
      (json_set ''id'' (JInt ?i) (json_set ''op'' (JString ''remove_stream'') JNull)) (s, dr_backend d)"
    using T k by (simp add: session_bodyRead_def command_message_def command_json_def text_ok_def runCommand_def string_at_def)
  have dist: "distinct (map fst (map prod.swap ?ss))" using s by (simp add: session_direct_def comp_def)
  show ?thesis
  proof (cases "find_index (\<lambda>st. snd st = ?i) ?ss")
    case None
    then have "map_of (map prod.swap ?ss) ?i = None" by (auto simp: find_index_None map_of_eq_None_iff)
    then have "dr_handles d a = None" using s by (simp add: session_direct_def)
    then have "direct_call B k d = d" using k by (simp add: direct_call_def)
    then show ?thesis using run None i s by (simp add: runRemoveStream_def int_at_def same_output_def)
  next
    case (Some j)
    then have j: "j < length ?ss" "snd (?ss ! j) = ?i" using find_index_SomeD by fastforce+
    then have "map_of (map prod.swap ?ss) ?i = Some (fst (?ss ! j))"
      using dist map_of_eq_Some_iff [OF dist] by (metis length_map nth_map nth_mem prod.swap_def)
    then have h: "dr_handles d a = Some (fst (?ss ! j))" using s by (simp add: session_direct_def)
    let ?s = "s\<lparr>ns_streams := take j ?ss @ drop (Suc j) ?ss\<rparr>"
    have d: "direct_call B k d = d\<lparr>dr_handles := (dr_handles d)(a := None), dr_backend := b_removeStream B (fst (?ss ! j)) (dr_backend d)\<rparr>"
      using h k by (simp add: direct_call_def)
    have pos: "?i \<noteq> 0" using s j nth_mem [OF j(1)] unfolding session_direct_def by (metis image_eqI less_irrefl)
    have "map_of (map prod.swap (take j ?ss @ drop (Suc j) ?ss)) x = (if x = ?i then None else map_of (map prod.swap ?ss) x)" for x
      using map_of_remove [OF dist, of j x] j by (simp add: take_map drop_map)
    moreover have "nu_ids (dr_number d) x = ?i \<longleftrightarrow> x = a" for x using n pos unfolding numbering_ok_def by metis
    moreover have "distinct (map snd (take j ?ss @ ?ss ! j # drop (Suc j) ?ss))"
      using s by (simp only: id_take_nth_drop [OF j(1), symmetric] session_direct_def)
    then have "distinct (map snd (take j ?ss @ drop (Suc j) ?ss))" by simp
    moreover have "set (take j ?ss @ drop (Suc j) ?ss) \<subseteq> set ?ss" by (auto dest: in_set_takeD in_set_dropD)
    ultimately have "session_direct ?s (direct_call B k d)"
      using s unfolding d session_direct_def by (auto simp del: map_of_append map_append)
    then show ?thesis using run Some i d by (simp add: runRemoveStream_def int_at_def same_output_def)
  qed
qed

lemma session_schedules:
  assumes s: "session_direct s d" and n: "numbering_ok N (dr_number d)" "N < 2147483647" and T: "text_ok T"
    and G: "gregorian_ok G" and ok: "call_ok G k" and k: "k = QueueOperations ops p"
  shows "\<exists>s'. session_bodyRead G T B (command_message G T (fst (number_call k (dr_number d)))) (s, dr_backend d)
      = Inr (s', dr_backend (direct_call B k d)) \<and> session_direct s' (direct_call B k d) \<and> same_output s s'"
proof -
  let ?i = "nu_task (dr_number d) + 1"
  obtain f b where f: "b_queueOperations B (map wire_operation ops) (dr_backend d) = (f, b)" by fastforce
  obtain js where js: "map_res (serialize_operation G) ops = Inr js" "map_res (deserialize_operation G) js = Inr (map wire_operation ops)"
    using operations_roundtrip [OF G] ok k by (auto simp: call_ok_def)
  let ?s = "s\<lparr>ns_running := [r \<leftarrow> ns_running s @ [(f, JInt ?i, False)]. \<not> snd (snd r)]\<rparr>"
  have run: "session_bodyRead G T B (command_message G T (fst (number_call k (dr_number d)))) (s, dr_backend d) = Inr (?s, b)"
    using T f js k by (simp add: session_bodyRead_def command_message_def command_json_def text_ok_def runCommand_def
        runScheduleOperations_def string_at_def)
  have d: "direct_call B k d = d\<lparr>dr_number := snd (number_call k (dr_number d)), dr_tasks := dr_tasks d @ [(f, ?i, p)], dr_backend := b\<rparr>"
    using f k by (simp add: direct_call_def Let_def)
  have "session_direct ?s (direct_call B k d)" using s k unfolding d session_direct_def by simp
  then show ?thesis using run d by (auto simp: same_output_def)
qed

lemma session_serves:
  assumes "session_direct s d" and "numbering_ok N (dr_number d)" and "N < 2147483647" and "text_ok T" and "gregorian_ok G" and "call_ok G k"
  shows "\<exists>s'. session_bodyRead G T B (command_message G T (fst (number_call k (dr_number d)))) (s, dr_backend d)
      = Inr (s', dr_backend (direct_call B k d)) \<and> session_direct s' (direct_call B k d) \<and> same_output s s'"
proof (cases k)
  case (QueueOperations ops p)
  then show ?thesis using session_schedules [OF assms(1-6)] by blast
next
  case (CreateStream a obs t service options)
  then show ?thesis using session_opens [OF assms(1,2) _ assms(4)] assms(3) by fastforce
next
  case (RemoveStream a)
  then show ?thesis using session_closes [OF assms(1,2) _ assms(4)] assms(3) by fastforce
qed

lemma direct_call_number [simp]: "dr_number (direct_call B k d) = snd (number_call k (dr_number d))"
  by (auto simp: direct_call_def Let_def split: call.split prod.split option.split)

lemma direct_call_outcomes [simp]: "dr_outcomes (direct_call B k d) = dr_outcomes d"
  by (auto simp: direct_call_def Let_def split: call.split prod.split option.split)

lemma session_serves_calls:
  assumes T: "text_ok T" and G: "gregorian_ok G"
  shows "list_all (call_ok G) ks \<Longrightarrow> session_direct s d \<Longrightarrow> direct_ok G T N d \<Longrightarrow> N + int (length ks) < 2147483647 \<Longrightarrow>
    \<exists>s'. fold_res (session_bodyRead G T B) (map (command_message G T) (commands ks (dr_number d))) (s, dr_backend d)
        = Inr (s', dr_backend (fold (direct_call B) ks d))
      \<and> session_direct s' (fold (direct_call B) ks d) \<and> same_output s s'
      \<and> direct_ok G T (N + int (length ks)) (fold (direct_call B) ks d)
      \<and> dr_outcomes (fold (direct_call B) ks d) = dr_outcomes d
      \<and> dr_number (fold (direct_call B) ks d) = number_calls ks (dr_number d)"
proof (induction ks arbitrary: s d N)
  case Nil
  then show ?case by (simp add: same_output_def)
next
  case (Cons k ks)
  have "numbering_ok N (dr_number d)" using Cons.prems(3) by (simp add: direct_ok_def)
  then obtain s1 where s1: "session_bodyRead G T B (command_message G T (fst (number_call k (dr_number d)))) (s, dr_backend d)
      = Inr (s1, dr_backend (direct_call B k d))" "session_direct s1 (direct_call B k d)" "same_output s s1"
    using session_serves [OF Cons.prems(2) _ _ T G, of N k] Cons.prems by auto
  note rest = Cons.IH [OF _ s1(2) direct_call_ok [OF Cons.prems(3)]]
  then show ?case using s1 Cons.prems by (fastforce simp: same_output_def algebra_simps)
qed

text \<open>The results of a task and the change of a stream become one message each.\<close>

lemma running_done:
  assumes "map (\<lambda>r. (fst r, fst (snd r))) (filter (\<lambda>r. \<not> snd (snd r)) R) = map (\<lambda>t. (fst t, JInt (fst (snd t)))) D"
  shows "case find_index (\<lambda>r. fst r = f \<and> \<not> snd (snd r)) R of
      None \<Rightarrow> find_index (\<lambda>t. fst t = f) D = None
    | Some k \<Rightarrow> \<exists>j. find_index (\<lambda>t. fst t = f) D = Some j \<and> j < length D \<and> fst (snd (R ! k)) = JInt (fst (snd (D ! j)))
        \<and> map (\<lambda>r. (fst r, fst (snd r))) (filter (\<lambda>r. \<not> snd (snd r)) (R[k := (f, fst (snd (R ! k)), True)]))
          = map (\<lambda>t. (fst t, JInt (fst (snd t)))) (take j D @ drop (Suc j) D)"
  using assms
proof (induction R arbitrary: D)
  case (Cons r R)
  show ?case
  proof (cases "snd (snd r)")
    case True
    then show ?thesis using Cons.IH [of D] Cons.prems by (auto split: option.splits)
  next
    case False
    then obtain t D' where D: "D = t # D'" "fst t = fst r" "fst (snd r) = JInt (fst (snd t))"
        "map (\<lambda>r. (fst r, fst (snd r))) (filter (\<lambda>r. \<not> snd (snd r)) R) = map (\<lambda>t. (fst t, JInt (fst (snd t)))) D'"
      using Cons.prems by (cases D) auto
    then show ?thesis using Cons.IH [of D'] False by (auto split: option.splits)
  qed
qed simp

lemma session_sends:
  assumes "session_sender.sender_ok T sent s" and "is_message j"
  shows "\<exists>w. session_sendMessage T j s = Inr (s\<lparr>ns_outgoing := ns_outgoing s @ [dump T j], ns_writing := w\<rparr>)
    \<and> session_sender.sender_ok T (sent @ [dump T j]) (s\<lparr>ns_outgoing := ns_outgoing s @ [dump T j], ns_writing := w\<rparr>)"
proof -
  have "session_active T s" using assms(1) by (simp add: session_sender.sender_ok_def)
  then obtain w where w: "session_sendMessage T j s = Inr (s\<lparr>ns_outgoing := ns_outgoing s @ [dump T j], ns_writing := w\<rparr>)"
    using sendMessage_ok [OF _ assms(2)] by blast
  then show ?thesis using session_sender.event_ok [OF assms(1), of "Some j"] assms(2)
    by (auto simp: session_sender.event_def session_sender.sent_by_def)
qed

lemma session_writes:
  assumes "session_sender.sender_ok T sent s" and "ns_writing s = Some buf"
  shows "\<exists>q w. session_written T s = Inr (s\<lparr>ns_wire := ns_wire s @ buf, ns_writing := w, ns_outgoing := q\<rparr>)
    \<and> session_sender.sender_ok T sent (s\<lparr>ns_wire := ns_wire s @ buf, ns_writing := w, ns_outgoing := q\<rparr>)"
proof -
  obtain m q where q: "ns_outgoing s = m # q" "session_active T s"
    using assms by (auto simp: session_sender.sender_ok_def split: list.splits)
  then have act: "session_active T (s\<lparr>ns_wire := ns_wire s @ buf, ns_writing := None, ns_outgoing := q\<rparr>)"
    by (simp add: session_active_def)
  have "\<exists>w. session_written T s = Inr (s\<lparr>ns_wire := ns_wire s @ buf, ns_writing := w, ns_outgoing := q\<rparr>)"
  proof (cases q)
    case Nil
    then show ?thesis using q assms(2) by (auto simp: session_written_def)
  next
    case (Cons a list)
    then show ?thesis using doSend_ok [OF act, of a list] q assms(2)
      by (intro exI [of _ "Some (frame a)"]) (simp add: session_written_def)
  qed
  then obtain w where w: "session_written T s = Inr (s\<lparr>ns_wire := ns_wire s @ buf, ns_writing := w, ns_outgoing := q\<rparr>)" by blast
  then have "session_sender.sender_ok T sent (s\<lparr>ns_wire := ns_wire s @ buf, ns_writing := w, ns_outgoing := q\<rparr>)"
    using session_sender.event_ok [OF assms(1), of None] assms(2)
    by (simp add: session_sender.event_def session_sender.sent_by_def)
  then show ?thesis using w by blast
qed

lemma results_is_message: "is_message (serializeTaskResultsMessage i rs)"
  by (simp add: serializeTaskResultsMessage_def)

lemma numbers_fit: "list_all P [0..N] \<Longrightarrow> 0 \<le> i \<Longrightarrow> i \<le> N \<Longrightarrow> P i"
  by (simp add: list_all_iff)

lemma results_sent:
  assumes s: "session_direct s d" "session_sender.sender_ok T (map (outcome_message G T) (dr_outcomes d)) s"
    and d: "direct_ok G T N d" and N: "N \<le> M" "M < 2147483648"
    and ok: "list_all result_ok rs" "list_all (\<lambda>i. fits (dump T (serializeTaskResultsMessage i rs))) [0..M]"
  shows "\<exists>s'. session_results T f rs s = Inr s' \<and> session_direct s' (direct_server work (TaskDone f rs) d)
    \<and> session_sender.sender_ok T (map (outcome_message G T) (dr_outcomes (direct_server work (TaskDone f rs) d))) s'
    \<and> direct_ok G T N (direct_server work (TaskDone f rs) d) \<and> ns_wire s' = ns_wire s
    \<and> (\<exists>more. dr_outcomes (direct_server work (TaskDone f rs) d) = dr_outcomes d @ more)"
proof -
  have tasks: "map (\<lambda>r. (fst r, fst (snd r))) (filter (\<lambda>r. \<not> snd (snd r)) (ns_running s)) = map (\<lambda>t. (fst t, JInt (fst (snd t)))) (dr_tasks d)"
    using s(1) by (simp add: session_direct_def)
  show ?thesis
  proof (cases "find_index (\<lambda>r. fst r = f \<and> \<not> snd (snd r)) (ns_running s)")
    case None
    then have "direct_server work (TaskDone f rs) d = d" using running_done [OF tasks, of f] by (simp add: direct_server_def)
    then show ?thesis using None s d by (simp add: session_results_def)
  next
    case (Some k)
    let ?R = "(ns_running s)[k := (f, fst (snd (ns_running s ! k)), True)]" and ?s = "\<lambda>R. s\<lparr>ns_running := R\<rparr>"
    obtain j where j: "find_index (\<lambda>t. fst t = f) (dr_tasks d) = Some j" "j < length (dr_tasks d)"
        "fst (snd (ns_running s ! k)) = JInt (fst (snd (dr_tasks d ! j)))"
        "map (\<lambda>r. (fst r, fst (snd r))) (filter (\<lambda>r. \<not> snd (snd r)) ?R)
          = map (\<lambda>t. (fst t, JInt (fst (snd t)))) (take j (dr_tasks d) @ drop (Suc j) (dr_tasks d))"
      using running_done [OF tasks, of f] Some by auto
    obtain g i p where t: "dr_tasks d ! j = (g, i, p)" by (cases "dr_tasks d ! j")
    have split: "dr_tasks d = take j (dr_tasks d) @ (g, i, p) # drop (Suc j) (dr_tasks d)"
      using id_take_nth_drop [OF j(2)] t by simp
    let ?d = "direct_server work (TaskDone f rs) d"
    have d': "?d = d\<lparr>dr_tasks := take j (dr_tasks d) @ drop (Suc j) (dr_tasks d), dr_outcomes := dr_outcomes d @ [Resolved i p rs]\<rparr>"
      using j(1) t by (simp add: direct_server_def)
    have issued: "(i, p) \<in> set (nu_issued (dr_number d))"
      using d nth_mem [OF j(2)] t unfolding direct_ok_def by force
    then have i: "0 \<le> i" "i \<le> M" using d N(1) unfolding direct_ok_def numbering_ok_def by force+
    then have i32: "int32 i" using N(2) by (simp add: int32_def)
    have m: "outcome_message G T (Resolved i p rs) = dump T (serializeTaskResultsMessage i rs)"
      by (simp add: outcome_message_def outcome_json_def)
    have "session_sender.sender_ok T (map (outcome_message G T) (dr_outcomes d)) (?s ?R)"
      using s(2) by (rule same_output_ok [rotated]) (simp add: same_output_def)
    then obtain w where w: "session_sendMessage T (serializeTaskResultsMessage i rs) (?s ?R)
          = Inr (?s ?R\<lparr>ns_outgoing := ns_outgoing s @ [dump T (serializeTaskResultsMessage i rs)], ns_writing := w\<rparr>)"
        "session_sender.sender_ok T (map (outcome_message G T) (dr_outcomes d) @ [dump T (serializeTaskResultsMessage i rs)])
          (?s ?R\<lparr>ns_outgoing := ns_outgoing s @ [dump T (serializeTaskResultsMessage i rs)], ns_writing := w\<rparr>)"
      using session_sends [OF _ results_is_message] by fastforce
    have "session_results T f rs s = Inr (?s ?R\<lparr>ns_outgoing := ns_outgoing s @ [dump T (serializeTaskResultsMessage i rs)], ns_writing := w\<rparr>)"
      using Some j(3) t i32 w(1) by (simp add: session_results_def)
    moreover have "session_direct (?s ?R\<lparr>ns_outgoing := ns_outgoing s @ [dump T (serializeTaskResultsMessage i rs)], ns_writing := w\<rparr>) ?d"
      using s(1) j(4) unfolding d' session_direct_def by simp
    moreover have "direct_ok G T N ?d"
    proof -
      have "distinct (outcome_ids (dr_outcomes d) @ map (\<lambda>t. fst (snd t)) (take j (dr_tasks d) @ (g, i, p) # drop (Suc j) (dr_tasks d)))"
        using d split unfolding direct_ok_def by metis
      moreover have "snd ` set (dr_tasks d) \<subseteq> set (nu_issued (dr_number d))" using d by (simp add: direct_ok_def)
      then have "snd ` set (take j (dr_tasks d)) \<subseteq> set (nu_issued (dr_number d))"
        "snd ` set (drop (Suc j) (dr_tasks d)) \<subseteq> set (nu_issued (dr_number d))"
        by (meson image_mono order_trans set_take_subset, meson image_mono order_trans set_drop_subset)
      ultimately show ?thesis
        using d issued i32 ok(1) m numbers_fit [OF ok(2) i] unfolding d' direct_ok_def
        by (auto simp: outcome_ok_def)
    qed
    ultimately show ?thesis using w(2) m d' by simp
  qed
qed

lemma change_sent:
  assumes G: "gregorian_ok G"
    and s: "session_direct s d" "session_sender.sender_ok T (map (outcome_message G T) (dr_outcomes d)) s"
    and d: "direct_ok G T N d" and ok: "int32 i" "change_ok G ch" "fits (outcome_message G T (Changed i ch))"
  shows "\<exists>s'. notify (session_observer G T i) ch s = Inr s' \<and> session_direct s' (direct_server work (StreamChanged i ch) d)
    \<and> session_sender.sender_ok T (map (outcome_message G T) (dr_outcomes (direct_server work (StreamChanged i ch) d))) s'
    \<and> direct_ok G T N (direct_server work (StreamChanged i ch) d) \<and> ns_wire s' = ns_wire s"
proof -
  obtain j where j: "change_message G i ch = Inr j" using change_message_processed [OF G ok(2,1)] by blast
  then have m: "outcome_message G T (Changed i ch) = dump T j" by (simp add: outcome_message_def outcome_json_def)
  obtain w where w: "session_sendMessage T j s = Inr (s\<lparr>ns_outgoing := ns_outgoing s @ [dump T j], ns_writing := w\<rparr>)"
      "session_sender.sender_ok T (map (outcome_message G T) (dr_outcomes d) @ [dump T j])
        (s\<lparr>ns_outgoing := ns_outgoing s @ [dump T j], ns_writing := w\<rparr>)"
    using session_sends [OF s(2) change_message_is_message [OF j]] by blast
  have "session_direct (s\<lparr>ns_outgoing := ns_outgoing s @ [dump T j], ns_writing := w\<rparr>) (direct_server work (StreamChanged i ch) d)"
    using s(1) by (simp add: session_direct_def direct_server_def)
  moreover have "direct_ok G T N (direct_server work (StreamChanged i ch) d)"
    using d ok by (auto simp: direct_ok_def direct_server_def outcome_ok_def)
  ultimately show ?thesis using j w m by (simp add: session_notify direct_server_def)
qed

section \<open>Reading pieces\<close>

definition reader_at :: "byte list \<Rightarrow> byte list list \<Rightarrow> nat \<Rightarrow> read_state \<Rightarrow> bool" where
  "reader_at wire sent n rs \<longleftrightarrow> fst rs \<le> length wire \<and> n \<le> length sent
     \<and> read_all WaitHeader (take (fst rs) wire) = (take n sent, snd rs)"

lemma reader_start: "reader_at [] [] 0 (0, WaitHeader, [])"
  by (simp add: reader_at_def read_all_empty)

lemma reader_more: "reader_at wire sent n rs \<Longrightarrow> reader_at (wire @ w) (sent @ s) n rs"
  by (simp add: reader_at_def)

lemma reader_takes:
  assumes "reader_at wire (gone @ queued) n rs" and "wire = concat (map frame gone)" and "list_all fits gone"
  shows "\<exists>m rs'. take_bytes k wire rs = (drop n (take m (gone @ queued)), rs') \<and> n \<le> m \<and> reader_at wire (gone @ queued) m rs'"
proof -
  obtain pos r left where rs: "rs = (pos, r, left)" by (cases rs)
  let ?sent = "gone @ queued" and ?chunk = "take k (drop pos wire)"
  obtain ms r' left' where new: "read_all r (left @ ?chunk) = (ms, r', left')" by (metis prod_cases3)
  have pos: "pos \<le> length wire" "n \<le> length ?sent" "read_all WaitHeader (take pos wire) = (take n ?sent, r, left)"
    using assms(1) rs by (simp_all add: reader_at_def)
  let ?m = "n + length ms" and ?pos = "pos + length ?chunk"
  have "take pos wire @ ?chunk = take ?pos wire" by (simp add: take_add min_def)
  then have read: "read_all WaitHeader (take ?pos wire) = (take n ?sent @ ms, r', left')"
    using read_all_append [of WaitHeader "take pos wire" ?chunk] pos(3) new by simp
  have "fst (read_all WaitHeader (take ?pos wire @ drop ?pos wire)) = gone"
    using read_all_frames [OF assms(3), of "[]"] read_all_empty assms(2) by simp
  then obtain rest where "(take n ?sent @ ms) @ rest = gone"
    unfolding read_all_append [of WaitHeader "take ?pos wire"] read by (auto simp: case_prod_beta)
  then have sent: "?sent = take n ?sent @ ms @ rest @ queued" by simp
  have len: "length (take n ?sent) = n" using pos(2) by simp
  have m: "?m \<le> length ?sent" using arg_cong [OF sent, of length] len by simp
  have "take ?m ?sent = take n ?sent @ ms"
    using arg_cong [OF sent, of "take ?m"] len by simp
  then have "take_bytes k wire rs = (drop n (take ?m ?sent), ?pos, r', left')" "reader_at wire ?sent ?m (?pos, r', left')"
    using rs new m len read pos(1) by (simp_all add: take_bytes_def reader_at_def)
  then show ?thesis by (metis le_add1)
qed

lemma reader_at_end:
  assumes "reader_at wire gone n rs" and "wire = concat (map frame gone)" and "list_all fits gone" and "fst rs = length wire"
  shows "n = length gone"
proof -
  have "read_all WaitHeader wire = (gone, WaitHeader, [])"
    using read_all_frames [OF assms(3), of "[]"] read_all_empty assms(2) by simp
  then have "take n gone = gone" using assms(1,4) by (simp add: reader_at_def)
  then show ?thesis using assms(1) by (metis length_take min.absorb2 reader_at_def)
qed

section \<open>The invariant\<close>

definition calls_of :: "('p, 'e) remote_event list \<Rightarrow> 'p call list" where
  "calls_of es = concat (map (\<lambda>e. case e of Call k \<Rightarrow> [k] | _ \<Rightarrow> []) es)"

definition happened :: "('p, 'e) remote_event list \<Rightarrow> ('p, 'e) server_event list" where
  "happened es = concat (map (\<lambda>e. case e of Server x \<Rightarrow> [x] | _ \<Rightarrow> []) es)"

definition served :: "('p call + 'x) list \<Rightarrow> 'p call list" where
  "served hist = concat (map (\<lambda>x. case x of Inl k \<Rightarrow> [k] | Inr _ \<Rightarrow> []) hist)"

definition worked :: "('p call + 'x) list \<Rightarrow> 'x list" where
  "worked hist = concat (map (\<lambda>x. case x of Inl _ \<Rightarrow> [] | Inr e \<Rightarrow> [e]) hist)"

lemma histories [simp]:
  "served [] = []" "served (xs @ ys) = served xs @ served ys" "served (map Inl ks) = ks" "served [Inr x] = []"
  "worked [] = []" "worked (xs @ ys) = worked xs @ worked ys" "worked (map Inl ks) = []" "worked [Inr x] = [x]"
  "calls_of [] = []" "calls_of (es @ fs) = calls_of es @ calls_of fs" "happened [] = []" "happened (es @ fs) = happened es @ happened fs"
  by (simp_all add: served_def worked_def calls_of_def happened_def) (induction ks; simp)+

definition sent_messages :: "('d::linorder, 'p) gregorian \<Rightarrow> json_text \<Rightarrow> ('p, 'e) remote_event list \<Rightarrow> byte list list" where
  "sent_messages G T es = map (command_message G T) (commands (calls_of es) numbering_start)"

text \<open>After the events \<open>es\<close> the backend has the history \<open>hist\<close>, which served \<open>n\<close> calls and has led to \<open>d\<close>; the client has read
  \<open>m\<close> outcomes.\<close>

definition remote_inv ::
    "('d::linorder, 'p) gregorian \<Rightarrow> json_text \<Rightarrow> ('p, 'e) remote_event list \<Rightarrow> ('p, 'b) direct \<Rightarrow> nat \<Rightarrow> nat \<Rightarrow> ('p, 'b) remote \<Rightarrow> bool"
  where
  "remote_inv G T es d n m r \<longleftrightarrow>
     list_all (call_ok G) (calls_of es) \<and> list_all fits (sent_messages G T es)
     \<and> dr_number d = number_calls (take n (calls_of es)) numbering_start \<and> direct_ok G T (1 + int n) d
     \<and> rm_backend r = dr_backend d \<and> session_direct (rm_session r) d
     \<and> session_sender.sender_ok T (map (outcome_message G T) (dr_outcomes d)) (rm_session r)
     \<and> client_sending (sent_messages G T es) (rm_client r)
     \<and> client_numbers (number_calls (calls_of es) numbering_start) (set (outcome_ids (take m (dr_outcomes d)))) (rm_store r) (rm_client r)
     \<and> reader_at (nc_wire (rm_client r)) (sent_messages G T es) n (rm_serverRead r)
     \<and> reader_at (ns_wire (rm_session r)) (map (outcome_message G T) (dr_outcomes d)) m (rm_clientRead r)
     \<and> nc_resolved (rm_client r) = resolutions (take m (dr_outcomes d))
     \<and> cq_pending (nc_changes (rm_client r)) = changes_seen (take m (dr_outcomes d))"

lemma sender_wire:
  assumes "session_sender.sender_ok T sent s"
  obtains gone where "sent = gone @ ns_outgoing s" "ns_wire s = concat (map frame gone)"
  using assms by (auto simp: session_sender.sender_ok_def)

lemma sending_wire:
  assumes "client_sending sent c"
  obtains gone where "sent = gone @ nc_messages c" "nc_wire c = concat (map frame gone)"
proof (cases "nc_status c = Connected")
  case True
  then show ?thesis using assms that by (auto simp: client_sending_def client_sender.sender_ok_def)
next
  case False
  then show ?thesis using assms that [of "[]"] by (simp add: client_sending_def)
qed

lemma remote_start_inv: "text_ok T \<Longrightarrow> remote_inv G T [] (direct_start b) 0 0 (remote_start b)"
  by (auto simp: remote_inv_def sent_messages_def direct_ok_def direct_start_def numbering_start_ok remote_start_def
      session_direct_def mk_net_session_def session_sender.sender_ok_def session_active_def client_sending_def mk_net_client_def
      client_numbers_def numbering_start_def mk_data_stream_def omap_ok_def reader_start empty_queue_def
      numbering_ok_def)

lemma length_calls_of: "length (calls_of es) \<le> length es"
  by (induction es) (auto simp: calls_of_def split: remote_event.splits)

lemma inv_numbering:
  assumes "remote_inv G T es d n m r"
  shows "numbering_ok (1 + int (length (calls_of es))) (number_calls (calls_of es) numbering_start)"
    "set (nu_issued (dr_number d)) \<subseteq> set (nu_issued (number_calls (calls_of es) numbering_start))"
    "n \<le> length (calls_of es)" "m \<le> length (dr_outcomes d)"
proof -
  show "numbering_ok (1 + int (length (calls_of es))) (number_calls (calls_of es) numbering_start)"
    using number_calls_ok [OF numbering_start_ok] .
  show "set (nu_issued (dr_number d)) \<subseteq> set (nu_issued (number_calls (calls_of es) numbering_start))"
    using assms number_calls_issued [of "number_calls (take n (calls_of es)) numbering_start" "drop n (calls_of es)"]
      number_calls_simps(3) [of "take n (calls_of es)" "drop n (calls_of es)" numbering_start] unfolding remote_inv_def by simp
  show "n \<le> length (calls_of es)" "m \<le> length (dr_outcomes d)"
    using assms by (auto simp: remote_inv_def reader_at_def sent_messages_def)
qed

lemma inv_seen:
  assumes "remote_inv G T es d n m r"
  shows "set (outcome_tasks (dr_outcomes d)) \<subseteq> set (nu_issued (number_calls (calls_of es) numbering_start))"
    "set (outcome_ids (take m (dr_outcomes d))) \<subseteq> fst ` set (nu_issued (number_calls (calls_of es) numbering_start))"
proof -
  show t: "set (outcome_tasks (dr_outcomes d)) \<subseteq> set (nu_issued (number_calls (calls_of es) numbering_start))"
    using assms inv_numbering(2) [OF assms] unfolding remote_inv_def direct_ok_def by blast
  have "set (outcome_tasks (take m (dr_outcomes d))) \<subseteq> set (outcome_tasks (dr_outcomes d))"
    using outcome_simps(6) [of "take m (dr_outcomes d)" "drop m (dr_outcomes d)"] by simp
  then show "set (outcome_ids (take m (dr_outcomes d))) \<subseteq> fst ` set (nu_issued (number_calls (calls_of es) numbering_start))"
    using t unfolding outcome_ids_tasks set_map by (meson image_mono order_trans)
qed

lemma step_call:
  assumes G: "gregorian_ok G" and inv: "remote_inv G T es d n m r" and ok: "event_ok G T M (Call k)"
    and M: "int (length es) + 2 \<le> M"
  shows "\<exists>r'. remote_step G T B work (Call k) r = Inr r' \<and> remote_inv G T (es @ [Call k]) d n m r'"
proof -
  let ?num = "number_calls (calls_of es) numbering_start"
  have k: "call_ok G k" using ok by (simp add: event_ok_def)
  obtain st c where c: "client_call G T k (rm_store r, rm_client r) = Inr (st, c)"
      "client_sending (sent_messages G T es @ [command_message G T (fst (number_call k ?num))]) c"
      "client_numbers (snd (number_call k ?num)) (set (outcome_ids (take m (dr_outcomes d)))) st c" "same_answers (rm_client r) c"
    using client_call_ok [OF G k inv_numbering(1) [OF inv] _ _ inv_seen(2) [OF inv]] inv unfolding remote_inv_def by blast
  have sent: "sent_messages G T (es @ [Call k]) = sent_messages G T es @ [command_message G T (fst (number_call k ?num))]"
    by (simp add: sent_messages_def commands_append) (simp add: calls_of_def)
  have calls: "calls_of (es @ [Call k]) = calls_of es @ [k]" by (simp add: calls_of_def)
  have "fits (command_message G T (fst (number_call k ?num)))"
  proof -
    obtain i where i: "fst (number_call k ?num) = numbered k i" "0 \<le> i" "i \<le> 1 + int (length (calls_of es)) + 1"
      using command_numbered [OF inv_numbering(1) [OF inv]] by blast
    then have "i \<le> M" using M length_calls_of [of es] by linarith
    then show ?thesis using numbers_fit [of "\<lambda>i. fits (command_message G T (numbered k i))" M i] ok i by (simp add: event_ok_def)
  qed
  moreover have "n \<le> length (calls_of es)" using inv_numbering(3) [OF inv] .
  ultimately have "remote_inv G T (es @ [Call k]) d n m (r\<lparr>rm_store := st, rm_client := c\<rparr>)"
    using inv c k reader_more [of "nc_wire c" "sent_messages G T es" n "rm_serverRead r" "[]"]
    unfolding remote_inv_def sent calls by (simp add: same_answers_def)
  then show ?thesis using c(1) by (simp add: remote_step_def)
qed

lemma step_connection:
  assumes inv: "remote_inv G T es d n m r"
  shows "\<exists>r'. remote_step G T B work ConnectionUp r = Inr r' \<and> remote_inv G T (es @ [ConnectionUp]) d n m r'"
proof -
  have same: "calls_of (es @ [ConnectionUp]) = calls_of es" "sent_messages G T (es @ [ConnectionUp]) = sent_messages G T es"
    by (simp_all add: sent_messages_def) (simp_all add: calls_of_def)
  show ?thesis
  proof (cases "nc_status (rm_client r) = Connecting")
    case True
    obtain w where "socketConnected False (rm_client r) = Inr (rm_client r\<lparr>nc_status := Connected, nc_writing := w\<rparr>)"
        "client_sending (sent_messages G T es) (rm_client r\<lparr>nc_status := Connected, nc_writing := w\<rparr>)"
      using connected_sending [OF _ True] inv unfolding remote_inv_def by blast
    then show ?thesis using inv True same by (simp add: remote_step_def remote_inv_def client_numbers_def)
  next
    case False
    then show ?thesis using inv same by (simp add: remote_step_def remote_inv_def)
  qed
qed

lemma step_clientWritten:
  assumes inv: "remote_inv G T es d n m r"
  shows "\<exists>r'. remote_step G T B work ClientWritten r = Inr r' \<and> remote_inv G T (es @ [ClientWritten]) d n m r'"
proof -
  have same: "calls_of (es @ [ClientWritten]) = calls_of es" "sent_messages G T (es @ [ClientWritten]) = sent_messages G T es"
    by (simp_all add: sent_messages_def) (simp_all add: calls_of_def)
  show ?thesis
  proof (cases "nc_writing (rm_client r)")
    case (Some buf)
    let ?c = "\<lambda>q w. rm_client r\<lparr>nc_messages := q, nc_writing := w, nc_wire := nc_wire (rm_client r) @ buf\<rparr>"
    obtain q w where w: "client_written (rm_client r) = Inr (?c q w)" "client_sending (sent_messages G T es) (?c q w)"
      using written_sending [OF _ Some] inv unfolding remote_inv_def by blast
    have "reader_at (nc_wire (rm_client r) @ buf) (sent_messages G T es @ []) n (rm_serverRead r)"
      using inv unfolding remote_inv_def by (blast intro: reader_more)
    then have "remote_inv G T (es @ [ClientWritten]) d n m (r\<lparr>rm_client := ?c q w\<rparr>)"
      using inv w(2) same by (simp add: remote_inv_def client_numbers_def)
    then show ?thesis using Some w(1) by (simp add: remote_step_def)
  next
    case None
    then show ?thesis using inv same by (simp add: remote_step_def remote_inv_def)
  qed
qed

lemma step_sessionWritten:
  assumes inv: "remote_inv G T es d n m r"
  shows "\<exists>r'. remote_step G T B work SessionWritten r = Inr r' \<and> remote_inv G T (es @ [SessionWritten]) d n m r'"
proof -
  have same: "calls_of (es @ [SessionWritten]) = calls_of es" "sent_messages G T (es @ [SessionWritten]) = sent_messages G T es"
    by (simp_all add: sent_messages_def) (simp_all add: calls_of_def)
  show ?thesis
  proof (cases "ns_writing (rm_session r)")
    case (Some buf)
    let ?s = "\<lambda>q w. rm_session r\<lparr>ns_wire := ns_wire (rm_session r) @ buf, ns_writing := w, ns_outgoing := q\<rparr>"
    obtain q w where w: "session_written T (rm_session r) = Inr (?s q w)"
        "session_sender.sender_ok T (map (outcome_message G T) (dr_outcomes d)) (?s q w)"
      using session_writes [OF _ Some] inv unfolding remote_inv_def by blast
    have "reader_at (ns_wire (rm_session r) @ buf) (map (outcome_message G T) (dr_outcomes d) @ []) m (rm_clientRead r)"
      using inv unfolding remote_inv_def by (blast intro: reader_more)
    then have "remote_inv G T (es @ [SessionWritten]) d n m (r\<lparr>rm_session := ?s q w\<rparr>)"
      using inv w(2) same session_direct_written [of "?s q w" "rm_session r" d] by (simp add: remote_inv_def)
    then show ?thesis using Some w(1) by (simp add: remote_step_def)
  next
    case None
    then show ?thesis using inv same by (simp add: remote_step_def remote_inv_def)
  qed
qed

lemma fold_calls: "fold (direct_step B work) (map Inl ks) d = fold (direct_call B) ks d"
  by (induction ks arbitrary: d) (simp_all add: direct_step_def)

lemma step_serverReads:
  assumes G: "gregorian_ok G" and T: "text_ok T" and inv: "remote_inv G T es d n m r" and bound: "int (length es) + 1 < 2147483647"
  shows "\<exists>r' ks j. remote_step G T B work (ServerReads k) r = Inr r' \<and> take j (calls_of es) = take n (calls_of es) @ ks
    \<and> remote_inv G T (es @ [ServerReads k]) (fold (direct_call B) ks d) j m r'"
proof -
  let ?sent = "sent_messages G T es" and ?c = "rm_client r" and ?s = "rm_session r" and ?all = "calls_of es"
  have same: "calls_of (es @ [ServerReads k]) = calls_of es" "sent_messages G T (es @ [ServerReads k]) = ?sent"
    by (simp_all add: sent_messages_def) (simp_all add: calls_of_def)
  obtain gone where gone: "?sent = gone @ nc_messages ?c" "nc_wire ?c = concat (map frame gone)"
    using inv sending_wire unfolding remote_inv_def by metis
  have "list_all fits gone" using inv gone(1) unfolding remote_inv_def by simp
  moreover have "reader_at (nc_wire ?c) (gone @ nc_messages ?c) n (rm_serverRead r)" using inv gone(1) unfolding remote_inv_def by metis
  ultimately obtain j rs where j: "take_bytes k (nc_wire ?c) (rm_serverRead r) = (drop n (take j ?sent), rs)" "n \<le> j"
      "reader_at (nc_wire ?c) ?sent j rs"
    using reader_takes [OF _ gone(2)] gone(1) by metis
  have len: "j \<le> length ?all" "n \<le> length ?all" using j(3) inv_numbering(3) [OF inv] by (auto simp: reader_at_def sent_messages_def)
  let ?ks = "drop n (take j ?all)"
  have ks: "take j ?all = take n ?all @ ?ks" using j(2) by (metis append_take_drop_id min.absorb1 take_take)
  have num: "dr_number d = number_calls (take n ?all) numbering_start" using inv by (simp add: remote_inv_def)
  have "take j ?sent = map (command_message G T) (commands (take n ?all) numbering_start) @ map (command_message G T) (commands ?ks (dr_number d))"
    unfolding sent_messages_def num take_map commands_take by (subst ks) (simp add: commands_append)
  then have new: "drop n (take j ?sent) = map (command_message G T) (commands ?ks (dr_number d))" using len(2) by simp
  have l: "1 + int n + int (length ?ks) = 1 + int j" using len j(2) by simp
  have "1 + int j < 2147483647" using len(1) length_calls_of [of es] bound by linarith
  moreover have "list_all (call_ok G) ?ks" using inv by (auto simp: remote_inv_def list_all_iff dest: in_set_takeD in_set_dropD)
  ultimately obtain s where s: "fold_res (session_bodyRead G T B) (drop n (take j ?sent)) (?s, rm_backend r) = Inr (s, dr_backend (fold (direct_call B) ?ks d))"
      "session_direct s (fold (direct_call B) ?ks d)" "same_output ?s s" "direct_ok G T (1 + int j) (fold (direct_call B) ?ks d)"
      "dr_outcomes (fold (direct_call B) ?ks d) = dr_outcomes d" "dr_number (fold (direct_call B) ?ks d) = number_calls ?ks (dr_number d)"
    using session_serves_calls [OF T G, of ?ks ?s d "1 + int n" B] inv l new unfolding remote_inv_def by metis
  let ?r = "r\<lparr>rm_session := s, rm_backend := dr_backend (fold (direct_call B) ?ks d), rm_serverRead := rs\<rparr>"
  have "session_sender.sender_ok T (map (outcome_message G T) (dr_outcomes d)) s"
    using inv same_output_ok [OF s(3)] by (simp add: remote_inv_def)
  moreover have "ns_wire s = ns_wire ?s" using s(3) by (simp add: same_output_def)
  moreover have "dr_number (fold (direct_call B) ?ks d) = number_calls (take j ?all) numbering_start"
    unfolding s(6) num by (subst ks) simp
  ultimately have "remote_inv G T (es @ [ServerReads k]) (fold (direct_call B) ?ks d) j m ?r"
    using inv s j(3) unfolding remote_inv_def same by simp
  moreover have "remote_step G T B work (ServerReads k) r = Inr ?r" using j(1) s(1) by (simp add: remote_step_def)
  ultimately show ?thesis using ks by blast
qed

lemma outcome_ids_take:
  assumes "m \<le> j"
  shows "take j outs = take m outs @ drop m (take j outs)"
  using assms by (metis append_take_drop_id min.absorb1 take_take)

lemma step_clientReads:
  assumes G: "gregorian_ok G" and T: "text_ok T" and inv: "remote_inv G T es d n m r"
  shows "\<exists>r' j. remote_step G T B work (ClientReads k) r = Inr r' \<and> remote_inv G T (es @ [ClientReads k]) d n j r'
    \<and> same_sending (rm_client r) (rm_client r')"
proof -
  let ?outs = "dr_outcomes d" and ?c = "rm_client r" and ?s = "rm_session r" and ?num = "number_calls (calls_of es) numbering_start"
  let ?msgs = "map (outcome_message G T) ?outs"
  have same: "calls_of (es @ [ClientReads k]) = calls_of es" "sent_messages G T (es @ [ClientReads k]) = sent_messages G T es"
    by (simp_all add: sent_messages_def) (simp_all add: calls_of_def)
  have dok: "direct_ok G T (1 + int n) d" using inv by (simp add: remote_inv_def)
  obtain gone where gone: "?msgs = gone @ ns_outgoing ?s" "ns_wire ?s = concat (map frame gone)"
    using inv sender_wire unfolding remote_inv_def by metis
  have "list_all fits ?msgs" using dok by (simp add: direct_ok_def list_all_iff)
  then have "list_all fits gone" using gone(1) by simp
  moreover have "reader_at (ns_wire ?s) (gone @ ns_outgoing ?s) m (rm_clientRead r)" using inv gone(1) unfolding remote_inv_def by metis
  ultimately obtain j rs where j: "take_bytes k (ns_wire ?s) (rm_clientRead r) = (drop m (take j ?msgs), rs)" "m \<le> j"
      "reader_at (ns_wire ?s) ?msgs j rs"
    using reader_takes [OF _ gone(2)] gone(1) by metis
  let ?xs = "drop m (take j ?outs)"
  have xs: "take j ?outs = take m ?outs @ ?xs" by (rule outcome_ids_take [OF j(2)])
  have all: "?outs = take m ?outs @ ?xs @ drop j ?outs" using xs by (metis append.assoc append_take_drop_id)
  have "distinct (outcome_ids (take m ?outs @ ?xs @ drop j ?outs))" using dok all unfolding direct_ok_def by (metis distinct_append)
  then have dist: "distinct (outcome_ids ?xs)" "set (outcome_ids (take m ?outs)) \<inter> set (outcome_ids ?xs) = {}" by auto
  have "set (outcome_tasks ?xs) \<subseteq> set (outcome_tasks (take m ?outs @ ?xs @ drop j ?outs))" by auto
  then have tasks: "set (outcome_tasks ?xs) \<subseteq> set (nu_issued ?num)" using inv_seen(1) [OF inv] all by simp
  have "list_all (outcome_ok G) (take m ?outs @ ?xs @ drop j ?outs)" using dok all unfolding direct_ok_def by metis
  then have oks: "list_all (outcome_ok G) ?xs" by simp
  have "distinct (map fst (nu_issued ?num))" using inv_numbering(1) [OF inv] by (simp add: numbering_ok_def)
  then obtain c where c: "fold_res (client_bodyRead G T) (map (outcome_message G T) ?xs) ?c = Inr c"
      "client_numbers ?num (set (outcome_ids (take m ?outs)) \<union> set (outcome_ids ?xs)) (rm_store r) c" "same_sending ?c c"
      "nc_resolved c = nc_resolved ?c @ resolutions ?xs" "cq_pending (nc_changes c) = cq_pending (nc_changes ?c) @ changes_seen ?xs"
    using client_reads_outcomes [OF G T _ oks _ tasks dist(2,1), of "rm_store r" ?c] inv unfolding remote_inv_def by auto
  have visible: "set (outcome_ids (take j ?outs)) = set (outcome_ids (take m ?outs)) \<union> set (outcome_ids ?xs)"
    "resolutions (take j ?outs) = resolutions (take m ?outs) @ resolutions ?xs"
    "changes_seen (take j ?outs) = changes_seen (take m ?outs) @ changes_seen ?xs"
    by (subst xs, simp)+
  have "remote_step G T B work (ClientReads k) r = Inr (r\<lparr>rm_client := c, rm_clientRead := rs\<rparr>)"
    using j(1) c(1) by (simp add: remote_step_def take_map drop_map)
  moreover have "client_sending (sent_messages G T es) c" using inv same_sending_sending [OF c(3)] by (simp add: remote_inv_def)
  moreover have "nc_wire c = nc_wire ?c" using c(3) by (simp add: same_sending_def)
  ultimately show ?thesis
    using inv c(2,3,4,5) j(3) unfolding remote_inv_def same by (intro exI [of _ "r\<lparr>rm_client := c, rm_clientRead := rs\<rparr>"] exI [of _ j]) (simp add: visible)
qed

lemma inv_server:
  assumes inv: "remote_inv G T es d n m r" and d': "session_direct s d'" "direct_ok G T (1 + int n) d'" "dr_number d' = dr_number d"
      "session_sender.sender_ok T (map (outcome_message G T) (dr_outcomes d')) s" "ns_wire s = ns_wire (rm_session r)"
    and tail: "dr_outcomes d' = dr_outcomes d @ tail"
  shows "remote_inv G T (es @ [Server x]) d' n m (r\<lparr>rm_session := s, rm_backend := dr_backend d'\<rparr>)"
proof -
  have same: "calls_of (es @ [Server x]) = calls_of es" "sent_messages G T (es @ [Server x]) = sent_messages G T es"
    by (simp_all add: sent_messages_def) (simp_all add: calls_of_def)
  have "reader_at (ns_wire (rm_session r) @ []) (map (outcome_message G T) (dr_outcomes d) @ map (outcome_message G T) tail) m (rm_clientRead r)"
    using inv unfolding remote_inv_def by (blast intro: reader_more)
  moreover have "take m (dr_outcomes d') = take m (dr_outcomes d)" using tail inv_numbering(4) [OF inv] by simp
  ultimately show ?thesis using inv d' tail inv_numbering(4) [OF inv] unfolding remote_inv_def same by simp
qed

lemma step_server:
  assumes G: "gregorian_ok G" and inv: "remote_inv G T es d n m r" and ok: "event_ok G T M (Server x)"
    and M: "int (length es) + 2 \<le> M" "M < 2147483648"
  shows "\<exists>r'. remote_step G T B work (Server x) r = Inr r' \<and> remote_inv G T (es @ [Server x]) (direct_server work x d) n m r'"
proof (cases x)
  case (Work e)
  have "session_direct (rm_session r) d" using inv by (simp add: remote_inv_def)
  then have s: "session_direct (rm_session r) (direct_server work x d)" using Work by (simp add: session_direct_def direct_server_def)
  have "direct_ok G T (1 + int n) d" using inv by (simp add: remote_inv_def)
  then have "direct_ok G T (1 + int n) (direct_server work x d)" using Work by (simp add: direct_ok_def direct_server_def)
  then have "remote_inv G T (es @ [Server x]) (direct_server work x d) n m
      (r\<lparr>rm_session := rm_session r, rm_backend := dr_backend (direct_server work x d)\<rparr>)"
    using inv_server [OF inv s, of "[]" x] inv Work by (simp add: remote_inv_def direct_server_def)
  then show ?thesis using inv Work by (simp add: remote_step_def remote_server_step_def remote_inv_def direct_server_def)
next
  case (TaskDone f rs)
  have "1 + int n \<le> M" using inv_numbering(3) [OF inv] length_calls_of [of es] M(1) by linarith
  moreover have "list_all result_ok rs" "list_all (\<lambda>i. fits (dump T (serializeTaskResultsMessage i rs))) [0..M]"
    using ok TaskDone by (simp_all add: event_ok_def)
  ultimately obtain s tail where s: "session_results T f rs (rm_session r) = Inr s" "session_direct s (direct_server work x d)"
      "session_sender.sender_ok T (map (outcome_message G T) (dr_outcomes (direct_server work x d))) s"
      "direct_ok G T (1 + int n) (direct_server work x d)" "ns_wire s = ns_wire (rm_session r)"
      "dr_outcomes (direct_server work x d) = dr_outcomes d @ tail"
    using results_sent [of "rm_session r" d T G "1 + int n" M rs f work] inv M(2) TaskDone unfolding remote_inv_def by blast
  have keep: "dr_number (direct_server work x d) = dr_number d" "dr_backend (direct_server work x d) = dr_backend d"
    using TaskDone by (auto simp: direct_server_def split: option.split)
  have "remote_inv G T (es @ [Server x]) (direct_server work x d) n m (r\<lparr>rm_session := s, rm_backend := dr_backend d\<rparr>)"
    using inv_server [OF inv s(2,4) keep(1) s(3,5,6), of x] keep(2) by simp
  moreover have "r\<lparr>rm_session := s, rm_backend := dr_backend d\<rparr> = r\<lparr>rm_session := s\<rparr>" using inv by (cases r) (simp add: remote_inv_def)
  ultimately show ?thesis using s(1) TaskDone by (simp add: remote_step_def remote_server_step_def)
next
  case (StreamChanged i ch)
  obtain s where s: "notify (session_observer G T i) ch (rm_session r) = Inr s" "session_direct s (direct_server work x d)"
      "session_sender.sender_ok T (map (outcome_message G T) (dr_outcomes (direct_server work x d))) s"
      "direct_ok G T (1 + int n) (direct_server work x d)" "ns_wire s = ns_wire (rm_session r)"
    using change_sent [OF G, of "rm_session r" d T "1 + int n" i ch work] inv ok StreamChanged unfolding remote_inv_def event_ok_def by auto
  have keep: "dr_number (direct_server work x d) = dr_number d" "dr_backend (direct_server work x d) = dr_backend d"
    "dr_outcomes (direct_server work x d) = dr_outcomes d @ [Changed i ch]"
    using StreamChanged by (simp_all add: direct_server_def)
  have "remote_inv G T (es @ [Server x]) (direct_server work x d) n m (r\<lparr>rm_session := s, rm_backend := dr_backend d\<rparr>)"
    using inv_server [OF inv s(2,4) keep(1) s(3,5) keep(3), of x] keep(2) by simp
  moreover have "r\<lparr>rm_session := s, rm_backend := dr_backend d\<rparr> = r\<lparr>rm_session := s\<rparr>" using inv by (cases r) (simp add: remote_inv_def)
  ultimately show ?thesis using s(1) StreamChanged by (simp add: remote_step_def remote_server_step_def)
qed

lemma remote_run:
  assumes G: "gregorian_ok G" and T: "text_ok T" and M: "M < 2147483647"
  shows "list_all (event_ok G T M) es \<Longrightarrow> int (length es) + 1 \<le> M \<Longrightarrow>
    \<exists>r hist n m. fold_res (remote_step G T B work) es (remote_start b) = Inr r
      \<and> served hist = take n (calls_of es) \<and> worked hist = happened es
      \<and> remote_inv G T es (fold (direct_step B work) hist (direct_start b)) n m r"
proof (induction es rule: rev_induct)
  case Nil
  show ?case using remote_start_inv [OF T, of G b]
    by (intro exI [of _ "remote_start b"] exI [of _ "[]"] exI [of _ 0]) simp
next
  case (snoc e es)
  have M': "int (length es) + 2 \<le> M" "int (length es) + 1 < 2147483647" "M < 2147483648" and ok: "event_ok G T M e"
    using snoc.prems M by simp_all
  obtain r hist n m where r: "fold_res (remote_step G T B work) es (remote_start b) = Inr r"
      "served hist = take n (calls_of es)" "worked hist = happened es"
      "remote_inv G T es (fold (direct_step B work) hist (direct_start b)) n m r"
    using snoc.IH snoc.prems by auto
  let ?d = "fold (direct_step B work) hist (direct_start b)"
  have n: "n \<le> length (calls_of es)" by (rule inv_numbering(3) [OF r(4)])
  have "\<exists>r' hist' n' m'. remote_step G T B work e r = Inr r' \<and> served hist' = take n' (calls_of (es @ [e]))
      \<and> worked hist' = happened (es @ [e]) \<and> remote_inv G T (es @ [e]) (fold (direct_step B work) hist' (direct_start b)) n' m' r'"
  proof (cases e)
    case (Call k)
    then obtain r' where "remote_step G T B work e r = Inr r'" "remote_inv G T (es @ [e]) ?d n m r'"
      using step_call [OF G r(4) _ M'(1)] ok by blast
    moreover have "served hist = take n (calls_of (es @ [e]))" "worked hist = happened (es @ [e])"
      using r(2,3) Call n by (simp_all, simp add: happened_def)
    ultimately show ?thesis by blast
  next
    case ConnectionUp
    then show ?thesis using step_connection [OF r(4)] r(2,3) by (fastforce simp: calls_of_def happened_def)
  next
    case ClientWritten
    then show ?thesis using step_clientWritten [OF r(4)] r(2,3) by (fastforce simp: calls_of_def happened_def)
  next
    case SessionWritten
    then show ?thesis using step_sessionWritten [OF r(4)] r(2,3) by (fastforce simp: calls_of_def happened_def)
  next
    case (ClientReads k)
    then show ?thesis using step_clientReads [OF G T r(4)] r(2,3) by (fastforce simp: calls_of_def happened_def)
  next
    case (ServerReads k)
    obtain r' ks j where s: "remote_step G T B work e r = Inr r'" "take j (calls_of es) = take n (calls_of es) @ ks"
        "remote_inv G T (es @ [e]) (fold (direct_call B) ks ?d) j m r'"
      using step_serverReads [OF G T r(4) M'(2)] ServerReads by metis
    have "fold (direct_step B work) (hist @ map Inl ks) (direct_start b) = fold (direct_call B) ks ?d" by (simp add: fold_calls)
    moreover have "served (hist @ map Inl ks) = take j (calls_of (es @ [e]))" "worked (hist @ map Inl ks) = happened (es @ [e])"
      using r(2,3) s(2) ServerReads by (simp_all add: calls_of_def happened_def)
    ultimately show ?thesis using s(1,3) by metis
  next
    case (Server x)
    obtain r' where s: "remote_step G T B work e r = Inr r'" "remote_inv G T (es @ [e]) (direct_server work x ?d) n m r'"
      using step_server [OF G r(4) _ M'(1,3)] ok Server by metis
    have "fold (direct_step B work) (hist @ [Inr x]) (direct_start b) = direct_server work x ?d" by (simp add: direct_step_def)
    moreover have "served (hist @ [Inr x]) = take n (calls_of (es @ [e]))" "worked (hist @ [Inr x]) = happened (es @ [e])"
      using r(2,3) Server by (simp_all add: calls_of_def happened_def)
    ultimately show ?thesis using s by metis
  qed
  then show ?case using r(1) by (auto simp: fold_res_append)
qed

lemma quiet_end:
  assumes inv: "remote_inv G T es d n m r" and q: "quiet r"
  shows "n = length (calls_of es)" "m = length (dr_outcomes d)"
proof -
  obtain gone where gone: "sent_messages G T es = gone @ nc_messages (rm_client r)" "nc_wire (rm_client r) = concat (map frame gone)"
    using inv sending_wire unfolding remote_inv_def by metis
  have "sent_messages G T es = gone" using gone(1) q by (simp add: quiet_def)
  then show "n = length (calls_of es)"
    using reader_at_end [OF _ gone(2), of n "rm_serverRead r"] inv q
    by (auto simp: remote_inv_def quiet_def sent_messages_def)
  obtain left where left: "map (outcome_message G T) (dr_outcomes d) = left @ ns_outgoing (rm_session r)"
      "ns_wire (rm_session r) = concat (map frame left)"
    using inv sender_wire unfolding remote_inv_def by metis
  have "map (outcome_message G T) (dr_outcomes d) = left" using left(1) q by (simp add: quiet_def)
  moreover have "list_all fits (map (outcome_message G T) (dr_outcomes d))"
    using inv by (simp add: remote_inv_def direct_ok_def list_all_iff)
  ultimately show "m = length (dr_outcomes d)"
    using reader_at_end [OF _ left(2), of m "rm_clientRead r"] inv q by (auto simp: remote_inv_def quiet_def)
qed

text \<open>The IO threads can always finish: write what is queued, read what was written, at both ends.\<close>

lemma written_facts:
  "remote_step G T B work ClientWritten r = Inr r' \<Longrightarrow> nc_writing (rm_client r) \<noteq> None \<Longrightarrow>
     nc_messages (rm_client r') = tl (nc_messages (rm_client r)) \<and> nc_status (rm_client r') = nc_status (rm_client r)"
  "remote_step G T B work SessionWritten r = Inr r' \<Longrightarrow> ns_writing (rm_session r) \<noteq> None \<Longrightarrow>
     ns_outgoing (rm_session r') = tl (ns_outgoing (rm_session r)) \<and> rm_client r' = rm_client r \<and> rm_serverRead r' = rm_serverRead r"
  by (auto simp: remote_step_def client_written_def doSumitMessages_def session_written_def session_doSend_def Let_def
      split: list.splits json.splits if_splits) (metis json.exhaust)

lemma drain_client:
  "remote_inv G T es d n m r \<Longrightarrow> nc_status (rm_client r) = Connected \<Longrightarrow>
    \<exists>r'. fold_res (remote_step G T B work) (replicate (length (nc_messages (rm_client r))) ClientWritten) r = Inr r'
      \<and> nc_messages (rm_client r') = [] \<and> nc_status (rm_client r') = Connected
      \<and> remote_inv G T (es @ replicate (length (nc_messages (rm_client r))) ClientWritten) d n m r'"
proof (induction "length (nc_messages (rm_client r))" arbitrary: es r)
  case (Suc l)
  obtain r1 where r1: "remote_step G T B work ClientWritten r = Inr r1" "remote_inv G T (es @ [ClientWritten]) d n m r1"
    using step_clientWritten [OF Suc.prems(1)] by blast
  have "nc_messages (rm_client r) \<noteq> []" using Suc.hyps(2) by auto
  then have "nc_writing (rm_client r) \<noteq> None"
    using Suc.prems by (auto simp: remote_inv_def client_sending_def client_sender.sender_ok_def split: list.splits)
  note facts = written_facts(1) [OF r1(1) this]
  have l: "l = length (nc_messages (rm_client r1))" using facts Suc.hyps(2) by simp
  obtain r2 where "fold_res (remote_step G T B work) (replicate l ClientWritten) r1 = Inr r2" "nc_messages (rm_client r2) = []"
      "nc_status (rm_client r2) = Connected" "remote_inv G T ((es @ [ClientWritten]) @ replicate l ClientWritten) d n m r2"
    using Suc.hyps(1) [OF l r1(2)] facts Suc.prems(2) unfolding l [symmetric] by metis
  then show ?case using r1(1) unfolding Suc.hyps(2) [symmetric] by (intro exI [of _ r2]) simp
qed auto

lemma drain_session:
  "remote_inv G T es d n m r \<Longrightarrow>
    \<exists>r'. fold_res (remote_step G T B work) (replicate (length (ns_outgoing (rm_session r))) SessionWritten) r = Inr r'
      \<and> ns_outgoing (rm_session r') = [] \<and> rm_client r' = rm_client r \<and> rm_serverRead r' = rm_serverRead r
      \<and> remote_inv G T (es @ replicate (length (ns_outgoing (rm_session r))) SessionWritten) d n m r'"
proof (induction "length (ns_outgoing (rm_session r))" arbitrary: es r)
  case (Suc l)
  obtain r1 where r1: "remote_step G T B work SessionWritten r = Inr r1" "remote_inv G T (es @ [SessionWritten]) d n m r1"
    using step_sessionWritten [OF Suc.prems(1)] by blast
  have "ns_outgoing (rm_session r) \<noteq> []" using Suc.hyps(2) by auto
  then have "ns_writing (rm_session r) \<noteq> None"
    using Suc.prems by (auto simp: remote_inv_def session_sender.sender_ok_def split: list.splits)
  note facts = written_facts(2) [OF r1(1) this]
  have l: "l = length (ns_outgoing (rm_session r1))" using facts Suc.hyps(2) by simp
  obtain r2 where "fold_res (remote_step G T B work) (replicate l SessionWritten) r1 = Inr r2" "ns_outgoing (rm_session r2) = []"
      "rm_client r2 = rm_client r" "rm_serverRead r2 = rm_serverRead r"
      "remote_inv G T ((es @ [SessionWritten]) @ replicate l SessionWritten) d n m r2"
    using Suc.hyps(1) [OF l r1(2)] facts unfolding l [symmetric] by metis
  then show ?case using r1(1) unfolding Suc.hyps(2) [symmetric] by (intro exI [of _ r2]) simp
qed auto

lemma take_all_bytes: "fst rs \<le> length wire \<Longrightarrow> fst (snd (take_bytes (length wire) wire rs)) = length wire"
  by (simp add: take_bytes_def case_prod_beta Let_def)

lemma read_facts:
  assumes inv: "remote_inv G T es d n m r"
  shows "remote_step G T B work (ServerReads (length (nc_wire (rm_client r)))) r = Inr r' \<Longrightarrow>
      rm_client r' = rm_client r \<and> fst (rm_serverRead r') = length (nc_wire (rm_client r))"
    "remote_step G T B work (ClientReads (length (ns_wire (rm_session r)))) r = Inr r' \<Longrightarrow>
      rm_session r' = rm_session r \<and> rm_serverRead r' = rm_serverRead r \<and> fst (rm_clientRead r') = length (ns_wire (rm_session r))"
proof -
  have pos: "fst (rm_serverRead r) \<le> length (nc_wire (rm_client r))" "fst (rm_clientRead r) \<le> length (ns_wire (rm_session r))"
    using inv by (auto simp: remote_inv_def reader_at_def)
  show "remote_step G T B work (ServerReads (length (nc_wire (rm_client r)))) r = Inr r' \<Longrightarrow>
      rm_client r' = rm_client r \<and> fst (rm_serverRead r') = length (nc_wire (rm_client r))"
    using pos(1) take_all_bytes [of "rm_serverRead r" "nc_wire (rm_client r)"]
    by (auto simp: remote_step_def case_prod_beta)
  show "remote_step G T B work (ClientReads (length (ns_wire (rm_session r)))) r = Inr r' \<Longrightarrow>
      rm_session r' = rm_session r \<and> rm_serverRead r' = rm_serverRead r \<and> fst (rm_clientRead r') = length (ns_wire (rm_session r))"
    using pos(2) take_all_bytes [of "rm_clientRead r" "ns_wire (rm_session r)"]
    by (auto simp: remote_step_def case_prod_beta)
qed

definition io_events :: "nat \<Rightarrow> nat \<Rightarrow> nat \<Rightarrow> nat \<Rightarrow> ('p, 'e) remote_event list" where
  "io_events i j k l = replicate i ClientWritten @ [ServerReads j] @ replicate k SessionWritten @ [ClientReads l]"

lemma io_events_silent [simp]: "calls_of (io_events i j k l) = []" "happened (io_events i j k l) = []"
  by (simp_all add: io_events_def) (simp_all add: calls_of_def happened_def)

lemma io_finishes:
  assumes G: "gregorian_ok G" and T: "text_ok T" and inv: "remote_inv G T es d n m r" and up: "nc_status (rm_client r) = Connected"
    and bound: "length es < 1073741823"
  shows "\<exists>i j k l r' ks n' m'. fold_res (remote_step G T B work) (io_events i j k l) r = Inr r' \<and> quiet r'
    \<and> take n' (calls_of es) = take n (calls_of es) @ ks \<and> remote_inv G T (es @ io_events i j k l) (fold (direct_call B) ks d) n' m' r'"
proof -
  let ?i = "length (nc_messages (rm_client r))"
  obtain r1 where r1: "fold_res (remote_step G T B work) (replicate ?i ClientWritten) r = Inr r1" "nc_messages (rm_client r1) = []"
      "nc_status (rm_client r1) = Connected" "remote_inv G T (es @ replicate ?i ClientWritten) d n m r1"
    using drain_client [OF inv up] by blast
  let ?j = "length (nc_wire (rm_client r1))" and ?es1 = "es @ replicate ?i ClientWritten"
  have calls: "calls_of ?es1 = calls_of es" by simp (simp add: calls_of_def)
  have "sent_messages G T es = gone @ nc_messages (rm_client r) \<Longrightarrow> ?i \<le> length (calls_of es)" for gone
    by (metis length_append length_commands length_map le_add2 sent_messages_def)
  then have "?i \<le> length es" using sending_wire [of "sent_messages G T es" "rm_client r"] inv length_calls_of [of es]
    unfolding remote_inv_def by (metis order_trans)
  then have bound1: "int (length ?es1) + 1 < 2147483647" using bound by simp
  obtain r2 ks n2 where r2: "remote_step G T B work (ServerReads ?j) r1 = Inr r2" "take n2 (calls_of ?es1) = take n (calls_of ?es1) @ ks"
      "remote_inv G T (?es1 @ [ServerReads ?j]) (fold (direct_call B) ks d) n2 m r2"
    using step_serverReads [OF G T r1(4) bound1] by metis
  let ?k = "length (ns_outgoing (rm_session r2))" and ?d = "fold (direct_call B) ks d"
  obtain r3 where r3: "fold_res (remote_step G T B work) (replicate ?k SessionWritten) r2 = Inr r3" "ns_outgoing (rm_session r3) = []"
      "rm_client r3 = rm_client r2" "rm_serverRead r3 = rm_serverRead r2"
      "remote_inv G T ((?es1 @ [ServerReads ?j]) @ replicate ?k SessionWritten) ?d n2 m r3"
    using drain_session [OF r2(3)] by blast
  let ?l = "length (ns_wire (rm_session r3))"
  obtain r4 m4 where r4: "remote_step G T B work (ClientReads ?l) r3 = Inr r4" "same_sending (rm_client r3) (rm_client r4)"
      "remote_inv G T (((?es1 @ [ServerReads ?j]) @ replicate ?k SessionWritten) @ [ClientReads ?l]) ?d n2 m4 r4"
    using step_clientReads [OF G T r3(5)] by metis
  have same: "nc_messages (rm_client r4) = nc_messages (rm_client r3)" "nc_status (rm_client r4) = nc_status (rm_client r3)"
    "nc_wire (rm_client r4) = nc_wire (rm_client r3)"
    using r4(2) by (simp_all add: same_sending_def)
  have "quiet r4"
    using same r1(2,3) r3(2,3,4) read_facts(1) [OF r1(4) r2(1)] read_facts(2) [OF r3(5) r4(1)] by (simp add: quiet_def)
  moreover have "fold_res (remote_step G T B work) (io_events ?i ?j ?k ?l) r = Inr r4"
    using r1(1) r2(1) r3(1) r4(1) by (simp add: fold_res_append io_events_def)
  moreover have "remote_inv G T (es @ io_events ?i ?j ?k ?l) ?d n2 m4 r4" using r4(3) by (simp add: io_events_def)
  ultimately show ?thesis using r2(2) unfolding calls by blast
qed

section \<open>Properties\<close>

text \<open>C5 A backend used over the network is the backend itself, apart from the clearing of streams, which the client does not
  implement.  The calls carry operations on well-formed hotels and contiguous reservations, deletions and erasures; operations on persons,
  which no end can read, are not made, and messages are shorter than four gigabytes (\<open>event_ok\<close>).  Then, however callers, both IO threads and
  the backend's own thread interleave, and however the bytes are cut up on the way, no handler fails, and there is a history of a program
  next to the backend, with the same calls in the same order, up to those still on the way, and with the same events at the server, that
  explains what both sides see: the backend is in the state of that history, and the client has resolved the promises and queued the changes
  of a prefix of its outcomes, each promise with the results of its own task and once, and every change but \<open>Cleared\<close> in order
  (\<open>changes_seen\<close>), up to what the format of reservations drops.  When nothing is left to send or to read, nothing else is missing.
\<close>

theorem remote_backend_refines_direct:
  assumes "gregorian_ok G" and "text_ok T" and "list_all (event_ok G T (int (length es) + 1)) es" and "length es < 2147483646"
  shows "\<exists>r hist n m. fold_res (remote_step G T B work) es (remote_start b) = Inr r
    \<and> served hist = take n (calls_of es) \<and> worked hist = happened es
    \<and> (let d = fold (direct_step B work) hist (direct_start b)
       in rm_backend r = dr_backend d \<and> nc_resolved (rm_client r) = resolutions (take m (dr_outcomes d))
          \<and> cq_pending (nc_changes (rm_client r)) = changes_seen (take m (dr_outcomes d))
          \<and> distinct (outcome_ids (dr_outcomes d))
          \<and> (quiet r \<longrightarrow> n = length (calls_of es) \<and> m = length (dr_outcomes d)))"
proof -
  obtain r hist n m where r: "fold_res (remote_step G T B work) es (remote_start b) = Inr r"
      "served hist = take n (calls_of es)" "worked hist = happened es"
      "remote_inv G T es (fold (direct_step B work) hist (direct_start b)) n m r"
    using remote_run [OF assms(1,2) _ assms(3), of B work b] assms(4) by auto
  show ?thesis
    using r quiet_end [OF r(4)] unfolding Let_def
    by (intro exI [of _ r] exI [of _ hist] exI [of _ n] exI [of _ m]) (simp add: remote_inv_def direct_ok_def)
qed

text \<open>C6 No call over the network is lost.  From every state of a run as above in which the client is connected, writing and reading at both
  ends comes to rest, and then the backend has served every call made, in order, every promise whose task the backend has finished is
  resolved with its results, and every change is queued at the client except the clearings of streams, whose messages the client
  ignores.
\<close>

theorem remote_calls_complete:
  assumes "gregorian_ok G" and "text_ok T" and "list_all (event_ok G T (int (length es) + 1)) es" and "length es < 1073741823"
    and "fold_res (remote_step G T B work) es (remote_start b) = Inr r" and "nc_status (rm_client r) = Connected"
  shows "\<exists>i j k l r' hist. fold_res (remote_step G T B work) (io_events i j k l) r = Inr r' \<and> quiet r'
    \<and> served hist = calls_of es \<and> worked hist = happened es
    \<and> (let d = fold (direct_step B work) hist (direct_start b)
       in rm_backend r' = dr_backend d \<and> nc_resolved (rm_client r') = resolutions (dr_outcomes d)
          \<and> cq_pending (nc_changes (rm_client r')) = changes_seen (dr_outcomes d))"
proof -
  obtain hist n m where r: "served hist = take n (calls_of es)" "worked hist = happened es"
      "remote_inv G T es (fold (direct_step B work) hist (direct_start b)) n m r"
    using remote_run [OF assms(1,2) _ assms(3), of B work b] assms(4,5) by auto
  let ?d = "fold (direct_step B work) hist (direct_start b)"
  obtain i j k l r' ks n' m' where io: "fold_res (remote_step G T B work) (io_events i j k l) r = Inr r'" "quiet r'"
      "take n' (calls_of es) = take n (calls_of es) @ ks" "remote_inv G T (es @ io_events i j k l) (fold (direct_call B) ks ?d) n' m' r'"
    using io_finishes [OF assms(1,2) r(3) assms(6,4), where B = B and work = work] by blast
  have finished: "n' = length (calls_of es)" "m' = length (dr_outcomes (fold (direct_call B) ks ?d))"
    using quiet_end [OF io(4,2)] by simp_all
  let ?hist = "hist @ map Inl ks"
  have d: "fold (direct_step B work) ?hist (direct_start b) = fold (direct_call B) ks ?d" by (simp add: fold_calls)
  have "served ?hist = calls_of es" "worked ?hist = happened es" using r(1,2) io(3) finished(1) by simp_all
  moreover have "rm_backend r' = dr_backend (fold (direct_call B) ks ?d)"
    "nc_resolved (rm_client r') = resolutions (dr_outcomes (fold (direct_call B) ks ?d))"
    "cq_pending (nc_changes (rm_client r')) = changes_seen (dr_outcomes (fold (direct_call B) ks ?d))"
    using io(4) finished(2) by (simp_all add: remote_inv_def)
  ultimately show ?thesis unfolding Let_def
    using io(1,2) unfolding d [symmetric]
    by blast
qed

section \<open>The server's own backend\<close>

text \<open>\<open>SqliteBackend\<close> as the backend of the session: its streams with their addresses, the next unused address or token, and its
  state.  The numbers of stream types are those of the enumeration.\<close>

record ('p, 'db) server_backend =
  sv_store :: "nat \<Rightarrow> data_stream"
  sv_fresh :: nat
  sv_backend :: "('p, 'db) backend"

definition stream_type_of :: "int \<Rightarrow> stream_type" where
  "stream_type_of i = (if i = 1 then HotelStream else if i = 2 then ReservationStream else NullStream)"

lemma stream_type_of_int: "stream_type_of (stream_type_int t) = t"
  by (cases t) (simp_all add: stream_type_of_def stream_type_int_def)

definition sqlite_createStream ::
    "int \<Rightarrow> int \<Rightarrow> string \<Rightarrow> json \<Rightarrow> ('p, 'db) server_backend \<Rightarrow> nat \<times> ('p, 'db) server_backend" where
  "sqlite_createStream i t service options w =
     (case backend_createStream (sv_fresh w) (sv_fresh w) (stream_type_of t) service options (sv_store w, sv_backend w) of
        Inr (h, st, b) \<Rightarrow> (sv_fresh w, \<lparr>sv_store = st, sv_fresh = Suc (sv_fresh w), sv_backend = b\<rparr>)
      | Inl _ \<Rightarrow> (sv_fresh w, w))"

definition sqlite_ops :: "('p, ('p, 'db) server_backend) backend_ops" where
  "sqlite_ops =
     \<lparr>b_createStream = sqlite_createStream,
      b_removeStream = (\<lambda>h w. w\<lparr>sv_store := (sv_store w)(h := disconnect (sv_store w h)), sv_backend := backend_removeStream h (sv_backend w)\<rparr>),
      b_queueOperations = (\<lambda>ops w. (sv_fresh w,
        w\<lparr>sv_fresh := Suc (sv_fresh w), sv_backend := backend_queueOperations ops (sv_fresh w) (sv_backend w)\<rparr>))\<rparr>"

text \<open>Creating a stream never fails: its id is set once.\<close>

lemma sqlite_createStream_ok:
  "\<exists>ds. sqlite_createStream i (stream_type_int t) service options w = (sv_fresh w, \<lparr>sv_store = (sv_store w)(sv_fresh w := ds), sv_fresh = Suc (sv_fresh w),
     sv_backend = (sv_backend w)\<lparr>sb_nextStreamId := sb_nextStreamId (sv_backend w) + 1,
       sb_changeQueue := addStream (sv_fresh w) (sb_changeQueue (sv_backend w)),
       sb_streams := addNewStream (sv_fresh w) (sb_streams (sv_backend w))\<rparr>\<rparr>) \<and> ds_type ds = t \<and> ds_endpoint ds = service"
  by (intro exI [of _ "(mk_data_stream t service options)\<lparr>ds_id := sb_nextStreamId (sv_backend w), ds_observer := Some (sv_fresh w)\<rparr>"])
     (simp add: sqlite_createStream_def backend_createStream_def connect_stream_def mk_data_stream_def assert_that_def stream_type_of_int Let_def)

datatype worker_step = TakeTasks | InitializeStreams | RunTask

definition sqlite_work ::
    "'db sqlite \<Rightarrow> ('d::linorder, 'p) gregorian \<Rightarrow> worker_step \<Rightarrow> ('p, 'db) server_backend \<Rightarrow> ('p, 'db) server_backend" where
  "sqlite_work S G e w =
     (case (case e of
              TakeTasks \<Rightarrow> Inr (worker_take (sv_backend w))
            | InitializeStreams \<Rightarrow> worker_initialize S G (sv_store w) (sv_backend w)
            | RunTask \<Rightarrow> worker_task S G (sv_store w) (sv_backend w)) of
        Inr b \<Rightarrow> w\<lparr>sv_backend := b\<rparr>
      | Inl _ \<Rightarrow> w)"

definition server_start :: "'db sqlite \<Rightarrow> string \<Rightarrow> ('p, 'db) server_backend" where
  "server_start S path = \<lparr>sv_store = (\<lambda>_. mk_data_stream NullStream [] JNull), sv_fresh = 0, sv_backend = mk_backend S path\<rparr>"

section \<open>Examples\<close>

text \<open>A text format with short texts for the given values.\<close>

definition table_text :: "json list \<Rightarrow> json_text" where
  "table_text js =
     \<lparr>dump = (\<lambda>j. case find_index (\<lambda>x. x = j) js of Some k \<Rightarrow> 1 # replicate k 1 | None \<Rightarrow> 0 # replicate (to_nat j) 1),
      parse = (\<lambda>bs. if hd bs = 1 then Inr (js ! (length bs - 1)) else Inr (from_nat (length bs - 1)))\<rparr>"

lemma table_text_ok: "text_ok (table_text js)"
  by (auto simp: text_ok_def table_text_def dest: find_index_SomeD split: option.split)

lemma table_text_fits:
  assumes "j \<in> set js" and "length js < 1000"
  shows "fits (dump (table_text js) j)"
proof -
  obtain k where k: "find_index (\<lambda>x. x = j) js = Some k" using assms(1) by (cases "find_index (\<lambda>x. x = j) js") (auto simp: find_index_None)
  then have "k < length js" using find_index_SomeD by blast
  then show ?thesis using k assms(2) by (simp add: table_text_def fits_def)
qed

definition demo_call :: "(int \<times> int) call" where
  "demo_call = QueueOperations [Delete ReservationType 5] 7"

definition demo_result :: task_result where
  "demo_result = \<lparr>task_status = Successful, task_data = JNull\<rparr>"

definition demo_text :: json_text where
  "demo_text = table_text (map (\<lambda>i. case command_json day_calendar (numbered demo_call i) of Inr j \<Rightarrow> j | Inl _ \<Rightarrow> JNull) [0..8]
     @ map (\<lambda>i. serializeTaskResultsMessage i [demo_result]) [0..8])"

definition demo_run :: "(int \<times> int, worker_step) remote_event list" where
  "demo_run = [ConnectionUp, Call demo_call, ClientWritten, ServerReads 100, Server (Work TakeTasks), Server (TaskDone 0 [demo_result]), SessionWritten]"

lemma demo_call_json: "\<exists>j. command_json day_calendar (numbered demo_call i) = Inr j"
  using operations_roundtrip [OF day_calendar_ok, of "[Delete ReservationType 5]"]
  by (auto simp: demo_call_def numbered_def command_json_def operation_ok_def int32_def simp del: bindr_eq_Inr)

lemma demo_call_fits: "0 \<le> i \<Longrightarrow> i \<le> 8 \<Longrightarrow> fits (command_message day_calendar demo_text (numbered demo_call i))"
  "0 \<le> i \<Longrightarrow> i \<le> 8 \<Longrightarrow> fits (dump demo_text (serializeTaskResultsMessage i [demo_result]))"
proof -
  assume i: "0 \<le> i" "i \<le> 8"
  obtain j where j: "command_json day_calendar (numbered demo_call i) = Inr j" using demo_call_json by blast
  then have "j \<in> (\<lambda>i. case command_json day_calendar (numbered demo_call i) of Inr j \<Rightarrow> j | Inl _ \<Rightarrow> JNull) ` {0..8}"
    using i by (intro image_eqI [of _ _ i]) simp_all
  then show "fits (command_message day_calendar demo_text (numbered demo_call i))"
    unfolding command_message_def j demo_text_def by (simp, intro table_text_fits) simp_all
  show "fits (dump demo_text (serializeTaskResultsMessage i [demo_result]))"
    unfolding demo_text_def using i by (intro table_text_fits) simp_all
qed

lemma demo_text_ok: "text_ok demo_text"
  by (simp add: demo_text_def table_text_ok)

lemma demo_run_ok: "list_all (event_ok day_calendar demo_text (int (length demo_run) + 1)) demo_run"
  using demo_call_fits by (simp add: demo_run_def event_ok_def list_all_iff result_ok_def demo_result_def status_int_def int32_def)
    (simp add: demo_call_def call_ok_def operation_ok_def int32_def)

definition demo_calls :: "(int \<times> int, worker_step) remote_event list" where
  "demo_calls = [Call demo_call, ConnectionUp]"

lemma demo_calls_ok: "list_all (event_ok day_calendar demo_text (int (length demo_calls) + 1)) demo_calls"
  using demo_call_fits by (simp add: demo_calls_def event_ok_def list_all_iff) (simp add: demo_call_def call_ok_def operation_ok_def int32_def)

lemma demo_calls_connect:
  "\<exists>r. fold_res (remote_step day_calendar demo_text sqlite_ops (sqlite_work table_db day_calendar)) demo_calls
       (remote_start (server_start table_db [])) = Inr r \<and> nc_status (rm_client r) = Connected"
proof -
  obtain js where "map_res (serialize_operation day_calendar) [Delete ReservationType 5] = Inr js"
    using operations_roundtrip [OF day_calendar_ok, of "[Delete ReservationType 5]"] by (auto simp: operation_ok_def int32_def simp del: map_res.simps)
  then show ?thesis
    by (simp add: demo_calls_def demo_call_def remote_step_def client_call_def client_queueOperations_def remote_start_def
        mk_net_client_def client_submit_def socketConnected_def doSumitMessages_def Let_def del: map_res.simps)
qed

theorem remote_backend_refines_direct_witness:
  "\<exists>r hist n m. fold_res (remote_step day_calendar demo_text sqlite_ops (sqlite_work table_db day_calendar)) demo_run
       (remote_start (server_start table_db [])) = Inr r
    \<and> served hist = take n [demo_call] \<and> worked hist = [Work TakeTasks, TaskDone 0 [demo_result]]
    \<and> nc_resolved (rm_client r) = resolutions (take m (dr_outcomes (fold (direct_step sqlite_ops (sqlite_work table_db day_calendar)) hist
         (direct_start (server_start table_db [])))))"
proof -
  have run: "calls_of demo_run = [demo_call]" "happened demo_run = [Work TakeTasks, TaskDone 0 [demo_result]]" "length demo_run < 2147483646"
    by (simp_all add: demo_run_def) (simp_all add: calls_of_def happened_def)
  show ?thesis
    using remote_backend_refines_direct [OF day_calendar_ok demo_text_ok demo_run_ok run(3), of sqlite_ops "sqlite_work table_db day_calendar"
        "server_start table_db []"] unfolding Let_def run by blast
qed

theorem remote_calls_complete_witness:
  "\<exists>r i j k l r' hist. fold_res (remote_step day_calendar demo_text sqlite_ops (sqlite_work table_db day_calendar)) demo_calls
       (remote_start (server_start table_db [])) = Inr r
    \<and> fold_res (remote_step day_calendar demo_text sqlite_ops (sqlite_work table_db day_calendar)) (io_events i j k l) r = Inr r'
    \<and> quiet r' \<and> served hist = [demo_call]
    \<and> rm_backend r' = dr_backend (fold (direct_step sqlite_ops (sqlite_work table_db day_calendar)) hist (direct_start (server_start table_db [])))"
proof -
  let ?step = "remote_step day_calendar demo_text sqlite_ops (sqlite_work table_db day_calendar)"
  let ?start = "remote_start (server_start table_db []) :: (int \<times> int, (int \<times> int, tables) server_backend) remote"
  have run: "calls_of demo_calls = [demo_call]" "length demo_calls < 1073741823"
    by (simp_all add: demo_calls_def) (simp_all add: calls_of_def)
  obtain r where r: "fold_res ?step demo_calls ?start = Inr r" "nc_status (rm_client r) = Connected"
    using demo_calls_connect by blast
  show ?thesis
    using remote_calls_complete [OF day_calendar_ok demo_text_ok demo_calls_ok run(2) r] r(1) unfolding Let_def run by blast
qed

end
