(* ===== verification/NetServer.thy ===== *)
theory NetServer
  imports NetSession
begin

text \<open>
  \<open>server::NetServer\<close>: the acceptor, the sessions and the thread that runs the IO service.  Operations of Boost.Asio are
  outstanding until they complete; then their handler is ready, and the thread dispatches ready handlers in order.  Closing
  an object cancels what is outstanding on it, not what is ready.  Whether accepting opens the socket of the session when the
  connection arrives or when the handler is dispatched, the versions of Boost differ in: that is the parameter \<open>early\<close>.
  A message that has been read is parsed and run on the backend \<open>B\<close> by the handler of the read, with the operations of
  \<open>NetSession\<close>; the backend's own thread posts the results of tasks and the changes of streams.
\<close>

section \<open>Model\<close>

datatype socket_state = Unopened | Opened | Shut

datatype server_thread = NotStarted | Running | Joined | Terminated

text \<open>
  The handlers: of an accept and of a write, with whether they succeeded; of the read of a header or of a body, with the bytes
  if it succeeded; the continuation of a task's future, which the executor of the session posts; the handler that applies the
  changes of the backend; and the closing posted by \<open>stopAndJoin\<close>.
\<close>

datatype io_handler =
    Accepted nat bool
  | ReadDone nat reader "byte list option"
  | WriteDone nat bool
  | TaskResults nat nat "task_result list"
  | ApplyChanges
  | CloseAll

text \<open>
  Sessions are numbered in the order they are made; \<open>nv_sessions\<close> counts the entries of \<open>_sessions\<close>, which are never removed.
  A stream is known by the backend's token for it, as in \<open>ns_streams\<close>; \<open>nv_changes\<close> are the changes the backend has queued
  for the streams.
\<close>

record ('p, 'b) net_server =
  nv_acceptor :: bool
  nv_sessions :: nat
  nv_sockets :: "nat \<Rightarrow> socket_state"
  nv_session :: "nat \<Rightarrow> net_session"
  nv_backend :: 'b
  nv_changes :: "(nat \<times> 'p change) list"
  nv_accepting :: "nat option"
  nv_reading :: "(nat \<times> reader) list"
  nv_writing :: "nat list"
  nv_ready :: "io_handler list"
  nv_thread :: server_thread
  nv_stopping :: bool

definition post :: "io_handler \<Rightarrow> ('p, 'b) net_server \<Rightarrow> ('p, 'b) net_server" where
  "post h s = s\<lparr>nv_ready := nv_ready s @ [h]\<rparr>"

text \<open>An operation on a closed object completes with an error at once.\<close>

definition doAccept :: "('p, 'b) net_server \<Rightarrow> ('p, 'b) net_server" where
  "doAccept s =
     (let i = nv_sessions s; s' = s\<lparr>nv_sessions := Suc i, nv_session := (nv_session s)(i := mk_net_session)\<rparr>
      in if nv_acceptor s then s'\<lparr>nv_accepting := Some i\<rparr> else post (Accepted i False) s')"

definition mk_net_server :: "'b \<Rightarrow> ('p, 'b) net_server" where
  "mk_net_server b = doAccept
     \<lparr>nv_acceptor = True, nv_sessions = 0, nv_sockets = (\<lambda>_. Unopened), nv_session = (\<lambda>_. mk_net_session), nv_backend = b,
      nv_changes = [], nv_accepting = None, nv_reading = [], nv_writing = [], nv_ready = [], nv_thread = NotStarted, nv_stopping = False\<rparr>"

definition start_read :: "nat \<Rightarrow> reader \<Rightarrow> ('p, 'b) net_server \<Rightarrow> ('p, 'b) net_server" where
  "start_read i r s =
     (if nv_sockets s i = Opened then s\<lparr>nv_reading := nv_reading s @ [(i, r)]\<rparr> else post (ReadDone i r None) s)"

definition start_session :: "nat \<Rightarrow> ('p, 'b) net_server \<Rightarrow> ('p, 'b) net_server" where
  "start_session i = start_read i WaitHeader"

definition start_write :: "nat \<Rightarrow> ('p, 'b) net_server \<Rightarrow> ('p, 'b) net_server" where
  "start_write i s =
     (if nv_sockets s i = Opened then s\<lparr>nv_writing := nv_writing s @ [i]\<rparr> else post (WriteDone i False) s)"

definition close_session :: "nat \<Rightarrow> ('p, 'b) net_server \<Rightarrow> ('p, 'b) net_server" where
  "close_session i s =
     (if nv_sockets s i = Opened then
        s\<lparr>nv_sockets := (nv_sockets s)(i := Shut),
          nv_reading := [(j, r) \<leftarrow> nv_reading s. j \<noteq> i], nv_writing := [j \<leftarrow> nv_writing s. j \<noteq> i],
          nv_ready := nv_ready s @ map (\<lambda>(j, r). ReadDone j r None) [(j, r) \<leftarrow> nv_reading s. j = i]
            @ map (\<lambda>j. WriteDone j False) [j \<leftarrow> nv_writing s. j = i]\<rparr>
      else s)"

text \<open>Asking a socket for its peer throws when the socket is not open, or when the peer has gone: that is \<open>known\<close>.\<close>

definition remote_endpoint :: "bool \<Rightarrow> nat \<Rightarrow> ('p, 'b) net_server \<Rightarrow> unit res" where
  "remote_endpoint known i s = (if nv_sockets s i = Opened \<and> known then Inr () else Inl SystemError)"

text \<open>
  Outstanding operations and ready handlers own their session; the continuation of a task does not.  When the last owner
  is gone, the destructor names the peer of an open socket, the socket closes, and the handles of the streams and the futures of
  the running operations go with the session.
\<close>

definition handler_sessions :: "io_handler list \<Rightarrow> nat list" where
  "handler_sessions hs = concat (map (\<lambda>h. case h of Accepted i ok \<Rightarrow> [i] | ReadDone i r m \<Rightarrow> [i] | WriteDone i ok \<Rightarrow> [i]
     | TaskResults i f rs \<Rightarrow> [] | ApplyChanges \<Rightarrow> [] | CloseAll \<Rightarrow> []) hs)"

definition owned :: "('p, 'b) net_server \<Rightarrow> nat list" where
  "owned s = (case nv_accepting s of None \<Rightarrow> [] | Some i \<Rightarrow> [i]) @ map fst (nv_reading s) @ nv_writing s @ handler_sessions (nv_ready s)"

definition destroy_session :: "('p, 'b) backend_ops \<Rightarrow> bool \<Rightarrow> nat \<Rightarrow> ('p, 'b) net_server \<Rightarrow> ('p, 'b) net_server res" where
  "destroy_session B known i s =
     bindr (if nv_sockets s i = Opened then remote_endpoint known i s else Inr ()) (\<lambda>_.
       Inr (s\<lparr>nv_sockets := (nv_sockets s)(i := Shut),
              nv_session := (nv_session s)(i := (nv_session s i)\<lparr>ns_streams := [], ns_running := []\<rparr>),
              nv_backend := fold (\<lambda>(h, _). b_removeStream B h) (ns_streams (nv_session s i)) (nv_backend s)\<rparr>))"

definition release :: "('p, 'b) backend_ops \<Rightarrow> bool \<Rightarrow> nat \<Rightarrow> ('p, 'b) net_server \<Rightarrow> ('p, 'b) net_server res" where
  "release B known i s = (if i \<in> set (owned s) then Inr s else destroy_session B known i s)"

text \<open>The handlers.\<close>

definition on_accepted ::
    "('p, 'b) backend_ops \<Rightarrow> bool \<Rightarrow> bool \<Rightarrow> nat \<Rightarrow> bool \<Rightarrow> ('p, 'b) net_server \<Rightarrow> ('p, 'b) net_server res" where
  "on_accepted B early known i ok s =
     (if ok then
        let s' = start_session i (if early then s else s\<lparr>nv_sockets := (nv_sockets s)(i := Opened)\<rparr>)
        in bindr (remote_endpoint known i s') (\<lambda>_. Inr (doAccept s'))
      else release B known i s)"

text \<open>A header gives the size of the body to read; a body is a command, parsed and run before the next header is read.\<close>

definition on_readDone ::
    "('d::linorder, 'p) gregorian \<Rightarrow> json_text \<Rightarrow> ('p, 'b) backend_ops \<Rightarrow> bool \<Rightarrow> nat \<Rightarrow> reader \<Rightarrow> byte list option
       \<Rightarrow> ('p, 'b) net_server \<Rightarrow> ('p, 'b) net_server res" where
  "on_readDone G T B known i r result s =
     (case result of
        None \<Rightarrow> release B known i s
      | Some bytes \<Rightarrow>
          (case r of
             WaitHeader \<Rightarrow> Inr (start_read i (WaitBody (unat (header_size bytes))) s)
           | WaitBody n \<Rightarrow>
               bindr (session_bodyRead G T B bytes (nv_session s i, nv_backend s)) (\<lambda>(c, b).
                 Inr (start_read i WaitHeader (s\<lparr>nv_session := (nv_session s)(i := c), nv_backend := b\<rparr>)))))"

text \<open>A call of \<open>sendMessage\<close> on a session; a session that was idle starts writing.\<close>

definition send_from :: "nat \<Rightarrow> (net_session \<Rightarrow> net_session res) \<Rightarrow> ('p, 'b) net_server \<Rightarrow> ('p, 'b) net_server res" where
  "send_from i f s =
     bindr (f (nv_session s i)) (\<lambda>c.
       let s' = s\<lparr>nv_session := (nv_session s)(i := c)\<rparr>
       in Inr (if ns_outgoing (nv_session s i) = [] \<and> ns_outgoing c \<noteq> [] then start_write i s' else s'))"

definition on_writeDone ::
    "json_text \<Rightarrow> ('p, 'b) backend_ops \<Rightarrow> bool \<Rightarrow> nat \<Rightarrow> bool \<Rightarrow> ('p, 'b) net_server \<Rightarrow> ('p, 'b) net_server res" where
  "on_writeDone T B known i ok s =
     bindr (if ok then
              bindr (session_written T (nv_session s i)) (\<lambda>c.
                let s' = s\<lparr>nv_session := (nv_session s)(i := c)\<rparr>
                in Inr (if ns_outgoing c \<noteq> [] then start_write i s' else s'))
            else Inr s)
       (release B known i)"

text \<open>The continuation holds the session weakly.\<close>

definition on_results ::
    "json_text \<Rightarrow> nat \<Rightarrow> nat \<Rightarrow> task_result list \<Rightarrow> ('p, 'b) net_server \<Rightarrow> ('p, 'b) net_server res" where
  "on_results T i f results s = (if i \<in> set (owned s) then send_from i (session_results T f results) s else Inr s)"

text \<open>The session that holds the handle of a stream, and the id its client has given the stream.\<close>

definition stream_owner :: "nat \<Rightarrow> ('p, 'b) net_server \<Rightarrow> (nat \<times> int) option" where
  "stream_owner h s =
     (case find_index (\<lambda>i. map_of (ns_streams (nv_session s i)) h \<noteq> None) [0..<nv_sessions s] of
        None \<Rightarrow> None
      | Some i \<Rightarrow> map_option (Pair i) (map_of (ns_streams (nv_session s i)) h))"

definition deliver_change ::
    "('d::linorder, 'p) gregorian \<Rightarrow> json_text \<Rightarrow> nat \<times> 'p change \<Rightarrow> ('p, 'b) net_server \<Rightarrow> ('p, 'b) net_server res" where
  "deliver_change G T = (\<lambda>(h, c) s.
     (case stream_owner h s of
        None \<Rightarrow> Inr s
      | Some (i, clientId) \<Rightarrow> send_from i (notify (session_observer G T clientId) c) s))"

definition on_changes :: "('d::linorder, 'p) gregorian \<Rightarrow> json_text \<Rightarrow> ('p, 'b) net_server \<Rightarrow> ('p, 'b) net_server res" where
  "on_changes G T s = fold_res (deliver_change G T) (nv_changes s) (s\<lparr>nv_changes := []\<rparr>)"

definition on_close :: "('p, 'b) net_server \<Rightarrow> ('p, 'b) net_server" where
  "on_close s =
     (let s1 = s\<lparr>nv_acceptor := False, nv_accepting := None\<rparr>;
          s2 = (case nv_accepting s of None \<Rightarrow> s1 | Some i \<Rightarrow> post (Accepted i False) s1)
      in fold close_session [0..<nv_sessions s] s2)"

definition run_handler ::
    "('d::linorder, 'p) gregorian \<Rightarrow> json_text \<Rightarrow> ('p, 'b) backend_ops \<Rightarrow> bool \<Rightarrow> bool \<Rightarrow> io_handler
       \<Rightarrow> ('p, 'b) net_server \<Rightarrow> ('p, 'b) net_server res" where
  "run_handler G T B early known h s =
     (case h of
        Accepted i ok \<Rightarrow> on_accepted B early known i ok s
      | ReadDone i r result \<Rightarrow> on_readDone G T B known i r result s
      | WriteDone i ok \<Rightarrow> on_writeDone T B known i ok s
      | TaskResults i f results \<Rightarrow> on_results T i f results s
      | ApplyChanges \<Rightarrow> on_changes G T s
      | CloseAll \<Rightarrow> Inr (on_close s))"

text \<open>
  Clients connect, send and leave; accepting may fail; the thread runs until nothing is outstanding or ready.  An exception or
  assertion that leaves a handler leaves the thread, and terminates the program.
\<close>

fun wanted :: "reader \<Rightarrow> nat" where
  "wanted WaitHeader = 4"
| "wanted (WaitBody n) = n"

inductive server_run ::
    "('d::linorder, 'p) gregorian \<Rightarrow> json_text \<Rightarrow> ('p, 'b) backend_ops \<Rightarrow> bool \<Rightarrow> ('p, 'b) net_server \<Rightarrow> ('p, 'b) net_server \<Rightarrow> bool"
    for G T B early where
  connects: "nv_accepting s = Some i \<Longrightarrow> server_run G T B early s
     (post (Accepted i True) (s\<lparr>nv_accepting := None, nv_sockets := (if early then (nv_sockets s)(i := Opened) else nv_sockets s)\<rparr>))"
| refused: "nv_accepting s = Some i \<Longrightarrow> server_run G T B early s (post (Accepted i False) (s\<lparr>nv_accepting := None\<rparr>))"
| reads: "(i, r) \<in> set (nv_reading s) \<Longrightarrow> length bytes = wanted r \<Longrightarrow>
     server_run G T B early s (post (ReadDone i r (Some bytes)) (s\<lparr>nv_reading := remove1 (i, r) (nv_reading s)\<rparr>))"
| leaves: "(i, r) \<in> set (nv_reading s) \<Longrightarrow>
     server_run G T B early s (post (ReadDone i r None) (s\<lparr>nv_reading := remove1 (i, r) (nv_reading s)\<rparr>))"
| writes: "i \<in> set (nv_writing s) \<Longrightarrow>
     server_run G T B early s (post (WriteDone i ok) (s\<lparr>nv_writing := remove1 i (nv_writing s)\<rparr>))"
| start: "nv_thread s = NotStarted \<Longrightarrow> server_run G T B early s (s\<lparr>nv_thread := Running\<rparr>)"
| dispatch: "nv_thread s = Running \<Longrightarrow> nv_ready s = h # hs \<Longrightarrow> run_handler G T B early known h (s\<lparr>nv_ready := hs\<rparr>) = Inr s' \<Longrightarrow>
     server_run G T B early s s'"
| crashes: "nv_thread s = Running \<Longrightarrow> nv_ready s = h # hs \<Longrightarrow> run_handler G T B early known h (s\<lparr>nv_ready := hs\<rparr>) = Inl e \<Longrightarrow>
     server_run G T B early s (s\<lparr>nv_thread := Terminated\<rparr>)"
| stop: "nv_thread s = Running \<Longrightarrow> \<not> nv_stopping s \<Longrightarrow> server_run G T B early s (post CloseAll (s\<lparr>nv_stopping := True\<rparr>))"
| returns: "nv_thread s = Running \<Longrightarrow> nv_ready s = [] \<Longrightarrow> nv_accepting s = None \<Longrightarrow> nv_reading s = [] \<Longrightarrow> nv_writing s = [] \<Longrightarrow>
     server_run G T B early s (s\<lparr>nv_thread := Joined\<rparr>)"

text \<open>The backend's thread: it works, posts the results of a task to the session that asked for them, and queues changes.\<close>

inductive backend_run :: "('e \<Rightarrow> 'b \<Rightarrow> 'b) \<Rightarrow> ('p, 'b) net_server \<Rightarrow> ('p, 'b) net_server \<Rightarrow> bool" for work where
  works: "backend_run work s (s\<lparr>nv_backend := work x (nv_backend s)\<rparr>)"
| resolves: "backend_run work s (post (TaskResults i f results) s)"
| handleChanges: "backend_run work s (post ApplyChanges (s\<lparr>nv_changes := nv_changes s @ cs\<rparr>))"

definition server_or_backend ::
    "('d::linorder, 'p) gregorian \<Rightarrow> json_text \<Rightarrow> ('p, 'b) backend_ops \<Rightarrow> ('e \<Rightarrow> 'b \<Rightarrow> 'b) \<Rightarrow> bool
       \<Rightarrow> ('p, 'b) net_server \<Rightarrow> ('p, 'b) net_server \<Rightarrow> bool" where
  "server_or_backend G T B work early s t \<longleftrightarrow> server_run G T B early s t \<or> backend_run work s t"

inductive server_reachable ::
    "('d::linorder, 'p) gregorian \<Rightarrow> json_text \<Rightarrow> ('p, 'b) backend_ops \<Rightarrow> ('e \<Rightarrow> 'b \<Rightarrow> 'b) \<Rightarrow> bool \<Rightarrow> ('p, 'b) net_server \<Rightarrow> bool"
    for G T B work early where
  initial: "server_reachable G T B work early (mk_net_server b)"
| further: "server_reachable G T B work early s \<Longrightarrow> server_or_backend G T B work early s s' \<Longrightarrow> server_reachable G T B work early s'"

section \<open>What the handlers need of a message\<close>

text \<open>A command runs or fails whatever the session and the backend: the backend without a state shows which.\<close>

definition no_backend :: "('p, unit) backend_ops" where
  "no_backend = \<lparr>b_createStream = (\<lambda>_ _ _ _ _. (0, ())), b_removeStream = (\<lambda>_ _. ()), b_queueOperations = (\<lambda>_ _. (0, ()))\<rparr>"

definition command_runs :: "('d::linorder, 'p) gregorian \<Rightarrow> json_text \<Rightarrow> byte list \<Rightarrow> bool" where
  "command_runs G T m \<longleftrightarrow> returns (session_bodyRead G T no_backend m (mk_net_session, ()))"

lemma returns_bindr: "returns (bindr m f) \<longleftrightarrow> (\<exists>a. m = Inr a \<and> returns (f a))"
  by (cases m) simp_all

lemma returns_let_pair: "returns (let (a, b) = p in Inr (f a b))"
  by (simp add: split_beta)

lemma returns_option: "returns (case x of None \<Rightarrow> Inr a | Some k \<Rightarrow> Inr (g k))"
  by (cases x) simp_all

lemma command_returns: "returns (runCommand G B obj w) \<longleftrightarrow> returns (runCommand G B' obj w')"
proof -
  have "returns (runCreateStream B obj w) \<longleftrightarrow> returns (runCreateStream B' obj w')"
    unfolding runCreateStream_def by (simp only: returns_bindr returns_let_pair)
  moreover have "returns (runRemoveStream B obj w) \<longleftrightarrow> returns (runRemoveStream B' obj w')"
    unfolding runRemoveStream_def by (simp only: returns_bindr returns_option)
  moreover have "returns (runScheduleOperations G B obj w) \<longleftrightarrow> returns (runScheduleOperations G B' obj w')"
    unfolding runScheduleOperations_def by (simp only: returns_bindr returns_let_pair)
  ultimately show ?thesis unfolding runCommand_def returns_bindr if_distrib [of returns] by (simp only: returns_Inr)
qed

lemma bodyRead_returns: "returns (session_bodyRead G T B m w) \<longleftrightarrow> command_runs G T m"
  unfolding command_runs_def session_bodyRead_def returns_bindr
  using command_returns [of G B _ w no_backend "(mk_net_session, ())"] by auto

text \<open>Running a command writes nothing to the client.\<close>

lemma createStream_outgoing: "runCreateStream B obj (c, b) = Inr (c', b') \<Longrightarrow> ns_outgoing c' = ns_outgoing c"
  unfolding runCreateStream_def by (auto simp: split_beta Let_def)

lemma removeStream_outgoing: "runRemoveStream B obj (c, b) = Inr (c', b') \<Longrightarrow> ns_outgoing c' = ns_outgoing c"
  unfolding runRemoveStream_def by (auto simp: split_beta Let_def split: option.splits)

lemma scheduleOperations_outgoing: "runScheduleOperations G B obj (c, b) = Inr (c', b') \<Longrightarrow> ns_outgoing c' = ns_outgoing c"
  unfolding runScheduleOperations_def by (auto simp: split_beta Let_def)

lemma bodyRead_outgoing: "session_bodyRead G T B m (c, b) = Inr (c', b') \<Longrightarrow> ns_outgoing c' = ns_outgoing c"
  unfolding session_bodyRead_def runCommand_def
  by (auto split: if_splits dest: createStream_outgoing removeStream_outgoing scheduleOperations_outgoing)

definition numbered_results :: "nat \<Rightarrow> net_session \<Rightarrow> bool" where
  "numbered_results f c \<longleftrightarrow>
     (case find_index (\<lambda>r. fst r = f \<and> \<not> snd (snd r)) (ns_running c) of
        None \<Rightarrow> True | Some k \<Rightarrow> returns (json_int (fst (snd (ns_running c ! k)))))"

text \<open>A message more, or nothing: what a call of \<open>sendMessage\<close> does to a session.\<close>

definition sent_one :: "json_text \<Rightarrow> net_session \<Rightarrow> net_session \<Rightarrow> bool" where
  "sent_one T c c' \<longleftrightarrow> session_active T c' \<and> ns_streams c' = ns_streams c
     \<and> (ns_outgoing c' = ns_outgoing c \<or> (\<exists>m. ns_outgoing c' = ns_outgoing c @ [m]))"

lemma sendMessage_sent:
  "session_active T c \<Longrightarrow> is_message j \<Longrightarrow> \<exists>c'. session_sendMessage T j c = Inr c' \<and> sent_one T c c'"
  by (simp add: sendMessage_ok sent_one_def) (auto simp: session_active_def)

lemma results_message: "is_message (serializeTaskResultsMessage i results)"
  by (simp add: serializeTaskResultsMessage_def)

lemma results_sends:
  assumes "session_active T c"
  shows "(numbered_results f c \<longrightarrow> (\<exists>c'. session_results T f results c = Inr c' \<and> sent_one T c c'))
    \<and> (\<not> numbered_results f c \<longrightarrow> \<not> returns (session_results T f results c))"
proof (cases "find_index (\<lambda>r. fst r = f \<and> \<not> snd (snd r)) (ns_running c)")
  case None
  then show ?thesis using assms by (simp add: session_results_def numbered_results_def sent_one_def)
next
  case (Some k)
  let ?c = "c\<lparr>ns_running := (ns_running c)[k := (f, fst (snd (ns_running c ! k)), True)]\<rparr>"
  have "session_active T ?c" using assms by (simp add: session_active_def)
  then have "\<exists>c'. session_sendMessage T (serializeTaskResultsMessage i results) ?c = Inr c' \<and> sent_one T c c'" for i
    using sendMessage_sent [OF _ results_message, of T ?c i results] by (auto simp: sent_one_def)
  then show ?thesis using Some
    by (cases "json_int (fst (snd (ns_running c ! k)))") (simp_all add: session_results_def numbered_results_def)
qed

lemma change_sends:
  assumes "session_active T c"
  shows "(returns (change_message G i ch) \<longrightarrow> (\<exists>c'. notify (session_observer G T i) ch c = Inr c' \<and> sent_one T c c'))
    \<and> (\<not> returns (change_message G i ch) \<longrightarrow> \<not> returns (notify (session_observer G T i) ch c))"
  using sendMessage_sent [OF assms change_message_is_message]
  by (cases "change_message G i ch") (auto simp: session_notify)

lemma written_one:
  assumes "session_active T c"
  shows "\<exists>c'. session_written T c = Inr c' \<and> session_active T c' \<and> ns_outgoing c' = tl (ns_outgoing c)"
proof -
  let ?c = "c\<lparr>ns_wire := ns_wire c @ (case ns_writing c of None \<Rightarrow> [] | Some b \<Rightarrow> b), ns_writing := None, ns_outgoing := tl (ns_outgoing c)\<rparr>"
  have act: "session_active T ?c" using assms list.set_sel(2) [of "ns_outgoing c"]
    by (cases "ns_outgoing c") (auto simp: session_active_def)
  then have "\<exists>c'. session_doSend T ?c = Inr c' \<and> session_active T c' \<and> ns_outgoing c' = tl (ns_outgoing c)" if "tl (ns_outgoing c) = m # ms" for m ms
    using doSend_ok [OF act, of m ms] that by (auto simp: session_active_def)
  then show ?thesis using act by (cases "tl (ns_outgoing c)") (simp_all add: session_written_def Let_def)
qed

section \<open>Invariant\<close>

lemma post_simps [simp]:
  "nv_acceptor (post h s) = nv_acceptor s" "nv_sessions (post h s) = nv_sessions s" "nv_sockets (post h s) = nv_sockets s"
  "nv_session (post h s) = nv_session s" "nv_backend (post h s) = nv_backend s" "nv_changes (post h s) = nv_changes s"
  "nv_accepting (post h s) = nv_accepting s" "nv_reading (post h s) = nv_reading s" "nv_writing (post h s) = nv_writing s"
  "nv_ready (post h s) = nv_ready s @ [h]" "nv_thread (post h s) = nv_thread s" "nv_stopping (post h s) = nv_stopping s"
  by (simp_all add: post_def)

lemma handler_sessions_simps [simp]:
  "handler_sessions [] = []" "handler_sessions (Accepted i ok # hs) = i # handler_sessions hs"
  "handler_sessions (ReadDone i r m # hs) = i # handler_sessions hs" "handler_sessions (WriteDone i ok # hs) = i # handler_sessions hs"
  "handler_sessions (TaskResults i f rs # hs) = handler_sessions hs" "handler_sessions (ApplyChanges # hs) = handler_sessions hs"
  "handler_sessions (CloseAll # hs) = handler_sessions hs"
  "handler_sessions (xs @ ys) = handler_sessions xs @ handler_sessions ys"
  by (simp_all add: handler_sessions_def)

lemma cancelled_sessions [simp]:
  "handler_sessions (map (\<lambda>(j, r). ReadDone j r None) xs) = map fst xs" "handler_sessions (map (\<lambda>j. WriteDone j False) is) = is"
  by (induction xs; auto)+ (induction "is"; auto)

text \<open>The server closes once.\<close>

definition closings :: "io_handler list \<Rightarrow> nat" where
  "closings hs = length [h \<leftarrow> hs. h = CloseAll]"

lemma closings_simps [simp]:
  "closings [] = 0" "closings (h # hs) = (if h = CloseAll then Suc (closings hs) else closings hs)"
  "closings (xs @ ys) = closings xs + closings ys"
  "closings (map (\<lambda>(j, r). ReadDone j r None) rs) = 0" "closings (map (\<lambda>j. WriteDone j False) is) = 0"
  by (auto simp: closings_def filter_empty_conv)

lemma closings_none: "closings hs = 0 \<longleftrightarrow> CloseAll \<notin> set hs"
  by (auto simp: closings_def filter_empty_conv)

definition server_ok :: "json_text \<Rightarrow> ('p, 'b) net_server \<Rightarrow> bool" where
  "server_ok T s \<longleftrightarrow> (\<forall>i \<in> set (owned s). i < nv_sessions s) \<and> (\<forall>i. nv_sockets s i = Opened \<longrightarrow> i < nv_sessions s)
     \<and> (\<forall>x \<in> set (nv_reading s). nv_sockets s (fst x) = Opened) \<and> (\<forall>i \<in> set (nv_writing s). nv_sockets s i = Opened)
     \<and> closings (nv_ready s) = (if nv_acceptor s \<and> nv_stopping s then 1 else 0)
     \<and> (nv_acceptor s \<or> nv_stopping s) \<and> (nv_acceptor s \<or> nv_accepting s = None) \<and> (\<forall>i. session_active T (nv_session s i))"

lemma server_active: "server_ok T s \<Longrightarrow> session_active T (nv_session s i)"
  by (simp add: server_ok_def)

named_theorems keeps_ok

lemma initial_ok: "text_ok T \<Longrightarrow> server_ok T (mk_net_server b)"
  by (simp add: server_ok_def mk_net_server_def doAccept_def owned_def session_active_def mk_net_session_def)

lemma start_read_ok [keeps_ok]: "server_ok T s \<Longrightarrow> i < nv_sessions s \<Longrightarrow> server_ok T (start_read i r s)"
  by (auto simp: server_ok_def start_read_def owned_def)

lemma start_write_ok [keeps_ok]: "server_ok T s \<Longrightarrow> i < nv_sessions s \<Longrightarrow> server_ok T (start_write i s)"
  by (auto simp: server_ok_def start_write_def owned_def)

lemma session_ok [keeps_ok]:
  "server_ok T s \<Longrightarrow> session_active T c \<Longrightarrow> server_ok T (s\<lparr>nv_session := (nv_session s)(i := c)\<rparr>)"
  "server_ok T s \<Longrightarrow> session_active T c \<Longrightarrow> server_ok T (s\<lparr>nv_session := (nv_session s)(i := c), nv_backend := b\<rparr>)"
  by (simp_all add: server_ok_def owned_def)

lemma new_session_active: "session_active T c \<Longrightarrow> session_active T mk_net_session"
  by (simp add: session_active_def mk_net_session_def)

lemma doAccept_ok [keeps_ok]:
  assumes "server_ok T s"
  shows "server_ok T (doAccept s)"
proof -
  have "set (owned (doAccept s)) \<subseteq> insert (nv_sessions s) (set (owned s))"
    by (auto simp: doAccept_def owned_def Let_def)
  then have "\<forall>i \<in> set (owned (doAccept s)). i < Suc (nv_sessions s)" using assms by (fastforce simp: server_ok_def)
  moreover have "\<forall>i. nv_sockets s i = Opened \<longrightarrow> i < Suc (nv_sessions s)" using assms by (simp add: server_ok_def less_Suc_eq)
  moreover have "session_active T mk_net_session" using new_session_active server_active [OF assms] by blast
  ultimately show ?thesis using assms by (cases "nv_acceptor s") (simp_all add: server_ok_def doAccept_def Let_def)
qed

lemma session_activeI: "session_active T c \<Longrightarrow> ns_outgoing c' = ns_outgoing c \<Longrightarrow> session_active T c'"
  by (simp add: session_active_def)

lemma destroy_ok:
  assumes s: "server_ok T s" and i: "i \<notin> set (owned s)" and t: "destroy_session B known i s = Inr t"
  shows "server_ok T t"
proof -
  let ?c = "(nv_session s i)\<lparr>ns_streams := [], ns_running := []\<rparr>"
  have c: "session_active T ?c" using server_active [OF s] by (rule session_activeI) simp
  obtain b where b: "t = s\<lparr>nv_sockets := (nv_sockets s)(i := Shut), nv_session := (nv_session s)(i := ?c), nv_backend := b\<rparr>"
    using t by (auto simp: destroy_session_def)
  have "\<forall>x \<in> set (nv_reading s). fst x \<noteq> i" "\<forall>j \<in> set (nv_writing s). j \<noteq> i" using i by (auto simp: owned_def)
  moreover have "owned t = owned s" by (simp add: b owned_def)
  ultimately show ?thesis using s c by (simp add: server_ok_def b)
qed

lemma release_ok: "server_ok T s \<Longrightarrow> release B known i s = Inr t \<Longrightarrow> server_ok T t"
  using destroy_ok by (auto simp: release_def split: if_splits)

lemma send_from_ok:
  assumes "server_ok T s" and "i < nv_sessions s" and "\<And>c'. f (nv_session s i) = Inr c' \<Longrightarrow> session_active T c'"
    and "send_from i f s = Inr t"
  shows "server_ok T t"
  using assms by (auto simp: send_from_def Let_def split: if_splits intro!: keeps_ok)

lemma stream_owner_bound: "stream_owner h s = Some (i, k) \<Longrightarrow> i < nv_sessions s"
  by (auto simp: stream_owner_def dest: find_index_SomeD split: option.splits)

lemma send_sessions: "send_from i f s = Inr t \<Longrightarrow> nv_sessions t = nv_sessions s"
  by (auto simp: send_from_def Let_def start_write_def split: if_splits)

lemma sent_active: "session_active T c \<Longrightarrow> notify (session_observer G T i) ch c = Inr c' \<Longrightarrow> session_active T c'"
  "session_active T c \<Longrightarrow> session_results T f rs c = Inr c' \<Longrightarrow> session_active T c'"
  using change_sends [of T c G i ch] results_sends [of T c f rs] by (fastforce simp: sent_one_def)+

lemma changes_ok:
  assumes "server_ok T s" and "on_changes G T s = Inr t"
  shows "server_ok T t"
  using assms(2) unfolding on_changes_def
proof (rule fold_res_invariant)
  show "server_ok T v" if u: "server_ok T u" and v: "deliver_change G T x u = Inr v" for x u v
  proof (cases "stream_owner (fst x) u")
    case None
    then show ?thesis using u v by (simp add: deliver_change_def split_beta)
  next
    case (Some o')
    then have "fst o' < nv_sessions u" using stream_owner_bound [of "fst x" u "fst o'" "snd o'"] by simp
    moreover have "send_from (fst o') (notify (session_observer G T (snd o')) (snd x)) u = Inr v"
      using v Some by (simp add: deliver_change_def split_beta)
    ultimately show ?thesis using sent_active(1) [OF server_active [OF u]] send_from_ok [OF u] by blast
  qed
qed (use assms(1) in \<open>simp add: server_ok_def owned_def\<close>)

lemma close_session_ok:
  assumes "server_ok T s"
  shows "server_ok T (close_session i s)"
  using assms by (auto simp: server_ok_def close_session_def owned_def split: if_splits option.splits)

lemma close_sessions_ok: "server_ok T s \<Longrightarrow> server_ok T (fold close_session is s)"
  by (induction "is" arbitrary: s) (simp_all add: close_session_ok)

text \<open>Taking a handler off, and closing.\<close>

lemma taken_ok:
  assumes "server_ok T s" and "nv_ready s = h # hs" and "h \<noteq> CloseAll"
  shows "server_ok T (s\<lparr>nv_ready := hs\<rparr>)"
proof -
  have "set (owned (s\<lparr>nv_ready := hs\<rparr>)) \<subseteq> set (owned s)" using assms(2) by (cases h) (auto simp: owned_def)
  then show ?thesis using assms by (auto simp: server_ok_def)
qed

lemma taken_session:
  assumes "server_ok T s" and "nv_ready s = h # hs" and "i \<in> set (handler_sessions [h])"
  shows "i < nv_sessions s"
proof -
  have "i \<in> set (owned s)" using assms(2,3) handler_sessions_simps(8) [of "[h]" hs] by (simp add: owned_def)
  then show ?thesis using assms(1) by (simp add: server_ok_def)
qed

lemma on_close_ok:
  assumes "server_ok T s" and "nv_ready s = CloseAll # hs"
  shows "server_ok T (on_close (s\<lparr>nv_ready := hs\<rparr>))"
proof -
  let ?s1 = "s\<lparr>nv_ready := hs, nv_acceptor := False, nv_accepting := None\<rparr>"
  let ?s2 = "case nv_accepting s of None \<Rightarrow> ?s1 | Some i \<Rightarrow> post (Accepted i False) ?s1"
  have "nv_stopping s" "closings hs = 0" using assms by (auto simp: server_ok_def split: if_splits)
  then have "server_ok T ?s2" using assms by (cases "nv_accepting s") (auto simp: server_ok_def owned_def)
  then show ?thesis using close_sessions_ok by (simp add: on_close_def Let_def)
qed

lemma handler_ok:
  assumes s: "server_ok T s" and h: "nv_ready s = h # hs" and run: "run_handler G T B early known h (s\<lparr>nv_ready := hs\<rparr>) = Inr t"
  shows "server_ok T t"
proof (cases h)
  case (Accepted i ok)
  let ?s = "s\<lparr>nv_ready := hs\<rparr>" and ?o = "s\<lparr>nv_ready := hs, nv_sockets := (nv_sockets s)(i := Opened)\<rparr>"
  have i: "i < nv_sessions s" using taken_session [OF s h] Accepted by simp
  have ok': "server_ok T ?s" using taken_ok [OF s h] Accepted by simp
  then have "server_ok T ?o" using i by (auto simp: server_ok_def owned_def)
  then have "server_ok T (doAccept (start_read i WaitHeader ?o))" "server_ok T (doAccept (start_read i WaitHeader ?s))"
    using i by (intro doAccept_ok start_read_ok ok'; simp)+
  then show ?thesis using run Accepted release_ok [OF ok']
    by (auto simp: run_handler_def on_accepted_def Let_def start_session_def split: if_splits)
next
  case (ReadDone i r result)
  let ?s = "s\<lparr>nv_ready := hs\<rparr>"
  have i: "i < nv_sessions ?s" using taken_session [OF s h] ReadDone by simp
  have ok': "server_ok T ?s" using taken_ok [OF s h] ReadDone by simp
  show ?thesis
  proof (cases "result = None \<or> r = WaitHeader")
    case True
    then show ?thesis using run ReadDone ok' i release_ok [OF ok']
      by (cases result) (auto simp: run_handler_def on_readDone_def intro: start_read_ok)
  next
    case False
    then obtain bytes n where r: "result = Some bytes" "r = WaitBody n" by (cases result; cases r) auto
    then obtain c b where c: "session_bodyRead G T B bytes (nv_session s i, nv_backend s) = Inr (c, b)"
        "t = start_read i WaitHeader (?s\<lparr>nv_session := (nv_session s)(i := c), nv_backend := b\<rparr>)"
      using run ReadDone by (auto simp: run_handler_def on_readDone_def)
    have "session_active T c" using session_activeI [OF server_active [OF s] bodyRead_outgoing [OF c(1)]] .
    then show ?thesis using session_ok(2) [OF ok', where c = c and i = i and b = b] i by (auto simp: c(2) intro: start_read_ok)
  qed
next
  case (WriteDone i ok)
  let ?s = "s\<lparr>nv_ready := hs\<rparr>"
  have i: "i < nv_sessions ?s" using taken_session [OF s h] WriteDone by simp
  have ok': "server_ok T ?s" using taken_ok [OF s h] WriteDone by simp
  obtain c where c: "session_written T (nv_session s i) = Inr c" "session_active T c" using written_one [OF server_active [OF s]] by blast
  have "server_ok T (?s\<lparr>nv_session := (nv_session s)(i := c)\<rparr>)" using session_ok(1) [OF ok' c(2), of i] by simp
  then show ?thesis using run WriteDone c(1) release_ok ok' start_write_ok [of T "?s\<lparr>nv_session := (nv_session s)(i := c)\<rparr>" i] i
    by (auto simp: run_handler_def on_writeDone_def Let_def split: if_splits)
next
  case (TaskResults i f rs)
  let ?s = "s\<lparr>nv_ready := hs\<rparr>"
  have ok': "server_ok T ?s" using taken_ok [OF s h] TaskResults by simp
  show ?thesis
  proof (cases "i \<in> set (owned ?s)")
    case True
    then have "i < nv_sessions ?s" using ok' by (auto simp: server_ok_def)
    then show ?thesis using run TaskResults True send_from_ok [OF ok' _ sent_active(2) [OF server_active [OF ok']]]
      by (simp add: run_handler_def on_results_def)
  next
    case False
    then show ?thesis using run TaskResults ok' by (simp add: run_handler_def on_results_def)
  qed
next
  case ApplyChanges
  then show ?thesis using run changes_ok taken_ok [OF s h] by (simp add: run_handler_def)
next
  case CloseAll
  then show ?thesis using run on_close_ok [OF s] h by (simp add: run_handler_def)
qed

lemma read_done_ok:
  assumes "server_ok T s" and "(i, r) \<in> set (nv_reading s)"
  shows "server_ok T (post (ReadDone i r m) (s\<lparr>nv_reading := remove1 (i, r) (nv_reading s)\<rparr>))"
proof -
  have sub: "set (remove1 (i, r) (nv_reading s)) \<subseteq> set (nv_reading s)" by (rule set_remove1_subset)
  moreover have "i \<in> fst ` set (nv_reading s)" using assms(2) by force
  ultimately have "set (owned (post (ReadDone i r m) (s\<lparr>nv_reading := remove1 (i, r) (nv_reading s)\<rparr>))) \<subseteq> set (owned s)"
    by (auto simp: owned_def)
  then show ?thesis using assms(1) sub by (auto simp: server_ok_def)
qed

lemma write_done_ok:
  assumes "server_ok T s" and "i \<in> set (nv_writing s)"
  shows "server_ok T (post (WriteDone i ok) (s\<lparr>nv_writing := remove1 i (nv_writing s)\<rparr>))"
proof -
  have sub: "set (remove1 i (nv_writing s)) \<subseteq> set (nv_writing s)" by (rule set_remove1_subset)
  then have "set (owned (post (WriteDone i ok) (s\<lparr>nv_writing := remove1 i (nv_writing s)\<rparr>))) \<subseteq> set (owned s)"
    using assms(2) by (auto simp: owned_def)
  then show ?thesis using assms(1) sub by (auto simp: server_ok_def)
qed

lemma run_ok: "server_run G T B early s s' \<Longrightarrow> server_ok T s \<Longrightarrow> server_ok T s'"
proof (induction rule: server_run.cases)
  case (connects s i)
  then show ?case by (auto simp: server_ok_def owned_def)
next
  case (dispatch s h hs known s')
  then show ?case using handler_ok by simp
next
  case (refused s i)
  then show ?case by (auto simp: server_ok_def owned_def)
next
  case (start s)
  then show ?case by (simp add: server_ok_def owned_def)
next
  case (crashes s h hs known e)
  then show ?case by (simp add: server_ok_def owned_def)
next
  case (stop s)
  then show ?case by (simp add: server_ok_def owned_def)
next
  case (returns s)
  then show ?case by (simp add: server_ok_def owned_def)
qed (simp_all add: read_done_ok write_done_ok)

lemma backend_ok: "backend_run work s s' \<Longrightarrow> server_ok T s \<Longrightarrow> server_ok T s'"
  by (induction rule: backend_run.cases) (auto simp: server_ok_def owned_def)

lemma reachable_ok: "server_reachable G T B work early s \<Longrightarrow> text_ok T \<Longrightarrow> server_ok T s"
  by (induction rule: server_reachable.induct) (auto simp: initial_ok server_or_backend_def intro: run_ok backend_ok)

section \<open>Closing\<close>

text \<open>After closing, nothing is outstanding that a client would have to end.\<close>

definition closed :: "('p, 'b) net_server \<Rightarrow> bool" where
  "closed s \<longleftrightarrow> \<not> nv_acceptor s \<and> nv_stopping s \<and> nv_thread s \<noteq> NotStarted \<and> nv_accepting s = None \<and> nv_reading s = [] \<and> nv_writing s = []
     \<and> (\<forall>i. nv_sockets s i \<noteq> Opened) \<and> CloseAll \<notin> set (nv_ready s) \<and> (\<forall>i. Accepted i True \<notin> set (nv_ready s))"

text \<open>A bound on what the thread still has to run: the handlers, those that post another one twice, and the sessions that may
  yet start writing.\<close>

definition handler_weight :: "io_handler \<Rightarrow> nat" where
  "handler_weight h = (case h of ReadDone i r m \<Rightarrow> if m = None then 1 else 2 | WriteDone i ok \<Rightarrow> if ok then 2 else 1 | _ \<Rightarrow> 1)"

definition idle :: "net_session \<Rightarrow> nat" where
  "idle c = (if ns_outgoing c = [] then 1 else 0)"

definition load :: "('p, 'b) net_server \<Rightarrow> nat" where
  "load s = sum_list (map handler_weight (nv_ready s)) + (\<Sum>i < nv_sessions s. idle (nv_session s i))"

definition remaining :: "('p, 'b) net_server \<Rightarrow> nat" where
  "remaining s = (if nv_thread s = Running then Suc (load s) else 0)"

definition settled :: "('p, 'b) net_server \<Rightarrow> ('p, 'b) net_server \<Rightarrow> bool" where
  "settled s t \<longleftrightarrow> closed t \<and> nv_thread t = nv_thread s \<and> load t \<le> load s"

lemma sum_update:
  fixes f :: "'a \<Rightarrow> nat" and g :: "nat \<Rightarrow> 'a"
  assumes "i < n"
  shows "(\<Sum>j < n. f ((g(i := c)) j)) + f (g i) = (\<Sum>j < n. f (g j)) + f c"
proof -
  have "(\<Sum>j < n. f ((g(i := c)) j)) = f c + (\<Sum>j \<in> {..<n} - {i}. f (g j))"
    using assms by (subst sum.remove [of _ i]) (auto intro: sum.cong)
  moreover have "(\<Sum>j < n. f (g j)) = f (g i) + (\<Sum>j \<in> {..<n} - {i}. f (g j))" using assms by (subst sum.remove [of _ i]) auto
  ultimately show ?thesis by simp
qed

lemma start_closed:
  assumes "closed s"
  shows "closed (start_read i r s) \<and> nv_thread (start_read i r s) = nv_thread s \<and> load (start_read i r s) = Suc (load s)"
    and "closed (start_write i s) \<and> nv_thread (start_write i s) = nv_thread s \<and> load (start_write i s) = Suc (load s)"
  using assms by (auto simp: closed_def start_read_def start_write_def load_def handler_weight_def)

lemma session_load:
  assumes "i < nv_sessions s"
  shows "load (s\<lparr>nv_session := (nv_session s)(i := c)\<rparr>) + idle (nv_session s i) = load s + idle c"
  using sum_update [OF assms, of idle "nv_session s" c] by (simp add: load_def)

lemma session_closed [simp]:
  "closed (s\<lparr>nv_session := cs\<rparr>) = closed s" "closed (s\<lparr>nv_session := cs, nv_backend := b\<rparr>) = closed s"
  "closed (s\<lparr>nv_changes := ch\<rparr>) = closed s" "load (s\<lparr>nv_changes := ch\<rparr>) = load s" "load (s\<lparr>nv_backend := b\<rparr>) = load s"
  by (simp_all add: closed_def load_def)

lemma idle_same: "ns_outgoing c = ns_outgoing c' \<Longrightarrow> idle c = idle c'"
  by (simp add: idle_def)

lemma release_closed:
  assumes "closed s"
  shows "\<exists>t. release B known i s = Inr t \<and> closed t \<and> nv_thread t = nv_thread s \<and> load t = load s"
proof (cases "i \<in> set (owned s)")
  case False
  have "(\<Sum>j < nv_sessions s. idle (((nv_session s)(i := (nv_session s i)\<lparr>ns_streams := [], ns_running := []\<rparr>)) j))
      = (\<Sum>j < nv_sessions s. idle (nv_session s j))"
    by (rule sum.cong) (auto intro: idle_same)
  then show ?thesis using assms False by (auto simp: release_def destroy_session_def closed_def load_def)
qed (use assms in \<open>simp add: release_def\<close>)

lemma send_closed:
  assumes "closed s" and "i < nv_sessions s" and "f (nv_session s i) = Inr c" and "sent_one T (nv_session s i) c"
  shows "\<exists>t. send_from i f s = Inr t \<and> settled s t"
proof -
  let ?s = "s\<lparr>nv_session := (nv_session s)(i := c)\<rparr>"
  have l: "load ?s + idle (nv_session s i) = load s + idle c" by (rule session_load [OF assms(2)])
  show ?thesis
  proof (cases "ns_outgoing (nv_session s i) = [] \<and> ns_outgoing c \<noteq> []")
    case True
    then have "Suc (load ?s) = load s" using l by (simp add: idle_def)
    then show ?thesis using True assms(1,3) start_closed(2) [of ?s i] by (simp add: send_from_def Let_def settled_def)
  next
    case False
    then have "idle c = idle (nv_session s i)" using assms(4) by (auto simp: sent_one_def idle_def)
    then show ?thesis using False assms(1,3) l by (auto simp: send_from_def Let_def settled_def)
  qed
qed

lemma send_owner:
  assumes "send_from i f s = Inr t" and "\<And>c. f (nv_session s i) = Inr c \<Longrightarrow> ns_streams c = ns_streams (nv_session s i)"
  shows "stream_owner h t = stream_owner h s"
proof -
  obtain c where c: "f (nv_session s i) = Inr c" using assms(1) by (auto simp: send_from_def)
  have "ns_streams (nv_session t j) = ns_streams (nv_session s j)" for j
    using assms(1) assms(2) [OF c] c by (auto simp: send_from_def Let_def start_write_def split: if_splits)
  then show ?thesis using send_sessions [OF assms(1)] by (simp add: stream_owner_def split: option.split)
qed

lemma stream_owner_simps [simp]:
  "stream_owner h (s\<lparr>nv_ready := hs\<rparr>) = stream_owner h s" "stream_owner h (s\<lparr>nv_changes := cs\<rparr>) = stream_owner h s"
  by (simp_all add: stream_owner_def split: option.split)

text \<open>The handlers that fail: a command that cannot be read, results for an id that is no number, a change that cannot be
  written.\<close>

definition change_unwritable :: "('d::linorder, 'p) gregorian \<Rightarrow> ('p, 'b) net_server \<Rightarrow> nat \<times> 'p change \<Rightarrow> bool" where
  "change_unwritable G s = (\<lambda>(h, c). case stream_owner h s of None \<Rightarrow> False | Some (i, k) \<Rightarrow> \<not> returns (change_message G k c))"

definition handler_rejects :: "('d::linorder, 'p) gregorian \<Rightarrow> json_text \<Rightarrow> io_handler \<Rightarrow> ('p, 'b) net_server \<Rightarrow> bool" where
  "handler_rejects G T h s =
     (case h of
        ReadDone i (WaitBody n) (Some bytes) \<Rightarrow> \<not> command_runs G T bytes
      | TaskResults i f results \<Rightarrow> i \<in> set (owned s) \<and> \<not> numbered_results f (nv_session s i)
      | ApplyChanges \<Rightarrow> list_ex (change_unwritable G s) (nv_changes s)
      | _ \<Rightarrow> False)"

lemma change_delivered:
  assumes s: "server_ok T s" "closed s" and c: "\<not> change_unwritable G s x"
  shows "\<exists>t. deliver_change G T x s = Inr t \<and> settled s t \<and> server_ok T t \<and> (\<forall>h. stream_owner h t = stream_owner h s)"
proof (cases "stream_owner (fst x) s")
  case None
  then show ?thesis using s by (simp add: deliver_change_def split_beta settled_def)
next
  case (Some o')
  obtain i k where o': "o' = (i, k)" by (cases o')
  have i: "i < nv_sessions s" using stream_owner_bound Some o' by blast
  obtain d where d: "notify (session_observer G T k) (snd x) (nv_session s i) = Inr d" "sent_one T (nv_session s i) d"
    using change_sends [OF server_active [OF s(1)], of G k "snd x" i] c Some o' by (auto simp: change_unwritable_def split_beta)
  obtain t where t: "send_from i (notify (session_observer G T k) (snd x)) s = Inr t" "settled s t"
    using send_closed [where f = "notify (session_observer G T k) (snd x)", OF s(2) i d] by blast
  have "server_ok T t" using sent_active(1) [OF server_active [OF s(1)]] by (intro send_from_ok [OF s(1) i _ t(1)])
  moreover have "\<forall>h. stream_owner h t = stream_owner h s" using send_owner [OF t(1)] d by (auto simp: sent_one_def)
  ultimately show ?thesis using t Some o' by (simp add: deliver_change_def split_beta)
qed

lemma change_fails:
  assumes "server_ok T s" and "change_unwritable G s x"
  shows "\<not> returns (deliver_change G T x s)"
proof -
  obtain i k where o': "stream_owner (fst x) s = Some (i, k)" "\<not> returns (change_message G k (snd x))"
    using assms(2) by (auto simp: change_unwritable_def split_beta split: option.splits)
  then have "\<not> returns (notify (session_observer G T k) (snd x) (nv_session s i))"
    using change_sends [OF server_active [OF assms(1)], of G k "snd x" i] by blast
  then show ?thesis using o'(1) by (auto simp: deliver_change_def split_beta send_from_def returns_bindr returns_iff)
qed

lemma changes_delivered:
  "server_ok T s \<Longrightarrow> closed s \<Longrightarrow>
     (if list_ex (change_unwritable G s) cs then \<not> returns (fold_res (deliver_change G T) cs s)
      else \<exists>t. fold_res (deliver_change G T) cs s = Inr t \<and> settled s t)"
proof (induction cs arbitrary: s)
  case (Cons x cs)
  show ?case
  proof (cases "change_unwritable G s x")
    case True
    then show ?thesis using change_fails [OF Cons.prems(1) True] by (auto simp: returns_bindr returns_iff)
  next
    case False
    obtain t where t: "deliver_change G T x s = Inr t" "settled s t" "server_ok T t" "\<forall>h. stream_owner h t = stream_owner h s"
      using change_delivered [OF Cons.prems False] by blast
    then have same: "change_unwritable G t = change_unwritable G s" by (auto simp: change_unwritable_def fun_eq_iff)
    have "closed t" using t(2) by (simp add: settled_def)
    then show ?thesis using Cons.IH [OF t(3)] t(1,2) False unfolding same by (auto simp: settled_def)
  qed
qed (simp add: settled_def)

lemma rejected_fails:
  assumes s: "server_ok T s" and c: "closed s" and h: "nv_ready s = h # hs" "h \<noteq> CloseAll" and no: "handler_rejects G T h s"
  shows "\<not> returns (run_handler G T B early known h (s\<lparr>nv_ready := hs\<rparr>))"
proof (cases h)
  case (ReadDone i r m)
  then obtain n bytes where m: "r = WaitBody n" "m = Some bytes" "\<not> command_runs G T bytes"
    using no by (auto simp: handler_rejects_def split: reader.splits option.splits)
  then have "\<not> returns (session_bodyRead G T B bytes (nv_session s i, nv_backend s))" by (simp add: bodyRead_returns)
  then show ?thesis using ReadDone m by (auto simp: run_handler_def on_readDone_def returns_bindr returns_iff)
next
  case (TaskResults i f results)
  have "i \<in> set (owned (s\<lparr>nv_ready := hs\<rparr>))" "\<not> returns (session_results T f results (nv_session s i))"
    using no TaskResults h(1) results_sends [OF server_active [OF s], of f i results] by (auto simp: handler_rejects_def owned_def)
  then show ?thesis using TaskResults by (auto simp: run_handler_def on_results_def send_from_def returns_bindr returns_iff)
next
  case ApplyChanges
  let ?s = "s\<lparr>nv_ready := hs, nv_changes := []\<rparr>"
  have "server_ok T ?s" using taken_ok [OF s h] by (simp add: server_ok_def owned_def)
  moreover have "list_ex (change_unwritable G ?s) (nv_changes s)"
    using no ApplyChanges by (simp add: handler_rejects_def change_unwritable_def)
  moreover have "closed ?s" using c h(1) by (auto simp: closed_def)
  ultimately show ?thesis using changes_delivered [of T ?s G "nv_changes s"] ApplyChanges
    by (simp add: run_handler_def on_changes_def)
qed (use no h(2) in \<open>simp_all add: handler_rejects_def\<close>)

lemma closed_handler:
  assumes ok: "server_ok T s" and c: "closed s" and r: "nv_thread s = Running" "nv_ready s = h # hs"
  shows "if handler_rejects G T h s then \<not> returns (run_handler G T B early known h (s\<lparr>nv_ready := hs\<rparr>))
    else \<exists>t. run_handler G T B early known h (s\<lparr>nv_ready := hs\<rparr>) = Inr t \<and> closed t \<and> nv_thread t = Running \<and> load t < load s"
proof (cases "handler_rejects G T h s")
  case True
  have h: "h \<noteq> CloseAll" using c r by (auto simp: closed_def)
  show ?thesis using True rejected_fails [OF ok c r(2) h True] by simp
next
  case False
  let ?s = "s\<lparr>nv_ready := hs\<rparr>"
  have h: "h \<noteq> CloseAll" "\<And>i. h \<noteq> Accepted i True" using c r by (auto simp: closed_def)
  have s: "closed ?s" "load s = handler_weight h + load ?s" using c r by (auto simp: closed_def load_def)
  have ok': "server_ok T ?s" using taken_ok [OF ok r(2) h(1)] .
  have "\<exists>t. run_handler G T B early known h ?s = Inr t \<and> closed t \<and> nv_thread t = nv_thread s \<and> load t < load s"
  proof (cases h)
    case (Accepted i ok)
    then have "\<not> ok" using h(2) by blast
    then show ?thesis using release_closed [OF s(1), of B known i] s(2) Accepted
      by (auto simp: run_handler_def on_accepted_def handler_weight_def)
  next
    case (ReadDone i r' m)
    show ?thesis
    proof (cases m)
      case None
      then show ?thesis using release_closed [OF s(1), of B known i] s(2) ReadDone
        by (auto simp: run_handler_def on_readDone_def handler_weight_def)
    next
      case (Some bytes)
      have w: "handler_weight h = 2" using ReadDone Some by (simp add: handler_weight_def)
      show ?thesis
      proof (cases r')
        case WaitHeader
        then show ?thesis using ReadDone Some s w start_closed(1) [OF s(1)] by (simp add: run_handler_def on_readDone_def)
      next
        case (WaitBody n)
        have "returns (session_bodyRead G T B bytes (nv_session s i, nv_backend s))"
          using False ReadDone Some WaitBody by (simp add: handler_rejects_def bodyRead_returns)
        then obtain d b where d: "session_bodyRead G T B bytes (nv_session s i, nv_backend s) = Inr (d, b)" by (auto simp: returns_iff)
        let ?t = "?s\<lparr>nv_session := (nv_session s)(i := d), nv_backend := b\<rparr>"
        have "(\<Sum>j < nv_sessions s. idle (((nv_session s)(i := d)) j)) = (\<Sum>j < nv_sessions s. idle (nv_session s j))"
          using bodyRead_outgoing [OF d] by (intro sum.cong) (auto intro: idle_same)
        then have "load ?t = load ?s" by (simp add: load_def)
        then show ?thesis using ReadDone Some WaitBody d s w start_closed(1) [of ?t i WaitHeader]
          by (simp add: run_handler_def on_readDone_def)
      qed
    qed
  next
    case (WriteDone i ok)
    have i: "i < nv_sessions ?s" using taken_session [OF assms(1) r(2)] WriteDone by simp
    show ?thesis
    proof (cases ok)
      case True
      obtain d where d: "session_written T (nv_session s i) = Inr d" "ns_outgoing d = tl (ns_outgoing (nv_session s i))"
        using written_one [OF server_active [OF assms(1)]] by blast
      let ?t = "?s\<lparr>nv_session := (nv_session s)(i := d)\<rparr>"
      have l: "load ?t + idle (nv_session s i) = load ?s + idle d" using session_load [OF i, of d] by simp
      define u where "u = (if ns_outgoing d \<noteq> [] then start_write i ?t else ?t)"
      have u: "closed u" "nv_thread u = nv_thread s" "load u < load s"
        using start_closed(2) [of ?t i] s l d(2) True WriteDone by (auto simp: u_def idle_def handler_weight_def split: if_splits)
      have "run_handler G T B early known h ?s = release B known i u"
        using WriteDone True d(1) by (simp add: run_handler_def on_writeDone_def Let_def u_def)
      then show ?thesis using release_closed [OF u(1), of B known i] u(2,3) by auto
    next
      case False
      then show ?thesis using release_closed [OF s(1), of B known i] s(2) WriteDone
        by (auto simp: run_handler_def on_writeDone_def handler_weight_def)
    qed
  next
    case (TaskResults i f results)
    show ?thesis
    proof (cases "i \<in> set (owned ?s)")
      case True
      then have i: "i < nv_sessions ?s" using ok' by (auto simp: server_ok_def)
      obtain d where d: "session_results T f results (nv_session ?s i) = Inr d" "sent_one T (nv_session ?s i) d"
        using results_sends [OF server_active [OF ok'], of f i results] False TaskResults True r(2)
        by (auto simp: handler_rejects_def owned_def)
      then show ?thesis using send_closed [where f = "session_results T f results", OF s(1) i d] s(2) TaskResults True
        by (auto simp: run_handler_def on_results_def settled_def handler_weight_def)
    next
      case False
      then show ?thesis using TaskResults s by (simp add: run_handler_def on_results_def handler_weight_def)
    qed
  next
    case ApplyChanges
    have "change_unwritable G (?s\<lparr>nv_changes := []\<rparr>) = change_unwritable G s"
      by (simp add: change_unwritable_def)
    then have "\<not> list_ex (change_unwritable G (?s\<lparr>nv_changes := []\<rparr>)) (nv_changes s)"
      using False ApplyChanges by (simp add: handler_rejects_def)
    moreover have "server_ok T (?s\<lparr>nv_changes := []\<rparr>)" using ok' by (simp add: server_ok_def owned_def)
    ultimately show ?thesis using changes_delivered [of T "?s\<lparr>nv_changes := []\<rparr>" G "nv_changes s"] s ApplyChanges
      by (auto simp: run_handler_def on_changes_def settled_def handler_weight_def)
  qed (use h(1) in simp)
  then show ?thesis using r(1) False by auto
qed

lemma closed_step:
  "server_run G T B early s s' \<Longrightarrow> server_ok T s \<Longrightarrow> closed s \<Longrightarrow> closed s' \<and> remaining s' < remaining s
     \<and> (nv_thread s' = Terminated \<longleftrightarrow> (\<exists>h hs. nv_ready s = h # hs \<and> handler_rejects G T h s))"
proof (induction rule: server_run.cases)
  case (dispatch s h hs known s')
  then show ?case using closed_handler [of T s h hs G B early known] by (auto simp: remaining_def split: if_splits)
next
  case (crashes s h hs known e)
  then show ?case using closed_handler [of T s h hs G B early known] by (auto simp: remaining_def closed_def split: if_splits)
qed (auto simp: closed_def remaining_def)

lemma closed_backend: "backend_run work s s' \<Longrightarrow> closed s \<Longrightarrow> closed s' \<and> remaining s' \<le> Suc (remaining s)"
  by (induction rule: backend_run.cases) (auto simp: closed_def remaining_def load_def handler_weight_def)

lemma closed_progress:
  assumes "closed s" and "nv_thread s = Running"
  shows "\<exists>t. server_run G T B early s t"
proof (cases "nv_ready s")
  case Nil
  show ?thesis by (intro exI, rule server_run.returns [OF assms(2) Nil]) (use assms(1) in \<open>simp_all add: closed_def\<close>)
next
  case (Cons h hs)
  then show ?thesis
    using server_run.dispatch [OF assms(2) Cons] server_run.crashes [OF assms(2) Cons]
    by (cases "run_handler G T B early True h (s\<lparr>nv_ready := hs\<rparr>)") blast+
qed

lemma closed_runs:
  "(server_or_backend G T B work early)\<^sup>*\<^sup>* s t \<Longrightarrow> server_ok T s \<Longrightarrow> closed s \<Longrightarrow> server_ok T t \<and> closed t"
proof (induction rule: rtranclp_induct)
  case (step t u)
  then show ?case using run_ok backend_ok closed_step closed_backend unfolding server_or_backend_def by blast
qed simp

text \<open>Closing the sessions shuts their sockets and cancels what was outstanding on them.\<close>

lemma close_sessions_effect:
  "(\<forall>i. nv_sockets (fold close_session is s) i = (if i \<in> set is \<and> nv_sockets s i = Opened then Shut else nv_sockets s i))
    \<and> nv_acceptor (fold close_session is s) = nv_acceptor s \<and> nv_accepting (fold close_session is s) = nv_accepting s
    \<and> nv_thread (fold close_session is s) = nv_thread s \<and> nv_stopping (fold close_session is s) = nv_stopping s
    \<and> nv_sessions (fold close_session is s) = nv_sessions s
    \<and> (\<forall>h \<in> set (nv_ready (fold close_session is s)). h \<in> set (nv_ready s) \<or> (\<exists>i r. h = ReadDone i r None) \<or> (\<exists>i. h = WriteDone i False))"
proof (induction "is" arbitrary: s)
  case (Cons k ks)
  have "\<forall>h \<in> set (nv_ready (close_session k s)). h \<in> set (nv_ready s) \<or> (\<exists>i r. h = ReadDone i r None) \<or> (\<exists>i. h = WriteDone i False)"
    by (auto simp: close_session_def)
  moreover have "nv_sockets (close_session k s) i = (if i = k \<and> nv_sockets s i = Opened then Shut else nv_sockets s i)" for i
    by (auto simp: close_session_def)
  moreover have "nv_acceptor (close_session k s) = nv_acceptor s" "nv_accepting (close_session k s) = nv_accepting s"
    "nv_thread (close_session k s) = nv_thread s" "nv_stopping (close_session k s) = nv_stopping s"
    "nv_sessions (close_session k s) = nv_sessions s"
    by (simp_all add: close_session_def)
  ultimately show ?case using Cons.IH [of "close_session k s"] by fastforce
qed simp

lemma close_closes:
  assumes s: "server_ok T s" and r: "nv_thread s = Running" "nv_ready s = CloseAll # hs" and late: "\<forall>i. Accepted i True \<notin> set hs"
  shows "closed (on_close (s\<lparr>nv_ready := hs\<rparr>))"
proof -
  let ?s1 = "s\<lparr>nv_ready := hs, nv_acceptor := False, nv_accepting := None\<rparr>"
  let ?s2 = "case nv_accepting s of None \<Rightarrow> ?s1 | Some i \<Rightarrow> post (Accepted i False) ?s1"
  have t: "on_close (s\<lparr>nv_ready := hs\<rparr>) = fold close_session [0..<nv_sessions s] ?s2" by (simp add: on_close_def Let_def)
  have "CloseAll \<notin> set hs" "nv_stopping s" using s r closings_none [of hs] by (auto simp: server_ok_def split: if_splits)
  then have ready: "CloseAll \<notin> set (nv_ready ?s2)" "\<forall>i. Accepted i True \<notin> set (nv_ready ?s2)" "nv_stopping ?s2"
    using late by (auto split: option.splits)
  have same: "nv_sockets ?s2 = nv_sockets s" "\<not> nv_acceptor ?s2" "nv_accepting ?s2 = None" "nv_thread ?s2 = Running"
    using r(1) by (simp_all split: option.split)
  note effect = close_sessions_effect [of "[0..<nv_sessions s]" ?s2]
  have shut: "\<forall>i. nv_sockets (on_close (s\<lparr>nv_ready := hs\<rparr>)) i \<noteq> Opened"
    using effect same(1) s unfolding t by (auto simp: server_ok_def split: if_splits)
  moreover have "server_ok T (on_close (s\<lparr>nv_ready := hs\<rparr>))" by (rule on_close_ok [OF s r(2)])
  ultimately have "\<forall>x \<in> set (nv_reading (on_close (s\<lparr>nv_ready := hs\<rparr>))). False" "\<forall>i \<in> set (nv_writing (on_close (s\<lparr>nv_ready := hs\<rparr>))). False"
    unfolding server_ok_def by blast+
  then have "nv_reading (on_close (s\<lparr>nv_ready := hs\<rparr>)) = []" "nv_writing (on_close (s\<lparr>nv_ready := hs\<rparr>)) = []"
    by (metis list.set_intros(1) neq_Nil_conv)+
  moreover have "CloseAll \<notin> set (nv_ready (on_close (s\<lparr>nv_ready := hs\<rparr>)))" "\<forall>i. Accepted i True \<notin> set (nv_ready (on_close (s\<lparr>nv_ready := hs\<rparr>)))"
    using effect ready(1,2) unfolding t by blast+
  ultimately show ?thesis using effect ready(3) same(2-4) shut unfolding closed_def t by simp
qed

section \<open>What can go wrong\<close>

text \<open>A connection that arrives when \<open>stopAndJoin\<close> has posted its closing is accepted after it.  Where the
  socket is opened only then, the session outlives the closing, and \<open>stopAndJoin\<close> waits for the client; where it was open already,
  it has been closed, and asking it for its peer terminates the program.  So does a client that is gone
  when its connection is accepted, and a client that sends a message that is no command.  And an accept that fails is not
  repeated: an idle server stops serving.\<close>

definition running_server :: "'b \<Rightarrow> ('p, 'b) net_server" where
  "running_server b = mk_net_server b\<lparr>nv_thread := Running\<rparr>"

lemma reachable_run:
  assumes "server_reachable G T B work early s" and "server_run G T B early s s'"
  shows "server_reachable G T B work early s'"
proof -
  have "server_or_backend G T B work early s s'" using assms(2) by (simp add: server_or_backend_def)
  then show ?thesis by (rule server_reachable.further [OF assms(1)])
qed

lemma running_server_reachable: "server_reachable G T B work early (running_server b)"
  unfolding running_server_def
  by (rule reachable_run [OF server_reachable.initial server_run.start]) (simp add: mk_net_server_def doAccept_def)

lemma running_server_simps [simp]:
  "nv_thread (running_server b) = Running" "nv_ready (running_server b) = []" "nv_accepting (running_server b) = Some 0"
  "nv_reading (running_server b) = []" "nv_writing (running_server b) = []" "nv_sessions (running_server b) = 1"
  "nv_sockets (running_server b) = (\<lambda>_. Unopened)" "nv_acceptor (running_server b)" "\<not> nv_stopping (running_server b)"
  by (simp_all add: running_server_def mk_net_server_def doAccept_def)

definition stopping_server :: "'b \<Rightarrow> ('p, 'b) net_server" where
  "stopping_server b = post CloseAll (running_server b\<lparr>nv_stopping := True\<rparr>)"

lemma stopping_server_reachable: "server_reachable G T B work early (stopping_server b)"
  unfolding stopping_server_def by (rule reachable_run [OF running_server_reachable server_run.stop]) simp_all

text \<open>A server that is closing when a client connects, and that server closed.\<close>

definition contended :: "bool \<Rightarrow> 'b \<Rightarrow> ('p, 'b) net_server" where
  "contended early b = (let s = stopping_server b in post (Accepted 0 True)
     (s\<lparr>nv_accepting := None, nv_sockets := (if early then (nv_sockets s)(0 := Opened) else nv_sockets s)\<rparr>))"

definition contended_closed :: "bool \<Rightarrow> 'b \<Rightarrow> ('p, 'b) net_server" where
  "contended_closed early b = on_close (contended early b\<lparr>nv_ready := [Accepted 0 True]\<rparr>)"

lemma contended_closed_reachable: "server_reachable G T B work early (contended_closed early b)"
proof -
  have "server_reachable G T B work early (contended early b)"
    unfolding contended_def Let_def by (rule reachable_run [OF stopping_server_reachable server_run.connects]) (simp add: stopping_server_def)
  then show ?thesis
    by (rule reachable_run, intro server_run.dispatch [where h = CloseAll])
      (simp_all add: contended_def Let_def stopping_server_def run_handler_def contended_closed_def)
qed

lemma contended_closed_simps [simp]:
  "nv_thread (contended_closed early b) = Running" "nv_ready (contended_closed early b) = [Accepted 0 True]"
  "\<not> nv_acceptor (contended_closed early b)" "nv_accepting (contended_closed early b) = None" "nv_reading (contended_closed early b) = []"
  "nv_writing (contended_closed early b) = []" "nv_sessions (contended_closed early b) = 1"
  "nv_sockets (contended_closed early b) = (if early then (\<lambda>_. Unopened)(0 := Shut) else (\<lambda>_. Unopened))"
  by (simp_all add: contended_closed_def contended_def Let_def stopping_server_def on_close_def close_session_def)

lemma late_session_outlives_closing:
  "\<exists>s. server_reachable G T B work False s \<and> nv_thread s = Running \<and> \<not> nv_acceptor s \<and> nv_ready s = [] \<and> nv_reading s = [(0, WaitHeader)]"
proof -
  let ?s = "contended_closed False undefined"
  let ?t = "doAccept (start_session 0 (?s\<lparr>nv_ready := [], nv_sockets := (\<lambda>_. Unopened)(0 := Opened)\<rparr>))"
  have "server_run G T B False ?s ?t"
    by (rule server_run.dispatch [where h = "Accepted 0 True" and known = True])
      (simp_all add: run_handler_def on_accepted_def remote_endpoint_def start_session_def start_read_def)
  then have t: "server_reachable G T B work False ?t" by (rule reachable_run [OF contended_closed_reachable])
  have f: "nv_thread ?t = Running" "nv_ready ?t = [Accepted 1 False]" "\<not> nv_acceptor ?t" "nv_reading ?t = [(0, WaitHeader)]"
    by (simp_all add: doAccept_def start_session_def start_read_def)
  obtain u where u: "release B True 1 (?t\<lparr>nv_ready := []\<rparr>) = Inr u" "nv_thread u = Running" "nv_ready u = []" "\<not> nv_acceptor u"
      "nv_reading u = [(0, WaitHeader)]"
    by (simp add: release_def destroy_session_def owned_def doAccept_def start_session_def start_read_def)
  have "server_run G T B False ?t u"
    by (rule server_run.dispatch [OF f(1,2)]) (use u(1) in \<open>simp add: run_handler_def on_accepted_def\<close>)
  then show ?thesis using reachable_run [OF t] u by blast
qed

lemma early_session_crashes_closing: "\<exists>s. server_reachable G T B work True s \<and> nv_thread s = Terminated"
proof -
  have "server_run G T B True (contended_closed True b) (contended_closed True b\<lparr>nv_thread := Terminated\<rparr>)" for b
    by (rule server_run.crashes [where h = "Accepted 0 True"])
      (simp_all add: run_handler_def on_accepted_def remote_endpoint_def start_session_def start_read_def)
  then have "server_reachable G T B work True (contended_closed True b\<lparr>nv_thread := Terminated\<rparr>)" for b
    by (rule reachable_run [OF contended_closed_reachable])
  then show ?thesis by (intro exI [of _ "contended_closed True b\<lparr>nv_thread := Terminated\<rparr>" for b]) simp
qed

text \<open>A server that a client has connected to.\<close>

definition connected_server :: "bool \<Rightarrow> 'b \<Rightarrow> ('p, 'b) net_server" where
  "connected_server early b = (let s = running_server b in post (Accepted 0 True)
     (s\<lparr>nv_accepting := None, nv_sockets := (if early then (nv_sockets s)(0 := Opened) else nv_sockets s)\<rparr>))"

lemma connected_server_reachable: "server_reachable G T B work early (connected_server early b)"
  unfolding connected_server_def Let_def by (rule reachable_run [OF running_server_reachable server_run.connects]) simp

lemma reset_connection_terminates: "\<exists>s. server_reachable G T B work early s \<and> nv_thread s = Terminated \<and> \<not> nv_stopping s"
proof -
  have "server_run G T B early (connected_server early b) (connected_server early b\<lparr>nv_thread := Terminated\<rparr>)" for b
    by (rule server_run.crashes [where h = "Accepted 0 True" and known = False])
      (simp_all add: connected_server_def Let_def run_handler_def on_accepted_def remote_endpoint_def)
  then have "server_reachable G T B work early (connected_server early b\<lparr>nv_thread := Terminated\<rparr>)" for b
    by (rule reachable_run [OF connected_server_reachable])
  then show ?thesis by (intro exI [of _ "connected_server early b\<lparr>nv_thread := Terminated\<rparr>" for b]) (simp add: connected_server_def Let_def)
qed

lemma failed_accept_ends_service: "\<exists>s. server_reachable G T B work early s \<and> nv_thread s = Joined \<and> \<not> nv_stopping s"
proof -
  let ?s = "post (Accepted 0 False) (running_server undefined\<lparr>nv_accepting := None\<rparr>)"
  have s: "server_reachable G T B work early ?s" by (rule reachable_run [OF running_server_reachable server_run.refused]) simp
  obtain t where t: "release B True 0 (?s\<lparr>nv_ready := []\<rparr>) = Inr t" "nv_thread t = Running" "nv_ready t = []" "nv_accepting t = None"
      "nv_reading t = []" "nv_writing t = []" "\<not> nv_stopping t"
    by (simp add: release_def destroy_session_def owned_def)
  have "server_run G T B early ?s t"
    by (rule server_run.dispatch [where h = "Accepted 0 False" and known = True]) (use t(1) in \<open>simp_all add: run_handler_def on_accepted_def\<close>)
  then have "server_reachable G T B work early t" by (rule reachable_run [OF s])
  then have "server_reachable G T B work early (t\<lparr>nv_thread := Joined\<rparr>)"
    by (rule reachable_run [OF _ server_run.returns]) (use t in simp_all)
  then show ?thesis using t(7) by (intro exI [of _ "t\<lparr>nv_thread := Joined\<rparr>"]) simp
qed

lemma malformed_command_terminates:
  fixes B :: "('p, 'b) backend_ops"
  assumes "\<not> command_runs G T m" and "fits m"
  shows "\<exists>s. server_reachable G T B work early s \<and> nv_thread s = Terminated \<and> \<not> nv_stopping s"
proof -
  let ?s = "connected_server early undefined :: ('p, 'b) net_server"
  let ?o = "?s\<lparr>nv_ready := [], nv_sockets := (\<lambda>_. Unopened)(0 := Opened)\<rparr>"
  let ?t = "doAccept (start_session 0 ?o)"
  define v w where "v = ?s\<lparr>nv_ready := []\<rparr>" and "w = ?o"
  have "remote_endpoint True 0 (start_session 0 w) = Inr ()" by (simp add: remote_endpoint_def start_session_def start_read_def w_def)
  moreover have "early \<Longrightarrow> v = w" and "v\<lparr>nv_sockets := (nv_sockets v)(0 := Opened)\<rparr> = w"
    by (simp_all add: v_def w_def connected_server_def Let_def post_def)
  ultimately have "run_handler G T B early True (Accepted 0 True) v = Inr (doAccept (start_session 0 w))"
    by (simp add: run_handler_def on_accepted_def Let_def)
  then have "run_handler G T B early True (Accepted 0 True) (?s\<lparr>nv_ready := []\<rparr>) = Inr ?t" by (simp only: v_def w_def)
  then have "server_run G T B early ?s ?t"
    by (intro server_run.dispatch [where h = "Accepted 0 True" and known = True]) (simp_all add: connected_server_def Let_def)
  then have t: "server_reachable G T B work early ?t" by (rule reachable_run [OF connected_server_reachable])
  have f: "nv_thread ?t = Running" "nv_ready ?t = []" "nv_reading ?t = [(0, WaitHeader)]" "\<not> nv_stopping ?t" "nv_sockets ?t 0 = Opened"
    by (simp_all add: doAccept_def start_session_def start_read_def connected_server_def Let_def)
  let ?h = "header (word_of_nat (length m))"
  let ?u = "post (ReadDone 0 WaitHeader (Some ?h)) (?t\<lparr>nv_reading := remove1 (0, WaitHeader) (nv_reading ?t)\<rparr>)"
  have u: "server_reachable G T B work early ?u" by (rule reachable_run [OF t server_run.reads]) (simp_all add: f(3))
  let ?v = "start_read 0 (WaitBody (length m)) (?u\<lparr>nv_ready := []\<rparr>)"
  have "server_run G T B early ?u ?v"
    by (rule server_run.dispatch [where h = "ReadDone 0 WaitHeader (Some ?h)" and known = True])
      (use f(1,2) assms(2) in \<open>simp_all add: run_handler_def on_readDone_def unat_header\<close>)
  then have v: "server_reachable G T B work early ?v" by (rule reachable_run [OF u])
  have g: "nv_reading ?v = [(0, WaitBody (length m))]" "nv_thread ?v = Running" "nv_ready ?v = []" "\<not> nv_stopping ?v"
    using f by (simp_all add: start_read_def)
  let ?x = "post (ReadDone 0 (WaitBody (length m)) (Some m)) (?v\<lparr>nv_reading := remove1 (0, WaitBody (length m)) (nv_reading ?v)\<rparr>)"
  have x: "server_reachable G T B work early ?x" by (rule reachable_run [OF v server_run.reads]) (simp_all add: g(1))
  have "\<not> returns (session_bodyRead G T B m (nv_session ?v 0, nv_backend ?v))" using assms(1) by (simp add: bodyRead_returns)
  then obtain e where "session_bodyRead G T B m (nv_session ?v 0, nv_backend ?v) = Inl e"
    by (cases "session_bodyRead G T B m (nv_session ?v 0, nv_backend ?v)") auto
  then have "server_run G T B early ?x (?x\<lparr>nv_thread := Terminated\<rparr>)"
    by (intro server_run.crashes [where h = "ReadDone 0 (WaitBody (length m)) (Some m)" and known = True and e = e])
      (use g in \<open>simp_all add: run_handler_def on_readDone_def\<close>)
  then have "server_reachable G T B work early (?x\<lparr>nv_thread := Terminated\<rparr>)" by (rule reachable_run [OF x])
  then show ?thesis using g(4) by (intro exI [of _ "?x\<lparr>nv_thread := Terminated\<rparr>"]) simp
qed

section \<open>Property\<close>

text \<open>C37 \<open>stopAndJoin\<close> returns, unless what was already on its way to the server terminates it.  Take any run of clients that
  connect, send and leave, of tasks and changes of the backend, at the moment the thread runs the closing posted by
  \<open>stopAndJoin\<close>, with no accepted connection waiting for its handler.  From then on, whatever clients and the backend do, no socket
  of a session is open, and the thread always has a next step until it has ended.  Each step of the thread or a client lowers the
  number of remaining steps; only what the backend's own thread still posts, results and changes, raises it, by one each time.  A step ends the thread by an
  exception exactly when the next handler holds a message read before the closing that is no well-formed command, results for a command
  whose id was no number, or a change that cannot be written as JSON.\<close>

theorem shutdown_finishes:
  assumes "text_ok T" and "server_reachable G T B work early s" and "nv_thread s = Running" and "nv_ready s = CloseAll # hs"
    and "\<forall>i. Accepted i True \<notin> set hs" and "(server_or_backend G T B work early)\<^sup>*\<^sup>* (on_close (s\<lparr>nv_ready := hs\<rparr>)) t"
  shows "(\<forall>i. nv_sockets t i \<noteq> Opened) \<and> nv_thread t \<noteq> NotStarted
    \<and> (nv_thread t = Running \<longrightarrow> (\<exists>u. server_run G T B early t u))
    \<and> (\<forall>u. server_run G T B early t u \<longrightarrow> remaining u < remaining t
         \<and> (nv_thread u = Terminated \<longleftrightarrow> (\<exists>h hs. nv_ready t = h # hs \<and> handler_rejects G T h t)))
    \<and> (\<forall>u. backend_run work t u \<longrightarrow> remaining u \<le> Suc (remaining t))"
proof -
  have s: "server_ok T s" by (rule reachable_ok [OF assms(2,1)])
  have t: "server_ok T t" "closed t"
    using closed_runs [OF assms(6) on_close_ok [OF s assms(4)] close_closes [OF s assms(3-5)]] by simp_all
  have "remaining u < remaining t \<and> (nv_thread u = Terminated \<longleftrightarrow> (\<exists>h hs. nv_ready t = h # hs \<and> handler_rejects G T h t))"
    if "server_run G T B early t u" for u
    using closed_step [OF that t] by blast
  moreover have "remaining u \<le> Suc (remaining t)" if "backend_run work t u" for u using closed_backend [OF that t(2)] by blast
  ultimately show ?thesis using closed_progress [OF t(2)] t(2) unfolding closed_def by blast
qed

theorem shutdown_finishes_witness:
  "\<exists>s. server_reachable (day_calendar :: (int, int \<times> int) gregorian) (short_text JNull) no_backend (\<lambda>(x :: unit) b. b) True s
    \<and> nv_ready s = [CloseAll] \<and> (\<forall>i. nv_sockets (on_close (s\<lparr>nv_ready := []\<rparr>)) i \<noteq> Opened)
    \<and> (\<exists>u. server_run day_calendar (short_text JNull) no_backend True (on_close (s\<lparr>nv_ready := []\<rparr>)) u)"
proof -
  let ?s = "stopping_server () :: (int \<times> int, unit) net_server"
  have r: "server_reachable day_calendar (short_text JNull) no_backend (\<lambda>(x :: unit) b. b) True ?s" by (rule stopping_server_reachable)
  have s: "nv_ready ?s = [CloseAll]" "nv_thread ?s = Running" by (simp_all add: stopping_server_def)
  have "nv_thread (on_close (?s\<lparr>nv_ready := []\<rparr>)) = Running"
    by (simp add: stopping_server_def on_close_def close_session_def)
  then show ?thesis
    using shutdown_finishes [OF short_text_ok r s(2,1) _ rtranclp.rtrancl_refl] r s(1) by (intro exI [of _ ?s]) simp
qed

end
