(* ===== verification/Painting.thy ===== *)
theory Painting
  imports Complex_Main PlanningContext
begin

text \<open>
  What the widgets of the planning board draw: \<open>PlanningBoardAppearance\<close>, the three reservation renderers, the items of
  atoms and reservations, the background and foreground of the board, and the room list.  A paint method is the list of
  the calls it makes on its \<open>QPainter\<close>.  Coordinates are rational numbers, of which the code only uses halves; where
  it passes one for an \<open>int\<close> it is truncated.
\<close>

section \<open>The painter\<close>

record color =
  col_red :: int
  col_green :: int
  col_blue :: int
  col_alpha :: int

definition mk_color :: "int \<Rightarrow> int \<Rightarrow> int \<Rightarrow> int \<Rightarrow> color" where
  "mk_color r g b a = \<lparr>col_red = r, col_green = g, col_blue = b, col_alpha = a\<rparr>"

text \<open>\<open>QColor(QRgb)\<close>: the lower three bytes.\<close>

definition rgb :: "int \<Rightarrow> color" where
  "rgb n = mk_color (n div 65536 mod 256) (n div 256 mod 256) (n mod 256) 255"

record rectF =
  rf_x :: rat
  rf_y :: rat
  rf_width :: rat
  rf_height :: rat

definition mk_rectF :: "rat \<Rightarrow> rat \<Rightarrow> rat \<Rightarrow> rat \<Rightarrow> rectF" where
  "mk_rectF x y w h = \<lparr>rf_x = x, rf_y = y, rf_width = w, rf_height = h\<rparr>"

definition adjusted :: "rat \<Rightarrow> rat \<Rightarrow> rat \<Rightarrow> rat \<Rightarrow> rectF \<Rightarrow> rectF" where
  "adjusted x1 y1 x2 y2 r =
     mk_rectF (rf_x r + x1) (rf_y r + y1) (rf_width r + x2 - x1) (rf_height r + y2 - y1)"

definition rf_right :: "rectF \<Rightarrow> rat" where
  "rf_right r = rf_x r + rf_width r"

definition to_rectF :: "rect \<Rightarrow> rectF" where
  "to_rectF r = mk_rectF (of_int (rect_x r)) (of_int (rect_y r)) (of_int (rect_width r)) (of_int (rect_height r))"

text \<open>The conversion of a \<open>double\<close> to an \<open>int\<close>.\<close>

definition trunc :: "rat \<Rightarrow> int" where
  "trunc q = (if q < 0 then \<lceil>q\<rceil> else \<lfloor>q\<rfloor>)"

record font =
  font_family :: string
  font_size :: int
  font_bold :: bool

definition arial :: "int \<Rightarrow> bool \<Rightarrow> font" where
  "arial n b = \<lparr>font_family = ''Arial'', font_size = n, font_bold = b\<rparr>"

datatype alignment = AlignLeft | AlignRight | AlignHCenter | AlignTop | AlignBottom | AlignVCenter

text \<open>The calls; \<open>DrawPath\<close> draws the union of a rectangle with rounded corners and some others.\<close>

datatype paint_call =
    Save
  | Restore
  | Antialiasing
  | SetPen color
  | SetPenOfWidth color int
  | SetBrush color
  | SetFont font
  | SetClipRect rectF
  | FillRect rectF color
  | FillGradient rectF int int "(rat \<times> color) list"
  | DrawRect rectF
  | DrawPath rectF int "rectF list"
  | DrawText rectF "alignment list" string
  | DrawPolyline "(rat \<times> rat) list"
  | DrawLine int int int int

text \<open>
  What the methods use of Qt: darker colours, the lightness of a colour, the replacement of the lowest place marker of a
  text, and the bounding rectangle of an item.
\<close>

record qt =
  q_darker :: "color \<Rightarrow> int \<Rightarrow> color"
  q_lightness :: "color \<Rightarrow> int"
  q_arg :: "string \<Rightarrow> string \<Rightarrow> string"
  q_boundingRect :: "rectF \<Rightarrow> rectF"

section \<open>Appearance\<close>

datatype renderer = StandardRenderer | PrivacyRenderer | ArrivalsRenderer

record appearance =
  widgetBackground :: color
  selectionColor :: color
  headerFont :: font
  boldHeaderFont :: font
  atomConnectionHandleSize :: int
  atomConnectionOverhang :: int
  atomDefaultColor :: color
  atomTemporaryColor :: color
  atomCheckedInColor :: color
  atomCheckedOutColor :: color
  atomUnconfirmedColor :: color
  atomArchivedColor :: color
  atomSelectedColor :: color
  atomArchivedSelectedColor :: color
  atomDarkTextColor :: color
  atomLightTextColor :: color
  atomTextFont :: font
  boardSaturdayColumnWidth :: int
  boardSundayColumnWidth :: int
  boardEvenRowColor :: color
  boardOddRowColor :: color
  boardWeekdayColumnColor :: color
  boardSaturdayColumnColor :: color
  boardSundayColumnColor :: color
  boardPivotTodayColor :: color
  boardPivotColor :: color
  boardSeparatorColor :: color
  roomListWidth :: int
  monthBarHeight :: int
  daysBarHeight :: int
  roomListCategoryFont :: font
  reservationRenderer :: renderer

definition mk_appearance :: appearance where
  "mk_appearance =
     \<lparr>widgetBackground = rgb 0x353F41, selectionColor = rgb 0xD33682, headerFont = arial 10 False, boldHeaderFont = arial 10 True,
      atomConnectionHandleSize = 3, atomConnectionOverhang = 10,
      atomDefaultColor = rgb 0xE0D5B3, atomTemporaryColor = mk_color 0x26 0x8B 0xD2 200, atomCheckedInColor = rgb 0x9EC2A9,
      atomCheckedOutColor = rgb 0xC0BFBB, atomUnconfirmedColor = rgb 0xD4885C, atomArchivedColor = rgb 0xECEBE8,
      atomSelectedColor = rgb 0xD33682, atomArchivedSelectedColor = rgb 0xF8DEEB, atomDarkTextColor = rgb 0x586E75,
      atomLightTextColor = rgb 0xFFFFFF, atomTextFont = arial 9 False,
      boardSaturdayColumnWidth = 4, boardSundayColumnWidth = 6,
      boardEvenRowColor = rgb 0xFDF6E3, boardOddRowColor = rgb 0xEEE8D5, boardWeekdayColumnColor = rgb 0xE3D9BA,
      boardSaturdayColumnColor = rgb 0xE3D097, boardSundayColumnColor = rgb 0xE3D097, boardPivotTodayColor = rgb 0x268BD2,
      boardPivotColor = rgb 0x26D2AC, boardSeparatorColor = rgb 0x353F41,
      roomListWidth = 100, monthBarHeight = 20, daysBarHeight = 40, roomListCategoryFont = arial 8 False,
      reservationRenderer = StandardRenderer\<rparr>"

definition setReservationRenderer :: "renderer \<Rightarrow> appearance \<Rightarrow> appearance" where
  "setReservationRenderer r A = A\<lparr>reservationRenderer := r\<rparr>"

text \<open>The rectangle is a \<open>QRect\<close>, whose \<open>bottom\<close> is its last line.\<close>

definition drawRowBackground :: "qt \<Rightarrow> appearance \<Rightarrow> row_geometry \<Rightarrow> rect \<Rightarrow> paint_call list" where
  "drawRowBackground Q A row r =
     (case row_type row of
        SeparatorRow \<Rightarrow>
          [FillGradient (to_rectF r) (rect_y r) (rect_y r + rect_height r - 1)
             [(0, q_darker Q (boardSeparatorColor A) 200), (1/2, boardSeparatorColor A)]]
      | RoomRow \<Rightarrow> [FillRect (to_rectF r) (if row_isEven row then boardEvenRowColor A else boardOddRowColor A)])"

definition getShortWeekdayName :: "int \<Rightarrow> string res" where
  "getShortWeekdayName dayOfWeek =
     assert_that (0 \<le> dayOfWeek \<and> dayOfWeek < 7)
       (Inr ([''su'', ''mo'', ''tu'', ''we'', ''th'', ''fr'', ''sa''] ! nat dayOfWeek))"

definition getMonthName :: "int \<Rightarrow> string res" where
  "getMonthName month =
     assert_that (1 \<le> month \<and> month \<le> 12)
       (Inr ([''January'', ''February'', ''March'', ''April'', ''May'', ''June'', ''July'', ''August'', ''September'',
              ''October'', ''Novermber'', ''December''] ! nat (month - 1)))"

section \<open>Reservation renderers\<close>

definition mix :: "color \<Rightarrow> color \<Rightarrow> color" where
  "mix c1 c2 =
     mk_color ((col_red c1 + col_red c2 * 3) div 4) ((col_green c1 + col_green c2 * 3) div 4)
       ((col_blue c1 + col_blue c2 * 3) div 4) ((col_alpha c1 + col_alpha c2 * 3) div 4)"

definition standard_background :: "appearance \<Rightarrow> 'p reservation \<Rightarrow> bool \<Rightarrow> color" where
  "standard_background A r isSelected =
     (if res_status r = Temporary then atomTemporaryColor A
      else (if isSelected
            then (if res_status r = CheckedOut \<or> res_status r = Archived then atomArchivedSelectedColor A else atomSelectedColor A)
            else (case res_status r of
                    Archived \<Rightarrow> atomArchivedColor A
                  | CheckedOut \<Rightarrow> atomCheckedOutColor A
                  | CheckedIn \<Rightarrow> atomCheckedInColor A
                  | New \<Rightarrow> atomUnconfirmedColor A
                  | _ \<Rightarrow> atomDefaultColor A))\<lparr>col_alpha := 220\<rparr>)"

definition muted :: "color \<Rightarrow> color" where
  "muted c = (let v = col_red c div 3 + col_green c div 3 + col_blue c div 3 in mix c (mk_color v v v 255))"

text \<open>The virtual method of the three renderers.\<close>

definition getAtomBackgroundColor ::
    "('d::linorder, 'p) gregorian \<Rightarrow> appearance \<Rightarrow> ('d, 'p) board_layout \<Rightarrow> 'p reservation \<Rightarrow> 'p reservation_atom \<Rightarrow> bool \<Rightarrow> color" where
  "getAtomBackgroundColor G A l r atom isSelected =
     (case reservationRenderer A of
        StandardRenderer \<Rightarrow> standard_background A r isSelected
      | PrivacyRenderer \<Rightarrow> if isSelected then atomSelectedColor A else atomDefaultColor A
      | ArrivalsRenderer \<Rightarrow>
          if p_begin G (atom_range atom) = bl_pivotDate l then standard_background A r isSelected
          else if isSelected then atomSelectedColor A
          else muted (standard_background A r isSelected))"

definition getAtomTextColor ::
    "qt \<Rightarrow> ('d::linorder, 'p) gregorian \<Rightarrow> appearance \<Rightarrow> ('d, 'p) board_layout \<Rightarrow> 'p reservation \<Rightarrow> 'p reservation_atom \<Rightarrow> bool \<Rightarrow> color" where
  "getAtomTextColor Q G A l r atom isSelected =
     (if q_lightness Q (getAtomBackgroundColor G A l r atom isSelected) > 200 then atomDarkTextColor A else atomLightTextColor A)"

text \<open>The text of the \<open>i\<close>-th atom; the small triangle is written in UTF-8.\<close>

definition triangle :: string where
  "triangle = [char_of (0xE2 :: nat), char_of (0x96 :: nat), char_of (0xB8 :: nat), CHR '' '']"

definition getAtomText :: "qt \<Rightarrow> ('d::linorder, 'p) gregorian \<Rightarrow> 'p reservation \<Rightarrow> nat \<Rightarrow> string" where
  "getAtomText Q G r i =
     (if res_status r = Temporary
      then q_arg Q (q_arg Q ''%1 (%2)'' (res_description r)) (to_string (reservation_length G r))
      else (let text = q_arg Q (q_arg Q (q_arg Q (q_arg Q ''%1+%2 %3 (%4)'' (to_string (res_adults r)))
                  (to_string (res_children r))) (res_description r)) (to_string (reservation_length G r))
            in if i \<noteq> 0 then triangle @ text else text))"

definition drawAtomBackground ::
    "qt \<Rightarrow> ('d::linorder, 'p) gregorian \<Rightarrow> appearance \<Rightarrow> ('d, 'p) board_layout \<Rightarrow> 'p reservation \<Rightarrow> nat \<Rightarrow> rectF \<Rightarrow> bool \<Rightarrow> paint_call list" where
  "drawAtomBackground Q G A l r i atomRect isSelected =
     (let itemColor = getAtomBackgroundColor G A l r (res_atoms r ! i) isSelected in
      case reservationRenderer A of
        PrivacyRenderer \<Rightarrow> [FillRect (adjusted 0 0 0 (-1) atomRect) itemColor]
      | _ \<Rightarrow>
          (let borderRect = adjusted (-1/2) (-1/2) (-1/2) (-1/2) (adjusted 1 1 0 (-1) atomRect) in
           [Save, Antialiasing, SetBrush itemColor, SetPen (q_darker Q itemColor 200),
            DrawPath borderRect 5
              ((if i \<noteq> 0 then [adjusted 0 0 (-5) 0 borderRect] else [])
               @ (if i \<noteq> length (res_atoms r) - 1 then [adjusted 5 0 0 0 borderRect] else [])),
            Restore]))"

definition drawAtomText ::
    "qt \<Rightarrow> ('d::linorder, 'p) gregorian \<Rightarrow> appearance \<Rightarrow> ('d, 'p) board_layout \<Rightarrow> 'p reservation \<Rightarrow> nat \<Rightarrow> rectF \<Rightarrow> bool \<Rightarrow> paint_call list" where
  "drawAtomText Q G A l r i atomRect isSelected =
     [Save, SetClipRect atomRect, SetPen (getAtomTextColor Q G A l r (res_atoms r ! i) isSelected), SetFont (atomTextFont A),
      DrawText (adjusted 5 2 (-2) (-2) atomRect) [AlignLeft, AlignVCenter] (getAtomText Q G r i), Restore]"

definition paintAtom ::
    "qt \<Rightarrow> ('d::linorder, 'p) gregorian \<Rightarrow> appearance \<Rightarrow> ('d, 'p) board_layout \<Rightarrow> 'p reservation \<Rightarrow> nat \<Rightarrow> rectF \<Rightarrow> bool \<Rightarrow> paint_call list" where
  "paintAtom Q G A l r i atomRect isSelected =
     drawAtomBackground Q G A l r i atomRect isSelected
     @ (if reservationRenderer A = PrivacyRenderer \<and> \<not> isSelected then [] else drawAtomText Q G A l r i atomRect isSelected)"

text \<open>One link between the rectangles of two consecutive atoms.\<close>

definition connection_link :: "appearance \<Rightarrow> rectF \<Rightarrow> rectF \<Rightarrow> paint_call list" where
  "connection_link A previousBox nextBox =
     (let x1 = rf_right previousBox; y1 = rf_y previousBox + rf_height previousBox / 2;
          x2 = rf_x nextBox + 1; y2 = rf_y nextBox + rf_height nextBox / 2;
          handleSize = atomConnectionHandleSize A; linkOverhang = of_int (atomConnectionOverhang A);
          int_rect = (\<lambda>x y w h. mk_rectF (of_int (trunc x)) (of_int (trunc y)) (of_int w) (of_int h));
          point = (\<lambda>x y. (of_int (trunc x), of_int (trunc y)))
      in [FillRect (int_rect x1 (y1 - of_int handleSize) handleSize (handleSize * 2)) (selectionColor A),
          FillRect (int_rect (x2 - of_int handleSize) (y2 - of_int handleSize) handleSize (handleSize * 2)) (selectionColor A),
          DrawPolyline [point x1 y1, point (x1 + linkOverhang) y1, point (x2 - linkOverhang) y2, point x2 y2]])"

fun connections :: "appearance \<Rightarrow> rectF list \<Rightarrow> paint_call list" where
  "connections A (b # c # rest) = connection_link A b c @ connections A (c # rest)"
| "connections A _ = []"

definition paintReservationConnections :: "appearance \<Rightarrow> rectF list \<Rightarrow> bool \<Rightarrow> paint_call list" where
  "paintReservationConnections A atomRects isSelected =
     (if isSelected \<and> length atomRects > 1
      then [Save, Antialiasing, SetPenOfWidth (selectionColor A) 2] @ connections A atomRects @ [Restore]
      else [])"

section \<open>Items of reservations\<close>

text \<open>
  The item of an atom keeps its rectangle since the last layout, and finds its atom by index; the item of the
  reservation draws the links between its children first.
\<close>

definition atom_item_paint ::
    "qt \<Rightarrow> ('d::linorder, 'p) gregorian \<Rightarrow> appearance \<Rightarrow> ('d, 'p) board_layout \<Rightarrow> 'p reservation \<Rightarrow> bool \<Rightarrow> nat \<times> rect \<Rightarrow> paint_call list" where
  "atom_item_paint Q G A l r isSelected item =
     (case atomAtIndex (int (fst item)) r of
        None \<Rightarrow> []
      | Some atom \<Rightarrow> paintAtom Q G A l r (fst item) (to_rectF (snd item)) isSelected)"

definition reservation_item_paint ::
    "qt \<Rightarrow> ('d::linorder, 'p) gregorian \<Rightarrow> appearance \<Rightarrow> ('d, 'p) board_layout \<Rightarrow> 'p reservation \<Rightarrow> bool \<Rightarrow> rect list \<Rightarrow> paint_call list" where
  "reservation_item_paint Q G A l r isSelected rects =
     paintReservationConnections A (map (\<lambda>c. q_boundingRect Q (to_rectF c)) rects) (isSelected \<or> res_status r = Temporary)
     @ concat (map (atom_item_paint Q G A l r isSelected) (List.enumerate 0 rects))"

text \<open>\<open>updateLayout\<close> of both items: one child per atom, each where the layout has its room and dates.\<close>

definition reservation_item_layout :: "('d::linorder, 'p) gregorian \<Rightarrow> ('d, 'p) board_layout \<Rightarrow> 'p reservation \<Rightarrow> rect list" where
  "reservation_item_layout G l r = map (\<lambda>a. getAtomRect G (atom_room a) (atom_range a) l) (res_atoms r)"

text \<open>Items of the board, from the bottom up.\<close>

definition board_items_paint ::
    "qt \<Rightarrow> ('d::linorder, 'p) gregorian \<Rightarrow> appearance \<Rightarrow> ('d, 'p) board_layout \<Rightarrow> 'p objects \<Rightarrow> (addr \<times> bool) list \<Rightarrow> paint_call list res" where
  "board_items_paint Q G A l H items =
     bindr (map_res (\<lambda>(a, isSelected).
         case map_of H a of
           None \<Rightarrow> Inl UndefinedBehaviour
         | Some r \<Rightarrow> Inr (reservation_item_paint Q G A l r isSelected (reservation_item_layout G l r))) items)
       (\<lambda>ds. Inr (concat ds))"

section \<open>Background and foreground\<close>

text \<open>What the drawing of dates uses of a calendar beside \<open>gregorian\<close>; \<open>cv_date\<close> makes a date of year, month and day.\<close>

record 'd civil =
  cv_day :: "'d \<Rightarrow> int"
  cv_month :: "'d \<Rightarrow> int"
  cv_year :: "'d \<Rightarrow> int"
  cv_day_of_week :: "'d \<Rightarrow> int"
  cv_date :: "int \<Rightarrow> int \<Rightarrow> int \<Rightarrow> 'd"
  add_months :: "'d \<Rightarrow> int \<Rightarrow> 'd"

definition row_rect :: "rectF \<Rightarrow> row_geometry \<Rightarrow> rect" where
  "row_rect r row = mk_rect (trunc (rf_x r)) (row_top row) (trunc (rf_width r)) (row_height row)"

definition column_line :: "appearance \<Rightarrow> rectF \<Rightarrow> int \<Rightarrow> int \<Rightarrow> int \<Rightarrow> paint_call" where
  "column_line A r linesHeight posX dayOfWeek =
     (if dayOfWeek = 0
      then FillRect (mk_rectF (of_int (posX - boardSundayColumnWidth A div 2)) (rf_y r) (of_int (boardSundayColumnWidth A))
             (of_int linesHeight)) (boardSundayColumnColor A)
      else if dayOfWeek = 6
      then FillRect (mk_rectF (of_int (posX - boardSaturdayColumnWidth A div 2)) (rf_y r) (of_int (boardSaturdayColumnWidth A))
             (of_int linesHeight)) (boardSaturdayColumnColor A)
      else DrawLine (posX - 1) (trunc (rf_y r)) (posX - 1) (linesHeight - 1))"

partial_function (option) column_lines :: "int \<Rightarrow> rat \<Rightarrow> int \<Rightarrow> int \<Rightarrow> (int \<times> int) list option" where
  "column_lines colWidth right posX dayOfWeek =
     (if of_int posX < right + of_int colWidth
      then Option.bind (column_lines colWidth right (posX + colWidth) ((dayOfWeek + 1) mod 7)) (\<lambda>rest.
             Some ((posX, dayOfWeek) # rest))
      else Some [])"

text \<open>\<open>PlanningBoardWidget::drawBackground\<close>; \<open>r\<close> is the part of the scene that is drawn.\<close>

definition board_drawBackground ::
    "qt \<Rightarrow> ('d::linorder, 'p) gregorian \<Rightarrow> 'd civil \<Rightarrow> appearance \<Rightarrow> ('d, 'p) board_layout \<Rightarrow> rectF \<Rightarrow> paint_call list option" where
  "board_drawBackground Q G C A l r =
     (let leftDatePos = getNearestDatePosition G (trunc (rf_x r - of_int (bl_dateColumnWidth l))) l;
          linesHeight = min (getHeight l) (trunc (rf_height r));
          rows = (\<lambda>t. concat (map (\<lambda>row. drawRowBackground Q A row (row_rect r row)) (filter (\<lambda>row. row_type row = t) (bl_rows l))))
      in Option.bind (column_lines (bl_dateColumnWidth l) (rf_right r) (snd leftDatePos) (cv_day_of_week C (fst leftDatePos))) (\<lambda>cols.
           Some (FillRect r (widgetBackground A) # rows RoomRow
             @ SetPen (boardWeekdayColumnColor A) # map (\<lambda>(x, d). column_line A r linesHeight x d) cols
             @ rows SeparatorRow)))"

definition board_drawForeground ::
    "('d::linorder, 'p) gregorian \<Rightarrow> appearance \<Rightarrow> ('d, 'p) board_layout \<Rightarrow> rectF \<Rightarrow> paint_call list" where
  "board_drawForeground G A l r =
     (let x = getDatePositionX G (bl_pivotDate l) l; linesHeight = min (getHeight l) (trunc (rf_height r))
      in [FillRect (to_rectF (mk_rect (x - 2) (trunc (rf_y r)) 3 linesHeight)) ((boardPivotTodayColor A)\<lparr>col_alpha := 0xA0\<rparr>)])"

section \<open>Room list\<close>

text \<open>\<open>h\<close> is the hotel that owns the room.  The product of the category's id is one of type \<open>int\<close>.\<close>

definition room_item_rect :: "appearance \<Rightarrow> ('d, 'p) board_layout \<Rightarrow> hotel_room \<Rightarrow> rect" where
  "room_item_rect A l room =
     (case getRowGeometryForRoom (obj_id room) l of
        None \<Rightarrow> mk_rect 0 0 0 0
      | Some row \<Rightarrow> mk_rect 0 (row_top row) (roomListWidth A) (row_height row))"

definition room_item_paint :: "appearance \<Rightarrow> hotel \<Rightarrow> hotel_room \<Rightarrow> rect \<Rightarrow> paint_call list res" where
  "room_item_paint A h room rect =
     (let itemRect = to_rectF rect in
      bindr (category_of h room) (\<lambda>c.
        let n = 0x217683 * obj_id c in
        if n < -2147483648 \<or> 2147483647 < n then Inl UndefinedBehaviour
        else Inr
          [FillRect (itemRect\<lparr>rf_width := 6\<rparr>) (rgb n),
           FillRect (mk_rectF (of_int (trunc (rf_right itemRect - 1))) (rf_y itemRect) 1 (rf_height itemRect)) (boardWeekdayColumnColor A),
           Save, SetClipRect itemRect, SetPen (atomDarkTextColor A), SetFont (boldHeaderFont A),
           DrawText (adjusted 8 0 0 0 itemRect) [AlignVCenter] (room_name room),
           SetFont (roomListCategoryFont A),
           DrawText (adjusted 8 0 (-5) 0 itemRect) [AlignVCenter, AlignRight] (cat_shortCode c), Restore]))"

definition roomlist_drawBackground :: "qt \<Rightarrow> appearance \<Rightarrow> ('d, 'p) board_layout \<Rightarrow> rectF \<Rightarrow> paint_call list" where
  "roomlist_drawBackground Q A l r =
     FillRect r (widgetBackground A) # concat (map (\<lambda>row. drawRowBackground Q A row (row_rect r row)) (bl_rows l))"

definition roomlist_sceneRect :: "appearance \<Rightarrow> ('d, 'p) board_layout \<Rightarrow> rect" where
  "roomlist_sceneRect A l = mk_rect 0 0 (roomListWidth A) (getHeight l)"

text \<open>All items of the list, in the order of the hotels and their rooms.\<close>

definition roomlist_paint :: "appearance \<Rightarrow> ('d, 'p) board_layout \<Rightarrow> hotel list \<Rightarrow> paint_call list res" where
  "roomlist_paint A l hotels =
     bindr (map_res (\<lambda>h. map_res (\<lambda>room. room_item_paint A h room (room_item_rect A l room)) (hotel_rooms h)) hotels)
       (\<lambda>dss. Inr (concat (concat dss)))"

section \<open>Place markers\<close>

text \<open>A place marker is a percent sign, possibly an \<open>L\<close>, and one or two digits.\<close>

definition is_digit :: "char \<Rightarrow> bool" where
  "is_digit c \<longleftrightarrow> 48 \<le> (of_char c :: nat) \<and> (of_char c :: nat) < 58"

definition digit_value :: "char \<Rightarrow> nat" where
  "digit_value c = of_char c - 48"

definition number_at :: "string \<Rightarrow> nat option" where
  "number_at s =
     (case s of
        d # e # _ \<Rightarrow> if is_digit d then Some (if is_digit e then 10 * digit_value d + digit_value e else digit_value d) else None
      | [d] \<Rightarrow> if is_digit d then Some (digit_value d) else None
      | [] \<Rightarrow> None)"

definition marker_at :: "string \<Rightarrow> nat option" where
  "marker_at s =
     (case s of
        c # t \<Rightarrow> if c = CHR ''%'' then number_at (case t of d # u \<Rightarrow> if d = CHR ''L'' then u else t | [] \<Rightarrow> t) else None
      | [] \<Rightarrow> None)"

fun markers :: "string \<Rightarrow> nat list" where
  "markers [] = []"
| "markers (c # cs) = (case marker_at (c # cs) of None \<Rightarrow> markers cs | Some n \<Rightarrow> n # markers cs)"

text \<open>The documented behaviour of \<open>QString::arg\<close> on a text with one lowest place marker.\<close>

definition arg_ok :: "(string \<Rightarrow> string \<Rightarrow> string) \<Rightarrow> bool" where
  "arg_ok arg \<longleftrightarrow>
     (\<forall>p d q a. is_digit d \<longrightarrow> 0 < digit_value d \<longrightarrow> markers p = [] \<longrightarrow> (\<forall>m \<in> set (markers q). digit_value d < m)
        \<longrightarrow> (q = [] \<or> \<not> is_digit (hd q)) \<longrightarrow> arg (p @ CHR ''%'' # d # q) a = p @ a @ q)"

definition plain_start :: "string \<Rightarrow> bool" where
  "plain_start t \<longleftrightarrow> (case t of [] \<Rightarrow> True | c # _ \<Rightarrow> \<not> is_digit c \<and> c \<noteq> CHR ''L'')"

lemma number_at_append: "plain_start t \<Longrightarrow> number_at (s @ t) = number_at s"
  by (cases s; cases "tl s"; cases t) (auto simp: number_at_def plain_start_def split: list.split)

lemma marker_at_append: "plain_start t \<Longrightarrow> s \<noteq> [] \<Longrightarrow> marker_at (s @ t) = marker_at s"
proof (cases s)
  case (Cons c u)
  assume t: "plain_start t"
  show ?thesis
  proof (cases u)
    case Nil
    then show ?thesis using t Cons number_at_append [OF t, of "[]"]
      by (auto simp: marker_at_def plain_start_def split: list.splits)
  next
    case (Cons d v)
    then show ?thesis using \<open>s = c # u\<close> number_at_append [OF t, of "d # v"] number_at_append [OF t, of v]
      by (simp add: marker_at_def)
  qed
qed simp

lemma markers_append: "plain_start t \<Longrightarrow> markers (s @ t) = markers s @ markers t"
proof (induction s)
  case (Cons c s)
  have "marker_at (c # s @ t) = marker_at (c # s)" using marker_at_append [OF Cons.prems, of "c # s"] by simp
  then show ?case using Cons by (simp split: option.split)
qed simp

lemma markers_plain: "CHR ''%'' \<notin> set s \<Longrightarrow> markers s = []"
  by (induction s) (auto simp: marker_at_def)

lemma markers_prefix: "CHR ''%'' \<notin> set s \<Longrightarrow> markers (s @ t) = markers t"
  by (induction s) (auto simp: marker_at_def)

lemma digits_chars: "c \<in> set (digits n) \<Longrightarrow> is_digit c"
proof (induction n rule: digits.induct)
  case (1 n)
  have d: "is_digit (char_of (48 + k))" if "k < 10" for k :: nat
    using that by (simp add: is_digit_def)
  show ?case using 1 d [of n] d [of "n mod 10"] by (subst (asm) digits.simps [of n]) (auto split: if_splits)
qed

lemma to_string_no_percent: "CHR ''%'' \<notin> set (to_string n)"
proof -
  have "\<not> is_digit (CHR ''%'')" by (simp add: is_digit_def)
  then show ?thesis using digits_chars [of "CHR ''%''"] by (auto simp: to_string_def)
qed

lemma arg_step:
  assumes "arg_ok arg" and "markers p = []" and "is_digit d" and "0 < digit_value d" and "\<forall>m \<in> set (markers q). digit_value d < m"
    and "q = [] \<or> \<not> is_digit (hd q)"
  shows "arg (p @ CHR ''%'' # d # q) a = p @ a @ q"
  using assms unfolding arg_ok_def by blast

lemma arg_four:
  assumes "arg_ok arg" and "CHR ''%'' \<notin> set a" and "CHR ''%'' \<notin> set b" and "markers d = []"
  shows "arg (arg (arg (arg ''%1+%2 %3 (%4)'' a) b) d) e = a @ ''+'' @ b @ '' '' @ d @ '' ('' @ e @ '')''"
    and "arg (arg (arg ''%1+%2 %3 (%4)'' a) b) d' = a @ ''+'' @ b @ '' '' @ d' @ '' (%4)''"
proof -
  have 1: "arg ''%1+%2 %3 (%4)'' a = a @ ''+%2 %3 (%4)''"
    using arg_step [OF assms(1), of "[]" "CHR ''1''" "''+%2 %3 (%4)''" a]
    by (simp add: is_digit_def digit_value_def marker_at_def number_at_def)
  have 2: "arg (a @ ''+%2 %3 (%4)'') b = a @ ''+'' @ b @ '' %3 (%4)''"
    using arg_step [OF assms(1), of "a @ ''+''" "CHR ''2''" "'' %3 (%4)''" b] assms(2)
    by (simp add: is_digit_def digit_value_def marker_at_def number_at_def markers_plain)
  have 3: "arg (a @ ''+'' @ b @ '' %3 (%4)'') x = a @ ''+'' @ b @ '' '' @ x @ '' (%4)''" for x
    using arg_step [OF assms(1), of "a @ ''+'' @ b @ '' ''" "CHR ''3''" "'' (%4)''" x] assms(2,3)
    by (simp add: is_digit_def digit_value_def marker_at_def number_at_def markers_plain)
  have "markers (a @ ''+'' @ b @ '' '' @ d @ '' ('') = markers (d @ '' ('')"
    using assms(2,3) by (simp add: markers_prefix marker_at_def)
  also have "\<dots> = []" using assms(4) by (subst markers_append) (simp_all add: plain_start_def is_digit_def marker_at_def)
  finally have 4: "arg (a @ ''+'' @ b @ '' '' @ d @ '' (%4)'') e = a @ ''+'' @ b @ '' '' @ d @ '' ('' @ e @ '')''"
    using arg_step [OF assms(1), of "a @ ''+'' @ b @ '' '' @ d @ '' (''" "CHR ''4''" "'')''" e]
    by (simp add: is_digit_def digit_value_def marker_at_def number_at_def)
  show "arg (arg (arg (arg ''%1+%2 %3 (%4)'' a) b) d) e = a @ ''+'' @ b @ '' '' @ d @ '' ('' @ e @ '')''"
    by (simp only: 1 2 3 4)
  show "arg (arg (arg ''%1+%2 %3 (%4)'' a) b) d' = a @ ''+'' @ b @ '' '' @ d' @ '' (%4)''" by (simp only: 1 2 3)
qed

lemma arg_two:
  assumes "arg_ok arg" and "markers d = []"
  shows "arg (arg ''%1 (%2)'' d) e = d @ '' ('' @ e @ '')''"
proof -
  have 1: "arg ''%1 (%2)'' d = d @ '' (%2)''"
    using arg_step [OF assms(1), of "[]" "CHR ''1''" "'' (%2)''" d]
    by (simp add: is_digit_def digit_value_def marker_at_def number_at_def)
  have "markers (d @ '' ('') = []"
    using assms(2) by (subst markers_append) (simp_all add: plain_start_def is_digit_def marker_at_def)
  then have "arg (d @ '' (%2)'') e = d @ '' ('' @ e @ '')''"
    using arg_step [OF assms(1), of "d @ '' (''" "CHR ''2''" "'')''" e]
    by (simp add: is_digit_def digit_value_def marker_at_def number_at_def)
  then show ?thesis by (simp only: 1)
qed

text \<open>A description with a place marker of its own takes the length in the wrong place.\<close>

lemma marker_in_description:
  assumes "arg_ok (q_arg Q)" and "markers p = []" and "markers q = []" and "q = [] \<or> \<not> is_digit (hd q)"
    and "res_status r \<noteq> Temporary" and "res_description r = p @ ''%1'' @ q"
  shows "getAtomText Q G r 0 = to_string (res_adults r) @ ''+'' @ to_string (res_children r) @ '' '' @ p
    @ to_string (reservation_length G r) @ q @ '' (%4)''"
proof -
  let ?s = "to_string (res_adults r) @ ''+'' @ to_string (res_children r) @ '' ''"
  have "markers (?s @ p) = []" using assms(2) to_string_no_percent by (simp add: markers_prefix marker_at_def)
  moreover have "markers (q @ '' (%4)'') = [4]"
    using assms(3) by (subst markers_append) (simp_all add: plain_start_def is_digit_def marker_at_def number_at_def digit_value_def)
  moreover have "q @ '' (%4)'' = [] \<or> \<not> is_digit (hd (q @ '' (%4)''))" using assms(4) by (cases q) (auto simp: is_digit_def)
  ultimately have "q_arg Q ((?s @ p) @ CHR ''%'' # CHR ''1'' # q @ '' (%4)'') e = (?s @ p) @ e @ q @ '' (%4)''" for e
    by (intro arg_step [OF assms(1)]) (simp_all add: is_digit_def digit_value_def)
  then show ?thesis
    using assms(5,6) arg_four(2) [OF assms(1) to_string_no_percent to_string_no_percent, where d' = "p @ ''%1'' @ q" and d = "[]"]
    by (simp add: getAtomText_def)
qed

text \<open>An instance: the first of the lowest markers is replaced.\<close>

definition drop_marker :: "string \<Rightarrow> string" where
  "drop_marker s =
     (let t = (case tl s of d # u \<Rightarrow> if d = CHR ''L'' then u else tl s | [] \<Rightarrow> [])
      in case t of d # e # u \<Rightarrow> if is_digit e then u else e # u | _ \<Rightarrow> [])"

fun replace_marker :: "nat \<Rightarrow> string \<Rightarrow> string \<Rightarrow> string" where
  "replace_marker n a [] = []"
| "replace_marker n a (c # cs) = (if marker_at (c # cs) = Some n then a @ drop_marker (c # cs) else c # replace_marker n a cs)"

definition first_arg :: "string \<Rightarrow> string \<Rightarrow> string" where
  "first_arg s a = (if markers s = [] then s else replace_marker (fold min (markers s) 100) a s)"

lemma replace_marker_append:
  "markers p = [] \<Longrightarrow> plain_start t \<Longrightarrow> replace_marker n a (p @ t) = p @ replace_marker n a t"
proof (induction p)
  case (Cons c p)
  then have "marker_at (c # p @ t) = None" using marker_at_append [of t "c # p"] by (simp split: option.splits)
  then show ?case using Cons by (simp split: option.splits)
qed simp

lemma fold_min: "\<forall>m \<in> set ms. (n :: nat) \<le> m \<Longrightarrow> fold min ms n = n"
  by (induction ms) (simp_all add: min.absorb2)

lemma first_arg_ok: "arg_ok first_arg"
  unfolding arg_ok_def
proof (intro allI impI)
  fix p d q a
  assume d: "is_digit d" "0 < digit_value d" and p: "markers p = []" and q: "\<forall>m \<in> set (markers q). digit_value d < m"
    "q = [] \<or> \<not> is_digit (hd q)"
  let ?t = "CHR ''%'' # d # q" and ?n = "digit_value d"
  have nc: "d \<noteq> CHR ''%''" "d \<noteq> CHR ''L''" using d(1) by (auto simp: is_digit_def)
  have ps: "plain_start ?t" by (simp add: plain_start_def is_digit_def)
  have n: "number_at (d # q) = Some ?n" using d q(2) by (cases q) (auto simp: number_at_def)
  then have m: "marker_at ?t = Some ?n" using nc by (simp add: marker_at_def)
  have "marker_at (d # q) = None" using nc by (simp add: marker_at_def)
  then have ms: "markers (p @ ?t) = ?n # markers q" using markers_append [OF ps, of p] p m by simp
  have "?n \<le> 9" using d(1) by (auto simp: is_digit_def digit_value_def)
  then have "fold min (markers (p @ ?t)) 100 = ?n" using fold_min [of "markers q" ?n] q(1) by (simp add: ms min_def less_imp_le)
  moreover have "drop_marker ?t = q" using nc q(2) by (cases q) (auto simp: drop_marker_def)
  ultimately show "first_arg (p @ ?t) a = p @ a @ q"
    using replace_marker_append [OF p ps] m ms by (simp add: first_arg_def)
qed

definition demo_qt :: qt where
  "demo_qt = \<lparr>q_darker = (\<lambda>c n. c), q_lightness = (\<lambda>c. (col_red c + col_blue c) div 2), q_arg = first_arg, q_boundingRect = id\<rparr>"

section \<open>Properties\<close>

text \<open>Two reservations a passer-by may not tell apart: the same rooms and dates, both or neither only drawn with the mouse.\<close>

definition same_stays :: "'p reservation \<Rightarrow> 'p reservation \<Rightarrow> bool" where
  "same_stays r s \<longleftrightarrow> map atom_room (res_atoms r) = map atom_room (res_atoms s)
     \<and> map atom_range (res_atoms r) = map atom_range (res_atoms s) \<and> (res_status r = Temporary \<longleftrightarrow> res_status s = Temporary)"

lemma same_stays_layout: "same_stays r s \<Longrightarrow> reservation_item_layout G l r = reservation_item_layout G l s"
proof -
  assume "same_stays r s"
  then have "map atom_room (res_atoms r) = map atom_room (res_atoms s)" "map atom_range (res_atoms r) = map atom_range (res_atoms s)"
    by (simp_all add: same_stays_def)
  then show ?thesis
    unfolding reservation_item_layout_def by (intro nth_equalityI) (auto simp: list_eq_iff_nth_eq)
qed

lemma privacy_atom:
  "reservationRenderer A = PrivacyRenderer \<Longrightarrow>
     atom_item_paint Q G A l r False (i, c)
       = (if i < length (res_atoms r) then [FillRect (adjusted 0 0 0 (-1) (to_rectF c)) (atomDefaultColor A)] else [])"
  by (simp add: atom_item_paint_def atomAtIndex_def paintAtom_def drawAtomBackground_def getAtomBackgroundColor_def)

lemma privacy_item:
  assumes "reservationRenderer A = PrivacyRenderer" and "same_stays r s"
  shows "reservation_item_paint Q G A l r False (reservation_item_layout G l r)
    = reservation_item_paint Q G A l s False (reservation_item_layout G l s)"
proof -
  have "length (res_atoms r) = length (res_atoms s)" using assms(2) unfolding same_stays_def by (metis length_map)
  then have "atom_item_paint Q G A l r False x = atom_item_paint Q G A l s False x" for x
    by (cases x) (simp add: privacy_atom [OF assms(1)])
  then have "atom_item_paint Q G A l r False = atom_item_paint Q G A l s False" by (rule ext)
  moreover have "res_status r = Temporary \<longleftrightarrow> res_status s = Temporary" using assms(2) by (simp add: same_stays_def)
  ultimately show ?thesis using same_stays_layout [OF assms(2), of G l] by (simp add: reservation_item_paint_def)
qed

fun is_text :: "paint_call \<Rightarrow> bool" where
  "is_text (DrawText _ _ _) = True"
| "is_text _ = False"

lemma connections_no_text: "x \<in> set (connections A bs) \<Longrightarrow> \<not> is_text x"
  by (induction A bs rule: connections.induct) (auto simp: connection_link_def Let_def)

lemma privacy_item_no_text:
  assumes "reservationRenderer A = PrivacyRenderer" and "x \<in> set (reservation_item_paint Q G A l r False rects)"
  shows "\<not> is_text x"
  using assms(2) connections_no_text [of x A]
  by (auto simp: reservation_item_paint_def paintReservationConnections_def privacy_atom [OF assms(1)] split: if_splits)

text \<open>C26 With the privacy renderer the board is painted without any text, and does not tell apart reservations of the
  same rooms and dates: whatever descriptions, guests and states the reservations have, the same calls are made on the
  painter as long as nothing is selected.\<close>

theorem privacy_hides_guests:
  assumes "reservationRenderer A = PrivacyRenderer" and "\<forall>x \<in> set items. \<not> snd x"
    and "\<forall>a. rel_option same_stays (map_of H a) (map_of H' a)"
  shows "board_items_paint Q G A l H items = board_items_paint Q G A l H' items
    \<and> (\<forall>ds. board_items_paint Q G A l H items = Inr ds \<longrightarrow> (\<forall>d \<in> set ds. \<not> is_text d))"
proof -
  have "board_items_paint Q G A l H items = board_items_paint Q G A l H' items
    \<and> (\<forall>ds. board_items_paint Q G A l H items = Inr ds \<longrightarrow> (\<forall>d \<in> set ds. \<not> is_text d))" using assms(2)
  proof (induction items)
    case Nil
    then show ?case by (simp add: board_items_paint_def)
  next
    case (Cons x items)
    obtain a where x: "x = (a, False)" using Cons.prems by (cases x) auto
    have rel: "rel_option same_stays (map_of H a) (map_of H' a)" using assms(3) by blast
    have IH: "board_items_paint Q G A l H items = board_items_paint Q G A l H' items"
      "\<And>ds. board_items_paint Q G A l H items = Inr ds \<Longrightarrow> \<forall>d \<in> set ds. \<not> is_text d" using Cons by auto
    show ?case
    proof (cases "map_of H a")
      case None
      then have "map_of H' a = None" using rel by simp
      then show ?thesis using None x by (simp add: board_items_paint_def)
    next
      case (Some r)
      then obtain s where s: "map_of H' a = Some s" "same_stays r s" using rel by (auto simp: option_rel_Some1)
      have "board_items_paint Q G A l H0 (x # items) = (case map_of H0 a of None \<Rightarrow> Inl UndefinedBehaviour
          | Some r \<Rightarrow> bindr (board_items_paint Q G A l H0 items) (\<lambda>ds.
              Inr (reservation_item_paint Q G A l r False (reservation_item_layout G l r) @ ds)))" for H0
        by (simp add: board_items_paint_def x bindr_def split: option.split sum.split)
      then show ?thesis
        using Some s IH privacy_item [OF assms(1) s(2), of Q G l] privacy_item_no_text [OF assms(1), of _ Q G l s] by auto
    qed
  qed
  then show ?thesis .
qed

theorem privacy_hides_guests_witness:
  "board_items_paint demo_qt day_calendar (setReservationRenderer PrivacyRenderer mk_appearance) (mk_board_layout 7)
      [(1, demo_stay\<lparr>res_description := ''Smith'', res_adults := 2\<rparr>)] [(1, False)]
    = board_items_paint demo_qt day_calendar (setReservationRenderer PrivacyRenderer mk_appearance) (mk_board_layout 7)
      [(1, demo_stay\<lparr>res_description := ''Jones'', res_status := CheckedIn\<rparr>)] [(1, False)]"
  by (rule privacy_hides_guests [THEN conjunct1])
    (simp_all add: setReservationRenderer_def same_stays_def demo_stay_def mk_reservation_def)

text \<open>C27 The text drawn for an atom: with the standard renderers, and with the privacy renderer where the reservation is
  selected, exactly one text is drawn, the number of adults and children, the description and the number of nights, after a
  small triangle for every atom but the first; a reservation still being drawn shows its description and nights.  This
  holds for descriptions without place markers.\<close>

theorem atom_text_shown:
  assumes "arg_ok (q_arg Q)" and "markers (res_description r) = []" and "reservationRenderer A \<noteq> PrivacyRenderer \<or> isSelected"
  shows "filter is_text (paintAtom Q G A l r i atomRect isSelected)
    = [DrawText (adjusted 5 2 (-2) (-2) atomRect) [AlignLeft, AlignVCenter]
        (if res_status r = Temporary
         then res_description r @ '' ('' @ to_string (reservation_length G r) @ '')''
         else (if i = 0 then [] else triangle) @ to_string (res_adults r) @ ''+'' @ to_string (res_children r) @ '' ''
           @ res_description r @ '' ('' @ to_string (reservation_length G r) @ '')'')]"
proof -
  have "filter is_text (drawAtomBackground Q G A l r i atomRect isSelected) = []"
    by (simp add: drawAtomBackground_def Let_def split: renderer.split)
  moreover have "getAtomText Q G r i = (if res_status r = Temporary
         then res_description r @ '' ('' @ to_string (reservation_length G r) @ '')''
         else (if i = 0 then [] else triangle) @ to_string (res_adults r) @ ''+'' @ to_string (res_children r) @ '' ''
           @ res_description r @ '' ('' @ to_string (reservation_length G r) @ '')'')"
    using arg_two [OF assms(1,2)] arg_four(1) [OF assms(1) to_string_no_percent to_string_no_percent assms(2)]
    by (simp add: getAtomText_def Let_def)
  ultimately show ?thesis using assms(3) by (auto simp: paintAtom_def drawAtomText_def)
qed

theorem atom_text_shown_witness:
  "filter is_text (paintAtom demo_qt day_calendar mk_appearance (mk_board_layout 7)
      (demo_stay\<lparr>res_description := ''Smith'', res_adults := 2, res_status := CheckedIn\<rparr>) 0 (mk_rectF 0 0 100 22) False)
    = [DrawText (mk_rectF 5 2 93 18) [AlignLeft, AlignVCenter] ''2+0 Smith (5)'']"
proof -
  let ?r = "demo_stay\<lparr>res_description := ''Smith'', res_adults := 2, res_status := CheckedIn\<rparr>"
  have n: "to_string 2 = ''2''" "to_string 0 = ''0''" "to_string 5 = ''5''" by (simp_all add: to_string_def digits.simps char_of_def bit_0)
  have r: "res_adults ?r = 2" "res_children ?r = 0" "reservation_length day_calendar ?r = 5" "res_status ?r \<noteq> Temporary"
      "res_description ?r = ''Smith''"
    by (simp_all add: demo_stay_def mk_reservation_def mk_atom_def reservation_length_def firstAtom_def lastAtom_def)
  have "arg_ok (q_arg demo_qt)" "reservationRenderer mk_appearance \<noteq> PrivacyRenderer"
    by (simp_all add: demo_qt_def mk_appearance_def first_arg_ok)
  moreover have "markers ''Smith'' = []" by (simp add: marker_at_def)
  ultimately show ?thesis
    using atom_text_shown [of demo_qt ?r mk_appearance False day_calendar "mk_board_layout 7" 0 "mk_rectF 0 0 100 22"] r n
    by (simp add: adjusted_def mk_rectF_def)
qed

text \<open>The room list is painted exactly for rooms with a category whose id is at most \<open>979\<close>.\<close>

lemma room_item_paint_defined:
  "returns (room_item_paint A h room rect) \<longleftrightarrow> (\<exists>c. category_of h room = Inr c \<and> -979 \<le> obj_id c \<and> obj_id c \<le> 979)"
  by (cases "category_of h room") (auto simp: room_item_paint_def returns_def Let_def)

text \<open>Where only a lower part of the board is drawn, the lines of its weekdays lie above it.\<close>

lemma weekday_lines_missing:
  assumes "0 \<le> rf_y r" and "rf_height r \<le> rf_y r" and "dayOfWeek \<notin> {0, 6}"
  shows "\<exists>y y'. column_line A r (min (getHeight l) (trunc (rf_height r))) x dayOfWeek = DrawLine (x - 1) y (x - 1) y' \<and> y' < trunc (rf_y r)"
proof -
  have "trunc (rf_height r) \<le> trunc (rf_y r)"
  proof (cases "rf_height r < 0")
    case True
    then have "\<lceil>rf_height r\<rceil> \<le> 0" "0 \<le> \<lfloor>rf_y r\<rfloor>" using assms(1) by (simp_all add: ceiling_le_iff)
    then have "\<lceil>rf_height r\<rceil> \<le> \<lfloor>rf_y r\<rfloor>" by (rule order_trans)
    then show ?thesis using True assms(1) by (simp add: trunc_def)
  next
    case False
    then show ?thesis using assms(1) floor_mono [OF assms(2)] by (simp add: trunc_def)
  qed
  then show ?thesis using assms(3) by (auto simp: column_line_def min_def)
qed

end
