(* ===== verification/DateBar.thy ===== *)
theory DateBar
  imports Painting WidgetSafety
begin

text \<open>
  The date bar of the planning widget, \<open>gui/planningwidget/datebarwidget\<close>: an item per day, per month and per highlighted
  period, rebuilt whenever the layout, the selection or the highlighted periods change.  \<open>C\<close> is the part of
  Boost.Date_Time that knows months and weekdays.
\<close>

section \<open>Items\<close>

record 'd day_item =
  di_date :: 'd
  di_isPivot :: bool
  di_isToday :: bool
  di_rect :: rect

record month_item =
  mi_month :: int
  mi_year :: int
  mi_rect :: rect

record 'd date_bar =
  db_days :: "'d day_item list"
  db_periods :: "rect list"
  db_months :: "month_item list"

definition day_item_paint :: "qt \<Rightarrow> 'd civil \<Rightarrow> appearance \<Rightarrow> 'd day_item \<Rightarrow> paint_call list res" where
  "day_item_paint Q C A item =
     (let itemRect = to_rectF (di_rect item);
          dayOfWeek = cv_day_of_week C (di_date item);
          backgroundColor =
            (if di_isPivot item \<and> di_isToday item then boardPivotTodayColor A
             else if di_isPivot item \<and> \<not> di_isToday item then boardPivotColor A
             else if dayOfWeek = 0 \<or> dayOfWeek = 6 then boardOddRowColor A else boardEvenRowColor A);
          borderColor = (if di_isPivot item then q_darker Q (boardPivotTodayColor A) 200 else boardWeekdayColumnColor A);
          textColor = (if di_isPivot item then atomLightTextColor A else atomDarkTextColor A);
          box = adjusted (-1/2) (1/2) (-1/2) (-1/2) itemRect
      in bindr (getShortWeekdayName dayOfWeek) (\<lambda>name. Inr
           [Save, SetPen (boardWeekdayColumnColor A), SetPen borderColor, FillRect box backgroundColor, DrawRect box,
            SetClipRect itemRect, SetPen textColor, SetFont (if di_isToday item then boldHeaderFont A else headerFont A),
            DrawText (adjusted 0 5 0 0 itemRect) [AlignHCenter, AlignTop] (q_arg Q ''%1'' name),
            DrawText (adjusted 0 0 0 (-5) itemRect) [AlignHCenter, AlignBottom]
              (q_arg Q ''%1'' (to_string (cv_day C (di_date item)))),
            Restore]))"

definition period_item_paint :: "appearance \<Rightarrow> rect \<Rightarrow> paint_call list" where
  "period_item_paint A r =
     [Save, FillRect (adjusted 1 (of_int (rect_height r) - 5) 0 0 (to_rectF r)) (selectionColor A), Restore]"

definition month_item_paint :: "qt \<Rightarrow> appearance \<Rightarrow> month_item \<Rightarrow> paint_call list res" where
  "month_item_paint Q A item =
     (let itemRect = to_rectF (mi_rect item);
          color = (if mi_month item mod 2 = 0 then boardEvenRowColor A else boardOddRowColor A)
      in bindr (getMonthName (mi_month item)) (\<lambda>name. Inr
           [Save, SetClipRect itemRect, FillRect itemRect color, SetPen (atomDarkTextColor A), SetFont (boldHeaderFont A),
            DrawText (adjusted 5 0 0 0 itemRect) [AlignVCenter]
              (q_arg Q (q_arg Q ''%1 - %2'' name) (to_string (mi_year item))),
            Restore]))"

section \<open>The scene\<close>

text \<open>The loops advance by the width of a column or a month, and run on when that is not positive.\<close>

definition mk_day_item :: "appearance \<Rightarrow> ('d, 'p) board_layout \<Rightarrow> 'd \<Rightarrow> int \<Rightarrow> 'd \<Rightarrow> 'd day_item" where
  "mk_day_item A l today x date =
     \<lparr>di_date = date, di_isPivot = (date = bl_pivotDate l), di_isToday = (date = today),
      di_rect = mk_rect (x - 1) (monthBarHeight A) (bl_dateColumnWidth l + 1) (daysBarHeight A)\<rparr>"

partial_function (option) day_items ::
    "('d::linorder, 'p) gregorian \<Rightarrow> appearance \<Rightarrow> ('d, 'p) board_layout \<Rightarrow> 'd \<Rightarrow> int \<Rightarrow> int \<Rightarrow> 'd \<Rightarrow> 'd day_item list option" where
  "day_items G A l today right x date =
     (if x < right
      then Option.bind (day_items G A l today right (x + bl_dateColumnWidth l) (add_days G date 1)) (\<lambda>rest.
             Some (mk_day_item A l today x date # rest))
      else Some [])"

definition period_item_rect ::
    "('d::linorder, 'p) gregorian \<Rightarrow> appearance \<Rightarrow> ('d, 'p) board_layout \<Rightarrow> 'p \<Rightarrow> rect" where
  "period_item_rect G A l period =
     (let colWidth = bl_dateColumnWidth l;
          x = getDatePositionX G (p_begin G period) l - colWidth div 2 - 1;
          w = (days_between G (p_end G period) (p_begin G period) + 1) * colWidth
      in mk_rect (x + colWidth div 2) (monthBarHeight A) (w - colWidth) (daysBarHeight A))"

partial_function (option) month_items ::
    "('d::linorder, 'p) gregorian \<Rightarrow> 'd civil \<Rightarrow> appearance \<Rightarrow> int \<Rightarrow> int \<Rightarrow> int \<Rightarrow> 'd \<Rightarrow> month_item list option" where
  "month_items G C A colWidth right i date =
     (if i < right
      then (let nextMonth = add_months C date 1; monthWidth = days_between G nextMonth date * colWidth
            in Option.bind (month_items G C A colWidth right (i + monthWidth) nextMonth) (\<lambda>rest.
                 Some (\<lparr>mi_month = cv_month C date, mi_year = cv_year C date,
                        mi_rect = mk_rect i 0 monthWidth (monthBarHeight A)\<rparr> # rest)))
      else Some [])"

text \<open>\<open>None\<close> is a loop that does not end; \<open>H\<close> are the live reservations, which the pointers of the selection are followed to.\<close>

definition rebuildScene ::
    "('d::linorder, 'p) gregorian \<Rightarrow> 'd civil \<Rightarrow> appearance \<Rightarrow> 'd \<Rightarrow> 'p objects \<Rightarrow> addr list \<Rightarrow> ('d, 'p) board_layout
       \<Rightarrow> 'd date_bar res option" where
  "rebuildScene G C A today H selected l =
     (let left = rect_x (bl_sceneRect l);
          right = rect_x (bl_sceneRect l) + rect_width (bl_sceneRect l);
          colWidth = bl_dateColumnWidth l;
          (date, position) = getNearestDatePosition G (left - colWidth) l;
          positionX = position - (colWidth div 2 - 1)
      in Option.bind (day_items G A l today right positionX date) (\<lambda>days.
           case map_res (\<lambda>a. case map_of H a of None \<Rightarrow> Inl UndefinedBehaviour | Some r \<Rightarrow> Inr (dateRange G r)) selected of
             Inl e \<Rightarrow> Some (Inl e)
           | Inr ranges \<Rightarrow>
               Option.bind (month_items G C A colWidth right (positionX - (cv_day C date - 1) * colWidth)
                   (cv_date C (cv_year C date) (cv_month C date) 1)) (\<lambda>months.
                 Some (Inr \<lparr>db_days = days, db_periods = map (period_item_rect G A l) (bl_highlightedPeriods l @ ranges),
                            db_months = months\<rparr>))))"

text \<open>
  A press of the mouse on the days: the pivot is drawn above the other days, and later ones above earlier ones.  The
  items of highlighted periods are on top of all, but ignore the mouse, as Qt's items do by default.
\<close>

definition pressed_day :: "int \<Rightarrow> 'd date_bar \<Rightarrow> 'd option" where
  "pressed_day x s =
     (let hits = filter (\<lambda>item. rect_x (di_rect item) \<le> x \<and> x < rect_x (di_rect item) + rect_width (di_rect item)) (db_days s);
          pivots = filter di_isPivot hits
      in if pivots \<noteq> [] then Some (di_date (last pivots)) else if hits \<noteq> [] then Some (di_date (last hits)) else None)"

definition datebar_height :: "appearance \<Rightarrow> int" where
  "datebar_height A = monthBarHeight A + daysBarHeight A"

definition datebar_sceneRect :: "appearance \<Rightarrow> ('d, 'p) board_layout \<Rightarrow> rect" where
  "datebar_sceneRect A l = (bl_sceneRect l)\<lparr>rect_height := datebar_height A\<rparr>"

text \<open>The bar of a planning widget.\<close>

definition datebar_of ::
    "('d::linorder, 'p) gregorian \<Rightarrow> 'd civil \<Rightarrow> appearance \<Rightarrow> 'd \<Rightarrow> ('d, 'p) planning_widget \<Rightarrow> 'd date_bar res option" where
  "datebar_of G C A today w =
     rebuildScene G C A today (pb_reservations (board_of w)) (ctx_selected (pw_context w)) (ctx_layout (pw_context w))"

section \<open>Calendars\<close>

text \<open>
  Months have 28 to 31 days, numbered from 1, on which month and year stay the same; a month later than the first of a month is the
  first of the next; and days of the week follow one another.
\<close>

definition month_at :: "('d::linorder, 'p) gregorian \<Rightarrow> 'd civil \<Rightarrow> 'd \<Rightarrow> int \<Rightarrow> bool" where
  "month_at G C d n \<longleftrightarrow> 28 \<le> n \<and> n \<le> 31
     \<and> (\<not> is_special G (add_days G d n) \<longrightarrow> add_months C d 1 = add_days G d n \<and> cv_day C (add_days G d n) = 1)
     \<and> (\<forall>k. 0 \<le> k \<and> k < n \<and> \<not> is_special G (add_days G d k) \<longrightarrow> cv_day C (add_days G d k) = k + 1
          \<and> cv_month C (add_days G d k) = cv_month C d \<and> cv_year C (add_days G d k) = cv_year C d)"

definition civil_ok :: "('d::linorder, 'p) gregorian \<Rightarrow> 'd civil \<Rightarrow> bool" where
  "civil_ok G C \<longleftrightarrow>
     (\<forall>d. \<not> is_special G d \<longrightarrow> 1 \<le> cv_day C d \<and> cv_day C d \<le> 31) \<and>
     (\<forall>d. \<not> is_special G d \<longrightarrow> \<not> is_special G (add_days G d (1 - cv_day C d)) \<longrightarrow>
        cv_date C (cv_year C d) (cv_month C d) 1 = add_days G d (1 - cv_day C d)
        \<and> cv_day C (add_days G d (1 - cv_day C d)) = 1) \<and>
     (\<forall>d. \<not> is_special G d \<longrightarrow> cv_day C d = 1 \<longrightarrow> (\<exists>n. month_at G C d n)) \<and>
     (\<forall>d. \<not> is_special G d \<longrightarrow> \<not> is_special G (add_days G d 1) \<longrightarrow>
        cv_day_of_week C (add_days G d 1) = (cv_day_of_week C d + 1) mod 7)"

text \<open>An instance, for the day counter: all months have thirty days.\<close>

definition thirty :: "int civil" where
  "thirty =
     \<lparr>cv_day = (\<lambda>d. d mod 30 + 1), cv_month = (\<lambda>d. d div 30 mod 12 + 1), cv_year = (\<lambda>d. d div 30 div 12),
      cv_day_of_week = (\<lambda>d. d mod 7), cv_date = (\<lambda>y m d. 30 * (12 * y + m - 1) + d - 1), add_months = (\<lambda>d n. d + 30 * n)\<rparr>"

lemma thirty_month: "d mod 30 = 0 \<Longrightarrow> month_at day_calendar thirty d 30"
proof -
  assume d: "(d :: int) mod 30 = 0"
  then obtain m where m: "d = 30 * m" by auto
  have "(30 * m + k) mod 30 = k" "(30 * m + k) div 30 = m" if "0 \<le> k" "k < 30" for k using that by simp_all
  then show ?thesis by (auto simp: month_at_def thirty_def m)
qed

lemma thirty_ok: "civil_ok day_calendar thirty"
proof -
  have "\<exists>n. month_at day_calendar thirty d n" if "cv_day thirty d = 1" for d
    using thirty_month [of d] that by (auto simp: thirty_def)
  moreover have "cv_date thirty (cv_year thirty d) (cv_month thirty d) 1 = d + (1 - cv_day thirty d)" for d
  proof -
    have "12 * (d div 30 div 12) + d div 30 mod 12 = d div 30" by (rule mult_div_mod_eq)
    moreover have "30 * (d div 30) = d - d mod 30" by (simp add: minus_mod_eq_mult_div)
    moreover have "12 * a + b = q \<Longrightarrow> 30 * q = d - m \<Longrightarrow> 30 * (12 * a + (b + 1) - 1) + 1 - 1 = d + (1 - (m + 1))" for a b q m :: int
      by (hypsubst, simp add: algebra_simps)
    ultimately show ?thesis unfolding thirty_def civil.simps by blast
  qed
  moreover have "(d - d mod 30) mod 30 = 0" for d :: int by (simp add: minus_mod_eq_mult_div)
  then have "cv_day thirty (d + (1 - cv_day thirty d)) = 1" for d by (simp add: thirty_def)
  moreover have "1 \<le> cv_day thirty d \<and> cv_day thirty d \<le> 31" for d
  proof -
    have "0 \<le> d mod 30" "d mod 30 < 30" by simp_all
    then show ?thesis by (simp add: thirty_def)
  qed
  moreover have "cv_day_of_week thirty (d + 1) = (cv_day_of_week thirty d + 1) mod 7" for d by (simp add: thirty_def mod_simps)
  ultimately show ?thesis unfolding civil_ok_def by simp
qed

section \<open>Columns\<close>

text \<open>The date of a column, the position of its item, and the column of the date nearest to a position.\<close>

definition column_date :: "('d::linorder, 'p) gregorian \<Rightarrow> ('d, 'p) board_layout \<Rightarrow> int \<Rightarrow> 'd" where
  "column_date G l k = add_days G (bl_originDate l) k"

definition column_x :: "('d, 'p) board_layout \<Rightarrow> int \<Rightarrow> int" where
  "column_x l k = k * bl_dateColumnWidth l - (bl_dateColumnWidth l div 2 - 1)"

definition nearest_column :: "('d, 'p) board_layout \<Rightarrow> int \<Rightarrow> int" where
  "nearest_column l x = (2 * x + bl_dateColumnWidth l) div (2 * bl_dateColumnWidth l)"

lemma nearest_column_date: "fst (getNearestDatePosition G x l) = column_date G l (nearest_column l x)"
  and nearest_column_x: "snd (getNearestDatePosition G x l) - (bl_dateColumnWidth l div 2 - 1) = column_x l (nearest_column l x)"
  by (simp_all add: getNearestDatePosition_def column_date_def column_x_def nearest_column_def Let_def)

lemma column_x_add: "column_x l (k + n) = column_x l k + n * bl_dateColumnWidth l"
  by (simp add: column_x_def distrib_right)

lemma column_x_le: "0 < bl_dateColumnWidth l \<Longrightarrow> column_x l j \<le> column_x l k \<longleftrightarrow> j \<le> k"
  by (simp add: column_x_def)

lemma div_eq_iff_between: "0 < (m :: int) \<Longrightarrow> n div m = k \<longleftrightarrow> k * m \<le> n \<and> n < k * m + m"
proof
  assume m: "0 < m" and "n div m = k"
  then have "k * m + n mod m = n" by (metis div_mult_mod_eq)
  then show "k * m \<le> n \<and> n < k * m + m" using pos_mod_sign [OF m, of n] pos_mod_bound [OF m, of n] by linarith
next
  assume m: "0 < m" and n: "k * m \<le> n \<and> n < k * m + m"
  then have "(n - k * m) div m = 0" by (simp add: div_pos_pos_trivial)
  moreover have "((n - k * m) + k * m) div m = k + (n - k * m) div m" using m by (subst div_mult_self1) simp_all
  ultimately show "n div m = k" by simp
qed

text \<open>The columns of the date nearest to a position are those whose item has it.\<close>

lemma half_columns: "2 * (p :: int) \<le> 2 * x + w \<and> 2 * x + w < 2 * p + 2 * w \<longleftrightarrow> p - w div 2 \<le> x \<and> x < p - w div 2 + w"
proof -
  obtain h r where w: "w = 2 * h + r" "r = 0 \<or> r = 1" by (metis mult_div_mod_eq not_mod_2_eq_1_eq_0)
  then have "w div 2 = h" by auto
  then show ?thesis using w by auto
qed

lemma nearest_column_iff:
  assumes "0 < bl_dateColumnWidth l"
  shows "nearest_column l x = k \<longleftrightarrow> column_x l k - 1 \<le> x \<and> x < column_x l k - 1 + bl_dateColumnWidth l"
proof -
  let ?w = "bl_dateColumnWidth l"
  have "nearest_column l x = k \<longleftrightarrow> k * (2 * ?w) \<le> 2 * x + ?w \<and> 2 * x + ?w < k * (2 * ?w) + 2 * ?w"
    unfolding nearest_column_def by (rule div_eq_iff_between) (use assms in simp)
  also have "\<dots> \<longleftrightarrow> k * ?w - ?w div 2 \<le> x \<and> x < k * ?w - ?w div 2 + ?w"
  proof -
    have "k * (2 * ?w) = 2 * (k * ?w)" by simp
    then show ?thesis using half_columns [of "k * ?w" x ?w] by (simp only:)
  qed
  finally show ?thesis by (simp add: column_x_def)
qed

section \<open>The loops end\<close>

text \<open>The bar reaches only ordinary dates, with some room at both ends.\<close>

definition bar_dates :: "('d::linorder, 'p) gregorian \<Rightarrow> ('d, 'p) board_layout \<Rightarrow> bool" where
  "bar_dates G l \<longleftrightarrow> 0 < bl_dateColumnWidth l \<and> 0 \<le> rect_width (bl_sceneRect l) \<and> \<not> is_special G (bl_originDate l)
     \<and> (\<forall>k. rect_x (bl_sceneRect l) - 40 * bl_dateColumnWidth l \<le> column_x l k
          \<and> column_x l k \<le> rect_x (bl_sceneRect l) + rect_width (bl_sceneRect l) + 40 * bl_dateColumnWidth l
          \<longrightarrow> \<not> is_special G (column_date G l k))"

lemma bar_ordinary:
  "bar_dates G l \<Longrightarrow> rect_x (bl_sceneRect l) - 40 * bl_dateColumnWidth l \<le> column_x l k \<Longrightarrow>
     column_x l k \<le> rect_x (bl_sceneRect l) + rect_width (bl_sceneRect l) + 40 * bl_dateColumnWidth l \<Longrightarrow>
     \<not> is_special G (column_date G l k)"
  by (simp add: bar_dates_def)

lemma column_date_add:
  assumes "gregorian_ok G" and "\<not> is_special G (bl_originDate l)"
    and "\<not> is_special G (column_date G l k)" and "\<not> is_special G (column_date G l (k + n))"
  shows "add_days G (column_date G l k) n = column_date G l (k + n)"
proof -
  have d: "days_between G (column_date G l j) (bl_originDate l) = j" if "\<not> is_special G (column_date G l j)" for j
    using g_days_of_add [OF assms(1,2), of j] that by (simp add: column_date_def)
  have "days_between G (column_date G l (k + n)) (bl_originDate l)
      = days_between G (column_date G l (k + n)) (column_date G l k) + days_between G (column_date G l k) (bl_originDate l)"
    by (rule g_days_add [OF assms(1,4,3,2)])
  then have "days_between G (column_date G l (k + n)) (column_date G l k) = n" using d [OF assms(3)] d [OF assms(4)] by simp
  then show ?thesis using g_add_days_between [OF assms(1,3,4)] by simp
qed

lemma day_items_columns:
  assumes "gregorian_ok G" and "bar_dates G l" and "right = rect_x (bl_sceneRect l) + rect_width (bl_sceneRect l)"
    and "rect_x (bl_sceneRect l) - 40 * bl_dateColumnWidth l \<le> column_x l k"
  shows "\<exists>m. day_items G A l today right (column_x l k) (column_date G l k)
      = Some (map (\<lambda>j. mk_day_item A l today (column_x l j) (column_date G l j)) [k..m])
    \<and> k - 1 \<le> m \<and> (\<forall>j \<ge> k. j \<le> m \<longleftrightarrow> column_x l j < right)"
  using assms(4)
proof (induction "nat (right - column_x l k)" arbitrary: k rule: less_induct)
  case less
  let ?w = "bl_dateColumnWidth l"
  have w: "0 < ?w" and origin: "\<not> is_special G (bl_originDate l)" using assms(2) by (simp_all add: bar_dates_def)
  show ?case
  proof (cases "column_x l k < right")
    case False
    have "right \<le> column_x l j" if "k \<le> j" for j using False that column_x_le [OF w, of k j] by linarith
    moreover have "day_items G A l today right (column_x l k) (column_date G l k) = Some []"
      using False by (subst day_items.simps) simp
    ultimately show ?thesis by (intro exI [of _ "k - 1"]) (simp add: not_less)
  next
    case True
    have next_x: "column_x l (k + 1) = column_x l k + ?w" using column_x_add [of l k 1] by simp
    have "\<not> is_special G (column_date G l k)" "\<not> is_special G (column_date G l (k + 1))"
      by (rule bar_ordinary [OF assms(2)]; use assms(3) less.prems True next_x w in linarith)+
    then have d: "add_days G (column_date G l k) 1 = column_date G l (k + 1)" by (rule column_date_add [OF assms(1) origin])
    have "nat (right - column_x l (k + 1)) < nat (right - column_x l k)" using True next_x w by simp
    moreover have "rect_x (bl_sceneRect l) - 40 * ?w \<le> column_x l (k + 1)" using less.prems next_x w by simp
    ultimately obtain m where m: "day_items G A l today right (column_x l (k + 1)) (column_date G l (k + 1))
          = Some (map (\<lambda>j. mk_day_item A l today (column_x l j) (column_date G l j)) [k + 1..m])"
        "k \<le> m" "\<forall>j \<ge> k + 1. j \<le> m \<longleftrightarrow> column_x l j < right" using less.hyps by force
    have "\<forall>j \<ge> k. j \<le> m \<longleftrightarrow> column_x l j < right" using m(2,3) True by (metis add1_zle_eq add_le_cancel_right diff_add_cancel order_le_less)
    moreover have "day_items G A l today right (column_x l k) (column_date G l k)
        = Some (map (\<lambda>j. mk_day_item A l today (column_x l j) (column_date G l j)) [k..m])"
      using True m(1,2) d next_x by (subst day_items.simps) (simp add: upto_rec1)
    moreover have "k - 1 \<le> m" using m(2) by simp
    ultimately show ?thesis by blast
  qed
qed

text \<open>The months above a position.\<close>

definition months_over :: "int \<Rightarrow> month_item list \<Rightarrow> month_item list" where
  "months_over x ms = filter (\<lambda>it. rect_x (mi_rect it) \<le> x \<and> x < rect_x (mi_rect it) + rect_width (mi_rect it)) ms"

definition month_fits :: "('d::linorder, 'p) gregorian \<Rightarrow> 'd civil \<Rightarrow> ('d, 'p) board_layout \<Rightarrow> month_item list \<Rightarrow> int \<Rightarrow> bool" where
  "month_fits G C l ms j \<longleftrightarrow> (\<exists>it. months_over (column_x l j) ms = [it]
     \<and> mi_month it = cv_month C (column_date G l j) \<and> mi_year it = cv_year C (column_date G l j)
     \<and> column_x l j = rect_x (mi_rect it) + (cv_day C (column_date G l j) - 1) * bl_dateColumnWidth l
     \<and> column_x l j + bl_dateColumnWidth l \<le> rect_x (mi_rect it) + rect_width (mi_rect it))"

lemma month_fits_first:
  assumes "gregorian_ok G" and "bar_dates G l" and "month_at G C (column_date G l k) n" and "k \<le> j" and "j < k + n"
    and "\<not> is_special G (column_date G l k)" and "\<not> is_special G (column_date G l j)"
    and "\<forall>it \<in> set ms. column_x l (k + n) \<le> rect_x (mi_rect it)"
  shows "month_fits G C l (\<lparr>mi_month = cv_month C (column_date G l k), mi_year = cv_year C (column_date G l k),
    mi_rect = mk_rect (column_x l k) 0 (n * bl_dateColumnWidth l) (monthBarHeight A)\<rparr> # ms) j"
proof -
  let ?w = "bl_dateColumnWidth l"
  have w: "0 < ?w" and origin: "\<not> is_special G (bl_originDate l)" using assms(2) by (simp_all add: bar_dates_def)
  have d: "add_days G (column_date G l k) (j - k) = column_date G l j"
    using column_date_add [OF assms(1) origin assms(6), of "j - k"] assms(7) by simp
  have x: "column_x l j = column_x l k + (j - k) * ?w" using column_x_add [of l k "j - k"] by simp
  have "(j - k) * ?w + ?w \<le> n * ?w" using assms(5) w mult_right_mono [of "j - k + 1" n ?w] by (simp add: distrib_right)
  moreover have "0 \<le> (j - k) * ?w" using assms(4) w by simp
  moreover have "column_x l j < column_x l (k + n)" using column_x_le [OF w, of "k + n" j] assms(5) by linarith
  then have "months_over (column_x l j) ms = []" using assms(8) unfolding months_over_def by (fastforce simp: filter_empty_conv)
  moreover have "cv_day C (column_date G l j) = j - k + 1" "cv_month C (column_date G l j) = cv_month C (column_date G l k)"
      "cv_year C (column_date G l j) = cv_year C (column_date G l k)"
    using assms(3,4,5,7) d unfolding month_at_def by (metis add.commute diff_ge_0_iff_ge diff_less_eq)+
  ultimately show ?thesis using x w assms(5) by (simp add: month_fits_def months_over_def mk_rect_def)
qed

lemma month_fits_later:
  assumes "0 < bl_dateColumnWidth l" and "k + n \<le> j" and "month_fits G C l ms j"
  shows "month_fits G C l (\<lparr>mi_month = m, mi_year = y,
    mi_rect = mk_rect (column_x l k) 0 (n * bl_dateColumnWidth l) h\<rparr> # ms) j"
  using assms(3) column_x_le [OF assms(1), of "k + n" j] assms(2)
  by (auto simp: month_fits_def months_over_def mk_rect_def column_x_add)

lemma month_items_fit:
  assumes "gregorian_ok G" and "civil_ok G C" and "bar_dates G l" and "right = rect_x (bl_sceneRect l) + rect_width (bl_sceneRect l)"
    and "rect_x (bl_sceneRect l) - 40 * bl_dateColumnWidth l \<le> column_x l k" and "cv_day C (column_date G l k) = 1"
    and "column_x l k \<le> right + 40 * bl_dateColumnWidth l"
  shows "\<exists>ms. month_items G C A (bl_dateColumnWidth l) right (column_x l k) (column_date G l k) = Some ms
    \<and> (\<forall>it \<in> set ms. column_x l k \<le> rect_x (mi_rect it)) \<and> (\<forall>j \<ge> k. column_x l j < right \<longrightarrow> month_fits G C l ms j)"
  using assms(5-7)
proof (induction "nat (right - column_x l k)" arbitrary: k rule: less_induct)
  case less
  let ?w = "bl_dateColumnWidth l"
  have w: "0 < ?w" and origin: "\<not> is_special G (bl_originDate l)" using assms(3) by (simp_all add: bar_dates_def)
  show ?case
  proof (cases "column_x l k < right")
    case False
    then have "month_items G C A ?w right (column_x l k) (column_date G l k) = Some []" by (subst month_items.simps) simp
    moreover have "\<not> column_x l j < right" if "k \<le> j" for j using False that column_x_le [OF w, of k j] by linarith
    ultimately show ?thesis by simp
  next
    case True
    have k: "\<not> is_special G (column_date G l k)"
      by (rule bar_ordinary [OF assms(3)]; use assms(4) less.prems True w in linarith)
    then obtain n where n: "month_at G C (column_date G l k) n" using assms(2) less.prems(2) unfolding civil_ok_def by blast
    then have n31: "28 \<le> n" "n \<le> 31" by (simp_all add: month_at_def)
    have x: "column_x l (k + n) = column_x l k + n * ?w" by (rule column_x_add)
    have nw: "28 * ?w \<le> n * ?w" "n * ?w \<le> 31 * ?w" using n31 w by simp_all
    have kn: "\<not> is_special G (column_date G l (k + n))"
      by (rule bar_ordinary [OF assms(3)]; use assms(4) less.prems True w x nw in linarith)
    have d: "add_days G (column_date G l k) n = column_date G l (k + n)" by (rule column_date_add [OF assms(1) origin k kn])
    have next_month: "add_months C (column_date G l k) 1 = column_date G l (k + n)" "cv_day C (column_date G l (k + n)) = 1"
      using n kn d by (simp_all add: month_at_def)
    have between: "days_between G (column_date G l (k + n)) (column_date G l k) = n" using g_days_of_add [OF assms(1) k, of n] kn d by simp
    have "nat (right - column_x l (k + n)) < nat (right - column_x l k)" using True x nw w by simp
    moreover have "rect_x (bl_sceneRect l) - 40 * ?w \<le> column_x l (k + n)" "column_x l (k + n) \<le> right + 40 * ?w"
      using less.prems(1) True x nw w by linarith+
    ultimately obtain ms where ms: "month_items G C A ?w right (column_x l (k + n)) (column_date G l (k + n)) = Some ms"
        "\<forall>it \<in> set ms. column_x l (k + n) \<le> rect_x (mi_rect it)" "\<forall>j \<ge> k + n. column_x l j < right \<longrightarrow> month_fits G C l ms j"
      using less.hyps next_month(2) by blast
    let ?it = "\<lparr>mi_month = cv_month C (column_date G l k), mi_year = cv_year C (column_date G l k),
        mi_rect = mk_rect (column_x l k) 0 (n * ?w) (monthBarHeight A)\<rparr>"
    have "month_items G C A ?w right (column_x l k) (column_date G l k) = Some (?it # ms)"
      using True ms(1) next_month(1) between x by (subst month_items.simps) (simp add: Let_def)
    moreover have le: "column_x l k \<le> column_x l (k + n)" using x nw w by linarith
    have "\<forall>it \<in> set (?it # ms). column_x l k \<le> rect_x (mi_rect it)"
      using ms(2) by (auto simp: mk_rect_def intro: order_trans [OF le])
    moreover have "month_fits G C l (?it # ms) j" if j: "k \<le> j" "column_x l j < right" for j
    proof (cases "j < k + n")
      case True
      have "\<not> is_special G (column_date G l j)"
        by (rule bar_ordinary [OF assms(3)]; use assms(4) less.prems(1) j w column_x_le [OF w, of k j] in linarith)
      then show ?thesis by (rule month_fits_first [OF assms(1,3) n j(1) True k _ ms(2)])
    next
      case False
      then show ?thesis using month_fits_later [OF w, of k n j] ms(3) j(2) by simp
    qed
    ultimately show ?thesis by blast
  qed
qed

lemma rebuildScene_ok:
  assumes "gregorian_ok G" and "civil_ok G C" and "bar_dates G l" and "\<forall>a \<in> set selected. map_of H a \<noteq> None"
    and "k = nearest_column l (rect_x (bl_sceneRect l) - bl_dateColumnWidth l)"
  shows "\<exists>s m. rebuildScene G C A today H selected l = Some (Inr s)
    \<and> db_days s = map (\<lambda>j. mk_day_item A l today (column_x l j) (column_date G l j)) [k..m]
    \<and> (\<forall>j \<ge> k. j \<le> m \<longleftrightarrow> column_x l j < rect_x (bl_sceneRect l) + rect_width (bl_sceneRect l))
    \<and> db_periods s = map (period_item_rect G A l) (bl_highlightedPeriods l @ map (\<lambda>a. dateRange G (the (map_of H a))) selected)
    \<and> (\<forall>j \<in> {k..m}. month_fits G C l (db_months s) j)"
proof -
  let ?w = "bl_dateColumnWidth l" and ?left = "rect_x (bl_sceneRect l)" and ?d = "cv_day C (column_date G l k)"
  define right where "right = ?left + rect_width (bl_sceneRect l)"
  have w: "0 < ?w" "0 \<le> rect_width (bl_sceneRect l)" and origin: "\<not> is_special G (bl_originDate l)"
    using assms(3) by (simp_all add: bar_dates_def)
  have kx: "column_x l k - 1 \<le> ?left - ?w" "?left - ?w < column_x l k - 1 + ?w"
    using nearest_column_iff [OF w(1), of "?left - ?w" k] assms(5) by simp_all
  then have x: "?left - 2 * ?w < column_x l k" "column_x l k \<le> ?left" using w by linarith+
  have k: "\<not> is_special G (column_date G l k)"
    by (rule bar_ordinary [OF assms(3)]; use x w in linarith)
  have d: "1 \<le> ?d" "?d \<le> 31" using assms(2) k by (simp_all add: civil_ok_def)
  have x1: "column_x l (k + (1 - ?d)) = column_x l k - (?d - 1) * ?w" using column_x_add [of l k "1 - ?d"] by (simp add: algebra_simps)
  have dw: "0 \<le> (?d - 1) * ?w" "(?d - 1) * ?w \<le> 30 * ?w" using d w(1) by simp_all
  have k1: "\<not> is_special G (column_date G l (k + (1 - ?d)))"
    by (rule bar_ordinary [OF assms(3)]; use x x1 dw w in linarith)
  have d1: "add_days G (column_date G l k) (1 - ?d) = column_date G l (k + (1 - ?d))" by (rule column_date_add [OF assms(1) origin k k1])
  have first: "cv_date C (cv_year C (column_date G l k)) (cv_month C (column_date G l k)) 1 = column_date G l (k + (1 - ?d))"
      "cv_day C (column_date G l (k + (1 - ?d))) = 1"
    using assms(2) k k1 unfolding civil_ok_def d1 [symmetric] by blast+
  obtain m where m: "day_items G A l today right (column_x l k) (column_date G l k)
        = Some (map (\<lambda>j. mk_day_item A l today (column_x l j) (column_date G l j)) [k..m])"
      "\<forall>j \<ge> k. j \<le> m \<longleftrightarrow> column_x l j < right"
    using day_items_columns [OF assms(1,3) right_def, of k A today] x w by force
  obtain ms where ms: "month_items G C A ?w right (column_x l (k + (1 - ?d))) (column_date G l (k + (1 - ?d))) = Some ms"
      "\<forall>j \<ge> k + (1 - ?d). column_x l j < right \<longrightarrow> month_fits G C l ms j"
    using month_items_fit [OF assms(1,2,3) right_def _ first(2), of A] x x1 dw w unfolding right_def by force
  have "map_res (\<lambda>a. case map_of H a of None \<Rightarrow> Inl UndefinedBehaviour | Some r \<Rightarrow> Inr (dateRange G r)) selected
      = Inr (map (\<lambda>a. dateRange G (the (map_of H a))) selected)"
    by (rule map_res_Inr) (use assms(4) in auto)
  moreover obtain p where p: "getNearestDatePosition G (?left - ?w) l = (column_date G l k, p)" "p - (?w div 2 - 1) = column_x l k"
    using nearest_column_date [of G "?left - ?w" l] nearest_column_x [of G "?left - ?w" l] assms(5) by (metis prod.collapse)
  ultimately have "rebuildScene G C A today H selected l = Some (Inr \<lparr>db_days = map (\<lambda>j. mk_day_item A l today (column_x l j) (column_date G l j)) [k..m],
      db_periods = map (period_item_rect G A l) (bl_highlightedPeriods l @ map (\<lambda>a. dateRange G (the (map_of H a))) selected), db_months = ms\<rparr>)"
    using m(1) ms(1) first(1) x1 by (simp add: rebuildScene_def Let_def right_def p)
  moreover have "month_fits G C l ms j" if "j \<in> {k..m}" for j
  proof -
    have "k + (1 - ?d) \<le> j" "column_x l j < right" using m(2) that d by auto
    then show ?thesis using ms(2) by blast
  qed
  ultimately show ?thesis using m(2) unfolding right_def by auto
qed

text \<open>Pressing a position inside the scene hits the item of the nearest date, or the pivot's that overlaps it by a pixel.\<close>

lemma mk_day_item_simps [simp]:
  "di_date (mk_day_item A l today x d) = d" "di_isPivot (mk_day_item A l today x d) \<longleftrightarrow> d = bl_pivotDate l"
  "rect_x (di_rect (mk_day_item A l today x d)) = x - 1"
  by (simp_all add: mk_day_item_def mk_rect_def)

lemma filter_upto: "k \<le> a \<Longrightarrow> b \<le> m \<Longrightarrow> filter (\<lambda>j. a \<le> j \<and> j \<le> b) [k..m] = [a..(b :: int)]"
  by (rule sorted_distinct_set_unique) (auto simp: sorted_wrt_filter)

lemma pressed_day_nearest:
  assumes "0 < bl_dateColumnWidth l" and "db_days s = map (\<lambda>j. mk_day_item A l today (column_x l j) (column_date G l j)) [k..m]"
    and "k < nearest_column l x" and "nearest_column l x \<le> m"
  shows "pressed_day x s = Some (column_date G l (nearest_column l x))
    \<or> pressed_day x s = Some (bl_pivotDate l) \<and> bl_pivotDate l = column_date G l (nearest_column l (x - 1))"
proof -
  let ?w = "bl_dateColumnWidth l" and ?n = "nearest_column l x" and ?item = "\<lambda>j. mk_day_item A l today (column_x l j) (column_date G l j)"
  have n: "column_x l ?n - 1 \<le> x" "x < column_x l ?n - 1 + ?w" using nearest_column_iff [OF assms(1), of x ?n] by simp_all
  have x': "column_x l ?n = column_x l (?n - 1) + ?w" using column_x_add [of l "?n - 1" 1] by simp
  have hit: "rect_x (di_rect (?item j)) \<le> x \<and> x < rect_x (di_rect (?item j)) + rect_width (di_rect (?item j))
      \<longleftrightarrow> nearest_column l x = j \<or> nearest_column l (x - 1) = j" for j
    unfolding nearest_column_iff [OF assms(1)] using assms(1) by (auto simp: mk_day_item_def mk_rect_def)
  have "nearest_column l (x - 1) = ?n \<or> nearest_column l (x - 1) = ?n - 1"
    unfolding nearest_column_iff [OF assms(1)] using n x' by linarith
  then obtain i where i: "nearest_column l (x - 1) = i" "i = ?n \<or> i = ?n - 1" by blast
  have "filter (\<lambda>item. rect_x (di_rect item) \<le> x \<and> x < rect_x (di_rect item) + rect_width (di_rect item)) (db_days s)
      = map ?item (filter (\<lambda>j. i \<le> j \<and> j \<le> ?n) [k..m])"
    unfolding assms(2) filter_map o_def hit i(1) by (intro arg_cong [of _ _ "map ?item"] filter_cong refl) (use i(2) in auto)
  also have "k \<le> i" using i(2) assms(3) by linarith
  then have "map ?item (filter (\<lambda>j. i \<le> j \<and> j \<le> ?n) [k..m]) = map ?item [i..?n]" using filter_upto [of k i ?n m] assms(4) by simp
  finally have hits: "pressed_day x s = (let pivots = filter di_isPivot (map ?item [i..?n]) in
      if pivots \<noteq> [] then Some (di_date (last pivots)) else Some (di_date (last (map ?item [i..?n]))))"
    using i(2) by (auto simp: pressed_day_def Let_def)
  show ?thesis using i(2)
  proof
    assume "i = ?n"
    then have "[i..?n] = [?n]" by simp
    then show ?thesis using hits by (simp add: Let_def)
  next
    assume i': "i = ?n - 1"
    then have "[i..?n] = [i, ?n]" by (simp add: upto_rec1)
    then show ?thesis using hits i(1) by (auto simp: Let_def)
  qed
qed

section \<open>Columns of the board\<close>

text \<open>The background of the board is drawn with a line for each date, the broad ones at weekends.\<close>

lemma column_lines_dates:
  assumes "gregorian_ok G" and "civil_ok G C" and "0 < bl_dateColumnWidth l" and "\<not> is_special G (bl_originDate l)"
    and "\<forall>j \<ge> k. of_int (j * bl_dateColumnWidth l) < right + 2 * of_int (bl_dateColumnWidth l) \<longrightarrow> \<not> is_special G (column_date G l j)"
  shows "\<exists>m. column_lines (bl_dateColumnWidth l) right (k * bl_dateColumnWidth l) (cv_day_of_week C (column_date G l k))
      = Some (map (\<lambda>j. (j * bl_dateColumnWidth l, cv_day_of_week C (column_date G l j))) [k..m])
    \<and> k - 1 \<le> m \<and> (\<forall>j \<ge> k. j \<le> m \<longleftrightarrow> of_int (j * bl_dateColumnWidth l) < right + of_int (bl_dateColumnWidth l))"
  using assms(5)
proof (induction "nat (\<lceil>right\<rceil> + bl_dateColumnWidth l - k * bl_dateColumnWidth l)" arbitrary: k rule: less_induct)
  case less
  let ?w = "bl_dateColumnWidth l"
  show ?case
  proof (cases "of_int (k * ?w) < right + of_int ?w")
    case False
    have "right + of_int ?w \<le> of_int (j * ?w)" if "k \<le> j" for j
    proof -
      have "(of_int (k * ?w) :: rat) \<le> of_int (j * ?w)" using that assms(3) by simp
      then show ?thesis using False by linarith
    qed
    moreover have "column_lines ?w right (k * ?w) (cv_day_of_week C (column_date G l k)) = Some []"
      using False by (subst column_lines.simps) simp
    ultimately show ?thesis by (intro exI [of _ "k - 1"]) (auto simp: not_less)
  next
    case True
    have k1: "(k + 1) * ?w = k * ?w + ?w" by (simp add: distrib_right)
    have "(of_int ((k + 1) * ?w) :: rat) < right + 2 * of_int ?w" "(of_int (k * ?w) :: rat) < right + 2 * of_int ?w"
      using True assms(3) unfolding k1 by simp_all
    then have o: "\<not> is_special G (column_date G l k)" "\<not> is_special G (column_date G l (k + 1))" using less.prems by simp_all
    have "add_days G (column_date G l k) 1 = column_date G l (k + 1)" by (rule column_date_add [OF assms(1,4) o])
    then have d: "(cv_day_of_week C (column_date G l k) + 1) mod 7 = cv_day_of_week C (column_date G l (k + 1))"
      using assms(2) o unfolding civil_ok_def by metis
    have "k * ?w < \<lceil>right\<rceil> + ?w" using True by (simp add: less_ceiling_iff of_int_less_iff flip: diff_less_eq)
    then have "nat (\<lceil>right\<rceil> + ?w - (k + 1) * ?w) < nat (\<lceil>right\<rceil> + ?w - k * ?w)" using assms(3) k1 by simp
    moreover have "\<forall>j \<ge> k + 1. of_int (j * ?w) < right + 2 * of_int ?w \<longrightarrow> \<not> is_special G (column_date G l j)" using less.prems by simp
    ultimately obtain m where m: "column_lines ?w right ((k + 1) * ?w) (cv_day_of_week C (column_date G l (k + 1)))
          = Some (map (\<lambda>j. (j * ?w, cv_day_of_week C (column_date G l j))) [k + 1..m])" "k \<le> m"
        "\<forall>j \<ge> k + 1. j \<le> m \<longleftrightarrow> of_int (j * ?w) < right + of_int ?w" using less.hyps by force
    have "\<forall>j \<ge> k. j \<le> m \<longleftrightarrow> of_int (j * ?w) < right + of_int ?w" using m(2,3) True by (metis add1_zle_eq add_le_cancel_right diff_add_cancel order_le_less)
    moreover have "column_lines ?w right (k * ?w) (cv_day_of_week C (column_date G l k))
        = Some (map (\<lambda>j. (j * ?w, cv_day_of_week C (column_date G l j))) [k..m])"
      using True m(1,2) d k1 by (subst column_lines.simps) (simp add: upto_rec1)
    moreover have "k - 1 \<le> m" using m(2) by simp
    ultimately show ?thesis by blast
  qed
qed

section \<open>Properties\<close>

lemma set_pivot:
  assumes "widget_ok G w"
  shows "\<exists>w'. handle_event G today alloc (DateClicked d) w = Inr (w', []) \<and> bl_pivotDate (ctx_layout (pw_context w')) = d"
proof -
  have "widget_ok G (on_context (context_setPivotDate d) w)"
    by (rule widget_ok_context [OF assms]; use assms in \<open>simp add: widget_ok_def context_setPivotDate_def setPivotDate_def\<close>)
  then have "updateLayout (on_context (context_setPivotDate d) w) = Inr (on_context (context_setPivotDate d) w)" by (rule updateLayout_live)
  then show ?thesis
    by (simp add: widget_setPivotDate_def no_ops_def on_context_def context_setPivotDate_def setPivotDate_def)
qed

text \<open>C25 The date bar of a planning widget, in the runs of the widget in which the stream of reservations is never cleared and no
  dragged reservation is updated or removed (\<open>widget_reachable\<close>), as long as its scene lies within the calendar (\<open>bar_dates\<close>):
  both loops end and no pointer of the selection dangles.  Pressing any position of the scene but its last pixel changes the
  pivot to the date nearest to that position, except for the pixel by which the present pivot's item overlaps the next, where the pivot stays.
  Above each day is one month, which is the day's, and each selected reservation has an item from its first day to its last.\<close>

theorem date_bar_follows_widget:
  assumes "tool_calendar G" and "\<And>b. alloc b \<notin> fst ` set (pb_reservations b)" and "widget_reachable G today alloc w"
    and "civil_ok G C" and "l = ctx_layout (pw_context w)" and "bar_dates G l"
  shows "\<exists>s. datebar_of G C A today w = Some (Inr s)
    \<and> (\<forall>x. rect_x (bl_sceneRect l) \<le> x \<and> x < rect_x (bl_sceneRect l) + rect_width (bl_sceneRect l) - 1 \<longrightarrow>
        (\<exists>d w'. pressed_day x s = Some d
          \<and> (d = fst (getNearestDatePosition G x l) \<or> d = bl_pivotDate l \<and> d = fst (getNearestDatePosition G (x - 1) l))
          \<and> handle_event G today alloc (DateClicked d) w = Inr (w', []) \<and> bl_pivotDate (ctx_layout (pw_context w')) = d))
    \<and> (\<forall>item \<in> set (db_days s). \<exists>it. months_over (rect_x (di_rect item) + 1) (db_months s) = [it]
        \<and> mi_month it = cv_month C (di_date item) \<and> mi_year it = cv_year C (di_date item))
    \<and> (\<forall>a \<in> set (ctx_selected (pw_context w)). \<exists>r. live w a = Some r
        \<and> mk_rect (getDatePositionX G (p_begin G (dateRange G r)) l - 1) (monthBarHeight A)
            (days_between G (p_end G (dateRange G r)) (p_begin G (dateRange G r)) * bl_dateColumnWidth l) (daysBarHeight A) \<in> set (db_periods s))"
proof -
  let ?w = "bl_dateColumnWidth l" and ?left = "rect_x (bl_sceneRect l)"
  define k where "k = nearest_column l (?left - ?w)"
  have G: "gregorian_ok G" using assms(1) by (simp add: tool_calendar_def)
  have w: "widget_ok G w" using widget_reachable_ok [OF assms(3,1,2)] .
  have pos: "0 < ?w" using assms(6) by (simp add: bar_dates_def)
  have live: "\<forall>a \<in> set (ctx_selected (pw_context w)). map_of (pb_reservations (board_of w)) a \<noteq> None"
    using selected_live [OF w] by (fastforce simp: live_def)
  obtain s m where s: "datebar_of G C A today w = Some (Inr s)"
      "db_days s = map (\<lambda>j. mk_day_item A l today (column_x l j) (column_date G l j)) [k..m]"
      "\<forall>j \<ge> k. j \<le> m \<longleftrightarrow> column_x l j < ?left + rect_width (bl_sceneRect l)"
      "db_periods s = map (period_item_rect G A l)
        (bl_highlightedPeriods l @ map (\<lambda>a. dateRange G (the (map_of (pb_reservations (board_of w)) a))) (ctx_selected (pw_context w)))"
      "\<forall>j \<in> {k..m}. month_fits G C l (db_months s) j"
    using rebuildScene_ok [OF G assms(4,6) live k_def, of A today] unfolding datebar_of_def assms(5) by blast
  have "pressed_day x s = Some (fst (getNearestDatePosition G x l))
      \<or> pressed_day x s = Some (bl_pivotDate l) \<and> bl_pivotDate l = fst (getNearestDatePosition G (x - 1) l)"
    if x: "?left \<le> x" "x < ?left + rect_width (bl_sceneRect l) - 1" for x
  proof -
    let ?n = "nearest_column l x"
    have n: "column_x l ?n - 1 \<le> x" "x < column_x l ?n - 1 + ?w" using nearest_column_iff [OF pos, of x ?n] by simp_all
    have "column_x l k - 1 \<le> ?left - ?w" "?left - ?w < column_x l k - 1 + ?w" using nearest_column_iff [OF pos, of "?left - ?w" k] k_def by simp_all
    then have "\<not> column_x l ?n \<le> column_x l k" using n(2) x(1) by linarith
    then have "k < ?n" using column_x_le [OF pos, of ?n k] by simp
    moreover have "column_x l ?n < ?left + rect_width (bl_sceneRect l)" using n(1) x(2) by linarith
    ultimately show ?thesis using pressed_day_nearest [OF pos s(2), of x] s(3) by (simp add: nearest_column_date)
  qed
  moreover have "\<exists>w'. handle_event G today alloc (DateClicked d) w = Inr (w', []) \<and> bl_pivotDate (ctx_layout (pw_context w')) = d" for d
    using set_pivot [OF w] .
  moreover have "\<exists>it. months_over (rect_x (di_rect item) + 1) (db_months s) = [it]
      \<and> mi_month it = cv_month C (di_date item) \<and> mi_year it = cv_year C (di_date item)" if item: "item \<in> set (db_days s)" for item
  proof -
    obtain j where "j \<in> {k..m}" "item = mk_day_item A l today (column_x l j) (column_date G l j)" using item s(2) by auto
    then show ?thesis using bspec [OF s(5), of j] by (auto simp: month_fits_def)
  qed
  moreover have "\<exists>r. live w a = Some r
      \<and> mk_rect (getDatePositionX G (p_begin G (dateRange G r)) l - 1) (monthBarHeight A)
          (days_between G (p_end G (dateRange G r)) (p_begin G (dateRange G r)) * ?w) (daysBarHeight A) \<in> set (db_periods s)"
    if a: "a \<in> set (ctx_selected (pw_context w))" for a
  proof -
    obtain r where r: "live w a = Some r" using selected_live [OF w a] by blast
    then have "period_item_rect G A l (dateRange G r) \<in> set (db_periods s)" using a s(4) by (force simp: live_def)
    then show ?thesis using r by (simp add: period_item_rect_def Let_def distrib_right)
  qed
  ultimately show ?thesis using s(1) by (intro exI [of _ s]) blast
qed

lemma demo_bar:
  "\<exists>w. mk_planning_widget day_calendar 2000 = Inr w \<and> bar_dates day_calendar (ctx_layout (pw_context w))
    \<and> rect_x (bl_sceneRect (ctx_layout (pw_context w))) = -192 \<and> rect_width (bl_sceneRect (ctx_layout (pw_context w))) = 9692"
proof -
  have "p_merge day_calendar (2000, 2000) (1993, 2365) = (1993, 2365)" by (simp add: day_calendar_def)
  then obtain w where w: "mk_planning_widget day_calendar 2000 = Inr w" "bl_sceneRect (ctx_layout (pw_context w)) = mk_rect (-192) 0 9692 20"
      "bl_originDate (ctx_layout (pw_context w)) = 2000" "bl_dateColumnWidth (ctx_layout (pw_context w)) = 26"
    by (simp add: mk_planning_widget_def context_initializeLayout_def setDataBackend_def context_setPivotDate_def mk_context_def
        initializeLayout_def Let_def updateDateRange_def getPlanningExtent_def empty_board_def on_context_def setSceneRect_def
        appendSeparatorRow_def getHeight_def mk_row_geometry_def row_bottom_def setPivotDate_def mk_board_layout_def
        getDatePositionX_def mk_rect_def)
  then have "bar_dates day_calendar (ctx_layout (pw_context w))"
    by (auto simp: bar_dates_def column_date_def column_x_def mk_rect_def)
  then show ?thesis using w by (simp add: mk_rect_def)
qed

theorem date_bar_follows_widget_witness:
  "\<exists>w s d. widget_reachable day_calendar 2000 new_addr w \<and> datebar_of day_calendar thirty mk_appearance 2000 w = Some (Inr s)
    \<and> pressed_day 100 s = Some d \<and> (\<exists>w'. handle_event day_calendar 2000 new_addr (DateClicked d) w = Inr (w', []))"
proof -
  obtain w where w: "mk_planning_widget day_calendar 2000 = Inr w" "bar_dates day_calendar (ctx_layout (pw_context w))"
      "rect_x (bl_sceneRect (ctx_layout (pw_context w))) = -192" "rect_width (bl_sceneRect (ctx_layout (pw_context w))) = 9692"
    using demo_bar by blast
  have r: "widget_reachable day_calendar 2000 new_addr w" by (rule widget_reachable.construct [OF w(1)])
  obtain s where s: "datebar_of day_calendar thirty mk_appearance 2000 w = Some (Inr s)"
      "\<forall>x. -192 \<le> x \<and> x < 9499 \<longrightarrow> (\<exists>d w'. pressed_day x s = Some d
          \<and> handle_event day_calendar 2000 new_addr (DateClicked d) w = Inr (w', []))"
    using date_bar_follows_widget [OF day_calendar_tools new_addr_fresh r thirty_ok refl w(2), of mk_appearance] w(3,4) by fastforce
  have "(-192 :: int) \<le> 100 \<and> (100 :: int) < 9499" by simp
  then obtain d w' where "pressed_day 100 s = Some d" "handle_event day_calendar 2000 new_addr (DateClicked d) w = Inr (w', [])"
    using s(2) by blast
  then show ?thesis using r s(1) by blast
qed

end
