(* ===== verification/WidgetMirror.thy ===== *)
theory WidgetMirror
  imports WidgetSafety BackendMirror
begin

text \<open>
  From the database to the screen: \<open>gui::DataStreamObserverAdapter\<close>, which turns the callbacks of an observer into signals, and the
  slots \<open>PlanningWidget\<close> connects to them.  The planning widget, as the observer of a stream of reservations, shows the
  reservations of the database for as long as no two of them want the same room night.
\<close>

section \<open>Adapter\<close>

text \<open>A signal calls its slots in the order they were connected.\<close>

type_synonym ('a, 'o) slots = "('a \<Rightarrow> 'o \<Rightarrow> 'o res) list"

definition emit :: "('a, 'o) slots \<Rightarrow> 'a \<Rightarrow> 'o \<Rightarrow> 'o res" where
  "emit slots x obs = fold_res (\<lambda>slot. slot x) slots obs"

record ('a, 'o) adapter =
  itemsAddedSignal :: "('a list, 'o) slots"
  itemsUpdatedSignal :: "('a list, 'o) slots"
  itemsRemovedSignal :: "(int list, 'o) slots"
  allItemsRemovedSignal :: "(unit, 'o) slots"
  initializedSignal :: "(unit, 'o) slots"

definition adapter_ops :: "('p streamable_items \<Rightarrow> 'a list res) \<Rightarrow> ('a, 'o) adapter \<Rightarrow> ('p, 'o) observer_ops" where
  "adapter_ops get d =
     \<lparr>on_add = (\<lambda>items obs. bindr (get items) (\<lambda>xs. emit (itemsAddedSignal d) xs obs)),
      on_update = (\<lambda>items obs. bindr (get items) (\<lambda>xs. emit (itemsUpdatedSignal d) xs obs)),
      on_remove = emit (itemsRemovedSignal d), on_clear = emit (allItemsRemovedSignal d) (),
      on_initialized = emit (initializedSignal d) ()\<rparr>"

text \<open>The slots the constructor of \<open>PlanningWidget\<close> connects.\<close>

definition reservations_stream ::
    "('d::linorder, 'p) gregorian \<Rightarrow> 'd \<Rightarrow> ('p planning_board \<Rightarrow> addr) \<Rightarrow> ('p reservation, ('d, 'p) planning_widget) adapter" where
  "reservations_stream G today alloc =
     \<lparr>itemsAddedSignal = [reservationsAdded G today alloc], itemsUpdatedSignal = [reservationsUpdated G today alloc],
      itemsRemovedSignal = [reservationsRemoved G today], allItemsRemovedSignal = [\<lambda>_ w. Inr (allReservationsRemoved w)],
      initializedSignal = []\<rparr>"

definition hotels_stream :: "(hotel, ('d, 'p) planning_widget) adapter" where
  "hotels_stream =
     \<lparr>itemsAddedSignal = [hotelsAdded], itemsUpdatedSignal = [hotelsUpdated], itemsRemovedSignal = [hotelsRemoved],
      allItemsRemovedSignal = [\<lambda>_. allHotelsRemoved], initializedSignal = []\<rparr>"

definition reservations_observer ::
    "('d::linorder, 'p) gregorian \<Rightarrow> 'd \<Rightarrow> ('p planning_board \<Rightarrow> addr) \<Rightarrow> ('p, ('d, 'p) planning_widget) observer_ops" where
  "reservations_observer G today alloc = adapter_ops get_reservations (reservations_stream G today alloc)"

definition hotels_observer :: "('p, ('d, 'p) planning_widget) observer_ops" where
  "hotels_observer = adapter_ops get_hotels hotels_stream"

lemma emit_one [simp]: "emit [slot] x obs = slot x obs" and emit_none [simp]: "emit [] x obs = Inr obs"
  by (cases "slot x obs"; simp add: emit_def)+

lemma reservations_observer_notify [simp]:
  "notify (reservations_observer G today alloc) (ItemsAdded (ReservationItems rs)) w = reservationsAdded G today alloc rs w"
  "notify (reservations_observer G today alloc) (ItemsUpdated (ReservationItems rs)) w = reservationsUpdated G today alloc rs w"
  "notify (reservations_observer G today alloc) (ItemsRemoved ids) w = reservationsRemoved G today ids w"
  "notify (reservations_observer G today alloc) Initialized w = Inr w"
  by (simp_all add: notify_def reservations_observer_def adapter_ops_def reservations_stream_def get_reservations_def)

section \<open>The board as a map\<close>












section \<open>The handlers follow the changes\<close>















section \<open>Properties\<close>







end
