(* ===== verification/Spec2Isabelle.thy ===== *)
theory Spec2Isabelle
  imports Prelude Gregorian Hotel HotelCollection Reservation Planning
    Json Operations JsonSerializer NetSerializer DataStreams ChangeQueue Framing NetClient NetSession
    CancelToken Executors Futures SqliteStatement SqliteStorage SqliteBackend
    StorageSpec BackendSpec BackendMirror
    BoardLayout ReservationTools PlanningContext WidgetSafety EditReservation FasStream ChangeOwners TestData HotelStore RemoteBackend NetServer
    Painting DateBar WidgetMirror
begin

text \<open>
  Verification of the hotel booking program: the planning board and its data, the user interface that edits it, the
  database and the server behind it, the network protocol between them, and the futures all of them run on.

  \<^bold>\<open>The program.\<close>  A \<open>PlanningBoard\<close> (\<open>src/hotel\<close>) says which reservation occupies which room in which night.  A
  backend (\<open>src/persistence\<close>) stores hotels and reservations and tells its clients of changes: \<open>SqliteBackend\<close> runs
  tasks, lists of operations, on a worker thread against a SQLite database; \<open>NetClientBackend\<close> sends them over a
  socket to a server, where a \<open>NetClientSession\<close> (\<open>src/server\<close>) hands them to another backend.  Changes travel back
  as the changes of data streams: the worker pushes them into a \<open>ChangeQueue\<close>, whose owner applies them to the
  observers of each stream.  One observer is the session, which writes them to the socket as JSON; another is the
  \<open>PlanningWidget\<close> (\<open>src/gui\<close>), which keeps a board and the items that show it.  Its tools draw and move
  reservations and send operations, which closes the circle.  Results of tasks, and cancellation, are
  futures (\<open>src/fas\<close>).

  \<^bold>\<open>Conventions.\<close>  A C++ call that may throw, assert or be undefined gives a value of the sum type \<open>'a res\<close>; the
  three are different errors.  Loops with such a body are \<open>fold_res\<close> and \<open>map_res\<close>.  Objects are records;
  \<open>std::map\<close> is a list ordered by its keys; pointers that are compared or kept are addresses into an explicit store
  (\<open>Planning\<close>, \<open>DataStreams\<close>, \<open>Futures\<close>, \<open>PlanningContext\<close>), so a dangling one is an address without an object.
  Threads are steps that interleave freely; what a mutex makes atomic is one step.  Signals whose slots only
  repaint are left out.  A well-formedness predicate of a component is called \<open>..._ok\<close>.

  \<^bold>\<open>Code outside the repository\<close> is a parameter, with its documented behaviour as a named hypothesis that an
  instance satisfies: Boost.Date_Time is \<open>G\<close> with \<open>gregorian_ok\<close> (and \<open>iso_ok\<close>, the texts are ordered as the dates,
  and \<open>tool_calendar\<close>, adding the largest \<open>int\<close> passes every ordinary date), satisfied by \<open>day_calendar\<close>; SQLite is
  \<open>S\<close> with \<open>sql_ok\<close>, the effect of each query text on tables, satisfied by \<open>table_db\<close> (and \<open>select_ok\<close>, the rows of a
  query without an order, satisfied by \<open>hotel_db\<close>); the JSON library's text is \<open>T\<close> with its round trip; random
  numbers are \<open>R\<close> with \<open>random_ok\<close>, satisfied by \<open>lowest\<close>; what Qt's input widgets make of a value is \<open>Q\<close>, and
  what painting uses of Qt \<open>Q\<close> with \<open>arg_ok\<close>, the replacement of place markers, satisfied by \<open>first_arg\<close>; months and weekdays are
  \<open>C\<close> with \<open>civil_ok\<close>, satisfied by \<open>thirty\<close>; and \<open>early\<close>
  is the moment Boost.Asio opens an accepted socket, about which nothing is assumed.

  \<^bold>\<open>Theories\<close>, and what they model under \<open>src/\<close>:
  \<^item> \<open>Prelude\<close>: outcomes, loops, \<open>std::find_if\<close>, \<open>std::upper_bound\<close>, \<open>std::map\<close>.  \<open>Gregorian\<close>: dates and periods.
  \<^item> \<open>Hotel\<close>, \<open>HotelCollection\<close>, \<open>Reservation\<close>: \<open>hotel/\<close>, files of the same names, \<open>person\<close> and
    \<open>persistentobject\<close>.  Every constructor, copy, comparison, lookup and change; reservations are chains of stays,
    kept so by all changes; joining equals a reference merge.
  \<^item> \<open>Planning\<close>: \<open>hotel/planning\<close>.  The board's index of atom pointers per room; no double booking, exact answers of
    \<open>isFree\<close>, \<open>addReservation\<close>, \<open>getAvailableDaysFrom\<close> (a binary search) and \<open>getPlanningExtent\<close>.
  \<^item> \<open>Operations\<close>, \<open>Json\<close>, \<open>JsonSerializer\<close>, \<open>NetSerializer\<close>: \<open>persistence/op\<close>, \<open>persistence/json\<close> and
    \<open>persistence/net/jsonserializer\<close>.  Round trips through JSON for all items, operations and messages.
  \<^item> \<open>TestData\<close>: the random hotels and reservations of \<open>guiapp/testdata\<close>, the largest client of the two above; every
    completed reservation is accepted by the board.
  \<^item> \<open>DataStreams\<close>, \<open>ChangeQueue\<close>: \<open>persistence/datastream\<close>, \<open>datastreamobserver\<close>, \<open>changequeue\<close>.  Delivery of each
    stream's changes in order; the locale \<open>reservation_mirror\<close> is what an observer of reservations promises.
  \<^item> \<open>ChangeOwners\<close>: \<open>gui/datasourcechangeintegrator\<close> and the change handler of \<open>server/netserver\<close>, the two owners of a
    queue; the locale \<open>change_owner\<close>, a signal is followed by an application of the changes, has an interpretation for each.
  \<^item> \<open>Framing\<close>, \<open>NetClient\<close>, \<open>NetSession\<close>: \<open>persistence/net/netclientbackend\<close>, \<open>server/netclientsession\<close>,
    \<open>server/messagesender\<close>.  Length-prefixed messages survive any chunking; the locale \<open>message_sender\<close> is the write
    queue both ends have, one message at a time, in order; changes at the server reach the client's streams.
  \<^item> \<open>RemoteBackend\<close>: client, session, backend and the bytes in between as one system of interleaved threads.  For calls
    the session can read it refines a program that calls the backend itself, save that the client ignores the clearing of
    a stream, and comes to rest with everything else delivered.
  \<^item> \<open>NetServer\<close>: \<open>server/netserver\<close> and the handlers of its \<open>netclientsession\<close>s, which read and run commands and write
    messages, results and changes, with Boost.Asio's outstanding operations and ready handlers.  The shutdown ends the thread, unless an
    accepted connection waits for its handler; a malformed command read before it terminates the program.
  \<^item> \<open>CancelToken\<close>, \<open>Executors\<close>, \<open>Futures\<close>: \<open>fas/cancellation\<close>, \<open>queueexecutor.h\<close>, \<open>threadedexecutor.h\<close>, \<open>future\<close>.
    Shared states, continuations and cancellation under every interleaving: no assertion fails, a held future
    delivers, \<open>executeFuture\<close> returns.
  \<^item> \<open>FasStream\<close>: \<open>fas/stream.h\<close>, chains of stages over producer, holder and executors' threads.  A stream refines a queue,
    and its threads finish.
  \<^item> \<open>SqliteStatement\<close>, \<open>SqliteStorage\<close>, \<open>SqliteBackend\<close>: \<open>persistence/sqlite\<close>.  Statements, every query, tasks and
    the worker's loop.
  \<^item> \<open>StorageSpec\<close>, \<open>BackendSpec\<close>, \<open>BackendMirror\<close>: the promises of that stack.  The storage refines an abstract store
    of reservations; a task is a transaction (locale \<open>storage_invariant\<close>: what every operation keeps of the
    tables); a new stream of reservations mirrors the database unless a task updates a deleted reservation or leaves one
    without atoms, and \<open>revived_reservation_not_shown\<close> shows that the exception is real.
  \<^item> \<open>HotelStore\<close>: the queries of hotels, which survive the database up to the order of rows.
  \<^item> \<open>BoardLayout\<close>, \<open>ReservationTools\<close>: \<open>gui/planningwidget/planningboardlayout\<close>, \<open>newreservationtool\<close>,
    \<open>movereservationtool\<close>.  Rows tile the board; what the tools send fits into the plan.
  \<^item> \<open>PlanningContext\<close>, \<open>WidgetSafety\<close>: \<open>gui/planningwidget/context\<close>, \<open>planningboardwidget\<close>,
    \<open>planningboardreservationitem\<close>, \<open>gui/planningwidget\<close>.  All handlers as one function of events; runs of events never
    follow a dangling pointer as long as the stream is not cleared and what the move tool drags is not changed:
    \<open>cleared_selection_dangles\<close> shows what happens otherwise.
  \<^item> \<open>EditReservation\<close>: \<open>gui/dialogs/editreservation\<close>.  The three-way merge settles field by field, and saving sends
    the newest version in every run in which the reservation is removed at most once and not updated after that or under a
    message box; \<open>second_removal_fails\<close> shows an assertion failing otherwise.
  \<^item> \<open>Painting\<close>, \<open>DateBar\<close>: the paint methods and \<open>planningboardlayout\<close>'s appearance, \<open>reservationrenderer\<close>,
    \<open>roomlistwidget\<close>, \<open>datebarwidget\<close>.  A paint method is the list of its calls on the painter: what is written on a stay, what
    the privacy renderer hides, which date a press on the bar chooses.
  \<^item> \<open>WidgetMirror\<close>: \<open>gui/datastreamobserveradapter\<close> and the slots of the planning widget.  Worker, stream and widget composed:
    the board shows the database under the conditions of \<open>BackendMirror\<close> and as long as no two reservations want the same
    room night; a reservation that does makes the slot throw.

  \<^bold>\<open>Bounds.\<close>  Numbers of JSON and SQLite are read as 32-bit integers, wrapping around where the code casts
  (\<open>to_int32\<close>); round trips assume items within the range, the storage that fewer than \<open>2 ^ 31\<close> rows are inserted.
  The header of a message is a 32-bit word, so a message has less than \<open>2 ^ 32\<close> bytes; numbers of operations and streams
  are an \<open>int\<close>, so \<open>RemoteBackend\<close> assumes fewer than \<open>2 ^ 30\<close> events of a run.  \<open>getAvailableDaysFrom\<close> returns the largest \<open>int\<close> for a room that is
  never taken again.  Coordinates are integers far from the bounds of \<open>int\<close>.  No definition uses fuel: the binary
  search terminates by a measure, and termination of \<open>executeFuture\<close> is a property.

  \<^bold>\<open>Not modelled.\<close>  What Qt makes of the calls on a painter, its layouts, scroll bars and cursors, and when it repaints; the
  status bar, which stores one message; the command lines of the two applications and \<open>createTestData\<close>, which hands the
  sample data to a backend and waits; the socket calls, timers and threads of Boost.Asio and the resolving of host names:
  what completes is an event here.  The registration of the process-wide executor.  Memory order: steps interleave, so
  data races show as findings of the manifest, not as theorems.  All of it is calls of libraries without logic of the
  program's own.
\<close>

end
